(* ===== verification/Prelude.thy ===== *)
theory Prelude
  imports Main "HOL-Library.Word"
begin

text \<open>
  The vocabulary every other theory shares: the result of a Rust call (a value, an error or a
  panic), bytes and byte readers, big-endian encoding, the \<^verbatim>\<open>Vec\<close> primitives that can panic, and
  the generic list lemmas that the component proofs use. Nothing here models a file of the
  repository; it is the part of Rust and of its standard library that the other theories
  translate into. Sizes and indices (\<^verbatim>\<open>usize\<close>) are \<open>nat\<close>: every one of them is bounded by the
  length of an allocated vector or by a page, so no \<^verbatim>\<open>usize\<close> sum in the modelled code can reach
  \<open>2 ^ 64\<close>; where a subtraction could go below zero the model branches on it.
\<close>

named_theorems result_simps \<open>inversion of the result combinators\<close>
named_theorems codec_simps \<open>evaluation of readers on a value they have just been given\<close>

section \<open>Results\<close>

text \<open>
  \<^verbatim>\<open>Result<T, E>\<close> plus the third way a Rust call can end. \<open>Panic\<close> is the value of every
  \<^verbatim>\<open>panic!\<close>, failed \<^verbatim>\<open>unwrap\<close>/\<^verbatim>\<open>expect\<close>/\<^verbatim>\<open>assert!\<close>, out-of-range index and reached
  \<^verbatim>\<open>unreachable!\<close> of the source.
\<close>

datatype ('a, 'e) result = Ok 'a | Err 'e | Panic

fun rbind :: "('a, 'e) result \<Rightarrow> ('a \<Rightarrow> ('b, 'e) result) \<Rightarrow> ('b, 'e) result" where
  "rbind (Ok x) f = f x"
| "rbind (Err e) f = Err e"
| "rbind Panic f = Panic"

fun map_err :: "('e \<Rightarrow> 'f) \<Rightarrow> ('a, 'e) result \<Rightarrow> ('a, 'f) result" where
  "map_err g (Ok x) = Ok x"
| "map_err g (Err e) = Err (g e)"
| "map_err g Panic = Panic"

fun is_ok :: "('a, 'e) result \<Rightarrow> bool" where
  "is_ok (Ok x) = True"
| "is_ok (Err e) = False"
| "is_ok Panic = False"

text \<open>\<^verbatim>\<open>Option::ok_or\<close> and \<^verbatim>\<open>Option::expect\<close>.\<close>

fun ok_or :: "'e \<Rightarrow> 'a option \<Rightarrow> ('a, 'e) result" where
  "ok_or e (Some x) = Ok x"
| "ok_or e None = Err e"

fun expect :: "'a option \<Rightarrow> ('a, 'e) result" where
  "expect (Some x) = Ok x"
| "expect None = Panic"

lemma rbind_Ok_iff [result_simps]: "rbind m f = Ok y \<longleftrightarrow> (\<exists>x. m = Ok x \<and> f x = Ok y)"
  by (cases m) auto

lemma rbind_Panic_iff: "rbind m f = Panic \<longleftrightarrow> m = Panic \<or> (\<exists>x. m = Ok x \<and> f x = Panic)"
  by (cases m) auto

lemma rbind_Err_iff: "rbind m f = Err e \<longleftrightarrow> m = Err e \<or> (\<exists>x. m = Ok x \<and> f x = Err e)"
  by (cases m) auto

lemma map_err_Ok_iff [result_simps]: "map_err g m = Ok y \<longleftrightarrow> m = Ok y"
  by (cases m) auto

lemma map_err_Panic_iff [simp]: "map_err g m = Panic \<longleftrightarrow> m = Panic"
  by (cases m) auto

lemma map_err_Err_iff: "map_err g m = Err e \<longleftrightarrow> (\<exists>e'. m = Err e' \<and> e = g e')"
  by (cases m) auto

lemma ok_or_Ok_iff [result_simps]: "ok_or e m = Ok x \<longleftrightarrow> m = Some x"
  by (cases m) auto

lemma ok_or_not_Panic [simp]: "ok_or e m \<noteq> Panic"
  by (cases m) auto

lemma expect_Ok_iff [result_simps]: "expect m = Ok x \<longleftrightarrow> m = Some x"
  by (cases m) auto

lemma expect_Panic_iff [simp]: "expect m = Panic \<longleftrightarrow> m = None"
  by (cases m) auto

lemma expect_not_Err [simp]: "expect m \<noteq> Err e"
  by (cases m) auto

lemma is_ok_iff: "is_ok m \<longleftrightarrow> (\<exists>x. m = Ok x)"
  by (cases m) auto

section \<open>Bytes and readers\<close>

type_synonym byte = "8 word"

text \<open>
  \<^verbatim>\<open>std::io::Error\<close>, by the \<^verbatim>\<open>ErrorKind\<close>s the modelled code produces or inspects; any other kind
  is \<open>OtherIo\<close>.
\<close>

datatype io_error = UnexpectedEof | InvalidData | NotFound | WriteZero | OtherIo

text \<open>
  A reader (\<^verbatim>\<open>R: Read\<close>) is the list of bytes not yet read; a deserialiser returns its value and
  the bytes left over. A writer that cannot fail (\<^verbatim>\<open>Vec<u8>\<close>) is the list of bytes it is given,
  so a serialiser returns the bytes it writes.
\<close>

type_synonym ('a, 'e) reader = "byte list \<Rightarrow> ('a \<times> byte list, 'e) result"

definition read_exact :: "nat \<Rightarrow> (byte list, io_error) reader" where
  "read_exact n bs = (if length bs < n then Err UnexpectedEof else Ok (take n bs, drop n bs))"

fun read_u8 :: "(byte, io_error) reader" where
  "read_u8 [] = Err UnexpectedEof"
| "read_u8 (b # bs) = Ok (b, bs)"

lemma read_exact_append [codec_simps]: "length xs = n \<Longrightarrow> read_exact n (xs @ ys) = Ok (xs, ys)"
  by (auto simp: read_exact_def)

lemma read_exact_Ok_iff [result_simps]:
  "read_exact n bs = Ok (xs, ys) \<longleftrightarrow> bs = xs @ ys \<and> length xs = n"
  by (auto simp: read_exact_def)

lemma read_exact_not_Panic [simp]: "read_exact n bs \<noteq> Panic"
  by (simp add: read_exact_def)

lemma read_u8_Ok_iff [result_simps]: "read_u8 bs = Ok (b, r) \<longleftrightarrow> bs = b # r"
  by (cases bs) auto

lemma read_u8_not_Panic [simp]: "read_u8 bs \<noteq> Panic"
  by (cases bs) auto

section \<open>Big-endian integers\<close>

text \<open>\<open>be_bytes n v\<close> is the \<open>n\<close>-byte big-endian encoding of \<open>v\<close>, \<open>be_nat\<close> reads one back.\<close>

fun be_bytes :: "nat \<Rightarrow> nat \<Rightarrow> byte list" where
  "be_bytes 0 v = []"
| "be_bytes (Suc n) v = be_bytes n (v div 256) @ [word_of_nat (v mod 256)]"

definition be_nat :: "byte list \<Rightarrow> nat" where
  "be_nat bs = foldl (\<lambda>acc b. acc * 256 + unat b) 0 bs"

lemma length_be_bytes [simp]: "length (be_bytes n v) = n"
  by (induction n arbitrary: v) auto

lemma be_nat_snoc [simp]: "be_nat (bs @ [b]) = be_nat bs * 256 + unat b"
  by (simp add: be_nat_def)

lemma be_nat_Nil [simp]: "be_nat [] = 0"
  by (simp add: be_nat_def)

lemma unat_byte_less [simp]: "unat (b :: byte) < 256"
  using unsigned_less [of b, where ?'a = nat] by simp

lemma be_nat_be_bytes: "v < 256 ^ n \<Longrightarrow> be_nat (be_bytes n v) = v"
proof (induction n arbitrary: v)
  case 0
  then show ?case by simp
next
  case (Suc n)
  from Suc.prems have "v div 256 < 256 ^ n"
    by (simp add: less_mult_imp_div_less mult.commute)
  then have "be_nat (be_bytes n (v div 256)) = v div 256" by (rule Suc.IH)
  moreover have "unat (word_of_nat (v mod 256) :: byte) = v mod 256"
    by (simp add: unat_of_nat)
  ultimately show ?case by simp
qed

lemma be_bytes_be_nat: "be_bytes (length bs) (be_nat bs) = bs"
  by (induction bs rule: rev_induct) auto

lemma be_nat_less: "be_nat bs < 256 ^ length bs"
proof (induction bs rule: rev_induct)
  case Nil
  then show ?case by simp
next
  case (snoc b bs)
  have "be_nat (bs @ [b]) < be_nat bs * 256 + 256"
    by simp
  also have "\<dots> = Suc (be_nat bs) * 256" by simp
  also have "\<dots> \<le> 256 ^ length bs * 256"
    using snoc.IH by (simp only: mult_le_mono1 Suc_leI)
  finally show ?case by (simp add: mult.commute)
qed

text \<open>\<^verbatim>\<open>uN::to_be_bytes\<close> and \<^verbatim>\<open>uN::from_be_bytes\<close>, at the four widths the code uses.\<close>

definition u16_be :: "16 word \<Rightarrow> byte list" where
  "u16_be w = be_bytes 2 (unat w)"

definition u32_be :: "32 word \<Rightarrow> byte list" where
  "u32_be w = be_bytes 4 (unat w)"

definition u64_be :: "64 word \<Rightarrow> byte list" where
  "u64_be w = be_bytes 8 (unat w)"

definition u16_from_be :: "byte list \<Rightarrow> 16 word" where
  "u16_from_be bs = word_of_nat (be_nat bs)"

definition u32_from_be :: "byte list \<Rightarrow> 32 word" where
  "u32_from_be bs = word_of_nat (be_nat bs)"

definition u64_from_be :: "byte list \<Rightarrow> 64 word" where
  "u64_from_be bs = word_of_nat (be_nat bs)"

lemma length_uN_be [simp]:
  "length (u16_be a) = 2" "length (u32_be b) = 4" "length (u64_be c) = 8"
  by (simp_all add: u16_be_def u32_be_def u64_be_def)

lemma u16_from_to_be [simp]: "u16_from_be (u16_be w) = w"
  using unsigned_less [of w, where ?'a = nat] by (simp add: u16_from_be_def u16_be_def be_nat_be_bytes)

lemma u32_from_to_be [simp]: "u32_from_be (u32_be w) = w"
  using unsigned_less [of w, where ?'a = nat] by (simp add: u32_from_be_def u32_be_def be_nat_be_bytes)

lemma u64_from_to_be [simp]: "u64_from_be (u64_be w) = w"
  using unsigned_less [of w, where ?'a = nat] by (simp add: u64_from_be_def u64_be_def be_nat_be_bytes)

lemma u64_be_from [simp]: "length bs = 8 \<Longrightarrow> u64_be (u64_from_be bs) = bs"
  using be_nat_less [of bs] be_bytes_be_nat [of bs]
  by (simp add: u64_from_be_def u64_be_def unat_of_nat)

lemma u32_be_from [simp]: "length bs = 4 \<Longrightarrow> u32_be (u32_from_be bs) = bs"
  using be_nat_less [of bs] be_bytes_be_nat [of bs]
  by (simp add: u32_from_be_def u32_be_def unat_of_nat)

lemma u16_be_from [simp]: "length bs = 2 \<Longrightarrow> u16_be (u16_from_be bs) = bs"
  using be_nat_less [of bs] be_bytes_be_nat [of bs]
  by (simp add: u16_from_be_def u16_be_def unat_of_nat)

section \<open>Vectors\<close>

text \<open>The \<^verbatim>\<open>Vec\<close> operations that panic when their index is out of range.\<close>

definition vec_index :: "'a list \<Rightarrow> nat \<Rightarrow> ('a, 'e) result" where
  "vec_index xs i = (if i < length xs then Ok (xs ! i) else Panic)"

definition vec_insert :: "nat \<Rightarrow> 'a \<Rightarrow> 'a list \<Rightarrow> ('a list, 'e) result" where
  "vec_insert i x xs = (if i \<le> length xs then Ok (take i xs @ x # drop i xs) else Panic)"

definition vec_remove :: "nat \<Rightarrow> 'a list \<Rightarrow> ('a \<times> 'a list, 'e) result" where
  "vec_remove i xs =
     (if i < length xs then Ok (xs ! i, take i xs @ drop (Suc i) xs) else Panic)"

definition split_off :: "nat \<Rightarrow> 'a list \<Rightarrow> ('a list \<times> 'a list, 'e) result" where
  "split_off i xs = (if i \<le> length xs then Ok (take i xs, drop i xs) else Panic)"

definition vec_first :: "'a list \<Rightarrow> 'a option" where
  "vec_first xs = (case xs of [] \<Rightarrow> None | x # _ \<Rightarrow> Some x)"

definition vec_last :: "'a list \<Rightarrow> 'a option" where
  "vec_last xs = (if xs = [] then None else Some (last xs))"

definition vec_get :: "nat \<Rightarrow> 'a list \<Rightarrow> 'a option" where
  "vec_get i xs = (if i < length xs then Some (xs ! i) else None)"

definition checked_sub :: "nat \<Rightarrow> nat \<Rightarrow> nat option" where
  "checked_sub a b = (if b \<le> a then Some (a - b) else None)"

lemmas vec_defs = vec_index_def vec_insert_def vec_remove_def split_off_def

lemma checked_sub_Some_iff [simp]: "checked_sub a b = Some c \<longleftrightarrow> b \<le> a \<and> c = a - b"
  by (auto simp: checked_sub_def)

lemma checked_sub_None_iff [simp]: "checked_sub a b = None \<longleftrightarrow> a < b"
  by (auto simp: checked_sub_def)

lemma vec_first_simps [simp]: "vec_first [] = None" "vec_first (x # xs) = Some x"
  by (simp_all add: vec_first_def)

lemma vec_first_Some_iff: "vec_first xs = Some x \<longleftrightarrow> xs \<noteq> [] \<and> x = hd xs"
  by (cases xs) auto

lemma vec_last_simps [simp]: "vec_last [] = None" "vec_last (xs @ [x]) = Some x"
  by (simp_all add: vec_last_def)

lemma vec_last_Some_iff: "vec_last xs = Some x \<longleftrightarrow> (\<exists>ys. xs = ys @ [x])"
  by (cases xs rule: rev_cases) (auto simp: vec_last_def)

section \<open>List lemmas\<close>

text \<open>The value a sum of sizes has after an insertion, a removal or a cut.\<close>

lemma sum_list_take_drop:
  "sum_list (map f (take i xs)) + sum_list (map f (drop i xs)) = sum_list (map (f :: _ \<Rightarrow> nat) xs)"
  by (metis append_take_drop_id map_append sum_list_append)

lemma sum_list_insert:
  "sum_list (map f (take i xs @ x # drop i xs)) = sum_list (map (f :: _ \<Rightarrow> nat) xs) + f x"
  using sum_list_take_drop [of f i xs] by simp

lemma sum_list_remove:
  "i < length xs \<Longrightarrow>
    sum_list (map f (take i xs @ drop (Suc i) xs)) + f (xs ! i) = sum_list (map (f :: _ \<Rightarrow> nat) xs)"
  using sum_list_take_drop [of f i xs] by (simp add: Cons_nth_drop_Suc [symmetric])

lemma member_le_sum_list_map: "x \<in> set xs \<Longrightarrow> (f x :: nat) \<le> sum_list (map f xs)"
  by (induction xs) auto

lemma sum_list_lower_bound: "(\<forall>x \<in> set xs. c \<le> (f x :: nat)) \<Longrightarrow> length xs * c \<le> sum_list (map f xs)"
  by (induction xs) auto

lemma sum_list_upper_bound: "(\<forall>x \<in> set xs. (f x :: nat) \<le> c) \<Longrightarrow> sum_list (map f xs) \<le> length xs * c"
  by (induction xs) auto

lemma set_insert_at: "set (take i xs @ x # drop i xs) = insert x (set xs)"
  by (metis Un_insert_right append_take_drop_id list.simps(15) set_append)

lemma set_remove_at_subset: "set (take i xs @ drop (Suc i) xs) \<subseteq> set xs"
  using set_take_subset set_drop_subset by fastforce

lemma sorted_less_conv_successively:
  "sorted_wrt (<) (xs :: 'a :: linorder list) \<longleftrightarrow> successively (<) xs"
  by (rule successively_conv_sorted_wrt [symmetric]) (rule transp_on_less)

end
