(* ===== verification/Rust_Std.thy ===== *)
theory Rust_Std
  imports Prelude
begin

text \<open>
  The standard-library functions the program relies on, written out: UTF-8 validation
  (\<^verbatim>\<open>String::from_utf8\<close>), slice binary search and \<^verbatim>\<open>partition_point\<close>, \<^verbatim>\<open>clamp\<close>, \<^verbatim>\<open>position\<close> over
  running sums, and equality of \<^verbatim>\<open>f64\<close>; and the environment record that carries what is not
  under \<^verbatim>\<open>src/\<close>: the \<^verbatim>\<open>integer_encoding\<close> varints, the \<^verbatim>\<open>crc32_light\<close> checksum and the build's
  \<^verbatim>\<open>debug_assertions\<close> flag. The binary search is shown equivalent to its specification on
  sorted slices (\<open>binary_search_sorted\<close>), which is what the page operations use.
\<close>

section \<open>Strings\<close>

text \<open>
  A Rust \<^verbatim>\<open>String\<close> is its UTF-8 bytes: \<^verbatim>\<open>len()\<close> counts bytes, \<^verbatim>\<open>cmp\<close> compares bytes, \<^verbatim>\<open>as_bytes\<close> is
  the identity. That the bytes are well-formed UTF-8 is the invariant of the Rust type, stated
  where it matters (\<open>utf8_valid\<close>).
\<close>

type_synonym rstring = "byte list"

definition utf8_cont :: "byte \<Rightarrow> bool" where
  "utf8_cont b \<longleftrightarrow> 0x80 \<le> b \<and> b \<le> 0xBF"

text \<open>The well-formed byte sequences of the Unicode standard, as \<^verbatim>\<open>core::str::from_utf8\<close> accepts them.\<close>

fun utf8_valid :: "byte list \<Rightarrow> bool" where
  "utf8_valid [] \<longleftrightarrow> True"
| "utf8_valid (a # r) \<longleftrightarrow>
     (if a < 0x80 then utf8_valid r
      else case r of
        [] \<Rightarrow> False
      | b # r2 \<Rightarrow>
        (if 0xC2 \<le> a \<and> a \<le> 0xDF then utf8_cont b \<and> utf8_valid r2
         else case r2 of
           [] \<Rightarrow> False
         | c # r3 \<Rightarrow>
           (if a = 0xE0 then 0xA0 \<le> b \<and> b \<le> 0xBF \<and> utf8_cont c \<and> utf8_valid r3
            else if a = 0xED then 0x80 \<le> b \<and> b \<le> 0x9F \<and> utf8_cont c \<and> utf8_valid r3
            else if 0xE1 \<le> a \<and> a \<le> 0xEF then utf8_cont b \<and> utf8_cont c \<and> utf8_valid r3
            else case r3 of
              [] \<Rightarrow> False
            | d # r4 \<Rightarrow>
              (if a = 0xF0 then 0x90 \<le> b \<and> b \<le> 0xBF \<and> utf8_cont c \<and> utf8_cont d \<and> utf8_valid r4
               else if a = 0xF4 then 0x80 \<le> b \<and> b \<le> 0x8F \<and> utf8_cont c \<and> utf8_cont d \<and> utf8_valid r4
               else if 0xF1 \<le> a \<and> a \<le> 0xF3 then utf8_cont b \<and> utf8_cont c \<and> utf8_cont d \<and> utf8_valid r4
               else False))))"

text \<open>\<^verbatim>\<open>String::from_utf8\<close>; its error carries no information the code uses.\<close>

definition from_utf8 :: "byte list \<Rightarrow> (rstring, unit) result" where
  "from_utf8 bs = (if utf8_valid bs then Ok bs else Err ())"

lemma from_utf8_Ok_iff [result_simps]: "from_utf8 bs = Ok s \<longleftrightarrow> utf8_valid bs \<and> s = bs"
  by (auto simp: from_utf8_def)

lemma from_utf8_not_Panic [simp]: "from_utf8 bs \<noteq> Panic"
  by (simp add: from_utf8_def)

section \<open>Floats\<close>

text \<open>
  An \<^verbatim>\<open>f64\<close> is its IEEE-754 bit pattern (\<^verbatim>\<open>to_be_bytes\<close>/\<^verbatim>\<open>from_be_bytes\<close> preserve it).
  \<open>f64_eq\<close> is \<^verbatim>\<open>PartialEq\<close>: NaN equals nothing and the two zeros are equal.
\<close>

definition f64_is_nan :: "64 word \<Rightarrow> bool" where
  "f64_is_nan b \<longleftrightarrow> unat b mod 2 ^ 63 > 0x7FF0000000000000"

definition f64_eq :: "64 word \<Rightarrow> 64 word \<Rightarrow> bool" where
  "f64_eq a b \<longleftrightarrow>
     \<not> f64_is_nan a \<and> \<not> f64_is_nan b \<and>
     (a = b \<or> unat a mod 2 ^ 63 = 0 \<and> unat b mod 2 ^ 63 = 0)"

section \<open>Comparison and binary search\<close>

datatype ordering = Less | Equal | Greater

definition cmp :: "'a :: linorder \<Rightarrow> 'a \<Rightarrow> ordering" where
  "cmp a b = (if a < b then Less else if a = b then Equal else Greater)"

lemma cmp_simps [simp]:
  "cmp a b = Less \<longleftrightarrow> a < b" "cmp a b = Equal \<longleftrightarrow> a = b" "cmp a b = Greater \<longleftrightarrow> b < a"
  by (auto simp: cmp_def)

text \<open>The result of a binary search: \<^verbatim>\<open>Ok(i)\<close> is \<open>Found i\<close>, \<^verbatim>\<open>Err(i)\<close> is \<open>Insert_At i\<close>.\<close>

datatype search = Found nat | Insert_At nat

text \<open>
  \<^verbatim>\<open>[T]::binary_search_by\<close> as the standard library computes it: halve the window until one
  element is left, keeping its base. \<open>f i\<close> is the comparison of the element at index \<open>i\<close> with
  the target; \<open>None\<close> means that the comparison closure panicked.
\<close>

function bs_loop :: "(nat \<Rightarrow> ordering option) \<Rightarrow> nat \<Rightarrow> nat \<Rightarrow> nat option" where
  "bs_loop f sz base =
     (if sz \<le> 1 then Some base
      else case f (base + sz div 2) of
        None \<Rightarrow> None
      | Some c \<Rightarrow>
          bs_loop f (sz - sz div 2) (if c = Greater then base else base + sz div 2))"
  by pat_completeness auto
termination
  by (relation "measure (\<lambda>(f, sz, base). sz)") auto

declare bs_loop.simps [simp del]

definition binary_search_by :: "('a \<Rightarrow> ordering option) \<Rightarrow> 'a list \<Rightarrow> search option" where
  "binary_search_by f xs =
     (if xs = [] then Some (Insert_At 0)
      else case bs_loop (\<lambda>i. f (xs ! i)) (length xs) 0 of
        None \<Rightarrow> None
      | Some base \<Rightarrow>
          (case f (xs ! base) of
            None \<Rightarrow> None
          | Some Equal \<Rightarrow> Some (Found base)
          | Some Less \<Rightarrow> Some (Insert_At (base + 1))
          | Some Greater \<Rightarrow> Some (Insert_At base)))"

text \<open>
  What the search promises on a slice whose keys are strictly increasing: the position is the
  number of smaller keys.
\<close>

definition ins_pos :: "'k :: linorder \<Rightarrow> 'k list \<Rightarrow> nat" where
  "ins_pos k ks = length (takeWhile (\<lambda>x. x < k) ks)"

lemma ins_pos_le: "ins_pos k ks \<le> length ks"
  by (simp add: ins_pos_def length_takeWhile_le)

lemma ins_pos_eqI:
  assumes "i \<le> length ks" and "\<And>j. j < i \<Longrightarrow> ks ! j < k" and "i < length ks \<Longrightarrow> \<not> ks ! i < k"
  shows "ins_pos k ks = i"
  unfolding ins_pos_def using assms
  by (subst takeWhile_eq_take_P_nth [where n = i]) auto

lemma ins_pos_less: "j < ins_pos k ks \<Longrightarrow> ks ! j < k"
  unfolding ins_pos_def by (metis nth_mem set_takeWhileD takeWhile_nth)

lemma ins_pos_ge:
  assumes "sorted_wrt (<) ks" and "ins_pos k ks \<le> j" and "j < length ks"
  shows "k \<le> ks ! j"
proof -
  have "\<not> ks ! ins_pos k ks < k"
    using assms(2,3) unfolding ins_pos_def by (intro nth_length_takeWhile) auto
  moreover have "ks ! ins_pos k ks \<le> ks ! j"
    using assms sorted_wrt_nth_less [OF assms(1), of "ins_pos k ks" j]
    by (cases "ins_pos k ks = j") auto
  ultimately show ?thesis by simp
qed

lemma ins_pos_found:
  assumes "sorted_wrt (<) ks" and "k \<in> set ks"
  shows "ins_pos k ks < length ks \<and> ks ! ins_pos k ks = k"
proof -
  obtain i where i: "i < length ks" "ks ! i = k"
    using assms(2) by (auto simp: in_set_conv_nth)
  have "ins_pos k ks = i"
    using i assms(1) by (intro ins_pos_eqI) (auto dest: sorted_wrt_nth_less)
  then show ?thesis using i by simp
qed

lemma ins_pos_gt:
  assumes "sorted_wrt (<) ks" and "k \<notin> set ks" and "ins_pos k ks \<le> j" and "j < length ks"
  shows "k < ks ! j"
  using ins_pos_ge [OF assms(1,3,4)] assms(2,4) by (metis nth_mem order_le_imp_less_or_eq)

text \<open>
  The loop, for a closure that answers \<open>Greater\<close> on an upward closed set \<open>G\<close> of indices: behind
  the base it returns everything is greater, and the base itself is not unless it is 0.
\<close>

lemma bs_loop_upward:
  assumes "\<And>i. i < n \<Longrightarrow> \<exists>c. f i = Some c \<and> (c = Greater \<longleftrightarrow> G i)"
    and "\<And>i j. i \<le> j \<Longrightarrow> j < n \<Longrightarrow> G i \<Longrightarrow> G j"
    and "1 \<le> sz" and "base + sz \<le> n"
    and "base = 0 \<or> \<not> G base" and "\<And>j. base + sz \<le> j \<Longrightarrow> j < n \<Longrightarrow> G j"
  shows "\<exists>b. bs_loop f sz base = Some b \<and> b < n \<and> (b = 0 \<or> \<not> G b) \<and> (\<forall>j. b < j \<and> j < n \<longrightarrow> G j)"
  using assms(3-6)
proof (induction sz arbitrary: base rule: less_induct)
  case (less sz)
  show ?case
  proof (cases "sz \<le> 1")
    case True
    with less.prems show ?thesis by (subst bs_loop.simps) auto
  next
    case False
    let ?m = "base + sz div 2"
    have m: "?m < n" "0 < sz div 2" "sz - sz div 2 < sz" "1 \<le> sz - sz div 2"
      using False less.prems by auto
    obtain c where c: "f ?m = Some c" "c = Greater \<longleftrightarrow> G ?m" using assms(1) [OF m(1)] by auto
    show ?thesis
    proof (cases "G ?m")
      case True
      have "\<exists>b. bs_loop f (sz - sz div 2) base = Some b \<and> b < n \<and> (b = 0 \<or> \<not> G b) \<and>
          (\<forall>j. b < j \<and> j < n \<longrightarrow> G j)"
      proof (rule less.IH [OF m(3,4)])
        fix j assume j: "base + (sz - sz div 2) \<le> j" "j < n"
        then have "?m \<le> j" by linarith
        then show "G j" using assms(2) j(2) True by blast
      qed (use less.prems in \<open>simp_all\<close>)
      then show ?thesis using True m(2) c False by (subst bs_loop.simps) simp
    next
      case ge: False
      have "\<exists>b. bs_loop f (sz - sz div 2) ?m = Some b \<and> b < n \<and> (b = 0 \<or> \<not> G b) \<and>
          (\<forall>j. b < j \<and> j < n \<longrightarrow> G j)"
        by (rule less.IH [OF m(3,4)]) (use less.prems ge in simp_all)
      then show ?thesis using ge m(2) c False by (subst bs_loop.simps) simp
    qed
  qed
qed

lemma binary_search_sorted:
  assumes "sorted_wrt (<) (map kf xs)" and "\<And>x. x \<in> set xs \<Longrightarrow> f x = Some (cmp (kf x) k)"
  shows "binary_search_by f xs =
    Some (if k \<in> kf ` set xs then Found (ins_pos k (map kf xs))
          else Insert_At (ins_pos k (map kf xs)))"
proof (cases "xs = []")
  case True
  then show ?thesis by (simp add: binary_search_by_def ins_pos_def)
next
  case False
  let ?ks = "map kf xs"
  have f: "f (xs ! i) = Some (cmp (?ks ! i) k)" if "i < length ?ks" for i
    using assms(2) that by simp
  have mono: "?ks ! i \<le> ?ks ! j" if "i \<le> j" "j < length xs" for i j
    using sorted_wrt_nth_less [OF assms(1), of i j] that by (cases "i = j") auto
  have "\<exists>b. bs_loop (\<lambda>i. f (xs ! i)) (length xs) 0 = Some b \<and> b < length xs \<and>
      (b = 0 \<or> \<not> k < ?ks ! b) \<and> (\<forall>j. b < j \<and> j < length xs \<longrightarrow> k < ?ks ! j)"
  proof (rule bs_loop_upward [where G = "\<lambda>i. k < ?ks ! i"])
    show "\<exists>c. f (xs ! i) = Some c \<and> (c = Greater \<longleftrightarrow> k < ?ks ! i)" if "i < length xs" for i
      using f [of i] that by (simp only: length_map) simp
    show "k < ?ks ! j" if "i \<le> j" "j < length xs" "k < ?ks ! i" for i j
      using mono [OF that(1,2)] that(3) by (rule less_le_trans [rotated])
  qed (use False in \<open>simp_all add: Suc_le_eq\<close>)
  then obtain b where b: "bs_loop (\<lambda>i. f (xs ! i)) (length xs) 0 = Some b" "b < length ?ks"
    "b = 0 \<or> ?ks ! b \<le> k" "\<And>j. b < j \<Longrightarrow> j < length ?ks \<Longrightarrow> k < ?ks ! j"
    by (auto simp del: nth_map simp: not_less)
  have lt: "?ks ! j < ?ks ! b" if "j < b" for j
    using sorted_wrt_nth_less [OF assms(1) that] b(2) by simp
  consider "?ks ! b = k" | "?ks ! b < k" | "k < ?ks ! b" "b = 0"
    using b(3) by (meson less_linear not_le)
  then show ?thesis
  proof cases
    case 1
    then have "ins_pos k ?ks = b" "k \<in> kf ` set xs"
      using b(2) lt by (auto intro: ins_pos_eqI)
    then show ?thesis using 1 b(1,2) f [OF b(2)] False
      by (simp add: binary_search_by_def cmp_def)
  next
    case 2
    have "?ks ! j < k" if "j < Suc b" for j
      using 2 lt [of j] that by (cases "j = b") auto
    moreover have gt: "k < ?ks ! j" if "Suc b \<le> j" "j < length ?ks" for j
      using b(4) that by simp
    ultimately have "ins_pos k ?ks = Suc b"
      using b(2) by (intro ins_pos_eqI) (auto simp: not_less less_imp_le)
    moreover have "k \<notin> kf ` set xs"
    proof
      assume "k \<in> kf ` set xs"
      then obtain j where "j < length ?ks" "?ks ! j = k"
        by (auto simp: in_set_conv_nth)
      then show False
        using \<open>\<And>j. j < Suc b \<Longrightarrow> ?ks ! j < k\<close> [of j] gt [of j] by (cases "j < Suc b") auto
    qed
    ultimately show ?thesis using 2 b(1,2) f [OF b(2)] False
      by (simp add: binary_search_by_def cmp_def)
  next
    case 3
    then have "ins_pos k ?ks = 0" by (intro ins_pos_eqI) auto
    moreover have "k \<notin> kf ` set xs"
    proof
      assume "k \<in> kf ` set xs"
      then obtain j where "j < length ?ks" "?ks ! j = k"
        by (auto simp: in_set_conv_nth)
      then show False using 3 b(4) [of j] by (cases j) auto
    qed
    ultimately show ?thesis using 3 b(1,2) f [OF b(2)] False
      by (auto simp: binary_search_by_def cmp_def)
  qed
qed

text \<open>\<^verbatim>\<open>[T]::partition_point\<close> for a predicate that may panic, on a slice it partitions.\<close>

definition partition_point :: "('a \<Rightarrow> bool option) \<Rightarrow> 'a list \<Rightarrow> nat option" where
  "partition_point p xs =
     map_option (\<lambda>s. case s of Found i \<Rightarrow> i | Insert_At i \<Rightarrow> i)
       (binary_search_by (\<lambda>x. map_option (\<lambda>b. if b then Less else Greater) (p x)) xs)"

lemma partition_point_sorted:
  assumes "sorted_wrt (<) (map kf xs)" and "\<And>x. x \<in> set xs \<Longrightarrow> p x = Some (kf x < k)"
  shows "partition_point p xs = Some (ins_pos k (map kf xs))"
proof (cases "xs = []")
  case True
  then show ?thesis by (simp add: partition_point_def binary_search_by_def ins_pos_def)
next
  case False
  let ?ks = "map kf xs"
  let ?f = "\<lambda>x. map_option (\<lambda>b. if b then Less else Greater) (p x)"
  have f: "?f (xs ! i) = Some (if ?ks ! i < k then Less else Greater)" if "i < length xs" for i
    using assms(2) that by simp
  have pv: "p (xs ! i) = Some (?ks ! i < k)" if "i < length xs" for i
    using assms(2) that by simp
  have mono: "?ks ! i \<le> ?ks ! j" if "i \<le> j" "j < length xs" for i j
    using sorted_wrt_nth_less [OF assms(1), of i j] that by (cases "i = j") auto
  have "\<exists>b. bs_loop (\<lambda>i. ?f (xs ! i)) (length xs) 0 = Some b \<and> b < length xs \<and>
      (b = 0 \<or> \<not> \<not> ?ks ! b < k) \<and> (\<forall>j. b < j \<and> j < length xs \<longrightarrow> \<not> ?ks ! j < k)"
  proof (rule bs_loop_upward [where G = "\<lambda>i. \<not> ?ks ! i < k"])
    show "\<exists>c. ?f (xs ! i) = Some c \<and> (c = Greater \<longleftrightarrow> \<not> ?ks ! i < k)" if "i < length xs" for i
      by (simp only: f [OF that]) simp
    show "\<not> ?ks ! j < k" if "i \<le> j" "j < length xs" "\<not> ?ks ! i < k" for i j
      using mono [OF that(1,2)] that(3) by order
  qed (use False in \<open>simp_all add: Suc_le_eq\<close>)
  then obtain b where b: "bs_loop (\<lambda>i. ?f (xs ! i)) (length xs) 0 = Some b" "b < length xs"
    "b = 0 \<or> ?ks ! b < k" "\<And>j. b < j \<Longrightarrow> j < length xs \<Longrightarrow> \<not> ?ks ! j < k"
    by auto
  show ?thesis
  proof (cases "?ks ! b < k")
    case True
    have "?ks ! j < k" if "j < Suc b" for j
      using True mono [of j b] that b(2) by (auto simp: less_Suc_eq_le)
    then have "ins_pos k ?ks = Suc b" using b(2,4) by (intro ins_pos_eqI) auto
    then show ?thesis using True b(1,2) pv [OF b(2)] False
      by (simp add: partition_point_def binary_search_by_def)
  next
    case ge: False
    then have "b = 0" using b(3) by auto
    then have "ins_pos k ?ks = 0" using ge by (intro ins_pos_eqI) auto
    then show ?thesis using ge \<open>b = 0\<close> b(1,2) pv [OF b(2)] False
      by (simp add: partition_point_def binary_search_by_def)
  qed
qed

section \<open>Iterators and numbers\<close>

text \<open>\<^verbatim>\<open>iter().scan(0, ..)\<close> with a running sum, \<^verbatim>\<open>position\<close>, \<^verbatim>\<open>clamp\<close>.\<close>

fun running_sums :: "nat \<Rightarrow> nat list \<Rightarrow> nat list" where
  "running_sums acc [] = []"
| "running_sums acc (x # xs) = (acc + x) # running_sums (acc + x) xs"

fun position :: "('a \<Rightarrow> bool) \<Rightarrow> 'a list \<Rightarrow> nat option" where
  "position P [] = None"
| "position P (x # xs) = (if P x then Some 0 else map_option Suc (position P xs))"

definition clamp :: "nat \<Rightarrow> nat \<Rightarrow> nat \<Rightarrow> (nat, 'e) result" where
  "clamp x lo hi =
     (if hi < lo then Panic else Ok (if x < lo then lo else if hi < x then hi else x))"

lemma position_Some_iff:
  "position P xs = Some i \<longleftrightarrow> i < length xs \<and> P (xs ! i) \<and> (\<forall>j < i. \<not> P (xs ! j))"
proof (induction xs arbitrary: i)
  case Nil
  then show ?case by simp
next
  case (Cons x xs)
  then show ?case by (cases i) (auto simp: less_Suc_eq_0_disj)
qed

lemma position_None_iff: "position P xs = None \<longleftrightarrow> (\<forall>x \<in> set xs. \<not> P x)"
  by (induction xs) auto

lemma length_running_sums [simp]: "length (running_sums acc xs) = length xs"
  by (induction xs arbitrary: acc) auto

lemma nth_running_sums:
  "i < length xs \<Longrightarrow> running_sums acc xs ! i = acc + sum_list (take (Suc i) xs)"
proof (induction xs arbitrary: acc i)
  case Nil
  then show ?case by simp
next
  case (Cons x xs)
  then show ?case by (cases i) auto
qed

section \<open>The environment\<close>

text \<open>
  What the code calls that is not under \<^verbatim>\<open>src/\<close>: \<^verbatim>\<open>usize::encode_var_vec\<close>,
  \<^verbatim>\<open>usize::required_space\<close> and \<^verbatim>\<open>read_varint\<close> of \<^verbatim>\<open>integer_encoding\<close>; the checksum that
  \<^verbatim>\<open>crc32_light::Crc32Stream\<close> gives for the sequence of slices it is fed; and whether the build
  has \<^verbatim>\<open>debug_assertions\<close>.
\<close>

record env =
  encode_var_vec :: "nat \<Rightarrow> byte list"
  required_space :: "nat \<Rightarrow> nat"
  read_varint :: "(nat, io_error) reader"
  crc32_stream :: "byte list list \<Rightarrow> 32 word"
  debug_assertions :: bool

text \<open>
  What the code relies on of the varint crate: the announced size is the size written, it is
  at least one byte, and reading what was written gives the number and leaves the rest. Nothing
  is assumed of the checksum.
\<close>

definition varint_ok :: "env \<Rightarrow> bool" where
  "varint_ok E \<longleftrightarrow>
     (\<forall>n < 2 ^ 64. length (encode_var_vec E n) = required_space E n \<and> 1 \<le> required_space E n \<and>
        (\<forall>rest. read_varint E (encode_var_vec E n @ rest) = Ok (n, rest)))"

lemma varint_okD [codec_simps]:
  assumes "varint_ok E" and "n < 2 ^ 64"
  shows "length (encode_var_vec E n) = required_space E n"
    and "1 \<le> required_space E n"
    and "read_varint E (encode_var_vec E n @ rest) = Ok (n, rest)"
  using assms by (auto simp: varint_ok_def)

end
