(* ===== verification/Concrete_Env.thy ===== *)
theory Concrete_Env
  imports Rust_Std
begin

text \<open>
  One environment that meets every hypothesis the development makes of the code outside
  \<^verbatim>\<open>src/\<close>: LEB128 varints, as \<^verbatim>\<open>integer_encoding\<close> documents them, a checksum, and a build with
  \<^verbatim>\<open>debug_assertions\<close>. It shows that the hypothesis \<open>varint_ok\<close> can hold, and the witnesses of
  the properties are evaluated in it. No property depends on it.
\<close>

fun leb_size :: "nat \<Rightarrow> nat" where
  "leb_size n = (if n < 128 then 1 else Suc (leb_size (n div 128)))"

fun leb_encode :: "nat \<Rightarrow> byte list" where
  "leb_encode n =
     (if n < 128 then [word_of_nat n] else word_of_nat (128 + n mod 128) # leb_encode (n div 128))"

declare leb_size.simps [simp del] leb_encode.simps [simp del]

fun leb_decode :: "(nat, io_error) reader" where
  "leb_decode [] = Err UnexpectedEof"
| "leb_decode (b # bs) =
     (if unat b < 128 then Ok (unat b, bs)
      else rbind (leb_decode bs) (\<lambda>(n, r). Ok (unat b - 128 + 128 * n, r)))"

definition demo_env :: env where
  "demo_env = \<lparr>encode_var_vec = leb_encode, required_space = leb_size, read_varint = leb_decode,
     crc32_stream = (\<lambda>chunks. word_of_nat (be_nat (concat chunks))), debug_assertions = True\<rparr>"

lemma demo_env_simps [simp]:
  "encode_var_vec demo_env = leb_encode" "required_space demo_env = leb_size"
  "read_varint demo_env = leb_decode" "debug_assertions demo_env"
  by (simp_all add: demo_env_def)

lemma length_leb_encode: "length (leb_encode n) = leb_size n"
proof (induction n rule: leb_encode.induct)
  case (1 n)
  then show ?case by (subst leb_encode.simps, subst leb_size.simps) simp
qed

lemma leb_size_ge: "1 \<le> leb_size n"
  by (subst leb_size.simps) simp

lemma leb_size_small: "n < 128 \<Longrightarrow> leb_size n = 1"
  by (subst leb_size.simps) simp

lemma leb_decode_encode: "leb_decode (leb_encode n @ rest) = Ok (n, rest)"
proof (induction n rule: leb_encode.induct)
  case (1 n)
  have small: "unat (word_of_nat k :: byte) = k" if "k < 256" for k
    using that by (simp add: unat_of_nat)
  show ?case
  proof (cases "n < 128")
    case True
    then show ?thesis using small [of n] by (subst leb_encode.simps) simp
  next
    case False
    have "128 + n mod 128 < 256" by (simp add: less_Suc_eq_le [symmetric])
    then show ?thesis
      using False 1 [OF False] small [of "128 + n mod 128"]
      by (subst leb_encode.simps) (simp del: of_nat_add)
  qed
qed

lemma demo_varint_ok [simp]: "varint_ok demo_env"
  using leb_size_ge by (simp add: varint_ok_def length_leb_encode leb_decode_encode)

end
