(* ===== verification/Serializable.thy ===== *)
theory Serializable
  imports Concrete_Env
begin

text \<open>
  \<^verbatim>\<open>src/traits.rs\<close>: the trait \<^verbatim>\<open>Serializable\<close> and its instance for \<^verbatim>\<open>Option<T>\<close>. The trait is the
  locale \<open>serializable\<close>: its operations, and the contract that every implementor is shown to
  meet (what was written is read back, exactly \<^verbatim>\<open>encoded_size\<close> bytes are written). Clients of the
  trait (\<^verbatim>\<open>Option<T>\<close>, sequences of values, a value that fills a slot) are proved once against it.
\<close>

locale serializable =
  fixes ser :: "'a \<Rightarrow> (byte list, 'e) result"
    and deser :: "('a, 'e) reader"
    and esize :: "'a \<Rightarrow> nat"
    and wf :: "'a \<Rightarrow> bool"
  assumes ser_total: "wf x \<Longrightarrow> \<exists>bs. ser x = Ok bs"
    and ser_length: "wf x \<Longrightarrow> ser x = Ok bs \<Longrightarrow> length bs = esize x"
    and deser_ser: "wf x \<Longrightarrow> ser x = Ok bs \<Longrightarrow> deser (bs @ rest) = Ok (x, rest)"
begin

lemma deser_ser_all: "wf x \<Longrightarrow> ser x = Ok bs \<Longrightarrow> deser bs = Ok (x, [])"
  using deser_ser [of x bs "[]"] by simp

text \<open>Encodings are prefix-free, so a stream of values has one reading only.\<close>

lemma prefix_free:
  assumes "wf x" "wf y" "ser x = Ok bs" "ser y = Ok cs" "bs @ r = cs @ s"
  shows "x = y \<and> r = s"
  using deser_ser [OF assms(1,3), of r] deser_ser [OF assms(2,4), of s] assms(5) by simp

lemma ser_inj: "wf x \<Longrightarrow> wf y \<Longrightarrow> ser x = ser y \<Longrightarrow> x = y"
  using ser_total [of x] prefix_free [of x y _ _ "[]" "[]"] by auto

end

section \<open>Sequences\<close>

text \<open>
  The loops that write or read several values in a row (\<^verbatim>\<open>for f in &self.fields\<close>,
  \<^verbatim>\<open>for _ in 0..num_fields\<close>): stop at the first error.
\<close>

fun ser_seq :: "('a \<Rightarrow> (byte list, 'e) result) \<Rightarrow> 'a list \<Rightarrow> (byte list, 'e) result" where
  "ser_seq s [] = Ok []"
| "ser_seq s (x # xs) = rbind (s x) (\<lambda>bs. rbind (ser_seq s xs) (\<lambda>cs. Ok (bs @ cs)))"

fun deser_seq :: "('a, 'e) reader \<Rightarrow> nat \<Rightarrow> ('a list, 'e) reader" where
  "deser_seq d 0 bs = Ok ([], bs)"
| "deser_seq d (Suc n) bs =
     rbind (d bs) (\<lambda>(x, r). rbind (deser_seq d n r) (\<lambda>(xs, r'). Ok (x # xs, r')))"

lemma deser_seq_not_Panic:
  "(\<And>bs. d bs \<noteq> Panic) \<Longrightarrow> deser_seq d n bs \<noteq> Panic"
  by (induction n arbitrary: bs) (auto simp: rbind_Panic_iff split: prod.splits)

lemma deser_seq_length: "deser_seq d n bs = Ok (xs, r) \<Longrightarrow> length xs = n"
  by (induction n arbitrary: bs xs r) (auto simp: result_simps split: prod.splits)

locale serializable_seq = serializable

sublocale serializable_seq \<subseteq>
  seq: serializable "ser_seq ser" "\<lambda>bs. deser_seq deser (length xs) bs"
    "\<lambda>ys. sum_list (map esize ys)" "\<lambda>ys. ys = xs \<and> (\<forall>y \<in> set ys. wf y)" for xs
proof
  have total: "\<exists>bs. ser_seq ser ys = Ok bs" if "\<forall>y \<in> set ys. wf y" for ys
    using that ser_total by (induction ys) fastforce+
  have len: "length bs = sum_list (map esize ys)"
    if "\<forall>y \<in> set ys. wf y" "ser_seq ser ys = Ok bs" for ys bs
    using that by (induction ys arbitrary: bs) (auto simp: result_simps ser_length)
  have round: "deser_seq deser (length ys) (bs @ rest) = Ok (ys, rest)"
    if "\<forall>y \<in> set ys. wf y" "ser_seq ser ys = Ok bs" for ys bs rest
    using that by (induction ys arbitrary: bs) (auto simp: result_simps deser_ser)
  fix x bs rest
  assume x: "x = xs \<and> (\<forall>y \<in> set x. wf y)"
  then show "\<exists>bs. ser_seq ser x = Ok bs" using total by blast
  assume "ser_seq ser x = Ok bs"
  with x show "length bs = sum_list (map esize x)"
    and "deser_seq deser (length xs) (bs @ rest) = Ok (x, rest)"
    using len round by blast+
qed

section \<open>Option<T>\<close>

fun option_serialize :: "('a \<Rightarrow> (byte list, 'e) result) \<Rightarrow> 'a option \<Rightarrow> (byte list, 'e) result" where
  "option_serialize s (Some v) = rbind (s v) (\<lambda>bs. Ok (1 # bs))"
| "option_serialize s None = Ok [0]"

definition option_deserialize ::
  "(io_error \<Rightarrow> 'e) \<Rightarrow> ('a, 'e) reader \<Rightarrow> ('a option, 'e) reader" where
  "option_deserialize from_io d bs =
     rbind (map_err from_io (read_u8 bs)) (\<lambda>(tag, r).
       if tag = 0 then Ok (None, r)
       else if tag = 1 then rbind (d r) (\<lambda>(v, r'). Ok (Some v, r'))
       else Err (from_io InvalidData))"

fun option_encoded_size :: "('a \<Rightarrow> nat) \<Rightarrow> 'a option \<Rightarrow> nat" where
  "option_encoded_size sz (Some v) = sz v + 1"
| "option_encoded_size sz None = 1"

locale serializable_option = serializable ser deser esize wf
  for ser :: "'a \<Rightarrow> (byte list, 'e) result" and deser esize wf +
  fixes from_io :: "io_error \<Rightarrow> 'e"

sublocale serializable_option \<subseteq>
  opt: serializable "option_serialize ser" "option_deserialize from_io deser"
    "option_encoded_size esize" "\<lambda>v. \<forall>x \<in> set_option v. wf x"
proof
  fix v :: "'a option" and bs rest
  assume v: "\<forall>x \<in> set_option v. wf x"
  then show "\<exists>bs. option_serialize ser v = Ok bs"
    using ser_total by (cases v) fastforce+
  assume ser: "option_serialize ser v = Ok bs"
  show "length bs = option_encoded_size esize v"
    using v ser by (cases v) (auto simp: result_simps dest: ser_length)
  show "option_deserialize from_io deser (bs @ rest) = Ok (v, rest)"
  proof (cases v)
    case None
    then show ?thesis using ser by (auto simp: option_deserialize_def)
  next
    case (Some x)
    then obtain cs where "ser x = Ok cs" "bs = 1 # cs" using ser by (auto simp: result_simps)
    then show ?thesis using v Some by (simp add: option_deserialize_def deser_ser)
  qed
qed

lemma option_deserialize_bad_tag:
  "tag \<noteq> 0 \<Longrightarrow> tag \<noteq> 1 \<Longrightarrow> option_deserialize from_io d (tag # r) = Err (from_io InvalidData)"
  by (simp add: option_deserialize_def)

lemma option_deserialize_not_Panic:
  "(\<And>bs. d bs \<noteq> Panic) \<Longrightarrow> option_deserialize from_io d bs \<noteq> Panic"
  by (auto simp: option_deserialize_def rbind_Panic_iff split: if_splits)

end
