(* ===== verification/Types.thy ===== *)
theory Types
  imports Serializable
begin

text \<open>
  \<^verbatim>\<open>src/types/\<close>: identifiers, log sequence numbers and slot entries, with their byte formats.
  The tuple structs are datatypes with one constructor; their \<^verbatim>\<open>derive\<close>d orders are the
  \<open>linorder\<close> instances. Every codec of this file is an interpretation of \<open>serializable\<close>.
\<close>

section \<open>Identifiers (types/ids.rs)\<close>

text \<open>\<^verbatim>\<open>SLOT_ENTRY_SIZE\<close> and \<^verbatim>\<open>PAGE_ID_SIZE\<close> of \<^verbatim>\<open>types/mod.rs\<close>.\<close>

definition SLOT_ENTRY_SIZE :: nat where "SLOT_ENTRY_SIZE = 4"
definition PAGE_ID_SIZE :: nat where "PAGE_ID_SIZE = 8"

datatype table_id = TableId "32 word"
datatype page_id = PageId table_id "32 word"

fun table_id_get :: "table_id \<Rightarrow> 32 word" where
  "table_id_get (TableId n) = n"

fun get_table_id :: "page_id \<Rightarrow> table_id" where
  "get_table_id (PageId t n) = t"

fun get_page_num :: "page_id \<Rightarrow> 32 word" where
  "get_page_num (PageId t n) = n"

fun page_id_wrapping_add :: "page_id \<Rightarrow> 32 word \<Rightarrow> page_id" where
  "page_id_wrapping_add (PageId t n) k = PageId t (n + k)"

instantiation table_id :: linorder
begin
definition less_eq_table_id :: "table_id \<Rightarrow> table_id \<Rightarrow> bool" where
  "less_eq_table_id a b \<longleftrightarrow> table_id_get a \<le> table_id_get b"
definition less_table_id :: "table_id \<Rightarrow> table_id \<Rightarrow> bool" where
  "less_table_id a b \<longleftrightarrow> table_id_get a < table_id_get b"
instance
proof
  fix x y z :: table_id
  show "x < y \<longleftrightarrow> x \<le> y \<and> \<not> y \<le> x" "x \<le> x" "x \<le> y \<or> y \<le> x"
    by (auto simp: less_eq_table_id_def less_table_id_def)
  show "x \<le> y \<Longrightarrow> y \<le> z \<Longrightarrow> x \<le> z" by (simp add: less_eq_table_id_def)
  show "x \<le> y \<Longrightarrow> y \<le> x \<Longrightarrow> x = y" by (cases x; cases y) (simp add: less_eq_table_id_def)
qed
end

instantiation page_id :: linorder
begin
definition less_eq_page_id :: "page_id \<Rightarrow> page_id \<Rightarrow> bool" where
  "less_eq_page_id a b \<longleftrightarrow> get_table_id a < get_table_id b \<or>
     get_table_id a = get_table_id b \<and> get_page_num a \<le> get_page_num b"
definition less_page_id :: "page_id \<Rightarrow> page_id \<Rightarrow> bool" where
  "less_page_id a b \<longleftrightarrow> get_table_id a < get_table_id b \<or>
     get_table_id a = get_table_id b \<and> get_page_num a < get_page_num b"
instance
proof
  fix x y z :: page_id
  show "x < y \<longleftrightarrow> x \<le> y \<and> \<not> y \<le> x" "x \<le> x" "x \<le> y \<or> y \<le> x"
    by (auto simp: less_eq_page_id_def less_page_id_def)
  show "x \<le> y \<Longrightarrow> y \<le> z \<Longrightarrow> x \<le> z" by (auto simp: less_eq_page_id_def)
  show "x \<le> y \<Longrightarrow> y \<le> x \<Longrightarrow> x = y" by (cases x; cases y) (auto simp: less_eq_page_id_def)
qed
end

definition table_id_serialize :: "table_id \<Rightarrow> (byte list, io_error) result" where
  "table_id_serialize t = Ok (u32_be (table_id_get t))"

definition table_id_deserialize :: "(table_id, io_error) reader" where
  "table_id_deserialize bs = rbind (read_exact 4 bs) (\<lambda>(buf, r). Ok (TableId (u32_from_be buf), r))"

definition table_id_encoded_size :: "table_id \<Rightarrow> nat" where
  "table_id_encoded_size t = 4"

definition page_id_serialize :: "page_id \<Rightarrow> (byte list, io_error) result" where
  "page_id_serialize p =
     rbind (table_id_serialize (get_table_id p)) (\<lambda>bs. Ok (bs @ u32_be (get_page_num p)))"

definition page_id_deserialize :: "(page_id, io_error) reader" where
  "page_id_deserialize bs =
     rbind (table_id_deserialize bs) (\<lambda>(t, r).
       rbind (read_exact 4 r) (\<lambda>(buf, r'). Ok (PageId t (u32_from_be buf), r')))"

definition page_id_encoded_size :: "page_id \<Rightarrow> nat" where
  "page_id_encoded_size p = PAGE_ID_SIZE"

interpretation table_id: serializable table_id_serialize table_id_deserialize
  table_id_encoded_size "\<lambda>_. True"
proof
  fix t :: table_id and bs rest
  show "\<exists>bs. table_id_serialize t = Ok bs" by (simp add: table_id_serialize_def)
  assume "table_id_serialize t = Ok bs"
  then show "length bs = table_id_encoded_size t"
    and "table_id_deserialize (bs @ rest) = Ok (t, rest)"
    by (cases t; auto simp: table_id_serialize_def table_id_encoded_size_def
        table_id_deserialize_def codec_simps)+
qed

interpretation page_id: serializable_option page_id_serialize page_id_deserialize
  page_id_encoded_size "\<lambda>_. True" id
proof
  fix p :: page_id and bs rest
  show "\<exists>bs. page_id_serialize p = Ok bs"
    by (simp add: page_id_serialize_def table_id_serialize_def)
  assume "page_id_serialize p = Ok bs"
  then obtain ts where ts: "table_id_serialize (get_table_id p) = Ok ts"
    and bs: "bs = ts @ u32_be (get_page_num p)"
    by (auto simp: page_id_serialize_def result_simps)
  show "length bs = page_id_encoded_size p"
    using table_id.ser_length [OF TrueI ts]
    by (simp add: bs page_id_encoded_size_def table_id_encoded_size_def PAGE_ID_SIZE_def)
  show "page_id_deserialize (bs @ rest) = Ok (p, rest)"
    using table_id.deser_ser [OF TrueI ts]
    by (cases p) (simp add: bs page_id_deserialize_def codec_simps)
qed

lemma page_id_deserialize_not_Panic [simp]: "page_id_deserialize bs \<noteq> Panic"
  by (auto simp: page_id_deserialize_def table_id_deserialize_def rbind_Panic_iff result_simps)

text \<open>Eight bytes are enough for a page identifier, whatever they hold.\<close>

lemma page_id_deserialize_total:
  assumes "PAGE_ID_SIZE \<le> length bs"
  shows "\<exists>p. page_id_deserialize bs = Ok (p, drop PAGE_ID_SIZE bs)"
  using assms
  by (simp add: page_id_deserialize_def table_id_deserialize_def read_exact_def PAGE_ID_SIZE_def)

section \<open>Log sequence numbers (types/lsn.rs)\<close>

datatype lsn_error = LsnIo io_error | ZeroLsn

datatype lsn = Lsn "64 word"

fun lsn_get :: "lsn \<Rightarrow> 64 word" where
  "lsn_get (Lsn n) = n"

definition lsn_new :: "64 word \<Rightarrow> (lsn, lsn_error) result" where
  "lsn_new n = (if n = 0 then Err ZeroLsn else Ok (Lsn n))"

instantiation lsn :: linorder
begin
definition less_eq_lsn :: "lsn \<Rightarrow> lsn \<Rightarrow> bool" where
  "less_eq_lsn a b \<longleftrightarrow> lsn_get a \<le> lsn_get b"
definition less_lsn :: "lsn \<Rightarrow> lsn \<Rightarrow> bool" where
  "less_lsn a b \<longleftrightarrow> lsn_get a < lsn_get b"
instance
proof
  fix x y z :: lsn
  show "x < y \<longleftrightarrow> x \<le> y \<and> \<not> y \<le> x" "x \<le> x" "x \<le> y \<or> y \<le> x"
    by (auto simp: less_eq_lsn_def less_lsn_def)
  show "x \<le> y \<Longrightarrow> y \<le> z \<Longrightarrow> x \<le> z" by (simp add: less_eq_lsn_def)
  show "x \<le> y \<Longrightarrow> y \<le> x \<Longrightarrow> x = y" by (cases x; cases y) (simp add: less_eq_lsn_def)
qed
end

definition lsn_serialize :: "lsn \<Rightarrow> (byte list, lsn_error) result" where
  "lsn_serialize l = Ok (u64_be (lsn_get l))"

definition lsn_deserialize :: "(lsn, lsn_error) reader" where
  "lsn_deserialize bs =
     rbind (map_err LsnIo (read_exact 8 bs)) (\<lambda>(buf, r).
       rbind (lsn_new (u64_from_be buf)) (\<lambda>l. Ok (l, r)))"

definition lsn_encoded_size :: "lsn \<Rightarrow> nat" where
  "lsn_encoded_size l = 8"

text \<open>A page's LSN: 0 on disk stands for "no LSN yet".\<close>

datatype page_lsn = PageLsn "lsn option"

fun page_lsn_get :: "page_lsn \<Rightarrow> lsn option" where
  "page_lsn_get (PageLsn l) = l"

definition page_lsn_serialize :: "page_lsn \<Rightarrow> (byte list, lsn_error) result" where
  "page_lsn_serialize l =
     (case page_lsn_get l of
       Some lsn \<Rightarrow> Ok (u64_be (lsn_get lsn))
     | None \<Rightarrow> Ok (u64_be 0))"

definition page_lsn_deserialize :: "(page_lsn, lsn_error) reader" where
  "page_lsn_deserialize bs =
     rbind (map_err LsnIo (read_exact 8 bs)) (\<lambda>(buf, r).
       let val = u64_from_be buf in
       if val = 0 then Ok (PageLsn None, r)
       else (case lsn_new val of
           Ok l \<Rightarrow> Ok (PageLsn (Some l), r)
         | _ \<Rightarrow> Panic))"

definition page_lsn_encoded_size :: "page_lsn \<Rightarrow> nat" where
  "page_lsn_encoded_size l = 8"

text \<open>The invariant of \<^verbatim>\<open>Lsn\<close>: its field is private and \<^verbatim>\<open>Lsn::new\<close> refuses 0.\<close>

definition lsn_wf :: "lsn \<Rightarrow> bool" where
  "lsn_wf l \<longleftrightarrow> lsn_get l \<noteq> 0"

definition page_lsn_wf :: "page_lsn \<Rightarrow> bool" where
  "page_lsn_wf l \<longleftrightarrow> (\<forall>x \<in> set_option (page_lsn_get l). lsn_wf x)"

lemma lsn_new_wf: "lsn_new n = Ok l \<Longrightarrow> lsn_wf l \<and> lsn_get l = n"
  by (auto simp: lsn_new_def lsn_wf_def split: if_splits)

interpretation lsn: serializable lsn_serialize lsn_deserialize lsn_encoded_size lsn_wf
proof
  fix l :: lsn and bs rest
  assume wf: "lsn_wf l"
  show "\<exists>bs. lsn_serialize l = Ok bs" by (simp add: lsn_serialize_def)
  assume "lsn_serialize l = Ok bs"
  with wf show "length bs = lsn_encoded_size l"
    and "lsn_deserialize (bs @ rest) = Ok (l, rest)"
    by (cases l; auto simp: lsn_serialize_def lsn_encoded_size_def lsn_deserialize_def
        lsn_new_def lsn_wf_def codec_simps)+
qed

interpretation page_lsn: serializable page_lsn_serialize page_lsn_deserialize
  page_lsn_encoded_size page_lsn_wf
proof
  fix l :: page_lsn and bs rest
  assume wf: "page_lsn_wf l"
  show "\<exists>bs. page_lsn_serialize l = Ok bs"
    by (simp add: page_lsn_serialize_def split: option.split)
  assume "page_lsn_serialize l = Ok bs"
  moreover obtain m where "l = PageLsn m" by (cases l) auto
  ultimately show "length bs = page_lsn_encoded_size l"
    and "page_lsn_deserialize (bs @ rest) = Ok (l, rest)"
    using wf
    by (cases m; cases "the m"; auto simp: page_lsn_serialize_def page_lsn_encoded_size_def
        page_lsn_deserialize_def page_lsn_wf_def lsn_new_def lsn_wf_def codec_simps)+
qed

lemma page_lsn_deserialize_not_Panic [simp]: "page_lsn_deserialize bs \<noteq> Panic"
  by (auto simp: page_lsn_deserialize_def lsn_new_def rbind_Panic_iff result_simps Let_def)

lemma lsn_deserialize_wf: "lsn_deserialize bs = Ok (l, r) \<Longrightarrow> lsn_wf l"
  by (auto simp: lsn_deserialize_def result_simps dest: lsn_new_wf)

section \<open>Slot entries (types/slot.rs)\<close>

record slot_entry =
  offset :: "16 word"
  slot_len :: "16 word"

definition slot_entry_new :: "16 word \<Rightarrow> 16 word \<Rightarrow> slot_entry" where
  "slot_entry_new off len = \<lparr>offset = off, slot_len = len\<rparr>"

text \<open>\<^verbatim>\<open>SlotEntry::range\<close>: start and end of the half-open byte range, computed in \<^verbatim>\<open>usize\<close>.\<close>

definition slot_range :: "slot_entry \<Rightarrow> nat \<times> nat" where
  "slot_range s = (unat (offset s), unat (offset s) + unat (slot_len s))"

definition slot_entry_serialize :: "slot_entry \<Rightarrow> (byte list, io_error) result" where
  "slot_entry_serialize s = Ok (u16_be (offset s) @ u16_be (slot_len s))"

definition slot_entry_deserialize :: "(slot_entry, io_error) reader" where
  "slot_entry_deserialize bs =
     rbind (read_exact 2 bs) (\<lambda>(offset_buf, r).
       rbind (read_exact 2 r) (\<lambda>(length_buf, r').
         Ok (slot_entry_new (u16_from_be offset_buf) (u16_from_be length_buf), r')))"

definition slot_entry_encoded_size :: "slot_entry \<Rightarrow> nat" where
  "slot_entry_encoded_size s = SLOT_ENTRY_SIZE"

interpretation slot_entry: serializable_seq slot_entry_serialize slot_entry_deserialize
  slot_entry_encoded_size "\<lambda>_. True"
  by unfold_locales
    (auto simp: slot_entry_serialize_def slot_entry_deserialize_def slot_entry_encoded_size_def
      SLOT_ENTRY_SIZE_def slot_entry_new_def codec_simps)

lemma slot_entry_deserialize_total:
  assumes "SLOT_ENTRY_SIZE \<le> length bs"
  shows "\<exists>s. slot_entry_deserialize bs = Ok (s, drop SLOT_ENTRY_SIZE bs)"
  using assms by (simp add: slot_entry_deserialize_def read_exact_def SLOT_ENTRY_SIZE_def)

end
