(* ===== verification/Layout.thy ===== *)
theory Layout
  imports Types
begin

text \<open>
  The layout constants of \<^verbatim>\<open>src/page/mod.rs\<close> (lines 22 to 84) and \<^verbatim>\<open>src/schema/mod.rs\<close> (lines
  14 to 21), defined by the source's own expressions. \<open>layout_simps\<close> holds their values; the
  compile-time \<^verbatim>\<open>assert!\<close>s of the source are the theorem \<open>layout_asserts\<close>.
\<close>

named_theorems layout_simps \<open>values of the layout constants\<close>

definition PAGE_SIZE :: nat where "PAGE_SIZE = 4096"

definition LEAF_TAG :: byte where "LEAF_TAG = 1"
definition INTERNAL_TAG :: byte where "INTERNAL_TAG = 2"
definition META_TAG :: byte where "META_TAG = 3"
definition FREE_TAG :: byte where "FREE_TAG = 4"

definition MAX_LEAF_HEADER_SIZE :: nat where "MAX_LEAF_HEADER_SIZE = 41"
definition MAX_INTERNAL_HEADER_SIZE :: nat where "MAX_INTERNAL_HEADER_SIZE = 23"
definition CHECKSUM_OFFSET :: nat where "CHECKSUM_OFFSET = 17"

definition MAX_LEAF_ENTRY_SIZE :: nat where
  "MAX_LEAF_ENTRY_SIZE = (PAGE_SIZE - MAX_LEAF_HEADER_SIZE) div 4"

definition MAX_INTERNAL_ENTRY_SIZE :: nat where
  "MAX_INTERNAL_ENTRY_SIZE = (PAGE_SIZE - MAX_INTERNAL_HEADER_SIZE - PAGE_ID_SIZE) div 4"

definition MIN_KEY_ENCODED_SIZE :: nat where "MIN_KEY_ENCODED_SIZE = 2"
definition MIN_ROW_ENCODED_SIZE :: nat where "MIN_ROW_ENCODED_SIZE = 1 + MIN_KEY_ENCODED_SIZE"

definition MIN_LEAF_HEADER_SIZE :: nat where
  "MIN_LEAF_HEADER_SIZE = MAX_LEAF_HEADER_SIZE - 2 * PAGE_ID_SIZE"

definition LEAF_USABLE :: nat where "LEAF_USABLE = PAGE_SIZE - MAX_LEAF_HEADER_SIZE"

definition INTERNAL_USABLE :: nat where
  "INTERNAL_USABLE = PAGE_SIZE - MAX_INTERNAL_HEADER_SIZE - PAGE_ID_SIZE"

definition LEAF_UNDERFULL_BYTES :: nat where "LEAF_UNDERFULL_BYTES = LEAF_USABLE div 2"

definition INTERNAL_UNDERFULL_BYTES :: nat where
  "INTERNAL_UNDERFULL_BYTES = (INTERNAL_USABLE - MAX_INTERNAL_ENTRY_SIZE) div 2"

definition MAX_LEAF_ITEMS :: nat where
  "MAX_LEAF_ITEMS =
     (PAGE_SIZE - MIN_LEAF_HEADER_SIZE) div (SLOT_ENTRY_SIZE + MIN_ROW_ENCODED_SIZE)"

definition MAX_INTERNAL_ITEMS :: nat where
  "MAX_INTERNAL_ITEMS =
     (PAGE_SIZE - MAX_INTERNAL_HEADER_SIZE - PAGE_ID_SIZE) div
       (SLOT_ENTRY_SIZE + PAGE_ID_SIZE + MIN_KEY_ENCODED_SIZE)"

definition NULL_FLAG :: byte where "NULL_FLAG = 0"
definition INT_FLAG :: byte where "INT_FLAG = 1"
definition FLOAT_FLAG :: byte where "FLOAT_FLAG = 2"
definition STRING_FLAG :: byte where "STRING_FLAG = 3"
definition BOOL_FLAG :: byte where "BOOL_FLAG = 4"

definition MAX_FIELD_LEN :: nat where "MAX_FIELD_LEN = MAX_LEAF_ENTRY_SIZE - 1 - 2"
definition MAX_NUM_FIELDS :: nat where "MAX_NUM_FIELDS = 255"

lemmas tag_defs = LEAF_TAG_def INTERNAL_TAG_def META_TAG_def FREE_TAG_def
lemmas flag_defs = NULL_FLAG_def INT_FLAG_def FLOAT_FLAG_def STRING_FLAG_def BOOL_FLAG_def

lemma layout_values [layout_simps]:
  "PAGE_SIZE = 4096" "SLOT_ENTRY_SIZE = 4" "PAGE_ID_SIZE = 8" "CHECKSUM_OFFSET = 17"
  "MAX_LEAF_HEADER_SIZE = 41" "MAX_INTERNAL_HEADER_SIZE = 23"
  "MAX_LEAF_ENTRY_SIZE = 1013" "MAX_INTERNAL_ENTRY_SIZE = 1016"
  "MIN_KEY_ENCODED_SIZE = 2" "MIN_ROW_ENCODED_SIZE = 3" "MIN_LEAF_HEADER_SIZE = 25"
  "LEAF_USABLE = 4055" "INTERNAL_USABLE = 4065"
  "LEAF_UNDERFULL_BYTES = 2027" "INTERNAL_UNDERFULL_BYTES = 1524"
  "MAX_LEAF_ITEMS = 581" "MAX_INTERNAL_ITEMS = 290"
  "MAX_FIELD_LEN = 1010" "MAX_NUM_FIELDS = 255"
  by (simp_all add: PAGE_SIZE_def SLOT_ENTRY_SIZE_def PAGE_ID_SIZE_def CHECKSUM_OFFSET_def
      MAX_LEAF_HEADER_SIZE_def MAX_INTERNAL_HEADER_SIZE_def MAX_LEAF_ENTRY_SIZE_def
      MAX_INTERNAL_ENTRY_SIZE_def MIN_KEY_ENCODED_SIZE_def MIN_ROW_ENCODED_SIZE_def
      MIN_LEAF_HEADER_SIZE_def LEAF_USABLE_def INTERNAL_USABLE_def LEAF_UNDERFULL_BYTES_def
      INTERNAL_UNDERFULL_BYTES_def MAX_LEAF_ITEMS_def MAX_INTERNAL_ITEMS_def MAX_FIELD_LEN_def
      MAX_NUM_FIELDS_def)

text \<open>The four \<^verbatim>\<open>const _: () = assert!(..)\<close> items of \<^verbatim>\<open>page/mod.rs\<close>.\<close>

lemma layout_asserts:
  "2 * LEAF_UNDERFULL_BYTES \<le> LEAF_USABLE"
  "2 * INTERNAL_UNDERFULL_BYTES + MAX_INTERNAL_ENTRY_SIZE \<le> INTERNAL_USABLE"
  "MIN_LEAF_HEADER_SIZE + MAX_LEAF_ITEMS * SLOT_ENTRY_SIZE \<le> PAGE_SIZE"
  "MAX_INTERNAL_HEADER_SIZE + (MAX_INTERNAL_ITEMS + 1) * PAGE_ID_SIZE
     + MAX_INTERNAL_ITEMS * SLOT_ENTRY_SIZE \<le> PAGE_SIZE"
  by (simp_all add: layout_simps)

end
