(* ===== verification/Values.thy ===== *)
theory Values
  imports Layout "HOL-Library.List_Lexorder"
begin

text \<open>
  \<^verbatim>\<open>src/schema/key.rs\<close> and the first half of \<^verbatim>\<open>src/schema/mod.rs\<close>: row values, keys with their
  derived order, rows, and their byte formats. \<open>i64\<close> is a 64-bit word read with \<open>sint\<close>; strings
  are byte lists ordered lexicographically, as \<^verbatim>\<open>str\<close> is.
\<close>

section \<open>Row values\<close>

datatype row_value_error =
    RowValueIo io_error
  | UnknownTag byte
  | FieldTooLong nat
  | TooManyFields nat
  | InvalidBool byte
  | ValueUtf8Error

datatype row_value =
    IntegerV "64 word"
  | FloatV "64 word"
  | StringV rstring
  | BooleanV bool
  | NullV

datatype column_type = IntegerT | FloatT | StringT | BoolT

fun row_value_column_type :: "row_value \<Rightarrow> column_type option" where
  "row_value_column_type (FloatV _) = Some FloatT"
| "row_value_column_type (IntegerV _) = Some IntegerT"
| "row_value_column_type (StringV _) = Some StringT"
| "row_value_column_type (BooleanV _) = Some BoolT"
| "row_value_column_type NullV = None"

text \<open>The derived \<^verbatim>\<open>PartialEq\<close> of \<^verbatim>\<open>RowValue\<close>.\<close>

fun row_value_eq :: "row_value \<Rightarrow> row_value \<Rightarrow> bool" where
  "row_value_eq (IntegerV a) (IntegerV b) \<longleftrightarrow> a = b"
| "row_value_eq (FloatV a) (FloatV b) \<longleftrightarrow> f64_eq a b"
| "row_value_eq (StringV a) (StringV b) \<longleftrightarrow> a = b"
| "row_value_eq (BooleanV a) (BooleanV b) \<longleftrightarrow> a = b"
| "row_value_eq NullV NullV \<longleftrightarrow> True"
| "row_value_eq _ _ \<longleftrightarrow> False"

fun row_value_serialize :: "env \<Rightarrow> row_value \<Rightarrow> (byte list, row_value_error) result" where
  "row_value_serialize E (IntegerV n) = Ok (INT_FLAG # u64_be n)"
| "row_value_serialize E (FloatV f) = Ok (FLOAT_FLAG # u64_be f)"
| "row_value_serialize E (StringV s) =
     (if length s > MAX_FIELD_LEN then Err (FieldTooLong (length s))
      else Ok (STRING_FLAG # encode_var_vec E (length s) @ s))"
| "row_value_serialize E (BooleanV b) = Ok [BOOL_FLAG, if b then 1 else 0]"
| "row_value_serialize E NullV = Ok [NULL_FLAG]"

definition row_value_deserialize :: "env \<Rightarrow> (row_value, row_value_error) reader" where
  "row_value_deserialize E bs =
     rbind (map_err RowValueIo (read_u8 bs)) (\<lambda>(tag, r).
       if tag = INT_FLAG then
         rbind (map_err RowValueIo (read_exact 8 r)) (\<lambda>(buf, r').
           Ok (IntegerV (u64_from_be buf), r'))
       else if tag = FLOAT_FLAG then
         rbind (map_err RowValueIo (read_exact 8 r)) (\<lambda>(buf, r').
           Ok (FloatV (u64_from_be buf), r'))
       else if tag = STRING_FLAG then
         rbind (map_err RowValueIo (read_varint E r)) (\<lambda>(len, r').
           if len > MAX_FIELD_LEN then Err (FieldTooLong len)
           else rbind (map_err RowValueIo (read_exact len r')) (\<lambda>(s, r'').
             rbind (map_err (\<lambda>_. ValueUtf8Error) (from_utf8 s)) (\<lambda>str. Ok (StringV str, r''))))
       else if tag = BOOL_FLAG then
         rbind (map_err RowValueIo (read_u8 r)) (\<lambda>(b, r').
           if b = 0 then Ok (BooleanV False, r')
           else if b = 1 then Ok (BooleanV True, r')
           else Err (InvalidBool b))
       else if tag = NULL_FLAG then Ok (NullV, r)
       else Err (UnknownTag tag))"

fun row_value_encoded_size :: "env \<Rightarrow> row_value \<Rightarrow> nat" where
  "row_value_encoded_size E (FloatV _) = 1 + 8"
| "row_value_encoded_size E (IntegerV _) = 1 + 8"
| "row_value_encoded_size E (BooleanV _) = 1 + 1"
| "row_value_encoded_size E (StringV s) = 1 + required_space E (length s) + length s"
| "row_value_encoded_size E NullV = 1"

text \<open>The invariant of a Rust \<^verbatim>\<open>String\<close> inside a value, and the length \<^verbatim>\<open>serialize\<close> accepts.\<close>

fun row_value_wf :: "row_value \<Rightarrow> bool" where
  "row_value_wf (StringV s) \<longleftrightarrow> utf8_valid s \<and> length s \<le> MAX_FIELD_LEN"
| "row_value_wf _ \<longleftrightarrow> True"

lemma flags_distinct [simp]:
  "INT_FLAG \<noteq> FLOAT_FLAG" "INT_FLAG \<noteq> STRING_FLAG" "INT_FLAG \<noteq> BOOL_FLAG" "INT_FLAG \<noteq> NULL_FLAG"
  "FLOAT_FLAG \<noteq> INT_FLAG" "FLOAT_FLAG \<noteq> STRING_FLAG" "FLOAT_FLAG \<noteq> BOOL_FLAG" "FLOAT_FLAG \<noteq> NULL_FLAG"
  "STRING_FLAG \<noteq> INT_FLAG" "STRING_FLAG \<noteq> FLOAT_FLAG" "STRING_FLAG \<noteq> BOOL_FLAG"
  "STRING_FLAG \<noteq> NULL_FLAG" "BOOL_FLAG \<noteq> INT_FLAG" "BOOL_FLAG \<noteq> FLOAT_FLAG"
  "BOOL_FLAG \<noteq> STRING_FLAG" "BOOL_FLAG \<noteq> NULL_FLAG" "NULL_FLAG \<noteq> INT_FLAG" "NULL_FLAG \<noteq> FLOAT_FLAG"
  "NULL_FLAG \<noteq> STRING_FLAG" "NULL_FLAG \<noteq> BOOL_FLAG"
  by (simp_all add: flag_defs)

lemma varint_field [codec_simps]:
  assumes "varint_ok E" and "n \<le> MAX_FIELD_LEN"
  shows "length (encode_var_vec E n) = required_space E n"
    and "1 \<le> required_space E n"
    and "read_varint E (encode_var_vec E n @ rest) = Ok (n, rest)"
  using varint_okD [OF assms(1), of n] assms(2) by (simp_all add: layout_simps)

interpretation row_value: serializable_seq "row_value_serialize E" "row_value_deserialize E"
  "row_value_encoded_size E" "\<lambda>v. varint_ok E \<and> row_value_wf v" for E
proof
  fix v bs rest
  assume wf: "varint_ok E \<and> row_value_wf v"
  then show "\<exists>bs. row_value_serialize E v = Ok bs" by (cases v) auto
  assume ser: "row_value_serialize E v = Ok bs"
  show "length bs = row_value_encoded_size E v"
    using wf ser by (cases v) (auto simp: codec_simps split: if_splits)
  show "row_value_deserialize E (bs @ rest) = Ok (v, rest)"
    using wf ser
    by (cases v)
      (auto simp: row_value_deserialize_def codec_simps from_utf8_def split: if_splits)
qed

lemma row_value_deserialize_wf: "row_value_deserialize E bs = Ok (v, r) \<Longrightarrow> row_value_wf v"
  by (auto simp: row_value_deserialize_def result_simps split: if_splits)

section \<open>Keys (schema/key.rs)\<close>

datatype key = IntegerK "64 word" | StringK rstring

datatype key_error = NotOrderable | NullKey | KeyRowValue row_value_error | BoolKey

fun key_try_from :: "row_value \<Rightarrow> (key, key_error) result" where
  "key_try_from (IntegerV n) = Ok (IntegerK n)"
| "key_try_from (StringV s) = Ok (StringK s)"
| "key_try_from NullV = Err NullKey"
| "key_try_from (FloatV _) = Err NotOrderable"
| "key_try_from (BooleanV _) = Err BoolKey"

fun key_to_row_value :: "key \<Rightarrow> row_value" where
  "key_to_row_value (IntegerK n) = IntegerV n"
| "key_to_row_value (StringK s) = StringV s"

text \<open>The derived \<^verbatim>\<open>Ord\<close> of \<^verbatim>\<open>Key\<close>: integers before strings, each in its own order.\<close>

fun key_less :: "key \<Rightarrow> key \<Rightarrow> bool" where
  "key_less (IntegerK a) (IntegerK b) \<longleftrightarrow> sint a < sint b"
| "key_less (IntegerK a) (StringK b) \<longleftrightarrow> True"
| "key_less (StringK a) (IntegerK b) \<longleftrightarrow> False"
| "key_less (StringK a) (StringK b) \<longleftrightarrow> a < b"

instantiation key :: linorder
begin
definition less_key :: "key \<Rightarrow> key \<Rightarrow> bool" where
  "less_key a b \<longleftrightarrow> key_less a b"
definition less_eq_key :: "key \<Rightarrow> key \<Rightarrow> bool" where
  "less_eq_key a b \<longleftrightarrow> key_less a b \<or> a = b"
instance
proof
  fix x y z :: key
  show "x < y \<longleftrightarrow> x \<le> y \<and> \<not> y \<le> x"
    by (cases x; cases y) (auto simp: less_key_def less_eq_key_def)
  show "x \<le> x" by (simp add: less_eq_key_def)
  show "x \<le> y \<Longrightarrow> y \<le> z \<Longrightarrow> x \<le> z"
    by (cases x; cases y; cases z) (auto simp: less_eq_key_def)
  show "x \<le> y \<Longrightarrow> y \<le> x \<Longrightarrow> x = y"
    by (cases x; cases y) (auto simp: less_eq_key_def)
  show "x \<le> y \<or> y \<le> x"
    by (cases x; cases y) (auto simp: less_eq_key_def not_less dest!: order_le_less [THEN iffD1] dest: signed_word_eqI)
qed
end

lemma key_less_simps [simp]:
  "IntegerK a < IntegerK b \<longleftrightarrow> sint a < sint b" "IntegerK a < StringK s"
  "\<not> StringK s < IntegerK a" "StringK s < StringK t \<longleftrightarrow> s < t"
  by (simp_all add: less_key_def)

definition key_serialize :: "env \<Rightarrow> key \<Rightarrow> (byte list, key_error) result" where
  "key_serialize E k = map_err KeyRowValue (row_value_serialize E (key_to_row_value k))"

definition key_deserialize :: "env \<Rightarrow> (key, key_error) reader" where
  "key_deserialize E bs =
     rbind (map_err KeyRowValue (row_value_deserialize E bs)) (\<lambda>(field, r).
       rbind (key_try_from field) (\<lambda>k. Ok (k, r)))"

fun key_encoded_size :: "env \<Rightarrow> key \<Rightarrow> nat" where
  "key_encoded_size E (IntegerK _) = 1 + 8"
| "key_encoded_size E (StringK s) = 1 + required_space E (length s) + length s"

definition key_wf :: "key \<Rightarrow> bool" where
  "key_wf k \<longleftrightarrow> row_value_wf (key_to_row_value k)"

lemma key_to_row_value_inj [simp]: "key_to_row_value a = key_to_row_value b \<longleftrightarrow> a = b"
  by (cases a; cases b) auto

lemma key_to_from [simp]: "key_try_from (key_to_row_value k) = Ok k"
  by (cases k) auto

lemma key_from_to: "key_try_from v = Ok k \<longleftrightarrow> v = key_to_row_value k"
  by (cases v; cases k) auto

lemma key_try_from_not_Panic [simp]: "key_try_from v \<noteq> Panic"
  by (cases v) auto

lemma key_encoded_size_row_value:
  "row_value_encoded_size E (key_to_row_value k) = key_encoded_size E k"
  by (cases k) auto

interpretation key: serializable_seq "key_serialize E" "key_deserialize E"
  "key_encoded_size E" "\<lambda>k. varint_ok E \<and> key_wf k" for E
proof
  fix k bs rest
  assume wf: "varint_ok E \<and> key_wf k"
  let ?v = "key_to_row_value k"
  have rv: "varint_ok E \<and> row_value_wf ?v" using wf by (simp add: key_wf_def)
  show "\<exists>bs. key_serialize E k = Ok bs"
    using row_value.ser_total [OF rv] by (auto simp: key_serialize_def)
  assume "key_serialize E k = Ok bs"
  then have ser: "row_value_serialize E ?v = Ok bs" by (simp add: key_serialize_def result_simps)
  show "length bs = key_encoded_size E k"
    using row_value.ser_length [OF rv ser] by (simp add: key_encoded_size_row_value)
  show "key_deserialize E (bs @ rest) = Ok (k, rest)"
    using row_value.deser_ser [OF rv ser] by (simp add: key_deserialize_def)
qed

section \<open>Rows\<close>

record row =
  row_fields :: "row_value list"

datatype row_error = EmptyRow | InvalidFirstEntry

text \<open>
  \<^verbatim>\<open>Row::cmp_key\<close>; \<open>None\<close> is the panic on a row whose first field is missing or is no key.
\<close>

fun cmp_key_value :: "row_value option \<Rightarrow> key \<Rightarrow> ordering option" where
  "cmp_key_value (Some (IntegerV a)) (IntegerK b) = Some (cmp (sint a) (sint b))"
| "cmp_key_value (Some (StringV a)) (StringK b) = Some (cmp a b)"
| "cmp_key_value (Some (IntegerV _)) (StringK _) = Some Less"
| "cmp_key_value (Some (StringV _)) (IntegerK _) = Some Greater"
| "cmp_key_value other _ = None"

definition cmp_key :: "row \<Rightarrow> key \<Rightarrow> ordering option" where
  "cmp_key r k = cmp_key_value (vec_first (row_fields r)) k"

definition row_try_from :: "row_value list \<Rightarrow> (row, row_error) result" where
  "row_try_from fs =
     (case fs of
       [] \<Rightarrow> Err EmptyRow
     | key_row # _ \<Rightarrow>
         if is_ok (key_try_from key_row) then Ok \<lparr>row_fields = fs\<rparr> else Err InvalidFirstEntry)"

definition row_serialize :: "env \<Rightarrow> row \<Rightarrow> (byte list, row_value_error) result" where
  "row_serialize E r =
     (if length (row_fields r) > MAX_NUM_FIELDS then Err (TooManyFields (length (row_fields r)))
      else rbind (ser_seq (row_value_serialize E) (row_fields r)) (\<lambda>bs.
        Ok (word_of_nat (length (row_fields r)) # bs)))"

definition row_deserialize :: "env \<Rightarrow> (row, row_value_error) reader" where
  "row_deserialize E bs =
     rbind (map_err RowValueIo (read_u8 bs)) (\<lambda>(b, r).
       let num_fields = unat b in
       if num_fields > MAX_NUM_FIELDS then Err (TooManyFields num_fields)
       else rbind (deser_seq (row_value_deserialize E) num_fields r) (\<lambda>(fs, r').
         Ok (\<lparr>row_fields = fs\<rparr>, r')))"

definition row_encoded_size :: "env \<Rightarrow> row \<Rightarrow> nat" where
  "row_encoded_size E r = 1 + sum_list (map (row_value_encoded_size E) (row_fields r))"

definition row_wf :: "row \<Rightarrow> bool" where
  "row_wf r \<longleftrightarrow> length (row_fields r) \<le> MAX_NUM_FIELDS \<and> (\<forall>v \<in> set (row_fields r). row_value_wf v)"

interpretation row: serializable_seq "row_serialize E" "row_deserialize E"
  "row_encoded_size E" "\<lambda>r. varint_ok E \<and> row_wf r" for E
proof
  fix r bs rest
  assume wf: "varint_ok E \<and> row_wf r"
  then have fs: "row_fields r = row_fields r \<and> (\<forall>v \<in> set (row_fields r). varint_ok E \<and> row_value_wf v)"
    and len: "length (row_fields r) \<le> MAX_NUM_FIELDS"
    by (auto simp: row_wf_def)
  obtain cs where cs: "ser_seq (row_value_serialize E) (row_fields r) = Ok cs"
    using row_value.seq.ser_total [OF fs] by auto
  then show "\<exists>bs. row_serialize E r = Ok bs" using len by (simp add: row_serialize_def)
  assume "row_serialize E r = Ok bs"
  then have bs: "bs = word_of_nat (length (row_fields r)) # cs"
    using cs len by (simp add: row_serialize_def)
  show "length bs = row_encoded_size E r"
    using row_value.seq.ser_length [OF fs cs] by (simp add: bs row_encoded_size_def)
  have "unat (word_of_nat (length (row_fields r)) :: byte) = length (row_fields r)"
    using len by (simp add: unat_of_nat layout_simps)
  then show "row_deserialize E (bs @ rest) = Ok (r, rest)"
    using row_value.seq.deser_ser [OF fs cs, of rest] len by (simp add: bs row_deserialize_def)
qed

text \<open>\<^verbatim>\<open>Row::cmp_key\<close> is \<^verbatim>\<open>Key::cmp\<close> on the row's key, and panics exactly when it has none.\<close>

definition row_key :: "row \<Rightarrow> key option" where
  "row_key r =
     (case row_fields r of
       [] \<Rightarrow> None
     | v # _ \<Rightarrow> (case key_try_from v of Ok k \<Rightarrow> Some k | _ \<Rightarrow> None))"

lemma cmp_key_row_key: "cmp_key r k = map_option (\<lambda>k'. cmp k' k) (row_key r)"
proof (cases "row_fields r")
  case Nil
  then show ?thesis by (simp add: cmp_key_def row_key_def)
next
  case (Cons v vs)
  then show ?thesis
    by (cases v; cases k) (auto simp: cmp_key_def row_key_def cmp_def signed_word_eqI)
qed

lemma row_key_Some_iff: "row_key r = Some k \<longleftrightarrow> (\<exists>vs. row_fields r = key_to_row_value k # vs)"
  by (auto simp: row_key_def key_from_to split: list.splits result.splits)

end
