(* ===== verification/Schema.thy ===== *)
theory Schema
  imports Values
begin

text \<open>
  The second half of \<^verbatim>\<open>src/schema/mod.rs\<close>: columns, schemas, row validation and their byte
  formats. \<open>leaf_entry_size\<close> and \<open>internal_entry_size\<close> (\<^verbatim>\<open>page/leaf.rs\<close>, \<^verbatim>\<open>page/internal.rs\<close>)
  are here because \<^verbatim>\<open>validate_row\<close> calls them.
\<close>

section \<open>Entry sizes\<close>

definition leaf_entry_size :: "env \<Rightarrow> row \<Rightarrow> nat" where
  "leaf_entry_size E r = row_encoded_size E r + SLOT_ENTRY_SIZE"

definition internal_entry_size :: "env \<Rightarrow> key \<Rightarrow> nat" where
  "internal_entry_size E k = key_encoded_size E k + SLOT_ENTRY_SIZE + PAGE_ID_SIZE"

section \<open>Columns\<close>

datatype schema_error =
    TypeMismatch nat
  | ColumnCountMismatch
  | NullValueInNonNullCol nat
  | NullablePrimaryKey
  | NonOrdPrimaryKey
  | EmptyColumns
  | TooManyColumns
  | RowTooLong nat
  | KeyTooLong nat
  | SchemaFieldTooLong nat
  | InvalidKey
  | EmptyColumnName
  | SchemaIo io_error
  | TagError byte
  | SchemaInvalidBool byte
  | SchemaUtf8Error
  | ColumnNotFound
  | NanFloat
  | ParseBool
  | ParseInt
  | ParseFloat

fun is_valid_key :: "column_type \<Rightarrow> bool" where
  "is_valid_key FloatT \<longleftrightarrow> False"
| "is_valid_key BoolT \<longleftrightarrow> False"
| "is_valid_key IntegerT \<longleftrightarrow> True"
| "is_valid_key StringT \<longleftrightarrow> True"

definition column_type_deserialize :: "(column_type, schema_error) reader" where
  "column_type_deserialize bs =
     rbind (map_err SchemaIo (read_u8 bs)) (\<lambda>(b, r).
       if b = INT_FLAG then Ok (IntegerT, r)
       else if b = FLOAT_FLAG then Ok (FloatT, r)
       else if b = STRING_FLAG then Ok (StringT, r)
       else if b = BOOL_FLAG then Ok (BoolT, r)
       else Err (TagError b))"

fun column_type_tag :: "column_type \<Rightarrow> byte" where
  "column_type_tag IntegerT = INT_FLAG"
| "column_type_tag FloatT = FLOAT_FLAG"
| "column_type_tag StringT = STRING_FLAG"
| "column_type_tag BoolT = BOOL_FLAG"

definition column_type_serialize :: "column_type \<Rightarrow> (byte list, schema_error) result" where
  "column_type_serialize t = Ok [column_type_tag t]"

definition column_type_encoded_size :: "column_type \<Rightarrow> nat" where
  "column_type_encoded_size t = 1"

interpretation column_type: serializable column_type_serialize column_type_deserialize
  column_type_encoded_size "\<lambda>_. True"
proof
  fix t :: column_type and bs rest
  show "\<exists>bs. column_type_serialize t = Ok bs" by (simp add: column_type_serialize_def)
  assume "column_type_serialize t = Ok bs"
  then have bs: "bs = [column_type_tag t]" by (simp add: column_type_serialize_def)
  show "length bs = column_type_encoded_size t" by (simp add: bs column_type_encoded_size_def)
  show "column_type_deserialize (bs @ rest) = Ok (t, rest)"
    by (cases t) (auto simp: bs column_type_deserialize_def)
qed

record column =
  col_name :: rstring
  col_type :: column_type
  nullable :: bool

text \<open>
  The constructors \<^verbatim>\<open>Column::integer\<close>, \<^verbatim>\<open>Column::nullable_integer\<close>, .. that the macro
  \<^verbatim>\<open>column_constructors!\<close> generates: one per type and nullability.
\<close>

definition column_new :: "column_type \<Rightarrow> bool \<Rightarrow> rstring \<Rightarrow> (column, schema_error) result" where
  "column_new t nl name =
     (if name = [] then Err EmptyColumnName
      else Ok \<lparr>col_name = name, col_type = t, nullable = nl\<rparr>)"

definition column_deserialize :: "env \<Rightarrow> (column, schema_error) reader" where
  "column_deserialize E bs =
     rbind (column_type_deserialize bs) (\<lambda>(t, r).
       rbind (map_err SchemaIo (read_u8 r)) (\<lambda>(b, r1).
         rbind (if b = 0 then Ok False else if b = 1 then Ok True else Err (SchemaInvalidBool b))
           (\<lambda>nl.
             rbind (map_err SchemaIo (read_varint E r1)) (\<lambda>(name_len, r2).
               if name_len > MAX_FIELD_LEN then Err (SchemaFieldTooLong name_len)
               else rbind (map_err SchemaIo (read_exact name_len r2)) (\<lambda>(name_buf, r3).
                 rbind (map_err (\<lambda>_. SchemaUtf8Error) (from_utf8 name_buf)) (\<lambda>name.
                   Ok (\<lparr>col_name = name, col_type = t, nullable = nl\<rparr>, r3)))))))"

definition column_serialize :: "env \<Rightarrow> column \<Rightarrow> (byte list, schema_error) result" where
  "column_serialize E c =
     rbind (column_type_serialize (col_type c)) (\<lambda>bs.
       Ok (bs @ [if nullable c then 1 else 0]
             @ encode_var_vec E (length (col_name c)) @ col_name c))"

definition column_encoded_size :: "env \<Rightarrow> column \<Rightarrow> nat" where
  "column_encoded_size E c =
     1 + 1 + required_space E (length (col_name c)) + length (col_name c)"

text \<open>
  \<^verbatim>\<open>serialize\<close> does not look at the length of the name, \<^verbatim>\<open>deserialize\<close> refuses names longer
  than \<^verbatim>\<open>MAX_FIELD_LEN\<close>: the columns that survive a round trip are the short ones.
\<close>

definition column_wf :: "column \<Rightarrow> bool" where
  "column_wf c \<longleftrightarrow> utf8_valid (col_name c) \<and> length (col_name c) \<le> MAX_FIELD_LEN"

interpretation column: serializable_seq "column_serialize E" "column_deserialize E"
  "column_encoded_size E" "\<lambda>c. varint_ok E \<and> column_wf c" for E
proof
  fix c :: column and bs rest
  assume wf: "varint_ok E \<and> column_wf c"
  show "\<exists>bs. column_serialize E c = Ok bs"
    by (simp add: column_serialize_def column_type_serialize_def)
  assume "column_serialize E c = Ok bs"
  then obtain ts where ts: "column_type_serialize (col_type c) = Ok ts"
    and bs: "bs = ts @ [if nullable c then 1 else 0]
      @ encode_var_vec E (length (col_name c)) @ col_name c"
    by (auto simp: column_serialize_def result_simps)
  show "length bs = column_encoded_size E c"
    using wf column_type.ser_length [OF TrueI ts]
    by (simp add: bs column_encoded_size_def column_type_encoded_size_def column_wf_def codec_simps)
  show "column_deserialize E (bs @ rest) = Ok (c, rest)"
    using wf column_type.deser_ser [OF TrueI ts]
    by (simp add: bs column_deserialize_def column_wf_def codec_simps from_utf8_def)
qed

section \<open>Schemas\<close>

record schema =
  columns :: "column list"

definition schema_try_from :: "column list \<Rightarrow> (schema, schema_error) result" where
  "schema_try_from cols =
     (case cols of
       [] \<Rightarrow> Err EmptyColumns
     | c # _ \<Rightarrow>
         if \<not> is_valid_key (col_type c) then Err NonOrdPrimaryKey
         else if nullable c then Err NullablePrimaryKey
         else if length cols > MAX_NUM_FIELDS then Err TooManyColumns
         else Ok \<lparr>columns = cols\<rparr>)"

definition schema_deserialize :: "env \<Rightarrow> (schema, schema_error) reader" where
  "schema_deserialize E bs =
     rbind (map_err SchemaIo (read_varint E bs)) (\<lambda>(num_cols, r).
       if num_cols > MAX_NUM_FIELDS then Err TooManyColumns
       else rbind (deser_seq (column_deserialize E) num_cols r) (\<lambda>(cols, r').
         rbind (schema_try_from cols) (\<lambda>s. Ok (s, r'))))"

definition schema_serialize :: "env \<Rightarrow> schema \<Rightarrow> (byte list, schema_error) result" where
  "schema_serialize E s =
     rbind (ser_seq (column_serialize E) (columns s)) (\<lambda>bs.
       Ok (encode_var_vec E (length (columns s)) @ bs))"

definition schema_encoded_size :: "env \<Rightarrow> schema \<Rightarrow> nat" where
  "schema_encoded_size E s =
     required_space E (length (columns s)) + sum_list (map (column_encoded_size E) (columns s))"

text \<open>A schema that \<^verbatim>\<open>Schema::try_from\<close> can have built.\<close>

definition schema_valid :: "schema \<Rightarrow> bool" where
  "schema_valid s \<longleftrightarrow> schema_try_from (columns s) = Ok s"

definition schema_wf :: "schema \<Rightarrow> bool" where
  "schema_wf s \<longleftrightarrow> schema_valid s \<and> (\<forall>c \<in> set (columns s). column_wf c)"

lemma schema_try_from_Ok_iff:
  "schema_try_from cols = Ok s \<longleftrightarrow>
    s = \<lparr>columns = cols\<rparr> \<and> cols \<noteq> [] \<and> is_valid_key (col_type (hd cols)) \<and>
    \<not> nullable (hd cols) \<and> length cols \<le> MAX_NUM_FIELDS"
  by (auto simp: schema_try_from_def split: list.splits)

lemma schema_valid_iff:
  "schema_valid s \<longleftrightarrow>
    columns s \<noteq> [] \<and> is_valid_key (col_type (hd (columns s))) \<and>
    \<not> nullable (hd (columns s)) \<and> length (columns s) \<le> MAX_NUM_FIELDS"
  by (auto simp: schema_valid_def schema_try_from_Ok_iff)

interpretation schema: serializable "schema_serialize E" "schema_deserialize E"
  "schema_encoded_size E" "\<lambda>s. varint_ok E \<and> schema_wf s" for E
proof
  fix s :: schema and bs rest
  assume wf: "varint_ok E \<and> schema_wf s"
  then have cs: "columns s = columns s \<and> (\<forall>c \<in> set (columns s). varint_ok E \<and> column_wf c)"
    and valid: "schema_try_from (columns s) = Ok s"
    by (auto simp: schema_wf_def schema_valid_def)
  have len: "length (columns s) \<le> MAX_FIELD_LEN" "length (columns s) \<le> MAX_NUM_FIELDS"
    using valid by (auto simp: schema_try_from_Ok_iff layout_simps)
  obtain ds where ds: "ser_seq (column_serialize E) (columns s) = Ok ds"
    using column.seq.ser_total [OF cs] by auto
  then show "\<exists>bs. schema_serialize E s = Ok bs" by (simp add: schema_serialize_def)
  assume "schema_serialize E s = Ok bs"
  then have bs: "bs = encode_var_vec E (length (columns s)) @ ds"
    using ds by (simp add: schema_serialize_def)
  show "length bs = schema_encoded_size E s"
    using wf len column.seq.ser_length [OF cs ds]
    by (simp add: bs schema_encoded_size_def codec_simps)
  show "schema_deserialize E (bs @ rest) = Ok (s, rest)"
    using wf len valid column.seq.deser_ser [OF cs ds, of rest]
    by (simp add: bs schema_deserialize_def codec_simps)
qed

lemma schema_deserialize_valid: "schema_deserialize E bs = Ok (s, r) \<Longrightarrow> schema_valid s"
  by (auto simp: schema_deserialize_def result_simps schema_try_from_Ok_iff schema_valid_iff
      split: if_splits)

section \<open>Validation\<close>

datatype validated_row = ValidatedRow row

fun validated_row_as_ref :: "validated_row \<Rightarrow> row" where
  "validated_row_as_ref (ValidatedRow r) = r"

text \<open>\<^verbatim>\<open>ValidatedRow::primary_key\<close>; it indexes the first field and can reach \<^verbatim>\<open>unreachable!\<close>.\<close>

definition primary_key :: "validated_row \<Rightarrow> (key, 'e) result" where
  "primary_key vr =
     (case row_fields (validated_row_as_ref vr) of
       IntegerV n # _ \<Rightarrow> Ok (IntegerK n)
     | StringV s # _ \<Rightarrow> Ok (StringK s)
     | _ \<Rightarrow> Panic)"

text \<open>The loop of \<^verbatim>\<open>validate_row\<close> over the columns zipped with the values, from index \<open>i\<close>.\<close>

fun validate_fields :: "nat \<Rightarrow> (column \<times> row_value) list \<Rightarrow> (unit, schema_error) result" where
  "validate_fields i [] = Ok ()"
| "validate_fields i ((col, value) # rest) =
     (case row_value_column_type value of
       Some c \<Rightarrow>
         if c = col_type col then
           (case value of
             StringV s \<Rightarrow>
               if length s > MAX_FIELD_LEN then Err (SchemaFieldTooLong (length s))
               else validate_fields (Suc i) rest
           | _ \<Rightarrow> validate_fields (Suc i) rest)
         else Err (TypeMismatch i)
     | None \<Rightarrow>
         if nullable col then validate_fields (Suc i) rest
         else Err (NullValueInNonNullCol i))"

definition validate_row :: "env \<Rightarrow> schema \<Rightarrow> row \<Rightarrow> (validated_row, schema_error) result" where
  "validate_row E s row =
     (if length (columns s) \<noteq> length (row_fields row) then Err ColumnCountMismatch
      else if leaf_entry_size E row > MAX_LEAF_ENTRY_SIZE then
        Err (RowTooLong (leaf_entry_size E row))
      else rbind (vec_index (row_fields row) 0) (\<lambda>first.
        case key_try_from first of
          Ok key \<Rightarrow>
            if internal_entry_size E key > MAX_INTERNAL_ENTRY_SIZE then
              Err (KeyTooLong (internal_entry_size E key))
            else rbind (validate_fields 0 (zip (columns s) (row_fields row))) (\<lambda>_.
              Ok (ValidatedRow row))
        | _ \<Rightarrow> Err InvalidKey))"

text \<open>What a field must be for its column.\<close>

definition field_conforms :: "column \<Rightarrow> row_value \<Rightarrow> bool" where
  "field_conforms c v \<longleftrightarrow>
     (case row_value_column_type v of
       None \<Rightarrow> nullable c
     | Some t \<Rightarrow> t = col_type c \<and> (\<forall>s. v = StringV s \<longrightarrow> length s \<le> MAX_FIELD_LEN))"

lemma validate_fields_Ok_iff:
  "validate_fields i cvs = Ok () \<longleftrightarrow> (\<forall>(c, v) \<in> set cvs. field_conforms c v)"
proof (induction cvs arbitrary: i)
  case Nil
  then show ?case by simp
next
  case (Cons cv cvs)
  obtain c v where "cv = (c, v)" by (cases cv)
  with Cons show ?case by (cases v) (auto simp: field_conforms_def)
qed

lemma validate_fields_not_Panic [simp]: "validate_fields i cvs \<noteq> Panic"
  by (induction i cvs rule: validate_fields.induct)
    (auto split: option.splits row_value.splits)

text \<open>The limits a stored row keeps: what \<^verbatim>\<open>check_invariants\<close> asks of each row of a leaf.\<close>

definition row_fits :: "env \<Rightarrow> row \<Rightarrow> bool" where
  "row_fits E r \<longleftrightarrow>
     leaf_entry_size E r \<le> MAX_LEAF_ENTRY_SIZE \<and>
     (case row_key r of
       None \<Rightarrow> False
     | Some k \<Rightarrow> internal_entry_size E k \<le> MAX_INTERNAL_ENTRY_SIZE)"

lemma row_fits_iff:
  "row_fits E r \<longleftrightarrow>
    leaf_entry_size E r \<le> MAX_LEAF_ENTRY_SIZE \<and>
    (\<exists>k. row_key r = Some k \<and> internal_entry_size E k \<le> MAX_INTERNAL_ENTRY_SIZE)"
  by (auto simp: row_fits_def split: option.splits)

lemma primary_key_row_key:
  "primary_key (ValidatedRow r) =
    (case row_key r of Some k \<Rightarrow> Ok k | None \<Rightarrow> Panic)"
proof (cases "row_fields r")
  case Nil
  then show ?thesis by (simp add: primary_key_def row_key_def)
next
  case (Cons v vs)
  then show ?thesis by (cases v) (simp_all add: primary_key_def row_key_def)
qed

end
