(* ===== verification/Page.thy ===== *)
theory Page
  imports Schema
begin

text \<open>
  \<^verbatim>\<open>src/page/mod.rs\<close> (the page and its accessors), \<^verbatim>\<open>src/page/error.rs\<close> and
  \<^verbatim>\<open>src/page/invariants.rs\<close>. An operation on \<^verbatim>\<open>&mut self\<close> returns its result together with
  the page it leaves behind, on the error paths too. \<open>page_inv\<close> is the invariant every stored
  page satisfies: \<^verbatim>\<open>check_invariants\<close> accepts it.
\<close>

section \<open>Errors (page/error.rs)\<close>

datatype corruption_kind =
    InvalidTag byte
  | InvalidRange nat "nat \<times> nat"
  | CorruptRow nat
  | CorruptKey nat
  | ChildCountMismatch nat nat
  | NoKey
  | InvalidKeyValue row_value
  | UnsortedKeys nat
  | ExceedsCapacity
  | CheckSumMismatch
  | InvalidPointerTag
  | OverlappingSlots nat nat
  | TrailingBytes nat
  | TooManyItems nat
  | RowTooLarge nat
  | KeyTooLarge nat
  | PageNumOutOfRange nat
  | BadSchema
  | TableNameTooLong nat

datatype merge_fail_reason =
    MergePointerMismatch "page_id option" "page_id option"
  | MergeKeys

datatype borrow_fail_reason =
    EmptyBorrow page_id
  | KeysOutOfOrder key
  | BorrowPointerMismatch "page_id option" "page_id option"

datatype page_error =
    PageIo io_error
  | PageLsnError lsn_error
  | PageValue row_value_error
  | PageKey key_error
  | PageSchema schema_error
  | TooSmallToSplit page_id
  | PageFull
  | DuplicateKey
  | WrongPageType
  | InvariantViolated
  | Corrupt "page_id option" corruption_kind
  | InvalidMerge merge_fail_reason
  | InvalidBorrow borrow_fail_reason
  | StaleLsnUpdate lsn lsn
  | MissingKey key key
  | KeyNotInOrder key
  | NotFreeListHead "page_id option" page_id
  | AlreadyFree page_id
  | PageOutOfRange page_id
  | WrongTable page_id
  | ReservedPage
  | PageUtf8Error

section \<open>Pages (page/mod.rs)\<close>

text \<open>The fields of a variant are in the source's order.\<close>

datatype page_body =
    Leaf "row list" "page_id option" "page_id option"
      \<comment> \<open>records, next, prev\<close>
  | Internal "key list" "page_id list"
      \<comment> \<open>keys, children\<close>
  | Meta page_id "32 word" "page_id option" schema rstring
      \<comment> \<open>root id, page count, free list head, schema, table name\<close>
  | Free "page_id option"
      \<comment> \<open>next free page\<close>

record page =
  pg_id :: page_id
  last_update :: page_lsn
  body :: page_body

type_synonym 'a page_op = "('a, page_error) result \<times> page"

fun is_leaf_body :: "page_body \<Rightarrow> bool" where
  "is_leaf_body (Leaf _ _ _) \<longleftrightarrow> True"
| "is_leaf_body _ \<longleftrightarrow> False"

fun is_internal_body :: "page_body \<Rightarrow> bool" where
  "is_internal_body (Internal _ _) \<longleftrightarrow> True"
| "is_internal_body _ \<longleftrightarrow> False"

fun is_meta_body :: "page_body \<Rightarrow> bool" where
  "is_meta_body (Meta _ _ _ _ _) \<longleftrightarrow> True"
| "is_meta_body _ \<longleftrightarrow> False"

fun is_free_body :: "page_body \<Rightarrow> bool" where
  "is_free_body (Free _) \<longleftrightarrow> True"
| "is_free_body _ \<longleftrightarrow> False"

definition is_leaf :: "page \<Rightarrow> bool" where "is_leaf p \<longleftrightarrow> is_leaf_body (body p)"
definition is_internal :: "page \<Rightarrow> bool" where "is_internal p \<longleftrightarrow> is_internal_body (body p)"
definition is_meta :: "page \<Rightarrow> bool" where "is_meta p \<longleftrightarrow> is_meta_body (body p)"
definition is_free :: "page \<Rightarrow> bool" where "is_free p \<longleftrightarrow> is_free_body (body p)"

lemma body_kindE:
  "is_leaf p \<Longrightarrow> (\<And>rs n pv. body p = Leaf rs n pv \<Longrightarrow> P) \<Longrightarrow> P"
  "is_internal p \<Longrightarrow> (\<And>ks cs. body p = Internal ks cs \<Longrightarrow> P) \<Longrightarrow> P"
  "is_meta p \<Longrightarrow> (\<And>r c f s t. body p = Meta r c f s t \<Longrightarrow> P) \<Longrightarrow> P"
  "is_free p \<Longrightarrow> (\<And>n. body p = Free n \<Longrightarrow> P) \<Longrightarrow> P"
  by (cases "body p"; simp add: is_leaf_def is_internal_def is_meta_def is_free_def)+

lemmas kind_defs = is_leaf_def is_internal_def is_meta_def is_free_def

definition lsn_of :: "page \<Rightarrow> lsn option" where
  "lsn_of p = page_lsn_get (last_update p)"

definition set_lsn :: "page \<Rightarrow> lsn \<Rightarrow> unit page_op" where
  "set_lsn p new_lsn =
     (case page_lsn_get (last_update p) of
       Some l \<Rightarrow>
         if new_lsn < l then (Err (StaleLsnUpdate l new_lsn), p)
         else (Ok (), p\<lparr>last_update := PageLsn (Some new_lsn)\<rparr>)
     | None \<Rightarrow> (Ok (), p\<lparr>last_update := PageLsn (Some new_lsn)\<rparr>))"

definition make_free :: "page \<Rightarrow> page" where
  "make_free p = p\<lparr>body := Free None\<rparr>"

definition empty_page :: "page_id \<Rightarrow> page_body \<Rightarrow> page" where
  "empty_page pid b = \<lparr>pg_id = pid, last_update = PageLsn None, body = b\<rparr>"

fun page_type_tag :: "page_body \<Rightarrow> byte" where
  "page_type_tag (Internal _ _) = INTERNAL_TAG"
| "page_type_tag (Leaf _ _ _) = LEAF_TAG"
| "page_type_tag (Meta _ _ _ _ _) = META_TAG"
| "page_type_tag (Free _) = FREE_TAG"

fun num_items_body :: "page_body \<Rightarrow> nat" where
  "num_items_body (Leaf records _ _) = length records"
| "num_items_body (Internal keys _) = length keys"
| "num_items_body (Free _) = 0"
| "num_items_body (Meta _ _ _ _ _) = 0"

definition num_items :: "page \<Rightarrow> nat" where
  "num_items p = num_items_body (body p)"

fun entries_size_body :: "env \<Rightarrow> page_body \<Rightarrow> nat" where
  "entries_size_body E (Internal keys _) = sum_list (map (internal_entry_size E) keys)"
| "entries_size_body E (Leaf records _ _) = sum_list (map (leaf_entry_size E) records)"
| "entries_size_body E _ = 0"

definition entries_size :: "env \<Rightarrow> page \<Rightarrow> nat" where
  "entries_size E p = entries_size_body E (body p)"

text \<open>The bytes a body is charged for, header included.\<close>

fun used_size :: "env \<Rightarrow> page_body \<Rightarrow> nat" where
  "used_size E (Internal keys _) =
     MAX_INTERNAL_HEADER_SIZE + (sum_list (map (internal_entry_size E) keys) + PAGE_ID_SIZE)"
| "used_size E (Leaf records _ _) =
     MAX_LEAF_HEADER_SIZE + sum_list (map (leaf_entry_size E) records)"
| "used_size E (Free _) = MAX_INTERNAL_HEADER_SIZE + (1 + PAGE_ID_SIZE)"
| "used_size E (Meta _ _ _ schema table_name) =
     MAX_INTERNAL_HEADER_SIZE +
       (PAGE_ID_SIZE + 4 + 1 + PAGE_ID_SIZE + schema_encoded_size E schema
         + required_space E (length table_name) + length table_name)"

definition free_space :: "env \<Rightarrow> page \<Rightarrow> nat option" where
  "free_space E p = checked_sub PAGE_SIZE (used_size E (body p))"

definition is_underfull :: "env \<Rightarrow> page \<Rightarrow> bool" where
  "is_underfull E p \<longleftrightarrow>
     (case body p of
       Leaf _ _ _ \<Rightarrow> entries_size E p < LEAF_UNDERFULL_BYTES
     | Internal _ _ \<Rightarrow> entries_size E p < INTERNAL_UNDERFULL_BYTES
     | _ \<Rightarrow> False)"

definition is_delete_safe :: "env \<Rightarrow> page \<Rightarrow> bool" where
  "is_delete_safe E p \<longleftrightarrow>
     (case body p of
       Internal _ _ \<Rightarrow>
         (case free_space E p of Some f \<Rightarrow> f \<ge> MAX_INTERNAL_ENTRY_SIZE | None \<Rightarrow> False) \<and>
         entries_size E p \<ge> INTERNAL_UNDERFULL_BYTES + MAX_INTERNAL_ENTRY_SIZE
     | Leaf _ _ _ \<Rightarrow> entries_size E p \<ge> LEAF_UNDERFULL_BYTES + MAX_LEAF_ENTRY_SIZE
     | _ \<Rightarrow> False)"

text \<open>The iterators \<^verbatim>\<open>records\<close>, \<^verbatim>\<open>keys\<close>, \<^verbatim>\<open>children\<close>, as the list they run over.\<close>

fun page_records :: "page_body \<Rightarrow> row list option" where
  "page_records (Leaf records _ _) = Some records"
| "page_records _ = None"

fun page_keys :: "page_body \<Rightarrow> key list option" where
  "page_keys (Internal keys _) = Some keys"
| "page_keys _ = None"

fun page_children :: "page_body \<Rightarrow> page_id list option" where
  "page_children (Internal _ children) = Some children"
| "page_children _ = None"

lemma free_space_Some_iff:
  "free_space E p = Some f \<longleftrightarrow> used_size E (body p) + f = PAGE_SIZE"
  by (auto simp: free_space_def)

section \<open>The invariant (page/invariants.rs)\<close>

text \<open>The loop over the records of a leaf, from index \<open>i\<close> with the previous key.\<close>

fun check_leaf_records ::
  "env \<Rightarrow> nat \<Rightarrow> key option \<Rightarrow> row list \<Rightarrow> (unit, corruption_kind) result" where
  "check_leaf_records E i prev [] = Ok ()"
| "check_leaf_records E i prev (record # rest) =
     (if leaf_entry_size E record > MAX_LEAF_ENTRY_SIZE then Err (RowTooLarge i)
      else rbind (ok_or NoKey (vec_first (row_fields record))) (\<lambda>first.
        rbind (map_err (\<lambda>_. InvalidKeyValue first) (key_try_from first)) (\<lambda>key.
          if internal_entry_size E key > MAX_INTERNAL_ENTRY_SIZE then Err (KeyTooLarge i)
          else if (case prev of Some p \<Rightarrow> p \<ge> key | None \<Rightarrow> False) then Err (UnsortedKeys i)
          else check_leaf_records E (Suc i) (Some key) rest)))"

definition check_invariants :: "env \<Rightarrow> page \<Rightarrow> (unit, corruption_kind) result" where
  "check_invariants E p =
     (if free_space E p = None then Err ExceedsCapacity
      else case body p of
        Leaf records _ _ \<Rightarrow> check_leaf_records E 0 None records
      | Internal keys children \<Rightarrow>
          if length children \<noteq> length keys + 1 then
            Err (ChildCountMismatch (length keys) (length children))
          else (case position (\<lambda>k. internal_entry_size E k > MAX_INTERNAL_ENTRY_SIZE) keys of
              Some slot \<Rightarrow> Err (KeyTooLarge slot)
            | None \<Rightarrow>
                (case position (\<lambda>(a, b). a \<ge> b) (zip keys (tl keys)) of
                  Some i \<Rightarrow> Err (UnsortedKeys (i + 1))
                | None \<Rightarrow> Ok ()))
      | Meta _ page_count free_list_head _ table_name \<Rightarrow>
          if (case free_list_head of
              Some flh \<Rightarrow> get_page_num flh \<ge> page_count
            | None \<Rightarrow> False)
          then Err (PageNumOutOfRange (unat (get_page_num (the free_list_head))))
          else if length table_name > 65535 then Err (TableNameTooLong (length table_name))
          else Ok ()
      | Free _ \<Rightarrow> Ok ())"

definition page_inv :: "env \<Rightarrow> page \<Rightarrow> bool" where
  "page_inv E p \<longleftrightarrow> check_invariants E p = Ok ()"

text \<open>
  \<^verbatim>\<open>debug_check_invariants\<close> at the end of an operation: in a build with \<^verbatim>\<open>debug_assertions\<close> it
  panics when the invariant fails, otherwise it does nothing.
\<close>

definition debug_check_invariants :: "env \<Rightarrow> page \<Rightarrow> ('a, 'e) result \<Rightarrow> ('a, 'e) result" where
  "debug_check_invariants E p r =
     (if debug_assertions E \<and> check_invariants E p \<noteq> Ok () then Panic else r)"

lemma debug_check_inv [simp]: "page_inv E p \<Longrightarrow> debug_check_invariants E p r = r"
  by (simp add: debug_check_invariants_def page_inv_def)

lemma debug_check_Ok_iff [result_simps]:
  "debug_check_invariants E p r = Ok x \<longleftrightarrow> r = Ok x \<and> (debug_assertions E \<longrightarrow> page_inv E p)"
  by (simp add: debug_check_invariants_def page_inv_def)

section \<open>The invariant, said declaratively\<close>

definition the_key :: "row \<Rightarrow> key" where
  "the_key r = the (row_key r)"

definition rows_ok :: "env \<Rightarrow> row list \<Rightarrow> bool" where
  "rows_ok E rs \<longleftrightarrow> (\<forall>r \<in> set rs. row_fits E r) \<and> sorted_wrt (<) (map the_key rs)"

definition keys_ok :: "env \<Rightarrow> key list \<Rightarrow> bool" where
  "keys_ok E ks \<longleftrightarrow>
     (\<forall>k \<in> set ks. internal_entry_size E k \<le> MAX_INTERNAL_ENTRY_SIZE) \<and> sorted_wrt (<) ks"

lemma row_fits_key: "row_fits E r \<Longrightarrow> row_key r = Some (the_key r)"
  by (auto simp: row_fits_iff the_key_def)

lemma check_leaf_records_Cons:
  "check_leaf_records E i prev (r # rs) = Ok () \<longleftrightarrow>
    row_fits E r \<and> (\<forall>p \<in> set_option prev. p < the_key r) \<and>
    check_leaf_records E (Suc i) (Some (the_key r)) rs = Ok ()"
proof (cases "row_key r")
  case None
  then show ?thesis
    by (auto simp: row_fits_iff row_key_def result_simps vec_first_def
        split: list.splits result.splits)
next
  case (Some k)
  then obtain vs where vs: "row_fields r = key_to_row_value k # vs"
    by (auto simp: row_key_Some_iff)
  show ?thesis
    using Some by (cases prev) (auto simp: row_fits_iff vs the_key_def)
qed

lemma check_leaf_records_Ok_iff:
  "check_leaf_records E i prev rs = Ok () \<longleftrightarrow>
    rows_ok E rs \<and> (\<forall>p \<in> set_option prev. \<forall>r \<in> set rs. p < the_key r)"
proof (induction rs arbitrary: i prev)
  case Nil
  then show ?case by (simp add: rows_ok_def)
next
  case (Cons r rs)
  show ?case
    unfolding check_leaf_records_Cons Cons.IH
    by (cases prev) (auto simp: rows_ok_def)
qed

lemma successively_conv_zip:
  "successively P xs \<longleftrightarrow> (\<forall>(a, b) \<in> set (zip xs (tl xs)). P a b)"
  by (induction P xs rule: successively.induct) auto

lemma windows_sorted:
  "position (\<lambda>(a, b). b \<le> a) (zip ks (tl ks)) = None \<longleftrightarrow> sorted_wrt (<) (ks :: 'a :: linorder list)"
  unfolding position_None_iff sorted_less_conv_successively successively_conv_zip
  by (auto simp: not_le)

lemma page_inv_iff:
  "page_inv E p \<longleftrightarrow> used_size E (body p) \<le> PAGE_SIZE \<and>
    (case body p of
      Leaf rs _ _ \<Rightarrow> rows_ok E rs
    | Internal ks cs \<Rightarrow> length cs = length ks + 1 \<and> keys_ok E ks
    | Meta _ pc flh _ nm \<Rightarrow>
        (\<forall>x \<in> set_option flh. get_page_num x < pc) \<and> length nm \<le> 65535
    | Free _ \<Rightarrow> True)"
proof (cases "body p")
  case (Internal ks cs)
  have "page_inv E p \<longleftrightarrow> used_size E (body p) \<le> PAGE_SIZE \<and> length cs = length ks + 1 \<and>
      position (\<lambda>k. internal_entry_size E k > MAX_INTERNAL_ENTRY_SIZE) ks = None \<and>
      position (\<lambda>(a, b). a \<ge> b) (zip ks (tl ks)) = None"
    unfolding page_inv_def check_invariants_def free_space_def Internal
    by (simp split: option.split)
  then show ?thesis
    unfolding windows_sorted unfolding position_None_iff by (simp add: Internal keys_ok_def not_less)
next
  case (Meta r pc flh s nm)
  then show ?thesis
    by (cases flh) (auto simp: page_inv_def check_invariants_def free_space_def not_le not_less)
qed (auto simp: page_inv_def check_invariants_def free_space_def check_leaf_records_Ok_iff)

lemma page_inv_leaf:
  "body p = Leaf rs n pv \<Longrightarrow>
    page_inv E p \<longleftrightarrow> sum_list (map (leaf_entry_size E) rs) \<le> LEAF_USABLE \<and> rows_ok E rs"
  by (auto simp: page_inv_iff layout_simps)

lemma page_inv_internal:
  "body p = Internal ks cs \<Longrightarrow>
    page_inv E p \<longleftrightarrow> sum_list (map (internal_entry_size E) ks) \<le> INTERNAL_USABLE \<and>
      length cs = length ks + 1 \<and> keys_ok E ks"
  by (auto simp: page_inv_iff layout_simps)

lemma page_inv_free [simp]: "body p = Free n \<Longrightarrow> page_inv E p"
  by (simp add: page_inv_iff layout_simps)

lemma check_invariants_not_Panic [simp]: "check_invariants E p \<noteq> Panic"
proof -
  have "check_leaf_records E i prev rs \<noteq> Panic" for i prev rs
    by (induction rs arbitrary: i prev) (auto simp: rbind_Panic_iff)
  then show ?thesis
    by (auto simp: check_invariants_def split: page_body.splits option.splits)
qed

lemma free_space_leaf:
  "body p = Leaf rs n pv \<Longrightarrow> free_space E p =
    checked_sub LEAF_USABLE (sum_list (map (leaf_entry_size E) rs))"
  by (auto simp: free_space_def checked_sub_def layout_simps)

lemma free_space_internal:
  "body p = Internal ks cs \<Longrightarrow> free_space E p =
    checked_sub INTERNAL_USABLE (sum_list (map (internal_entry_size E) ks))"
  by (auto simp: free_space_def checked_sub_def layout_simps)

end
