(* ===== verification/Demo_Pages.thy ===== *)
theory Demo_Pages
  imports Page
begin

text \<open>
  Concrete rows, keys and pages in the environment \<open>demo_env\<close>, on which the witnesses of the
  page properties are evaluated.
\<close>

definition demo_row :: "64 word \<Rightarrow> row" where
  "demo_row n = \<lparr>row_fields = [IntegerV n]\<rparr>"

text \<open>A row of a thousand bytes: four of them fill a leaf.\<close>

definition big_row :: "64 word \<Rightarrow> row" where
  "big_row n = \<lparr>row_fields = [IntegerV n, StringV (replicate 990 97)]\<rparr>"

definition demo_id :: "32 word \<Rightarrow> page_id" where
  "demo_id n = PageId (TableId 1) n"

definition demo_leaf :: "32 word \<Rightarrow> row list \<Rightarrow> 32 word option \<Rightarrow> 32 word option \<Rightarrow> page" where
  "demo_leaf n rs nxt prv =
     empty_page (demo_id n) (Leaf rs (map_option demo_id nxt) (map_option demo_id prv))"

definition demo_internal :: "32 word \<Rightarrow> 64 word list \<Rightarrow> 32 word list \<Rightarrow> page" where
  "demo_internal n ks cs = empty_page (demo_id n) (Internal (map IntegerK ks) (map demo_id cs))"

lemma demo_row_size [simp]: "leaf_entry_size demo_env (demo_row n) = 14"
  by (simp add: leaf_entry_size_def row_encoded_size_def demo_row_def layout_simps)

lemma demo_key_size [simp]: "internal_entry_size demo_env (IntegerK n) = 21"
  by (simp add: internal_entry_size_def layout_simps)

lemma leb_size_990: "leb_size 990 = 2"
  by (simp add: leb_size.simps)

lemma big_row_size [simp]: "leaf_entry_size demo_env (big_row n) = 1007"
  by (simp add: leaf_entry_size_def row_encoded_size_def big_row_def layout_simps leb_size_990)

lemma demo_row_key [simp]: "row_key (demo_row n) = Some (IntegerK n)"
  by (simp add: row_key_def demo_row_def)

lemma big_row_key [simp]: "row_key (big_row n) = Some (IntegerK n)"
  by (simp add: row_key_def big_row_def)

lemma demo_the_key [simp]: "the_key (demo_row n) = IntegerK n" "the_key (big_row n) = IntegerK n"
  by (simp_all add: the_key_def)

lemma demo_row_fits [simp]: "row_fits demo_env (demo_row n)" "row_fits demo_env (big_row n)"
  by (simp_all add: row_fits_def layout_simps)

lemma demo_id_inj [simp]: "demo_id a = demo_id b \<longleftrightarrow> a = b"
  by (simp add: demo_id_def)

lemma demo_page_simps [simp]:
  "pg_id (demo_leaf n rs nxt prv) = demo_id n"
  "body (demo_leaf n rs nxt prv) = Leaf rs (map_option demo_id nxt) (map_option demo_id prv)"
  "pg_id (demo_internal n ks cs) = demo_id n"
  "body (demo_internal n ks cs) = Internal (map IntegerK ks) (map demo_id cs)"
  by (simp_all add: demo_leaf_def demo_internal_def empty_page_def)

lemma demo_leaf_inv [simp]:
  "page_inv demo_env (demo_leaf n rs nxt prv) \<longleftrightarrow>
    sum_list (map (leaf_entry_size demo_env) rs) \<le> 4055 \<and> rows_ok demo_env rs"
  by (simp add: page_inv_iff layout_simps)

lemma demo_internal_inv [simp]:
  "page_inv demo_env (demo_internal n ks cs) \<longleftrightarrow>
    21 * length ks \<le> 4065 \<and> length cs = length ks + 1 \<and>
    sorted_wrt (<) (map IntegerK ks)"
proof -
  have "sum_list (map (internal_entry_size demo_env) (map IntegerK ks)) = 21 * length ks"
    by (induction ks) simp_all
  then show ?thesis
    by (simp add: page_inv_iff keys_ok_def layout_simps)
qed

text \<open>A table with one integer column, its metadata page and free pages.\<close>

definition demo_schema :: schema where
  "demo_schema = \<lparr>columns = [\<lparr>col_name = [105, 100], col_type = IntegerT, nullable = False\<rparr>]\<rparr>"

definition demo_meta :: "32 word \<Rightarrow> 32 word option \<Rightarrow> page" where
  "demo_meta count flh =
     empty_page (demo_id 0) (Meta (demo_id 1) count (map_option demo_id flh) demo_schema [116])"

definition demo_free :: "32 word \<Rightarrow> 32 word option \<Rightarrow> page" where
  "demo_free n nxt = empty_page (demo_id n) (Free (map_option demo_id nxt))"

lemma demo_meta_simps [simp]:
  "body (demo_meta count flh) =
    Meta (demo_id 1) count (map_option demo_id flh) demo_schema [116]"
  "pg_id (demo_meta count flh) = demo_id 0"
  "body (demo_free n nxt) = Free (map_option demo_id nxt)"
  "pg_id (demo_free n nxt) = demo_id n"
  "get_table_id (demo_id n) = TableId 1" "get_page_num (demo_id n) = n"
  by (simp_all add: demo_meta_def demo_free_def empty_page_def demo_id_def)

lemma demo_meta_inv [simp]:
  "page_inv demo_env (demo_meta count flh) \<longleftrightarrow> (\<forall>x \<in> set_option flh. x < count)"
  by (cases flh) (simp_all add: page_inv_iff layout_simps schema_encoded_size_def
      column_encoded_size_def demo_schema_def leb_size_small)

text \<open>Separators of a thousand bytes: four of them fill an internal page.\<close>

definition big_key :: "byte \<Rightarrow> key" where
  "big_key b = StringK (b # replicate 989 97)"

definition demo_full_internal :: "32 word \<Rightarrow> page" where
  "demo_full_internal n =
     empty_page (demo_id n) (Internal (map big_key [1, 2, 3, 4]) (map demo_id [1, 2, 3, 4, 6]))"

lemma big_key_size [simp]: "internal_entry_size demo_env (big_key b) = 1005"
  by (simp add: internal_entry_size_def big_key_def layout_simps leb_size_990)

lemma big_key_less [simp]: "big_key a < big_key b \<longleftrightarrow> a < b" "big_key a = big_key b \<longleftrightarrow> a = b"
  by (auto simp: big_key_def)

end
