(* ===== verification/Store.thy ===== *)
theory Store
  imports Schema
begin

text \<open>
  The contract that a keyed row store offers its callers, as a locale: an invariant, the finite
  map it stands for, and what \<^verbatim>\<open>get\<close>, \<^verbatim>\<open>insert\<close> and \<^verbatim>\<open>delete\<close> do to that map. A client runs
  scripts of operations against it; that the results are those of the same script on the map
  is proved here once. The leaf page is the provider (theory \<open>Leaf_Correct\<close>).
\<close>

section \<open>Scripts\<close>

datatype 'v store_op = GetOp key | InsertOp 'v | DeleteOp key

datatype ('v, 'e) store_out = RowOut "('v option, 'e) result" | UnitOut "(unit, 'e) result"

fun run_script ::
  "('s \<Rightarrow> key \<Rightarrow> ('v option, 'e) result) \<Rightarrow> ('s \<Rightarrow> 'v \<Rightarrow> (unit, 'e) result \<times> 's) \<Rightarrow>
   ('s \<Rightarrow> key \<Rightarrow> ('v option, 'e) result \<times> 's) \<Rightarrow> 's \<Rightarrow> 'v store_op list \<Rightarrow>
   ('v, 'e) store_out list \<times> 's" where
  "run_script get ins del s [] = ([], s)"
| "run_script get ins del s (GetOp k # ops) =
     (case run_script get ins del s ops of (outs, s') \<Rightarrow> (RowOut (get s k) # outs, s'))"
| "run_script get ins del s (InsertOp v # ops) =
     (case ins s v of (r, s1) \<Rightarrow>
       (case run_script get ins del s1 ops of (outs, s') \<Rightarrow> (UnitOut r # outs, s')))"
| "run_script get ins del s (DeleteOp k # ops) =
     (case del s k of (r, s1) \<Rightarrow>
       (case run_script get ins del s1 ops of (outs, s') \<Rightarrow> (RowOut r # outs, s')))"

text \<open>
  The same script on a finite map: lookups and deletions answer with what the map holds, and \<open>refuse\<close> says, of
  the map and the new value alone, whether an insertion is refused, and with which error.
\<close>

fun ideal_script ::
  "('v \<Rightarrow> key) \<Rightarrow> ((key \<Rightarrow> 'v option) \<Rightarrow> 'v \<Rightarrow> 'e option) \<Rightarrow> (key \<Rightarrow> 'v option) \<Rightarrow> 'v store_op list \<Rightarrow>
   ('v, 'e) store_out list \<times> (key \<Rightarrow> 'v option)" where
  "ideal_script kof refuse m [] = ([], m)"
| "ideal_script kof refuse m (GetOp k # ops) =
     (case ideal_script kof refuse m ops of (outs, m') \<Rightarrow> (RowOut (Ok (m k)) # outs, m'))"
| "ideal_script kof refuse m (InsertOp v # ops) =
     (case refuse m v of
       None \<Rightarrow> (case ideal_script kof refuse (m(kof v \<mapsto> v)) ops of (outs, m') \<Rightarrow> (UnitOut (Ok ()) # outs, m'))
     | Some e \<Rightarrow> (case ideal_script kof refuse m ops of (outs, m') \<Rightarrow> (UnitOut (Err e) # outs, m')))"
| "ideal_script kof refuse m (DeleteOp k # ops) =
     (case ideal_script kof refuse (m(k := None)) ops of (outs, m') \<Rightarrow> (RowOut (Ok (m k)) # outs, m'))"

fun op_ok :: "('v \<Rightarrow> bool) \<Rightarrow> 'v store_op \<Rightarrow> bool" where
  "op_ok ok (InsertOp v) = ok v"
| "op_ok ok _ = True"

section \<open>The contract\<close>

locale keyed_store =
  fixes inv :: "'s \<Rightarrow> bool"
    and abs :: "'s \<Rightarrow> key \<Rightarrow> 'v option"
    and kof :: "'v \<Rightarrow> key"
    and ok :: "'v \<Rightarrow> bool"
    and refuse :: "(key \<Rightarrow> 'v option) \<Rightarrow> 'v \<Rightarrow> 'e option"
    and get :: "'s \<Rightarrow> key \<Rightarrow> ('v option, 'e) result"
    and ins :: "'s \<Rightarrow> 'v \<Rightarrow> (unit, 'e) result \<times> 's"
    and del :: "'s \<Rightarrow> key \<Rightarrow> ('v option, 'e) result \<times> 's"
  assumes get_law: "inv s \<Longrightarrow> get s k = Ok (abs s k)"
    and ins_ok: "inv s \<Longrightarrow> ok v \<Longrightarrow> refuse (abs s) v = None \<Longrightarrow> ins s v = (res, s') \<Longrightarrow>
      res = Ok () \<and> inv s' \<and> abs s' = (abs s)(kof v \<mapsto> v)"
    and ins_err: "inv s \<Longrightarrow> ok v \<Longrightarrow> refuse (abs s) v = Some e \<Longrightarrow> ins s v = (Err e, s)"
    and del_law: "inv s \<Longrightarrow> del s k = (r, s') \<Longrightarrow>
      r = Ok (abs s k) \<and> inv s' \<and> abs s' = (abs s)(k := None)"
begin

lemma run_ideal:
  assumes "inv s" and "list_all (op_ok ok) ops" and "run_script get ins del s ops = (outs, s')"
  shows "inv s' \<and> ideal_script kof refuse (abs s) ops = (outs, abs s')"
  using assms
proof (induction ops arbitrary: s outs)
  case Nil
  then show ?case by simp
next
  case (Cons op ops)
  note IH = Cons.IH [THEN conjunct1] Cons.IH [THEN conjunct2]
  have ops: "list_all (op_ok ok) ops" using Cons.prems(2) by simp
  show ?case
  proof (cases op)
    case (GetOp k)
    obtain outs1 where outs: "run_script get ins del s ops = (outs1, s')" "outs = RowOut (Ok (abs s k)) # outs1"
      using Cons.prems(3) get_law [OF Cons.prems(1)] by (auto simp: GetOp split: prod.splits)
    show ?thesis by (simp add: GetOp IH [OF Cons.prems(1) ops outs(1)] outs(2))
  next
    case (InsertOp v)
    obtain r s1 where r: "ins s v = (r, s1)" by fastforce
    obtain outs1 where outs: "run_script get ins del s1 ops = (outs1, s')" "outs = UnitOut r # outs1"
      using Cons.prems(3) by (auto simp: InsertOp r split: prod.splits)
    have v: "ok v" using Cons.prems(2) InsertOp by simp
    show ?thesis
    proof (cases "refuse (abs s) v")
      case None
      then have 1: "r = Ok ()" "inv s1" "abs s1 = (abs s)(kof v \<mapsto> v)"
        using ins_ok [OF Cons.prems(1) v None r] by simp_all
      show ?thesis using IH [OF 1(2) ops outs(1)] by (simp add: InsertOp None outs(2) 1(1,3) del: fun_upd_apply)
    next
      case (Some e)
      then have 1: "r = Err e" "s1 = s" using ins_err [OF Cons.prems(1) v Some] r by simp_all
      show ?thesis using IH [OF Cons.prems(1) ops outs(1) [unfolded 1(2)]] by (simp add: InsertOp Some outs(2) 1(1))
    qed
  next
    case (DeleteOp k)
    obtain r s1 where r: "del s k = (r, s1)" by fastforce
    obtain outs1 where outs: "run_script get ins del s1 ops = (outs1, s')" "outs = RowOut r # outs1"
      using Cons.prems(3) by (auto simp: DeleteOp r split: prod.splits)
    have 1: "r = Ok (abs s k)" "inv s1" "abs s1 = (abs s)(k := None)"
      using del_law [OF Cons.prems(1) r] by simp_all
    show ?thesis using IH [OF 1(2) ops outs(1)] by (simp add: DeleteOp outs(2) 1(1,3) del: fun_upd_apply)
  qed
qed

text \<open>Reading your own writes, the one-step consequences clients use.\<close>

lemma get_after_ins:
  assumes "inv s" and "ok v" and "ins s v = (Ok (), s')"
  shows "get s' (kof v) = Ok (Some v)"
proof (cases "refuse (abs s) v")
  case None
  then show ?thesis using ins_ok [OF assms(1,2) None assms(3)] by (simp add: get_law)
next
  case (Some e)
  then show ?thesis using ins_err [OF assms(1,2) Some] assms(3) by simp
qed

lemma get_after_del: "inv s \<Longrightarrow> del s k = (r, s') \<Longrightarrow> get s' k = Ok None"
  using del_law [of s k r s'] by (simp add: get_law)

lemma ins_frame:
  assumes "inv s" and "ok v" and "ins s v = (r, s')" and "k \<noteq> kof v"
  shows "get s' k = get s k"
proof (cases "refuse (abs s) v")
  case None
  then show ?thesis using ins_ok [OF assms(1,2) None assms(3)] assms(1,4) by (simp add: get_law)
next
  case (Some e)
  then show ?thesis using ins_err [OF assms(1,2) Some] assms(3) by simp
qed

lemma del_frame: "inv s \<Longrightarrow> del s k = (r, s') \<Longrightarrow> k' \<noteq> k \<Longrightarrow> get s' k' = get s k'"
  using del_law [of s k r s'] by (simp add: get_law)

end

end
