(* ===== verification/Leaf_Page.thy ===== *)
theory Leaf_Page
  imports Demo_Pages Store
begin

text \<open>
  \<^verbatim>\<open>src/page/leaf.rs\<close>: the operations on leaf pages. Each is translated with every branch in
  the source's order; what it returns comes with the page or pages it leaves behind. The
  functional lemmas reduce an operation on a page that satisfies \<open>page_inv\<close> to a list operation
  at \<open>ins_pos\<close>.
\<close>

section \<open>Operations\<close>

definition empty_leaf :: "page_id \<Rightarrow> page" where
  "empty_leaf pid = empty_page pid (Leaf [] None None)"

definition can_insert :: "env \<Rightarrow> page \<Rightarrow> row \<Rightarrow> bool" where
  "can_insert E p row \<longleftrightarrow>
     (if \<not> is_leaf p then False
      else case free_space E p of
        None \<Rightarrow> False
      | Some s \<Rightarrow> leaf_entry_size E row \<le> s)"

definition leaf_insert :: "env \<Rightarrow> page \<Rightarrow> validated_row \<Rightarrow> unit page_op" where
  "leaf_insert E p vr =
     (case body p of
       Leaf records next prev \<Rightarrow>
         (case (primary_key vr :: (key, page_error) result) of
           Ok new_key \<Rightarrow>
             (case binary_search_by (\<lambda>r. cmp_key r new_key) records of
               None \<Rightarrow> (Panic, p)
             | Some (Found _) \<Rightarrow> (Err DuplicateKey, p)
             | Some (Insert_At insert_pos) \<Rightarrow>
                 if \<not> can_insert E p (validated_row_as_ref vr) then (Err PageFull, p)
                 else
                   (case (vec_insert insert_pos (validated_row_as_ref vr) records :: (_, page_error) result) of
                     Ok records' \<Rightarrow>
                       let p' = p\<lparr>body := Leaf records' next prev\<rparr>
                       in (debug_check_invariants E p' (Ok ()), p')
                   | _ \<Rightarrow> (Panic, p)))
         | _ \<Rightarrow> (Panic, p))
     | _ \<Rightarrow> (Err WrongPageType, p))"

definition leaf_can_merge_with :: "env \<Rightarrow> page \<Rightarrow> page \<Rightarrow> bool" where
  "leaf_can_merge_with E p right \<longleftrightarrow>
     (if \<not> is_leaf p \<or> \<not> is_leaf right then False
      else case free_space E p of
        None \<Rightarrow> False
      | Some fs \<Rightarrow> entries_size E right \<le> fs)"

text \<open>
  \<^verbatim>\<open>Key::try_from(&row.fields[0]).unwrap()\<close>: panics on a row without a valid key.
\<close>

definition unwrap_row_key :: "row \<Rightarrow> (key, 'e) result" where
  "unwrap_row_key r = expect (row_key r)"

definition leaf_merge_from_right ::
  "env \<Rightarrow> page \<Rightarrow> page \<Rightarrow> (page_id, page_error) result \<times> page \<times> page" where
  "leaf_merge_from_right E p right =
     (if \<not> is_leaf p \<or> \<not> is_leaf right then (Err WrongPageType, p, right)
      else if \<not> leaf_can_merge_with E p right then (Err PageFull, p, right)
      else let right_id = pg_id right in
        (case (body p, body right) of
          (Leaf records next prev, Leaf right_records right_next _) \<Rightarrow>
            if next = Some right_id then
              (case ((case (vec_last records, vec_first right_records) of
                  (Some left_max, Some right_min) \<Rightarrow>
                    rbind (unwrap_row_key left_max) (\<lambda>left_key.
                      rbind (unwrap_row_key right_min) (\<lambda>right_key.
                        Ok (right_key \<le> left_key)))
                | _ \<Rightarrow> Ok False) :: (bool, page_error) result) of
                Ok overlap \<Rightarrow>
                  if overlap then (Err (InvalidMerge MergeKeys), p, right)
                  else
                    let p' = p\<lparr>body := Leaf (records @ right_records) right_next prev\<rparr>
                    in (debug_check_invariants E p' (Ok right_id), p', make_free right)
              | _ \<Rightarrow> (Panic, p, right))
            else (Err (InvalidMerge (MergePointerMismatch next (Some right_id))), p, right)
        | _ \<Rightarrow> (Err WrongPageType, p, right)))"

definition leaf_borrow_from_right ::
  "env \<Rightarrow> page \<Rightarrow> page \<Rightarrow> (key, page_error) result \<times> page \<times> page" where
  "leaf_borrow_from_right E p right =
     (case (body p, body right) of
       (Leaf records next prev, Leaf right_records right_next right_prev) \<Rightarrow>
         if next \<noteq> Some (pg_id right) then
           (Err (InvalidBorrow (BorrowPointerMismatch next (Some (pg_id right)))), p, right)
         else
           (case right_records of
             [] \<Rightarrow> (Err (InvalidBorrow (EmptyBorrow (pg_id right))), p, right)
           | borrow_rec # rest \<Rightarrow>
               (case row_key borrow_rec of
                 None \<Rightarrow> (Panic, p, right)
               | Some borrowed_key \<Rightarrow>
                   (case ((case vec_last records of
                       None \<Rightarrow> Ok False
                     | Some r \<Rightarrow> rbind (expect (cmp_key r borrowed_key)) (\<lambda>c. Ok (c \<noteq> Less))) :: (bool, page_error) result) of
                     Ok out_of_order \<Rightarrow>
                       if out_of_order then
                         (Err (InvalidBorrow (KeysOutOfOrder borrowed_key)), p, right)
                       else if length right_records < 2 then
                         (Err (InvalidBorrow (EmptyBorrow (pg_id right))), p, right)
                       else if (case free_space E p of
                           None \<Rightarrow> True
                         | Some fs \<Rightarrow> fs < leaf_entry_size E borrow_rec)
                       then (Err PageFull, p, right)
                       else
                         (case rest of
                           [] \<Rightarrow> (Panic, p, right)
                         | new_first # _ \<Rightarrow>
                             (case row_key new_first of
                               None \<Rightarrow> (Panic, p, right)
                             | Some promoted_key \<Rightarrow>
                                 let p' = p\<lparr>body := Leaf (records @ [borrow_rec]) next prev\<rparr>;
                                     right' = right\<lparr>body := Leaf rest right_next right_prev\<rparr>
                                 in (debug_check_invariants E p'
                                      (debug_check_invariants E right' (Ok promoted_key)),
                                     p', right')))
                   | _ \<Rightarrow> (Panic, p, right))))
     | _ \<Rightarrow> (Err WrongPageType, p, right))"

definition leaf_borrow_from_left ::
  "env \<Rightarrow> page \<Rightarrow> page \<Rightarrow> (key, page_error) result \<times> page \<times> page" where
  "leaf_borrow_from_left E p left =
     (case (body p, body left) of
       (Leaf records next prev, Leaf left_records left_next left_prev) \<Rightarrow>
         if prev \<noteq> Some (pg_id left) then
           (Err (InvalidBorrow (BorrowPointerMismatch prev (Some (pg_id left)))), p, left)
         else
           (case vec_last left_records of
             None \<Rightarrow> (Err (InvalidBorrow (EmptyBorrow (pg_id left))), p, left)
           | Some borrow_rec \<Rightarrow>
               (case row_key borrow_rec of
                 None \<Rightarrow> (Panic, p, left)
               | Some borrowed_key \<Rightarrow>
                   (case ((case vec_first records of
                       None \<Rightarrow> Ok False
                     | Some r \<Rightarrow> rbind (expect (cmp_key r borrowed_key)) (\<lambda>c. Ok (c \<noteq> Greater))) :: (bool, page_error) result) of
                     Ok out_of_order \<Rightarrow>
                       if out_of_order then
                         (Err (InvalidBorrow (KeysOutOfOrder borrowed_key)), p, left)
                       else if length left_records < 2 then
                         (Err (InvalidBorrow (EmptyBorrow (pg_id left))), p, left)
                       else if (case free_space E p of
                           None \<Rightarrow> True
                         | Some fs \<Rightarrow> fs < leaf_entry_size E borrow_rec)
                       then (Err PageFull, p, left)
                       else
                         let p' = p\<lparr>body := Leaf (borrow_rec # records) next prev\<rparr>;
                             left' = left\<lparr>body := Leaf (butlast left_records) left_next left_prev\<rparr>
                         in (debug_check_invariants E p'
                              (debug_check_invariants E left' (Ok borrowed_key)),
                             p', left')
                   | _ \<Rightarrow> (Panic, p, left))))
     | _ \<Rightarrow> (Err WrongPageType, p, left))"

definition leaf_remove :: "env \<Rightarrow> page \<Rightarrow> key \<Rightarrow> row option page_op" where
  "leaf_remove E p key =
     (case body p of
       Leaf records next prev \<Rightarrow>
         (case binary_search_by (\<lambda>r. cmp_key r key) records of
           None \<Rightarrow> (Panic, p)
         | Some (Found i) \<Rightarrow>
             (case (vec_remove i records :: (_, page_error) result) of
               Ok (removed, records') \<Rightarrow>
                 let p' = p\<lparr>body := Leaf records' next prev\<rparr>
                 in (debug_check_invariants E p' (Ok (Some removed)), p')
             | _ \<Rightarrow> (Panic, p))
         | Some (Insert_At _) \<Rightarrow> (debug_check_invariants E p (Ok None), p))
     | _ \<Rightarrow> (Err WrongPageType, p))"

fun page_next :: "page_body \<Rightarrow> (page_id option, page_error) result" where
  "page_next (Leaf _ next _) = Ok next"
| "page_next _ = Err WrongPageType"

fun page_prev :: "page_body \<Rightarrow> (page_id option, page_error) result" where
  "page_prev (Leaf _ _ prev) = Ok prev"
| "page_prev _ = Err WrongPageType"

definition set_next :: "page \<Rightarrow> page_id option \<Rightarrow> unit page_op" where
  "set_next p new =
     (case body p of
       Leaf records _ prev \<Rightarrow> (Ok (), p\<lparr>body := Leaf records new prev\<rparr>)
     | _ \<Rightarrow> (Err WrongPageType, p))"

definition set_prev :: "page \<Rightarrow> page_id option \<Rightarrow> unit page_op" where
  "set_prev p new =
     (case body p of
       Leaf records next _ \<Rightarrow> (Ok (), p\<lparr>body := Leaf records next new\<rparr>)
     | _ \<Rightarrow> (Err WrongPageType, p))"

definition leaf_get :: "page \<Rightarrow> key \<Rightarrow> (row option, page_error) result" where
  "leaf_get p key =
     (case body p of
       Leaf records _ _ \<Rightarrow>
         (case binary_search_by (\<lambda>r. cmp_key r key) records of
           None \<Rightarrow> Panic
         | Some (Found i) \<Rightarrow> rbind (vec_index records i) (\<lambda>r. Ok (Some r))
         | Some (Insert_At _) \<Rightarrow> Ok None)
     | _ \<Rightarrow> Err WrongPageType)"

definition leaf_records_from :: "page \<Rightarrow> key \<Rightarrow> (row list, page_error) result" where
  "leaf_records_from p start_key =
     (case body p of
       Leaf records _ _ \<Rightarrow>
         (case partition_point (\<lambda>r. map_option (\<lambda>c. c = Less) (cmp_key r start_key)) records of
           None \<Rightarrow> Panic
         | Some start \<Rightarrow>
             if start \<le> length records then Ok (drop start records) else Panic)
     | _ \<Rightarrow> Err WrongPageType)"

section \<open>Lists of rows sorted by key\<close>

definition row_keys :: "row list \<Rightarrow> key list" where
  "row_keys rs = map the_key rs"

lemma rows_ok_iff:
  "rows_ok E rs \<longleftrightarrow> (\<forall>r \<in> set rs. row_fits E r) \<and> sorted_wrt (<) (row_keys rs)"
  by (simp add: rows_ok_def row_keys_def)

lemma rows_ok_append:
  "rows_ok E (xs @ ys) \<longleftrightarrow>
    rows_ok E xs \<and> rows_ok E ys \<and> (\<forall>x \<in> set xs. \<forall>y \<in> set ys. the_key x < the_key y)"
  by (auto simp: rows_ok_def sorted_wrt_append)

lemma rows_ok_Cons:
  "rows_ok E (x # ys) \<longleftrightarrow> row_fits E x \<and> rows_ok E ys \<and> (\<forall>y \<in> set ys. the_key x < the_key y)"
  by (auto simp: rows_ok_def)

lemma rows_ok_Nil [simp]: "rows_ok E []"
  by (simp add: rows_ok_def)

lemma rows_search:
  assumes "rows_ok E rs"
  shows "binary_search_by (\<lambda>r. cmp_key r k) rs =
    Some (if k \<in> set (row_keys rs) then Found (ins_pos k (row_keys rs))
          else Insert_At (ins_pos k (row_keys rs)))"
proof -
  have "cmp_key r k = Some (cmp (the_key r) k)" if "r \<in> set rs" for r
    using assms that row_fits_key [of E r] by (simp add: rows_ok_def cmp_key_row_key)
  then show ?thesis
    using binary_search_sorted [of the_key rs "\<lambda>r. cmp_key r k" k] assms
    by (simp add: rows_ok_def row_keys_def)
qed

lemma length_row_keys [simp]: "length (row_keys rs) = length rs"
  by (simp add: row_keys_def)

text \<open>The abstraction: a leaf's records are a finite map from keys to rows.\<close>

definition rows_map :: "row list \<Rightarrow> key \<Rightarrow> row option" where
  "rows_map rs = map_of (map (\<lambda>r. (the_key r, r)) rs)"

lemma dom_rows_map: "dom (rows_map rs) = set (row_keys rs)"
  by (simp add: rows_map_def row_keys_def dom_map_of_conv_image_fst image_comp comp_def)

lemma rows_map_simps [simp]:
  "rows_map [] = Map.empty" "rows_map (r # rs) = (rows_map rs)(the_key r \<mapsto> r)"
  by (simp_all add: rows_map_def)

lemma rows_map_append: "rows_map (xs @ ys) = rows_map ys ++ rows_map xs"
  by (simp add: rows_map_def)

lemma rows_map_None_iff: "rows_map rs k = None \<longleftrightarrow> k \<notin> set (row_keys rs)"
  using dom_rows_map [of rs] by (auto simp: domIff)

lemma rows_map_nth:
  assumes "rows_ok E rs" and "i < length rs"
  shows "rows_map rs (the_key (rs ! i)) = Some (rs ! i)"
proof -
  have "distinct (row_keys rs)"
    using assms(1) by (simp add: rows_ok_iff strict_sorted_iff)
  then show ?thesis
    unfolding rows_map_def using assms(2)
    by (intro map_of_is_SomeI) (auto simp: row_keys_def comp_def)
qed

lemma insert_rows_ok:
  assumes "rows_ok E rs" and "row_fits E r" and "the_key r \<notin> set (row_keys rs)"
    and i: "i = ins_pos (the_key r) (row_keys rs)"
  shows "rows_ok E (take i rs @ r # drop i rs)"
    and "rows_map (take i rs @ r # drop i rs) = (rows_map rs)(the_key r \<mapsto> r)"
proof -
  let ?ks = "row_keys rs"
  have sorted: "sorted_wrt (<) ?ks" using assms(1) by (simp add: rows_ok_iff)
  have below: "\<forall>x \<in> set (take i rs). the_key x < the_key r"
    using ins_pos_less [of _ "the_key r" ?ks] ins_pos_le [of "the_key r" ?ks]
    by (auto simp: i in_set_conv_nth row_keys_def)
  have above: "\<forall>x \<in> set (drop i rs). the_key r < the_key x"
  proof
    fix x assume "x \<in> set (drop i rs)"
    then obtain j where j: "j < length rs - i" "x = rs ! (i + j)"
      by (auto simp: in_set_conv_nth)
    then show "the_key r < the_key x"
      using ins_pos_gt [OF sorted assms(3), of "i + j"] by (simp add: i row_keys_def)
  qed
  have "rows_ok E (take i rs @ drop i rs)" using assms(1) by simp
  then show "rows_ok E (take i rs @ r # drop i rs)"
    using below above assms(2) by (auto simp only: rows_ok_append rows_ok_Cons list.set insert_iff)
  have "the_key r \<notin> dom (rows_map (take i rs))"
    using below by (auto simp: dom_rows_map row_keys_def)
  moreover have "rows_map rs = rows_map (drop i rs) ++ rows_map (take i rs)"
    by (metis append_take_drop_id rows_map_append)
  ultimately show "rows_map (take i rs @ r # drop i rs) = (rows_map rs)(the_key r \<mapsto> r)"
    by (simp add: rows_map_append map_add_upd_left)
qed

lemma remove_rows_ok:
  assumes "rows_ok E rs" and "i < length rs"
  shows "rows_ok E (take i rs @ drop (Suc i) rs)"
    and "rows_map (take i rs @ drop (Suc i) rs) = (rows_map rs)(the_key (rs ! i) := None)"
proof -
  have split: "rs = take i rs @ rs ! i # drop (Suc i) rs"
    using assms(2) by (rule id_take_nth_drop)
  have ok: "rows_ok E (take i rs @ rs ! i # drop (Suc i) rs)"
    using assms(1) split by simp
  then show "rows_ok E (take i rs @ drop (Suc i) rs)"
    by (auto simp: rows_ok_append rows_ok_Cons)
  have lt: "\<forall>x \<in> set (take i rs). the_key x < the_key (rs ! i)"
    and gt: "\<forall>x \<in> set (drop (Suc i) rs). the_key (rs ! i) < the_key x"
    using ok by (auto simp: rows_ok_append rows_ok_Cons)
  have notin: "rows_map (take i rs) (the_key (rs ! i)) = None"
    "rows_map (drop (Suc i) rs) (the_key (rs ! i)) = None"
    using lt gt by (auto simp: rows_map_None_iff row_keys_def)
  have "rows_map rs = (rows_map (drop (Suc i) rs))(the_key (rs ! i) \<mapsto> rs ! i) ++ rows_map (take i rs)"
    by (subst split) (simp only: rows_map_append rows_map_simps)
  then show "rows_map (take i rs @ drop (Suc i) rs) = (rows_map rs)(the_key (rs ! i) := None)"
    using notin by (auto simp: rows_map_append map_add_def fun_eq_iff split: option.splits)
qed

end
