(* ===== verification/Leaf_Correct.thy ===== *)
theory Leaf_Correct
  imports Leaf_Page
begin

text \<open>
  What the leaf operations of theory \<open>Leaf_Page\<close> do, on pages that satisfy \<open>page_inv\<close>: the
  value and the page each of them returns, on every branch, as a list operation at \<open>ins_pos\<close>;
  that no branch panics, also in a build that checks its invariants; and that the page is a
  keyed store in the sense of theory \<open>Store\<close>.
\<close>

section \<open>The abstraction of a leaf\<close>

definition leaf_inv :: "env \<Rightarrow> page \<Rightarrow> bool" where
  "leaf_inv E p \<longleftrightarrow> is_leaf p \<and> page_inv E p"

fun body_map :: "page_body \<Rightarrow> key \<Rightarrow> row option" where
  "body_map (Leaf rs _ _) = rows_map rs"
| "body_map _ = Map.empty"

definition leaf_map :: "page \<Rightarrow> key \<Rightarrow> row option" where
  "leaf_map p = body_map (body p)"

lemma leaf_map_leaf: "body p = Leaf rs n pv \<Longrightarrow> leaf_map p = rows_map rs"
  by (simp add: leaf_map_def)

lemma leaf_invE:
  assumes "leaf_inv E p"
  obtains rs n pv where "body p = Leaf rs n pv" "rows_ok E rs"
    "sum_list (map (leaf_entry_size E) rs) \<le> LEAF_USABLE"
  using assms by (auto simp: leaf_inv_def page_inv_leaf elim!: body_kindE(1))

lemma leaf_invI:
  "body p = Leaf rs n pv \<Longrightarrow> rows_ok E rs \<Longrightarrow>
    sum_list (map (leaf_entry_size E) rs) \<le> LEAF_USABLE \<Longrightarrow> leaf_inv E p"
  by (simp add: leaf_inv_def page_inv_leaf is_leaf_def)

lemma leaf_inv_body: "body p = Leaf rs n pv \<Longrightarrow> leaf_inv E p \<longleftrightarrow> page_inv E p"
  by (simp add: leaf_inv_def is_leaf_def)

section \<open>Each operation on a well-formed page\<close>

lemma can_insert_leaf:
  "body p = Leaf rs n pv \<Longrightarrow> page_inv E p \<Longrightarrow>
    can_insert E p r \<longleftrightarrow>
      sum_list (map (leaf_entry_size E) rs) + leaf_entry_size E r \<le> LEAF_USABLE"
  by (auto simp: can_insert_def is_leaf_def free_space_leaf page_inv_leaf checked_sub_def)

lemma leaf_insert_eq:
  assumes b: "body p = Leaf rs n pv" and inv: "page_inv E p" and fits: "row_fits E r"
  shows "leaf_insert E p (ValidatedRow r) =
    (if the_key r \<in> set (row_keys rs) then (Err DuplicateKey, p)
     else if LEAF_USABLE < sum_list (map (leaf_entry_size E) rs) + leaf_entry_size E r
     then (Err PageFull, p)
     else let i = ins_pos (the_key r) (row_keys rs) in
       (Ok (), p\<lparr>body := Leaf (take i rs @ r # drop i rs) n pv\<rparr>))"
proof -
  let ?k = "the_key r" and ?i = "ins_pos (the_key r) (row_keys rs)"
  let ?p = "p\<lparr>body := Leaf (take ?i rs @ r # drop ?i rs) n pv\<rparr>"
  have ok: "rows_ok E rs" using inv by (simp add: page_inv_leaf [OF b])
  have key: "primary_key (ValidatedRow r) = Ok ?k"
    using row_fits_key [OF fits] by (simp add: primary_key_row_key)
  have i: "?i \<le> length rs" using ins_pos_le [of ?k "row_keys rs"] by simp
  have "page_inv E ?p"
    if "?k \<notin> set (row_keys rs)"
      "sum_list (map (leaf_entry_size E) rs) + leaf_entry_size E r \<le> LEAF_USABLE"
    using insert_rows_ok(1) [OF ok fits that(1) refl] that(2)
    by (simp only: page_inv_leaf [of ?p, simplified] sum_list_insert)
  then show ?thesis
    using i by (simp add: leaf_insert_def b key rows_search [OF ok] can_insert_leaf [OF b inv]
        vec_insert_def Let_def not_le)
qed

lemma leaf_insert_cases:
  assumes "leaf_inv E p" and "row_fits E r" and "leaf_insert E p (ValidatedRow r) = (res, p')"
  obtains (duplicate) "res = Err DuplicateKey" "p' = p" "the_key r \<in> dom (leaf_map p)"
  | (full) "res = Err PageFull" "p' = p" "the_key r \<notin> dom (leaf_map p)"
      "LEAF_USABLE < entries_size E p + leaf_entry_size E r"
  | (inserted) "res = Ok ()" "leaf_inv E p'" "the_key r \<notin> dom (leaf_map p)"
      "leaf_map p' = (leaf_map p)(the_key r \<mapsto> r)"
      "entries_size E p' = entries_size E p + leaf_entry_size E r"
      "entries_size E p + leaf_entry_size E r \<le> LEAF_USABLE"
proof -
  obtain rs n pv where b: "body p = Leaf rs n pv" and ok: "rows_ok E rs" and
    size: "sum_list (map (leaf_entry_size E) rs) \<le> LEAF_USABLE"
    using assms(1) by (rule leaf_invE)
  have inv: "page_inv E p" using assms(1) by (simp add: leaf_inv_def)
  have map: "leaf_map p = rows_map rs" and es: "entries_size E p = sum_list (map (leaf_entry_size E) rs)"
    by (simp_all add: leaf_map_leaf [OF b] entries_size_def b)
  have dom: "dom (leaf_map p) = set (row_keys rs)" by (simp only: map dom_rows_map)
  let ?i = "ins_pos (the_key r) (row_keys rs)"
  note eq = leaf_insert_eq [OF b inv assms(2)]
  consider (dup) "the_key r \<in> set (row_keys rs)"
    | (full) "the_key r \<notin> set (row_keys rs)"
        "LEAF_USABLE < sum_list (map (leaf_entry_size E) rs) + leaf_entry_size E r"
    | (new) "the_key r \<notin> set (row_keys rs)"
        "sum_list (map (leaf_entry_size E) rs) + leaf_entry_size E r \<le> LEAF_USABLE"
    by linarith
  then show thesis
  proof cases
    case dup
    then have "res = Err DuplicateKey" "p' = p" using assms(3) eq by simp_all
    then show thesis using dup by (intro duplicate) (simp_all add: dom)
  next
    case full
    then have "res = Err PageFull" "p' = p" using assms(3) eq by simp_all
    then show thesis using full by (intro that(2)) (simp_all add: dom es)
  next
    case new
    note ins = insert_rows_ok [OF ok assms(2) new(1) refl]
    have p': "res = Ok ()" "p' = p\<lparr>body := Leaf (take ?i rs @ r # drop ?i rs) n pv\<rparr>"
      using assms(3) new by (simp_all add: eq Let_def)
    have b': "body p' = Leaf (take ?i rs @ r # drop ?i rs) n pv" by (simp add: p')
    show thesis
    proof (rule inserted)
      show "leaf_inv E p'"
        using new(2) by (intro leaf_invI [OF b' ins(1)]) (simp only: sum_list_insert)
      show "leaf_map p' = (leaf_map p)(the_key r \<mapsto> r)"
        by (simp only: leaf_map_leaf [OF b'] map ins(2))
      show "entries_size E p' = entries_size E p + leaf_entry_size E r"
        by (simp only: entries_size_def b' b entries_size_body.simps sum_list_insert)
    qed (use new p' in \<open>simp_all add: dom es\<close>)
  qed
qed

lemma leaf_remove_eq:
  assumes b: "body p = Leaf rs n pv" and inv: "page_inv E p"
  shows "leaf_remove E p k =
    (if k \<in> set (row_keys rs)
     then let i = ins_pos k (row_keys rs) in
       (Ok (Some (rs ! i)), p\<lparr>body := Leaf (take i rs @ drop (Suc i) rs) n pv\<rparr>)
     else (Ok None, p))"
proof -
  let ?i = "ins_pos k (row_keys rs)"
  let ?p = "p\<lparr>body := Leaf (take ?i rs @ drop (Suc ?i) rs) n pv\<rparr>"
  have ok: "rows_ok E rs" and size: "sum_list (map (leaf_entry_size E) rs) \<le> LEAF_USABLE"
    using inv by (simp_all add: page_inv_leaf [OF b])
  have sorted: "sorted_wrt (<) (row_keys rs)" using ok by (simp add: rows_ok_iff)
  show ?thesis
  proof (cases "k \<in> set (row_keys rs)")
    case True
    then have i: "?i < length rs" using ins_pos_found [OF sorted] by simp
    have "page_inv E ?p"
      using remove_rows_ok(1) [OF ok i] size sum_list_remove [OF i, of "leaf_entry_size E"]
      by (simp add: page_inv_leaf [of ?p, simplified])
    then show ?thesis
      using True i by (simp add: leaf_remove_def b rows_search [OF ok] vec_remove_def Let_def)
  next
    case False
    then show ?thesis using inv by (simp add: leaf_remove_def b rows_search [OF ok])
  qed
qed

lemma leaf_get_eq:
  assumes b: "body p = Leaf rs n pv" and ok: "rows_ok E rs"
  shows "leaf_get p k = Ok (rows_map rs k)"
proof (cases "k \<in> set (row_keys rs)")
  case True
  let ?i = "ins_pos k (row_keys rs)"
  have i: "?i < length rs" and k: "the_key (rs ! ?i) = k"
    using ins_pos_found [of "row_keys rs" k] ok True by (auto simp: rows_ok_iff row_keys_def)
  have "rows_map rs k = Some (rs ! ?i)" using rows_map_nth [OF ok i] by (simp only: k)
  then show ?thesis using True i by (simp add: leaf_get_def b rows_search [OF ok] vec_index_def)
next
  case False
  then show ?thesis
    by (simp add: leaf_get_def b rows_search [OF ok] rows_map_None_iff [THEN iffD2])
qed

lemma leaf_remove_cases:
  assumes "leaf_inv E p" and "leaf_remove E p k = (res, p')"
  shows "res = Ok (leaf_map p k) \<and> leaf_inv E p' \<and> leaf_map p' = (leaf_map p)(k := None)"
proof -
  obtain rs n pv where b: "body p = Leaf rs n pv" and ok: "rows_ok E rs" and
    size: "sum_list (map (leaf_entry_size E) rs) \<le> LEAF_USABLE"
    using assms(1) by (rule leaf_invE)
  have inv: "page_inv E p" using assms(1) by (simp add: leaf_inv_def)
  let ?i = "ins_pos k (row_keys rs)"
  show ?thesis
  proof (cases "k \<in> set (row_keys rs)")
    case True
    have i: "?i < length rs" and k: "the_key (rs ! ?i) = k"
      using ins_pos_found [of "row_keys rs" k] ok True by (auto simp: rows_ok_iff row_keys_def)
    have p': "res = Ok (Some (rs ! ?i))" "body p' = Leaf (take ?i rs @ drop (Suc ?i) rs) n pv"
      using assms(2) True by (auto simp: leaf_remove_eq [OF b inv] Let_def)
    have "leaf_inv E p'"
      using remove_rows_ok(1) [OF ok i] size sum_list_remove [OF i, of "leaf_entry_size E"]
      by (intro leaf_invI [OF p'(2)]) simp_all
    moreover have "leaf_map p k = Some (rs ! ?i)"
      using rows_map_nth [OF ok i] by (simp add: leaf_map_leaf [OF b] k)
    ultimately show ?thesis
      using remove_rows_ok(2) [OF ok i] p'
      by (simp add: leaf_map_leaf [OF b] leaf_map_leaf [OF p'(2)] k)
  next
    case False
    then have "res = Ok None" "p' = p" using assms(2) by (simp_all add: leaf_remove_eq [OF b inv])
    moreover have "rows_map rs k = None" using False by (simp add: rows_map_None_iff)
    ultimately show ?thesis using assms(1) by (simp add: leaf_map_leaf [OF b] fun_upd_idem)
  qed
qed

section \<open>The leaf is a keyed store\<close>

text \<open>
  Which insertions a leaf refuses, told from its map alone: a key that is there, and a row that does not fit beside
  the rows of the map.
\<close>

definition map_bytes :: "env \<Rightarrow> (key \<Rightarrow> row option) \<Rightarrow> nat" where
  "map_bytes E m = (\<Sum>k \<in> dom m. leaf_entry_size E (the (m k)))"

definition leaf_refuses :: "env \<Rightarrow> (key \<Rightarrow> row option) \<Rightarrow> row \<Rightarrow> page_error option" where
  "leaf_refuses E m r =
     (if the_key r \<in> dom m then Some DuplicateKey
      else if LEAF_USABLE < map_bytes E m + leaf_entry_size E r then Some PageFull
      else None)"

lemma map_bytes_empty [simp]: "map_bytes E Map.empty = 0"
  by (simp add: map_bytes_def)

lemma map_bytes_upd [simp]:
  assumes "finite (dom m)" and "k \<notin> dom m"
  shows "map_bytes E (m(k \<mapsto> r)) = leaf_entry_size E r + map_bytes E m"
proof -
  have "(\<Sum>j \<in> dom m. leaf_entry_size E (the ((m(k \<mapsto> r)) j))) = map_bytes E m"
    unfolding map_bytes_def using assms(2) by (intro sum.cong) auto
  then show ?thesis using assms by (simp add: map_bytes_def del: fun_upd_apply) simp
qed

lemma map_bytes_del [simp]:
  assumes "finite (dom m)"
  shows "map_bytes E (m(k := None)) = map_bytes E m - (case m k of None \<Rightarrow> 0 | Some r \<Rightarrow> leaf_entry_size E r)"
proof (cases "m k")
  case None
  then show ?thesis by (simp add: fun_upd_idem)
next
  case (Some r)
  have "(m(k := None))(k \<mapsto> r) = m" using Some by auto
  then have "map_bytes E m = leaf_entry_size E r + map_bytes E (m(k := None))"
    using map_bytes_upd [of "m(k := None)" k E r] assms by simp
  then show ?thesis using Some by simp
qed

lemma map_bytes_rows:
  "distinct (row_keys rs) \<Longrightarrow> map_bytes E (rows_map rs) = sum_list (map (leaf_entry_size E) rs)"
proof (induction rs)
  case (Cons r rs)
  then have "the_key r \<notin> dom (rows_map rs)" "finite (dom (rows_map rs))" by (simp_all add: dom_rows_map row_keys_def)
  from map_bytes_upd [OF this(2,1), of E r] Cons show ?case
    by (simp add: row_keys_def rows_map_def del: fun_upd_apply)
qed (simp add: rows_map_def)

lemma map_bytes_leaf:
  assumes "leaf_inv E p"
  shows "map_bytes E (leaf_map p) = entries_size E p"
proof -
  obtain rs n pv where b: "body p = Leaf rs n pv" "rows_ok E rs" using assms by (rule leaf_invE)
  have "distinct (row_keys rs)" using b(2) by (simp add: rows_ok_iff strict_sorted_iff)
  then show ?thesis by (simp only: leaf_map_leaf [OF b(1)] map_bytes_rows entries_size_def b(1) entries_size_body.simps)
qed

interpretation leaf_store: keyed_store "leaf_inv E" leaf_map the_key "row_fits E" "leaf_refuses E" leaf_get
  "\<lambda>p r. leaf_insert E p (ValidatedRow r)" "leaf_remove E" for E
proof
  fix p p' :: page and r k e and res
  assume inv: "leaf_inv E p"
  show "leaf_get p k = Ok (leaf_map p k)"
    using inv by (rule leaf_invE) (simp add: leaf_get_eq leaf_map_leaf)
  show "leaf_remove E p k = (res, p') \<Longrightarrow>
      res = Ok (leaf_map p k) \<and> leaf_inv E p' \<and> leaf_map p' = (leaf_map p)(k := None)"
    using inv by (rule leaf_remove_cases)
  assume fits: "row_fits E r"
  note ins = leaf_insert_cases [OF inv fits] and bytes = map_bytes_leaf [OF inv]
  show "leaf_refuses E (leaf_map p) r = None \<Longrightarrow> leaf_insert E p (ValidatedRow r) = (res', p') \<Longrightarrow>
      res' = Ok () \<and> leaf_inv E p' \<and> leaf_map p' = (leaf_map p)(the_key r \<mapsto> r)" for res'
    by (erule ins) (auto simp: leaf_refuses_def bytes)
  obtain res' q where eq: "leaf_insert E p (ValidatedRow r) = (res', q)" by fastforce
  show "leaf_refuses E (leaf_map p) r = Some e \<Longrightarrow> leaf_insert E p (ValidatedRow r) = (Err e, p)"
    unfolding eq by (rule ins [OF eq]) (auto simp: leaf_refuses_def bytes split: if_splits)
qed

section \<open>Range scans within a page\<close>

lemma drop_ins_pos_filter:
  assumes "sorted_wrt (<) (map f xs)"
  shows "drop (ins_pos k (map f xs)) xs = filter (\<lambda>x. k \<le> f x) xs"
proof -
  let ?i = "ins_pos k (map f xs)"
  have "filter (\<lambda>x. k \<le> f x) (take ?i xs) = []"
    using ins_pos_less [of _ k "map f xs"] ins_pos_le [of k "map f xs"]
    by (auto simp: filter_empty_conv in_set_conv_nth not_le)
  moreover have "filter (\<lambda>x. k \<le> f x) (drop ?i xs) = drop ?i xs"
  proof (rule filter_True, rule ballI)
    fix x assume "x \<in> set (drop ?i xs)"
    then obtain j where "j < length xs - ?i" "x = xs ! (?i + j)" by (auto simp: in_set_conv_nth)
    then show "k \<le> f x" using ins_pos_ge [OF assms, of k "?i + j"] by simp
  qed
  ultimately show ?thesis by (metis append_Nil append_take_drop_id filter_append)
qed

lemma leaf_records_from_eq:
  assumes b: "body p = Leaf rs n pv" and ok: "rows_ok E rs"
  shows "leaf_records_from p k = Ok (filter (\<lambda>r. k \<le> the_key r) rs)"
proof -
  have sorted: "sorted_wrt (<) (map the_key rs)" using ok by (simp add: rows_ok_def)
  have "map_option (\<lambda>c. c = Less) (cmp_key r k) = Some (the_key r < k)" if "r \<in> set rs" for r
    using ok that row_fits_key [of E r] by (auto simp: rows_ok_def cmp_key_row_key cmp_def)
  then have "partition_point (\<lambda>r. map_option (\<lambda>c. c = Less) (cmp_key r k)) rs
      = Some (ins_pos k (map the_key rs))"
    by (intro partition_point_sorted [OF sorted]) simp
  then show ?thesis
    using drop_ins_pos_filter [OF sorted, of k] ins_pos_le [of k "map the_key rs"]
    by (simp add: leaf_records_from_def b)
qed

section \<open>Properties\<close>

text \<open>
  C13: a leaf page is a finite map of bounded size. Whatever sequence of \<^verbatim>\<open>leaf_get\<close>, \<^verbatim>\<open>leaf_insert\<close>
  and \<^verbatim>\<open>leaf_remove\<close> calls is made on a well-formed leaf, with rows that fit, the results are exactly those of
  the same calls on a map from keys to rows, which refuses an insertion if and only if the key is there
  (\<^verbatim>\<open>DuplicateKey\<close>) or the entries of the map and the new one exceed the usable bytes of a leaf (\<^verbatim>\<open>PageFull\<close>).
  The leaf left behind stands for the map left behind, and it is well-formed.
\<close>

theorem leaf_page_is_a_map:
  assumes "leaf_inv E p" and "list_all (op_ok (row_fits E)) ops"
    and "run_script leaf_get (\<lambda>p r. leaf_insert E p (ValidatedRow r)) (leaf_remove E) p ops
      = (outs, p')"
  shows "leaf_inv E p' \<and> ideal_script the_key (leaf_refuses E) (leaf_map p) ops = (outs, leaf_map p')"
  using assms by (rule leaf_store.run_ideal)

text \<open>A row is added, refused as a duplicate, taken out; a fifth row of a thousand bytes does not fit.\<close>

lemma leaf_page_is_a_map_witness:
  "fst (run_script leaf_get (\<lambda>p r. leaf_insert demo_env p (ValidatedRow r)) (leaf_remove demo_env)
      (demo_leaf 2 [demo_row 1, big_row 7] None None)
      [InsertOp (demo_row 4), GetOp (IntegerK 4), InsertOp (demo_row 4), DeleteOp (IntegerK 1), GetOp (IntegerK 1),
        InsertOp (big_row 8), InsertOp (big_row 9), InsertOp (big_row 10), InsertOp (big_row 11)]) =
    [UnitOut (Ok ()), RowOut (Ok (Some (demo_row 4))), UnitOut (Err DuplicateKey), RowOut (Ok (Some (demo_row 1))),
      RowOut (Ok None), UnitOut (Ok ()), UnitOut (Ok ()), UnitOut (Ok ()), UnitOut (Err PageFull)]"
proof -
  let ?p = "demo_leaf 2 [demo_row 1, big_row 7] None None"
  let ?ops = "[InsertOp (demo_row 4), GetOp (IntegerK 4), InsertOp (demo_row 4), DeleteOp (IntegerK 1), GetOp (IntegerK 1),
      InsertOp (big_row 8), InsertOp (big_row 9), InsertOp (big_row 10), InsertOp (big_row 11)]"
  obtain outs p' where run: "run_script leaf_get (\<lambda>p r. leaf_insert demo_env p (ValidatedRow r)) (leaf_remove demo_env) ?p ?ops
      = (outs, p')"
    by fastforce
  have "leaf_inv demo_env ?p" by (simp add: leaf_inv_def kind_defs rows_ok_def)
  from leaf_page_is_a_map [OF this _ run]
  have "ideal_script the_key (leaf_refuses demo_env) (leaf_map ?p) ?ops = (outs, leaf_map p')" by simp
  then show ?thesis
    unfolding run by (simp add: leaf_map_def leaf_refuses_def layout_simps eq_commute [of _ outs])
qed

text \<open>
  which answer \<^verbatim>\<open>leaf_insert\<close> gives. It reports a duplicate exactly when the key is
  present, a full page exactly when the key is new and the row and its slot do not fit into
  the free bytes, and otherwise it succeeds; on both errors the page is unchanged.
\<close>

theorem leaf_insert_branches:
  assumes "leaf_inv E p" and "row_fits E r"
  shows "leaf_insert E p (ValidatedRow r) =
      (if the_key r \<in> dom (leaf_map p) then (Err DuplicateKey, p)
       else if LEAF_USABLE < entries_size E p + leaf_entry_size E r then (Err PageFull, p)
       else (Ok (), snd (leaf_insert E p (ValidatedRow r)))) \<and>
    (leaf_inv E (snd (leaf_insert E p (ValidatedRow r))))"
proof -
  obtain res p' where eq: "leaf_insert E p (ValidatedRow r) = (res, p')" by fastforce
  show ?thesis
    by (rule leaf_insert_cases [OF assms eq]) (use assms eq in \<open>auto simp: not_less\<close>)
qed

lemma leaf_insert_branches_witness:
  "leaf_insert demo_env (demo_leaf 2 [demo_row 1, demo_row 7] None None) (ValidatedRow (demo_row 7))
    = (Err DuplicateKey, demo_leaf 2 [demo_row 1, demo_row 7] None None) \<and>
   leaf_insert demo_env (demo_leaf 2 (map big_row [1, 2, 3, 4]) None None) (ValidatedRow (big_row 7))
    = (Err PageFull, demo_leaf 2 (map big_row [1, 2, 3, 4]) None None)"
  using leaf_insert_branches [of demo_env "demo_leaf 2 [demo_row 1, demo_row 7] None None" "demo_row 7"]
    leaf_insert_branches [of demo_env "demo_leaf 2 (map big_row [1, 2, 3, 4]) None None" "big_row 7"]
  by (simp add: leaf_inv_def kind_defs rows_ok_def leaf_map_def entries_size_def layout_simps)

text \<open>
  A scan of a leaf from a start key returns exactly the records whose key is at least the
  start key, in their order, and never panics on a well-formed leaf.
\<close>

theorem leaf_records_from_correct:
  assumes "leaf_inv E p"
  shows "\<exists>rs. page_records (body p) = Some rs \<and>
    leaf_records_from p k = Ok (filter (\<lambda>r. k \<le> the_key r) rs)"
  using assms by (rule leaf_invE) (simp add: leaf_records_from_eq)

lemma leaf_records_from_correct_witness:
  "leaf_records_from (demo_leaf 2 [demo_row 1, demo_row 7] None None) (IntegerK 3) = Ok [demo_row 7]"
  using leaf_records_from_correct [of demo_env "demo_leaf 2 [demo_row 1, demo_row 7] None None"
      "IntegerK 3"]
  by (simp add: leaf_inv_def kind_defs rows_ok_def less_eq_key_def)

end
