(* ===== verification/Leaf_Siblings.thy ===== *)
theory Leaf_Siblings
  imports Leaf_Correct
begin

text \<open>
  Merging two neighbouring leaves and moving a row from one to the other: the value and the two
  pages on every branch, and what that means for the rows the two pages hold together.
\<close>

section \<open>Each operation on well-formed pages\<close>

abbreviation rows_size :: "env \<Rightarrow> row list \<Rightarrow> nat" where
  "rows_size E rs \<equiv> sum_list (map (leaf_entry_size E) rs)"

lemma leaf_can_merge_iff:
  "body p = Leaf rs n pv \<Longrightarrow> body q = Leaf rs' n' pv' \<Longrightarrow> page_inv E p \<Longrightarrow>
    leaf_can_merge_with E p q \<longleftrightarrow> rows_size E rs + rows_size E rs' \<le> LEAF_USABLE"
  by (auto simp: leaf_can_merge_with_def kind_defs free_space_leaf page_inv_leaf checked_sub_def
      entries_size_def)

lemma unwrap_row_key_fits: "row_fits E r \<Longrightarrow> unwrap_row_key r = Ok (the_key r)"
  by (simp add: unwrap_row_key_def row_fits_key)

lemma cmp_key_fits: "row_fits E r \<Longrightarrow> cmp_key r k = Some (cmp (the_key r) k)"
  by (simp add: cmp_key_row_key row_fits_key)

text \<open>Two runs of rows in order, as the checks at the seam see it.\<close>

lemma rows_ok_seam:
  assumes "rows_ok E xs" and "rows_ok E ys"
  shows "rows_ok E (xs @ ys) \<longleftrightarrow> xs = [] \<or> ys = [] \<or> the_key (last xs) < the_key (hd ys)"
proof (cases "xs = [] \<or> ys = []")
  case True
  then show ?thesis using assms by auto
next
  case False
  then obtain x xs' y ys' where xs: "xs = xs' @ [x]" and ys: "ys = y # ys'"
    by (metis neq_Nil_conv rev_exhaust)
  have "the_key a < the_key b"
    if "the_key x < the_key y" "a \<in> set xs" "b \<in> set ys" for a b
  proof -
    have "the_key a \<le> the_key x" using assms(1) that(2) by (auto simp: xs rows_ok_append)
    moreover have "the_key y \<le> the_key b" using assms(2) that(3) by (auto simp: ys rows_ok_Cons)
    ultimately show ?thesis using that(1) by order
  qed
  then show ?thesis using assms False by (auto simp: rows_ok_append rows_ok_Cons xs ys)
qed

lemma leaf_merge_eq:
  assumes b: "body p = Leaf rs n pv" and b': "body q = Leaf rs' n' pv'"
    and inv: "page_inv E p" and inv': "page_inv E q"
  shows "leaf_merge_from_right E p q =
    (if LEAF_USABLE < rows_size E rs + rows_size E rs' then (Err PageFull, p, q)
     else if n \<noteq> Some (pg_id q)
       then (Err (InvalidMerge (MergePointerMismatch n (Some (pg_id q)))), p, q)
     else if \<not> rows_ok E (rs @ rs') then (Err (InvalidMerge MergeKeys), p, q)
     else (Ok (pg_id q), p\<lparr>body := Leaf (rs @ rs') n' pv\<rparr>, make_free q))"
proof -
  have ok: "rows_ok E rs" "rows_ok E rs'" using inv inv' by (simp_all add: page_inv_leaf b b')
  let ?p = "p\<lparr>body := Leaf (rs @ rs') n' pv\<rparr>"
  have seam: "(case vec_last rs of None \<Rightarrow> Ok False | Some l \<Rightarrow>
      (case vec_first rs' of None \<Rightarrow> Ok False | Some r \<Rightarrow>
        rbind (unwrap_row_key l) (\<lambda>lk. rbind (unwrap_row_key r) (\<lambda>rk. Ok (rk \<le> lk)))))
      = Ok (\<not> rows_ok E (rs @ rs'))"
  proof (cases "rs = [] \<or> rs' = []")
    case True
    then show ?thesis using ok by (auto simp: vec_last_def split: option.split)
  next
    case False
    then obtain xs x y ys where rs: "rs = xs @ [x]" "rs' = y # ys"
      by (metis neq_Nil_conv rev_exhaust)
    then have fits: "row_fits E x" "row_fits E y" using ok by (auto simp: rows_ok_append rows_ok_Cons)
    have "rows_ok E (rs @ rs') \<longleftrightarrow> the_key x < the_key y"
      using rows_ok_seam [OF ok] False by (simp only: rs last_snoc list.sel) simp
    then show ?thesis using fits by (simp add: unwrap_row_key_fits rs not_less)
  qed
  have "page_inv E ?p" if "rows_size E rs + rows_size E rs' \<le> LEAF_USABLE" "rows_ok E (rs @ rs')"
    using that by (simp add: page_inv_leaf [of ?p, simplified])
  then show ?thesis
    using leaf_can_merge_iff [OF b b' inv]
    by (simp add: leaf_merge_from_right_def b b' kind_defs seam Let_def not_le)
qed

lemma leaf_borrow_right_eq:
  assumes b: "body p = Leaf rs n pv" and b': "body q = Leaf rs' n' pv'"
    and inv: "page_inv E p" and inv': "page_inv E q"
  shows "leaf_borrow_from_right E p q =
    (if n \<noteq> Some (pg_id q)
       then (Err (InvalidBorrow (BorrowPointerMismatch n (Some (pg_id q)))), p, q)
     else case rs' of
       [] \<Rightarrow> (Err (InvalidBorrow (EmptyBorrow (pg_id q))), p, q)
     | r # rest \<Rightarrow>
         if \<not> rows_ok E (rs @ [r]) then (Err (InvalidBorrow (KeysOutOfOrder (the_key r))), p, q)
         else if rest = [] then (Err (InvalidBorrow (EmptyBorrow (pg_id q))), p, q)
         else if LEAF_USABLE < rows_size E rs + leaf_entry_size E r then (Err PageFull, p, q)
         else (Ok (the_key (hd rest)), p\<lparr>body := Leaf (rs @ [r]) n pv\<rparr>,
           q\<lparr>body := Leaf rest n' pv'\<rparr>))"
proof (cases rs')
  case Nil
  then show ?thesis using b b' by (simp add: leaf_borrow_from_right_def)
next
  case (Cons r rest)
  have ok: "rows_ok E rs" "rows_ok E rs'" and size: "rows_size E rs \<le> LEAF_USABLE"
    "rows_size E rs' \<le> LEAF_USABLE"
    using inv inv' by (simp_all add: page_inv_leaf b b')
  then have r: "row_fits E r" "rows_ok E [r]" "rows_ok E rest" by (simp_all add: Cons rows_ok_Cons)
  have key: "row_key r = Some (the_key r)" using row_fits_key [OF r(1)] .
  have seam: "(case vec_last rs of None \<Rightarrow> Ok False
      | Some l \<Rightarrow> rbind (expect (cmp_key l (the_key r))) (\<lambda>c. Ok (c \<noteq> Less)))
      = Ok (\<not> rows_ok E (rs @ [r]))"
  proof (cases rs rule: rev_cases)
    case Nil
    then show ?thesis using r by simp
  next
    case (snoc xs x)
    then have "row_fits E x" using ok by (simp add: rows_ok_append rows_ok_Cons)
    then show ?thesis
      using rows_ok_seam [OF ok(1) r(2)] by (simp add: snoc cmp_key_fits)
  qed
  let ?p = "p\<lparr>body := Leaf (rs @ [r]) n pv\<rparr>" and ?q = "q\<lparr>body := Leaf rest n' pv'\<rparr>"
  have "page_inv E ?p" if "rows_size E rs + leaf_entry_size E r \<le> LEAF_USABLE" "rows_ok E (rs @ [r])"
    using that by (simp add: page_inv_leaf [of ?p, simplified])
  moreover have "page_inv E ?q"
    using r size by (simp add: page_inv_leaf [of ?q, simplified] Cons)
  moreover have "\<exists>y ys. rest = y # ys \<and> row_key y = Some (the_key y)" if "rest \<noteq> []"
    using that r(3) row_fits_key by (cases rest) (auto simp: rows_ok_Cons)
  moreover have "(case free_space E p of None \<Rightarrow> True | Some fs \<Rightarrow> fs < leaf_entry_size E r) \<longleftrightarrow>
      LEAF_USABLE < rows_size E rs + leaf_entry_size E r"
    using size by (auto simp: free_space_leaf [OF b] checked_sub_def)
  ultimately show ?thesis
    by (auto simp: leaf_borrow_from_right_def b b' Cons key seam Let_def not_le)
qed

lemma leaf_borrow_left_eq:
  assumes b: "body p = Leaf rs n pv" and b': "body q = Leaf rs' n' pv'"
    and inv: "page_inv E p" and inv': "page_inv E q"
  shows "leaf_borrow_from_left E p q =
    (if pv \<noteq> Some (pg_id q)
       then (Err (InvalidBorrow (BorrowPointerMismatch pv (Some (pg_id q)))), p, q)
     else if rs' = [] then (Err (InvalidBorrow (EmptyBorrow (pg_id q))), p, q)
     else if \<not> rows_ok E (last rs' # rs)
       then (Err (InvalidBorrow (KeysOutOfOrder (the_key (last rs')))), p, q)
     else if butlast rs' = [] then (Err (InvalidBorrow (EmptyBorrow (pg_id q))), p, q)
     else if LEAF_USABLE < rows_size E rs + leaf_entry_size E (last rs') then (Err PageFull, p, q)
     else (Ok (the_key (last rs')), p\<lparr>body := Leaf (last rs' # rs) n pv\<rparr>,
       q\<lparr>body := Leaf (butlast rs') n' pv'\<rparr>))"
proof (cases rs' rule: rev_cases)
  case Nil
  then show ?thesis using b b' by (simp add: leaf_borrow_from_left_def)
next
  case (snoc front r)
  have ok: "rows_ok E rs" "rows_ok E rs'" and size: "rows_size E rs \<le> LEAF_USABLE"
    "rows_size E rs' \<le> LEAF_USABLE"
    using inv inv' by (simp_all add: page_inv_leaf b b')
  then have r: "row_fits E r" "rows_ok E [r]" "rows_ok E front"
    by (simp_all add: snoc rows_ok_append rows_ok_Cons)
  have key: "row_key r = Some (the_key r)" using row_fits_key [OF r(1)] .
  have seam: "(case vec_first rs of None \<Rightarrow> Ok False
      | Some l \<Rightarrow> rbind (expect (cmp_key l (the_key r))) (\<lambda>c. Ok (c \<noteq> Greater)))
      = Ok (\<not> rows_ok E (r # rs))"
  proof (cases rs)
    case Nil
    then show ?thesis using r by simp
  next
    case (Cons x xs)
    then have "row_fits E x" using ok by (simp add: rows_ok_Cons)
    then show ?thesis
      using rows_ok_seam [OF r(2) ok(1)] by (simp add: Cons cmp_key_fits)
  qed
  let ?p = "p\<lparr>body := Leaf (r # rs) n pv\<rparr>" and ?q = "q\<lparr>body := Leaf front n' pv'\<rparr>"
  have "page_inv E ?p" if "rows_size E rs + leaf_entry_size E r \<le> LEAF_USABLE" "rows_ok E (r # rs)"
    using that by (simp add: page_inv_leaf [of ?p, simplified])
  moreover have "page_inv E ?q"
    using r size by (simp add: page_inv_leaf [of ?q, simplified] snoc)
  moreover have "(case free_space E p of None \<Rightarrow> True | Some fs \<Rightarrow> fs < leaf_entry_size E r) \<longleftrightarrow>
      LEAF_USABLE < rows_size E rs + leaf_entry_size E r"
    using size by (auto simp: free_space_leaf [OF b] checked_sub_def)
  ultimately show ?thesis
    by (auto simp: leaf_borrow_from_left_def b b' snoc key seam Let_def not_le)
qed

end
