(* ===== verification/Internal_Page.thy ===== *)
theory Internal_Page
  imports Demo_Pages
begin

text \<open>
  \<^verbatim>\<open>src/page/internal.rs\<close>: the operations on internal pages. A page with keys \<open>k1 < .. < kn\<close> has
  children \<open>c0 .. cn\<close>; child \<open>ci\<close> is for the search keys from \<open>ki\<close> up to, not including,
  \<open>k(i+1)\<close>. Each operation is translated with every branch in the source's order.
\<close>

section \<open>Indices\<close>

datatype child_index = ChildIndex nat
datatype key_index = KeyIndex nat

fun right_separator :: "child_index \<Rightarrow> key_index" where
  "right_separator (ChildIndex i) = KeyIndex i"

fun left_separator :: "child_index \<Rightarrow> key_index option" where
  "left_separator (ChildIndex i) = map_option KeyIndex (checked_sub i 1)"

fun right_sibling :: "child_index \<Rightarrow> child_index" where
  "right_sibling (ChildIndex i) = ChildIndex (i + 1)"

fun left_sibling :: "child_index \<Rightarrow> child_index option" where
  "left_sibling (ChildIndex i) = map_option ChildIndex (checked_sub i 1)"

section \<open>Operations\<close>

text \<open>\<^verbatim>\<open>keys.binary_search(&key)\<close>.\<close>

definition binary_search :: "'k :: linorder list \<Rightarrow> 'k \<Rightarrow> search option" where
  "binary_search keys key = binary_search_by (\<lambda>x. Some (cmp x key)) keys"

definition internal_insert :: "env \<Rightarrow> page \<Rightarrow> key \<Rightarrow> page_id \<Rightarrow> unit page_op" where
  "internal_insert E p separator right_child =
     (if internal_entry_size E separator > MAX_INTERNAL_ENTRY_SIZE then
        (Err (PageSchema (KeyTooLong (internal_entry_size E separator))), p)
      else let can_insert =
          (case free_space E p of
            Some free \<Rightarrow> free \<ge> internal_entry_size E separator
          | None \<Rightarrow> False)
        in (case body p of
          Internal keys children \<Rightarrow>
            (case binary_search keys separator of
              None \<Rightarrow> (Panic, p)
            | Some (Found _) \<Rightarrow> (Err DuplicateKey, p)
            | Some (Insert_At insert_pos) \<Rightarrow>
                if \<not> can_insert then (Err PageFull, p)
                else
                  (case (vec_insert insert_pos separator keys :: (_, page_error) result) of
                    Ok keys' \<Rightarrow>
                      (case (vec_insert (insert_pos + 1) right_child children
                          :: (_, page_error) result) of
                        Ok children' \<Rightarrow>
                          let p' = p\<lparr>body := Internal keys' children'\<rparr>
                          in (debug_check_invariants E p' (Ok ()), p')
                      | _ \<Rightarrow> (Panic, p\<lparr>body := Internal keys' children\<rparr>))
                  | _ \<Rightarrow> (Panic, p)))
        | _ \<Rightarrow> (Err WrongPageType, p)))"

definition can_insert_separator :: "env \<Rightarrow> page \<Rightarrow> key \<Rightarrow> bool" where
  "can_insert_separator E p key \<longleftrightarrow>
     (if \<not> is_internal p then False
      else case free_space E p of
        None \<Rightarrow> False
      | Some s \<Rightarrow> internal_entry_size E key \<le> s)"

definition is_split_safe :: "env \<Rightarrow> page \<Rightarrow> bool" where
  "is_split_safe E p \<longleftrightarrow>
     (if \<not> is_internal p then False
      else case free_space E p of
        None \<Rightarrow> False
      | Some s \<Rightarrow> MAX_INTERNAL_ENTRY_SIZE \<le> s)"

definition internal_can_merge_with :: "env \<Rightarrow> page \<Rightarrow> page \<Rightarrow> key \<Rightarrow> bool" where
  "internal_can_merge_with E p right separator \<longleftrightarrow>
     (if \<not> is_internal p \<or> \<not> is_internal right then False
      else case free_space E p of
        None \<Rightarrow> False
      | Some fs \<Rightarrow> fs \<ge> entries_size E right + internal_entry_size E separator)"

definition internal_merge_from_right ::
  "env \<Rightarrow> page \<Rightarrow> page \<Rightarrow> key \<Rightarrow> (page_id, page_error) result \<times> page \<times> page" where
  "internal_merge_from_right E p right separator =
     (if \<not> is_internal p \<or> \<not> is_internal right then (Err WrongPageType, p, right)
      else if \<not> internal_can_merge_with E p right separator then (Err PageFull, p, right)
      else let right_id = pg_id right in
        (case (body p, body right) of
          (Internal keys children, Internal right_keys right_children) \<Rightarrow>
            if (case vec_first right_keys of Some k \<Rightarrow> k \<le> separator | None \<Rightarrow> False) then
              (Err (InvalidMerge MergeKeys), p, right)
            else if (case vec_last keys of Some k \<Rightarrow> k \<ge> separator | None \<Rightarrow> False) then
              (Err (InvalidMerge MergeKeys), p, right)
            else
              let p' = p\<lparr>body := Internal (keys @ [separator] @ right_keys)
                                   (children @ right_children)\<rparr>
              in (debug_check_invariants E p' (Ok right_id), p', make_free right)
        | _ \<Rightarrow> (Err WrongPageType, p, right)))"

definition internal_borrow_from_right ::
  "env \<Rightarrow> page \<Rightarrow> page \<Rightarrow> key \<Rightarrow> (key, page_error) result \<times> page \<times> page" where
  "internal_borrow_from_right E p right parent_sep =
     (case (body p, body right) of
       (Internal keys children, Internal right_keys right_children) \<Rightarrow>
         (case vec_first right_keys of
           None \<Rightarrow> (Err (InvalidBorrow (EmptyBorrow (pg_id right))), p, right)
         | Some borrow_key \<Rightarrow>
             if (case vec_last keys of Some r \<Rightarrow> r \<ge> parent_sep | None \<Rightarrow> False) then
               (Err (InvalidBorrow (KeysOutOfOrder parent_sep)), p, right)
             else if borrow_key \<le> parent_sep then
               (Err (InvalidBorrow (KeysOutOfOrder parent_sep)), p, right)
             else if (case free_space E p of
                 None \<Rightarrow> True
               | Some fs \<Rightarrow> fs < internal_entry_size E parent_sep)
             then (Err PageFull, p, right)
             else
               (case right_children of
                 [] \<Rightarrow> (Panic, p, right\<lparr>body := Internal (tl right_keys) right_children\<rparr>)
               | stolen_child # right_children' \<Rightarrow>
                   let right' = right\<lparr>body := Internal (tl right_keys) right_children'\<rparr>;
                       p' = p\<lparr>body := Internal (keys @ [parent_sep]) (children @ [stolen_child])\<rparr>
                   in (debug_check_invariants E p'
                        (debug_check_invariants E right' (Ok borrow_key)), p', right')))
     | _ \<Rightarrow> (Err WrongPageType, p, right))"

definition internal_borrow_from_left ::
  "env \<Rightarrow> page \<Rightarrow> page \<Rightarrow> key \<Rightarrow> (key, page_error) result \<times> page \<times> page" where
  "internal_borrow_from_left E p left parent_sep =
     (case (body p, body left) of
       (Internal keys children, Internal left_keys left_children) \<Rightarrow>
         (case vec_last left_keys of
           None \<Rightarrow> (Err (InvalidBorrow (EmptyBorrow (pg_id left))), p, left)
         | Some borrow_key \<Rightarrow>
             if (case vec_first keys of Some r \<Rightarrow> r \<le> parent_sep | None \<Rightarrow> False) then
               (Err (InvalidBorrow (KeysOutOfOrder parent_sep)), p, left)
             else if borrow_key \<ge> parent_sep then
               (Err (InvalidBorrow (KeysOutOfOrder parent_sep)), p, left)
             else if (case free_space E p of
                 None \<Rightarrow> True
               | Some fs \<Rightarrow> fs < internal_entry_size E parent_sep)
             then (Err PageFull, p, left)
             else
               (case vec_last left_children of
                 None \<Rightarrow> (Panic, p, left\<lparr>body := Internal (butlast left_keys) left_children\<rparr>)
               | Some stolen_child \<Rightarrow>
                   let left' = left\<lparr>body := Internal (butlast left_keys) (butlast left_children)\<rparr>;
                       p' = p\<lparr>body := Internal (parent_sep # keys) (stolen_child # children)\<rparr>
                   in (debug_check_invariants E p'
                        (debug_check_invariants E left' (Ok borrow_key)), p', left')))
     | _ \<Rightarrow> (Err WrongPageType, p, left))"

definition internal_remove :: "env \<Rightarrow> page \<Rightarrow> key \<Rightarrow> (key \<times> page_id) option page_op" where
  "internal_remove E p key =
     (case (debug_check_invariants E p (Ok ()) :: (unit, page_error) result) of
       Panic \<Rightarrow> (Panic, p)
     | _ \<Rightarrow>
       (case body p of
         Internal keys children \<Rightarrow>
           (case binary_search keys key of
             None \<Rightarrow> (Panic, p)
           | Some (Insert_At _) \<Rightarrow> (debug_check_invariants E p (Ok None), p)
           | Some (Found i) \<Rightarrow>
               (case (vec_remove i keys :: (_, page_error) result) of
                 Ok (k, keys') \<Rightarrow>
                   (case (vec_remove (i + 1) children :: (_, page_error) result) of
                     Ok (c, children') \<Rightarrow>
                       let p' = p\<lparr>body := Internal keys' children'\<rparr>
                       in (debug_check_invariants E p' (Ok (Some (k, c))), p')
                   | _ \<Rightarrow> (Panic, p\<lparr>body := Internal keys' children\<rparr>))
               | _ \<Rightarrow> (Panic, p)))
       | _ \<Rightarrow> (Err WrongPageType, p)))"

text \<open>\<^verbatim>\<open>children[i]\<close> can panic, so the option the source returns is inside a result.\<close>

definition find_child_index ::
  "page \<Rightarrow> key \<Rightarrow> ((child_index \<times> page_id) option, page_error) result" where
  "find_child_index p search_key =
     (case body p of
       Internal keys children \<Rightarrow>
         (case binary_search keys search_key of
           None \<Rightarrow> Panic
         | Some s \<Rightarrow>
             let i = (case s of Found i \<Rightarrow> i + 1 | Insert_At i \<Rightarrow> i)
             in rbind (vec_index children i) (\<lambda>c. Ok (Some (ChildIndex i, c))))
     | _ \<Rightarrow> Ok None)"

definition find_child :: "page \<Rightarrow> key \<Rightarrow> (page_id option, page_error) result" where
  "find_child p search_key =
     rbind (find_child_index p search_key) (\<lambda>r. Ok (map_option snd r))"

fun child_at :: "page_body \<Rightarrow> child_index \<Rightarrow> page_id option" where
  "child_at (Internal _ children) (ChildIndex i) = vec_get i children"
| "child_at _ _ = None"

fun key_at :: "page_body \<Rightarrow> key_index \<Rightarrow> key option" where
  "key_at (Internal keys _) (KeyIndex i) = vec_get i keys"
| "key_at _ _ = None"

definition internal_replace_key :: "env \<Rightarrow> page \<Rightarrow> key \<Rightarrow> key \<Rightarrow> unit page_op" where
  "internal_replace_key E p old new =
     (let fits =
        (case free_space E p of
          Some free \<Rightarrow> free + internal_entry_size E old \<ge> internal_entry_size E new
        | None \<Rightarrow> False)
      in (case body p of
        Internal keys children \<Rightarrow>
          (case binary_search keys old of
            None \<Rightarrow> (Panic, p)
          | Some (Insert_At _) \<Rightarrow> (Err (MissingKey old new), p)
          | Some (Found idx) \<Rightarrow>
              let above_left = (idx = 0 \<or> keys ! (idx - 1) < new);
                  below_right = (idx + 1 = length keys \<or> new < keys ! (idx + 1))
              in if \<not> (above_left \<and> below_right) then (Err (KeyNotInOrder new), p)
                 else if \<not> fits then (Err PageFull, p)
                 else let p' = p\<lparr>body := Internal (keys[idx := new]) children\<rparr>
                   in (debug_check_invariants E p' (Ok ()), p'))
      | _ \<Rightarrow> (Err WrongPageType, p)))"

section \<open>Sorted keys\<close>

abbreviation keys_size :: "env \<Rightarrow> key list \<Rightarrow> nat" where
  "keys_size E ks \<equiv> sum_list (map (internal_entry_size E) ks)"

abbreviation key_fits :: "env \<Rightarrow> key \<Rightarrow> bool" where
  "key_fits E k \<equiv> internal_entry_size E k \<le> MAX_INTERNAL_ENTRY_SIZE"

lemma keys_ok_append:
  "keys_ok E (xs @ ys) \<longleftrightarrow>
    keys_ok E xs \<and> keys_ok E ys \<and> (\<forall>x \<in> set xs. \<forall>y \<in> set ys. x < y)"
  by (auto simp: keys_ok_def sorted_wrt_append)

lemma keys_ok_Cons:
  "keys_ok E (x # ys) \<longleftrightarrow> key_fits E x \<and> keys_ok E ys \<and> (\<forall>y \<in> set ys. x < y)"
  by (auto simp: keys_ok_def)

lemma keys_ok_Nil [simp]: "keys_ok E []"
  by (simp add: keys_ok_def)

lemma keys_ok_sorted: "keys_ok E ks \<Longrightarrow> sorted_wrt (<) ks"
  by (simp add: keys_ok_def)

lemma keys_ok_snoc:
  "keys_ok E (ks @ [k]) \<longleftrightarrow> keys_ok E ks \<and> key_fits E k \<and> (ks = [] \<or> last ks < k)"
  by (cases ks rule: rev_cases) (auto simp: keys_ok_append keys_ok_Cons)

lemma keys_ok_cons:
  "keys_ok E (k # ks) \<longleftrightarrow> keys_ok E ks \<and> key_fits E k \<and> (ks = [] \<or> k < hd ks)"
  by (cases ks) (auto simp: keys_ok_Cons)

lemma keys_search:
  assumes "keys_ok E ks"
  shows "binary_search ks k =
    Some (if k \<in> set ks then Found (ins_pos k ks) else Insert_At (ins_pos k ks))"
  using binary_search_sorted [of id ks "\<lambda>x. Some (cmp x k)" k] keys_ok_sorted [OF assms]
  by (simp add: binary_search_def)

lemma keys_insert_ok:
  assumes "keys_ok E ks" and "key_fits E k" and "k \<notin> set ks" and i: "i = ins_pos k ks"
  shows "keys_ok E (take i ks @ k # drop i ks)"
proof -
  have sorted: "sorted_wrt (<) ks" using assms(1) by (rule keys_ok_sorted)
  have "\<forall>x \<in> set (take i ks). x < k"
    using ins_pos_less [of _ k ks] ins_pos_le [of k ks] by (auto simp: i in_set_conv_nth)
  moreover have "\<forall>x \<in> set (drop i ks). k < x"
    using ins_pos_gt [OF sorted assms(3), of "i + _"] by (auto simp: i in_set_conv_nth)
  moreover have "keys_ok E (take i ks @ drop i ks)" using assms(1) by simp
  ultimately show ?thesis using assms(2) by (auto simp only: keys_ok_append keys_ok_Cons list.set)
qed

lemma keys_remove_ok: "keys_ok E ks \<Longrightarrow> keys_ok E (take i ks @ drop (Suc i) ks)"
  using id_take_nth_drop [of i ks] keys_ok_append [of E "take i ks" "drop i ks"]
  by (cases "i < length ks") (auto simp: keys_ok_append Cons_nth_drop_Suc [symmetric] keys_ok_Cons)

text \<open>The child an internal page sends a search key to: behind every separator up to it.\<close>

definition route_pos :: "'k :: linorder \<Rightarrow> 'k list \<Rightarrow> nat" where
  "route_pos k ks = length (takeWhile (\<lambda>x. x \<le> k) ks)"

lemma route_pos_le: "route_pos k ks \<le> length ks"
  by (simp add: route_pos_def length_takeWhile_le)

lemma route_pos_below: "j < route_pos k ks \<Longrightarrow> ks ! j \<le> k"
  unfolding route_pos_def by (metis nth_mem set_takeWhileD takeWhile_nth)

lemma route_pos_above:
  assumes "sorted_wrt (<) ks" and "route_pos k ks \<le> j" and "j < length ks"
  shows "k < ks ! j"
proof -
  have "\<not> ks ! route_pos k ks \<le> k"
    using assms(2,3) unfolding route_pos_def by (intro nth_length_takeWhile) auto
  moreover have "ks ! route_pos k ks \<le> ks ! j"
    using assms sorted_wrt_nth_less [OF assms(1), of "route_pos k ks" j]
    by (cases "route_pos k ks = j") auto
  ultimately show ?thesis by simp
qed

lemma route_pos_eqI:
  assumes "i \<le> length ks" and "\<And>j. j < i \<Longrightarrow> ks ! j \<le> k" and "i < length ks \<Longrightarrow> k < ks ! i"
  shows "route_pos k ks = i"
  unfolding route_pos_def using assms
  by (subst takeWhile_eq_take_P_nth [where n = i]) (auto simp: not_le)

lemma route_pos_ins_pos:
  assumes "sorted_wrt (<) ks"
  shows "route_pos k ks = (if k \<in> set ks then ins_pos k ks + 1 else ins_pos k ks)"
proof (cases "k \<in> set ks")
  case True
  let ?i = "ins_pos k ks"
  have i: "?i < length ks" "ks ! ?i = k" using ins_pos_found [OF assms True] by auto
  have "ks ! j \<le> k" if "j < ?i + 1" for j
    using i(2) ins_pos_less [of j k ks] that by (cases "j = ?i") auto
  moreover have "k < ks ! (?i + 1)" if "?i + 1 < length ks"
    using sorted_wrt_nth_less [OF assms, of ?i "?i + 1"] that i(2) by simp
  ultimately have "route_pos k ks = ?i + 1" using i(1) by (intro route_pos_eqI) auto
  then show ?thesis using True by simp
next
  case False
  have "route_pos k ks = ins_pos k ks"
    using ins_pos_le [of k ks] ins_pos_less [of _ k ks] ins_pos_gt [OF assms False]
    by (intro route_pos_eqI) (auto intro: less_imp_le)
  then show ?thesis using False by simp
qed

end
