(* ===== verification/Internal_Correct.thy ===== *)
theory Internal_Correct
  imports Internal_Page
begin

text \<open>
  What the operations on internal pages do, on pages that satisfy \<open>page_inv\<close>: the value and the
  page or pages each returns on every branch, the routing of a search key, and the effect of the
  structural operations on the sequence of keys and children.
\<close>

section \<open>Each operation on well-formed pages\<close>

lemma free_space_at_least:
  assumes "body p = Internal ks cs" and "page_inv E p"
  shows "(case free_space E p of Some free \<Rightarrow> c \<le> free | None \<Rightarrow> False) \<longleftrightarrow>
      keys_size E ks + c \<le> INTERNAL_USABLE"
    and "(case free_space E p of None \<Rightarrow> True | Some fs \<Rightarrow> fs < c) \<longleftrightarrow>
      INTERNAL_USABLE < keys_size E ks + c"
  using assms by (auto simp: free_space_internal page_inv_internal checked_sub_def)

lemma internal_invD:
  assumes "body p = Internal ks cs" and "page_inv E p"
  shows "keys_ok E ks" and "length cs = length ks + 1" and "keys_size E ks \<le> INTERNAL_USABLE"
  using assms by (simp_all add: page_inv_internal)

lemma internal_insert_eq:
  assumes b: "body p = Internal ks cs" and inv: "page_inv E p"
  shows "internal_insert E p k c =
    (if \<not> key_fits E k then (Err (PageSchema (KeyTooLong (internal_entry_size E k))), p)
     else if k \<in> set ks then (Err DuplicateKey, p)
     else if INTERNAL_USABLE < keys_size E ks + internal_entry_size E k then (Err PageFull, p)
     else let i = ins_pos k ks in
       (Ok (), p\<lparr>body := Internal (take i ks @ k # drop i ks)
                                 (take (i + 1) cs @ c # drop (i + 1) cs)\<rparr>))"
proof -
  note i = internal_invD [OF b inv]
  let ?i = "ins_pos k ks"
  let ?p = "p\<lparr>body := Internal (take ?i ks @ k # drop ?i ks)
                               (take (?i + 1) cs @ c # drop (?i + 1) cs)\<rparr>"
  have len: "?i \<le> length ks" by (rule ins_pos_le)
  have "page_inv E ?p"
    if "key_fits E k" "k \<notin> set ks" "keys_size E ks + internal_entry_size E k \<le> INTERNAL_USABLE"
  proof -
    have b1: "body ?p = Internal (take ?i ks @ k # drop ?i ks)
        (take (?i + 1) cs @ c # drop (?i + 1) cs)" by simp
    show ?thesis
      unfolding page_inv_internal [OF b1] sum_list_insert
      using keys_insert_ok [OF i(1) that(1,2) refl] that(3) i(2) len by simp
  qed
  then show ?thesis
    using len i(2)
    by (auto simp: internal_insert_def b keys_search [OF i(1)] free_space_at_least [OF b inv]
        vec_insert_def Let_def not_le)
qed

lemma internal_remove_eq:
  assumes b: "body p = Internal ks cs" and inv: "page_inv E p"
  shows "internal_remove E p k =
    (if k \<in> set ks then let i = ins_pos k ks in
       (Ok (Some (k, cs ! (i + 1))),
        p\<lparr>body := Internal (take i ks @ drop (Suc i) ks) (take (i + 1) cs @ drop (i + 2) cs)\<rparr>)
     else (Ok None, p))"
proof (cases "k \<in> set ks")
  case True
  note i = internal_invD [OF b inv]
  let ?i = "ins_pos k ks"
  let ?p = "p\<lparr>body := Internal (take ?i ks @ drop (Suc ?i) ks)
                               (take (?i + 1) cs @ drop (?i + 2) cs)\<rparr>"
  have pos: "?i < length ks" "ks ! ?i = k" using ins_pos_found [OF keys_ok_sorted [OF i(1)] True] by auto
  have "page_inv E ?p"
    using keys_remove_ok [OF i(1), of ?i] i(2,3) pos(1)
      sum_list_remove [OF pos(1), of "internal_entry_size E"]
    by (simp add: page_inv_internal [of ?p, simplified])
  then show ?thesis
    using True pos i(2) inv
    by (simp add: internal_remove_def b keys_search [OF i(1)] vec_remove_def Let_def)
next
  case False
  then show ?thesis
    using inv by (simp add: internal_remove_def b keys_search [OF internal_invD(1) [OF b inv]])
qed

lemma find_child_index_eq:
  assumes b: "body p = Internal ks cs" and inv: "page_inv E p"
  shows "find_child_index p k = Ok (Some (ChildIndex (route_pos k ks), cs ! route_pos k ks))"
  using internal_invD [OF b inv] route_pos_le [of k ks]
  by (simp add: find_child_index_def b keys_search route_pos_ins_pos keys_ok_sorted
      vec_index_def Let_def split: if_splits)

lemma find_child_eq:
  assumes "body p = Internal ks cs" and "page_inv E p"
  shows "find_child p k = Ok (Some (cs ! route_pos k ks))"
  by (simp add: find_child_def find_child_index_eq [OF assms])

lemma internal_can_merge_iff:
  assumes "body p = Internal ks cs" and "body q = Internal ks' cs'" and "page_inv E p"
  shows "internal_can_merge_with E p q k \<longleftrightarrow>
    keys_size E ks + internal_entry_size E k + keys_size E ks' \<le> INTERNAL_USABLE"
  using assms
  by (auto simp: internal_can_merge_with_def kind_defs free_space_internal page_inv_internal
      checked_sub_def entries_size_def)

lemma keys_ok_seam:
  assumes "keys_ok E xs" and "keys_ok E ys" and "key_fits E k"
  shows "keys_ok E (xs @ k # ys) \<longleftrightarrow>
    (case vec_last xs of None \<Rightarrow> True | Some a \<Rightarrow> a < k) \<and>
    (case vec_first ys of None \<Rightarrow> True | Some b \<Rightarrow> k < b)"
proof -
  have "keys_ok E (k # ys) \<longleftrightarrow> (case vec_first ys of None \<Rightarrow> True | Some b \<Rightarrow> k < b)"
    using assms(2,3) by (cases ys) (auto simp: keys_ok_Cons)
  moreover have "keys_ok E (xs @ [k]) \<longleftrightarrow> (case vec_last xs of None \<Rightarrow> True | Some a \<Rightarrow> a < k)"
    using assms(1,3) by (cases xs rule: rev_cases) (auto simp: keys_ok_append keys_ok_Cons)
  moreover have "keys_ok E (xs @ k # ys) \<longleftrightarrow> keys_ok E (xs @ [k]) \<and> keys_ok E (k # ys)"
    by (auto simp: keys_ok_append keys_ok_Cons dest: less_trans)
  ultimately show ?thesis by blast
qed

lemma internal_merge_eq:
  assumes b: "body p = Internal ks cs" and b': "body q = Internal ks' cs'"
    and inv: "page_inv E p" and inv': "page_inv E q" and k: "key_fits E k"
  shows "internal_merge_from_right E p q k =
    (if INTERNAL_USABLE < keys_size E ks + internal_entry_size E k + keys_size E ks'
       then (Err PageFull, p, q)
     else if \<not> keys_ok E (ks @ k # ks') then (Err (InvalidMerge MergeKeys), p, q)
     else (Ok (pg_id q), p\<lparr>body := Internal (ks @ k # ks') (cs @ cs')\<rparr>, make_free q))"
proof -
  note i = internal_invD [OF b inv] and i' = internal_invD [OF b' inv']
  let ?p = "p\<lparr>body := Internal (ks @ k # ks') (cs @ cs')\<rparr>"
  have "page_inv E ?p"
    if "keys_size E ks + internal_entry_size E k + keys_size E ks' \<le> INTERNAL_USABLE"
      "keys_ok E (ks @ k # ks')"
    using that i(2) i'(2) by (simp add: page_inv_internal [of ?p, simplified])
  then show ?thesis
    using keys_ok_seam [OF i(1) i'(1) k]
    by (auto simp: internal_merge_from_right_def b b' kind_defs internal_can_merge_iff [OF b b' inv]
        not_le not_less Let_def split: option.splits)
qed

lemma internal_borrow_right_eq:
  assumes b: "body p = Internal ks cs" and b': "body q = Internal ks' cs'"
    and inv: "page_inv E p" and inv': "page_inv E q" and k: "key_fits E k"
  shows "internal_borrow_from_right E p q k =
    (case ks' of
       [] \<Rightarrow> (Err (InvalidBorrow (EmptyBorrow (pg_id q))), p, q)
     | x # rest \<Rightarrow>
         if \<not> keys_ok E (ks @ [k, x]) then (Err (InvalidBorrow (KeysOutOfOrder k)), p, q)
         else if INTERNAL_USABLE < keys_size E ks + internal_entry_size E k
           then (Err PageFull, p, q)
         else (Ok x, p\<lparr>body := Internal (ks @ [k]) (cs @ [hd cs'])\<rparr>,
           q\<lparr>body := Internal rest (tl cs')\<rparr>))"
proof (cases ks')
  case Nil
  then show ?thesis by (simp add: internal_borrow_from_right_def b b')
next
  case (Cons x rest)
  note i = internal_invD [OF b inv] and i' = internal_invD [OF b' inv']
  let ?p = "p\<lparr>body := Internal (ks @ [k]) (cs @ [hd cs'])\<rparr>"
  let ?q = "q\<lparr>body := Internal rest (tl cs')\<rparr>"
  obtain c cs1 where cs': "cs' = c # cs1" using i'(2) by (cases cs') auto
  have x: "keys_ok E [x]" "keys_ok E rest" using i'(1) by (simp_all add: Cons keys_ok_Cons)
  have seam: "keys_ok E (ks @ [k, x]) \<longleftrightarrow>
      (case vec_last ks of None \<Rightarrow> True | Some a \<Rightarrow> a < k) \<and> k < x"
    using keys_ok_seam [OF i(1) x(1) k] by simp
  have "page_inv E ?p"
    if "keys_ok E (ks @ [k, x])" "keys_size E ks + internal_entry_size E k \<le> INTERNAL_USABLE"
    using that i(2) keys_ok_append [of E "ks @ [k]" "[x]"]
    by (simp add: page_inv_internal [of ?p, simplified])
  moreover have "page_inv E ?q"
    using x(2) i'(2,3) by (simp add: page_inv_internal [of ?q, simplified] Cons)
  ultimately show ?thesis
    by (auto simp: internal_borrow_from_right_def b b' Cons cs' seam free_space_at_least [OF b inv]
        not_le not_less Let_def split: option.splits)
qed

lemma internal_borrow_left_eq:
  assumes b: "body p = Internal ks cs" and b': "body q = Internal ks' cs'"
    and inv: "page_inv E p" and inv': "page_inv E q" and k: "key_fits E k"
  shows "internal_borrow_from_left E p q k =
    (if ks' = [] then (Err (InvalidBorrow (EmptyBorrow (pg_id q))), p, q)
     else if \<not> keys_ok E (last ks' # k # ks) then (Err (InvalidBorrow (KeysOutOfOrder k)), p, q)
     else if INTERNAL_USABLE < keys_size E ks + internal_entry_size E k
       then (Err PageFull, p, q)
     else (Ok (last ks'), p\<lparr>body := Internal (k # ks) (last cs' # cs)\<rparr>,
       q\<lparr>body := Internal (butlast ks') (butlast cs')\<rparr>))"
proof (cases ks' rule: rev_cases)
  case Nil
  then show ?thesis by (simp add: internal_borrow_from_left_def b b')
next
  case (snoc front x)
  note i = internal_invD [OF b inv] and i' = internal_invD [OF b' inv']
  let ?p = "p\<lparr>body := Internal (k # ks) (last cs' # cs)\<rparr>"
  let ?q = "q\<lparr>body := Internal front (butlast cs')\<rparr>"
  obtain cs1 c where cs': "cs' = cs1 @ [c]" using i'(2) by (cases cs' rule: rev_cases) auto
  have x: "keys_ok E [x]" "keys_ok E front" using i'(1) by (simp_all add: snoc keys_ok_append)
  have seam: "keys_ok E (x # k # ks) \<longleftrightarrow>
      (case vec_first ks of None \<Rightarrow> True | Some a \<Rightarrow> k < a) \<and> x < k"
    using keys_ok_seam [OF x(1) i(1) k] by (auto simp: vec_last_def)
  have "page_inv E ?p"
    if "keys_ok E (x # k # ks)" "keys_size E ks + internal_entry_size E k \<le> INTERNAL_USABLE"
    using that i(2) by (simp add: page_inv_internal [of ?p, simplified] keys_ok_Cons [of E x])
  moreover have "page_inv E ?q"
    using x(2) i'(2,3) by (simp add: page_inv_internal [of ?q, simplified] snoc)
  ultimately show ?thesis
    by (auto simp: internal_borrow_from_left_def b b' snoc cs' seam free_space_at_least [OF b inv]
        not_le not_less Let_def split: option.splits)
qed

lemma list_update_take_drop: "i < length xs \<Longrightarrow> xs[i := y] = take i xs @ y # drop (Suc i) xs"
  by (rule upd_conv_take_nth_drop)

lemma internal_replace_eq:
  assumes b: "body p = Internal ks cs" and inv: "page_inv E p" and new: "key_fits E new"
  shows "internal_replace_key E p old new =
    (if old \<notin> set ks then (Err (MissingKey old new), p)
     else let i = ins_pos old ks in
       if \<not> keys_ok E (ks[i := new]) then (Err (KeyNotInOrder new), p)
       else if INTERNAL_USABLE < keys_size E (ks[i := new]) then (Err PageFull, p)
       else (Ok (), p\<lparr>body := Internal (ks[i := new]) cs\<rparr>))"
proof (cases "old \<in> set ks")
  case False
  then show ?thesis
    by (simp add: internal_replace_key_def b keys_search [OF internal_invD(1) [OF b inv]] Let_def)
next
  case True
  note i = internal_invD [OF b inv]
  let ?i = "ins_pos old ks"
  let ?p = "p\<lparr>body := Internal (ks[?i := new]) cs\<rparr>"
  have pos: "?i < length ks" "ks ! ?i = old"
    using ins_pos_found [OF keys_ok_sorted [OF i(1)] True] by auto
  define l r where "l = take ?i ks" and "r = drop (Suc ?i) ks"
  have split: "ks = l @ old # r" and l: "length l = ?i"
    using id_take_nth_drop [OF pos(1)] pos by (simp_all add: l_def r_def)
  have upd: "ks[?i := new] = l @ new # r"
    using list_update_take_drop [OF pos(1)] by (simp add: l_def r_def)
  have lr: "keys_ok E l" "keys_ok E r"
    using i(1) unfolding split by (auto simp: keys_ok_append keys_ok_Cons)
  have "(?i = 0 \<or> ks ! (?i - 1) < new) \<longleftrightarrow> (case vec_last l of None \<Rightarrow> True | Some a \<Rightarrow> a < new)"
    unfolding l [symmetric] by (cases l rule: rev_cases) (auto simp: split nth_append)
  moreover have "(?i + 1 = length ks \<or> new < ks ! (?i + 1)) \<longleftrightarrow>
      (case vec_first r of None \<Rightarrow> True | Some a \<Rightarrow> new < a)"
    unfolding l [symmetric] by (cases r) (auto simp: split nth_append)
  ultimately have order: "(?i = 0 \<or> ks ! (?i - 1) < new) \<and> (?i + 1 = length ks \<or> new < ks ! (?i + 1))
      \<longleftrightarrow> keys_ok E (ks[?i := new])"
    using keys_ok_seam [OF lr new] by (simp only: upd)
  have "keys_size E (ks[?i := new]) + internal_entry_size E old =
      keys_size E ks + internal_entry_size E new"
    unfolding upd by (simp add: split)
  then have fits: "(case free_space E p of
        Some free \<Rightarrow> internal_entry_size E new \<le> free + internal_entry_size E old
      | None \<Rightarrow> False) \<longleftrightarrow> keys_size E (ks[?i := new]) \<le> INTERNAL_USABLE"
    using i(3) by (auto simp: free_space_internal [OF b] checked_sub_def)
  have "page_inv E ?p" if "keys_ok E (ks[?i := new])" "keys_size E (ks[?i := new]) \<le> INTERNAL_USABLE"
    using that i(2) by (simp add: page_inv_internal [of ?p, simplified])
  then show ?thesis
    unfolding internal_replace_key_def Let_def fits b page_body.case keys_search [OF i(1)]
      if_P [OF True] option.case search.case order
    by (simp add: True not_le)
qed

section \<open>Routing after an insertion\<close>

lemma route_pos_append_below:
  "\<forall>x \<in> set xs. x \<le> k \<Longrightarrow> route_pos k (xs @ ys) = length xs + route_pos k ys"
  by (induction xs) (auto simp: route_pos_def)

lemma route_pos_append_above:
  "y > k \<Longrightarrow> route_pos k (xs @ y # ys) = route_pos k xs"
  by (induction xs) (auto simp: route_pos_def)

lemma route_insert:
  assumes sorted: "sorted_wrt (<) ks" and s: "s \<notin> set ks" and i: "i = ins_pos s ks"
    and len: "length cs = length ks + 1"
  shows "(take (i + 1) cs @ c # drop (i + 1) cs) ! route_pos k (take i ks @ s # drop i ks) =
    (if route_pos k ks = i \<and> s \<le> k then c else cs ! route_pos k ks)"
proof -
  have il: "i \<le> length ks" using ins_pos_le [of s ks] by (simp add: i)
  have below: "\<forall>x \<in> set (take i ks). x < s"
    using ins_pos_less [of _ s ks] il by (auto simp: i in_set_conv_nth)
  have above: "\<forall>x \<in> set (drop i ks). s < x"
    using ins_pos_gt [OF sorted s, of "i + _"] by (auto simp: i in_set_conv_nth)
  show ?thesis
  proof (cases "s \<le> k")
    case True
    have le: "\<forall>x \<in> set (take i ks). x \<le> k" using below True by fastforce
    have old: "route_pos k ks = i + route_pos k (drop i ks)"
      using route_pos_append_below [OF le, of "drop i ks"] il by simp
    have "route_pos k (take i ks @ s # drop i ks) = i + route_pos k (s # drop i ks)"
      using route_pos_append_below [OF le] il by simp
    also have "route_pos k (s # drop i ks) = Suc (route_pos k (drop i ks))"
      using True by (simp add: route_pos_def)
    finally have new: "route_pos k (take i ks @ s # drop i ks) = Suc (route_pos k ks)"
      using old by simp
    have "route_pos k ks \<le> length ks" by (rule route_pos_le)
    then show ?thesis
      unfolding new using True old len il by (auto simp: nth_append nth_Cons split: nat.splits)
  next
    case False
    have new: "route_pos k (take i ks @ s # drop i ks) = route_pos k (take i ks)"
      using False by (simp add: route_pos_append_above)
    also have "\<dots> = route_pos k (take i ks @ drop i ks)"
      using False above route_pos_append_above [of k "hd (drop i ks)" "take i ks" "tl (drop i ks)"]
      by (cases "drop i ks") (auto simp: not_le)
    finally have eq: "route_pos k (take i ks @ s # drop i ks) = route_pos k ks" by simp
    have "route_pos k ks \<le> i" using route_pos_le [of k "take i ks"] new eq by simp
    then show ?thesis unfolding eq using False len il by (simp add: nth_append)
  qed
qed

section \<open>Properties\<close>

text \<open>
  C26: routing. On a well-formed internal page \<^verbatim>\<open>find_child_index\<close> never panics, and the child
  it names has every separator up to the search key on its left (an equal separator routes
  right) and every greater one on its right.
\<close>

theorem find_child_index_routes:
  assumes "body p = Internal ks cs" and "page_inv E p"
  shows "\<exists>i < length cs. find_child_index p k = Ok (Some (ChildIndex i, cs ! i)) \<and>
    find_child p k = Ok (child_at (body p) (ChildIndex i)) \<and>
    (\<forall>j < i. ks ! j \<le> k) \<and> (\<forall>j. i \<le> j \<and> j < length ks \<longrightarrow> k < ks ! j)"
proof (intro exI conjI)
  let ?i = "route_pos k ks"
  note i = internal_invD [OF assms]
  show len: "?i < length cs" using route_pos_le [of k ks] i(2) by simp
  show "find_child_index p k = Ok (Some (ChildIndex ?i, cs ! ?i))"
    by (rule find_child_index_eq [OF assms])
  show "find_child p k = Ok (child_at (body p) (ChildIndex ?i))"
    using len by (simp add: find_child_eq [OF assms] assms(1) vec_get_def)
  show "\<forall>j < ?i. ks ! j \<le> k" by (simp add: route_pos_below)
  show "\<forall>j. ?i \<le> j \<and> j < length ks \<longrightarrow> k < ks ! j"
    using route_pos_above [OF keys_ok_sorted [OF i(1)]] by blast
qed

lemma find_child_index_routes_witness:
  "\<exists>i < 4. find_child_index (demo_internal 5 [10, 20, 30] [6, 7, 8, 9]) (IntegerK 20) =
    Ok (Some (ChildIndex i, map demo_id [6, 7, 8, 9] ! i))"
  using find_child_index_routes [of "demo_internal 5 [10, 20, 30] [6, 7, 8, 9]"
      "map IntegerK [10, 20, 30]" "map demo_id [6, 7, 8, 9]" demo_env "IntegerK 20"]
  by auto

text \<open>
  C19: what \<^verbatim>\<open>internal_insert\<close> does to routing, the step by which a split becomes visible.
  When it succeeds, the search keys that went to the child on the separator's left and are at
  least the separator now go to the new child, and every other search key goes where it went.
\<close>

theorem internal_insert_routes:
  assumes "body p = Internal ks cs" and "page_inv E p"
    and "internal_insert E p sep c = (Ok (), p')"
  shows "page_inv E p' \<and>
    find_child p' k =
      (if ins_pos sep ks = route_pos k ks \<and> sep \<le> k then Ok (Some c) else find_child p k)"
proof -
  note i = internal_invD [OF assms(1,2)]
  let ?i = "ins_pos sep ks"
  let ?ks = "take ?i ks @ sep # drop ?i ks" and ?cs = "take (?i + 1) cs @ c # drop (?i + 1) cs"
  have ok: "key_fits E sep" "sep \<notin> set ks" "keys_size E ks + internal_entry_size E sep \<le> INTERNAL_USABLE"
    and p': "p' = p\<lparr>body := Internal ?ks ?cs\<rparr>"
    using assms(3) by (auto simp: internal_insert_eq [OF assms(1,2)] Let_def split: if_splits)
  have b': "body p' = Internal ?ks ?cs" by (simp only: p') simp
  have inv': "page_inv E p'"
    unfolding page_inv_internal [OF b'] sum_list_insert
    using keys_insert_ok [OF i(1) ok(1,2) refl] ok(3) i(2) ins_pos_le [of sep ks] by simp
  show ?thesis
    unfolding find_child_eq [OF b' inv'] find_child_eq [OF assms(1,2)]
      route_insert [OF keys_ok_sorted [OF i(1)] ok(2) refl i(2)]
    using inv' by auto
qed

lemma internal_insert_routes_witness:
  "\<exists>p'. find_child p' (IntegerK 27) = Ok (Some (demo_id 50)) \<and>
    find_child p' (IntegerK 21) = Ok (Some (demo_id 8)) \<and>
    internal_insert demo_env (demo_internal 5 [10, 20, 30] [6, 7, 8, 9]) (IntegerK 25) (demo_id 50)
      = (Ok (), p')"
proof -
  let ?p = "demo_internal 5 [10, 20, 30] [6, 7, 8, 9]"
  have b: "body ?p = Internal (map IntegerK [10, 20, 30]) (map demo_id [6, 7, 8, 9])" by simp
  have inv: "page_inv demo_env ?p" by simp
  obtain p' where p': "internal_insert demo_env ?p (IntegerK 25) (demo_id 50) = (Ok (), p')"
    by (simp add: internal_insert_eq [OF b inv] layout_simps Let_def)
  have "find_child p' (IntegerK 27) = Ok (Some (demo_id 50))"
    "find_child p' (IntegerK 21) = Ok (Some (demo_id 8))"
    using internal_insert_routes [OF b inv p', of "IntegerK 27"]
      internal_insert_routes [OF b inv p', of "IntegerK 21"]
    by (simp_all add: find_child_eq [OF b inv] ins_pos_def route_pos_def less_eq_key_def)
  then show ?thesis using p' by blast
qed

text \<open>
  \<^verbatim>\<open>internal_remove\<close> undoes \<^verbatim>\<open>internal_insert\<close>: removing the separator just inserted
  returns it with its right child and leaves the page as it was before; a key that is not in the
  page is reported as absent and changes nothing.
\<close>

theorem internal_insert_remove_roundtrip:
  assumes "body p = Internal ks cs" and "page_inv E p"
  shows "(internal_insert E p sep c = (Ok (), p') \<longrightarrow>
      internal_remove E p' sep = (Ok (Some (sep, c)), p)) \<and>
    (sep \<notin> set ks \<longrightarrow> internal_remove E p sep = (Ok None, p))"
proof (intro conjI impI)
  note i = internal_invD [OF assms(1,2)]
  let ?i = "ins_pos sep ks"
  let ?ks = "take ?i ks @ sep # drop ?i ks" and ?cs = "take (?i + 1) cs @ c # drop (?i + 1) cs"
  show "sep \<notin> set ks \<Longrightarrow> internal_remove E p sep = (Ok None, p)"
    by (simp add: internal_remove_eq [OF assms])
  assume ins: "internal_insert E p sep c = (Ok (), p')"
  then have ok: "sep \<notin> set ks" and p': "p' = p\<lparr>body := Internal ?ks ?cs\<rparr>"
    by (auto simp: internal_insert_eq [OF assms] Let_def split: if_splits)
  have b': "body p' = Internal ?ks ?cs" by (simp only: p') simp
  have restore: "p'\<lparr>body := Internal ks cs\<rparr> = p" using assms(1) by (cases p) (simp add: p')
  have inv': "page_inv E p'" using internal_insert_routes [OF assms ins] by blast
  have il: "?i \<le> length ks" by (rule ins_pos_le)
  have pos: "ins_pos sep ?ks = ?i"
    using il ins_pos_less [of _ sep ks] by (intro ins_pos_eqI) (auto simp: nth_append)
  have lists: "take ?i ?ks @ drop (Suc ?i) ?ks = ks" "?cs ! (?i + 1) = c"
    "take (?i + 1) ?cs @ drop (?i + 2) ?cs = cs"
    using il i(2) by (simp_all add: nth_append)
  have "sep \<in> set ?ks" by simp
  then show "internal_remove E p' sep = (Ok (Some (sep, c)), p)"
    unfolding internal_remove_eq [OF b' inv'] pos Let_def lists restore by simp
qed

lemma internal_insert_remove_roundtrip_witness:
  "\<exists>p'. internal_insert demo_env (demo_internal 5 [10, 20] [6, 7, 8]) (IntegerK 15) (demo_id 50)
      = (Ok (), p') \<and>
    internal_remove demo_env p' (IntegerK 15)
      = (Ok (Some (IntegerK 15, demo_id 50)), demo_internal 5 [10, 20] [6, 7, 8])"
proof -
  let ?p = "demo_internal 5 [10, 20] [6, 7, 8]"
  have b: "body ?p = Internal (map IntegerK [10, 20]) (map demo_id [6, 7, 8])" by simp
  have inv: "page_inv demo_env ?p" by simp
  obtain p' where p': "internal_insert demo_env ?p (IntegerK 15) (demo_id 50) = (Ok (), p')"
    by (simp add: internal_insert_eq [OF b inv] layout_simps Let_def)
  then show ?thesis using internal_insert_remove_roundtrip [OF b inv] by blast
qed

text \<open>
  \<^verbatim>\<open>internal_replace_key\<close> succeeds exactly when the old separator is present and the page
  with the new one in its place is again well-formed; then only that separator changes. Each
  failure names its cause and changes nothing.
\<close>

theorem internal_replace_key_correct:
  assumes "body p = Internal ks cs" and "page_inv E p" and "key_fits E new"
  shows "let i = ins_pos old ks; q = p\<lparr>body := Internal (ks[i := new]) cs\<rparr> in
    internal_replace_key E p old new =
      (if old \<in> set ks \<and> page_inv E q then (Ok (), q)
       else (Err (if old \<notin> set ks then MissingKey old new
             else if \<not> keys_ok E (ks[i := new]) then KeyNotInOrder new else PageFull), p))"
proof -
  let ?q = "p\<lparr>body := Internal (ks[ins_pos old ks := new]) cs\<rparr>"
  have "page_inv E ?q \<longleftrightarrow> keys_size E (ks[ins_pos old ks := new]) \<le> INTERNAL_USABLE \<and>
      keys_ok E (ks[ins_pos old ks := new])"
    using internal_invD(2) [OF assms(1,2)] by (simp add: page_inv_internal [of ?q, simplified])
  then show ?thesis
    unfolding internal_replace_eq [OF assms] Let_def by (simp add: not_le [symmetric])
qed

lemma internal_replace_key_correct_witness:
  "internal_replace_key demo_env (demo_internal 5 [10, 20, 30] [6, 7, 8, 9]) (IntegerK 20) (IntegerK 25)
      = (Ok (), demo_internal 5 [10, 25, 30] [6, 7, 8, 9]) \<and>
   internal_replace_key demo_env (demo_internal 5 [10, 20, 30] [6, 7, 8, 9]) (IntegerK 20) (IntegerK 30)
      = (Err (KeyNotInOrder (IntegerK 30)), demo_internal 5 [10, 20, 30] [6, 7, 8, 9])"
  using internal_replace_key_correct [of "demo_internal 5 [10, 20, 30] [6, 7, 8, 9]"
      "map IntegerK [10, 20, 30]" "map demo_id [6, 7, 8, 9]" demo_env "IntegerK 25" "IntegerK 20"]
    internal_replace_key_correct [of "demo_internal 5 [10, 20, 30] [6, 7, 8, 9]"
      "map IntegerK [10, 20, 30]" "map demo_id [6, 7, 8, 9]" demo_env "IntegerK 30" "IntegerK 20"]
  by (simp add: ins_pos_def page_inv_iff keys_ok_def layout_simps demo_internal_def empty_page_def)

end
