(* ===== verification/Meta_Page.thy ===== *)
theory Meta_Page
  imports Demo_Pages
begin

text \<open>
  \<^verbatim>\<open>src/page/meta.rs\<close>: the table's metadata page and the list of free pages it heads. The free
  list is a stack: \<open>free_chain\<close> reads it off the pages it runs through, and the two list
  operations are shown to push and pop it.
\<close>

section \<open>Accessors\<close>

definition meta_get_root_id :: "page \<Rightarrow> (page_id, page_error) result" where
  "meta_get_root_id p =
     (case body p of Meta root_id _ _ _ _ \<Rightarrow> Ok root_id | _ \<Rightarrow> Err WrongPageType)"

definition meta_set_root_id :: "page \<Rightarrow> page_id \<Rightarrow> unit page_op" where
  "meta_set_root_id p pid =
     (case body p of
       Meta _ page_count flh schema name \<Rightarrow>
         (Ok (), p\<lparr>body := Meta pid page_count flh schema name\<rparr>)
     | _ \<Rightarrow> (Err WrongPageType, p))"

definition meta_get_page_count :: "page \<Rightarrow> (nat, page_error) result" where
  "meta_get_page_count p =
     (case body p of Meta _ page_count _ _ _ \<Rightarrow> Ok (unat page_count) | _ \<Rightarrow> Err WrongPageType)"

definition meta_set_page_count :: "page \<Rightarrow> 32 word \<Rightarrow> unit page_op" where
  "meta_set_page_count p new_count =
     (case body p of
       Meta root_id _ flh schema name \<Rightarrow>
         (Ok (), p\<lparr>body := Meta root_id new_count flh schema name\<rparr>)
     | _ \<Rightarrow> (Err WrongPageType, p))"

definition meta_get_schema :: "page \<Rightarrow> (schema, page_error) result" where
  "meta_get_schema p =
     (case body p of Meta _ _ _ schema _ \<Rightarrow> Ok schema | _ \<Rightarrow> Err WrongPageType)"

definition meta_get_table_name :: "page \<Rightarrow> (rstring, page_error) result" where
  "meta_get_table_name p =
     (case body p of Meta _ _ _ _ name \<Rightarrow> Ok name | _ \<Rightarrow> Err WrongPageType)"

definition meta_get_free_list_head :: "page \<Rightarrow> (page_id option, page_error) result" where
  "meta_get_free_list_head p =
     (case body p of Meta _ _ flh _ _ \<Rightarrow> Ok flh | _ \<Rightarrow> Err WrongPageType)"

definition meta_set_free_list_head :: "page \<Rightarrow> page_id option \<Rightarrow> page_id option page_op" where
  "meta_set_free_list_head p new_head =
     (case body p of
       Meta root_id page_count old_head schema name \<Rightarrow>
         (Ok old_head, p\<lparr>body := Meta root_id page_count new_head schema name\<rparr>)
     | _ \<Rightarrow> (Err WrongPageType, p))"

text \<open>
  \<^verbatim>\<open>*page_count += 1\<close> on a \<^verbatim>\<open>u32\<close>: a build with overflow checks (the profiles that have
  \<^verbatim>\<open>debug_assertions\<close>) panics at the largest count, the others wrap to 0.
\<close>

definition meta_bump_page_count :: "env \<Rightarrow> page \<Rightarrow> page_id page_op" where
  "meta_bump_page_count E p =
     (case body p of
       Meta root_id page_count flh schema name \<Rightarrow>
         let new_page_id = PageId (get_table_id root_id) page_count in
         if page_count = - 1 \<and> debug_assertions E then (Panic, p)
         else (Ok new_page_id, p\<lparr>body := Meta root_id (page_count + 1) flh schema name\<rparr>)
     | _ \<Rightarrow> (Err WrongPageType, p))"

section \<open>The free list\<close>

definition free_list_pop :: "env \<Rightarrow> page \<Rightarrow> page \<Rightarrow> page_id page_op" where
  "free_list_pop E p page =
     (case (body p, body page) of
       (Meta root_id page_count flh schema name, Free next) \<Rightarrow>
         if flh \<noteq> Some (pg_id page) then (Err (NotFreeListHead flh (pg_id page)), p)
         else let p' = p\<lparr>body := Meta root_id page_count next schema name\<rparr>
           in (debug_check_invariants E p' (Ok (pg_id page)), p')
     | _ \<Rightarrow> (Err WrongPageType, p))"

definition free_list_push ::
  "env \<Rightarrow> page \<Rightarrow> page \<Rightarrow> (unit, page_error) result \<times> page \<times> page" where
  "free_list_push E p freed =
     (case (body p, body freed) of
       (Meta root_id page_count flh schema name, Free _) \<Rightarrow>
         let pid = pg_id freed in
         if get_table_id pid \<noteq> get_table_id root_id then (Err (WrongTable pid), p, freed)
         else if get_page_num pid = 0 then (Err ReservedPage, p, freed)
         else if get_page_num pid \<ge> page_count then (Err (PageOutOfRange pid), p, freed)
         else if flh = Some pid then (Err (AlreadyFree pid), p, freed)
         else
           let freed' = freed\<lparr>body := Free flh\<rparr>;
               p' = p\<lparr>body := Meta root_id page_count (Some pid) schema name\<rparr>
           in (debug_check_invariants E p' (Ok ()), p', freed')
     | _ \<Rightarrow> (Err WrongPageType, p, freed))"

definition free_next :: "page \<Rightarrow> (page_id option, page_error) result" where
  "free_next p = (case body p of Free next \<Rightarrow> Ok next | _ \<Rightarrow> Err WrongPageType)"

section \<open>The list the pages hold\<close>

text \<open>
  \<open>free_chain st h ids\<close>: following the free pages of \<open>st\<close> from \<open>h\<close> visits exactly \<open>ids\<close>.
\<close>

fun free_chain :: "(page_id \<Rightarrow> page option) \<Rightarrow> page_id option \<Rightarrow> page_id list \<Rightarrow> bool" where
  "free_chain st h [] \<longleftrightarrow> h = None"
| "free_chain st h (x # xs) \<longleftrightarrow> h = Some x \<and>
     (case st x of
       Some pg \<Rightarrow> pg_id pg = x \<and>
         (case body pg of Free next \<Rightarrow> free_chain st next xs | _ \<Rightarrow> False)
     | None \<Rightarrow> False)"

lemma free_chain_upd_other:
  "x \<notin> set ids \<Longrightarrow> free_chain (st(x := v)) h ids \<longleftrightarrow> free_chain st h ids"
  by (induction ids arbitrary: h) (auto split: option.splits page_body.splits)

text \<open>The pages of a chain are pairwise different: from equal pages on, equal tails follow.\<close>

lemma free_chain_unique: "free_chain st h xs \<Longrightarrow> free_chain st h ys \<Longrightarrow> xs = ys"
proof (induction xs arbitrary: h ys)
  case Nil
  then show ?case by (cases ys) auto
next
  case (Cons x xs)
  then show ?case by (cases ys) (auto split: option.splits page_body.splits)
qed

lemma free_chain_suffix: "free_chain st h (xs @ y # ys) \<Longrightarrow> free_chain st (Some y) (y # ys)"
proof (induction xs arbitrary: h)
  case Nil
  then show ?case by auto
next
  case (Cons x xs)
  then obtain h' where "free_chain st h' (xs @ y # ys)"
    by (auto split: option.splits page_body.splits)
  then show ?case by (rule Cons.IH)
qed

lemma free_chain_distinct: "free_chain st h ids \<Longrightarrow> distinct ids"
proof (rule ccontr)
  assume chain: "free_chain st h ids" and "\<not> distinct ids"
  then obtain xs ys zs y where ids: "ids = xs @ [y] @ ys @ [y] @ zs"
    using not_distinct_decomp by blast
  have "free_chain st (Some y) (y # ys @ y # zs)"
    using free_chain_suffix [of st h xs y "ys @ y # zs"] chain by (simp add: ids)
  moreover have "free_chain st (Some y) (y # zs)"
    using free_chain_suffix [of st h "xs @ y # ys" y zs] chain by (simp add: ids)
  ultimately show False using free_chain_unique by fastforce
qed

lemma page_inv_meta:
  "body p = Meta r c flh s nm \<Longrightarrow>
    page_inv E p \<longleftrightarrow> used_size E (body p) \<le> PAGE_SIZE \<and>
      (\<forall>x \<in> set_option flh. get_page_num x < c) \<and> length nm \<le> 65535"
  by (simp add: page_inv_iff)

section \<open>Properties\<close>

text \<open>
  C28: pushing a page on the free list. On a well-formed meta page whose list runs through
  \<open>ids\<close>, a free page that is not yet in the list, belongs to the table and has a number that is
  in use is accepted, becomes the new head and links to the old one; both pages stay
  well-formed and no invariant check panics.
\<close>

theorem free_list_push_pushes:
  assumes "body p = Meta root count flh s nm" and "page_inv E p" and "is_free freed"
    and "get_table_id (pg_id freed) = get_table_id root"
    and "0 < get_page_num (pg_id freed)" and "get_page_num (pg_id freed) < count"
    and "free_chain st flh ids" and "pg_id freed \<notin> set ids"
  shows "\<exists>p' freed'. free_list_push E p freed = (Ok (), p', freed') \<and> page_inv E p' \<and>
    page_inv E freed' \<and> meta_get_free_list_head p' = Ok (Some (pg_id freed)) \<and>
    free_chain (st(pg_id freed \<mapsto> freed')) (Some (pg_id freed)) (pg_id freed # ids)"
proof -
  obtain n where n: "body freed = Free n" using assms(3) by (rule body_kindE(4))
  let ?p = "p\<lparr>body := Meta root count (Some (pg_id freed)) s nm\<rparr>"
  let ?f = "freed\<lparr>body := Free flh\<rparr>"
  have head: "flh \<noteq> Some (pg_id freed)"
    using assms(7,8) by (cases ids) auto
  have inv: "page_inv E ?p"
    using assms(2,6) by (simp add: page_inv_meta [OF assms(1)] page_inv_meta [of ?p, simplified] assms(1))
  have "free_list_push E p freed = (Ok (), ?p, ?f)"
    using assms(4-6) head inv by (simp add: free_list_push_def assms(1) n Let_def not_le)
  moreover have "free_chain (st(pg_id freed \<mapsto> ?f)) flh ids"
    using assms(7,8) by (simp add: free_chain_upd_other)
  ultimately show ?thesis using inv by (simp add: meta_get_free_list_head_def)
qed

lemma free_list_push_pushes_witness:
  "\<exists>p' freed'. free_list_push demo_env (demo_meta 9 None) (demo_free 4 None) = (Ok (), p', freed') \<and>
    free_chain ((\<lambda>_. None)(demo_id 4 \<mapsto> freed')) (Some (demo_id 4)) [demo_id 4]"
  using free_list_push_pushes [of "demo_meta 9 None" "demo_id 1" 9 None demo_schema "[116]" demo_env
      "demo_free 4 None" "\<lambda>_. None" "[]"]
  by (auto simp: is_free_def)

text \<open>
  C29: popping the free list. With the head page at hand, \<^verbatim>\<open>free_list_pop\<close> returns the head and
  leaves a meta page whose list is the rest; with any other free page it reports the true head
  and changes nothing.
\<close>

theorem free_list_pop_pops:
  assumes "body p = Meta root count flh s nm" and "page_inv E p"
    and "free_chain st flh (x # ids)" and "st x = Some pg"
    and "\<forall>y \<in> set ids. get_page_num y < count"
  shows "(\<exists>p'. free_list_pop E p pg = (Ok x, p') \<and> page_inv E p' \<and>
      (\<exists>h. meta_get_free_list_head p' = Ok h \<and> free_chain st h ids)) \<and>
    (\<forall>other. is_free other \<longrightarrow> pg_id other \<noteq> x \<longrightarrow>
      free_list_pop E p other = (Err (NotFreeListHead (Some x) (pg_id other)), p))"
proof -
  obtain n where n: "flh = Some x" "pg_id pg = x" "body pg = Free n" "free_chain st n ids"
    using assms(3,4) by (auto split: page_body.splits)
  let ?p = "p\<lparr>body := Meta root count n s nm\<rparr>"
  have "\<forall>y \<in> set_option n. get_page_num y < count"
    using n(4) assms(5) by (cases ids) auto
  then have inv: "page_inv E ?p"
    using assms(2) by (simp add: page_inv_meta [OF assms(1)] page_inv_meta [of ?p, simplified] assms(1))
  then have "free_list_pop E p pg = (Ok x, ?p)"
    by (simp add: free_list_pop_def assms(1) n Let_def)
  moreover have "free_list_pop E p other = (Err (NotFreeListHead (Some x) (pg_id other)), p)"
    if "is_free other" "pg_id other \<noteq> x" for other
    using that n(1) by (auto simp: free_list_pop_def assms(1) elim!: body_kindE(4))
  ultimately show ?thesis using inv n(4) by (simp add: meta_get_free_list_head_def)
qed

lemma free_list_pop_pops_witness:
  "\<exists>p'. free_list_pop demo_env (demo_meta 9 (Some 4)) (demo_free 4 (Some 6)) = (Ok (demo_id 4), p') \<and>
    page_inv demo_env p'"
  using free_list_pop_pops [of "demo_meta 9 (Some 4)" "demo_id 1" 9 "Some (demo_id 4)" demo_schema
      "[116]" demo_env "[demo_id 4 \<mapsto> demo_free 4 (Some 6), demo_id 6 \<mapsto> demo_free 6 None]"
      "demo_id 4" "[demo_id 6]" "demo_free 4 (Some 6)"]
  by auto

text \<open>
  Allocating a page number. Below the largest count \<^verbatim>\<open>meta_bump_page_count\<close> hands out the
  current count as the next page number, which is larger than every number handed out before,
  and leaves a well-formed page with the count one higher. At the largest count a build with
  overflow checks panics and one without wraps to a count of zero.
\<close>

theorem meta_bump_page_count_correct:
  assumes "body p = Meta root count flh s nm" and "page_inv E p"
  shows "(count \<noteq> - 1 \<longrightarrow> (\<exists>p'. meta_bump_page_count E p = (Ok (PageId (get_table_id root) count), p') \<and>
      page_inv E p' \<and> meta_get_page_count p' = Ok (unat count + 1))) \<and>
    (count = - 1 \<longrightarrow> (if debug_assertions E then meta_bump_page_count E p = (Panic, p)
      else \<exists>p'. meta_bump_page_count E p = (Ok (PageId (get_table_id root) (- 1)), p') \<and>
        meta_get_page_count p' = Ok 0))"
proof (intro conjI impI)
  assume c: "count \<noteq> - 1"
  let ?p = "p\<lparr>body := Meta root (count + 1) flh s nm\<rparr>"
  have u: "unat (count + 1) = unat count + 1"
    using c unatSuc [of count] by (simp add: add.commute add_eq_0_iff)
  have "get_page_num x < count + 1" if "get_page_num x < count" for x
    using that u by (simp add: word_less_nat_alt)
  then have "page_inv E ?p"
    using assms(2) by (simp add: page_inv_meta [OF assms(1)] page_inv_meta [of ?p, simplified] assms(1))
  then show "\<exists>p'. meta_bump_page_count E p = (Ok (PageId (get_table_id root) count), p') \<and>
      page_inv E p' \<and> meta_get_page_count p' = Ok (unat count + 1)"
    using c u by (simp add: meta_bump_page_count_def assms(1) meta_get_page_count_def Let_def)
qed (simp add: meta_bump_page_count_def assms(1) meta_get_page_count_def Let_def)

lemma meta_bump_page_count_correct_witness:
  "\<exists>p'. meta_bump_page_count demo_env (demo_meta 9 None) = (Ok (demo_id 9), p') \<and>
    meta_get_page_count p' = Ok 10"
  using meta_bump_page_count_correct [of "demo_meta 9 None" "demo_id 1" 9 None demo_schema "[116]" demo_env]
  by (auto simp: demo_id_def)

text \<open>
  a double free that is not of the head goes unnoticed. \<^verbatim>\<open>free_list_push\<close> compares the freed
  page with the head only; pushing the second page of the list again succeeds, on a well-formed
  meta page with every other check passed, and the list is then a cycle: no finite list of
  pages is the free list any more.
\<close>

theorem double_free_makes_cycle:
  assumes "body p = Meta root count flh s nm" and "page_inv E p"
    and "free_chain st flh (h # x # ids)" and "st x = Some freed"
    and "get_table_id x = get_table_id root" and "0 < get_page_num x" and "get_page_num x < count"
  shows "\<exists>p' freed'. free_list_push E p freed = (Ok (), p', freed') \<and> page_inv E p' \<and>
    meta_get_free_list_head p' = Ok (Some x) \<and>
    \<not> (\<exists>chain. free_chain (st(x \<mapsto> freed')) (Some x) chain)"
proof -
  obtain hp where h: "flh = Some h" "st h = Some hp" "pg_id hp = h" "body hp = Free (Some x)"
    using assms(3) by (auto split: option.splits page_body.splits)
  obtain n where f: "pg_id freed = x" "body freed = Free n"
    using assms(3,4) by (auto split: option.splits page_body.splits)
  have hx: "h \<noteq> x" using free_chain_distinct [OF assms(3)] by auto
  let ?p = "p\<lparr>body := Meta root count (Some x) s nm\<rparr>" and ?f = "freed\<lparr>body := Free flh\<rparr>"
  have inv: "page_inv E ?p"
    using assms(2,7) by (simp add: page_inv_meta [OF assms(1)] page_inv_meta [of ?p, simplified] assms(1))
  have push: "free_list_push E p freed = (Ok (), ?p, ?f)"
    using assms(5-7) hx inv by (simp add: free_list_push_def assms(1) f h(1) Let_def not_le)
  have "\<not> free_chain (st(x \<mapsto> ?f)) (Some x) chain" for chain
  proof
    assume c: "free_chain (st(x \<mapsto> ?f)) (Some x) chain"
    then obtain c1 where c1: "chain = x # c1" "free_chain (st(x \<mapsto> ?f)) (Some h) c1"
      using h(1) by (cases chain) auto
    then obtain c2 where "c1 = h # c2" "free_chain (st(x \<mapsto> ?f)) (Some x) c2"
      using h hx by (cases c1) auto
    then show False
      using free_chain_unique [OF c, of c2] c1(1) by simp
  qed
  then show ?thesis using push inv by (auto simp: meta_get_free_list_head_def)
qed

lemma double_free_makes_cycle_witness:
  "\<exists>p' freed'. free_list_push demo_env (demo_meta 9 (Some 4)) (demo_free 6 None) = (Ok (), p', freed') \<and>
    \<not> (\<exists>chain. free_chain ([demo_id 4 \<mapsto> demo_free 4 (Some 6), demo_id 6 \<mapsto> freed']) (Some (demo_id 6)) chain)"
  using double_free_makes_cycle [of "demo_meta 9 (Some 4)" "demo_id 1" 9 "Some (demo_id 4)" demo_schema
      "[116]" demo_env "[demo_id 4 \<mapsto> demo_free 4 (Some 6), demo_id 6 \<mapsto> demo_free 6 None]"
      "demo_id 4" "demo_id 6" "[]" "demo_free 6 None"]
  by auto

end
