(* ===== verification/Page_Ops.thy ===== *)
theory Page_Ops
  imports Leaf_Siblings Internal_Correct Meta_Page
begin

text \<open>
  The operations of \<^verbatim>\<open>src/page/mod.rs\<close> that work on every kind of page: \<^verbatim>\<open>new_root\<close>,
  \<^verbatim>\<open>split_page\<close>, the dispatchers for merging and borrowing, and the two bulk borrow loops, with
  the proof that the loops end.
\<close>

definition new_root ::
  "env \<Rightarrow> page_id \<Rightarrow> page_id \<Rightarrow> key \<Rightarrow> page_id \<Rightarrow> (page, page_error) result" where
  "new_root E pid left separator right =
     (let page = empty_page pid (Internal [separator] [left, right])
      in debug_check_invariants E page (Ok page))"

section \<open>Splitting\<close>

text \<open>
  The index a split starts from: the first entry at which the running size reaches half of the
  total. \<open>None\<close> is the \<^verbatim>\<open>unwrap\<close> of a position that does not exist.
\<close>

definition split_point :: "nat list \<Rightarrow> nat option" where
  "split_point sizes =
     (let split_size = sum_list sizes div 2
      in position (\<lambda>total. total \<ge> split_size) (running_sums 0 sizes))"

definition split_page :: "env \<Rightarrow> page \<Rightarrow> page_id \<Rightarrow> (key \<times> page) page_op" where
  "split_page E p new_page_id =
     (case body p of
       Internal keys children \<Rightarrow>
         if length keys < 3 then (Err (TooSmallToSplit (pg_id p)), p)
         else
           (case rbind (expect (split_point (map (internal_entry_size E) keys))) (\<lambda>sp.
               rbind (clamp (sp + 1) 1 (length keys - 2)) (\<lambda>at.
               rbind (split_off at keys) (\<lambda>(keys', new_keys).
               rbind (split_off (at + 1) children) (\<lambda>(children', new_children).
               rbind (vec_remove 0 new_keys) (\<lambda>(split_key, new_keys').
                 Ok (keys', children', split_key, new_keys', new_children)))))) of
             Ok (keys', children', split_key, new_keys', new_children) \<Rightarrow>
               let p' = p\<lparr>body := Internal keys' children'\<rparr>;
                   new_page = empty_page new_page_id (Internal new_keys' new_children)
               in (debug_check_invariants E p'
                    (debug_check_invariants E new_page (Ok (split_key, new_page))), p')
           | Err e \<Rightarrow> (Err e, p)
           | Panic \<Rightarrow> (Panic, p))
     | Leaf records next prev \<Rightarrow>
         if length records < 2 then (Err (TooSmallToSplit (pg_id p)), p)
         else
           (case rbind (expect (split_point (map (leaf_entry_size E) records))) (\<lambda>sp.
               rbind (clamp (sp + 1) 1 (length records - 1)) (\<lambda>at. split_off at records)) of
             Ok (records', new_records) \<Rightarrow>
               (case rbind (ok_or InvariantViolated (vec_first new_records)) (\<lambda>r.
                   rbind (ok_or InvariantViolated (vec_first (row_fields r))) (\<lambda>v.
                     map_err (\<lambda>_. InvariantViolated) (key_try_from v))) of
                 Ok split_key \<Rightarrow>
                   let new_page =
                         empty_page new_page_id (Leaf new_records next (Some (pg_id p)));
                       p' = p\<lparr>body := Leaf records' (Some new_page_id) prev\<rparr>
                   in (debug_check_invariants E p'
                        (debug_check_invariants E new_page (Ok (split_key, new_page))), p')
               | Err e \<Rightarrow> (Err e, p\<lparr>body := Leaf records' next prev\<rparr>)
               | Panic \<Rightarrow> (Panic, p))
           | Err e \<Rightarrow> (Err e, p)
           | Panic \<Rightarrow> (Panic, p))
     | _ \<Rightarrow> (Err WrongPageType, p))"

section \<open>Dispatch\<close>

definition can_merge_with :: "env \<Rightarrow> page \<Rightarrow> page \<Rightarrow> key \<Rightarrow> bool" where
  "can_merge_with E p other separator \<longleftrightarrow>
     (if is_internal p then internal_can_merge_with E p other separator
      else leaf_can_merge_with E p other)"

definition merge_from_right ::
  "env \<Rightarrow> page \<Rightarrow> page \<Rightarrow> key \<Rightarrow> (page_id, page_error) result \<times> page \<times> page" where
  "merge_from_right E p right separator =
     (if is_internal p then internal_merge_from_right E p right separator
      else leaf_merge_from_right E p right)"

definition borrow_from_right ::
  "env \<Rightarrow> page \<Rightarrow> page \<Rightarrow> key \<Rightarrow> (key, page_error) result \<times> page \<times> page" where
  "borrow_from_right E p right parent_sep =
     (if is_internal p then internal_borrow_from_right E p right parent_sep
      else leaf_borrow_from_right E p right)"

definition borrow_from_left ::
  "env \<Rightarrow> page \<Rightarrow> page \<Rightarrow> key \<Rightarrow> (key, page_error) result \<times> page \<times> page" where
  "borrow_from_left E p left parent_sep =
     (if is_internal p then internal_borrow_from_left E p left parent_sep
      else leaf_borrow_from_left E p left)"

text \<open>\<^verbatim>\<open>Page::replace\<close>: the page becomes the other page, identifier included.\<close>

definition page_replace :: "page \<Rightarrow> page \<Rightarrow> page" where
  "page_replace p other = other"

section \<open>Bulk borrowing\<close>

text \<open>
  One successful move takes an entry from the donor; that is why the loops end. It holds of all
  pages, well-formed or not, for a build with or without assertions.
\<close>

lemma debug_check_Ok: "debug_check_invariants E p r = Ok x \<Longrightarrow> r = Ok x"
  by (simp add: debug_check_invariants_def split: if_splits)

lemma borrow_from_right_shrinks:
  assumes "borrow_from_right E p q sep = (Ok k, p', q')"
  shows "num_items q' < num_items q"
proof (cases "is_internal p")
  case True
  then show ?thesis
    using assms
    by (auto simp: borrow_from_right_def internal_borrow_from_right_def num_items_def Let_def
        vec_first_def split: page_body.splits option.splits if_splits list.splits)
next
  case False
  then show ?thesis
    using assms
    by (auto simp: borrow_from_right_def leaf_borrow_from_right_def num_items_def Let_def
        split: page_body.splits option.splits if_splits list.splits result.splits)
qed

lemma borrow_from_left_shrinks:
  assumes "borrow_from_left E p q sep = (Ok k, p', q')"
  shows "num_items q' < num_items q"
proof (cases "is_internal p")
  case True
  then show ?thesis
    using assms
    by (auto simp: borrow_from_left_def internal_borrow_from_left_def num_items_def Let_def
        vec_last_def split: page_body.splits option.splits if_splits)
next
  case False
  then show ?thesis
    using assms
    by (auto simp: borrow_from_left_def leaf_borrow_from_left_def num_items_def Let_def
        split: page_body.splits option.splits if_splits result.splits)
qed

text \<open>The \<^verbatim>\<open>while\<close> loop of \<^verbatim>\<open>bulk_borrow_from_right\<close>, after the first move.\<close>

function bulk_right_loop ::
  "env \<Rightarrow> page \<Rightarrow> page \<Rightarrow> key \<Rightarrow> (key, page_error) result \<times> page \<times> page" where
  "bulk_right_loop E p right sep =
     (if entries_size E p < entries_size E right then
        (case borrow_from_right E p right sep of
          (Ok new_sep, p', right') \<Rightarrow> bulk_right_loop E p' right' new_sep
        | (Err PageFull, p', right') \<Rightarrow> (Ok sep, p', right')
        | (Err (InvalidBorrow _), p', right') \<Rightarrow> (Ok sep, p', right')
        | (Err e, p', right') \<Rightarrow> (Err e, p', right')
        | (Panic, p', right') \<Rightarrow> (Panic, p', right'))
      else (Ok sep, p, right))"
  by pat_completeness auto
termination
  by (relation "measure (\<lambda>(E, p, right, sep). num_items right)")
    (auto dest: borrow_from_right_shrinks [OF sym])

function bulk_left_loop ::
  "env \<Rightarrow> page \<Rightarrow> page \<Rightarrow> key \<Rightarrow> (key, page_error) result \<times> page \<times> page" where
  "bulk_left_loop E p left sep =
     (if entries_size E p < entries_size E left then
        (case borrow_from_left E p left sep of
          (Ok new_sep, p', left') \<Rightarrow> bulk_left_loop E p' left' new_sep
        | (Err PageFull, p', left') \<Rightarrow> (Ok sep, p', left')
        | (Err (InvalidBorrow _), p', left') \<Rightarrow> (Ok sep, p', left')
        | (Err e, p', left') \<Rightarrow> (Err e, p', left')
        | (Panic, p', left') \<Rightarrow> (Panic, p', left'))
      else (Ok sep, p, left))"
  by pat_completeness auto
termination
  by (relation "measure (\<lambda>(E, p, left, sep). num_items left)")
    (auto dest: borrow_from_left_shrinks [OF sym])

declare bulk_right_loop.simps [simp del] bulk_left_loop.simps [simp del]

definition bulk_borrow_from_right ::
  "env \<Rightarrow> page \<Rightarrow> page \<Rightarrow> key \<Rightarrow> (key, page_error) result \<times> page \<times> page" where
  "bulk_borrow_from_right E p right parent_sep =
     (case borrow_from_right E p right parent_sep of
       (Ok sep, p', right') \<Rightarrow> bulk_right_loop E p' right' sep
     | (Err e, p', right') \<Rightarrow> (Err e, p', right')
     | (Panic, p', right') \<Rightarrow> (Panic, p', right'))"

definition bulk_borrow_from_left ::
  "env \<Rightarrow> page \<Rightarrow> page \<Rightarrow> key \<Rightarrow> (key, page_error) result \<times> page \<times> page" where
  "bulk_borrow_from_left E p left parent_sep =
     (case borrow_from_left E p left parent_sep of
       (Ok sep, p', left') \<Rightarrow> bulk_left_loop E p' left' sep
     | (Err e, p', left') \<Rightarrow> (Err e, p', left')
     | (Panic, p', left') \<Rightarrow> (Panic, p', left'))"

end
