(* ===== verification/Page_Split.thy ===== *)
theory Page_Split
  imports Page_Ops
begin

text \<open>
  \<^verbatim>\<open>split_page\<close> on well-formed pages: where it cuts, that the two halves are well-formed and
  hold together exactly what the page held, and that either half then has room for an entry of
  any admissible size, so that the insertion that made the page overflow succeeds after it.
\<close>

section \<open>Where the cut is\<close>

lemma split_point_Some:
  assumes "sizes \<noteq> []"
  obtains sp where "split_point sizes = Some sp" "sp < length sizes"
    "sum_list sizes div 2 \<le> sum_list (take (Suc sp) sizes)"
    "sp = 0 \<or> sum_list (take sp sizes) < sum_list sizes div 2"
proof -
  let ?P = "\<lambda>total. sum_list sizes div 2 \<le> total" and ?rs = "running_sums 0 sizes"
  have "?P (?rs ! (length sizes - 1))"
    using assms by (subst nth_running_sums) auto
  then have "\<exists>x \<in> set ?rs. ?P x" using assms by (metis diff_less length_greater_0_conv
      length_running_sums less_numeral_extra(1) nth_mem)
  then obtain sp where sp: "position ?P ?rs = Some sp"
    unfolding position_None_iff [symmetric] by (metis not_None_eq position_None_iff)
  then have *: "sp < length sizes" "?P (?rs ! sp)" "\<And>j. j < sp \<Longrightarrow> \<not> ?P (?rs ! j)"
    by (auto simp: position_Some_iff)
  have "sp = 0 \<or> sum_list (take sp sizes) < sum_list sizes div 2"
    using *(1) *(3) [of "sp - 1"] by (cases sp) (auto simp: nth_running_sums)
  then show thesis
    using that sp * by (simp add: split_point_def nth_running_sums)
qed

text \<open>
  Cut after the split point, but leave \<open>keep\<close> entries behind the cut: the left part is smaller
  than half of the total plus one entry, and what lies behind the cut, or at least behind the
  \<open>keep - 1\<close> entries that follow it, is at most half of the total rounded up.
\<close>

lemma split_balance:
  fixes sizes :: "nat list"
  assumes sp: "sp < length sizes" "sum_list sizes div 2 \<le> sum_list (take (Suc sp) sizes)"
    "sp = 0 \<or> sum_list (take sp sizes) < sum_list sizes div 2"
    and c: "\<forall>s \<in> set sizes. s \<le> c" and at: "at = min (Suc sp) (length sizes - keep)"
    and keep: "0 < keep" "keep < length sizes"
  shows "sum_list (take at sizes) \<le> sum_list sizes div 2 + c"
    and "sum_list (drop (at + (keep - 1)) sizes) \<le> max (sum_list sizes - sum_list sizes div 2) c"
proof -
  have mono: "sum_list (take a sizes) \<le> sum_list (take b sizes)" if "a \<le> b" for a b
    using that by (metis le_add1 le_add_diff_inverse sum_list_append take_add)
  have s: "sum_list (take (Suc sp) sizes) = sum_list (take sp sizes) + sizes ! sp" "sizes ! sp \<le> c"
    using sp(1) c by (simp_all add: take_Suc_conv_app_nth)
  have "sum_list (take sp sizes) \<le> sum_list sizes div 2" using sp(3) by auto
  then show "sum_list (take at sizes) \<le> sum_list sizes div 2 + c"
    using mono [of at "Suc sp"] at s by simp
  have total: "sum_list (take i sizes) + sum_list (drop i sizes) = sum_list sizes" for i
    by (metis append_take_drop_id sum_list_append)
  show "sum_list (drop (at + (keep - 1)) sizes) \<le> max (sum_list sizes - sum_list sizes div 2) c"
  proof (cases "Suc sp \<le> length sizes - keep")
    case True
    then have "sum_list sizes div 2 \<le> sum_list (take (at + (keep - 1)) sizes)"
      using sp(2) mono [of "Suc sp" "at + (keep - 1)"] at by simp
    then show ?thesis using total [of "at + (keep - 1)"] by simp
  next
    case False
    let ?n = "length sizes - 1"
    have i: "at + (keep - 1) = ?n" using False keep at by simp
    have "drop ?n sizes = [sizes ! ?n]"
      using keep Cons_nth_drop_Suc [of ?n sizes] by simp
    moreover have "sizes ! ?n \<in> set sizes" using keep by (intro nth_mem) simp
    ultimately show ?thesis using c unfolding i by (simp add: max.coboundedI2)
  qed
qed

text \<open>The clamp of the source, at the two ranges it is used with.\<close>

lemma clamp_keep: "0 < keep \<Longrightarrow> keep < n \<Longrightarrow> clamp (sp + 1) 1 (n - keep) = Ok (min (Suc sp) (n - keep))"
  by (auto simp: clamp_def)

section \<open>Splitting a leaf\<close>

lemma split_leaf_eq:
  assumes b: "body p = Leaf rs n pv" and inv: "page_inv E p" and len: "2 \<le> length rs"
  obtains at where "0 < at" "at < length rs"
    "split_page E p new =
      (Ok (the_key (rs ! at), empty_page new (Leaf (drop at rs) n (Some (pg_id p)))),
       p\<lparr>body := Leaf (take at rs) (Some new) pv\<rparr>)"
    "rows_size E (take at rs) + MAX_LEAF_ENTRY_SIZE \<le> LEAF_USABLE"
    "rows_size E (drop at rs) + MAX_LEAF_ENTRY_SIZE \<le> LEAF_USABLE"
    "rows_ok E (take at rs)" "rows_ok E (drop at rs)"
proof -
  let ?sizes = "map (leaf_entry_size E) rs"
  have ok: "rows_ok E rs" and size: "rows_size E rs \<le> LEAF_USABLE"
    using inv by (simp_all add: page_inv_leaf [OF b])
  have "?sizes \<noteq> []" using len by auto
  then obtain sp where sp: "split_point ?sizes = Some sp" "sp < length ?sizes"
    "sum_list ?sizes div 2 \<le> sum_list (take (Suc sp) ?sizes)"
    "sp = 0 \<or> sum_list (take sp ?sizes) < sum_list ?sizes div 2"
    by (rule split_point_Some)
  define at where "at = min (Suc sp) (length rs - 1)"
  have at: "0 < at" "at < length rs" using len by (auto simp: at_def)
  have clamp_at: "clamp (Suc sp) (Suc 0) (length rs - Suc 0) = Ok at"
    using clamp_keep [of 1 "length rs" sp] len by (simp add: at_def)
  have "\<forall>s \<in> set ?sizes. s \<le> MAX_LEAF_ENTRY_SIZE" using ok by (auto simp: rows_ok_def row_fits_iff)
  from split_balance [OF sp(2-4) this, of at 1]
  have half: "rows_size E (take at rs) \<le> rows_size E rs div 2 + MAX_LEAF_ENTRY_SIZE"
    "rows_size E (drop at rs) \<le> max (rows_size E rs - rows_size E rs div 2) MAX_LEAF_ENTRY_SIZE"
    using len by (simp_all add: at_def take_map drop_map)
  have sizes: "rows_size E (take at rs) + MAX_LEAF_ENTRY_SIZE \<le> LEAF_USABLE"
    "rows_size E (drop at rs) + MAX_LEAF_ENTRY_SIZE \<le> LEAF_USABLE"
    using half size by (simp_all add: layout_simps)
  have parts: "rows_ok E (take at rs)" "rows_ok E (drop at rs)"
    using ok rows_ok_append [of E "take at rs" "drop at rs"] by simp_all
  let ?r = "rs ! at"
  obtain tail where tail: "drop at rs = ?r # tail" using Cons_nth_drop_Suc [OF at(2)] by metis
  obtain vs where vs: "row_fields ?r = key_to_row_value (the_key ?r) # vs"
    using row_fits_key [of E ?r] ok at(2) row_key_Some_iff [of ?r] by (auto simp: rows_ok_def)
  let ?p = "p\<lparr>body := Leaf (take at rs) (Some new) pv\<rparr>"
  let ?q = "empty_page new (Leaf (drop at rs) n (Some (pg_id p)))"
  have "page_inv E ?p" "page_inv E ?q"
    using sizes parts by (simp_all add: page_inv_leaf [of ?p, simplified]
        page_inv_leaf [of ?q, unfolded empty_page_def, simplified] empty_page_def)
  then have "split_page E p new = (Ok (the_key ?r, ?q), ?p)"
    using len at by (simp add: split_page_def b sp(1) clamp_at split_off_def tail vs Let_def)
  then show thesis using that at sizes parts by blast
qed

section \<open>Splitting an internal page\<close>

lemma split_internal_eq:
  assumes b: "body p = Internal ks cs" and inv: "page_inv E p" and len: "3 \<le> length ks"
  obtains at where "0 < at" "at + 1 < length ks"
    "split_page E p new =
      (Ok (ks ! at, empty_page new (Internal (drop (Suc at) ks) (drop (Suc at) cs))),
       p\<lparr>body := Internal (take at ks) (take (Suc at) cs)\<rparr>)"
    "keys_size E (take at ks) + MAX_INTERNAL_ENTRY_SIZE \<le> INTERNAL_USABLE"
    "keys_size E (drop (Suc at) ks) + MAX_INTERNAL_ENTRY_SIZE \<le> INTERNAL_USABLE"
    "keys_ok E (take at ks)" "keys_ok E (drop (Suc at) ks)"
proof -
  let ?sizes = "map (internal_entry_size E) ks"
  note i = internal_invD [OF b inv]
  have "?sizes \<noteq> []" using len by auto
  then obtain sp where sp: "split_point ?sizes = Some sp" "sp < length ?sizes"
    "sum_list ?sizes div 2 \<le> sum_list (take (Suc sp) ?sizes)"
    "sp = 0 \<or> sum_list (take sp ?sizes) < sum_list ?sizes div 2"
    by (rule split_point_Some)
  define at where "at = min (Suc sp) (length ks - 2)"
  have at: "0 < at" "at + 1 < length ks" using len by (auto simp: at_def)
  have clamp_at: "clamp (Suc sp) (Suc 0) (length ks - 2) = Ok at"
    using clamp_keep [of 2 "length ks" sp] len by (simp add: at_def)
  have "\<forall>s \<in> set ?sizes. s \<le> MAX_INTERNAL_ENTRY_SIZE" using i(1) by (auto simp: keys_ok_def)
  from split_balance [OF sp(2-4) this, of at 2]
  have half: "keys_size E (take at ks) \<le> keys_size E ks div 2 + MAX_INTERNAL_ENTRY_SIZE"
    "keys_size E (drop (Suc at) ks) \<le>
      max (keys_size E ks - keys_size E ks div 2) MAX_INTERNAL_ENTRY_SIZE"
    using len by (simp_all add: at_def take_map drop_map)
  have sizes: "keys_size E (take at ks) + MAX_INTERNAL_ENTRY_SIZE \<le> INTERNAL_USABLE"
    "keys_size E (drop (Suc at) ks) + MAX_INTERNAL_ENTRY_SIZE \<le> INTERNAL_USABLE"
    using half i(3) by (simp_all add: layout_simps)
  have parts: "keys_ok E (take at ks)" "keys_ok E (drop (Suc at) ks)"
    using i(1) keys_ok_append [of E "take at ks" "drop at ks"]
      keys_ok_append [of E "take (Suc at) ks" "drop (Suc at) ks"] by simp_all
  have tail: "drop at ks = ks ! at # drop (Suc at) ks" using at(2) by (simp add: Cons_nth_drop_Suc)
  let ?p = "p\<lparr>body := Internal (take at ks) (take (Suc at) cs)\<rparr>"
  let ?q = "empty_page new (Internal (drop (Suc at) ks) (drop (Suc at) cs))"
  have "page_inv E ?p" "page_inv E ?q"
    using sizes parts at i(2) by (simp_all add: page_inv_internal [of ?p, simplified]
        page_inv_internal [of ?q, unfolded empty_page_def, simplified] empty_page_def)
  then have "split_page E p new = (Ok (ks ! at, ?q), ?p)"
    using len at i(2)
    by (simp add: split_page_def b sp(1) clamp_at split_off_def tail vec_remove_def Let_def)
  then show thesis using that at sizes parts by blast
qed

section \<open>Properties\<close>

text \<open>
  C17: splitting a leaf. A well-formed leaf of at least two records splits: the left page keeps a
  non-empty prefix of the records, the new right page gets the rest, the promoted key is the
  first key on the right and separates the two, the sibling pointers link left page, new page
  and old right neighbour, both pages are well-formed, and each of them then has room for any
  row a schema accepts.
\<close>

theorem split_leaf_correct:
  assumes "body p = Leaf rs n pv" and "page_inv E p" and "2 \<le> length rs"
  shows "\<exists>key q p' rs1 rs2. split_page E p new = (Ok (key, q), p') \<and>
    body p' = Leaf rs1 (Some new) pv \<and> body q = Leaf rs2 n (Some (pg_id p)) \<and>
    pg_id p' = pg_id p \<and> pg_id q = new \<and> rs = rs1 @ rs2 \<and> rs1 \<noteq> [] \<and> rs2 \<noteq> [] \<and>
    key = the_key (hd rs2) \<and> (\<forall>r \<in> set rs1. the_key r < key) \<and> (\<forall>r \<in> set rs2. key \<le> the_key r) \<and>
    page_inv E p' \<and> page_inv E q \<and>
    (\<forall>r. leaf_entry_size E r \<le> MAX_LEAF_ENTRY_SIZE \<longrightarrow> can_insert E p' r \<and> can_insert E q r)"
proof -
  have ok: "rows_ok E rs" using assms(2) by (simp add: page_inv_leaf [OF assms(1)])
  obtain at where at: "0 < at" "at < length rs"
    and eq: "split_page E p new =
      (Ok (the_key (rs ! at), empty_page new (Leaf (drop at rs) n (Some (pg_id p)))),
       p\<lparr>body := Leaf (take at rs) (Some new) pv\<rparr>)"
    and size: "rows_size E (take at rs) + MAX_LEAF_ENTRY_SIZE \<le> LEAF_USABLE"
      "rows_size E (drop at rs) + MAX_LEAF_ENTRY_SIZE \<le> LEAF_USABLE"
    and parts: "rows_ok E (take at rs)" "rows_ok E (drop at rs)"
    by (rule split_leaf_eq [OF assms, of new])
  define p' q where "p' = p\<lparr>body := Leaf (take at rs) (Some new) pv\<rparr>"
    and "q = empty_page new (Leaf (drop at rs) n (Some (pg_id p)))"
  have b: "body p' = Leaf (take at rs) (Some new) pv"
    "body q = Leaf (drop at rs) n (Some (pg_id p))"
    by (simp_all add: p'_def q_def empty_page_def)
  have inv: "page_inv E p'" "page_inv E q"
    using size parts by (simp_all add: page_inv_leaf [OF b(1)] page_inv_leaf [OF b(2)])
  have room: "can_insert E p' r \<and> can_insert E q r" if "leaf_entry_size E r \<le> MAX_LEAF_ENTRY_SIZE" for r
    using that size can_insert_leaf [OF b(1) inv(1), of r] can_insert_leaf [OF b(2) inv(2), of r]
    by linarith
  have tail: "drop at rs = rs ! at # drop (Suc at) rs" using at(2) by (simp add: Cons_nth_drop_Suc)
  have order: "\<forall>r \<in> set (take at rs). the_key r < the_key (rs ! at)"
    using ok rows_ok_append [of E "take at rs" "drop at rs"]
    unfolding append_take_drop_id by (auto simp: tail)
  have above: "\<forall>r \<in> set (drop at rs). the_key (rs ! at) \<le> the_key r"
    using parts(2) by (auto simp: tail rows_ok_Cons)
  show ?thesis
    using at eq b inv room order above
    by (intro exI [of _ "the_key (rs ! at)"] exI [of _ q] exI [of _ p']
        exI [of _ "take at rs"] exI [of _ "drop at rs"])
      (auto simp: p'_def q_def empty_page_def hd_drop_conv_nth)
qed

lemma split_leaf_correct_witness:
  "\<exists>key q p' rs1 rs2.
    split_page demo_env (demo_leaf 2 (map big_row [1, 2, 3, 4]) (Some 3) None) (demo_id 9)
      = (Ok (key, q), p') \<and> map big_row [1, 2, 3, 4] = rs1 @ rs2 \<and> rs1 \<noteq> [] \<and> rs2 \<noteq> []"
  using split_leaf_correct [of "demo_leaf 2 (map big_row [1, 2, 3, 4]) (Some 3) None"
      "map big_row [1, 2, 3, 4]" "Some (demo_id 3)" None demo_env "demo_id 9"]
  by (simp add: rows_ok_def) blast

text \<open>
  C18: splitting an internal page. A well-formed page of at least three keys splits around one
  key, which moves up: the keys and children of the two halves and the promoted key are
  exactly those of the page, in order, each half keeps at least one key and one child more than
  keys, both are well-formed, and each then has room for any admissible separator.
\<close>

theorem split_internal_correct:
  assumes "body p = Internal ks cs" and "page_inv E p" and "3 \<le> length ks"
  shows "\<exists>key q p' ks1 ks2 cs1 cs2. split_page E p new = (Ok (key, q), p') \<and>
    body p' = Internal ks1 cs1 \<and> body q = Internal ks2 cs2 \<and>
    pg_id p' = pg_id p \<and> pg_id q = new \<and> ks = ks1 @ key # ks2 \<and> cs = cs1 @ cs2 \<and>
    ks1 \<noteq> [] \<and> ks2 \<noteq> [] \<and> page_inv E p' \<and> page_inv E q \<and>
    is_split_safe E p' \<and> is_split_safe E q"
proof -
  note i = internal_invD [OF assms(1,2)]
  obtain at where at: "0 < at" "at + 1 < length ks"
    and eq: "split_page E p new =
      (Ok (ks ! at, empty_page new (Internal (drop (Suc at) ks) (drop (Suc at) cs))),
       p\<lparr>body := Internal (take at ks) (take (Suc at) cs)\<rparr>)"
    and size: "keys_size E (take at ks) + MAX_INTERNAL_ENTRY_SIZE \<le> INTERNAL_USABLE"
      "keys_size E (drop (Suc at) ks) + MAX_INTERNAL_ENTRY_SIZE \<le> INTERNAL_USABLE"
    and parts: "keys_ok E (take at ks)" "keys_ok E (drop (Suc at) ks)"
    by (rule split_internal_eq [OF assms, of new])
  define p' q where "p' = p\<lparr>body := Internal (take at ks) (take (Suc at) cs)\<rparr>"
    and "q = empty_page new (Internal (drop (Suc at) ks) (drop (Suc at) cs))"
  have b: "body p' = Internal (take at ks) (take (Suc at) cs)"
    "body q = Internal (drop (Suc at) ks) (drop (Suc at) cs)"
    by (simp_all add: p'_def q_def empty_page_def)
  have inv: "page_inv E p'" "page_inv E q"
    using size parts at i(2) by (simp_all add: page_inv_internal [OF b(1)] page_inv_internal [OF b(2)])
  have safe: "is_split_safe E p'" "is_split_safe E q"
    using size by (auto simp: is_split_safe_def kind_defs b free_space_internal [OF b(1)]
        free_space_internal [OF b(2)] checked_sub_def)
  have "ks = take at ks @ ks ! at # drop (Suc at) ks"
    using at by (intro id_take_nth_drop) simp
  then show ?thesis
    using at eq b inv safe
    by (intro exI [of _ "ks ! at"] exI [of _ q] exI [of _ p'] exI [of _ "take at ks"]
        exI [of _ "drop (Suc at) ks"] exI [of _ "take (Suc at) cs"] exI [of _ "drop (Suc at) cs"])
      (auto simp: p'_def q_def empty_page_def)
qed

lemma split_internal_correct_witness:
  "\<exists>key q p' ks1 ks2.
    split_page demo_env (demo_internal 5 [10, 20, 30, 40] [1, 2, 3, 4, 6]) (demo_id 9)
      = (Ok (key, q), p') \<and> map IntegerK [10, 20, 30, 40] = ks1 @ key # ks2 \<and> ks1 \<noteq> [] \<and> ks2 \<noteq> []"
  using split_internal_correct [of "demo_internal 5 [10, 20, 30, 40] [1, 2, 3, 4, 6]"
      "map IntegerK [10, 20, 30, 40]" "map demo_id [1, 2, 3, 4, 6]" demo_env "demo_id 9"]
  by simp blast

text \<open>
  C12: a full leaf never blocks an insertion. When \<^verbatim>\<open>leaf_insert\<close> reports a full page, the page
  is large enough to split, and the same row then goes into the half its key belongs to;
  afterwards the two pages hold exactly the old records and the new one.
\<close>

theorem full_leaf_splits_and_takes_row:
  assumes "leaf_inv E p" and "row_fits E r"
    and "fst (leaf_insert E p (ValidatedRow r)) = Err PageFull"
  shows "\<exists>key q p' t. split_page E p new = (Ok (key, q), p') \<and>
    leaf_insert E (if the_key r < key then p' else q) (ValidatedRow r) = (Ok (), t) \<and> leaf_inv E t \<and>
    leaf_map t ++ leaf_map (if the_key r < key then q else p') = (leaf_map p)(the_key r \<mapsto> r)"
proof -
  obtain rs n pv where b: "body p = Leaf rs n pv" and ok: "rows_ok E rs"
    using assms(1) by (rule leaf_invE)
  have inv: "page_inv E p" using assms(1) by (simp add: leaf_inv_def)
  have full: "LEAF_USABLE < rows_size E rs + leaf_entry_size E r"
    and new: "the_key r \<notin> set (row_keys rs)"
    using assms(3) by (auto simp: leaf_insert_eq [OF b inv assms(2)] Let_def split: if_splits)
  have fits: "leaf_entry_size E r \<le> MAX_LEAF_ENTRY_SIZE" using assms(2) by (simp add: row_fits_iff)
  have "rows_size E rs \<le> length rs * MAX_LEAF_ENTRY_SIZE"
    using ok by (intro sum_list_upper_bound) (auto simp: rows_ok_def row_fits_iff)
  then have "LEAF_USABLE < (length rs + 1) * MAX_LEAF_ENTRY_SIZE" using full fits by simp
  then have "2 \<le> length rs" by (simp add: layout_simps)
  then obtain key q p' rs1 rs2 where s: "split_page E p new = (Ok (key, q), p')"
    "body p' = Leaf rs1 (Some new) pv" "body q = Leaf rs2 n (Some (pg_id p))"
    "rs = rs1 @ rs2" "\<forall>x \<in> set rs1. the_key x < key" "\<forall>x \<in> set rs2. key \<le> the_key x"
    "page_inv E p'" "page_inv E q" "can_insert E p' r" "can_insert E q r"
    using split_leaf_correct [OF b inv, of new] fits by blast
  let ?t = "if the_key r < key then p' else q" and ?o = "if the_key r < key then q else p'"
  have linv: "leaf_inv E ?t" using s by (simp add: leaf_inv_def is_leaf_def)
  have maps: "leaf_map p' = rows_map rs1" "leaf_map q = rows_map rs2" "leaf_map p = rows_map rs"
    using s b by (simp_all add: leaf_map_leaf)
  have disj: "dom (leaf_map ?t) \<inter> dom (leaf_map ?o) = {}"
    using s(5,6) by (auto simp: maps dom_rows_map row_keys_def) (metis leD)+
  have union: "leaf_map ?t ++ leaf_map ?o = leaf_map p"
    using disj map_add_comm [of "rows_map rs1" "rows_map rs2"]
    by (simp add: maps s(4) rows_map_append Int_commute split: if_splits)
  have fresh: "the_key r \<notin> dom (leaf_map ?t)" "the_key r \<notin> dom (leaf_map ?o)"
    using new by (auto simp: maps dom_rows_map s(4) row_keys_def)
  have room: "\<not> LEAF_USABLE < entries_size E ?t + leaf_entry_size E r"
    using s can_insert_leaf [OF s(2) s(7)] can_insert_leaf [OF s(3) s(8)]
    by (auto simp: entries_size_def)
  obtain res t where t: "leaf_insert E ?t (ValidatedRow r) = (res, t)" by fastforce
  show ?thesis
  proof (rule leaf_insert_cases [OF linv assms(2) t])
    assume "res = Ok ()" "leaf_inv E t" "leaf_map t = (leaf_map ?t)(the_key r \<mapsto> r)"
    then show ?thesis
      using s(1) t fresh(2) union map_add_upd_left [of "the_key r" "leaf_map ?o" "leaf_map ?t" r]
      by (intro exI conjI) auto
  qed (use fresh room in auto)
qed

lemma full_leaf_splits_and_takes_row_witness:
  "\<exists>key q p' t. split_page demo_env (demo_leaf 2 (map big_row [1, 2, 3, 4]) (Some 3) None) (demo_id 9)
      = (Ok (key, q), p') \<and>
    leaf_insert demo_env (if the_key (big_row 7) < key then p' else q) (ValidatedRow (big_row 7))
      = (Ok (), t)"
proof -
  let ?p = "demo_leaf 2 (map big_row [1, 2, 3, 4]) (Some 3) None"
  have inv: "page_inv demo_env ?p" by (simp add: rows_ok_def)
  then have linv: "leaf_inv demo_env ?p" by (simp add: leaf_inv_def is_leaf_def)
  have "fst (leaf_insert demo_env ?p (ValidatedRow (big_row 7))) = Err PageFull"
    using inv by (simp add: leaf_insert_eq row_keys_def layout_simps)
  from full_leaf_splits_and_takes_row [OF linv _ this, of "demo_id 9"] show ?thesis by fastforce
qed

text \<open>
  a full internal page never blocks a promoted key. When \<^verbatim>\<open>internal_insert\<close> reports a full
  page for an admissible separator, the page has enough keys to split, and the separator then
  goes into the half it belongs to.
\<close>

theorem full_internal_splits_and_takes_key:
  assumes "is_internal p" and "page_inv E p" and "fst (internal_insert E p sep c) = Err PageFull"
  shows "\<exists>key q p' t. split_page E p new = (Ok (key, q), p') \<and> key \<noteq> sep \<and>
    internal_insert E (if sep < key then p' else q) sep c = (Ok (), t) \<and> page_inv E t"
proof -
  obtain ks cs where b: "body p = Internal ks cs" using assms(1) by (rule body_kindE(2))
  note i = internal_invD [OF b assms(2)]
  have full: "INTERNAL_USABLE < keys_size E ks + internal_entry_size E sep"
    and sep: "sep \<notin> set ks" "key_fits E sep"
    using assms(3) by (auto simp: internal_insert_eq [OF b assms(2)] Let_def split: if_splits)
  have "keys_size E ks \<le> length ks * MAX_INTERNAL_ENTRY_SIZE"
    using i(1) by (intro sum_list_upper_bound) (auto simp: keys_ok_def)
  then have "INTERNAL_USABLE < (length ks + 1) * MAX_INTERNAL_ENTRY_SIZE" using full sep by simp
  then have "3 \<le> length ks" by (simp add: layout_simps)
  then obtain key q p' ks1 ks2 cs1 cs2 where s: "split_page E p new = (Ok (key, q), p')"
    "body p' = Internal ks1 cs1" "body q = Internal ks2 cs2" "ks = ks1 @ key # ks2"
    "page_inv E p'" "page_inv E q" "is_split_safe E p'" "is_split_safe E q"
    using split_internal_correct [OF b assms(2), of new] by blast
  let ?t = "if sep < key then p' else q"
  have room: "keys_size E ks1 + internal_entry_size E sep \<le> INTERNAL_USABLE"
    "keys_size E ks2 + internal_entry_size E sep \<le> INTERNAL_USABLE"
    using s(2,3,7,8) sep(2)
    by (auto simp: is_split_safe_def kind_defs free_space_internal checked_sub_def split: if_splits)
  obtain res t where t: "internal_insert E ?t sep c = (res, t)" by fastforce
  have "res = Ok ()"
    using t s(2-6) sep room internal_insert_eq [OF s(2) s(5), of sep c]
      internal_insert_eq [OF s(3) s(6), of sep c]
    by (auto simp: Let_def split: if_splits)
  moreover have "page_inv E t"
    using internal_insert_routes [OF s(2) s(5), of sep c t] internal_insert_routes [OF s(3) s(6), of sep c t]
      t \<open>res = Ok ()\<close> by (auto split: if_splits)
  ultimately show ?thesis using s(1,4) sep(1) t by (intro exI conjI) auto
qed

lemma full_internal_splits_and_takes_key_witness:
  "\<exists>key q p' t. split_page demo_env (demo_full_internal 5) (demo_id 9) = (Ok (key, q), p') \<and>
    internal_insert demo_env (if big_key 7 < key then p' else q) (big_key 7) (demo_id 30) = (Ok (), t)"
proof -
  have b: "body (demo_full_internal 5) = Internal (map big_key [1, 2, 3, 4]) (map demo_id [1, 2, 3, 4, 6])"
    by (simp add: demo_full_internal_def empty_page_def)
  have inv: "page_inv demo_env (demo_full_internal 5)"
    by (simp add: page_inv_internal [OF b] keys_ok_def layout_simps)
  have full: "fst (internal_insert demo_env (demo_full_internal 5) (big_key 7) (demo_id 30)) = Err PageFull"
    by (simp add: internal_insert_eq [OF b inv] layout_simps)
  have "is_internal (demo_full_internal 5)" by (simp add: is_internal_def b)
  from full_internal_splits_and_takes_key [OF this inv full, of "demo_id 9"] show ?thesis by blast
qed

end
