(* ===== verification/Sibling_Pages.thy ===== *)
theory Sibling_Pages
  imports Page_Split
begin

text \<open>
  Merging and borrowing between two neighbouring pages of either kind, which is what
  rebalancing a tree is made of. \<open>siblings\<close> says how two pages and the parent's separator
  between them must fit together, \<open>pair_contents\<close> what they hold; every operation keeps both.
\<close>

section \<open>Two neighbours and their separator\<close>

datatype contents = Rows "row list" | Separators "key list" "page_id list"

fun pair_contents_body :: "page_body \<Rightarrow> key \<Rightarrow> page_body \<Rightarrow> contents option" where
  "pair_contents_body (Leaf rs _ _) sep (Leaf rs' _ _) = Some (Rows (rs @ rs'))"
| "pair_contents_body (Internal ks cs) sep (Internal ks' cs') =
     Some (Separators (ks @ sep # ks') (cs @ cs'))"
| "pair_contents_body _ _ _ = None"

definition pair_contents :: "page \<Rightarrow> key \<Rightarrow> page \<Rightarrow> contents option" where
  "pair_contents l sep r = pair_contents_body (body l) sep (body r)"

fun body_contents :: "page_body \<Rightarrow> contents option" where
  "body_contents (Leaf rs _ _) = Some (Rows rs)"
| "body_contents (Internal ks cs) = Some (Separators ks cs)"
| "body_contents _ = None"

text \<open>How two neighbours must fit: linked to each other, and in order around the separator.\<close>

fun fits_between :: "env \<Rightarrow> page_id \<Rightarrow> page_body \<Rightarrow> key \<Rightarrow> page_id \<Rightarrow> page_body \<Rightarrow> bool" where
  "fits_between E lid (Leaf rs nxt _) sep rid (Leaf rs' _ prv) \<longleftrightarrow>
     nxt = Some rid \<and> prv = Some lid \<and>
     (\<forall>r \<in> set rs. the_key r < sep) \<and> (\<forall>r \<in> set rs'. sep \<le> the_key r)"
| "fits_between E lid (Internal ks _) sep rid (Internal ks' _) \<longleftrightarrow> keys_ok E (ks @ sep # ks')"
| "fits_between E lid _ sep rid _ \<longleftrightarrow> False"

definition siblings :: "env \<Rightarrow> page \<Rightarrow> key \<Rightarrow> page \<Rightarrow> bool" where
  "siblings E l sep r \<longleftrightarrow> page_inv E l \<and> page_inv E r \<and> key_fits E sep \<and>
     fits_between E (pg_id l) (body l) sep (pg_id r) (body r)"

lemma siblings_cases:
  assumes "siblings E l sep r"
  obtains (leaves) rs pv rs' n where "body l = Leaf rs (Some (pg_id r)) pv"
      "body r = Leaf rs' n (Some (pg_id l))" "rows_ok E rs" "rows_ok E rs'"
      "\<forall>x \<in> set rs. the_key x < sep" "\<forall>x \<in> set rs'. sep \<le> the_key x" "rows_ok E (rs @ rs')"
      "rows_size E rs \<le> LEAF_USABLE" "rows_size E rs' \<le> LEAF_USABLE"
  | (internals) ks cs ks' cs' where "body l = Internal ks cs" "body r = Internal ks' cs'"
      "keys_ok E (ks @ sep # ks')" "length cs = length ks + 1" "length cs' = length ks' + 1"
      "keys_size E ks \<le> INTERNAL_USABLE" "keys_size E ks' \<le> INTERNAL_USABLE"
proof (cases "body l")
  case (Leaf rs nx pv)
  obtain rs' n pv' where r: "body r = Leaf rs' n pv'"
    using assms Leaf by (cases "body r") (auto simp: siblings_def)
  have ok: "rows_ok E rs" "rows_ok E rs'" "rows_size E rs \<le> LEAF_USABLE" "rows_size E rs' \<le> LEAF_USABLE"
    using assms by (simp_all add: siblings_def page_inv_leaf [OF Leaf] page_inv_leaf [OF r])
  moreover have fits: "nx = Some (pg_id r)" "pv' = Some (pg_id l)"
    "\<forall>x \<in> set rs. the_key x < sep" "\<forall>x \<in> set rs'. sep \<le> the_key x"
    using assms by (simp_all add: siblings_def Leaf r)
  moreover have "rows_ok E (rs @ rs')"
    using ok(1,2) fits(3,4) by (auto simp: rows_ok_append intro: less_le_trans)
  ultimately show thesis using Leaf r by (intro leaves [of rs pv rs' n]) simp_all
next
  case (Internal ks cs)
  obtain ks' cs' where r: "body r = Internal ks' cs'"
    using assms Internal by (cases "body r") (auto simp: siblings_def)
  show thesis
    using assms by (intro internals [OF Internal r])
      (simp_all add: siblings_def Internal r page_inv_internal [OF Internal] page_inv_internal [OF r])
qed (use assms in \<open>simp_all add: siblings_def\<close>)

lemma siblings_invs: "siblings E l sep r \<Longrightarrow> page_inv E l \<and> page_inv E r \<and> key_fits E sep"
  by (simp add: siblings_def)

lemma siblings_leavesI:
  assumes "body l = Leaf rs (Some (pg_id r)) pv" and "body r = Leaf rs' n (Some (pg_id l))"
    and "rows_ok E rs" and "rows_ok E rs'" and "rows_size E rs \<le> LEAF_USABLE"
    and "rows_size E rs' \<le> LEAF_USABLE" and "key_fits E sep"
    and "\<forall>x \<in> set rs. the_key x < sep" and "\<forall>x \<in> set rs'. sep \<le> the_key x"
  shows "siblings E l sep r"
  using assms by (simp add: siblings_def page_inv_leaf [OF assms(1)] page_inv_leaf [OF assms(2)])

lemma siblings_internalsI:
  assumes "body l = Internal ks cs" and "body r = Internal ks' cs'"
    and "keys_ok E (ks @ sep # ks')" and "length cs = length ks + 1" and "length cs' = length ks' + 1"
    and "keys_size E ks \<le> INTERNAL_USABLE" and "keys_size E ks' \<le> INTERNAL_USABLE"
  shows "siblings E l sep r"
  using assms by (auto simp: siblings_def page_inv_internal [OF assms(1)] keys_ok_append keys_ok_Cons
      page_inv_internal [OF assms(2)])

section \<open>One move\<close>

text \<open>
  What every operation of this theory does to two siblings. The new separator of two leaves is the old one or the
  key of a row; of internal pages it is among the contents.
\<close>

definition moved ::
  "env \<Rightarrow> page \<Rightarrow> key \<Rightarrow> page \<Rightarrow> page \<Rightarrow> key \<Rightarrow> page \<Rightarrow> bool" where
  "moved E l sep r l' sep' r' \<longleftrightarrow>
     siblings E l' sep' r' \<and> pair_contents l' sep' r' = pair_contents l sep r \<and>
     pg_id l' = pg_id l \<and> pg_id r' = pg_id r \<and> is_internal l' = is_internal l \<and>
     last_update l' = last_update l \<and> last_update r' = last_update r \<and>
     page_prev (body l') = page_prev (body l) \<and> page_next (body r') = page_next (body r) \<and>
     (\<forall>rs. pair_contents l sep r = Some (Rows rs) \<longrightarrow> sep' = sep \<or> sep' \<in> the_key ` set rs)"

lemma moved_refl: "siblings E l sep r \<Longrightarrow> moved E l sep r l sep r"
  by (simp add: moved_def)

lemma moved_trans:
  "moved E l sep r l' sep' r' \<Longrightarrow> moved E l' sep' r' l'' sep'' r'' \<Longrightarrow> moved E l sep r l'' sep'' r''"
  by (auto simp: moved_def)

lemma row_fits_key_fits: "row_fits E r \<Longrightarrow> key_fits E (the_key r)"
  by (auto simp: row_fits_iff the_key_def)

lemma entry_size_pos: "0 < leaf_entry_size E x" "0 < internal_entry_size E k"
  by (simp_all add: leaf_entry_size_def internal_entry_size_def SLOT_ENTRY_SIZE_def)

lemma borrow_from_right_step:
  assumes "siblings E l sep r"
  obtains (refused) e where "borrow_from_right E l r sep = (Err e, l, r)"
      "e = PageFull \<or> (\<exists>x. e = InvalidBorrow x)"
  | (moved) sep' l' r' where "borrow_from_right E l r sep = (Ok sep', l', r')"
      "moved E l sep r l' sep' r'" "entries_size E l < entries_size E l'"
proof (use assms in \<open>cases rule: siblings_cases\<close>)
  case (leaves rs pv rs' n)
  have "borrow_from_right E l r sep = leaf_borrow_from_right E l r"
    using leaves(1) by (simp add: borrow_from_right_def is_internal_def)
  note eq = this [unfolded leaf_borrow_right_eq [OF leaves(1,2)
    siblings_invs [OF assms, THEN conjunct1] siblings_invs [OF assms, THEN conjunct2, THEN conjunct1]]]
  show thesis
  proof (cases rs')
    case Nil
    then show thesis using eq by (intro refused [of "InvalidBorrow (EmptyBorrow (pg_id r))"]) simp_all
  next
    case (Cons x rest)
    have parts: "rows_ok E (rs @ [x])" "row_fits E x" "rows_ok E rest"
      "\<forall>y \<in> set (rs @ [x]). \<forall>z \<in> set rest. the_key y < the_key z"
      using leaves(3,4,7) by (auto simp: Cons rows_ok_append rows_ok_Cons)
    consider "rest = []" | "rest \<noteq> []" "LEAF_USABLE < rows_size E rs + leaf_entry_size E x"
      | y ys where "rest = y # ys" "rows_size E rs + leaf_entry_size E x \<le> LEAF_USABLE"
      by (cases rest) (auto simp: not_less [symmetric])
    then show thesis
    proof cases
      case 1
      then show thesis
        using eq parts(1) by (intro refused [of "InvalidBorrow (EmptyBorrow (pg_id r))"]) (simp_all add: Cons)
    next
      case 2
      then show thesis using eq parts(1) by (intro refused [of PageFull]) (simp_all add: Cons)
    next
      case (3 y ys)
      let ?l = "l\<lparr>body := Leaf (rs @ [x]) (Some (pg_id r)) pv\<rparr>"
      let ?r = "r\<lparr>body := Leaf rest n (Some (pg_id l))\<rparr>"
      have "borrow_from_right E l r sep = (Ok (the_key y), ?l, ?r)"
        using eq parts(1) 3 by (simp add: Cons)
      moreover have "siblings E ?l (the_key y) ?r"
      proof (rule siblings_leavesI)
        show "key_fits E (the_key y)" using parts(3) by (simp add: 3 rows_ok_Cons row_fits_key_fits)
        show "\<forall>z \<in> set (rs @ [x]). the_key z < the_key y" using parts(4) by (simp add: 3)
        show "\<forall>z \<in> set rest. the_key y \<le> the_key z" using parts(3) by (auto simp: 3 rows_ok_Cons)
      qed (use leaves 3 parts in \<open>simp_all add: Cons\<close>)
      then have "moved E l sep r ?l (the_key y) ?r"
        by (simp add: moved_def pair_contents_def leaves(1,2) Cons 3 is_internal_def)
      moreover have "entries_size E l < entries_size E ?l"
        by (simp add: entries_size_def leaves(1) entry_size_pos)
      ultimately show thesis by (rule that(2))
    qed
  qed
next
  case (internals ks cs ks' cs')
  have "borrow_from_right E l r sep = internal_borrow_from_right E l r sep"
    using internals(1) by (simp add: borrow_from_right_def is_internal_def)
  note eq = this [unfolded internal_borrow_right_eq [OF internals(1,2)
    siblings_invs [OF assms, THEN conjunct1] siblings_invs [OF assms, THEN conjunct2, THEN conjunct1]
    siblings_invs [OF assms, THEN conjunct2, THEN conjunct2]]]
  show thesis
  proof (cases ks')
    case Nil
    then show thesis using eq by (intro refused [of "InvalidBorrow (EmptyBorrow (pg_id r))"]) simp_all
  next
    case (Cons x rest)
    have ok: "keys_ok E (ks @ [sep, x])" "keys_ok E ((ks @ [sep]) @ x # rest)"
      using internals(3) keys_ok_append [of E "ks @ [sep, x]" rest] by (simp_all add: Cons)
    show thesis
    proof (cases "INTERNAL_USABLE < keys_size E ks + internal_entry_size E sep")
      case True
      then show thesis using eq ok(1) by (intro refused [of PageFull]) (simp_all add: Cons)
    next
      case False
      let ?l = "l\<lparr>body := Internal (ks @ [sep]) (cs @ [hd cs'])\<rparr>"
      let ?r = "r\<lparr>body := Internal rest (tl cs')\<rparr>"
      obtain c cs1 where cs': "cs' = c # cs1" using internals(5) by (cases cs') auto
      have "borrow_from_right E l r sep = (Ok x, ?l, ?r)" using eq ok(1) False by (simp add: Cons)
      moreover have "siblings E ?l x ?r"
        by (rule siblings_internalsI [where cs = "cs @ [hd cs']" and cs' = "tl cs'", OF _ _ ok(2)])
          (use internals False in \<open>simp_all add: Cons\<close>)
      then have "moved E l sep r ?l x ?r"
        by (simp add: moved_def pair_contents_def internals(1,2) Cons is_internal_def cs')
      moreover have "entries_size E l < entries_size E ?l"
        by (simp add: entries_size_def internals(1) entry_size_pos)
      ultimately show thesis by (rule that(2))
    qed
  qed
qed

lemma borrow_from_left_step:
  assumes "siblings E l sep r"
  obtains (refused) e where "borrow_from_left E r l sep = (Err e, r, l)"
      "e = PageFull \<or> (\<exists>x. e = InvalidBorrow x)"
  | (moved) sep' l' r' where "borrow_from_left E r l sep = (Ok sep', r', l')"
      "moved E l sep r l' sep' r'" "entries_size E r < entries_size E r'"
proof (use assms in \<open>cases rule: siblings_cases\<close>)
  case (leaves rs pv rs' n)
  have "borrow_from_left E r l sep = leaf_borrow_from_left E r l"
    using leaves(2) by (simp add: borrow_from_left_def is_internal_def)
  note eq = this [unfolded leaf_borrow_left_eq [OF leaves(2,1)
    siblings_invs [OF assms, THEN conjunct2, THEN conjunct1] siblings_invs [OF assms, THEN conjunct1]]]
  show thesis
  proof (cases rs rule: rev_cases)
    case Nil
    then show thesis using eq by (intro refused [of "InvalidBorrow (EmptyBorrow (pg_id l))"]) simp_all
  next
    case (snoc front x)
    have parts: "rows_ok E (x # rs')" "row_fits E x" "rows_ok E front"
      "\<forall>y \<in> set front. the_key y < the_key x"
      using leaves(3,4,7) by (auto simp: snoc rows_ok_append rows_ok_Cons)
    consider "front = []" | "front \<noteq> []" "LEAF_USABLE < rows_size E rs' + leaf_entry_size E x"
      | "front \<noteq> []" "rows_size E rs' + leaf_entry_size E x \<le> LEAF_USABLE"
      by linarith
    then show thesis
    proof cases
      case 1
      then show thesis
        using eq parts(1) by (intro refused [of "InvalidBorrow (EmptyBorrow (pg_id l))"]) (simp_all add: snoc)
    next
      case 2
      then show thesis using eq parts(1) by (intro refused [of PageFull]) (simp_all add: snoc)
    next
      case 3
      let ?l = "l\<lparr>body := Leaf front (Some (pg_id r)) pv\<rparr>"
      let ?r = "r\<lparr>body := Leaf (x # rs') n (Some (pg_id l))\<rparr>"
      have "borrow_from_left E r l sep = (Ok (the_key x), ?r, ?l)"
        using eq parts(1) 3 by (simp add: snoc)
      moreover have "siblings E ?l (the_key x) ?r"
      proof (rule siblings_leavesI)
        show "key_fits E (the_key x)" by (rule row_fits_key_fits [OF parts(2)])
        show "\<forall>z \<in> set front. the_key z < the_key x" by (rule parts(4))
        show "\<forall>z \<in> set (x # rs'). the_key x \<le> the_key z" using parts(1) by (auto simp: rows_ok_Cons)
      qed (use leaves 3 parts in \<open>simp_all add: snoc\<close>)
      then have "moved E l sep r ?l (the_key x) ?r"
        by (simp add: moved_def pair_contents_def leaves(1,2) snoc is_internal_def)
      moreover have "entries_size E r < entries_size E ?r"
        by (simp add: entries_size_def leaves(2) entry_size_pos)
      ultimately show thesis by (rule that(2))
    qed
  qed
next
  case (internals ks cs ks' cs')
  have "borrow_from_left E r l sep = internal_borrow_from_left E r l sep"
    using internals(2) by (simp add: borrow_from_left_def is_internal_def)
  note eq = this [unfolded internal_borrow_left_eq [OF internals(2,1)
    siblings_invs [OF assms, THEN conjunct2, THEN conjunct1] siblings_invs [OF assms, THEN conjunct1]
    siblings_invs [OF assms, THEN conjunct2, THEN conjunct2]]]
  show thesis
  proof (cases ks rule: rev_cases)
    case Nil
    then show thesis using eq by (intro refused [of "InvalidBorrow (EmptyBorrow (pg_id l))"]) simp_all
  next
    case (snoc front x)
    have ok: "keys_ok E (x # sep # ks')" "keys_ok E (front @ x # sep # ks')"
      using internals(3) keys_ok_append [of E front "x # sep # ks'"] by (simp_all add: snoc)
    show thesis
    proof (cases "INTERNAL_USABLE < keys_size E ks' + internal_entry_size E sep")
      case True
      then show thesis using eq ok(1) by (intro refused [of PageFull]) (simp_all add: snoc)
    next
      case False
      let ?l = "l\<lparr>body := Internal front (butlast cs)\<rparr>"
      let ?r = "r\<lparr>body := Internal (sep # ks') (last cs # cs')\<rparr>"
      obtain c cs1 where cs: "cs = cs1 @ [c]" using internals(4) by (cases cs rule: rev_cases) auto
      have "borrow_from_left E r l sep = (Ok x, ?r, ?l)" using eq ok(1) False by (simp add: snoc)
      moreover have "siblings E ?l x ?r"
        by (rule siblings_internalsI [where cs = "butlast cs" and cs' = "last cs # cs'", OF _ _ ok(2)])
          (use internals False in \<open>simp_all add: snoc\<close>)
      then have "moved E l sep r ?l x ?r"
        by (simp add: moved_def pair_contents_def internals(1,2) snoc is_internal_def cs)
      moreover have "entries_size E r < entries_size E ?r"
        by (simp add: entries_size_def internals(2) entry_size_pos)
      ultimately show thesis by (rule that(2))
    qed
  qed
qed

end
