(* ===== verification/Rebalance_Pages.thy ===== *)
theory Rebalance_Pages
  imports Sibling_Pages
begin

text \<open>
  The bulk borrow loops and merging, on two siblings: what they return, and that one of the two
  always helps an underfull page. This is what a tree needs to rebalance after a deletion.
\<close>

section \<open>Merging\<close>

fun contents_size :: "env \<Rightarrow> contents \<Rightarrow> nat" where
  "contents_size E (Rows rs) = rows_size E rs"
| "contents_size E (Separators ks cs) = keys_size E ks"

definition usable :: "page \<Rightarrow> nat" where
  "usable p = (if is_internal p then INTERNAL_USABLE else LEAF_USABLE)"

lemma can_merge_siblings:
  assumes "siblings E l sep r"
  shows "can_merge_with E l r sep \<longleftrightarrow> contents_size E (the (pair_contents l sep r)) \<le> usable l"
proof (use assms in \<open>cases rule: siblings_cases\<close>)
  case (leaves rs pv rs' n)
  then show ?thesis
    using leaf_can_merge_iff [OF leaves(1,2)] siblings_invs [OF assms]
    by (simp add: can_merge_with_def usable_def is_internal_def pair_contents_def)
next
  case (internals ks cs ks' cs')
  then show ?thesis
    using internal_can_merge_iff [OF internals(1,2)] siblings_invs [OF assms]
    by (simp add: can_merge_with_def usable_def is_internal_def pair_contents_def add.assoc)
qed

lemma can_merge_moved:
  "siblings E l sep r \<Longrightarrow> moved E l sep r l' sep' r' \<Longrightarrow>
    can_merge_with E l' r' sep' = can_merge_with E l r sep"
  by (simp add: can_merge_siblings moved_def usable_def)

text \<open>When two siblings cannot merge, the one that is at least as large is not underfull.\<close>

lemma larger_not_underfull:
  assumes "siblings E l sep r" and "\<not> can_merge_with E l r sep"
  shows "entries_size E r \<le> entries_size E l \<Longrightarrow> \<not> is_underfull E l"
    and "entries_size E l \<le> entries_size E r \<Longrightarrow> \<not> is_underfull E r"
    and "\<not> (is_underfull E l \<and> is_underfull E r)"
proof -
  note total = assms(2) [unfolded can_merge_siblings [OF assms(1)]]
  have sep: "key_fits E sep" using siblings_invs [OF assms(1)] by blast
  have *: "(entries_size E r \<le> entries_size E l \<longrightarrow> \<not> is_underfull E l) \<and>
      (entries_size E l \<le> entries_size E r \<longrightarrow> \<not> is_underfull E r)"
  proof (use assms(1) in \<open>cases rule: siblings_cases\<close>)
    case (leaves rs pv rs' n)
    then show ?thesis
      using total by (simp add: usable_def is_internal_def pair_contents_def entries_size_def
          is_underfull_def layout_simps)
  next
    case (internals ks cs ks' cs')
    then show ?thesis
      using total sep by (simp add: usable_def is_internal_def pair_contents_def entries_size_def
          is_underfull_def layout_simps)
  qed
  then show "entries_size E r \<le> entries_size E l \<Longrightarrow> \<not> is_underfull E l"
    and "entries_size E l \<le> entries_size E r \<Longrightarrow> \<not> is_underfull E r"
    and "\<not> (is_underfull E l \<and> is_underfull E r)"
    by linarith+
qed

text \<open>When two siblings cannot merge and a move is refused, the receiver is not underfull.\<close>

lemma leaves_underfull:
  assumes "siblings E l sep r" and "\<not> can_merge_with E l r sep"
    and "body l = Leaf rs n pv" and "body r = Leaf rs' n' pv'"
  shows "LEAF_USABLE < rows_size E rs + rows_size E rs'"
    and "is_underfull E l \<longleftrightarrow> rows_size E rs < LEAF_UNDERFULL_BYTES"
    and "is_underfull E r \<longleftrightarrow> rows_size E rs' < LEAF_UNDERFULL_BYTES"
    and "x \<in> set rs \<or> x \<in> set rs' \<Longrightarrow> leaf_entry_size E x \<le> MAX_LEAF_ENTRY_SIZE"
  using assms siblings_invs [OF assms(1)] can_merge_siblings [OF assms(1)]
  by (auto simp: usable_def is_internal_def pair_contents_def is_underfull_def entries_size_def
      page_inv_leaf rows_ok_def row_fits_iff)

lemma internals_underfull:
  assumes "siblings E l sep r" and "\<not> can_merge_with E l r sep"
    and "body l = Internal ks cs" and "body r = Internal ks' cs'"
  shows "INTERNAL_USABLE < keys_size E ks + internal_entry_size E sep + keys_size E ks'"
    and "is_underfull E l \<longleftrightarrow> keys_size E ks < INTERNAL_UNDERFULL_BYTES"
    and "is_underfull E r \<longleftrightarrow> keys_size E ks' < INTERNAL_UNDERFULL_BYTES"
  using assms can_merge_siblings [OF assms(1)]
  by (auto simp: usable_def is_internal_def pair_contents_def is_underfull_def entries_size_def)

lemma refused_right_not_underfull:
  assumes sib: "siblings E l sep r" and no: "\<not> can_merge_with E l r sep"
    and refused: "borrow_from_right E l r sep = (Err e, l, r)"
  shows "\<not> is_underfull E l"
proof
  assume under: "is_underfull E l"
  note inv = siblings_invs [OF sib]
  show False
  proof (use sib in \<open>cases rule: siblings_cases\<close>)
    case (leaves rs pv rs' n)
    note u = leaves_underfull [OF sib no leaves(1,2)]
    obtain x rest where rs': "rs' = x # rest" using u under by (cases rs') (auto simp: layout_simps)
    have x: "leaf_entry_size E x \<le> MAX_LEAF_ENTRY_SIZE" using u(4) [of x] by (simp add: rs')
    have "rows_ok E (rs @ [x])" using leaves(7) by (auto simp: rs' rows_ok_append rows_ok_Cons)
    moreover have "rest \<noteq> []" using u(1,2) under x by (auto simp: rs' layout_simps)
    moreover have "rows_size E rs + leaf_entry_size E x \<le> LEAF_USABLE"
      using u(2) under x by (simp add: layout_simps)
    ultimately show False
      using refused inv leaf_borrow_right_eq [OF leaves(1,2)]
      by (simp add: borrow_from_right_def is_internal_def leaves(1) rs')
  next
    case (internals ks cs ks' cs')
    note u = internals_underfull [OF sib no internals(1,2)]
    obtain x rest where ks': "ks' = x # rest"
      using u(1,2) under inv by (cases ks') (auto simp: layout_simps)
    have "keys_ok E (ks @ [sep, x])"
      using internals(3) keys_ok_append [of E "ks @ [sep, x]" rest] by (simp add: ks')
    moreover have "keys_size E ks + internal_entry_size E sep \<le> INTERNAL_USABLE"
      using u(2) under inv by (simp add: layout_simps)
    ultimately show False
      using refused inv internal_borrow_right_eq [OF internals(1,2)]
      by (simp add: borrow_from_right_def is_internal_def internals(1) ks')
  qed
qed

lemma refused_left_not_underfull:
  assumes sib: "siblings E l sep r" and no: "\<not> can_merge_with E l r sep"
    and refused: "borrow_from_left E r l sep = (Err e, r, l)"
  shows "\<not> is_underfull E r"
proof
  assume under: "is_underfull E r"
  note inv = siblings_invs [OF sib]
  show False
  proof (use sib in \<open>cases rule: siblings_cases\<close>)
    case (leaves rs pv rs' n)
    note u = leaves_underfull [OF sib no leaves(1,2)]
    obtain x front where rs: "rs = front @ [x]"
      using u under by (cases rs rule: rev_cases) (auto simp: layout_simps)
    have x: "leaf_entry_size E x \<le> MAX_LEAF_ENTRY_SIZE" using u(4) [of x] by (simp add: rs)
    have "rows_ok E (x # rs')" using leaves(7) by (auto simp: rs rows_ok_append rows_ok_Cons)
    moreover have "front \<noteq> []" using u(1,3) under x by (auto simp: rs layout_simps)
    moreover have "rows_size E rs' + leaf_entry_size E x \<le> LEAF_USABLE"
      using u(3) under x by (simp add: layout_simps)
    ultimately show False
      using refused inv leaf_borrow_left_eq [OF leaves(2,1)]
      by (simp add: borrow_from_left_def is_internal_def leaves(2) rs)
  next
    case (internals ks cs ks' cs')
    note u = internals_underfull [OF sib no internals(1,2)]
    obtain x front where ks: "ks = front @ [x]"
      using u(1,3) under inv by (cases ks rule: rev_cases) (auto simp: layout_simps)
    have "keys_ok E (x # sep # ks')"
      using internals(3) keys_ok_append [of E front "x # sep # ks'"] by (simp add: ks)
    moreover have "keys_size E ks' + internal_entry_size E sep \<le> INTERNAL_USABLE"
      using u(3) under inv by (simp add: layout_simps)
    ultimately show False
      using refused inv internal_borrow_left_eq [OF internals(2,1)]
      by (simp add: borrow_from_left_def is_internal_def internals(2) ks)
  qed
qed

text \<open>A move leaves the donor an entry, as its two pages do not fit in one.\<close>

lemma right_keeps_one:
  assumes sib: "siblings E l sep r" and no: "\<not> can_merge_with E l r sep"
    and small: "is_underfull E l \<or> entries_size E l < entries_size E r"
    and ok: "borrow_from_right E l r sep = (Ok sep', l', r')"
  shows "1 \<le> num_items r'"
proof -
  note inv = siblings_invs [OF sib]
  show ?thesis
  proof (use sib in \<open>cases rule: siblings_cases\<close>)
    case (leaves rs pv rs' n)
    then show ?thesis
      using ok inv leaf_borrow_right_eq [OF leaves(1,2)]
      by (auto simp: borrow_from_right_def is_internal_def num_items_def Suc_le_eq split: list.splits if_splits)
  next
    case (internals ks cs ks' cs')
    note u = internals_underfull [OF sib no internals(1,2)]
    have "ks' \<noteq> [x]" for x
    proof
      assume "ks' = [x]"
      then show False
        using u(1,2) small inv internals(3) by (auto simp: entries_size_def internals(1,2) keys_ok_append keys_ok_Cons layout_simps)
    qed
    then show ?thesis
      using ok inv internal_borrow_right_eq [OF internals(1,2)]
      by (auto simp: borrow_from_right_def is_internal_def internals(1) num_items_def Suc_le_eq split: list.splits if_splits)
  qed
qed

lemma left_keeps_one:
  assumes sib: "siblings E l sep r" and no: "\<not> can_merge_with E l r sep"
    and small: "is_underfull E r \<or> entries_size E r < entries_size E l"
    and ok: "borrow_from_left E r l sep = (Ok sep', r', l')"
  shows "1 \<le> num_items l'"
proof -
  note inv = siblings_invs [OF sib]
  show ?thesis
  proof (use sib in \<open>cases rule: siblings_cases\<close>)
    case (leaves rs pv rs' n)
    then show ?thesis
      using ok inv leaf_borrow_left_eq [OF leaves(2,1)]
      by (cases rs rule: rev_cases)
        (auto simp: borrow_from_left_def is_internal_def num_items_def Suc_le_eq split: list.splits if_splits)
  next
    case (internals ks cs ks' cs')
    note u = internals_underfull [OF sib no internals(1,2)]
    have two: "ks \<noteq> [x]" for x
    proof
      assume "ks = [x]"
      then show False
        using u(1,3) small inv internals(3) by (auto simp: entries_size_def internals(1,2) keys_ok_append keys_ok_Cons layout_simps)
    qed
    then show ?thesis
      using ok inv internal_borrow_left_eq [OF internals(2,1)] two [of "last ks"]
      by (cases ks rule: rev_cases)
        (auto simp: borrow_from_left_def is_internal_def internals(1,2) num_items_def Suc_le_eq split: list.splits if_splits)
  qed
qed

lemma some_entries: "a < entries_size E p \<Longrightarrow> 1 \<le> num_items p"
  by (cases "body p") (auto simp: entries_size_def num_items_def Suc_le_eq)

section \<open>The loops\<close>

lemma bulk_right_loop_moves:
  assumes "siblings E l sep r"
  shows "\<exists>sep' l' r'. bulk_right_loop E l r sep = (Ok sep', l', r') \<and> moved E l sep r l' sep' r' \<and>
    entries_size E l \<le> entries_size E l' \<and>
    (entries_size E r' \<le> entries_size E l' \<or>
      (\<exists>e. borrow_from_right E l' r' sep' = (Err e, l', r'))) \<and>
    (\<not> can_merge_with E l r sep \<longrightarrow> 1 \<le> num_items r \<longrightarrow> 1 \<le> num_items r')"
  using assms
proof (induction "num_items r" arbitrary: l sep r rule: less_induct)
  case less
  show ?case
  proof (cases "entries_size E l < entries_size E r")
    case False
    then have "bulk_right_loop E l r sep = (Ok sep, l, r)" by (subst bulk_right_loop.simps) simp
    then show ?thesis using moved_refl [OF less.prems] False by (simp add: not_less)
  next
    case True
    show ?thesis
    proof (use less.prems in \<open>cases rule: borrow_from_right_step\<close>)
      case (refused e)
      then have "bulk_right_loop E l r sep = (Ok sep, l, r)"
        using True by (subst bulk_right_loop.simps) auto
      then show ?thesis using moved_refl [OF less.prems] refused(1) by auto
    next
      case (moved sep1 l1 r1)
      have "num_items r1 < num_items r" using moved(1) by (rule borrow_from_right_shrinks)
      moreover have "siblings E l1 sep1 r1" using moved(2) by (simp add: moved_def)
      ultimately obtain sep' l' r' where loop: "bulk_right_loop E l1 r1 sep1 = (Ok sep', l', r')"
        "moved E l1 sep1 r1 l' sep' r'" "entries_size E l1 \<le> entries_size E l'"
        "entries_size E r' \<le> entries_size E l' \<or> (\<exists>e. borrow_from_right E l' r' sep' = (Err e, l', r'))"
        "\<not> can_merge_with E l1 r1 sep1 \<longrightarrow> 1 \<le> num_items r1 \<longrightarrow> 1 \<le> num_items r'"
        using less.hyps [of r1 l1 sep1] by blast
      have keep: "1 \<le> num_items r'" if "\<not> can_merge_with E l r sep"
        using that loop(5) can_merge_moved [OF less.prems moved(2)] True
          right_keeps_one [OF less.prems that _ moved(1)] by blast
      have "bulk_right_loop E l r sep = (Ok sep', l', r')"
        using True moved(1) loop(1) by (subst bulk_right_loop.simps) simp
      then show ?thesis
        using moved_trans [OF moved(2) loop(2)] moved(3) loop(3,4) keep by (intro exI conjI) auto
    qed
  qed
qed

lemma bulk_left_loop_moves:
  assumes "siblings E l sep r"
  shows "\<exists>sep' l' r'. bulk_left_loop E r l sep = (Ok sep', r', l') \<and> moved E l sep r l' sep' r' \<and>
    entries_size E r \<le> entries_size E r' \<and>
    (entries_size E l' \<le> entries_size E r' \<or>
      (\<exists>e. borrow_from_left E r' l' sep' = (Err e, r', l'))) \<and>
    (\<not> can_merge_with E l r sep \<longrightarrow> 1 \<le> num_items l \<longrightarrow> 1 \<le> num_items l')"
  using assms
proof (induction "num_items l" arbitrary: l sep r rule: less_induct)
  case less
  show ?case
  proof (cases "entries_size E r < entries_size E l")
    case False
    then have "bulk_left_loop E r l sep = (Ok sep, r, l)" by (subst bulk_left_loop.simps) simp
    then show ?thesis using moved_refl [OF less.prems] False by (simp add: not_less)
  next
    case True
    show ?thesis
    proof (use less.prems in \<open>cases rule: borrow_from_left_step\<close>)
      case (refused e)
      then have "bulk_left_loop E r l sep = (Ok sep, r, l)"
        using True by (subst bulk_left_loop.simps) auto
      then show ?thesis using moved_refl [OF less.prems] refused(1) by auto
    next
      case (moved sep1 l1 r1)
      have "num_items l1 < num_items l" using moved(1) by (rule borrow_from_left_shrinks)
      moreover have "siblings E l1 sep1 r1" using moved(2) by (simp add: moved_def)
      ultimately obtain sep' l' r' where loop: "bulk_left_loop E r1 l1 sep1 = (Ok sep', r', l')"
        "moved E l1 sep1 r1 l' sep' r'" "entries_size E r1 \<le> entries_size E r'"
        "entries_size E l' \<le> entries_size E r' \<or> (\<exists>e. borrow_from_left E r' l' sep' = (Err e, r', l'))"
        "\<not> can_merge_with E l1 r1 sep1 \<longrightarrow> 1 \<le> num_items l1 \<longrightarrow> 1 \<le> num_items l'"
        using less.hyps [of l1 sep1 r1] by blast
      have keep: "1 \<le> num_items l'" if "\<not> can_merge_with E l r sep"
        using that loop(5) can_merge_moved [OF less.prems moved(2)] True
          left_keeps_one [OF less.prems that _ moved(1)] by blast
      have "bulk_left_loop E r l sep = (Ok sep', r', l')"
        using True moved(1) loop(1) by (subst bulk_left_loop.simps) simp
      then show ?thesis
        using moved_trans [OF moved(2) loop(2)] moved(3) loop(3,4) keep by (intro exI conjI) auto
    qed
  qed
qed

section \<open>When a bulk borrow from the right is refused, and where it stops\<close>

text \<open>
  \<open>refusal_right\<close> says of two siblings whether the right one can give its first entry, and with which error it is
  refused: the right page would be left with nothing (a leaf keeps a row, an internal page gives its last key), or
  the left page has no room. \<open>last_move_needed\<close> looks at two pages after a move: the left page without its last
  entry is smaller than the right one with that entry.
\<close>

fun refusal_right_body :: "env \<Rightarrow> page_id \<Rightarrow> page_body \<Rightarrow> key \<Rightarrow> page_body \<Rightarrow> page_error option" where
  "refusal_right_body E rid (Leaf rs _ _) sep (Leaf rs' _ _) =
     (if length rs' < 2 then Some (InvalidBorrow (EmptyBorrow rid))
      else if LEAF_USABLE < rows_size E rs + leaf_entry_size E (hd rs') then Some PageFull
      else None)"
| "refusal_right_body E rid (Internal ks _) sep (Internal ks' _) =
     (if ks' = [] then Some (InvalidBorrow (EmptyBorrow rid))
      else if INTERNAL_USABLE < keys_size E ks + internal_entry_size E sep then Some PageFull
      else None)"
| "refusal_right_body E rid _ sep _ = None"

definition refusal_right :: "env \<Rightarrow> page \<Rightarrow> key \<Rightarrow> page \<Rightarrow> page_error option" where
  "refusal_right E l sep r = refusal_right_body E (pg_id r) (body l) sep (body r)"

fun last_move_needed_body :: "env \<Rightarrow> page_body \<Rightarrow> key \<Rightarrow> page_body \<Rightarrow> bool" where
  "last_move_needed_body E (Leaf rs _ _) sep (Leaf rs' _ _) \<longleftrightarrow>
     rows_size E (butlast rs) < rows_size E (last rs # rs')"
| "last_move_needed_body E (Internal ks _) sep (Internal ks' _) \<longleftrightarrow>
     keys_size E (butlast ks) < keys_size E (sep # ks')"
| "last_move_needed_body E _ sep _ \<longleftrightarrow> False"

definition last_move_needed :: "env \<Rightarrow> page \<Rightarrow> key \<Rightarrow> page \<Rightarrow> bool" where
  "last_move_needed E l sep r \<longleftrightarrow> last_move_needed_body E (body l) sep (body r)"

lemma borrow_right_exact:
  assumes "siblings E l sep r"
  shows "case refusal_right E l sep r of
      Some e \<Rightarrow> borrow_from_right E l r sep = (Err e, l, r) \<and> (e = PageFull \<or> (\<exists>x. e = InvalidBorrow x))
    | None \<Rightarrow> \<exists>sep' l' r'. borrow_from_right E l r sep = (Ok sep', l', r') \<and> num_items l' = num_items l + 1 \<and>
        (entries_size E l < entries_size E r \<longrightarrow> last_move_needed E l' sep' r')"
proof (use assms in \<open>cases rule: siblings_cases\<close>)
  case (leaves rs pv rs' n)
  note eq = leaf_borrow_right_eq [OF leaves(1,2)
    siblings_invs [OF assms, THEN conjunct1] siblings_invs [OF assms, THEN conjunct2, THEN conjunct1]]
  have ok: "rows_ok E (rs @ [x])" if "rs' = x # rest" for x rest
    using leaves(7) that by (auto simp: rows_ok_append rows_ok_Cons)
  have leaf: "borrow_from_right E l r sep = leaf_borrow_from_right E l r"
    using leaves(1) by (simp add: borrow_from_right_def is_internal_def)
  show ?thesis
    using ok eq
    by (auto simp: leaf refusal_right_def last_move_needed_def leaves(1,2) num_items_def entries_size_def
        split: list.splits if_splits)
next
  case (internals ks cs ks' cs')
  note eq = internal_borrow_right_eq [OF internals(1,2)
    siblings_invs [OF assms, THEN conjunct1] siblings_invs [OF assms, THEN conjunct2, THEN conjunct1]
    siblings_invs [OF assms, THEN conjunct2, THEN conjunct2]]
  have ok: "keys_ok E (ks @ [sep, x])" if "ks' = x # rest" for x rest
    using internals(3) keys_ok_append [of E "ks @ [sep, x]" rest] that by simp
  have internal: "borrow_from_right E l r sep = internal_borrow_from_right E l r sep"
    using internals(1) by (simp add: borrow_from_right_def is_internal_def)
  show ?thesis
    using ok eq
    by (auto simp: internal refusal_right_def last_move_needed_def internals(1,2) num_items_def entries_size_def
        split: list.splits if_splits)
qed

lemma bulk_right_loop_stops:
  assumes "siblings E l sep r" and "bulk_right_loop E l r sep = (Ok sep', l', r')"
  shows "(entries_size E r' \<le> entries_size E l' \<or> refusal_right E l' sep' r' \<noteq> None) \<and>
    ((sep', l', r') = (sep, l, r) \<or> last_move_needed E l' sep' r')"
  using assms
proof (induction "num_items r" arbitrary: l sep r rule: less_induct)
  case less
  show ?case
  proof (cases "entries_size E l < entries_size E r")
    case False
    then show ?thesis using less.prems(2) by (subst (asm) bulk_right_loop.simps) (auto simp: not_less)
  next
    case True
    show ?thesis
    proof (cases "refusal_right E l sep r")
      case (Some e)
      then have "bulk_right_loop E l r sep = (Ok sep, l, r)"
        using True borrow_right_exact [OF less.prems(1)] by (subst bulk_right_loop.simps) auto
      then have "(sep', l', r') = (sep, l, r)" using less.prems(2) by simp
      then show ?thesis using Some by simp
    next
      case None
      obtain sep1 l1 r1 where b: "borrow_from_right E l r sep = (Ok sep1, l1, r1)" "last_move_needed E l1 sep1 r1"
        using borrow_right_exact [OF less.prems(1)] None True by auto
      have "siblings E l1 sep1 r1" using borrow_from_right_step [OF less.prems(1)] b(1) by (auto simp: moved_def)
      moreover have "bulk_right_loop E l1 r1 sep1 = (Ok sep', l', r')"
        using True b(1) less.prems(2) by (subst (asm) bulk_right_loop.simps) simp
      ultimately show ?thesis
        using less.hyps [OF borrow_from_right_shrinks [OF b(1)]] b(2) by auto
    qed
  qed
qed

section \<open>Bulk borrowing\<close>

text \<open>
  Where an underfull page cannot merge with its sibling, bulk borrowing succeeds: it is a move, the page is no longer
  underfull, and neither page is left without an entry.
\<close>

lemma bulk_right_helps:
  assumes sib: "siblings E l sep r" and no: "\<not> can_merge_with E l r sep" and under: "is_underfull E l"
  obtains sep' l' r' where "bulk_borrow_from_right E l r sep = (Ok sep', l', r')" "moved E l sep r l' sep' r'"
    "\<not> is_underfull E l'" "1 \<le> num_items l'" "1 \<le> num_items r'"
proof (use sib in \<open>cases rule: borrow_from_right_step\<close>)
  case (refused e)
  then show thesis using refused_right_not_underfull [OF sib no] under by blast
next
  case (moved sep1 l1 r1)
  then have sib1: "siblings E l1 sep1 r1" by (simp add: moved_def)
  have no1: "\<not> can_merge_with E l1 r1 sep1" using no can_merge_moved [OF sib moved(2)] by simp
  have one: "1 \<le> num_items r1" using right_keeps_one [OF sib no _ moved(1)] under by blast
  obtain sep' l' r' where loop: "bulk_right_loop E l1 r1 sep1 = (Ok sep', l', r')"
    "moved E l1 sep1 r1 l' sep' r'" "entries_size E l1 \<le> entries_size E l'"
    "entries_size E r' \<le> entries_size E l' \<or> (\<exists>e. borrow_from_right E l' r' sep' = (Err e, l', r'))"
    "\<not> can_merge_with E l1 r1 sep1 \<longrightarrow> 1 \<le> num_items r1 \<longrightarrow> 1 \<le> num_items r'"
    using bulk_right_loop_moves [OF sib1] by blast
  have sib': "siblings E l' sep' r'" using loop(2) by (simp add: moved_def)
  have no': "\<not> can_merge_with E l' r' sep'" using no1 can_merge_moved [OF sib1 loop(2)] by simp
  have "\<not> is_underfull E l'"
    using loop(4) larger_not_underfull(1) [OF sib' no'] refused_right_not_underfull [OF sib' no'] by blast
  moreover have "1 \<le> num_items l'" by (rule some_entries [OF less_le_trans [OF moved(3) loop(3)]])
  moreover have "1 \<le> num_items r'" using loop(5) no1 one by blast
  moreover have "bulk_borrow_from_right E l r sep = (Ok sep', l', r')"
    by (simp only: bulk_borrow_from_right_def moved(1) loop(1) prod.case result.case)
  moreover have "moved E l sep r l' sep' r'" by (rule moved_trans [OF moved(2) loop(2)])
  ultimately show thesis by (intro that)
qed

lemma bulk_left_helps:
  assumes sib: "siblings E l sep r" and no: "\<not> can_merge_with E l r sep" and under: "is_underfull E r"
  obtains sep' l' r' where "bulk_borrow_from_left E r l sep = (Ok sep', r', l')" "moved E l sep r l' sep' r'"
    "\<not> is_underfull E r'" "1 \<le> num_items l'" "1 \<le> num_items r'"
proof (use sib in \<open>cases rule: borrow_from_left_step\<close>)
  case (refused e)
  then show thesis using refused_left_not_underfull [OF sib no] under by blast
next
  case (moved sep1 l1 r1)
  then have sib1: "siblings E l1 sep1 r1" by (simp add: moved_def)
  have no1: "\<not> can_merge_with E l1 r1 sep1" using no can_merge_moved [OF sib moved(2)] by simp
  have one: "1 \<le> num_items l1" using left_keeps_one [OF sib no _ moved(1)] under by blast
  obtain sep' l' r' where loop: "bulk_left_loop E r1 l1 sep1 = (Ok sep', r', l')"
    "moved E l1 sep1 r1 l' sep' r'" "entries_size E r1 \<le> entries_size E r'"
    "entries_size E l' \<le> entries_size E r' \<or> (\<exists>e. borrow_from_left E r' l' sep' = (Err e, r', l'))"
    "\<not> can_merge_with E l1 r1 sep1 \<longrightarrow> 1 \<le> num_items l1 \<longrightarrow> 1 \<le> num_items l'"
    using bulk_left_loop_moves [OF sib1] by (elim exE conjE) (rule that)
  have sib': "siblings E l' sep' r'" using loop(2) by (simp add: moved_def)
  have no': "\<not> can_merge_with E l' r' sep'" using no1 can_merge_moved [OF sib1 loop(2)] by simp
  have "\<not> is_underfull E r'"
    using loop(4) larger_not_underfull(2) [OF sib' no'] refused_left_not_underfull [OF sib' no'] by blast
  moreover have "1 \<le> num_items r'" by (rule some_entries [OF less_le_trans [OF moved(3) loop(3)]])
  moreover have "1 \<le> num_items l'" using loop(5) no1 one by blast
  moreover have "bulk_borrow_from_left E r l sep = (Ok sep', r', l')"
    by (simp only: bulk_borrow_from_left_def moved(1) loop(1) prod.case result.case)
  moreover have "moved E l sep r l' sep' r'" by (rule moved_trans [OF moved(2) loop(2)])
  ultimately show thesis by (intro that)
qed

lemma merge_siblings_eq:
  assumes "siblings E l sep r"
  shows "if can_merge_with E l r sep
    then \<exists>l'. merge_from_right E l r sep = (Ok (pg_id r), l', make_free r) \<and> page_inv E l' \<and>
      body_contents (body l') = pair_contents l sep r \<and> pg_id l' = pg_id l \<and>
      page_next (body l') = page_next (body r) \<and> page_prev (body l') = page_prev (body l) \<and>
      last_update l' = last_update l
    else merge_from_right E l r sep = (Err PageFull, l, r)"
proof (use assms in \<open>cases rule: siblings_cases\<close>)
  case (leaves rs pv rs' n)
  let ?l = "l\<lparr>body := Leaf (rs @ rs') n pv\<rparr>"
  have "page_inv E ?l" if "rows_size E rs + rows_size E rs' \<le> LEAF_USABLE"
    using that leaves(7) by (simp add: page_inv_leaf [of ?l, simplified])
  then show ?thesis
    using leaf_merge_eq [OF leaves(1,2)] leaves(7) siblings_invs [OF assms] can_merge_siblings [OF assms]
    by (auto simp: merge_from_right_def is_internal_def leaves(1,2) pair_contents_def usable_def)
next
  case (internals ks cs ks' cs')
  let ?l = "l\<lparr>body := Internal (ks @ sep # ks') (cs @ cs')\<rparr>"
  have "page_inv E ?l" if "keys_size E ks + internal_entry_size E sep + keys_size E ks' \<le> INTERNAL_USABLE"
    using that internals(3-5) by (simp add: page_inv_internal [of ?l, simplified])
  then show ?thesis
    using internal_merge_eq [OF internals(1,2)] internals(3) siblings_invs [OF assms]
      can_merge_siblings [OF assms]
    by (auto simp: merge_from_right_def is_internal_def internals(1,2) pair_contents_def usable_def)
qed

section \<open>Two concrete siblings\<close>

definition demo_left :: page where
  "demo_left = demo_leaf 2 [demo_row 1, demo_row 2] (Some 3) None"

definition demo_right :: page where
  "demo_right = demo_leaf 3 (map big_row [4, 5, 6, 7]) None (Some 2)"

definition demo_left_full :: page where
  "demo_left_full = demo_leaf 2 (map big_row [4, 5, 6, 7]) (Some 3) None"

definition demo_right_small :: page where
  "demo_right_small = demo_leaf 3 [demo_row 8, demo_row 9] None (Some 2)"

definition demo_right_single :: page where
  "demo_right_single = demo_leaf 3 [demo_row 8] None (Some 2)"

lemmas demo_sibling_defs =
  demo_left_def demo_right_def demo_left_full_def demo_right_small_def demo_right_single_def

lemma demo_siblings:
  "siblings demo_env demo_left (IntegerK 4) demo_right"
  "siblings demo_env demo_left_full (IntegerK 8) demo_right_small"
  "siblings demo_env demo_left (IntegerK 8) demo_right_small"
  "siblings demo_env demo_left (IntegerK 8) demo_right_single"
  by (simp_all add: siblings_def demo_sibling_defs rows_ok_def layout_simps less_eq_key_def
      demo_leaf_def empty_page_def page_inv_iff)

lemma demo_underfull:
  "is_underfull demo_env demo_left" "is_underfull demo_env demo_right_small"
  by (simp_all add: is_underfull_def entries_size_def demo_sibling_defs layout_simps)

lemma demo_merges:
  "\<not> can_merge_with demo_env demo_left demo_right (IntegerK 4)"
  "\<not> can_merge_with demo_env demo_left_full demo_right_small (IntegerK 8)"
  "can_merge_with demo_env demo_left demo_right_small (IntegerK 8)"
  unfolding can_merge_siblings [OF demo_siblings(1)] can_merge_siblings [OF demo_siblings(2)]
    can_merge_siblings [OF demo_siblings(3)]
  by (simp_all add: pair_contents_def usable_def is_internal_def demo_sibling_defs layout_simps)

section \<open>Properties\<close>

text \<open>
  C16: bulk borrowing from the right sibling, exactly. Where the right page would be left with nothing or the left
  one has no room for the first entry, the result is that error and both pages are as they were. In every other
  case it succeeds: the two pages are siblings around the new separator and hold together exactly what they
  held before, and the left page has grown. It stops where the left page is at least as large as the right one or the next
  move would be refused, and no sooner and no later: with the last entry still on the right, the left page was the
  smaller one, unless that entry is the only one moved.
\<close>

theorem bulk_borrow_from_right_correct:
  assumes "siblings E l sep r"
  shows "case refusal_right E l sep r of
      Some e \<Rightarrow> bulk_borrow_from_right E l r sep = (Err e, l, r)
    | None \<Rightarrow> \<exists>sep' l' r'. bulk_borrow_from_right E l r sep = (Ok sep', l', r') \<and> siblings E l' sep' r' \<and>
        pair_contents l' sep' r' = pair_contents l sep r \<and> pg_id l' = pg_id l \<and> pg_id r' = pg_id r \<and>
        entries_size E l < entries_size E l' \<and>
        (entries_size E r' \<le> entries_size E l' \<or> refusal_right E l' sep' r' \<noteq> None) \<and>
        (num_items l' = num_items l + 1 \<or> last_move_needed E l' sep' r')"
proof (cases "refusal_right E l sep r")
  case (Some e)
  then show ?thesis using borrow_right_exact [OF assms] by (simp add: bulk_borrow_from_right_def)
next
  case None
  then obtain sep1 l1 r1 where b: "borrow_from_right E l r sep = (Ok sep1, l1, r1)" "num_items l1 = num_items l + 1"
    using borrow_right_exact [OF assms] by auto
  then have m: "moved E l sep r l1 sep1 r1" "entries_size E l < entries_size E l1"
    using borrow_from_right_step [OF assms] by auto
  then have sib: "siblings E l1 sep1 r1" by (simp add: moved_def)
  then obtain sep' l' r' where loop: "bulk_right_loop E l1 r1 sep1 = (Ok sep', l', r')"
    "moved E l1 sep1 r1 l' sep' r'" "entries_size E l1 \<le> entries_size E l'"
    using bulk_right_loop_moves by blast
  have "bulk_borrow_from_right E l r sep = (Ok sep', l', r')" by (simp add: bulk_borrow_from_right_def b(1) loop(1))
  moreover have "num_items l' = num_items l + 1 \<or> last_move_needed E l' sep' r'"
    using bulk_right_loop_stops [OF sib loop(1)] b(2) by auto
  ultimately show ?thesis
    using None m loop(2,3) bulk_right_loop_stops [OF sib loop(1)] by (auto simp: moved_def)
qed

text \<open>A borrow that succeeds, and one that a page of a single row refuses.\<close>

lemma bulk_borrow_from_right_correct_witness:
  "(\<exists>sep' l' r'. bulk_borrow_from_right demo_env demo_left demo_right (IntegerK 4) = (Ok sep', l', r') \<and>
      siblings demo_env l' sep' r' \<and> entries_size demo_env demo_left < entries_size demo_env l' \<and>
      (entries_size demo_env r' \<le> entries_size demo_env l' \<or> refusal_right demo_env l' sep' r' \<noteq> None)) \<and>
    bulk_borrow_from_right demo_env demo_left demo_right_single (IntegerK 8)
      = (Err (InvalidBorrow (EmptyBorrow (demo_id 3))), demo_left, demo_right_single)"
proof -
  have "refusal_right demo_env demo_left (IntegerK 4) demo_right = None"
    "refusal_right demo_env demo_left (IntegerK 8) demo_right_single = Some (InvalidBorrow (EmptyBorrow (demo_id 3)))"
    by (simp_all add: refusal_right_def demo_sibling_defs layout_simps)
  then show ?thesis
    using bulk_borrow_from_right_correct [OF demo_siblings(1)] bulk_borrow_from_right_correct [OF demo_siblings(4)]
    by auto
qed

text \<open>the same of bulk borrowing from the left sibling.\<close>

theorem bulk_borrow_from_left_correct:
  assumes "siblings E l sep r"
  shows "(\<exists>e. bulk_borrow_from_left E r l sep = (Err e, r, l)) \<or>
    (\<exists>sep' l' r'. bulk_borrow_from_left E r l sep = (Ok sep', r', l') \<and> siblings E l' sep' r' \<and>
      pair_contents l' sep' r' = pair_contents l sep r \<and> pg_id l' = pg_id l \<and> pg_id r' = pg_id r \<and>
      entries_size E r < entries_size E r')"
proof (use assms in \<open>cases rule: borrow_from_left_step\<close>)
  case (refused e)
  then show ?thesis by (simp add: bulk_borrow_from_left_def)
next
  case (moved sep1 l1 r1)
  then have "siblings E l1 sep1 r1" by (simp add: moved_def)
  then obtain sep' l' r' where loop: "bulk_left_loop E r1 l1 sep1 = (Ok sep', r', l')"
    "moved E l1 sep1 r1 l' sep' r'" "entries_size E r1 \<le> entries_size E r'"
    using bulk_left_loop_moves by blast
  then show ?thesis
    using moved by (auto simp: bulk_borrow_from_left_def moved_def)
qed

lemma bulk_borrow_from_left_correct_witness:
  "(\<exists>e. bulk_borrow_from_left demo_env demo_right_small demo_left_full (IntegerK 8)
      = (Err e, demo_right_small, demo_left_full)) \<or>
    (\<exists>sep' l' r'. bulk_borrow_from_left demo_env demo_right_small demo_left_full (IntegerK 8)
      = (Ok sep', r', l') \<and> siblings demo_env l' sep' r' \<and>
      entries_size demo_env demo_right_small < entries_size demo_env r')"
  using bulk_borrow_from_left_correct [OF demo_siblings(2)] by blast

text \<open>
  C11: an underfull page can always be helped. Of two siblings that are both underfull, a merge is
  possible; and where an underfull page cannot merge with its sibling, bulk borrowing from that
  sibling, on either side, succeeds and leaves it no longer underfull.
\<close>

theorem underfull_page_is_helped:
  assumes "siblings E l sep r"
  shows "(is_underfull E l \<and> is_underfull E r \<longrightarrow> can_merge_with E l r sep) \<and>
    (is_underfull E l \<and> \<not> can_merge_with E l r sep \<longrightarrow>
      (\<exists>sep' l' r'. bulk_borrow_from_right E l r sep = (Ok sep', l', r') \<and> \<not> is_underfull E l')) \<and>
    (is_underfull E r \<and> \<not> can_merge_with E l r sep \<longrightarrow>
      (\<exists>sep' l' r'. bulk_borrow_from_left E r l sep = (Ok sep', r', l') \<and> \<not> is_underfull E r'))"
proof (intro conjI impI)
  show "is_underfull E l \<and> is_underfull E r \<Longrightarrow> can_merge_with E l r sep"
    using larger_not_underfull(3) [OF assms] by blast
  assume "is_underfull E l \<and> \<not> can_merge_with E l r sep"
  then have under: "is_underfull E l" and no: "\<not> can_merge_with E l r sep" by simp_all
  show "\<exists>sep' l' r'. bulk_borrow_from_right E l r sep = (Ok sep', l', r') \<and> \<not> is_underfull E l'"
    using bulk_right_helps [OF assms no under] by metis
next
  assume "is_underfull E r \<and> \<not> can_merge_with E l r sep"
  then have under: "is_underfull E r" and no: "\<not> can_merge_with E l r sep" by simp_all
  show "\<exists>sep' l' r'. bulk_borrow_from_left E r l sep = (Ok sep', r', l') \<and> \<not> is_underfull E r'"
    using bulk_left_helps [OF assms no under] by metis
qed

lemma underfull_page_is_helped_witness:
  "(\<exists>sep' l' r'. bulk_borrow_from_right demo_env demo_left demo_right (IntegerK 4) = (Ok sep', l', r') \<and>
      \<not> is_underfull demo_env l') \<and>
    (\<exists>sep' l' r'. bulk_borrow_from_left demo_env demo_right_small demo_left_full (IntegerK 8)
      = (Ok sep', r', l') \<and> \<not> is_underfull demo_env r')"
  using underfull_page_is_helped [OF demo_siblings(1)] underfull_page_is_helped [OF demo_siblings(2)]
    demo_underfull demo_merges by blast

text \<open>
  C21: merging two siblings. When the merge fits, it returns the identifier of the right page,
  the left page holds everything the two held, in order, and is well-formed, a merged leaf takes
  over the right page's successor, and the right page is free; otherwise the result is a full
  page and both pages are unchanged. No other outcome is possible for siblings.
\<close>

theorem merge_siblings_correct:
  assumes "siblings E l sep r"
  shows "if can_merge_with E l r sep
    then \<exists>l'. merge_from_right E l r sep = (Ok (pg_id r), l', make_free r) \<and> page_inv E l' \<and>
      body_contents (body l') = pair_contents l sep r \<and> pg_id l' = pg_id l \<and>
      page_next (body l') = page_next (body r) \<and> page_prev (body l') = page_prev (body l)
    else merge_from_right E l r sep = (Err PageFull, l, r)"
  using merge_siblings_eq [OF assms] by (auto split: if_splits)

lemma merge_siblings_correct_witness:
  "(\<exists>l'. merge_from_right demo_env demo_left demo_right_small (IntegerK 8)
      = (Ok (demo_id 3), l', make_free demo_right_small) \<and>
      body_contents (body l') = Some (Rows [demo_row 1, demo_row 2, demo_row 8, demo_row 9])) \<and>
   merge_from_right demo_env demo_left demo_right (IntegerK 4) = (Err PageFull, demo_left, demo_right)"
  using merge_siblings_correct [OF demo_siblings(3)] merge_siblings_correct [OF demo_siblings(1)] demo_merges
  by (auto simp: pair_contents_def demo_left_def demo_right_small_def)

end
