(* ===== verification/Codec.thy ===== *)
theory Codec
  imports Page_Ops
begin

text \<open>
  \<^verbatim>\<open>src/page/codec.rs\<close>, with the two slot helpers of \<^verbatim>\<open>src/page/mod.rs\<close>: a page as 4096 bytes.
  A leaf or internal page grows from both ends: header, child pointers and slot entries from
  the front, the encoded rows or keys from the back. The writer is the cursor over the raw
  page, a pair of buffer and position; the reader is the list of the bytes behind the cursor,
  so the position is what is missing to \<^verbatim>\<open>PAGE_SIZE\<close>.
\<close>

section \<open>The cursor\<close>

type_synonym cursor = "byte list \<times> nat"

text \<open>
  \<^verbatim>\<open>write_all\<close> on a cursor over a fixed array: what does not fit is a \<^verbatim>\<open>WriteZero\<close> error, and then
  the cursor is dropped by every caller.
\<close>

fun write_all :: "byte list \<Rightarrow> cursor \<Rightarrow> (cursor, io_error) result" where
  "write_all bs (buf, pos) =
     (if bs = [] then Ok (buf, pos)
      else if pos + length bs \<le> length buf then
        Ok (take pos buf @ bs @ drop (pos + length bs) buf, pos + length bs)
      else Err WriteZero)"

fun seek :: "nat \<Rightarrow> cursor \<Rightarrow> cursor" where
  "seek n (buf, pos) = (buf, n)"

text \<open>\<^verbatim>\<open>value.serialize(writer)?\<close>: the value's own error, or the writer's, in the value's error type.\<close>

definition write_ser ::
  "('e \<Rightarrow> page_error) \<Rightarrow> (io_error \<Rightarrow> 'e) \<Rightarrow> (byte list, 'e) result \<Rightarrow> cursor \<Rightarrow>
   (cursor, page_error) result" where
  "write_ser wrap from_io s c =
     rbind (map_err wrap s) (\<lambda>bs. map_err (wrap \<circ> from_io) (write_all bs c))"

section \<open>Writing\<close>

definition write_header :: "page \<Rightarrow> cursor \<Rightarrow> (cursor, page_error) result" where
  "write_header p c =
     rbind (map_err PageIo (write_all [page_type_tag (body p)] c)) (\<lambda>c.
     rbind (write_ser PageIo id (page_id_serialize (pg_id p)) c) (\<lambda>c.
     rbind (write_ser PageLsnError LsnIo (page_lsn_serialize (last_update p)) c) (\<lambda>c.
     rbind (map_err PageIo (write_all (u32_be 0) c)) (\<lambda>c.
     rbind (case body p of
         Leaf _ next prev \<Rightarrow>
           rbind (write_ser PageIo id (option_serialize page_id_serialize next) c) (\<lambda>c.
             write_ser PageIo id (option_serialize page_id_serialize prev) c)
       | _ \<Rightarrow> Ok c) (\<lambda>c.
     map_err PageIo (write_all (u16_be (word_of_nat (num_items p))) c))))))"

text \<open>
  The loop over the records of a leaf, and over the keys of an internal page. \<^verbatim>\<open>data_offset -= len\<close>
  below zero panics with overflow checks; without them the huge offset makes the write fail.
\<close>

fun write_slots ::
  "env \<Rightarrow> ('a \<Rightarrow> (byte list, page_error) result) \<Rightarrow> 'a list \<Rightarrow> nat \<Rightarrow> nat \<Rightarrow> cursor \<Rightarrow>
   ((nat \<times> nat) \<times> cursor, page_error) result" where
  "write_slots E ser [] slot_offset data_offset c = Ok ((slot_offset, data_offset), c)"
| "write_slots E ser (x # xs) slot_offset data_offset c =
     rbind (ser x) (\<lambda>buffer.
       let len = length buffer in
       case checked_sub data_offset len of
         None \<Rightarrow> if debug_assertions E then Panic else Err (PageIo WriteZero)
       | Some data_offset' \<Rightarrow>
           rbind (map_err PageIo (write_all buffer (seek data_offset' c))) (\<lambda>c.
             let slot_entry = slot_entry_new (word_of_nat data_offset') (word_of_nat len) in
             rbind (write_ser PageIo id (slot_entry_serialize slot_entry) (seek slot_offset c)) (\<lambda>c.
               write_slots E ser xs (slot_offset + SLOT_ENTRY_SIZE) data_offset' c)))"

fun write_children :: "page_id list \<Rightarrow> nat \<Rightarrow> cursor \<Rightarrow> (nat \<times> cursor, page_error) result" where
  "write_children [] children_pos c = Ok (children_pos, c)"
| "write_children (child # rest) children_pos c =
     rbind (write_ser PageIo id (page_id_serialize child) (seek children_pos c)) (\<lambda>c.
       write_children rest (children_pos + PAGE_ID_SIZE) c)"

definition write_body ::
  "env \<Rightarrow> page \<Rightarrow> cursor \<Rightarrow> nat \<Rightarrow> ((nat \<times> nat) \<times> cursor, page_error) result" where
  "write_body E p c header_end =
     (case body p of
       Leaf records _ _ \<Rightarrow>
         write_slots E (\<lambda>r. map_err PageValue (row_serialize E r)) records header_end PAGE_SIZE c
     | Internal keys children \<Rightarrow>
         rbind (write_children children header_end c) (\<lambda>(children_pos, c).
           write_slots E (\<lambda>k. map_err PageKey (key_serialize E k)) keys children_pos PAGE_SIZE c)
     | Free next \<Rightarrow>
         rbind (write_ser PageIo id (option_serialize page_id_serialize next) c) (\<lambda>c.
           Ok ((0, 0), c))
     | Meta root_id page_count free_list_head schema table_name \<Rightarrow>
         rbind (write_ser PageIo id (page_id_serialize root_id) c) (\<lambda>c.
         rbind (map_err PageIo (write_all (u32_be page_count) c)) (\<lambda>c.
         rbind (write_ser PageIo id (option_serialize page_id_serialize free_list_head) c) (\<lambda>c.
         rbind (write_ser PageSchema SchemaIo (schema_serialize E schema) c) (\<lambda>c.
         rbind (map_err PageIo (write_all (encode_var_vec E (length table_name)) c)) (\<lambda>c.
         rbind (map_err PageIo (write_all table_name c)) (\<lambda>c.
           Ok ((0, 0), c))))))))"

definition page_checksum :: "env \<Rightarrow> byte list \<Rightarrow> 32 word" where
  "page_checksum E raw = crc32_stream E [take CHECKSUM_OFFSET raw, drop (CHECKSUM_OFFSET + 4) raw]"

definition as_raw_page :: "env \<Rightarrow> page \<Rightarrow> (byte list, page_error) result" where
  "as_raw_page E p =
     rbind (map_err (Corrupt (Some (pg_id p))) (check_invariants E p)) (\<lambda>_.
     rbind (write_header p (replicate PAGE_SIZE 0, 0)) (\<lambda>c.
       let header_end = snd c in
       rbind (write_body E p c header_end) (\<lambda>(_, c).
         let buf = fst c; crc = page_checksum E buf
         in Ok (take CHECKSUM_OFFSET buf @ u32_be crc @ drop (CHECKSUM_OFFSET + 4) buf))))"

definition page_serialize :: "env \<Rightarrow> page \<Rightarrow> (byte list, page_error) result" where
  "page_serialize E p = as_raw_page E p"

definition page_encoded_size :: "page \<Rightarrow> nat" where
  "page_encoded_size p = PAGE_SIZE"

section \<open>Reading\<close>

text \<open>\<^verbatim>\<open>expect\<close> on a result.\<close>

fun expect_ok :: "('a, 'e) result \<Rightarrow> ('a, 'f) result" where
  "expect_ok (Ok x) = Ok x"
| "expect_ok _ = Panic"

definition read_slot_ranges ::
  "nat \<Rightarrow> byte list \<Rightarrow> ((nat \<times> nat) list, corruption_kind) result" where
  "read_slot_ranges count c =
     rbind (expect_ok (deser_seq slot_entry_deserialize count c)) (\<lambda>(entries, c).
       let ranges = map slot_range entries;
           data_start = PAGE_SIZE - length c
       in (case position (\<lambda>(s, e). e \<le> s \<or> s < data_start \<or> e > PAGE_SIZE) ranges of
         Some i \<Rightarrow> Err (InvalidRange i (ranges ! i))
       | None \<Rightarrow>
           let by_start = sort_key (\<lambda>(_, r). fst r) (enumerate 0 ranges);
               windows = zip by_start (tl by_start)
           in (case position (\<lambda>(a, b). fst (snd b) < snd (snd a)) windows of
             Some i \<Rightarrow> Err (OverlappingSlots (fst (fst (windows ! i))) (fst (snd (windows ! i))))
           | None \<Rightarrow> Ok ranges)))"

fun decode_slot ::
  "('a, 'e) reader \<Rightarrow> byte list \<Rightarrow> nat \<Rightarrow> (nat \<Rightarrow> corruption_kind) \<Rightarrow> ('a, corruption_kind) result" where
  "decode_slot deser bytes slot decode_error =
     rbind (map_err (\<lambda>_. decode_error slot) (deser bytes)) (\<lambda>(value, remaining).
       if remaining \<noteq> [] then Err (TrailingBytes slot) else Ok value)"

text \<open>\<^verbatim>\<open>&buf[range]\<close>.\<close>

definition slice :: "byte list \<Rightarrow> nat \<times> nat \<Rightarrow> (byte list, 'e) result" where
  "slice buf r =
     (if fst r \<le> snd r \<and> snd r \<le> length buf then Ok (take (snd r - fst r) (drop (fst r) buf))
      else Panic)"

text \<open>The iterator over the ranges, collected up to the first error, from slot \<open>i\<close>.\<close>

fun decode_slots ::
  "('a, 'e) reader \<Rightarrow> (nat \<Rightarrow> corruption_kind) \<Rightarrow> byte list \<Rightarrow> nat \<Rightarrow> (nat \<times> nat) list \<Rightarrow>
   ('a list, corruption_kind) result" where
  "decode_slots deser decode_error buf i [] = Ok []"
| "decode_slots deser decode_error buf i (r # rs) =
     rbind (slice buf r) (\<lambda>bytes.
       rbind (decode_slot deser bytes i decode_error) (\<lambda>x.
         rbind (decode_slots deser decode_error buf (Suc i) rs) (\<lambda>xs. Ok (x # xs))))"

definition max_items :: "byte \<Rightarrow> (nat, page_error) result" where
  "max_items tag =
     (if tag = META_TAG then Ok 0
      else if tag = FREE_TAG then Ok 0
      else if tag = INTERNAL_TAG then Ok MAX_INTERNAL_ITEMS
      else if tag = LEAF_TAG then Ok MAX_LEAF_ITEMS
      else Err (Corrupt None (InvalidTag tag)))"

text \<open>\<^verbatim>\<open>vec![0u8; len]\<close> panics when the length exceeds \<^verbatim>\<open>isize::MAX\<close>.\<close>

definition alloc_limit :: nat where "alloc_limit = 2 ^ 63 - 1"

definition deserialize_body ::
  "env \<Rightarrow> byte list \<Rightarrow> byte \<Rightarrow> page_id \<Rightarrow> nat \<Rightarrow> page_id option \<Rightarrow> page_id option \<Rightarrow> byte list \<Rightarrow>
   (page_body, page_error) result" where
  "deserialize_body E buf tag pid n_items next prev c =
     (let corrupt = Corrupt (Some pid);
          read_pointer = (\<lambda>c. map_err (\<lambda>_. corrupt InvalidPointerTag)
            (option_deserialize id page_id_deserialize c))
      in if tag = LEAF_TAG then
        rbind (map_err corrupt (read_slot_ranges n_items c)) (\<lambda>ranges.
        rbind (map_err corrupt (decode_slots (row_deserialize E) CorruptRow buf 0 ranges)) (\<lambda>records.
          Ok (Leaf records next prev)))
      else if tag = INTERNAL_TAG then
        rbind (expect_ok (deser_seq page_id_deserialize (n_items + 1) c)) (\<lambda>(children, c).
        rbind (map_err corrupt (read_slot_ranges n_items c)) (\<lambda>ranges.
        rbind (map_err corrupt (decode_slots (key_deserialize E) CorruptKey buf 0 ranges)) (\<lambda>keys.
          Ok (Internal keys children))))
      else if tag = FREE_TAG then
        rbind (read_pointer c) (\<lambda>(next, c). Ok (Free next))
      else if tag = META_TAG then
        rbind (map_err (\<lambda>_. corrupt InvalidPointerTag) (page_id_deserialize c)) (\<lambda>(root_id, c).
        rbind (map_err PageIo (read_exact 4 c)) (\<lambda>(buf_four, c).
        rbind (read_pointer c) (\<lambda>(free_list_head, c).
        rbind (map_err (\<lambda>_. corrupt BadSchema) (schema_deserialize E c)) (\<lambda>(schema, c).
        rbind (map_err PageIo (read_varint E c)) (\<lambda>(name_len, c).
          if name_len > alloc_limit then Panic
          else rbind (map_err PageIo (read_exact name_len c)) (\<lambda>(name_buffer, c).
            rbind (map_err (\<lambda>_. PageUtf8Error) (from_utf8 name_buffer)) (\<lambda>table_name.
              Ok (Meta root_id (u32_from_be buf_four) free_list_head schema table_name))))))))
      else Panic)"

text \<open>From the item count on: the count, the body, and the invariant.\<close>

definition deserialize_items ::
  "env \<Rightarrow> byte list \<Rightarrow> byte \<Rightarrow> page_id \<Rightarrow> page_lsn \<Rightarrow> page_id option \<Rightarrow> page_id option \<Rightarrow>
   byte list \<Rightarrow> (page, page_error) result" where
  "deserialize_items E buf tag pid lu next_page prev_page c =
     rbind (map_err PageIo (read_exact 2 c)) (\<lambda>(buf_two, c).
     let n_items = unat (u16_from_be buf_two) in
     rbind (max_items tag) (\<lambda>max.
     if n_items > max then Err (Corrupt (Some pid) (TooManyItems n_items))
     else
       rbind (deserialize_body E buf tag pid n_items next_page prev_page c) (\<lambda>b.
       let page = \<lparr>pg_id = pid, last_update = lu, body = b\<rparr> in
       rbind (map_err (Corrupt (Some pid)) (check_invariants E page)) (\<lambda>_. Ok page))))"

definition page_deserialize :: "env \<Rightarrow> (page, page_error) reader" where
  "page_deserialize E bs =
     rbind (map_err PageIo (read_exact PAGE_SIZE bs)) (\<lambda>(buf, rest).
       let checksum = u32_from_be (take 4 (drop CHECKSUM_OFFSET buf)) in
       if page_checksum E buf \<noteq> checksum then Err (Corrupt None CheckSumMismatch)
       else
         rbind (map_err PageIo (read_u8 buf)) (\<lambda>(tag, c).
         rbind (map_err PageIo (page_id_deserialize c)) (\<lambda>(pid, c).
         rbind (map_err PageLsnError (page_lsn_deserialize c)) (\<lambda>(lu, _).
         let c = drop (CHECKSUM_OFFSET + 4) buf;
             read_pointer = (\<lambda>c. map_err (\<lambda>_. Corrupt (Some pid) InvalidPointerTag)
               (option_deserialize id page_id_deserialize c))
         in
         rbind (if tag = LEAF_TAG then
             rbind (read_pointer c) (\<lambda>(np, c). rbind (read_pointer c) (\<lambda>(pp, c). Ok (np, pp, c)))
           else Ok (None, None, c)) (\<lambda>(next_page, prev_page, c).
         rbind (deserialize_items E buf tag pid lu next_page prev_page c) (\<lambda>page.
           Ok (page, rest)))))))"

end
