(* ===== verification/Codec_Layout.thy ===== *)
theory Codec_Layout
  imports Codec
begin

text \<open>
  The byte layout that \<^verbatim>\<open>codec.rs\<close> writes, and that the reader finds in it what was written:
  the cursor that fills a zeroed page, the slot array that grows from the front while the data
  grows from the back, and the slot ranges read back from it.
\<close>

section \<open>Writing into zeros\<close>

lemma write_all_at:
  "length pre = pos \<Longrightarrow> length old = length bs \<Longrightarrow>
    write_all bs (pre @ old @ post, pos) = Ok (pre @ bs @ post, pos + length bs)"
  by auto

lemma write_all_zeros:
  assumes "length bs \<le> n"
  shows "write_all bs (pre @ replicate n 0, length pre) =
    Ok ((pre @ bs) @ replicate (n - length bs) 0, length (pre @ bs))"
proof -
  have "replicate n 0 = replicate (length bs) (0 :: byte) @ replicate (n - length bs) 0"
    using assms by (simp add: replicate_add [symmetric])
  then show ?thesis
    using write_all_at [of pre "length pre" "replicate (length bs) 0" bs
        "replicate (n - length bs) 0"] by simp
qed

lemma write_ser_zeros:
  assumes "s = Ok bs" and "length bs \<le> n"
  shows "write_ser wrap from_io s (pre @ replicate n 0, length pre) =
    Ok ((pre @ bs) @ replicate (n - length bs) 0, length (pre @ bs))"
  using assms(1) by (simp only: write_ser_def map_err.simps rbind.simps write_all_zeros [OF assms(2)])

text \<open>The bytes of the fixed-size values.\<close>

definition pid_bytes :: "page_id \<Rightarrow> byte list" where
  "pid_bytes p = u32_be (table_id_get (get_table_id p)) @ u32_be (get_page_num p)"

definition lsn_bytes :: "page_lsn \<Rightarrow> byte list" where
  "lsn_bytes l = (case page_lsn_get l of Some x \<Rightarrow> u64_be (lsn_get x) | None \<Rightarrow> u64_be 0)"

fun opt_bytes :: "page_id option \<Rightarrow> byte list" where
  "opt_bytes None = [0]"
| "opt_bytes (Some p) = 1 # pid_bytes p"

definition entry_bytes :: "slot_entry \<Rightarrow> byte list" where
  "entry_bytes s = u16_be (offset s) @ u16_be (slot_len s)"

lemma ser_bytes:
  "page_id_serialize p = Ok (pid_bytes p)"
  "page_lsn_serialize l = Ok (lsn_bytes l)"
  "option_serialize page_id_serialize o' = Ok (opt_bytes o')"
  "slot_entry_serialize s = Ok (entry_bytes s)"
  by (auto simp: page_id_serialize_def table_id_serialize_def pid_bytes_def page_lsn_serialize_def
      lsn_bytes_def slot_entry_serialize_def entry_bytes_def split: option.split)
    (cases o'; simp add: page_id_serialize_def table_id_serialize_def pid_bytes_def)

lemma length_ser_bytes [simp]:
  "length (pid_bytes p) = 8" "length (lsn_bytes l) = 8" "length (entry_bytes s) = 4"
  by (simp_all add: pid_bytes_def lsn_bytes_def entry_bytes_def split: option.split)

lemma length_opt_bytes: "length (opt_bytes o') \<le> 9" "1 \<le> length (opt_bytes o')"
  by (cases o'; simp)+

lemma deser_bytes:
  "page_id_deserialize (pid_bytes p @ rest) = Ok (p, rest)"
  "page_lsn_wf l \<Longrightarrow> page_lsn_deserialize (lsn_bytes l @ rest) = Ok (l, rest)"
  "option_deserialize id page_id_deserialize (opt_bytes o' @ rest) = Ok (o', rest)"
  using page_id.deser_ser [OF TrueI ser_bytes(1)] page_lsn.deser_ser [OF _ ser_bytes(2)]
    page_id.opt.deser_ser [of o', OF _ ser_bytes(3)] by simp_all

section \<open>The slot array\<close>

text \<open>Items of the given sizes, laid out downwards from offset \<open>d\<close>: their slots and their ranges.\<close>

fun slot_entries :: "nat \<Rightarrow> nat list \<Rightarrow> slot_entry list" where
  "slot_entries d [] = []"
| "slot_entries d (l # ls) =
     slot_entry_new (word_of_nat (d - l)) (word_of_nat l) # slot_entries (d - l) ls"

fun slot_ranges :: "nat \<Rightarrow> nat list \<Rightarrow> (nat \<times> nat) list" where
  "slot_ranges d [] = []"
| "slot_ranges d (l # ls) = (d - l, d) # slot_ranges (d - l) ls"

definition slot_array :: "nat \<Rightarrow> nat list \<Rightarrow> byte list" where
  "slot_array d ls = concat (map entry_bytes (slot_entries d ls))"

lemma length_slot_entries [simp]: "length (slot_entries d ls) = length ls"
  by (induction ls arbitrary: d) auto

lemma length_slot_ranges [simp]: "length (slot_ranges d ls) = length ls"
  by (induction ls arbitrary: d) auto

lemma length_slot_array [simp]: "length (slot_array d ls) = 4 * length ls"
  by (induction ls arbitrary: d) (auto simp: slot_array_def)

lemma slot_array_simps [simp]:
  "slot_array d [] = []"
  "slot_array d (l # ls) =
    entry_bytes (slot_entry_new (word_of_nat (d - l)) (word_of_nat l)) @ slot_array (d - l) ls"
  by (simp_all add: slot_array_def)

lemma write_slots_layout:
  assumes "\<forall>x \<in> set xs. ser x = Ok (enc x)"
    and "4 * length xs + sum_list (map (\<lambda>x. length (enc x)) xs) \<le> g"
  shows "\<exists>pos. write_slots E ser xs (length pre) (length pre + g) (pre @ replicate g 0 @ post, pos0) =
    Ok ((length pre + 4 * length xs, length pre + g - sum_list (map (\<lambda>x. length (enc x)) xs)),
      (pre @ slot_array (length pre + g) (map (\<lambda>x. length (enc x)) xs)
        @ replicate (g - (4 * length xs + sum_list (map (\<lambda>x. length (enc x)) xs))) 0
        @ concat (rev (map enc xs)) @ post, pos))"
  using assms
proof (induction xs arbitrary: pre g post pos0)
  case Nil
  then show ?case by simp
next
  case (Cons x xs)
  let ?l = "length (enc x)" and ?T = "sum_list (map (\<lambda>x. length (enc x)) xs)"
  let ?d = "length pre + (g - ?l)"
  let ?s = "slot_entry_new (word_of_nat ?d) (word_of_nat ?l) :: slot_entry"
  define g' where "g' = g - ?l - 4"
  have g: "g - ?l = 4 + g'" "g = 4 + g' + ?l" "4 * length xs + ?T \<le> g'"
    using Cons.prems(2) by (simp_all add: g'_def)
  have zeros: "pre @ replicate g 0 @ post = (pre @ replicate (4 + g') 0) @ replicate ?l 0 @ post"
    by (simp add: g(2) replicate_add)
  have w1: "write_all (enc x) (pre @ replicate g 0 @ post, ?d) =
      Ok (pre @ replicate 4 0 @ replicate g' 0 @ enc x @ post, ?d + ?l)"
    unfolding zeros using write_all_at [of "pre @ replicate (4 + g') 0" ?d "replicate ?l 0" "enc x" post]
    by (simp add: g(1) replicate_add)
  have w2: "write_all (entry_bytes ?s) (pre @ replicate 4 0 @ replicate g' 0 @ enc x @ post, length pre) =
      Ok (pre @ entry_bytes ?s @ replicate g' 0 @ enc x @ post, length pre + 4)"
    using write_all_at [of pre "length pre" "replicate 4 0" "entry_bytes ?s"
        "replicate g' 0 @ enc x @ post"] by simp
  obtain pos where ih: "write_slots E ser xs (length pre + 4) ?d
      (pre @ entry_bytes ?s @ replicate g' 0 @ enc x @ post, length pre + 4) =
    Ok ((length pre + 4 + 4 * length xs, ?d - ?T),
      (pre @ entry_bytes ?s @ slot_array ?d (map (\<lambda>x. length (enc x)) xs)
        @ replicate (g' - (4 * length xs + ?T)) 0 @ concat (rev (map enc xs)) @ enc x @ post, pos))"
    using Cons.IH [of g' "pre @ entry_bytes ?s" "enc x @ post" "length pre + 4"] Cons.prems(1) g(1,3)
    by (auto simp: add.assoc)
  have d: "checked_sub (length pre + g) ?l = Some ?d" using g(2) by simp
  have x: "ser x = Ok (enc x)" using Cons.prems(1) by simp
  have "write_slots E ser (x # xs) (length pre) (length pre + g) (pre @ replicate g 0 @ post, pos0) =
    write_slots E ser xs (length pre + 4) ?d
      (pre @ entry_bytes ?s @ replicate g' 0 @ enc x @ post, length pre + 4)"
    by (simp only: write_slots.simps x rbind.simps Let_def d option.case seek.simps w1
        map_err.simps write_ser_def ser_bytes(4) w2 SLOT_ENTRY_SIZE_def)
  also note ih
  finally show ?case
    using g(2,3) by (intro exI [of _ pos]) (simp add: add.assoc)
qed

section \<open>Reading the slots back\<close>

lemma slot_range_entry:
  "d \<le> 65535 \<Longrightarrow> l \<le> d \<Longrightarrow>
    slot_range (slot_entry_new (word_of_nat (d - l)) (word_of_nat l)) = (d - l, d)"
  by (simp add: slot_range_def slot_entry_new_def unat_of_nat del: of_nat_diff)

lemma slot_ranges_entries:
  "d \<le> 65535 \<Longrightarrow> sum_list ls \<le> d \<Longrightarrow> map slot_range (slot_entries d ls) = slot_ranges d ls"
  by (induction ls arbitrary: d) (auto simp: slot_range_entry simp del: of_nat_diff)

lemma slot_ranges_bounds:
  "\<forall>l \<in> set ls. 0 < l \<Longrightarrow> sum_list ls \<le> d \<Longrightarrow> (s, e) \<in> set (slot_ranges d ls) \<Longrightarrow>
    s < e \<and> d - sum_list ls \<le> s \<and> e \<le> d"
proof (induction ls arbitrary: d)
  case Nil
  then show ?case by simp
next
  case (Cons l ls)
  then consider "s = d - l" "e = d" | "(s, e) \<in> set (slot_ranges (d - l) ls)" by auto
  then show ?case
  proof cases
    case 1
    then show ?thesis using Cons.prems by simp
  next
    case 2
    then have "s < e \<and> d - l - sum_list ls \<le> s \<and> e \<le> d - l"
      using Cons.prems by (intro Cons.IH) simp_all
    then show ?thesis by (auto intro: order_trans [OF _ diff_le_self])
  qed
qed

lemma insort_key_last: "\<forall>y \<in> set ys. f y < f x \<Longrightarrow> insort_key f x ys = ys @ [x]"
  by (induction ys) auto

lemma sort_key_descending: "sorted_wrt (\<lambda>a b. f b < f a) xs \<Longrightarrow> sort_key f xs = rev xs"
  by (induction xs) (auto simp: insort_key_last)

lemma slot_ranges_descending:
  "\<forall>l \<in> set ls. 0 < l \<Longrightarrow> sum_list ls \<le> d \<Longrightarrow>
    sorted_wrt (\<lambda>a b. fst b < fst a) (slot_ranges d ls)"
proof (induction ls arbitrary: d)
  case Nil
  then show ?case by simp
next
  case (Cons l ls)
  then have "fst r < d - l" if "r \<in> set (slot_ranges (d - l) ls)" for r
    using slot_ranges_bounds [of ls "d - l" "fst r" "snd r"] that by force
  then show ?case using Cons by auto
qed

lemma enumerate_member: "(n, x) \<in> set (enumerate i rs) \<Longrightarrow> x \<in> set rs"
  by (auto simp: in_set_enumerate_eq)

lemma enumerate_descending:
  "sorted_wrt (\<lambda>a b. fst b < fst a) rs \<Longrightarrow>
    sorted_wrt (\<lambda>a b. fst (snd b) < fst (snd a)) (enumerate i rs)"
proof (induction rs arbitrary: i)
  case Nil
  then show ?case by simp
next
  case (Cons r rs)
  then have "fst (snd b) < fst r" if "b \<in> set (enumerate (Suc i) rs)" for b
    using that enumerate_member [of "fst b" "snd b"] by auto
  then show ?case using Cons by simp
qed

lemma slot_ranges_adjacent:
  "successively (\<lambda>a b. snd (snd b) \<le> fst (snd a)) (enumerate i (slot_ranges d ls))"
proof (induction ls arbitrary: d i)
  case Nil
  then show ?case by simp
next
  case (Cons l ls)
  then show ?case using Cons [of "Suc i" "d - l"] by (cases ls) auto
qed

lemma read_slot_ranges_layout:
  assumes "\<forall>l \<in> set ls. 0 < l" and "sum_list ls \<le> d" and "d \<le> PAGE_SIZE"
    and "PAGE_SIZE - length rest + sum_list ls \<le> d"
  shows "read_slot_ranges (length ls) (slot_array d ls @ rest) = Ok (slot_ranges d ls)"
proof -
  let ?rs = "slot_ranges d ls" and ?es = "slot_entries d ls"
  have "ser_seq slot_entry_serialize xs = Ok (concat (map entry_bytes xs))" for xs
    by (induction xs) (simp_all add: ser_bytes)
  then have read: "deser_seq slot_entry_deserialize (length ls) (slot_array d ls @ rest) = Ok (?es, rest)"
    using slot_entry.seq.deser_ser [of ?es ?es "slot_array d ls" rest] by (simp add: slot_array_def)
  have ranges: "map slot_range ?es = ?rs"
    using assms(2,3) by (intro slot_ranges_entries) (simp_all add: layout_simps)
  have "\<forall>(s, e) \<in> set ?rs. \<not> (e \<le> s \<or> s < PAGE_SIZE - length rest \<or> PAGE_SIZE < e)"
    using slot_ranges_bounds [OF assms(1,2)] assms(3,4) by fastforce
  then have inside: "position (\<lambda>(s, e). e \<le> s \<or> s < PAGE_SIZE - length rest \<or> PAGE_SIZE < e) ?rs = None"
    by (auto simp: position_None_iff)
  let ?L = "enumerate 0 ?rs"
  have sort: "sort_key (\<lambda>(_, r). fst r) ?L = rev ?L"
    using enumerate_descending [OF slot_ranges_descending [OF assms(1,2)], of 0]
    by (intro sort_key_descending) (simp add: case_prod_unfold)
  have "successively (\<lambda>a b. snd (snd a) \<le> fst (snd b)) (rev ?L)"
    using slot_ranges_adjacent [of 0 d ls] by (simp add: successively_rev)
  then have "position (\<lambda>(a, b). fst (snd b) < snd (snd a)) (zip (rev ?L) (tl (rev ?L))) = None"
    by (auto simp: position_None_iff successively_conv_zip)
  then show ?thesis
    using inside by (simp add: read_slot_ranges_def read ranges sort Let_def)
qed

lemma decode_slots_layout:
  assumes "\<forall>x \<in> set xs. deser (enc x) = Ok (x, [])"
    and "buf = A @ concat (rev (map enc xs)) @ post"
    and "d = length A + sum_list (map (\<lambda>x. length (enc x)) xs)"
  shows "decode_slots deser err buf i (slot_ranges d (map (\<lambda>x. length (enc x)) xs)) = Ok xs"
  using assms
proof (induction xs arbitrary: d post i)
  case Nil
  then show ?case by simp
next
  case (Cons x xs)
  let ?B = "A @ concat (rev (map enc xs))"
  have buf: "buf = ?B @ enc x @ post" using Cons.prems(2) by simp
  have d: "d - length (enc x) = length ?B" "d = length ?B + length (enc x)"
    using Cons.prems(3) by (simp_all add: length_concat rev_map [symmetric] sum_list_rev comp_def)
  have s: "slice buf (d - length (enc x), d) = Ok (enc x)"
    unfolding slice_def using d by (simp add: buf)
  have ih: "decode_slots deser err buf (Suc i)
      (slot_ranges (d - length (enc x)) (map (\<lambda>x. length (enc x)) xs)) = Ok xs"
    using Cons.prems by (intro Cons.IH [of "enc x @ post"]) simp_all
  show ?case using Cons.prems(1) by (simp add: s ih)
qed

end
