(* ===== verification/Codec_Correct.thy ===== *)
theory Codec_Correct
  imports Codec_Layout
begin

text \<open>
  The page codec is correct: a well-formed page serialises to exactly one raw page, and
  deserialising that raw page gives the page back. The other direction is safety: whatever the
  bytes are, what deserialisation accepts satisfies the page invariant.
\<close>

section \<open>What a storable page holds\<close>

text \<open>
  Beyond \<open>page_inv\<close>: strings are UTF-8 and LSNs are not 0, which the Rust types guarantee, rows
  have at most 255 fields, and a table's schema is valid with column names that can be read back.
\<close>

definition page_wf :: "page \<Rightarrow> bool" where
  "page_wf p \<longleftrightarrow> page_lsn_wf (last_update p) \<and>
    (case body p of
      Leaf rs _ _ \<Rightarrow> \<forall>r \<in> set rs. row_wf r
    | Internal ks _ \<Rightarrow> \<forall>k \<in> set ks. key_wf k
    | Meta _ _ _ s nm \<Rightarrow> schema_wf s \<and> utf8_valid nm
    | Free _ \<Rightarrow> True)"

section \<open>The number of items fits\<close>

lemma key_size_ge: "varint_ok E \<Longrightarrow> key_wf k \<Longrightarrow> 2 \<le> key_encoded_size E k"
  using varint_field(2) [of E] by (cases k) (fastforce simp: key_wf_def)+

lemma row_size_ge:
  assumes "varint_ok E" and "row_wf r" and "row_fits E r"
  shows "3 \<le> row_encoded_size E r"
proof -
  obtain vs where vs: "row_fields r = key_to_row_value (the_key r) # vs"
    using row_fits_key [OF assms(3)] by (auto simp: row_key_Some_iff)
  then have "key_wf (the_key r)" using assms(2) by (simp add: row_wf_def key_wf_def)
  then show ?thesis
    using key_size_ge [OF assms(1), of "the_key r"] by (simp add: row_encoded_size_def vs key_encoded_size_row_value)
qed

lemma num_items_bound:
  assumes "varint_ok E" and "page_inv E p" and "page_wf p"
  shows "\<exists>m. max_items (page_type_tag (body p)) = Ok m \<and> num_items p \<le> m \<and> m < 65536"
proof (cases "body p")
  case (Leaf rs n pv)
  have ok: "rows_size E rs \<le> LEAF_USABLE" "\<forall>r \<in> set rs. row_fits E r"
    using assms(2) by (auto simp: page_inv_leaf [OF Leaf] rows_ok_def)
  have "\<forall>r \<in> set rs. 7 \<le> leaf_entry_size E r"
    using assms(1,3) ok(2) row_size_ge
    by (fastforce simp: page_wf_def Leaf leaf_entry_size_def layout_simps)
  then have "length rs * 7 \<le> rows_size E rs" by (rule sum_list_lower_bound)
  then show ?thesis
    using ok(1) by (simp add: Leaf num_items_def max_items_def tag_defs layout_simps)
next
  case (Internal ks cs)
  have ok: "keys_size E ks \<le> INTERNAL_USABLE" using assms(2) by (simp add: page_inv_internal [OF Internal])
  have "\<forall>k \<in> set ks. 14 \<le> internal_entry_size E k"
    using assms(1,3) key_size_ge
    by (fastforce simp: page_wf_def Internal internal_entry_size_def layout_simps)
  then have "length ks * 14 \<le> keys_size E ks" by (rule sum_list_lower_bound)
  then show ?thesis
    using ok by (simp add: Internal num_items_def max_items_def tag_defs layout_simps)
qed (simp_all add: num_items_def max_items_def tag_defs)

section \<open>The header\<close>

text \<open>The cursor after \<open>pre\<close> has been written to a zeroed page.\<close>

definition cursor_at :: "byte list \<Rightarrow> cursor" where
  "cursor_at pre = (pre @ replicate (PAGE_SIZE - length pre) 0, length pre)"

lemma write_all_cursor:
  "length pre + length bs \<le> PAGE_SIZE \<Longrightarrow> write_all bs (cursor_at pre) = Ok (cursor_at (pre @ bs))"
  unfolding cursor_at_def by (subst write_all_zeros) simp_all

lemma write_ser_cursor:
  "s = Ok bs \<Longrightarrow> length pre + length bs \<le> PAGE_SIZE \<Longrightarrow>
    write_ser wrap from_io s (cursor_at pre) = Ok (cursor_at (pre @ bs))"
  by (simp add: write_ser_def write_all_cursor del: write_all.simps)

fun pointer_bytes :: "page_body \<Rightarrow> byte list" where
  "pointer_bytes (Leaf _ next prev) = opt_bytes next @ opt_bytes prev"
| "pointer_bytes _ = []"

definition header_front :: "page \<Rightarrow> byte list" where
  "header_front p = page_type_tag (body p) # pid_bytes (pg_id p) @ lsn_bytes (last_update p)"

definition header_back :: "page \<Rightarrow> byte list" where
  "header_back p = pointer_bytes (body p) @ u16_be (word_of_nat (num_items p))"

definition header_size :: "page \<Rightarrow> nat" where
  "header_size p = 21 + length (header_back p)"

lemma length_header_front [simp]: "length (header_front p) = 17"
  by (simp add: header_front_def)

lemma header_size_bounds:
  "header_size p \<le> (if is_leaf p then MAX_LEAF_HEADER_SIZE else MAX_INTERNAL_HEADER_SIZE)"
  "23 \<le> header_size p"
proof -
  have "length (pointer_bytes b) \<le> (if is_leaf_body b then 18 else 0)" for b
  proof (cases b)
    case (Leaf rs n pv)
    then show ?thesis using length_opt_bytes(1) [of n] length_opt_bytes(1) [of pv] by simp
  qed auto
  from this [of "body p"]
  show "header_size p \<le> (if is_leaf p then MAX_LEAF_HEADER_SIZE else MAX_INTERNAL_HEADER_SIZE)"
    by (auto simp: header_size_def header_back_def is_leaf_def layout_simps split: if_splits)
qed (simp add: header_size_def header_back_def)

lemma header_size_page: "header_size p \<le> 41"
  using header_size_bounds(1) [of p] by (simp add: layout_simps split: if_splits)

lemma write_header_eq:
  "write_header p (replicate PAGE_SIZE 0, 0) =
    Ok (cursor_at (header_front p @ u32_be 0 @ header_back p))"
proof -
  have start: "(replicate PAGE_SIZE 0, 0) = cursor_at []" by (simp add: cursor_at_def)
  have size: "length (pointer_bytes (body p)) \<le> 18"
    using header_size_page [of p] by (simp add: header_size_def header_back_def)
  show ?thesis
  proof (cases "body p")
    case (Leaf rs n pv)
    have "length (opt_bytes n) + length (opt_bytes pv) \<le> 18" using size by (simp add: Leaf)
    then show ?thesis unfolding start
      by (simp add: write_header_def write_all_cursor write_ser_cursor ser_bytes
          header_front_def header_back_def Leaf PAGE_SIZE_def del: write_all.simps)
  qed (unfold start, simp_all add: write_header_def write_all_cursor write_ser_cursor ser_bytes
      header_front_def header_back_def PAGE_SIZE_def del: write_all.simps)
qed

section \<open>The bodies\<close>

text \<open>
  What a body must become for the round trip: \<open>tail\<close> fills the page behind the header, and the
  reader gets the body back from any raw page that has that header size and that tail.
\<close>

definition stores :: "env \<Rightarrow> page \<Rightarrow> byte list \<Rightarrow> bool" where
  "stores E p tail \<longleftrightarrow>
     (\<forall>pre. length pre = header_size p \<longrightarrow>
       (\<exists>offs pos. write_body E p (cursor_at pre) (length pre) = Ok (offs, (pre @ tail, pos)))) \<and>
     length tail = PAGE_SIZE - header_size p \<and>
     (\<forall>raw pre. raw = pre @ tail \<longrightarrow> length pre = header_size p \<longrightarrow>
       (\<forall>next prev. (\<forall>rs n pv. body p = Leaf rs n pv \<longrightarrow> next = n \<and> prev = pv) \<longrightarrow>
         deserialize_body E raw (page_type_tag (body p)) (pg_id p) (num_items p) next prev tail
           = Ok (body p)))"

text \<open>Slots and data, for rows and keys alike.\<close>

definition slotted :: "nat \<Rightarrow> ('a \<Rightarrow> byte list) \<Rightarrow> 'a list \<Rightarrow> byte list" where
  "slotted start enc xs =
     (let ls = map (\<lambda>x. length (enc x)) xs
      in slot_array PAGE_SIZE ls @
         replicate (PAGE_SIZE - start - (4 * length xs + sum_list ls)) 0 @ concat (rev (map enc xs)))"

lemma length_slotted:
  "start + 4 * length xs + sum_list (map (\<lambda>x. length (enc x)) xs) \<le> PAGE_SIZE \<Longrightarrow>
    length (slotted start enc xs) = PAGE_SIZE - start"
  by (simp add: slotted_def length_concat rev_map [symmetric] sum_list_rev comp_def Let_def)

lemma write_slotted:
  assumes "\<forall>x \<in> set xs. ser x = Ok (enc x)"
    and "length pre + 4 * length xs + sum_list (map (\<lambda>x. length (enc x)) xs) \<le> PAGE_SIZE"
  shows "\<exists>offs pos. write_slots E ser xs (length pre) PAGE_SIZE
      (pre @ replicate (PAGE_SIZE - length pre) 0, pos0) = Ok (offs, (pre @ slotted (length pre) enc xs, pos))"
proof -
  have len: "4 * length xs + sum_list (map (\<lambda>x. length (enc x)) xs) \<le> PAGE_SIZE - length pre"
    using assms(2) by arith
  show ?thesis
    using write_slots_layout [OF assms(1) len, of E pre "[]" pos0] assms(2)
    by (auto simp: slotted_def Let_def)
qed

lemma read_slotted:
  assumes "\<forall>x \<in> set xs. deser (enc x) = Ok (x, []) \<and> 0 < length (enc x)"
    and size: "start + 4 * length xs + sum_list (map (\<lambda>x. length (enc x)) xs) \<le> PAGE_SIZE"
    and raw: "raw = pre @ slotted start enc xs" and start: "length pre = start"
  shows "\<exists>ranges. read_slot_ranges (length xs) (slotted start enc xs) = Ok ranges \<and>
    decode_slots deser err raw 0 ranges = Ok xs"
proof (intro exI conjI)
  let ?ls = "map (\<lambda>x. length (enc x)) xs" and ?g = "PAGE_SIZE - start"
  let ?zeros = "replicate (?g - (4 * length xs + sum_list ?ls)) (0 :: byte)"
  let ?data = "concat (rev (map enc xs))"
  have data: "length ?data = sum_list ?ls"
    by (simp add: length_concat rev_map [symmetric] sum_list_rev comp_def)
  show "read_slot_ranges (length xs) (slotted start enc xs) = Ok (slot_ranges PAGE_SIZE ?ls)"
    using read_slot_ranges_layout [of ?ls PAGE_SIZE "?zeros @ ?data"] assms(1) size data
    by (simp add: slotted_def Let_def)
  show "decode_slots deser err raw 0 (slot_ranges PAGE_SIZE ?ls) = Ok xs"
    using assms(1) size start
    by (intro decode_slots_layout [where A = "pre @ slot_array PAGE_SIZE ?ls @ ?zeros" and post = "[]"])
      (simp_all add: raw slotted_def Let_def)
qed

lemma stores_leaf:
  assumes E: "varint_ok E" and inv: "page_inv E p" and wf: "page_wf p" and b: "body p = Leaf rs n pv"
  shows "\<exists>tail. stores E p tail"
proof -
  have rows: "\<forall>r \<in> set rs. varint_ok E \<and> row_wf r" using wf E by (simp add: page_wf_def b)
  then obtain enc where enc: "\<forall>r \<in> set rs. row_serialize E r = Ok (enc r)"
    using row.ser_total bchoice [of "set rs" "\<lambda>r bs. row_serialize E r = Ok bs"] by blast
  have len: "length (enc r) = row_encoded_size E r" if "r \<in> set rs" for r
    using row.ser_length that rows enc by blast
  have "sum_list (map (\<lambda>r. length (enc r)) rs) = sum_list (map (row_encoded_size E) rs)"
    by (rule arg_cong [where f = sum_list]) (use len in \<open>simp cong: map_cong\<close>)
  then have "rows_size E rs = 4 * length rs + sum_list (map (\<lambda>r. length (enc r)) rs)"
    by (simp add: leaf_entry_size_def [abs_def] SLOT_ENTRY_SIZE_def sum_list_addf sum_list_triv)
  then have size: "header_size p + 4 * length rs + sum_list (map (\<lambda>r. length (enc r)) rs) \<le> PAGE_SIZE"
    using inv header_size_page [of p] by (simp add: page_inv_leaf [OF b] layout_simps)
  have dec: "\<forall>r \<in> set rs. row_deserialize E (enc r) = Ok (r, []) \<and> 0 < length (enc r)"
    using row.deser_ser_all rows enc len by (fastforce simp: row_encoded_size_def)
  have "stores E p (slotted (header_size p) enc rs)"
    unfolding stores_def
  proof (intro conjI allI impI)
    fix pre :: "byte list" assume pre: "length pre = header_size p"
    show "\<exists>offs pos. write_body E p (cursor_at pre) (length pre)
        = Ok (offs, (pre @ slotted (header_size p) enc rs, pos))"
      using write_slotted [of rs "\<lambda>r. map_err PageValue (row_serialize E r)" enc pre] enc size pre
      by (simp add: write_body_def b cursor_at_def)
    fix raw nx pr
    assume "raw = pre @ slotted (header_size p) enc rs"
      and "\<forall>rs n pv. body p = Leaf rs n pv \<longrightarrow> nx = n \<and> pr = pv"
    then show "deserialize_body E raw (page_type_tag (body p)) (pg_id p) (num_items p) nx pr
        (slotted (header_size p) enc rs) = Ok (body p)"
      using read_slotted [OF dec size _ pre, of raw CorruptRow]
      by (auto simp: deserialize_body_def b num_items_def Let_def)
  qed (rule length_slotted [OF size])
  then show ?thesis by blast
qed

lemma write_children_at:
  "length pre + 8 * length cs \<le> PAGE_SIZE \<Longrightarrow>
    \<exists>pos. write_children cs (length pre) (pre @ replicate (PAGE_SIZE - length pre) 0, pos0) =
      Ok (length pre + 8 * length cs,
        (pre @ concat (map pid_bytes cs)
          @ replicate (PAGE_SIZE - (length pre + 8 * length cs)) 0, pos))"
proof (induction cs arbitrary: pre pos0)
  case Nil
  then show ?case by simp
next
  case (Cons c cs)
  have "write_ser PageIo id (page_id_serialize c) (cursor_at pre) = Ok (cursor_at (pre @ pid_bytes c))"
    using Cons.prems by (intro write_ser_cursor [OF ser_bytes(1)]) simp
  then show ?case
    using Cons.IH [of "pre @ pid_bytes c" "length pre + 8"] Cons.prems
    by (simp add: cursor_at_def PAGE_ID_SIZE_def add.assoc)
qed

lemma read_children:
  "deser_seq page_id_deserialize (length cs) (concat (map pid_bytes cs) @ rest) = Ok (cs, rest)"
  by (induction cs) (simp_all add: deser_bytes)

lemma stores_internal:
  assumes E: "varint_ok E" and inv: "page_inv E p" and wf: "page_wf p" and b: "body p = Internal ks cs"
  shows "\<exists>tail. stores E p tail"
proof -
  note i = internal_invD [OF b inv]
  have keys: "\<forall>k \<in> set ks. varint_ok E \<and> key_wf k" using wf E by (simp add: page_wf_def b)
  then obtain enc where enc: "\<forall>k \<in> set ks. key_serialize E k = Ok (enc k)"
    using key.ser_total bchoice [of "set ks" "\<lambda>k bs. key_serialize E k = Ok bs"] by blast
  have len: "length (enc k) = key_encoded_size E k" if "k \<in> set ks" for k
    using key.ser_length that keys enc by blast
  have "sum_list (map (\<lambda>k. length (enc k)) ks) = sum_list (map (key_encoded_size E) ks)"
    by (rule arg_cong [where f = sum_list]) (use len in \<open>simp cong: map_cong\<close>)
  then have "keys_size E ks = 12 * length ks + sum_list (map (\<lambda>k. length (enc k)) ks)"
    by (simp add: internal_entry_size_def [abs_def] SLOT_ENTRY_SIZE_def PAGE_ID_SIZE_def sum_list_addf
        sum_list_triv)
  then have size: "header_size p + 8 * length cs + 4 * length ks
      + sum_list (map (\<lambda>k. length (enc k)) ks) \<le> PAGE_SIZE"
    using i(2,3) header_size_bounds(1) [of p] by (simp add: kind_defs b layout_simps)
  have dec: "\<forall>k \<in> set ks. key_deserialize E (enc k) = Ok (k, []) \<and> 0 < length (enc k)"
    using key.deser_ser_all keys enc len key_size_ge [OF E] by fastforce
  let ?kids = "concat (map pid_bytes cs)"
  let ?start = "header_size p + 8 * length cs"
  have kids: "length ?kids = 8 * length cs" by (simp add: length_concat comp_def sum_list_triv)
  have "stores E p (?kids @ slotted ?start enc ks)"
    unfolding stores_def
  proof (intro conjI allI impI)
    fix pre :: "byte list" assume pre: "length pre = header_size p"
    obtain pos where "write_children cs (length pre) (cursor_at pre) =
        Ok (?start, ((pre @ ?kids) @ replicate (PAGE_SIZE - ?start) 0, pos))"
      using write_children_at [of pre cs "length pre"] size pre by (auto simp: cursor_at_def)
    moreover obtain offs pos' where "write_slots E (\<lambda>k. map_err PageKey (key_serialize E k)) ks ?start
        PAGE_SIZE ((pre @ ?kids) @ replicate (PAGE_SIZE - ?start) 0, pos)
      = Ok (offs, ((pre @ ?kids) @ slotted ?start enc ks, pos'))"
      using write_slotted [of ks "\<lambda>k. map_err PageKey (key_serialize E k)" enc "pre @ ?kids" E pos]
        enc size pre kids by auto
    ultimately show "\<exists>offs pos. write_body E p (cursor_at pre) (length pre)
        = Ok (offs, (pre @ ?kids @ slotted ?start enc ks, pos))"
      by (simp add: write_body_def b)
    fix raw nx pr
    assume "raw = pre @ ?kids @ slotted ?start enc ks"
    then obtain ranges where "read_slot_ranges (length ks) (slotted ?start enc ks) = Ok ranges"
      "decode_slots (key_deserialize E) CorruptKey raw 0 ranges = Ok ks"
      using read_slotted [OF dec size, of raw "pre @ ?kids" CorruptKey] pre kids by auto
    moreover have "deser_seq page_id_deserialize (length ks + 1) (?kids @ slotted ?start enc ks)
        = Ok (cs, slotted ?start enc ks)"
      using read_children [of cs "slotted ?start enc ks"] i(2) by simp
    ultimately show "deserialize_body E raw (page_type_tag (body p)) (pg_id p) (num_items p) nx pr
        (?kids @ slotted ?start enc ks) = Ok (body p)"
      by (simp add: deserialize_body_def b num_items_def Let_def tag_defs)
  next
    show "length (?kids @ slotted ?start enc ks) = PAGE_SIZE - header_size p"
      using length_slotted [OF size] size kids by simp
  qed
  then show ?thesis by blast
qed

lemma stores_free:
  assumes "body p = Free n"
  shows "\<exists>tail. stores E p tail"
proof -
  let ?tail = "opt_bytes n @ replicate (PAGE_SIZE - (header_size p + length (opt_bytes n))) 0"
  have size: "header_size p + length (opt_bytes n) \<le> PAGE_SIZE"
    using header_size_page [of p] length_opt_bytes(1) [of n] by (simp add: PAGE_SIZE_def)
  have "stores E p ?tail"
    unfolding stores_def
  proof (intro conjI allI impI)
    fix pre :: "byte list" assume pre: "length pre = header_size p"
    show "\<exists>offs pos. write_body E p (cursor_at pre) (length pre) = Ok (offs, (pre @ ?tail, pos))"
      using write_ser_cursor [OF ser_bytes(3), of pre n PageIo id] size pre
      by (simp add: write_body_def assms cursor_at_def)
    fix raw nx pr
    show "deserialize_body E raw (page_type_tag (body p)) (pg_id p) (num_items p) nx pr ?tail = Ok (body p)"
      by (simp add: deserialize_body_def assms tag_defs deser_bytes Let_def)
  qed (use size in simp)
  then show ?thesis by blast
qed

lemma stores_meta:
  assumes E: "varint_ok E" and inv: "page_inv E p" and wf: "page_wf p"
    and b: "body p = Meta root count flh s nm"
  shows "\<exists>tail. stores E p tail"
proof -
  have s: "varint_ok E \<and> schema_wf s" and nm: "utf8_valid nm" "length nm \<le> 65535"
    using E wf inv by (simp_all add: page_wf_def b page_inv_meta [OF b])
  obtain ss where ss: "schema_serialize E s = Ok ss" using schema.ser_total [OF s] by blast
  have varint: "length (encode_var_vec E (length nm)) = required_space E (length nm)"
    "\<And>r. read_varint E (encode_var_vec E (length nm) @ r) = Ok (length nm, r)"
    using varint_okD [OF E, of "length nm"] nm(2) by auto
  let ?data = "pid_bytes root @ u32_be count @ opt_bytes flh @ ss @ encode_var_vec E (length nm) @ nm"
  let ?tail = "?data @ replicate (PAGE_SIZE - (header_size p + length ?data)) 0"
  have "length ?data \<le> PAGE_ID_SIZE + 4 + 1 + PAGE_ID_SIZE + schema_encoded_size E s
      + required_space E (length nm) + length nm"
    using schema.ser_length [OF s ss] varint(1) length_opt_bytes(1) [of flh] by (simp add: PAGE_ID_SIZE_def)
  then have size: "header_size p + length ?data \<le> PAGE_SIZE"
    using inv header_size_bounds(1) [of p] by (simp add: page_inv_meta [OF b] b is_leaf_def)
  have "stores E p ?tail"
    unfolding stores_def
  proof (intro conjI allI impI)
    fix pre :: "byte list" assume pre: "length pre = header_size p"
    have "write_body E p (cursor_at pre) (length pre) = Ok ((0, 0), cursor_at (pre @ ?data))"
      using size pre by (simp add: write_body_def b write_ser_cursor write_all_cursor ser_bytes ss
          del: write_all.simps)
    then show "\<exists>offs pos. write_body E p (cursor_at pre) (length pre) = Ok (offs, (pre @ ?tail, pos))"
      using pre by (simp add: cursor_at_def)
    fix raw nx pr
    have "length nm \<le> alloc_limit" using nm(2) by (simp add: alloc_limit_def)
    then show "deserialize_body E raw (page_type_tag (body p)) (pg_id p) (num_items p) nx pr ?tail = Ok (body p)"
      using schema.deser_ser [OF s ss] varint(2) nm(1)
      by (simp add: deserialize_body_def b tag_defs deser_bytes Let_def read_exact_append from_utf8_def)
  qed (use size in simp)
  then show ?thesis by blast
qed

lemma stores_page:
  assumes "varint_ok E" and "page_inv E p" and "page_wf p"
  shows "\<exists>tail. stores E p tail"
  using assms stores_leaf stores_internal stores_meta stores_free by (cases "body p") blast+

section \<open>Raw pages\<close>

lemma as_raw_page_eq:
  assumes inv: "page_inv E p" and st: "stores E p tail"
  shows "as_raw_page E p = Ok (header_front p @
    u32_be (crc32_stream E [header_front p, header_back p @ tail]) @ header_back p @ tail)"
proof -
  let ?pre = "header_front p @ u32_be 0 @ header_back p"
  have pre: "length ?pre = header_size p" by (simp add: header_size_def)
  obtain offs pos where body: "write_body E p (cursor_at ?pre) (header_size p) = Ok (offs, (?pre @ tail, pos))"
    using st pre unfolding stores_def by metis
  have parts: "take CHECKSUM_OFFSET (?pre @ tail) = header_front p"
    "drop (CHECKSUM_OFFSET + 4) (?pre @ tail) = header_back p @ tail"
    by (simp_all add: CHECKSUM_OFFSET_def)
  have pos: "snd (cursor_at ?pre) = header_size p" using pre by (simp add: cursor_at_def)
  have check: "check_invariants E p = Ok ()" using inv by (simp add: page_inv_def)
  show ?thesis
    by (simp only: as_raw_page_def check write_header_eq rbind.simps map_err.simps Let_def pos body
        prod.case fst_conv page_checksum_def parts)
qed

lemma raw_page_length:
  "stores E p tail \<Longrightarrow> length (header_front p @ u32_be c @ header_back p @ tail) = PAGE_SIZE"
  using header_size_page [of p] by (simp add: stores_def header_size_def PAGE_SIZE_def)

lemma page_deserialize_raw:
  assumes E: "varint_ok E" and inv: "page_inv E p" and wf: "page_wf p" and st: "stores E p tail"
    and crc: "crc = crc32_stream E [header_front p, header_back p @ tail]"
  shows "page_deserialize E ((header_front p @ u32_be crc @ header_back p @ tail) @ rest) = Ok (p, rest)"
proof -
  let ?raw = "header_front p @ u32_be crc @ header_back p @ tail"
  let ?tag = "page_type_tag (body p)"
  obtain m where m: "max_items ?tag = Ok m" "num_items p \<le> m" "m < 65536"
    using num_items_bound [OF E inv wf] by blast
  have n: "unat (word_of_nat (num_items p) :: 16 word) = num_items p"
    using m(2,3) by (simp add: unat_of_nat)
  have sum: "take 4 (drop CHECKSUM_OFFSET ?raw) = u32_be crc" "page_checksum E ?raw = crc"
    "drop (CHECKSUM_OFFSET + 4) ?raw = header_back p @ tail"
    by (simp_all add: CHECKSUM_OFFSET_def page_checksum_def crc)
  have read: "read_exact PAGE_SIZE (?raw @ rest) = Ok (?raw, rest)"
    using read_exact_append [OF raw_page_length [OF st]] .
  have lsn: "page_lsn_deserialize (lsn_bytes (last_update p) @ r) = Ok (last_update p, r)" for r
    using wf by (intro deser_bytes(2)) (simp add: page_wf_def)
  have front: "?raw = ?tag # pid_bytes (pg_id p) @ lsn_bytes (last_update p) @ u32_be crc @ header_back p @ tail"
    by (simp add: header_front_def)
  have pre: "length (header_front p @ u32_be crc @ header_back p) = header_size p"
    by (simp add: header_size_def)
  have body: "deserialize_body E ?raw ?tag (pg_id p) (num_items p) nx pr tail = Ok (body p)"
    if "\<forall>rs n pv. body p = Leaf rs n pv \<longrightarrow> nx = n \<and> pr = pv" for nx pr
  proof -
    have "?raw = (header_front p @ u32_be crc @ header_back p) @ tail" by simp
    then show ?thesis using st pre that unfolding stores_def by blast
  qed
  have check: "check_invariants E p = Ok ()" using inv by (simp add: page_inv_def)
  have eta: "\<lparr>pg_id = pg_id p, last_update = last_update p, body = body p\<rparr> = p" by simp
  have check': "check_invariants E \<lparr>pg_id = pg_id p, last_update = last_update p, body = body p\<rparr> = Ok ()"
    unfolding eta by (rule check)
  have two: "read_exact 2 (u16_be (word_of_nat (num_items p)) @ tail)
      = Ok (u16_be (word_of_nat (num_items p)), tail)"
    by (rule read_exact_append) simp
  have whole: "deserialize_items E ?raw ?tag (pg_id p) (last_update p) nx pr
      (u16_be (word_of_nat (num_items p)) @ tail) = Ok p"
    if "\<forall>rs n pv. body p = Leaf rs n pv \<longrightarrow> nx = n \<and> pr = pv" for nx pr
    using m(1,2) body [OF that] check' two by (simp add: deserialize_items_def n Let_def)
  have start: "read_u8 ?raw = Ok (?tag, pid_bytes (pg_id p) @ lsn_bytes (last_update p) @ u32_be crc
      @ header_back p @ tail)"
    by (subst front) simp
  show ?thesis
    unfolding page_deserialize_def read map_err.simps rbind.simps prod.case Let_def sum u32_from_to_be
      simp_thms if_False start deser_bytes(1) lsn
    using whole deser_bytes(3) by (cases "body p") (simp_all add: header_back_def tag_defs)
qed

interpretation page_codec: serializable "page_serialize E" "page_deserialize E" page_encoded_size
  "\<lambda>p. varint_ok E \<and> page_inv E p \<and> page_wf p" for E
proof
  fix p bs rest
  assume wf: "varint_ok E \<and> page_inv E p \<and> page_wf p"
  then obtain tail where st: "stores E p tail" using stores_page by blast
  let ?crc = "crc32_stream E [header_front p, header_back p @ tail]"
  have raw: "page_serialize E p = Ok (header_front p @ u32_be ?crc @ header_back p @ tail)"
    using as_raw_page_eq [OF _ st] wf by (simp add: page_serialize_def)
  then show "\<exists>bs. page_serialize E p = Ok bs" by blast
  assume "page_serialize E p = Ok bs"
  then have bs: "bs = header_front p @ u32_be ?crc @ header_back p @ tail" using raw by simp
  show "length bs = page_encoded_size p"
    using raw_page_length [OF st] by (simp add: bs page_encoded_size_def)
  show "page_deserialize E (bs @ rest) = Ok (p, rest)"
    unfolding bs by (rule page_deserialize_raw [OF _ _ _ st refl]) (use wf in simp_all)
qed

section \<open>Arbitrary bytes\<close>

lemma row_value_deserialize_not_Panic:
  "(\<And>c. read_varint E c \<noteq> Panic) \<Longrightarrow> row_value_deserialize E bs \<noteq> Panic"
  by (auto simp: row_value_deserialize_def rbind_Panic_iff from_utf8_def split: if_splits)

lemma row_deserialize_not_Panic:
  "(\<And>c. read_varint E c \<noteq> Panic) \<Longrightarrow> row_deserialize E bs \<noteq> Panic"
  using deser_seq_not_Panic [of "row_value_deserialize E"] row_value_deserialize_not_Panic [of E]
  by (auto simp: row_deserialize_def rbind_Panic_iff Let_def split: if_splits)

lemma key_deserialize_not_Panic:
  "(\<And>c. read_varint E c \<noteq> Panic) \<Longrightarrow> key_deserialize E bs \<noteq> Panic"
  using row_value_deserialize_not_Panic [of E] by (auto simp: key_deserialize_def rbind_Panic_iff)

lemma read_slot_ranges_safe:
  assumes "4 * n \<le> length c" and "read_slot_ranges n c = r"
  shows "r \<noteq> Panic" and "r = Ok rs \<Longrightarrow> \<forall>x \<in> set rs. fst x \<le> snd x \<and> snd x \<le> PAGE_SIZE"
proof -
  have "\<exists>es r. deser_seq slot_entry_deserialize n c = Ok (es, r)" using assms(1)
  proof (induction n arbitrary: c)
    case 0
    then show ?case by simp
  next
    case (Suc n)
    obtain s where "slot_entry_deserialize c = Ok (s, drop 4 c)"
      using slot_entry_deserialize_total [of c] Suc.prems by (auto simp: SLOT_ENTRY_SIZE_def)
    moreover have len: "4 * n \<le> length (drop 4 c)" unfolding length_drop using Suc.prems by arith
    obtain es r where "deser_seq slot_entry_deserialize n (drop 4 c) = Ok (es, r)"
      using Suc.IH [of "drop 4 c"] len by blast
    ultimately show ?case by simp
  qed
  then obtain es c' where es: "deser_seq slot_entry_deserialize n c = Ok (es, c')" by blast
  show "r \<noteq> Panic"
    unfolding assms(2) [symmetric] read_slot_ranges_def es by (auto simp: Let_def split: option.split)
  assume "r = Ok rs"
  then have "position (\<lambda>(s, e). e \<le> s \<or> s < PAGE_SIZE - length c' \<or> PAGE_SIZE < e) rs = None"
    unfolding assms(2) [symmetric] read_slot_ranges_def es
    by (auto simp: Let_def split: option.splits)
  then show "\<forall>x \<in> set rs. fst x \<le> snd x \<and> snd x \<le> PAGE_SIZE"
    by (force simp: position_None_iff)
qed

lemma decode_slots_not_Panic:
  assumes "\<And>bs. deser bs \<noteq> Panic" and "\<forall>x \<in> set rs. fst x \<le> snd x \<and> snd x \<le> length buf"
  shows "decode_slots deser err buf i rs \<noteq> Panic"
  using assms(2) by (induction rs arbitrary: i) (auto simp: rbind_Panic_iff slice_def assms(1))

lemma option_page_id_consumes:
  "option_deserialize id page_id_deserialize bs = Ok (v, r) \<Longrightarrow> length bs \<le> length r + 9"
  by (auto simp: option_deserialize_def page_id_deserialize_def table_id_deserialize_def result_simps
      split: if_splits)

lemma children_read:
  "8 * n \<le> length c \<Longrightarrow> \<exists>cs. deser_seq page_id_deserialize n c = Ok (cs, drop (8 * n) c)"
proof (induction n arbitrary: c)
  case 0
  then show ?case by simp
next
  case (Suc n)
  obtain p where "page_id_deserialize c = Ok (p, drop 8 c)"
    using page_id_deserialize_total [of c] Suc.prems by (auto simp: PAGE_ID_SIZE_def)
  moreover have len: "8 * n \<le> length (drop 8 c)" unfolding length_drop using Suc.prems by arith
  obtain cs where "deser_seq page_id_deserialize n (drop 8 c) = Ok (cs, drop (8 * n) (drop 8 c))"
    using Suc.IH [of "drop 8 c"] len by blast
  ultimately show ?case by (simp add: add.commute)
qed

lemma deserialize_body_not_Panic:
  assumes "\<And>c. read_varint E c \<noteq> Panic" and "length buf = PAGE_SIZE"
    and "tag \<in> {LEAF_TAG, INTERNAL_TAG, FREE_TAG}" and "max_items tag = Ok m" and "n \<le> m"
    and "tag = LEAF_TAG \<Longrightarrow> 4055 \<le> length c" and "tag = INTERNAL_TAG \<Longrightarrow> 4073 \<le> length c"
  shows "deserialize_body E buf tag pid n nx pr c \<noteq> Panic"
proof -
  consider "tag = LEAF_TAG" | "tag = INTERNAL_TAG" | "tag = FREE_TAG" using assms(3) by auto
  then show ?thesis
  proof cases
    case 1
    then have n: "4 * n \<le> length c"
      using assms(4-6) by (simp add: max_items_def tag_defs layout_simps)
    show ?thesis
      using read_slot_ranges_safe [OF n refl] decode_slots_not_Panic
        [of "row_deserialize E", OF row_deserialize_not_Panic [OF assms(1)]] assms(2) 1
      by (auto simp: deserialize_body_def Let_def rbind_Panic_iff result_simps)
  next
    case 2
    then have n: "8 * Suc n + 4 * n \<le> length c"
      using assms(4,5,7) by (simp add: max_items_def tag_defs layout_simps)
    obtain cs where cs: "deser_seq page_id_deserialize (Suc n) c = Ok (cs, drop (8 * Suc n) c)"
      using children_read [of "Suc n" c] n by auto
    have n': "4 * n \<le> length (drop (8 * Suc n) c)" using n by simp
    show ?thesis
      using read_slot_ranges_safe [OF n' refl] decode_slots_not_Panic
        [of "key_deserialize E", OF key_deserialize_not_Panic [OF assms(1)]] assms(2) 2 cs
      by (auto simp: deserialize_body_def Let_def rbind_Panic_iff result_simps tag_defs)
  next
    case 3
    then show ?thesis
      using option_deserialize_not_Panic [of page_id_deserialize id]
      by (auto simp: deserialize_body_def Let_def rbind_Panic_iff tag_defs)
  qed
qed

lemma deserialize_items_not_Panic:
  assumes "\<And>c. read_varint E c \<noteq> Panic" and "length buf = PAGE_SIZE" and "tag \<noteq> META_TAG"
    and "4075 \<le> length c \<or> tag = LEAF_TAG \<and> 4057 \<le> length c"
  shows "deserialize_items E buf tag pid lu nx pr c \<noteq> Panic"
proof
  assume "deserialize_items E buf tag pid lu nx pr c = Panic"
  then obtain two c' m where *: "read_exact 2 c = Ok (two, c')" "max_items tag = Ok m"
    "unat (u16_from_be two) \<le> m"
    "deserialize_body E buf tag pid (unat (u16_from_be two)) nx pr c' = Panic"
    by (auto simp: deserialize_items_def rbind_Panic_iff map_err_Ok_iff Let_def max_items_def not_less
        split: if_splits)
  have "tag \<in> {LEAF_TAG, INTERNAL_TAG, FREE_TAG}"
    using *(2) assms(3) by (auto simp: max_items_def split: if_splits)
  moreover have "length c = length c' + 2" using *(1) by (auto simp: result_simps)
  ultimately show False
    using deserialize_body_not_Panic [OF assms(1,2) _ *(2,3), of c' pid nx pr] *(4) assms(4)
    by (auto simp: tag_defs)
qed

section \<open>Properties\<close>

text \<open>
  C10: the page codec round-trips. Every page that satisfies the invariant and holds values its
  Rust types allow serialises without error to exactly 4096 bytes, and reading those bytes,
  whatever follows them, gives the page back, of every kind: leaf, internal, meta and free.
\<close>

theorem page_roundtrip:
  assumes "varint_ok E" and "page_inv E p" and "page_wf p"
  shows "\<exists>raw. as_raw_page E p = Ok raw \<and> length raw = PAGE_SIZE \<and>
    page_deserialize E (raw @ rest) = Ok (p, rest)"
proof -
  have wf: "varint_ok E \<and> page_inv E p \<and> page_wf p" using assms by simp
  then obtain raw where raw: "page_serialize E p = Ok raw" using page_codec.ser_total by blast
  then show ?thesis
    using page_codec.ser_length [OF wf raw] page_codec.deser_ser [OF wf raw]
    by (auto simp: page_serialize_def page_encoded_size_def)
qed

lemma page_roundtrip_witness:
  "\<exists>raw. as_raw_page demo_env (demo_leaf 2 [demo_row 1, demo_row 7] (Some 3) None) = Ok raw \<and>
    page_deserialize demo_env raw = Ok (demo_leaf 2 [demo_row 1, demo_row 7] (Some 3) None, [])"
proof -
  let ?p = "demo_leaf 2 [demo_row 1, demo_row 7] (Some 3) None"
  have "page_inv demo_env ?p" by (simp add: rows_ok_def)
  moreover have "page_wf ?p"
    by (simp add: page_wf_def row_wf_def demo_row_def page_lsn_wf_def demo_leaf_def empty_page_def
        layout_simps)
  ultimately show ?thesis using page_roundtrip [of demo_env ?p "[]"] by auto
qed

text \<open>
  Two different storable pages never have the same raw page, so what is on disk determines
  the page.
\<close>

theorem raw_page_determines_page:
  assumes "varint_ok E" and "page_inv E p" and "page_wf p" and "page_inv E q" and "page_wf q"
    and "as_raw_page E p = as_raw_page E q"
  shows "p = q"
  using page_codec.ser_inj [of E p q] assms by (simp add: page_serialize_def)

lemma raw_page_determines_page_witness:
  "as_raw_page demo_env (demo_free 2 None) \<noteq> as_raw_page demo_env (demo_free 3 None)"
  using raw_page_determines_page [of demo_env "demo_free 2 None" "demo_free 3 None"]
  by (auto simp: page_wf_def page_lsn_wf_def demo_free_def empty_page_def demo_id_def)

lemma deserialize_items_checked:
  "deserialize_items E buf tag pid lu nx pr c = Ok p \<Longrightarrow> check_invariants E p = Ok ()"
  by (auto simp: deserialize_items_def result_simps Let_def split: if_splits)

text \<open>
  C23: what the reader accepts is sound. If any bytes at all deserialise to a page, they begin
  with 4096 bytes whose stored checksum is the computed one, and the page satisfies the page
  invariant.
\<close>

theorem page_deserialize_sound:
  assumes "page_deserialize E bs = Ok (p, rest)"
  shows "page_inv E p \<and> (\<exists>raw. bs = raw @ rest \<and> length raw = PAGE_SIZE \<and>
    page_checksum E raw = u32_from_be (take 4 (drop CHECKSUM_OFFSET raw)))"
  using assms
  by (auto simp: page_deserialize_def result_simps page_inv_def Let_def split: if_splits
      dest: deserialize_items_checked)

lemma page_deserialize_sound_witness:
  "\<exists>raw. as_raw_page demo_env (demo_free 2 None) = Ok raw \<and>
    page_checksum demo_env raw = u32_from_be (take 4 (drop CHECKSUM_OFFSET raw))"
proof -
  obtain raw where raw: "as_raw_page demo_env (demo_free 2 None) = Ok raw"
    "page_deserialize demo_env raw = Ok (demo_free 2 None, [])"
    using page_codec.ser_total [of demo_env "demo_free 2 None"]
      page_codec.deser_ser_all [of demo_env "demo_free 2 None"]
    by (auto simp: page_serialize_def page_wf_def page_lsn_wf_def demo_free_def empty_page_def)
  then show ?thesis using page_deserialize_sound [OF raw(2)] by simp
qed

text \<open>
  Reading arbitrary bytes does not panic, except in the one place where the code allocates
  an unchecked length: if deserialisation panics, the page's tag is that of a meta page. The
  only assumption is that the varint reader itself does not panic.
\<close>

theorem page_deserialize_no_panic:
  assumes "\<forall>c. read_varint E c \<noteq> Panic" and "page_deserialize E bs = Panic"
  shows "\<exists>r. bs = META_TAG # r"
proof (rule ccontr)
  assume no: "\<not> ?thesis"
  have pid: "option_deserialize id page_id_deserialize c \<noteq> Panic" for c
    by (rule option_deserialize_not_Panic) simp
  obtain buf rest where buf: "read_exact PAGE_SIZE bs = Ok (buf, rest)"
    using assms(2) by (auto simp: page_deserialize_def rbind_Panic_iff map_err_Ok_iff)
  then have bs: "bs = buf @ rest" "length buf = PAGE_SIZE" by (auto simp: result_simps)
  let ?c = "drop (CHECKSUM_OFFSET + 4) buf"
  have len: "length ?c = 4075" using bs(2) by (simp add: layout_simps)
  obtain tag c0 pid lu nx pr c where items: "read_u8 buf = Ok (tag, c0)"
    "deserialize_items E buf tag pid lu nx pr c = Panic"
    "c = ?c \<or> tag = LEAF_TAG \<and> (\<exists>c1 v w. option_deserialize id page_id_deserialize ?c = Ok (v, c1) \<and>
      option_deserialize id page_id_deserialize c1 = Ok (w, c))"
    using assms(2) pid
    by (auto simp: page_deserialize_def buf rbind_Panic_iff result_simps Let_def split: if_splits)
  have "tag \<noteq> META_TAG" using no items(1) bs by (auto simp: result_simps)
  moreover have "4075 \<le> length c \<or> tag = LEAF_TAG \<and> 4057 \<le> length c"
    using items(3) len by (auto dest!: option_page_id_consumes)
  ultimately show False
    using deserialize_items_not_Panic [of E buf tag c pid lu nx pr] assms(1) bs(2) items(2) by blast
qed

lemma leb_decode_not_Panic: "leb_decode bs \<noteq> Panic"
  by (induction bs rule: leb_decode.induct) (auto simp: rbind_Panic_iff)

lemma page_deserialize_no_panic_witness:
  "page_deserialize demo_env (replicate 5000 1) \<noteq> Panic"
proof
  assume "page_deserialize demo_env (replicate 5000 1) = Panic"
  then obtain r where "replicate 5000 1 = META_TAG # r"
    using page_deserialize_no_panic [of demo_env "replicate 5000 1"] leb_decode_not_Panic by auto
  then show False by (cases "5000 :: nat") (auto simp: tag_defs)
qed

text \<open>
  the exception is real. A meta page whose table name announces more than \<^verbatim>\<open>isize::MAX\<close> bytes
  makes the reader panic in \<^verbatim>\<open>vec![0u8; name_len]\<close>; no bound on the announced length is checked
  first, although \<^verbatim>\<open>check_invariants\<close> would refuse any name over 65535 bytes.
\<close>

theorem meta_name_length_panics:
  assumes "varint_ok E" and "schema_wf s" and "schema_serialize E s = Ok ss"
    and "alloc_limit < name_len" and "name_len < 2 ^ 64"
  shows "deserialize_body E buf META_TAG pid n nx pr
    (pid_bytes root @ u32_be count @ opt_bytes flh @ ss @ encode_var_vec E name_len @ rest) = Panic"
  using schema.deser_ser [of E s ss] varint_okD(3) [OF assms(1,5)] assms
  by (simp add: deserialize_body_def tag_defs deser_bytes Let_def read_exact_append)

lemma meta_name_length_panics_witness:
  "\<exists>c. deserialize_body demo_env [] META_TAG (demo_id 0) 0 None None c = Panic"
proof -
  have wf: "schema_wf demo_schema"
    by (simp add: schema_wf_def schema_valid_iff column_wf_def demo_schema_def layout_simps)
  then obtain ss where "schema_serialize demo_env demo_schema = Ok ss"
    using schema.ser_total [of demo_env demo_schema] by auto
  from meta_name_length_panics [OF _ wf this, of "2 ^ 63"] show ?thesis
    by (fastforce simp: alloc_limit_def)
qed

end
