(* ===== verification/Effects.thy ===== *)
theory Effects
  imports Prelude
begin

text \<open>
  Calls that change a state: the result of the call and the state it leaves behind, on every
  path. \<open>sbind\<close> is the \<^verbatim>\<open>?\<close> operator and the semicolon; \<open>lift_err\<close> is the \<^verbatim>\<open>From\<close> conversion
  that \<^verbatim>\<open>?\<close> applies to an error.
\<close>

type_synonym ('s, 'a, 'e) call = "'s \<Rightarrow> ('a, 'e) result \<times> 's"

definition sreturn :: "'a \<Rightarrow> ('s, 'a, 'e) call" where
  "sreturn x = (\<lambda>s. (Ok x, s))"

definition sfail :: "'e \<Rightarrow> ('s, 'a, 'e) call" where
  "sfail e = (\<lambda>s. (Err e, s))"

definition spanic :: "('s, 'a, 'e) call" where
  "spanic = (\<lambda>s. (Panic, s))"

definition sbind :: "('s, 'a, 'e) call \<Rightarrow> ('a \<Rightarrow> ('s, 'b, 'e) call) \<Rightarrow> ('s, 'b, 'e) call" where
  "sbind m f = (\<lambda>s. case m s of
     (Ok x, s') \<Rightarrow> f x s'
   | (Err e, s') \<Rightarrow> (Err e, s')
   | (Panic, s') \<Rightarrow> (Panic, s'))"

text \<open>A result that needs no state.\<close>

definition slift :: "('a, 'e) result \<Rightarrow> ('s, 'a, 'e) call" where
  "slift r = (\<lambda>s. (r, s))"

definition lift_err :: "('e \<Rightarrow> 'f) \<Rightarrow> ('s, 'a, 'e) call \<Rightarrow> ('s, 'a, 'f) call" where
  "lift_err g m = (\<lambda>s. case m s of (r, s') \<Rightarrow> (map_err g r, s'))"

lemmas call_defs = sreturn_def sfail_def spanic_def slift_def lift_err_def

lemma sbind_eq [result_simps]:
  "sbind m f s = (r, s') \<longleftrightarrow>
    (\<exists>x s1. m s = (Ok x, s1) \<and> f x s1 = (r, s')) \<or>
    (\<exists>e. m s = (Err e, s') \<and> r = Err e) \<or> m s = (Panic, s') \<and> r = Panic"
  by (auto simp: sbind_def split: prod.splits result.splits)

lemma sbindE:
  assumes "sbind m f s = (r, s')" and "r \<noteq> Panic"
  obtains (Err) e where "m s = (Err e, s')" and "r = Err e"
  | (Ok) x s1 where "m s = (Ok x, s1)" and "f x s1 = (r, s')"
  using assms by (auto simp: sbind_eq)

lemma sbind_Ok [simp]: "m s = (Ok x, s1) \<Longrightarrow> sbind m f s = f x s1"
  by (simp add: sbind_def)

lemma sbind_Err [simp]: "m s = (Err e, s1) \<Longrightarrow> sbind m f s = (Err e, s1)"
  by (simp add: sbind_def)

lemma sreturn_eq [simp]: "sreturn x s = (r, s') \<longleftrightarrow> r = Ok x \<and> s' = s"
  by (auto simp: sreturn_def)

lemma lift_err_eq [result_simps]:
  "lift_err g m s = (r, s') \<longleftrightarrow> (\<exists>r0. m s = (r0, s') \<and> r = map_err g r0)"
  by (auto simp: lift_err_def split: prod.splits)

section \<open>What a call keeps\<close>

text \<open>A condition on the state that a call never breaks, whatever it returns.\<close>

named_theorems kept_intros "calls that keep a condition on the state"

definition kept :: "('s \<Rightarrow> bool) \<Rightarrow> ('s, 'a, 'e) call \<Rightarrow> bool" where
  "kept P m \<longleftrightarrow> (\<forall>s r s'. m s = (r, s') \<longrightarrow> P s \<longrightarrow> P s')"

lemma keptI: "(\<And>s r s'. m s = (r, s') \<Longrightarrow> P s \<Longrightarrow> P s') \<Longrightarrow> kept P m"
  by (auto simp: kept_def)

lemma keptD: "kept P m \<Longrightarrow> m s = (r, s') \<Longrightarrow> P s \<Longrightarrow> P s'"
  by (auto simp: kept_def)

lemma kept_sbind [kept_intros]:
  assumes "kept P m" and "\<And>x. kept P (f x)"
  shows "kept P (sbind m f)"
proof (rule keptI)
  fix s r s' assume "sbind m f s = (r, s')" "P s"
  then show "P s'" using keptD [OF assms(1)] keptD [OF assms(2)] by (fastforce simp: sbind_eq)
qed

lemma kept_pure [kept_intros]: "kept P (sreturn x)" "kept P (sfail e)" "kept P spanic" "kept P (slift y)"
  by (simp_all add: kept_def call_defs)

lemma kept_lift_err [kept_intros]: "kept P m \<Longrightarrow> kept P (lift_err g m)"
  by (auto simp: lift_err_eq intro!: keptI dest: keptD)

end
