(* ===== verification/Disk.thy ===== *)
theory Disk
  imports Codec_Correct Effects
begin

text \<open>
  \<^verbatim>\<open>src/disk/mod.rs\<close> and the trait \<^verbatim>\<open>DiskManager\<close> of \<^verbatim>\<open>src/traits.rs\<close>: page \<open>n\<close> is the 4096 bytes
  of the file at offset \<open>4096 n\<close>. The trait is a record of functions, as the dictionary a
  generic caller gets; its contract is the locale \<open>page_disk\<close>, and \<open>FileDisk\<close> is its provider.

  The operating system is a file's contents and a schedule of failures: every system call may
  fail with any error, and a failing write may already have written a part. The model is of
  one process; what survives a power failure is not modelled.
\<close>

section \<open>The trait (traits.rs)\<close>

record 'd disk_manager =
  dm_read_page :: "page_id \<Rightarrow> ('d, byte list, io_error) call"
  dm_write_page :: "page_id \<Rightarrow> byte list \<Rightarrow> ('d, unit, io_error) call"
  dm_sync :: "('d, unit, io_error) call"
  dm_swap_file :: "page list \<Rightarrow> ('d, unit, io_error) call"

section \<open>Paths (std::path)\<close>

text \<open>
  A path is its bytes. What opens as a file has a name as its last component: \<^verbatim>\<open>a/\<close>, \<^verbatim>\<open>.\<close>, \<^verbatim>\<open>..\<close>
  are directories. On such a path \<open>dir_part\<close> is what comes before the name, its separators included, and
  \<^verbatim>\<open>parent()\<close> is that without separators and \<^verbatim>\<open>.\<close> components at its end, except for the root.
\<close>

definition path_file_name :: "rstring \<Rightarrow> rstring" where
  "path_file_name p = rev (takeWhile (\<lambda>c. c \<noteq> 47) (rev p))"

definition dir_part :: "rstring \<Rightarrow> rstring" where
  "dir_part p = rev (dropWhile (\<lambda>c. c \<noteq> 47) (rev p))"

definition names_file :: "rstring \<Rightarrow> bool" where
  "names_file p \<longleftrightarrow> path_file_name p \<notin> {[], [46], [46, 46]}"

fun trim_back :: "rstring \<Rightarrow> rstring" where
  "trim_back (c # e # q) = (if c = 47 \<or> c = 46 \<and> e = 47 then trim_back (e # q) else c # e # q)"
| "trim_back q = q"

definition path_parent :: "rstring \<Rightarrow> rstring option" where
  "path_parent p = Some (rev (trim_back (rev (dir_part p))))"

text \<open>\<^verbatim>\<open>file_stem\<close> ends before the last dot, unless the name begins with that dot.\<close>

definition file_stem :: "rstring \<Rightarrow> rstring" where
  "file_stem f =
     (let before = tl (dropWhile (\<lambda>c. c \<noteq> 46) (rev f)) in if before = [] then f else rev before)"

definition with_extension :: "rstring \<Rightarrow> rstring \<Rightarrow> rstring" where
  "with_extension p ext = dir_part p @ file_stem (path_file_name p) @ 46 # ext"

section \<open>FileDisk\<close>

text \<open>
  \<open>named\<close> is what the file at \<^verbatim>\<open>path\<close> contains. \<open>orphan\<close> is what the open file contains when the
  path names another file, as after a rename over it; otherwise the open file is the named one.
  \<open>faults\<close> are the outcomes of the system calls to come: nothing, or an error with the number of bytes that a
  write gets done before it; when the list is exhausted every call succeeds.
\<close>

record file_disk =
  path :: rstring
  named :: "byte list"
  orphan :: "byte list option"
  faults :: "(io_error \<times> nat) option list"

text \<open>\<^verbatim>\<open>self.path.parent()\<close>, the empty path for a bare file name.\<close>

definition parent_dir :: "file_disk \<Rightarrow> rstring option" where
  "parent_dir d = path_parent (path d)"

text \<open>
  \<^verbatim>\<open>self.path.with_extension("vac")\<close>. It lies in the directory of the path, so it is another file exactly if its name is
  another one (no file has a second name, by a link or by names that differ only in case). Where the path itself
  ends in \<^verbatim>\<open>.vac\<close> it is the database file.
\<close>

definition temp_path :: "file_disk \<Rightarrow> rstring" where
  "temp_path d = with_extension (path d) [118, 97, 99]"

definition temp_apart :: "file_disk \<Rightarrow> bool" where
  "temp_apart d \<longleftrightarrow> temp_path d \<noteq> path d"

definition syscall :: "file_disk \<Rightarrow> (io_error \<times> nat) option \<times> file_disk" where
  "syscall d = (case faults d of [] \<Rightarrow> (None, d) | f # fs \<Rightarrow> (f, d\<lparr>faults := fs\<rparr>))"

text \<open>A system call of which only success or failure matters.\<close>

definition sys :: "(file_disk, unit, io_error) call" where
  "sys d = (case syscall d of (None, d') \<Rightarrow> (Ok (), d') | (Some (e, _), d') \<Rightarrow> (Err e, d'))"

definition open_file :: "file_disk \<Rightarrow> byte list" where
  "open_file d = (case orphan d of None \<Rightarrow> named d | Some c \<Rightarrow> c)"

definition set_open_file :: "byte list \<Rightarrow> file_disk \<Rightarrow> file_disk" where
  "set_open_file c d =
     (case orphan d of None \<Rightarrow> d\<lparr>named := c\<rparr> | Some _ \<Rightarrow> d\<lparr>orphan := Some c\<rparr>)"

text \<open>Writing at an offset; a gap before it reads as zeros.\<close>

definition write_at :: "nat \<Rightarrow> byte list \<Rightarrow> byte list \<Rightarrow> byte list" where
  "write_at off bs c =
     (if bs = [] then c
      else take off (c @ replicate (off - length c) 0) @ bs @ drop (off + length bs) c)"

definition write_all_at :: "byte list \<Rightarrow> nat \<Rightarrow> (file_disk, unit, io_error) call" where
  "write_all_at bs off d =
     (case syscall d of
       (None, d') \<Rightarrow> (Ok (), set_open_file (write_at off bs (open_file d')) d')
     | (Some (e, n), d') \<Rightarrow>
         (Err e, set_open_file (write_at off (take n bs) (open_file d')) d'))"

definition read_exact_at :: "nat \<Rightarrow> nat \<Rightarrow> (file_disk, byte list, io_error) call" where
  "read_exact_at n off =
     sbind sys (\<lambda>_ d.
       if off + n \<le> length (open_file d) then (Ok (take n (drop off (open_file d))), d)
       else (Err UnexpectedEof, d))"

text \<open>\<^verbatim>\<open>id.get_page_num() as u64 * PAGE_SIZE as u64\<close> stays below \<open>2 ^ 44\<close>.\<close>

definition file_offset :: "page_id \<Rightarrow> nat" where
  "file_offset pid = unat (get_page_num pid) * PAGE_SIZE"

definition file_read_page :: "page_id \<Rightarrow> (file_disk, byte list, io_error) call" where
  "file_read_page pid =
     sbind sys (\<lambda>_ d.
       if length (open_file d) \<le> file_offset pid then (Err NotFound, d)
       else read_exact_at PAGE_SIZE (file_offset pid) d)"

definition file_write_page :: "page_id \<Rightarrow> byte list \<Rightarrow> (file_disk, unit, io_error) call" where
  "file_write_page pid buf = write_all_at buf (file_offset pid)"

definition file_sync :: "(file_disk, unit, io_error) call" where
  "file_sync = sys"

text \<open>
  What the temporary file contains now. Where it is the database file, that is what the path names, and what the
  disk serves while its handle is on it.
\<close>

definition put_temp :: "byte list \<Rightarrow> file_disk \<Rightarrow> file_disk" where
  "put_temp c d = (if temp_apart d then d else d\<lparr>named := c\<rparr>)"

text \<open>The loop of \<^verbatim>\<open>swap_file\<close>: seek, then \<^verbatim>\<open>serialize\<close>, which is one write, with \<^verbatim>\<open>expect\<close>.\<close>

fun write_temp :: "env \<Rightarrow> page list \<Rightarrow> byte list \<Rightarrow> (file_disk, byte list, io_error) call" where
  "write_temp E [] temp = sreturn temp"
| "write_temp E (page # pages) temp =
     sbind sys (\<lambda>_ d.
       case page_serialize E page of
         Ok raw \<Rightarrow>
           (case syscall d of
             (None, d') \<Rightarrow>
               let temp' = write_at (file_offset (pg_id page)) raw temp
               in write_temp E pages temp' (put_temp temp' d')
           | (Some (_, n), d') \<Rightarrow> (Panic, put_temp (write_at (file_offset (pg_id page)) (take n raw) temp) d'))
       | _ \<Rightarrow> (Panic, d))"

text \<open>\<^verbatim>\<open>File::open(dir)?.sync_all()?\<close>; opening the empty path is \<^verbatim>\<open>NotFound\<close>.\<close>

definition sync_dir :: "rstring option \<Rightarrow> (file_disk, unit, io_error) call" where
  "sync_dir dir =
     (case dir of
       None \<Rightarrow> sreturn ()
     | Some p \<Rightarrow> sbind sys (\<lambda>_. if p = [] then sfail NotFound else sys))"

text \<open>\<^verbatim>\<open>std::fs::rename(&temp_path, &self.path)\<close>, which does nothing when both are one file.\<close>

definition rename_temp :: "byte list \<Rightarrow> file_disk \<Rightarrow> file_disk" where
  "rename_temp temp d = (if temp_apart d then d\<lparr>named := temp, orphan := Some (open_file d)\<rparr> else d)"

text \<open>\<^verbatim>\<open>File::create\<close> empties the file it opens.\<close>

definition file_swap_file :: "env \<Rightarrow> page list \<Rightarrow> (file_disk, unit, io_error) call" where
  "file_swap_file E pages =
     sbind sys (\<lambda>_ d.
     sbind (write_temp E pages []) (\<lambda>temp.
     sbind sys (\<lambda>_.
     sbind sys (\<lambda>_ d.
     sbind (sync_dir (parent_dir d)) (\<lambda>_.
     sbind sys (\<lambda>_ d. (Ok (), d\<lparr>orphan := None\<rparr>)))
       (rename_temp temp d)))) (put_temp [] d))"

definition file_disk_manager :: "env \<Rightarrow> file_disk disk_manager" where
  "file_disk_manager E =
     \<lparr>dm_read_page = file_read_page, dm_write_page = file_write_page, dm_sync = file_sync,
      dm_swap_file = file_swap_file E\<rparr>"

text \<open>
  \<^verbatim>\<open>FileDisk::new\<close>: \<open>contents\<close> is what the file at the path holds, nothing if it is new. A path that is
  not the name of a file does not open.
\<close>

definition file_disk_new :: "rstring \<Rightarrow> byte list \<Rightarrow> (io_error \<times> nat) option list \<Rightarrow>
  (file_disk, io_error) result" where
  "file_disk_new p contents fs =
     (if \<not> names_file p then Err (if p = [] then NotFound else OtherIo)
      else
        case sys \<lparr>path = p, named = contents, orphan = None, faults = fs\<rparr> of
          (Ok _, d) \<Rightarrow> Ok d
        | (Err e, _) \<Rightarrow> Err e
        | (Panic, _) \<Rightarrow> Panic)"

section \<open>Pages in a file\<close>

text \<open>What \<open>bytes\<close> a page slot of the file holds, and the page they stand for.\<close>

definition page_slot :: "byte list \<Rightarrow> nat \<Rightarrow> byte list option" where
  "page_slot c n =
     (if Suc n * PAGE_SIZE \<le> length c then Some (take PAGE_SIZE (drop (n * PAGE_SIZE) c)) else None)"

definition decode_page :: "env \<Rightarrow> byte list \<Rightarrow> page option" where
  "decode_page E raw = (case page_deserialize E raw of Ok (p, _) \<Rightarrow> Some p | _ \<Rightarrow> None)"

definition file_stored :: "env \<Rightarrow> file_disk \<Rightarrow> page_id \<Rightarrow> page option" where
  "file_stored E d pid =
     Option.bind (page_slot (open_file d) (unat (get_page_num pid))) (decode_page E)"

definition storable :: "env \<Rightarrow> page \<Rightarrow> bool" where
  "storable E p \<longleftrightarrow> page_inv E p \<and> page_wf p"

lemma PAGE_SIZE_pos [simp]: "0 < PAGE_SIZE"
  by (simp add: layout_simps)

lemma storable_raw:
  assumes "varint_ok E" and "storable E p"
  shows "\<exists>raw. as_raw_page E p = Ok raw \<and> length raw = PAGE_SIZE \<and> decode_page E raw = Some p"
proof -
  have wf: "varint_ok E \<and> page_inv E p \<and> page_wf p" using assms by (simp add: storable_def)
  then obtain raw where raw: "page_serialize E p = Ok raw" using page_codec.ser_total by blast
  then show ?thesis
    using page_codec.ser_length [OF wf raw] page_codec.deser_ser [OF wf raw, of "[]"]
    by (simp add: page_serialize_def page_encoded_size_def decode_page_def)
qed

lemma length_write_at:
  "length (write_at off bs c) = (if bs = [] then length c else max (length c) (off + length bs))"
  by (auto simp: write_at_def)

lemma nth_write_at:
  assumes "i < length (write_at off bs c)"
  shows "write_at off bs c ! i =
    (if off \<le> i \<and> i < off + length bs then bs ! (i - off) else if i < length c then c ! i else 0)"
  using assms by (auto simp: write_at_def nth_append min_def)

lemma slots_apart:
  fixes P :: nat
  assumes "m \<noteq> n" and "m * P \<le> i" and "i < Suc m * P" and "n * P \<le> i" and "i < Suc n * P"
  shows False
proof -
  have "m * P < Suc n * P" "n * P < Suc m * P" using assms by linarith+
  then show False using assms(1) by (metis less_Suc_eq_le mult_less_cancel2 le_antisym)
qed

lemma page_slot_write_same:
  assumes "length raw = PAGE_SIZE"
  shows "page_slot (write_at (n * PAGE_SIZE) raw c) n = Some raw"
proof -
  have "raw \<noteq> []" using assms PAGE_SIZE_pos by (metis less_numeral_extra(3) list.size(3))
  then have len: "n * PAGE_SIZE + PAGE_SIZE \<le> length (write_at (n * PAGE_SIZE) raw c)"
    using assms by (simp add: length_write_at)
  have "take PAGE_SIZE (drop (n * PAGE_SIZE) (write_at (n * PAGE_SIZE) raw c)) = raw"
    by (rule nth_equalityI) (use len assms in \<open>auto simp: nth_write_at\<close>)
  then show ?thesis using len by (simp add: page_slot_def add.commute)
qed

lemma page_slot_write_other:
  assumes "length bs \<le> PAGE_SIZE" and "m \<noteq> n" and "page_slot c m = Some x"
  shows "page_slot (write_at (n * PAGE_SIZE) bs c) m = Some x"
proof -
  have len: "Suc m * PAGE_SIZE \<le> length c" and x: "x = take PAGE_SIZE (drop (m * PAGE_SIZE) c)"
    using assms(3) by (auto simp: page_slot_def split: if_splits)
  then have len': "Suc m * PAGE_SIZE \<le> length (write_at (n * PAGE_SIZE) bs c)"
    by (simp add: length_write_at le_max_iff_disj)
  have nth: "write_at (n * PAGE_SIZE) bs c ! (m * PAGE_SIZE + i) = c ! (m * PAGE_SIZE + i)"
    if i: "i < PAGE_SIZE" for i
  proof -
    have "\<not> (n * PAGE_SIZE \<le> m * PAGE_SIZE + i \<and> m * PAGE_SIZE + i < n * PAGE_SIZE + length bs)"
      using slots_apart [OF assms(2), of PAGE_SIZE "m * PAGE_SIZE + i"] i assms(1) by auto
    then show ?thesis using len len' i by (subst nth_write_at) auto
  qed
  have "take PAGE_SIZE (drop (m * PAGE_SIZE) (write_at (n * PAGE_SIZE) bs c)) = x"
    unfolding x by (rule nth_equalityI) (use len len' nth in auto)
  then show ?thesis using len' by (simp add: page_slot_def)
qed

text \<open>In a file of whole pages, a new slot is the one written or reads as zeros.\<close>

lemma page_slot_write_new:
  assumes "length raw = PAGE_SIZE" and "length c = k * PAGE_SIZE" and "m \<noteq> n"
    and "page_slot (write_at (n * PAGE_SIZE) raw c) m = Some x"
  shows "page_slot c m = Some x \<or> x = replicate PAGE_SIZE 0"
proof (cases "m < k")
  case True
  then have "Suc m * PAGE_SIZE \<le> length c" unfolding assms(2) by (intro mult_le_mono1) simp
  then obtain y where "page_slot c m = Some y" by (simp add: page_slot_def)
  then show ?thesis using page_slot_write_other [of raw m n c y] assms(1,3,4) by simp
next
  case False
  have ne: "raw \<noteq> []" using assms(1) PAGE_SIZE_pos by (metis less_numeral_extra(3) list.size(3))
  have len: "Suc m * PAGE_SIZE \<le> length (write_at (n * PAGE_SIZE) raw c)"
    and x: "x = take PAGE_SIZE (drop (m * PAGE_SIZE) (write_at (n * PAGE_SIZE) raw c))"
    using assms(4) by (auto simp: page_slot_def split: if_splits)
  have k: "length c \<le> m * PAGE_SIZE" using False by (simp add: assms(2))
  have nth: "write_at (n * PAGE_SIZE) raw c ! (m * PAGE_SIZE + i) = 0" if i: "i < PAGE_SIZE" for i
  proof -
    have "\<not> (n * PAGE_SIZE \<le> m * PAGE_SIZE + i \<and> m * PAGE_SIZE + i < n * PAGE_SIZE + length raw)"
      using slots_apart [OF assms(3), of PAGE_SIZE "m * PAGE_SIZE + i"] i assms(1) by auto
    then show ?thesis using len i k by (subst nth_write_at) auto
  qed
  have "x = replicate PAGE_SIZE 0"
    unfolding x by (rule nth_equalityI) (use len nth in auto)
  then show ?thesis ..
qed

lemma decode_zeros [simp]: "decode_page E (replicate PAGE_SIZE 0) = None"
proof (cases "page_deserialize E (replicate PAGE_SIZE 0)")
  case (Ok x)
  obtain p rest where "x = (p, rest)" by fastforce
  then have "page_deserialize E (replicate PAGE_SIZE 0) = Ok (p, rest)" using Ok by simp
  moreover have "replicate PAGE_SIZE 0 = (0 :: byte) # replicate 4095 0" by (simp add: layout_simps flip: replicate_Suc)
  ultimately have False
    by (auto simp: page_deserialize_def result_simps Let_def deserialize_items_def max_items_def tag_defs
        split: if_splits)
  then show ?thesis ..
qed (simp_all add: decode_page_def)

section \<open>System calls\<close>

definition healthy :: "file_disk \<Rightarrow> bool" where
  "healthy d \<longleftrightarrow> list_all (\<lambda>f. f = None) (faults d)"

definition same_file :: "file_disk \<Rightarrow> file_disk \<Rightarrow> bool" where
  "same_file d d' \<longleftrightarrow> named d' = named d \<and> orphan d' = orphan d \<and> path d' = path d"

lemma same_file_refl [simp]: "same_file d d"
  by (simp add: same_file_def)

lemma same_file_trans: "same_file d d1 \<Longrightarrow> same_file d1 d2 \<Longrightarrow> same_file d d2"
  by (simp add: same_file_def)

lemma path_dir: "path d' = path d \<Longrightarrow> parent_dir d' = parent_dir d \<and> temp_apart d' = temp_apart d"
  by (simp add: parent_dir_def temp_apart_def temp_path_def)

lemma same_file_dir: "same_file d d' \<Longrightarrow> parent_dir d' = parent_dir d \<and> temp_apart d' = temp_apart d"
  unfolding same_file_def by (intro path_dir) simp

lemma same_file_open: "same_file d d' \<Longrightarrow> open_file d' = open_file d"
  by (simp add: same_file_def open_file_def split: option.split)

lemma syscall_law:
  "syscall d = (f, d') \<Longrightarrow> same_file d d' \<and> (healthy d \<longrightarrow> f = None \<and> healthy d')"
  by (auto simp: syscall_def same_file_def healthy_def split: list.splits)

lemma sys_law:
  "sys d = (r, d') \<Longrightarrow> same_file d d' \<and> r \<noteq> Panic \<and> (healthy d \<longrightarrow> r = Ok () \<and> healthy d')"
  by (auto simp: sys_def split: prod.splits option.splits dest!: syscall_law)

lemma open_set_open [simp]:
  "open_file (set_open_file c d) = c" "healthy (set_open_file c d) = healthy d"
  "path (set_open_file c d) = path d"
  by (auto simp: open_file_def set_open_file_def healthy_def split: option.splits)

lemma file_read_law:
  assumes "file_read_page pid d = (r, d')"
  shows "same_file d d' \<and> r \<noteq> Panic \<and> (healthy d \<longrightarrow> healthy d') \<and>
    (\<forall>raw. r = Ok raw \<longrightarrow> page_slot (open_file d) (unat (get_page_num pid)) = Some raw) \<and>
    (healthy d \<longrightarrow> page_slot (open_file d) (unat (get_page_num pid)) = None \<or> (\<exists>raw. r = Ok raw))"
proof -
  obtain r1 d1 where s1: "sys d = (r1, d1)" by fastforce
  obtain r2 d2 where s2: "sys d1 = (r2, d2)" by fastforce
  note law1 = sys_law [OF s1] and law2 = sys_law [OF s2]
  let ?off = "file_offset pid" and ?n = "unat (get_page_num pid)"
  have slot: "page_slot c ?n =
      (if ?off + PAGE_SIZE \<le> length c then Some (take PAGE_SIZE (drop ?off c)) else None)" for c
    by (simp add: page_slot_def file_offset_def add.commute)
  have short: "page_slot c ?n = None" if "length c \<le> ?off" for c
    using that PAGE_SIZE_pos by (simp add: slot not_le del: PAGE_SIZE_pos)
  have same: "same_file d d2" using law1 law2 same_file_trans by blast
  show ?thesis
  proof (cases r1)
    case (Ok u)
    have r: "(r, d') = (if length (open_file d1) \<le> ?off then (Err NotFound, d1)
        else read_exact_at PAGE_SIZE ?off d1)"
      using assms Ok s1 by (simp add: file_read_page_def)
    show ?thesis
    proof (cases "length (open_file d1) \<le> ?off")
      case True
      then show ?thesis using r law1 short same_file_open [of d d1] by auto
    next
      case False
      show ?thesis
      proof (cases r2)
        case (Ok u')
        then have r': "(r, d') = (if ?off + PAGE_SIZE \<le> length (open_file d2)
            then (Ok (take PAGE_SIZE (drop ?off (open_file d2))), d2) else (Err UnexpectedEof, d2))"
          using r False s2 by (simp add: read_exact_at_def)
        then show ?thesis
          using law1 law2 same same_file_open [OF same] slot [of "open_file d"] by (simp split: if_splits)
      next
        case (Err e)
        then show ?thesis using r False s2 law1 law2 same by (simp add: read_exact_at_def)
      next
        case Panic
        then show ?thesis using law2 by simp
      qed
    qed
  next
    case (Err e)
    then show ?thesis using assms s1 law1 by (auto simp: file_read_page_def)
  next
    case Panic
    then show ?thesis using law1 by simp
  qed
qed

lemma file_write_law:
  assumes "file_write_page pid raw d = (r, d')"
  shows "r \<noteq> Panic \<and> (healthy d \<longrightarrow> r = Ok () \<and> healthy d') \<and> path d' = path d \<and>
    (\<exists>k. open_file d' = write_at (file_offset pid) (take k raw) (open_file d) \<and>
      (r = Ok () \<longrightarrow> take k raw = raw))"
proof -
  obtain f d1 where s: "syscall d = (f, d1)" by fastforce
  have "open_file d1 = open_file d" using syscall_law [OF s] same_file_open by blast
  moreover have "path d1 = path d" using syscall_law [OF s] by (simp add: same_file_def)
  ultimately show ?thesis
    using assms s syscall_law [OF s]
    by (cases f) (auto simp: file_write_page_def write_all_at_def intro: exI [of _ "length raw"])
qed

section \<open>The contract of a disk\<close>

text \<open>
  \<open>stored\<close> is the page a disk holds under an identifier of \<open>ids\<close>. Reading gives it or fails,
  writing replaces it, and a failed write can damage no page but the one written. What has never been
  written may turn into anything, so only pages that are there are promised to stay. \<open>well\<close> are the disks on which no
  call fails, \<open>safe\<close> those on which a failed swap loses nothing; no call turns a disk into one that is not.
\<close>

locale page_disk =
  fixes E :: env
    and D :: "'d disk_manager"
    and ids :: "page_id set"
    and stored :: "'d \<Rightarrow> page_id \<Rightarrow> page option"
    and well :: "'d \<Rightarrow> bool"
    and safe :: "'d \<Rightarrow> bool"
  assumes read_law: "pid \<in> ids \<Longrightarrow> dm_read_page D pid d = (rd, d') \<Longrightarrow>
      rd \<noteq> Panic \<and> stored d' = stored d \<and> (well d \<longrightarrow> well d') \<and>
      (\<forall>raw. rd = Ok raw \<longrightarrow> length raw = PAGE_SIZE \<and> decode_page E raw = stored d pid)"
    and read_well: "pid \<in> ids \<Longrightarrow> dm_read_page D pid d = (rd, d') \<Longrightarrow> well d \<Longrightarrow>
      stored d pid = Some p \<Longrightarrow> \<exists>raw. rd = Ok raw"
    and write_law: "pid \<in> ids \<Longrightarrow> length raw = PAGE_SIZE \<Longrightarrow> dm_write_page D pid raw d = (r, d') \<Longrightarrow>
      r \<noteq> Panic \<and> (well d \<longrightarrow> r = Ok () \<and> well d') \<and>
      (r = Ok () \<longrightarrow> stored d' pid = decode_page E raw) \<and>
      (\<forall>pid' \<in> ids. \<forall>p. pid' \<noteq> pid \<and> stored d pid' = Some p \<longrightarrow> stored d' pid' = Some p)"
    and sync_law: "dm_sync D d = (r, d') \<Longrightarrow>
      r \<noteq> Panic \<and> stored d' = stored d \<and> (well d \<longrightarrow> r = Ok () \<and> well d')"
    and swap_law: "varint_ok E \<Longrightarrow> \<forall>p \<in> set pages. pg_id p \<in> ids \<and> storable E p \<Longrightarrow>
      distinct (map pg_id pages) \<Longrightarrow> dm_swap_file D pages d = (r, d') \<Longrightarrow>
      (r = Ok () \<longrightarrow> (\<forall>pid \<in> ids. \<forall>p. stored d' pid = Some p \<longleftrightarrow> p \<in> set pages \<and> pg_id p = pid)) \<and>
      (\<forall>e. r = Err e \<and> safe d \<longrightarrow> stored d' = stored d) \<and>
      (well d \<longrightarrow> r \<noteq> Panic \<and> well d')"
    and safe_kept: "kept safe (dm_read_page D pid)" "kept safe (dm_write_page D pid raw)" "kept safe (dm_sync D)"
begin

text \<open>What a client that writes a page and reads it back gets, whatever happens in between.\<close>

lemma read_back:
  assumes "varint_ok E" and "storable E p" and "pg_id p \<in> ids"
    and "as_raw_page E p = Ok raw" and "dm_write_page D (pg_id p) raw d = (Ok (), d1)"
    and "dm_read_page D (pg_id p) d1 = (Ok raw', d2)"
  shows "decode_page E raw' = Some p"
proof -
  have "length raw = PAGE_SIZE" "decode_page E raw = Some p"
    using storable_raw [OF assms(1,2)] assms(4) by auto
  then show ?thesis
    using write_law [OF assms(3) _ assms(5)] read_law [OF assms(3) assms(6)] by auto
qed

end

section \<open>FileDisk keeps the contract\<close>

text \<open>Decoded slots of a file of whole pages.\<close>

definition page_of_slot :: "env \<Rightarrow> byte list \<Rightarrow> nat \<Rightarrow> page option" where
  "page_of_slot E c n = Option.bind (page_slot c n) (decode_page E)"

lemma file_stored_slot: "file_stored E d pid = page_of_slot E (open_file d) (unat (get_page_num pid))"
  by (simp add: file_stored_def page_of_slot_def)

lemma page_of_slot_write:
  assumes "length raw = PAGE_SIZE" and "length c = k * PAGE_SIZE"
  shows "page_of_slot E (write_at (n * PAGE_SIZE) raw c) m
      = (if m = n then decode_page E raw else page_of_slot E c m)"
    and "length (write_at (n * PAGE_SIZE) raw c) = max k (Suc n) * PAGE_SIZE"
proof -
  show "page_of_slot E (write_at (n * PAGE_SIZE) raw c) m
      = (if m = n then decode_page E raw else page_of_slot E c m)"
  proof (cases "m = n")
    case True
    then show ?thesis by (simp add: page_of_slot_def page_slot_write_same [OF assms(1)])
  next
    case False
    show ?thesis
    proof (cases "page_slot c m")
      case (Some x)
      then show ?thesis
        using page_slot_write_other [of raw m n c x] False assms(1) by (simp add: page_of_slot_def)
    next
      case None
      then show ?thesis
        using page_slot_write_new [OF assms False] False
        by (cases "page_slot (write_at (n * PAGE_SIZE) raw c) m") (auto simp: page_of_slot_def)
    qed
  qed
  have "raw \<noteq> []" using assms(1) PAGE_SIZE_pos by (metis less_numeral_extra(3) list.size(3))
  then show "length (write_at (n * PAGE_SIZE) raw c) = max k (Suc n) * PAGE_SIZE"
    using assms by (simp add: length_write_at nat_mult_max_left add.commute)
qed

lemma put_temp_simps [simp]:
  "path (put_temp c d) = path d" "orphan (put_temp c d) = orphan d" "faults (put_temp c d) = faults d"
  "healthy (put_temp c d) = healthy d" "temp_apart (put_temp c d) = temp_apart d"
  by (simp_all add: put_temp_def healthy_def temp_apart_def temp_path_def)

lemma put_temp_named: "named (put_temp c d) = (if temp_apart d then named d else c)"
  by (simp add: put_temp_def)

text \<open>\<open>kept_file\<close> is all that is certain of a disk while the temporary file is written.\<close>

definition kept_file :: "file_disk \<Rightarrow> file_disk \<Rightarrow> bool" where
  "kept_file d d' \<longleftrightarrow> path d' = path d \<and> orphan d' = orphan d \<and> (temp_apart d \<longrightarrow> named d' = named d)"

lemma kept_file_trans: "kept_file d d1 \<Longrightarrow> kept_file d1 d2 \<Longrightarrow> kept_file d d2"
  using path_dir [of d1 d] by (auto simp: kept_file_def)

lemma same_kept: "same_file d d' \<Longrightarrow> kept_file d d'"
  by (simp add: same_file_def kept_file_def)

lemma put_temp_kept [simp]: "kept_file d (put_temp c d)"
  by (simp add: kept_file_def put_temp_named)

lemma kept_apart: "kept_file d d' \<Longrightarrow> temp_apart d \<Longrightarrow> same_file d d'"
  by (simp add: same_file_def kept_file_def)

lemma kept_dir: "kept_file d d' \<Longrightarrow> parent_dir d' = parent_dir d \<and> temp_apart d' = temp_apart d"
  unfolding kept_file_def by (intro path_dir) simp

lemma write_temp_law:
  assumes "varint_ok E" and "\<forall>p \<in> set pages. storable E p"
    and "distinct (map (get_page_num \<circ> pg_id) pages)"
    and "length temp = k * PAGE_SIZE" and "write_temp E pages temp d = (r, d')"
  shows "kept_file d d' \<and> (\<forall>e. r = Err e \<longrightarrow> \<not> healthy d) \<and> (healthy d \<longrightarrow> healthy d') \<and>
    (healthy d \<longrightarrow> r \<noteq> Panic) \<and>
    (\<forall>temp'. r = Ok temp' \<longrightarrow> (\<exists>k'. length temp' = k' * PAGE_SIZE) \<and>
      (\<not> temp_apart d \<and> named d = temp \<longrightarrow> named d' = temp') \<and>
      (\<forall>p \<in> set pages. page_of_slot E temp' (unat (get_page_num (pg_id p))) = Some p) \<and>
      (\<forall>n. n \<notin> (\<lambda>p. unat (get_page_num (pg_id p))) ` set pages \<longrightarrow>
        page_of_slot E temp' n = page_of_slot E temp n))"
  using assms(2-)
proof (induction pages arbitrary: temp k d)
  case Nil
  then show ?case by (auto simp: kept_file_def)
next
  case (Cons p pages)
  obtain raw where raw: "page_serialize E p = Ok raw" "length raw = PAGE_SIZE" "decode_page E raw = Some p"
    using storable_raw [OF assms(1)] Cons.prems(1) by (auto simp: page_serialize_def)
  obtain r1 d1 where s1: "sys d = (r1, d1)" by fastforce
  obtain f d2 where s2: "syscall d1 = (f, d2)" by fastforce
  note law1 = sys_law [OF s1] and law2 = syscall_law [OF s2]
  have same: "same_file d d2" using law1 law2 same_file_trans by blast
  let ?n = "unat (get_page_num (pg_id p))"
  let ?temp = "write_at (file_offset (pg_id p)) raw temp"
  have off: "file_offset (pg_id p) = ?n * PAGE_SIZE" by (simp add: file_offset_def)
  note slot = page_of_slot_write(1) [OF raw(2) Cons.prems(3), of E ?n, folded off]
  note len = page_of_slot_write(2) [OF raw(2) Cons.prems(3), of ?n, folded off]
  have put: "kept_file d (put_temp c d2)" for c
    using kept_file_trans [OF same_kept [OF same]] put_temp_kept by blast
  show ?case
  proof (cases r1)
    case r1: (Ok u)
    show ?thesis
    proof (cases f)
      case None
      have rest: "write_temp E pages ?temp (put_temp ?temp d2) = (r, d')"
        using Cons.prems(4) s1 s2 r1 None raw(1) by (simp add: Let_def)
      have new: "?n \<notin> (\<lambda>p. unat (get_page_num (pg_id p))) ` set pages"
        using Cons.prems(2) by (auto simp: word_unat_eq_iff)
      have "distinct (map (get_page_num \<circ> pg_id) pages)" "\<forall>p \<in> set pages. storable E p"
        using Cons.prems(1,2) by (simp_all add: comp_def)
      note IH = Cons.IH [OF this(2,1) len rest]
      have "kept_file d d'" using kept_file_trans [OF put] IH by blast
      moreover have "healthy (put_temp ?temp d2) = healthy d2" by simp
      moreover have "temp_apart (put_temp ?temp d2) = temp_apart d" "named (put_temp ?temp d2) = (if temp_apart d then named d else ?temp)"
        using same_file_dir [OF same] same by (simp_all add: put_temp_named same_file_def)
      ultimately show ?thesis using IH law1 law2 new slot raw(3) by auto
    next
      case (Some x)
      then have "r = Panic" "\<exists>c. d' = put_temp c d2" using Cons.prems(4) s1 s2 r1 raw(1) by (cases x, auto)+
      then show ?thesis using Some law1 law2 put by auto
    qed
  next
    case (Err e)
    then show ?thesis using Cons.prems(4) s1 law1 same_kept by auto
  next
    case Panic
    then show ?thesis using law1 by simp
  qed
qed

lemma page_num_inj:
  "get_table_id a = t \<Longrightarrow> get_table_id b = t \<Longrightarrow> get_page_num a = get_page_num b \<Longrightarrow> a = b"
  by (cases a; cases b) simp

lemma distinct_page_nums:
  assumes "\<forall>p \<in> set pages. get_table_id (pg_id p) = t \<and> storable E p" and "distinct (map pg_id pages)"
  shows "distinct (map (get_page_num \<circ> pg_id) pages) \<and> (\<forall>p \<in> set pages. storable E p)"
proof -
  have "x = y" if "x \<in> set pages" "y \<in> set pages" "get_page_num (pg_id x) = get_page_num (pg_id y)"
    for x y
    using that assms page_num_inj [of "pg_id x" t "pg_id y"] by (auto simp: distinct_map inj_on_def)
  then show ?thesis using assms by (auto simp: distinct_map inj_on_def)
qed

lemma sync_dir_law:
  assumes "sync_dir dir d = (r, d')"
  shows "same_file d d' \<and> r \<noteq> Panic \<and> (healthy d \<longrightarrow> healthy d') \<and> (dir = Some [] \<longrightarrow> r \<noteq> Ok ()) \<and>
    (healthy d \<and> dir = Some [] \<longrightarrow> r = Err NotFound) \<and> (healthy d \<and> dir \<noteq> Some [] \<longrightarrow> r = Ok ())"
proof (cases dir)
  case None
  then show ?thesis using assms by (simp add: sync_dir_def)
next
  case (Some p)
  obtain r1 d1 where s1: "sys d = (r1, d1)" by fastforce
  obtain r2 d2 where s2: "sys d1 = (r2, d2)" by fastforce
  show ?thesis
    using assms Some s1 s2 sys_law [OF s1] sys_law [OF s2]
    by (cases r1) (auto simp: sync_dir_def sfail_def intro: same_file_trans split: if_splits)
qed

lemma swap_after_rename:
  assumes "sbind (sync_dir dir) (\<lambda>_. sbind sys (\<lambda>_ d. (Ok (), d\<lparr>orphan := None\<rparr>))) d = (r, d')"
    and "r \<noteq> Panic"
  shows "named d' = named d \<and> path d' = path d \<and>
    (r = Ok () \<and> orphan d' = None \<and> dir \<noteq> Some [] \<or> (\<exists>e. r = Err e) \<and> orphan d' = orphan d)"
  using assms
proof (cases rule: sbindE)
  case (Err e)
  then show ?thesis using sync_dir_law [OF Err(1)] by (simp add: same_file_def)
next
  case s1: (Ok u d1)
  note law1 = sync_dir_law [OF s1(1)]
  from s1(2) assms(2) show ?thesis
  proof (cases rule: sbindE)
    case (Err e)
    then show ?thesis using law1 sys_law [OF Err(1)] by (simp add: same_file_def)
  next
    case (Ok u d2)
    then show ?thesis using law1 sys_law [OF Ok(1)] by (auto simp: same_file_def)
  qed
qed

text \<open>
  Up to the rename the disk is as it was, unless the temporary file is the database file; from the rename on the path
  names the new file, and the disk uses that file only if everything after the rename succeeds.
\<close>

lemma rename_temp_simps:
  assumes "kept_file d d4" and "\<not> temp_apart d \<longrightarrow> named d4 = temp"
  shows "named (rename_temp temp d4) = temp" and "path (rename_temp temp d4) = path d"
    and "orphan (rename_temp temp d4) = (if temp_apart d then Some (open_file d) else orphan d)"
    and "healthy (rename_temp temp d4) = healthy d4"
proof -
  have "open_file d4 = open_file d" if "temp_apart d" using same_file_open [OF kept_apart [OF assms(1) that]] .
  then show "named (rename_temp temp d4) = temp" "path (rename_temp temp d4) = path d"
    "orphan (rename_temp temp d4) = (if temp_apart d then Some (open_file d) else orphan d)"
    "healthy (rename_temp temp d4) = healthy d4"
    using assms kept_dir [OF assms(1)] by (simp_all add: rename_temp_def kept_file_def healthy_def)
qed

lemma file_swap_cases:
  assumes "varint_ok E" and "\<forall>p \<in> set pages. storable E p"
    and "distinct (map (get_page_num \<circ> pg_id) pages)"
    and "file_swap_file E pages d = (r, d')" and "r \<noteq> Panic"
  shows "(\<exists>e. r = Err e \<and> kept_file d d') \<or>
    (\<exists>temp d1 d2. write_temp E pages [] d1 = (Ok temp, d2) \<and> named d' = temp \<and> path d' = path d \<and>
      (r = Ok () \<and> orphan d' = None \<and> parent_dir d \<noteq> Some [] \<or>
       (\<exists>e. r = Err e) \<and> orphan d' = (if temp_apart d then Some (open_file d) else orphan d)))"
  using assms(4,5) unfolding file_swap_file_def
proof (cases rule: sbindE)
  case (Err e)
  then show ?thesis using sys_law [OF Err(1)] same_kept by simp
next
  case s1: (Ok u d0)
  let ?d1 = "put_temp [] d0"
  have same0: "same_file d d0" using sys_law [OF s1(1)] by simp
  have same1: "kept_file d ?d1" using kept_file_trans [OF same_kept [OF same0]] put_temp_kept by blast
  have start: "\<not> temp_apart d \<longrightarrow> named ?d1 = []" "temp_apart ?d1 = temp_apart d"
    using same_file_dir [OF same0] by (simp_all add: put_temp_named)
  from s1(2) assms(5) show ?thesis
  proof (cases rule: sbindE)
    case (Err e)
    then have "kept_file ?d1 d'" using write_temp_law [OF assms(1-3) _ Err(1), of 0] by simp
    then show ?thesis using kept_file_trans [OF same1] Err by simp
  next
    case s2: (Ok temp d2)
    have same2: "kept_file d d2" "\<not> temp_apart d \<longrightarrow> named d2 = temp"
      using kept_file_trans [OF same1] write_temp_law [OF assms(1-3) _ s2(1), of 0] start by simp_all
    from s2(2) assms(5) show ?thesis
    proof (cases rule: sbindE)
      case (Err e)
      then show ?thesis using kept_file_trans [OF same2(1)] sys_law [OF Err(1)] same_kept by simp
    next
      case s3: (Ok u d3)
      have same3: "kept_file d d3" using kept_file_trans [OF same2(1)] sys_law [OF s3(1)] same_kept by simp
      from s3(2) assms(5) show ?thesis
      proof (cases rule: sbindE)
        case (Err e)
        then show ?thesis using kept_file_trans [OF same3] sys_law [OF Err(1)] same_kept by simp
      next
        case s4: (Ok u d4)
        have same: "kept_file d d4" using kept_file_trans [OF same3] sys_law [OF s4(1)] same_kept by simp
        have "named d4 = named d2" using sys_law [OF s3(1)] sys_law [OF s4(1)] by (simp add: same_file_def)
        then have live: "\<not> temp_apart d \<longrightarrow> named d4 = temp" using same2(2) by simp
        have "parent_dir d4 = parent_dir d" using kept_dir [OF same] by simp
        then have "named d' = temp \<and> path d' = path d \<and>
            (r = Ok () \<and> orphan d' = None \<and> parent_dir d \<noteq> Some [] \<or>
             (\<exists>e. r = Err e) \<and> orphan d' = (if temp_apart d then Some (open_file d) else orphan d))"
          using swap_after_rename [OF s4(2) assms(5)] rename_temp_simps [OF same live] by metis
        then show ?thesis using s2(1) by blast
      qed
    qed
  qed
qed

lemma sys_healthy:
  assumes "healthy d"
  obtains d' where "sys d = (Ok (), d')" and "healthy d'" and "same_file d d'"
proof -
  obtain r d' where "sys d = (r, d')" by fastforce
  then show ?thesis using sys_law [of d r d'] assms that by auto
qed

lemma healthy_swap:
  assumes "varint_ok E" and "\<forall>p \<in> set pages. storable E p"
    and "distinct (map (get_page_num \<circ> pg_id) pages)" and "healthy d"
    and "file_swap_file E pages d = (r, d')"
  shows "r = (if parent_dir d = Some [] then Err NotFound else Ok ()) \<and>
    healthy d' \<and> path d' = path d \<and>
    (\<exists>temp d1 d2. write_temp E pages [] d1 = (Ok temp, d2) \<and> named d' = temp \<and>
      orphan d' = (if parent_dir d \<noteq> Some [] then None else if temp_apart d then Some (open_file d) else orphan d))"
proof -
  obtain d0 where s1: "sys d = (Ok (), d0)" "healthy d0" "same_file d d0"
    using sys_healthy [OF assms(4)] by blast
  let ?d1 = "put_temp [] d0"
  have same1: "kept_file d ?d1" using kept_file_trans [OF same_kept [OF s1(3)]] put_temp_kept by blast
  have start: "\<not> temp_apart d \<longrightarrow> named ?d1 = []" "temp_apart ?d1 = temp_apart d"
    using same_file_dir [OF s1(3)] by (simp_all add: put_temp_named)
  obtain r2 d2 where s2: "write_temp E pages [] ?d1 = (r2, d2)" by fastforce
  note law2 = write_temp_law [OF assms(1-3) _ s2, of 0]
  have "healthy ?d1" using s1(2) by simp
  then obtain temp where temp: "r2 = Ok temp" using law2 by (cases r2) auto
  have law: "kept_file ?d1 d2" "healthy d2" "\<not> temp_apart d \<longrightarrow> named d2 = temp"
    using law2 \<open>healthy ?d1\<close> start temp by simp_all
  obtain d3 where s3: "sys d2 = (Ok (), d3)" "healthy d3" "same_file d2 d3" using sys_healthy law(2) by blast
  obtain d4 where s4: "sys d3 = (Ok (), d4)" "healthy d4" "same_file d3 d4" using sys_healthy [OF s3(2)] by blast
  have same: "kept_file d d4"
    using kept_file_trans [OF kept_file_trans [OF same1 law(1)]] same_kept same_file_trans [OF s3(3) s4(3)] by blast
  have live: "\<not> temp_apart d \<longrightarrow> named d4 = temp" using law(3) s3(3) s4(3) by (simp add: same_file_def)
  let ?d = "rename_temp temp d4"
  note new = rename_temp_simps [OF same live]
  have hd: "healthy ?d" using s4(2) new(4) by simp
  have dir: "parent_dir d4 = parent_dir d" using kept_dir [OF same] by simp
  obtain r5 d5 where s5: "sync_dir (parent_dir d4) ?d = (r5, d5)" by fastforce
  have law5: "healthy d5 \<and> same_file ?d d5 \<and> r5 = (if parent_dir d = Some [] then Err NotFound else Ok ())"
    using sync_dir_law [OF s5] hd dir by auto
  obtain d6 where s6: "sys d5 = (Ok (), d6)" "healthy d6" "same_file d5 d6" using sys_healthy law5 by blast
  have eq: "file_swap_file E pages d =
      (if parent_dir d = Some [] then (Err NotFound, d5) else (Ok (), d6\<lparr>orphan := None\<rparr>))"
    using s1(1) s2 temp s3(1) s4(1) s5 s6(1) law5 by (simp add: file_swap_file_def)
  have "named d5 = temp \<and> path d5 = path d \<and> orphan d5 = (if temp_apart d then Some (open_file d) else orphan d)"
    using law5 new by (simp add: same_file_def)
  moreover from this have "named d6 = temp \<and> path d6 = path d" using s6(3) by (simp add: same_file_def)
  ultimately show ?thesis using eq assms(5) s2 temp law5 s6(2) by (auto simp: healthy_def split: if_splits)
qed

lemma file_swap_law:
  assumes "varint_ok E" and "\<forall>p \<in> set pages. get_table_id (pg_id p) = t \<and> storable E p"
    and "distinct (map pg_id pages)" and "file_swap_file E pages d = (r, d')"
  shows "(r = Ok () \<longrightarrow> (\<forall>pid. get_table_id pid = t \<longrightarrow>
      (\<forall>p. file_stored E d' pid = Some p \<longleftrightarrow> p \<in> set pages \<and> pg_id p = pid))) \<and>
    (\<forall>e. r = Err e \<and> temp_apart d \<longrightarrow> open_file d' = open_file d)"
proof (cases "r = Panic")
  case False
  have nums: "distinct (map (get_page_num \<circ> pg_id) pages)" and ok: "\<forall>p \<in> set pages. storable E p"
    using distinct_page_nums [OF assms(2,3)] by blast+
  show ?thesis
  proof (cases "\<exists>e. r = Err e")
    case True
    then have "same_file d d' \<or> orphan d' = Some (open_file d)" if "temp_apart d"
      using file_swap_cases [OF assms(1) ok nums assms(4) False] kept_apart [OF _ that] that by auto
    then show ?thesis using True by (auto simp: open_file_def same_file_def split: option.splits)
  next
    case False
    then obtain temp d1 d2 where temp: "write_temp E pages [] d1 = (Ok temp, d2)" "open_file d' = temp"
      using file_swap_cases [OF assms(1) ok nums assms(4)] \<open>r \<noteq> Panic\<close>
      by (auto simp: open_file_def)
    have none: "page_of_slot E [] n = None" for n
      using PAGE_SIZE_pos by (simp add: page_of_slot_def page_slot_def del: PAGE_SIZE_pos)
    have "file_stored E d' pid = Some p \<longleftrightarrow> p \<in> set pages \<and> pg_id p = pid"
      if pid: "get_table_id pid = t" for pid p
    proof (cases "\<exists>q \<in> set pages. pg_id q = pid")
      case True
      then obtain q where q: "q \<in> set pages" "pg_id q = pid" by blast
      then have "p = q" if "p \<in> set pages" "pg_id p = pid"
        using that assms(3) by (auto simp: distinct_map dest: inj_onD)
      then show ?thesis
        using write_temp_law [OF assms(1) ok nums _ temp(1), of 0] q temp(2)
        by (auto simp: file_stored_slot)
    next
      case False
      have "unat (get_page_num (pg_id p)) \<noteq> unat (get_page_num pid)" if "p \<in> set pages" for p
        using that pid assms(2) False page_num_inj [of "pg_id p" t pid]
        by (auto simp: word_unat_eq_iff [symmetric])
      then have "unat (get_page_num pid) \<notin> (\<lambda>p. unat (get_page_num (pg_id p))) ` set pages"
        by fastforce
      then show ?thesis
        using write_temp_law [OF assms(1) ok nums _ temp(1), of 0] False temp(2) none
        by (auto simp: file_stored_slot)
    qed
    then show ?thesis using False by blast
  qed
qed simp

text \<open>A condition on the directory of the path is kept by every call, so it may be part of \<open>well\<close>.\<close>

lemma file_disk_keeps:
  "page_disk E (file_disk_manager E) {pid. get_table_id pid = t} (file_stored E) (\<lambda>d. healthy d \<and> dir (parent_dir d)) temp_apart"
proof
  have same: "parent_dir d' = parent_dir d" if "same_file d d'" for d d' using same_file_dir [OF that] by simp
  show "kept temp_apart (dm_read_page (file_disk_manager E) pid)" for pid
    by (rule keptI) (auto simp: file_disk_manager_def dest!: file_read_law same_file_dir)
  show "kept temp_apart (dm_write_page (file_disk_manager E) pid raw)" for pid raw
    by (rule keptI) (auto simp: file_disk_manager_def dest!: file_write_law path_dir)
  show "kept temp_apart (dm_sync (file_disk_manager E))"
    by (rule keptI) (auto simp: file_disk_manager_def file_sync_def dest!: sys_law same_file_dir)
  show "rd \<noteq> Panic \<and> file_stored E d' = file_stored E d \<and> (healthy d \<and> dir (parent_dir d) \<longrightarrow> healthy d' \<and> dir (parent_dir d')) \<and>
      (\<forall>raw. rd = Ok raw \<longrightarrow> length raw = PAGE_SIZE \<and> decode_page E raw = file_stored E d pid)"
    if "dm_read_page (file_disk_manager E) pid d = (rd, d')" for pid d rd d'
  proof -
    have "file_read_page pid d = (rd, d')" using that by (simp add: file_disk_manager_def)
    note law = file_read_law [OF this]
    have "length raw = PAGE_SIZE" if "page_slot c n = Some raw" for c n raw
      using that by (auto simp: page_slot_def split: if_splits)
    then show ?thesis using law same same_file_open [of d d'] by (auto simp: fun_eq_iff file_stored_def)
  qed
  show "\<exists>raw. rd = Ok raw"
    if "dm_read_page (file_disk_manager E) pid d = (rd, d')" "healthy d \<and> dir (parent_dir d)" "file_stored E d pid = Some p"
    for pid d rd d' p
    using that file_read_law [of pid d rd d'] by (auto simp: file_disk_manager_def file_stored_def)
  show "r \<noteq> Panic \<and> (healthy d \<and> dir (parent_dir d) \<longrightarrow> r = Ok () \<and> healthy d' \<and> dir (parent_dir d')) \<and>
      (r = Ok () \<longrightarrow> file_stored E d' pid = decode_page E raw) \<and>
      (\<forall>pid' \<in> {pid. get_table_id pid = t}. \<forall>p. pid' \<noteq> pid \<and> file_stored E d pid' = Some p \<longrightarrow>
        file_stored E d' pid' = Some p)"
    if pid: "pid \<in> {pid. get_table_id pid = t}" and raw: "length raw = PAGE_SIZE"
      and w: "dm_write_page (file_disk_manager E) pid raw d = (r, d')" for pid raw d r d'
  proof -
    have "file_write_page pid raw d = (r, d')" using w by (simp add: file_disk_manager_def)
    note law = file_write_law [OF this]
    then obtain k where k: "open_file d' = write_at (file_offset pid) (take k raw) (open_file d)"
      "r = Ok () \<longrightarrow> take k raw = raw" by blast
    have "file_stored E d' pid' = Some p"
      if other: "get_table_id pid' = t" "pid' \<noteq> pid" "file_stored E d pid' = Some p" for pid' p
    proof -
      have ne: "unat (get_page_num pid') \<noteq> unat (get_page_num pid)"
        using other(1,2) pid page_num_inj [of pid' t pid] by (auto simp: word_unat_eq_iff [symmetric])
      obtain x where x: "page_slot (open_file d) (unat (get_page_num pid')) = Some x"
          "decode_page E x = Some p"
        using other(3) by (auto simp: file_stored_def bind_eq_Some_conv)
      have "page_slot (open_file d') (unat (get_page_num pid')) = Some x"
        unfolding k file_offset_def by (rule page_slot_write_other [OF _ ne x(1)]) (simp add: raw)
      then show ?thesis using x(2) by (simp add: file_stored_def)
    qed
    moreover have "file_stored E d' pid = decode_page E raw" if "r = Ok ()"
      using k that page_slot_write_same [OF raw] by (simp add: file_stored_def file_offset_def)
    moreover have "parent_dir d' = parent_dir d" using law path_dir by blast
    ultimately show ?thesis using law by auto
  qed
  show "r \<noteq> Panic \<and> file_stored E d' = file_stored E d \<and> (healthy d \<and> dir (parent_dir d) \<longrightarrow> r = Ok () \<and> healthy d' \<and> dir (parent_dir d'))"
    if "dm_sync (file_disk_manager E) d = (r, d')" for d r d'
    using that same sys_law [of d r d'] same_file_open [of d d']
    by (auto simp: file_disk_manager_def file_sync_def file_stored_def fun_eq_iff)
  show "(r = Ok () \<longrightarrow> (\<forall>pid \<in> {pid. get_table_id pid = t}. \<forall>p.
        file_stored E d' pid = Some p \<longleftrightarrow> p \<in> set pages \<and> pg_id p = pid)) \<and>
      (\<forall>e. r = Err e \<and> temp_apart d \<longrightarrow> file_stored E d' = file_stored E d) \<and>
      (healthy d \<and> dir (parent_dir d) \<longrightarrow> r \<noteq> Panic \<and> healthy d' \<and> dir (parent_dir d'))"
    if "varint_ok E" "\<forall>p \<in> set pages. pg_id p \<in> {pid. get_table_id pid = t} \<and> storable E p"
      "distinct (map pg_id pages)" "dm_swap_file (file_disk_manager E) pages d = (r, d')" for pages d r d'
  proof -
    have run: "file_swap_file E pages d = (r, d')" using that(4) by (simp add: file_disk_manager_def)
    have pages: "\<forall>p \<in> set pages. get_table_id (pg_id p) = t \<and> storable E p" using that(2) by simp
    have nums: "distinct (map (get_page_num \<circ> pg_id) pages)" "\<forall>p \<in> set pages. storable E p"
      using distinct_page_nums [OF pages that(3)] by blast+
    have "healthy d \<longrightarrow> r \<noteq> Panic \<and> healthy d' \<and> parent_dir d' = parent_dir d"
      using healthy_swap [OF that(1) nums(2,1) _ run] path_dir [of d' d] by (auto split: if_splits)
    then show ?thesis
      using file_swap_law [OF that(1) pages that(3) run] by (auto simp: file_stored_def fun_eq_iff)
  qed
qed

interpretation file_disk: page_disk E "file_disk_manager E" "{pid. get_table_id pid = t}" "file_stored E" healthy temp_apart for E t
  using file_disk_keeps [of E t "\<lambda>_. True"] by simp

text \<open>The same with a path that has a directory, where a swap cannot fail.\<close>

abbreviation well_named :: "file_disk \<Rightarrow> bool" where
  "well_named d \<equiv> healthy d \<and> parent_dir d \<noteq> Some []"

interpretation named_disk: page_disk E "file_disk_manager E" "{pid. get_table_id pid = t}" "file_stored E" well_named temp_apart for E t
  by (rule file_disk_keeps)

section \<open>Properties\<close>

text \<open>
  a page written to the file is read back byte for byte, and a write, even one that fails
  half way, changes no other page of the file.
\<close>

theorem file_disk_read_write:
  assumes "length raw = PAGE_SIZE" and "file_write_page pid raw d = (r, d')"
  shows "(r = Ok () \<and> healthy d' \<longrightarrow> fst (file_read_page pid d') = Ok raw) \<and>
    (healthy d \<longrightarrow> r = Ok ()) \<and>
    (\<forall>pid' raw'. get_page_num pid' \<noteq> get_page_num pid \<and> healthy d' \<and>
      page_slot (open_file d) (unat (get_page_num pid')) = Some raw' \<longrightarrow>
      fst (file_read_page pid' d') = Ok raw')"
proof -
  obtain k where k: "open_file d' = write_at (file_offset pid) (take k raw) (open_file d)"
    "r = Ok () \<longrightarrow> take k raw = raw" "healthy d \<longrightarrow> r = Ok ()"
    using file_write_law [OF assms(2)] by blast
  have read: "fst (file_read_page q d') = Ok x"
    if "healthy d'" "page_slot (open_file d') (unat (get_page_num q)) = Some x" for q x
    using that file_read_law [of q d' "fst (file_read_page q d')" "snd (file_read_page q d')"] by auto
  have other: "page_slot (open_file d') (unat (get_page_num q)) = Some x"
    if "get_page_num q \<noteq> get_page_num pid" "page_slot (open_file d) (unat (get_page_num q)) = Some x"
    for q x
    unfolding k(1) file_offset_def
    using that by (intro page_slot_write_other) (simp_all add: assms(1) word_unat_eq_iff)
  have same: "r = Ok () \<Longrightarrow> page_slot (open_file d') (unat (get_page_num pid)) = Some raw"
    using k(1,2) page_slot_write_same [OF assms(1)] by (simp add: file_offset_def)
  show ?thesis using read same other k(3) by auto
qed

lemma file_disk_read_write_witness:
  "fst (file_read_page (PageId (TableId 1) 2)
     (snd (file_write_page (PageId (TableId 1) 2) (replicate PAGE_SIZE 7)
       \<lparr>path = [100], named = [], orphan = None, faults = []\<rparr>))) = Ok (replicate PAGE_SIZE 7)"
proof -
  let ?d = "\<lparr>path = [100], named = [], orphan = None, faults = []\<rparr>"
  let ?w = "file_write_page (PageId (TableId 1) 2) (replicate PAGE_SIZE 7) ?d"
  have h: "healthy ?d" by (simp add: healthy_def)
  have "healthy (snd ?w)"
    using file_write_law [of "PageId (TableId 1) 2" "replicate PAGE_SIZE 7" ?d "fst ?w" "snd ?w"] h by simp
  then show ?thesis
    using file_disk_read_write [of "replicate PAGE_SIZE 7" "PageId (TableId 1) 2" ?d "fst ?w" "snd ?w"] h
    by simp
qed

text \<open>
  C24: \<^verbatim>\<open>swap_file\<close> replaces the file as a whole. When it returns \<^verbatim>\<open>Ok\<close>, the disk holds exactly the
  given pages and it is the file at the path that holds them. When it returns an error, and the temporary file
  is not the database file itself, the pages the disk serves are the old ones. Without a failing system call it
  succeeds, provided that the path has a directory part.
\<close>

theorem swap_file_replaces_all:
  assumes "varint_ok E" and "\<forall>p \<in> set pages. get_table_id (pg_id p) = t \<and> storable E p"
    and "distinct (map pg_id pages)" and "file_swap_file E pages d = (r, d')"
  shows "(r = Ok () \<longrightarrow> open_file d' = named d' \<and>
      (\<forall>pid p. get_table_id pid = t \<longrightarrow>
        (file_stored E d' pid = Some p \<longleftrightarrow> p \<in> set pages \<and> pg_id p = pid))) \<and>
    (\<forall>e. r = Err e \<and> temp_path d \<noteq> path d \<longrightarrow> open_file d' = open_file d) \<and>
    (healthy d \<and> parent_dir d \<noteq> Some [] \<longrightarrow> r = Ok ())"
proof -
  have nums: "distinct (map (get_page_num \<circ> pg_id) pages)" and ok: "\<forall>p \<in> set pages. storable E p"
    using distinct_page_nums [OF assms(2,3)] by blast+
  have "r = Ok () \<longrightarrow> open_file d' = named d'"
    using file_swap_cases [OF assms(1) ok nums assms(4)] by (cases r) (auto simp: open_file_def)
  then show ?thesis
    using file_swap_law [OF assms] healthy_swap [OF assms(1) ok nums _ assms(4)] by (auto simp: temp_apart_def)
qed

text \<open>
  C34: when the database is given as a bare file name, \<^verbatim>\<open>path.parent()\<close> is the empty path, opening it
  fails, and \<^verbatim>\<open>swap_file\<close> returns an error after the rename, even though no system call misbehaves. The
  path already names the new file while the disk goes on with the old one, and no later write reaches
  the file that the path names. (Unless the name ends in \<^verbatim>\<open>.vac\<close>: then the rename does nothing, and the file that the
  disk serves has been rewritten in place.)
\<close>

theorem swap_file_bare_name_orphans:
  assumes "varint_ok E" and "\<forall>p \<in> set pages. get_table_id (pg_id p) = t \<and> storable E p"
    and "distinct (map pg_id pages)" and "file_swap_file E pages d = (r, d')"
    and "healthy d" and "parent_dir d = Some []"
  shows "r = Err NotFound \<and>
    (\<forall>p \<in> set pages. page_of_slot E (named d') (unat (get_page_num (pg_id p))) = Some p) \<and>
    (temp_path d \<noteq> path d \<longrightarrow> open_file d' = open_file d \<and> named (snd (file_write_page pid raw d')) = named d') \<and>
    (temp_path d = path d \<longrightarrow> orphan d' = orphan d)"
proof -
  have nums: "distinct (map (get_page_num \<circ> pg_id) pages)" and ok: "\<forall>p \<in> set pages. storable E p"
    using distinct_page_nums [OF assms(2,3)] by blast+
  obtain temp d1 d2 where new: "r = Err NotFound" "write_temp E pages [] d1 = (Ok temp, d2)"
      "named d' = temp" "orphan d' = (if temp_apart d then Some (open_file d) else orphan d)"
    using healthy_swap [OF assms(1) ok nums assms(5,4)] assms(6) by auto
  have "named (snd (write_all_at raw off d')) = named d'" if "temp_apart d" for off
    using new(4) that
    by (auto simp: write_all_at_def syscall_def set_open_file_def split: list.splits option.splits)
  then show ?thesis
    using new write_temp_law [OF assms(1) ok nums _ new(2), of 0]
    by (auto simp: open_file_def [of d'] file_write_page_def temp_apart_def)
qed

text \<open>What the functions on paths give on a few paths.\<close>

lemma path_examples:
  "path_parent [100, 98] = Some []" "path_parent [47, 100] = Some [47]" "path_parent [97, 47, 46, 47, 100] = Some [97]"
  "with_extension [97, 47, 100, 98] [118] = [97, 47, 100, 98, 46, 118]"
  "with_extension [100, 46, 98] [118] = [100, 46, 118]" "with_extension [46, 98] [118] = [46, 98, 46, 118]"
  "names_file [100] \<and> \<not> names_file [97, 47]"
  by (simp_all add: path_parent_def dir_part_def with_extension_def file_stem_def path_file_name_def names_file_def)

lemma swap_file_bare_name_orphans_witness:
  "\<exists>d'. file_swap_file demo_env [demo_free 2 None]
      \<lparr>path = [100, 98], named = [1, 2, 3], orphan = None, faults = []\<rparr> = (Err NotFound, d') \<and>
    open_file d' = [1, 2, 3]"
proof -
  let ?d = "\<lparr>path = [100, 98], named = [1, 2, 3], orphan = None, faults = []\<rparr> :: file_disk"
  let ?r = "file_swap_file demo_env [demo_free 2 None] ?d"
  have st: "storable demo_env (demo_free 2 None)"
    by (simp add: storable_def page_wf_def page_lsn_wf_def demo_free_def empty_page_def)
  have path: "parent_dir ?d = Some []" "temp_path ?d \<noteq> path ?d"
    by (simp_all add: parent_dir_def temp_path_def path_parent_def dir_part_def with_extension_def file_stem_def path_file_name_def)
  show ?thesis
    using swap_file_bare_name_orphans [of demo_env "[demo_free 2 None]" "TableId 1" ?d "fst ?r" "snd ?r"] st path
    by (auto simp: healthy_def demo_free_def empty_page_def demo_id_def open_file_def [of ?d]
        intro!: exI [of _ "snd ?r"] prod_eqI)
qed

text \<open>
  On a path that ends in \<^verbatim>\<open>.vac\<close> the promise is broken: \<^verbatim>\<open>File::create\<close> has emptied the database before anything is written, so
  whatever fails next, every page is lost.
\<close>

theorem swap_file_vac_path_loses:
  assumes "temp_path d = path d" and "orphan d = None" and "faults d = None # Some (e, n) # fs" and "pages \<noteq> []"
  shows "\<exists>d'. file_swap_file E pages d = (Err e, d') \<and> (\<forall>pid. file_stored E d' pid = None)"
proof -
  obtain p ps where p: "pages = p # ps" using assms(4) by (cases pages) auto
  have "page_slot [] k = None" for k using PAGE_SIZE_pos by (simp add: page_slot_def del: PAGE_SIZE_pos)
  moreover have "\<exists>d'. file_swap_file E pages d = (Err e, d') \<and> open_file d' = []"
    using assms(1-3)
    by (auto simp: p file_swap_file_def sys_def syscall_def sbind_def put_temp_def temp_apart_def temp_path_def open_file_def)
  ultimately show ?thesis by (fastforce simp: file_stored_def)
qed

lemma swap_file_vac_path_loses_witness:
  "\<exists>d'. file_swap_file demo_env [demo_free 2 None] \<lparr>path = [47, 100, 46, 118, 97, 99], named = [1, 2, 3], orphan = None,
      faults = [None, Some (OtherIo, 0)]\<rparr> = (Err OtherIo, d') \<and> file_stored demo_env d' (demo_id 1) = None"
proof -
  let ?d = "\<lparr>path = [47, 100, 46, 118, 97, 99], named = [1, 2, 3], orphan = None, faults = [None, Some (OtherIo, 0)]\<rparr> :: file_disk"
  have "temp_path ?d = path ?d" by (simp add: temp_path_def with_extension_def dir_part_def file_stem_def path_file_name_def)
  then show ?thesis using swap_file_vac_path_loses [of ?d OtherIo 0 "[]" "[demo_free 2 None]" demo_env] by auto
qed

lemma swap_file_replaces_all_witness:
  "\<exists>d'. file_swap_file demo_env [demo_free 2 None, demo_leaf 1 [demo_row 4] None None]
      \<lparr>path = [47, 100], named = [], orphan = None, faults = []\<rparr> = (Ok (), d') \<and>
    file_stored demo_env d' (demo_id 1) = Some (demo_leaf 1 [demo_row 4] None None)"
proof -
  let ?d = "\<lparr>path = [47, 100], named = [], orphan = None, faults = []\<rparr> :: file_disk"
  let ?ps = "[demo_free 2 None, demo_leaf 1 [demo_row 4] None None]"
  let ?r = "file_swap_file demo_env ?ps ?d"
  have "storable demo_env (demo_free 2 None)" "storable demo_env (demo_leaf 1 [demo_row 4] None None)"
    by (simp_all add: storable_def rows_ok_def)
      (simp_all add: page_wf_def page_lsn_wf_def row_wf_def demo_row_def demo_leaf_def
        demo_free_def empty_page_def layout_simps)
  then show ?thesis
    using swap_file_replaces_all [of demo_env ?ps "TableId 1" ?d "fst ?r" "snd ?r"]
    by (auto simp: parent_dir_def path_parent_def dir_part_def healthy_def demo_free_def empty_page_def demo_id_def
        intro!: exI [of _ "snd ?r"] prod_eqI)
qed

end
