(* ===== verification/Frames.thy ===== *)
theory Frames
  imports Page Effects
begin

text \<open>
  \<^verbatim>\<open>src/bpm/frame.rs\<close> and \<^verbatim>\<open>src/bpm/eviction.rs\<close>: the frames of the buffer pool and the two
  policies that choose which of them to reuse. The trait \<^verbatim>\<open>EvictionPolicy\<close> is a function; its
  contract is the locale \<open>eviction_policy\<close>, which both policies are shown to keep.
\<close>

section \<open>Frames (bpm/frame.rs)\<close>

text \<open>A \<^verbatim>\<open>FrameId\<close> is an index.\<close>

type_synonym frame_id = nat

text \<open>The \<^verbatim>\<open>RwLock\<close> around the page, by who holds it.\<close>

datatype latch = Unlatched | ReadLatched nat | WriteLatched

record frame =
  slot :: "page option"
  latch :: latch
  pin_count :: "32 word"
  dirty :: bool
  referenced :: bool

definition frame_default :: frame where
  "frame_default = \<lparr>slot = None, latch = Unlatched, pin_count = 0, dirty = False, referenced = False\<rparr>"

definition is_pinned :: "frame \<Rightarrow> bool" where
  "is_pinned f \<longleftrightarrow> pin_count f \<noteq> 0"

definition is_dirty :: "frame \<Rightarrow> bool" where
  "is_dirty f \<longleftrightarrow> dirty f"

definition take_referenced :: "frame \<Rightarrow> bool \<times> frame" where
  "take_referenced f = (referenced f, f\<lparr>referenced := False\<rparr>)"

section \<open>Eviction policies (bpm/eviction.rs)\<close>

text \<open>
  \<^verbatim>\<open>find_victim\<close> takes the policy's state and the frames, whose flags it may clear, and returns
  the victim with both. A result is \<open>None\<close> when indexing the frames panics.
\<close>

type_synonym 'e find_victim = "'e \<Rightarrow> frame list \<Rightarrow> (frame_id option \<times> 'e \<times> frame list) option"

datatype clock_evictor = ClockEvictor nat

text \<open>
  One pass of the hand over the frames, at most \<open>n\<close> steps. The two loops of \<^verbatim>\<open>find_victim\<close> differ
  in whether a dirty frame is passed over.
\<close>

fun clock_pass ::
  "bool \<Rightarrow> nat \<Rightarrow> nat \<Rightarrow> frame list \<Rightarrow> (frame_id option \<times> nat \<times> frame list) option" where
  "clock_pass skip_dirty 0 hand frs = Some (None, hand, frs)"
| "clock_pass skip_dirty (Suc n) hand frs =
     (let fid = hand; hand' = (hand + 1) mod length frs
      in if \<not> fid < length frs then None
         else
           let frame = frs ! fid
           in if is_pinned frame then clock_pass skip_dirty n hand' frs
              else
                case take_referenced frame of (was_referenced, frame') \<Rightarrow>
                  let frs' = frs[fid := frame']
                  in if was_referenced then clock_pass skip_dirty n hand' frs'
                     else if skip_dirty \<and> is_dirty frame' then clock_pass skip_dirty n hand' frs'
                     else Some (Some fid, hand', frs'))"

fun clock_find_victim :: "clock_evictor find_victim" where
  "clock_find_victim (ClockEvictor hand) frs =
     (case clock_pass True (length frs) hand frs of
       None \<Rightarrow> None
     | Some (Some fid, hand', frs') \<Rightarrow> Some (Some fid, ClockEvictor hand', frs')
     | Some (None, hand', frs') \<Rightarrow>
         (case clock_pass False (length frs') hand' frs' of
           None \<Rightarrow> None
         | Some (v, hand'', frs'') \<Rightarrow> Some (v, ClockEvictor hand'', frs'')))"

datatype replacer = Replacer nat

fun replacer_loop :: "nat \<Rightarrow> nat \<Rightarrow> frame list \<Rightarrow> (frame_id option \<times> nat) option" where
  "replacer_loop 0 hand frs = Some (None, hand)"
| "replacer_loop (Suc n) hand frs =
     (let fid = hand; hand' = (hand + 1) mod length frs
      in if \<not> fid < length frs then None
         else if \<not> is_pinned (frs ! fid) then Some (Some fid, hand')
         else replacer_loop n hand' frs)"

fun replacer_find_victim :: "replacer find_victim" where
  "replacer_find_victim (Replacer hand) frs =
     map_option (\<lambda>(v, hand'). (v, Replacer hand', frs)) (replacer_loop (length frs) hand frs)"

section \<open>The contract\<close>

text \<open>Frames that differ in nothing but the \<^verbatim>\<open>referenced\<close> flag.\<close>

definition same_frames :: "frame list \<Rightarrow> frame list \<Rightarrow> bool" where
  "same_frames frs frs' \<longleftrightarrow>
     length frs' = length frs \<and>
     (\<forall>i < length frs. frs' ! i = (frs ! i)\<lparr>referenced := referenced (frs' ! i)\<rparr>)"

lemma same_frames_refl [simp]: "same_frames frs frs"
  by (simp add: same_frames_def)

lemma same_frames_length: "same_frames frs frs' \<Longrightarrow> length frs' = length frs"
  by (simp add: same_frames_def)

lemma same_frames_nth:
  assumes "same_frames frs frs'" and "i < length frs"
  shows "slot (frs' ! i) = slot (frs ! i)" and "latch (frs' ! i) = latch (frs ! i)"
    and "pin_count (frs' ! i) = pin_count (frs ! i)" and "dirty (frs' ! i) = dirty (frs ! i)"
proof -
  have "frs' ! i = (frs ! i)\<lparr>referenced := referenced (frs' ! i)\<rparr>"
    using assms by (simp add: same_frames_def)
  then obtain b where "frs' ! i = (frs ! i)\<lparr>referenced := b\<rparr>" by blast
  then show "slot (frs' ! i) = slot (frs ! i)" "latch (frs' ! i) = latch (frs ! i)"
    "pin_count (frs' ! i) = pin_count (frs ! i)" "dirty (frs' ! i) = dirty (frs ! i)" by simp_all
qed

lemma frame_eqI:
  "slot f = slot g \<Longrightarrow> latch f = latch g \<Longrightarrow> pin_count f = pin_count g \<Longrightarrow> dirty f = dirty g \<Longrightarrow>
    referenced f = referenced g \<Longrightarrow> f = (g :: frame)"
  by simp

lemma same_framesI:
  assumes "length frs' = length frs"
    and "\<And>i. i < length frs \<Longrightarrow> slot (frs' ! i) = slot (frs ! i) \<and> latch (frs' ! i) = latch (frs ! i) \<and>
      pin_count (frs' ! i) = pin_count (frs ! i) \<and> dirty (frs' ! i) = dirty (frs ! i)"
  shows "same_frames frs frs'"
  using assms by (auto simp: same_frames_def intro!: frame_eqI)

lemma same_frames_trans: "same_frames a b \<Longrightarrow> same_frames b c \<Longrightarrow> same_frames a c"
  by (rule same_framesI)
    (auto simp: same_frames_length same_frames_nth)

lemma same_frames_clear: "same_frames frs (frs[i := (frs ! i)\<lparr>referenced := b\<rparr>])"
  by (cases "i < length frs") (auto simp: nth_list_update list_update_beyond not_less intro!: same_framesI split: if_splits)

locale eviction_policy =
  fixes find_victim :: "'e find_victim"
    and ok :: "'e \<Rightarrow> nat \<Rightarrow> bool"
  assumes victim_law: "ok e (length frs) \<Longrightarrow> frs \<noteq> [] \<Longrightarrow>
      \<exists>v e' frs'. find_victim e frs = Some (v, e', frs') \<and> ok e' (length frs) \<and> same_frames frs frs' \<and>
        (case v of
          Some i \<Rightarrow> i < length frs \<and> \<not> is_pinned (frs ! i)
        | None \<Rightarrow> \<forall>i < length frs. is_pinned (frs ! i))"

section \<open>Both policies keep it\<close>

lemma hand_visits_all:
  fixes len :: nat
  assumes "hand < len" and "i < len"
  shows "\<exists>k < len. (hand + k) mod len = i"
proof (cases "hand \<le> i")
  case True
  then show ?thesis using assms by (intro exI [of _ "i - hand"]) simp
next
  case False
  then show ?thesis using assms by (intro exI [of _ "len + i - hand"]) simp
qed

text \<open>
  One pass: a victim is unpinned and unreferenced, and clean if dirty frames are passed over. If there is no
  victim, every frame visited is pinned, or had a reason to be passed over and is unreferenced now.
\<close>

lemma clock_pass_law:
  assumes "hand < length frs"
  shows "\<exists>v hand' frs'. clock_pass sd n hand frs = Some (v, hand', frs') \<and> hand' < length frs \<and>
    same_frames frs frs' \<and> (\<forall>i < length frs. referenced (frs' ! i) \<longrightarrow> referenced (frs ! i)) \<and>
    (case v of
      Some i \<Rightarrow> i < length frs \<and> \<not> is_pinned (frs ! i) \<and> \<not> (sd \<and> dirty (frs ! i))
    | None \<Rightarrow> \<forall>k < n. is_pinned (frs ! ((hand + k) mod length frs)) \<or>
        \<not> referenced (frs' ! ((hand + k) mod length frs)) \<and>
        (referenced (frs ! ((hand + k) mod length frs)) \<or> sd \<and> dirty (frs ! ((hand + k) mod length frs))))"
  using assms
proof (induction n arbitrary: hand frs)
  case 0
  then show ?case by simp
next
  case (Suc n)
  let ?len = "length frs" and ?hand = "(hand + 1) mod length frs"
  let ?f = "frs ! hand" and ?clear = "frs[hand := (frs ! hand)\<lparr>referenced := False\<rparr>]"
  let ?frs = "if is_pinned ?f then frs else ?clear"
  have len: "0 < ?len" using Suc.prems by linarith
  have hand: "?hand < ?len" using len by simp
  have step: "(?hand + k) mod ?len = (hand + Suc k) mod ?len" for k
    by (simp add: mod_add_left_eq)
  have first: "(hand + 0) mod ?len = hand" using Suc.prems by simp
  have same: "same_frames frs ?frs" "length ?frs = ?len" by (simp_all add: same_frames_clear)
  have pin: "is_pinned (?frs ! i) = is_pinned (frs ! i)" "dirty (?frs ! i) = dirty (frs ! i)"
    "referenced (?frs ! i) \<Longrightarrow> referenced (frs ! i)"
    "is_pinned ?f \<or> \<not> referenced (?frs ! hand)" if "i < ?len" for i
    using that Suc.prems by (auto simp: nth_list_update is_pinned_def split: if_splits)
  show ?case
  proof (cases "is_pinned ?f \<or> referenced ?f \<or> sd \<and> dirty ?f")
    case True
    then have eq: "clock_pass sd (Suc n) hand frs = clock_pass sd n ?hand ?frs"
      using Suc.prems by (auto simp: Let_def take_referenced_def is_dirty_def)
    obtain v hand' frs' where IH: "clock_pass sd n ?hand ?frs = Some (v, hand', frs')" "hand' < ?len"
      "same_frames ?frs frs'" "\<forall>i < ?len. referenced (frs' ! i) \<longrightarrow> referenced (?frs ! i)"
      "case v of
        Some i \<Rightarrow> i < ?len \<and> \<not> is_pinned (?frs ! i) \<and> \<not> (sd \<and> dirty (?frs ! i))
      | None \<Rightarrow> \<forall>k < n. is_pinned (?frs ! ((?hand + k) mod ?len)) \<or>
          \<not> referenced (frs' ! ((?hand + k) mod ?len)) \<and>
          (referenced (?frs ! ((?hand + k) mod ?len)) \<or> sd \<and> dirty (?frs ! ((?hand + k) mod ?len)))"
      using Suc.IH [of ?hand ?frs] hand unfolding same(2) by blast
    have same': "same_frames frs frs'" using same_frames_trans [OF same(1) IH(3)] .
    have ref': "\<forall>i < ?len. referenced (frs' ! i) \<longrightarrow> referenced (frs ! i)" using IH(4) pin(3) by blast
    have now: "is_pinned ?f \<or> \<not> referenced (frs' ! hand)" using IH(4) pin(4) Suc.prems by blast
    show ?thesis
    proof (cases v)
      case None
      have "is_pinned (frs ! ((hand + k) mod ?len)) \<or> \<not> referenced (frs' ! ((hand + k) mod ?len)) \<and>
          (referenced (frs ! ((hand + k) mod ?len)) \<or> sd \<and> dirty (frs ! ((hand + k) mod ?len)))"
        if k: "k < Suc n" for k
      proof (cases k)
        case 0
        then show ?thesis using True first now by auto
      next
        case (Suc k')
        then have "(?hand + k') mod ?len < ?len" "(?hand + k') mod ?len = (hand + k) mod ?len"
          "k' < n" using len k step by simp_all
        then show ?thesis using IH(5) None pin by fastforce
      qed
      then show ?thesis using None eq IH(1,2) same' ref' by simp
    next
      case (Some i)
      then have "i < ?len" "\<not> is_pinned (frs ! i)" "\<not> (sd \<and> dirty (frs ! i))"
        using IH(5) pin by auto
      then show ?thesis using Some eq IH(1,2) same' ref' by simp
    qed
  next
    case False
    then have eq: "clock_pass sd (Suc n) hand frs = Some (Some hand, ?hand, ?clear)"
      using Suc.prems by (auto simp: Let_def take_referenced_def is_dirty_def)
    then show ?thesis using Suc.prems hand same pin False by auto
  qed
qed

fun clock_ok :: "clock_evictor \<Rightarrow> nat \<Rightarrow> bool" where
  "clock_ok (ClockEvictor hand) n \<longleftrightarrow> hand < n"

fun replacer_ok :: "replacer \<Rightarrow> nat \<Rightarrow> bool" where
  "replacer_ok (Replacer hand) n \<longleftrightarrow> hand < n"

text \<open>Every frame is visited by a full pass.\<close>

lemma full_pass:
  fixes len :: nat
  assumes "hand < len" and "\<And>k. k < len \<Longrightarrow> P ((hand + k) mod len)" and "i < len"
  shows "P i"
  using hand_visits_all [OF assms(1,3)] assms(2) by auto

text \<open>
  The clock: it always decides, picks an unpinned frame if there is one, and picks a dirty frame only if every
  clean one is pinned or was referenced since the hand last passed it.
\<close>

lemma clock_law:
  assumes "clock_ok e (length frs)"
  shows "\<exists>v e' frs'. clock_find_victim e frs = Some (v, e', frs') \<and> clock_ok e' (length frs) \<and>
    same_frames frs frs' \<and>
    (case v of
      Some i \<Rightarrow> i < length frs \<and> \<not> is_pinned (frs ! i) \<and>
        (dirty (frs ! i) \<longrightarrow>
          (\<forall>j < length frs. is_pinned (frs ! j) \<or> referenced (frs ! j) \<or> dirty (frs ! j)))
    | None \<Rightarrow> \<forall>i < length frs. is_pinned (frs ! i))"
proof (cases e)
  case (ClockEvictor hand)
  then have hand: "hand < length frs" using assms by simp
  obtain v hand1 frs1 where one: "clock_pass True (length frs) hand frs = Some (v, hand1, frs1)"
      "hand1 < length frs" "same_frames frs frs1"
      "case v of
        Some i \<Rightarrow> i < length frs \<and> \<not> is_pinned (frs ! i) \<and> \<not> dirty (frs ! i)
      | None \<Rightarrow> \<forall>k < length frs. is_pinned (frs ! ((hand + k) mod length frs)) \<or>
          \<not> referenced (frs1 ! ((hand + k) mod length frs)) \<and>
          (referenced (frs ! ((hand + k) mod length frs)) \<or> dirty (frs ! ((hand + k) mod length frs)))"
    using clock_pass_law [OF hand, of True "length frs"] unfolding simp_thms by blast
  show ?thesis
  proof (cases v)
    case (Some i)
    then show ?thesis using one ClockEvictor by simp
  next
    case None
    note len = same_frames_length [OF one(3)]
    have passed: "is_pinned (frs ! i) \<or> \<not> referenced (frs1 ! i) \<and> (referenced (frs ! i) \<or> dirty (frs ! i))"
      if "i < length frs" for i
      using one(4) None
      by (intro full_pass [OF hand _ that, where P = "\<lambda>i. is_pinned (frs ! i) \<or>
        \<not> referenced (frs1 ! i) \<and> (referenced (frs ! i) \<or> dirty (frs ! i))"]) auto
    have pin: "is_pinned (frs1 ! i) = is_pinned (frs ! i)" if "i < length frs" for i
      using same_frames_nth(3) [OF one(3) that] by (simp add: is_pinned_def)
    have hand1: "hand1 < length frs1" using one(2) len by simp
    obtain w hand2 frs2 where two: "clock_pass False (length frs1) hand1 frs1 = Some (w, hand2, frs2)"
      "hand2 < length frs1" "same_frames frs1 frs2"
      "case w of
        Some i \<Rightarrow> i < length frs1 \<and> \<not> is_pinned (frs1 ! i)
      | None \<Rightarrow> \<forall>k < length frs1. is_pinned (frs1 ! ((hand1 + k) mod length frs1)) \<or>
          \<not> referenced (frs2 ! ((hand1 + k) mod length frs1)) \<and>
          referenced (frs1 ! ((hand1 + k) mod length frs1))"
      using clock_pass_law [OF hand1, of False "length frs1"] unfolding simp_thms by blast
    have none: "is_pinned (frs ! i)" if "w = None" "i < length frs" for i
    proof -
      have i: "i < length frs1" using that(2) len by simp
      have "is_pinned (frs1 ! i) \<or> referenced (frs1 ! i)"
        using two(4) that(1)
        by (intro full_pass [OF hand1 _ i, where P = "\<lambda>i. is_pinned (frs1 ! i) \<or> referenced (frs1 ! i)"])
          auto
      then show ?thesis using passed [OF that(2)] pin [OF that(2)] by blast
    qed
    have "same_frames frs frs2" using same_frames_trans [OF one(3) two(3)] .
    then show ?thesis
      using one(1) two ClockEvictor None none passed pin len by (cases w) auto
  qed
qed

interpretation clock: eviction_policy clock_find_victim clock_ok
proof
  show "\<exists>v e' frs'. clock_find_victim e frs = Some (v, e', frs') \<and> clock_ok e' (length frs) \<and>
      same_frames frs frs' \<and>
      (case v of Some i \<Rightarrow> i < length frs \<and> \<not> is_pinned (frs ! i)
        | None \<Rightarrow> \<forall>i < length frs. is_pinned (frs ! i))"
    if ok: "clock_ok e (length frs)" for e frs
  proof -
    obtain v e' frs' where "clock_find_victim e frs = Some (v, e', frs')" "clock_ok e' (length frs)"
      "same_frames frs frs'" "case v of Some i \<Rightarrow> i < length frs \<and> \<not> is_pinned (frs ! i)
        | None \<Rightarrow> \<forall>i < length frs. is_pinned (frs ! i)"
      using clock_law [OF ok] by (fastforce split: option.splits)
    then show ?thesis by blast
  qed
qed

lemma replacer_loop_law:
  assumes "hand < length frs"
  shows "\<exists>v hand'. replacer_loop n hand frs = Some (v, hand') \<and> hand' < length frs \<and>
    (case v of
      Some i \<Rightarrow> i < length frs \<and> \<not> is_pinned (frs ! i)
    | None \<Rightarrow> \<forall>k < n. is_pinned (frs ! ((hand + k) mod length frs)))"
  using assms
proof (induction n arbitrary: hand)
  case 0
  then show ?case by simp
next
  case (Suc n)
  let ?hand = "(hand + 1) mod length frs"
  have hand: "?hand < length frs" using Suc.prems by (metis gr_zeroI mod_less_divisor not_less_zero)
  show ?case
  proof (cases "is_pinned (frs ! hand)")
    case True
    obtain v hand' where IH: "replacer_loop n ?hand frs = Some (v, hand')" "hand' < length frs"
      "case v of
        Some i \<Rightarrow> i < length frs \<and> \<not> is_pinned (frs ! i)
      | None \<Rightarrow> \<forall>k < n. is_pinned (frs ! ((?hand + k) mod length frs))"
      using Suc.IH [OF hand] by auto
    have "is_pinned (frs ! ((hand + k) mod length frs))" if "k < Suc n" "v = None" for k
    proof (cases k)
      case 0
      then show ?thesis using True Suc.prems by simp
    next
      case (Suc k')
      then have "(hand + k) mod length frs = (?hand + k') mod length frs" "k' < n"
        using that(1) by (simp_all add: mod_add_left_eq)
      then show ?thesis using IH(3) that(2) by simp
    qed
    then show ?thesis using IH True Suc.prems by (cases v) (auto simp: Let_def)
  next
    case False
    then show ?thesis using Suc.prems hand by (simp add: Let_def)
  qed
qed

interpretation replacer: eviction_policy replacer_find_victim replacer_ok
proof
  show "\<exists>v e' frs'. replacer_find_victim e frs = Some (v, e', frs') \<and> replacer_ok e' (length frs) \<and>
      same_frames frs frs' \<and>
      (case v of Some i \<Rightarrow> i < length frs \<and> \<not> is_pinned (frs ! i)
        | None \<Rightarrow> \<forall>i < length frs. is_pinned (frs ! i))"
    if ok: "replacer_ok e (length frs)" for e frs
  proof (cases e)
    case (Replacer hand)
    then have hand: "hand < length frs" using ok by simp
    then obtain v hand' where loop: "replacer_loop (length frs) hand frs = Some (v, hand')" "hand' < length frs"
      "case v of
        Some i \<Rightarrow> i < length frs \<and> \<not> is_pinned (frs ! i)
      | None \<Rightarrow> \<forall>k < length frs. is_pinned (frs ! ((hand + k) mod length frs))"
      using replacer_loop_law [OF hand, of "length frs"] by auto
    then have "is_pinned (frs ! i)" if "v = None" "i < length frs" for i
      using that(1) by (intro full_pass [OF hand _ that(2), where P = "\<lambda>i. is_pinned (frs ! i)"]) auto
    then show ?thesis using Replacer loop by (cases v) auto
  qed
qed

text \<open>
  C32: the clock policy always decides. It gives up only when every frame is pinned, never picks a
  pinned frame, picks a dirty one only when every clean frame is pinned or has been used since the hand last
  passed, and touches nothing but the \<^verbatim>\<open>referenced\<close> flags.
\<close>

theorem clock_finds_victim:
  assumes "hand < length frs"
  shows "\<exists>v e' frs'. clock_find_victim (ClockEvictor hand) frs = Some (v, e', frs') \<and>
    clock_ok e' (length frs) \<and> same_frames frs frs' \<and>
    (v = None \<longleftrightarrow> (\<forall>i < length frs. is_pinned (frs ! i))) \<and>
    (\<forall>i. v = Some i \<longrightarrow> i < length frs \<and> \<not> is_pinned (frs ! i) \<and>
      (dirty (frs ! i) \<longrightarrow>
        (\<forall>j < length frs. is_pinned (frs ! j) \<or> referenced (frs ! j) \<or> dirty (frs ! j))))"
proof -
  obtain v e' frs' where law: "clock_find_victim (ClockEvictor hand) frs = Some (v, e', frs')"
    "clock_ok e' (length frs)" "same_frames frs frs'"
    "case v of
      Some i \<Rightarrow> i < length frs \<and> \<not> is_pinned (frs ! i) \<and>
        (dirty (frs ! i) \<longrightarrow>
          (\<forall>j < length frs. is_pinned (frs ! j) \<or> referenced (frs ! j) \<or> dirty (frs ! j)))
    | None \<Rightarrow> \<forall>i < length frs. is_pinned (frs ! i)"
    using clock_law [of "ClockEvictor hand" frs] assms unfolding clock_ok.simps by blast
  have "v = None \<longleftrightarrow> (\<forall>i < length frs. is_pinned (frs ! i))"
    using law(4) by (cases v) auto
  then show ?thesis using law by (intro exI [of _ v] exI [of _ e'] exI [of _ frs']) auto
qed

definition demo_frame :: "nat \<Rightarrow> bool \<Rightarrow> bool \<Rightarrow> frame" where
  "demo_frame pins d r =
     \<lparr>slot = None, latch = Unlatched, pin_count = of_nat pins, dirty = d, referenced = r\<rparr>"

lemma clock_finds_victim_witness:
  "\<exists>frs'. clock_find_victim (ClockEvictor 1) [demo_frame 1 False False, demo_frame 0 True False]
    = Some (Some 1, ClockEvictor 0, frs')"
  using clock_finds_victim [of 1 "[demo_frame 1 False False, demo_frame 0 True False]"]
  by (simp add: demo_frame_def is_pinned_def is_dirty_def take_referenced_def Let_def numeral_2_eq_2)

end
