(* ===== verification/Pool.thy ===== *)
theory Pool
  imports Disk Frames
begin

text \<open>
  \<^verbatim>\<open>src/bpm/manager.rs\<close>, \<^verbatim>\<open>guards.rs\<close> and \<^verbatim>\<open>error.rs\<close>: the buffer pool. A pool is generic in its
  disk and its eviction policy; the operations take both dictionaries (\<open>D\<close>, \<open>V\<close>).

  The model runs one call at a time: \<^verbatim>\<open>big_dumb_lock\<close> is held for the whole of the part of a call
  that touches the page table, so what other threads could do in between is what calls in
  between do. A latch that is taken in a conflicting mode blocks; with one call at a time nobody
  can release it, and std documents that the thread that holds it gets a deadlock or a panic, so
  this is \<open>Panic\<close>.
\<close>

section \<open>Errors (bpm/error.rs)\<close>

datatype bpm_error =
    BpmUnexpected
  | BpmIo io_error
  | BpmPage page_error
  | NoFreeFrames
  | WrongPage page_id page_id
  | PageAlreadyExists page_id

section \<open>State (bpm/manager.rs)\<close>

text \<open>\<^verbatim>\<open>BufferPoolManager\<close> with the \<^verbatim>\<open>BpmState\<close> behind its lock.\<close>

record ('d, 'e) bpm =
  frames :: "frame list"
  page_table :: "page_id \<Rightarrow> frame_id option"
  free_frames :: "frame_id list"
  eviction_state :: 'e
  persistant_layer :: 'd

definition BUFFER_SIZE :: nat where "BUFFER_SIZE = 512"

definition bpm_new :: "'d \<Rightarrow> 'e \<Rightarrow> nat \<Rightarrow> (('d, 'e) bpm, 'x) result" where
  "bpm_new disk policy pool_size =
     (if pool_size = 0 then Panic
      else Ok \<lparr>frames = replicate pool_size frame_default, page_table = (\<lambda>_. None),
        free_frames = [0..<pool_size], eviction_state = policy, persistant_layer = disk\<rparr>)"

definition frame_update :: "frame_id \<Rightarrow> (frame \<Rightarrow> frame) \<Rightarrow> ('d, 'e) bpm \<Rightarrow> ('d, 'e) bpm" where
  "frame_update i g s = s\<lparr>frames := (frames s)[i := g (frames s ! i)]\<rparr>"

text \<open>\<^verbatim>\<open>self.frames[id]\<close>, which panics out of range.\<close>

definition frame_at :: "frame_id \<Rightarrow> (('d, 'e) bpm, frame, bpm_error) call" where
  "frame_at i s = (if i < length (frames s) then Ok (frames s ! i) else Panic, s)"

definition disk_call :: "('d, 'a, io_error) call \<Rightarrow> (('d, 'e) bpm, 'a, bpm_error) call" where
  "disk_call m s =
     (case m (persistant_layer s) of (r, d) \<Rightarrow> (map_err BpmIo r, s\<lparr>persistant_layer := d\<rparr>))"

section \<open>Pins and latches\<close>

definition pin_frame :: "env \<Rightarrow> frame_id \<Rightarrow> (('d, 'e) bpm, 32 word, bpm_error) call" where
  "pin_frame E i =
     sbind (frame_at i) (\<lambda>frame s.
       let prev = pin_count frame;
           s' = frame_update i (\<lambda>f. f\<lparr>referenced := True, pin_count := pin_count f + 1\<rparr>) s
       in if debug_assertions E \<and> prev = - 1 then (Panic, s') else (Ok prev, s'))"

definition unpin_frame :: "env \<Rightarrow> frame_id \<Rightarrow> (('d, 'e) bpm, 32 word, bpm_error) call" where
  "unpin_frame E i =
     sbind (frame_at i) (\<lambda>frame s.
       let prev = pin_count frame;
           s' = frame_update i (\<lambda>f. f\<lparr>pin_count := pin_count f - 1\<rparr>) s
       in if debug_assertions E \<and> prev = 0 then (Panic, s') else (Ok prev, s'))"

fun read_latched :: "latch \<Rightarrow> latch option" where
  "read_latched Unlatched = Some (ReadLatched 1)"
| "read_latched (ReadLatched n) = Some (ReadLatched (Suc n))"
| "read_latched WriteLatched = None"

fun write_latched :: "latch \<Rightarrow> latch option" where
  "write_latched Unlatched = Some WriteLatched"
| "write_latched _ = None"

fun unlatched :: "latch \<Rightarrow> latch" where
  "unlatched (ReadLatched (Suc (Suc n))) = ReadLatched (Suc n)"
| "unlatched _ = Unlatched"

text \<open>\<^verbatim>\<open>frame.latch.read().unwrap()\<close> and \<^verbatim>\<open>frame.latch.write().unwrap()\<close>.\<close>

definition take_latch :: "(latch \<Rightarrow> latch option) \<Rightarrow> frame_id \<Rightarrow> (('d, 'e) bpm, unit, bpm_error) call" where
  "take_latch mode i =
     sbind (frame_at i) (\<lambda>frame s.
       case mode (latch frame) of
         None \<Rightarrow> (Panic, s)
       | Some l \<Rightarrow> (Ok (), frame_update i (\<lambda>f. f\<lparr>latch := l\<rparr>) s))"

definition release_latch :: "frame_id \<Rightarrow> ('d, 'e) bpm \<Rightarrow> ('d, 'e) bpm" where
  "release_latch i = frame_update i (\<lambda>f. f\<lparr>latch := unlatched (latch f)\<rparr>)"

section \<open>Claiming and loading\<close>

text \<open>The latch of the victim is held only inside \<^verbatim>\<open>claim_frame\<close>, so it is taken and released.\<close>

definition claim_frame ::
  "env \<Rightarrow> 'd disk_manager \<Rightarrow> 'e find_victim \<Rightarrow> (('d, 'e) bpm, frame_id, bpm_error) call" where
  "claim_frame E D V s =
     (case vec_last (free_frames s) of
       Some f \<Rightarrow> (Ok f, s\<lparr>free_frames := butlast (free_frames s)\<rparr>)
     | None \<Rightarrow>
         (case V (eviction_state s) (frames s) of
           None \<Rightarrow> (Panic, s)
         | Some (v, e', frs') \<Rightarrow>
             let s = s\<lparr>eviction_state := e', frames := frs'\<rparr>
             in (case v of
               None \<Rightarrow> (Err NoFreeFrames, s)
             | Some victim_id \<Rightarrow>
                 sbind (frame_at victim_id) (\<lambda>victim.
                   if is_pinned victim then sfail NoFreeFrames
                   else if latch victim \<noteq> Unlatched then sfail NoFreeFrames
                   else case slot victim of
                     None \<Rightarrow> spanic
                   | Some page \<Rightarrow>
                       sbind
                         (if dirty victim then
                            sbind (slift (map_err BpmPage (as_raw_page E page))) (\<lambda>raw.
                              disk_call (dm_write_page D (pg_id page) raw))
                          else sreturn ())
                         (\<lambda>_ s. (Ok victim_id, s\<lparr>page_table := (page_table s)(pg_id page := None)\<rparr>))) s)))"

text \<open>
  Putting a page into a claimed frame, as \<^verbatim>\<open>load_page\<close> and \<^verbatim>\<open>new_page\<close> do: \<^verbatim>\<open>try_write().expect(..)\<close>, the
  contents, the dirty flag, the page table.
\<close>

definition fill_frame ::
  "frame_id \<Rightarrow> page_id \<Rightarrow> page \<Rightarrow> bool \<Rightarrow> (('d, 'e) bpm, unit, bpm_error) call" where
  "fill_frame i pid page is_new =
     sbind (frame_at i) (\<lambda>frame s.
       if latch frame \<noteq> Unlatched then (Panic, s)
       else
         let s' = frame_update i (\<lambda>f. f\<lparr>slot := Some page, dirty := is_new\<rparr>) s
         in (Ok (), s'\<lparr>page_table := (page_table s')(pid \<mapsto> i)\<rparr>))"

definition load_page ::
  "env \<Rightarrow> 'd disk_manager \<Rightarrow> 'e find_victim \<Rightarrow> page_id \<Rightarrow> (('d, 'e) bpm, frame_id, bpm_error) call" where
  "load_page E D V pid =
     sbind (disk_call (dm_read_page D pid)) (\<lambda>buf.
     sbind (slift (map_err BpmPage (page_deserialize E buf))) (\<lambda>(page, _).
     sbind (claim_frame E D V) (\<lambda>i.
     sbind (fill_frame i pid page False) (\<lambda>_.
       sreturn i))))"

definition checkout_page ::
  "env \<Rightarrow> 'd disk_manager \<Rightarrow> 'e find_victim \<Rightarrow> page_id \<Rightarrow> (('d, 'e) bpm, frame_id, bpm_error) call" where
  "checkout_page E D V pid s =
     sbind (case page_table s pid of Some i \<Rightarrow> sreturn i | None \<Rightarrow> load_page E D V pid) (\<lambda>i.
     sbind (pin_frame E i) (\<lambda>_. sreturn i)) s"

section \<open>Guards (bpm/guards.rs)\<close>

datatype page_read_guard = PageReadGuard frame_id
datatype page_write_guard = PageWriteGuard frame_id

definition new_page ::
  "env \<Rightarrow> 'd disk_manager \<Rightarrow> 'e find_victim \<Rightarrow> page \<Rightarrow>
   (('d, 'e) bpm, page_write_guard, bpm_error) call" where
  "new_page E D V page s =
     (if page_table s (pg_id page) \<noteq> None then (Err (PageAlreadyExists (pg_id page)), s)
      else
        sbind (claim_frame E D V) (\<lambda>i.
        sbind (fill_frame i (pg_id page) page True) (\<lambda>_.
        sbind (pin_frame E i) (\<lambda>_.
        sbind (take_latch write_latched i) (\<lambda>_.
          sreturn (PageWriteGuard i))))) s)"

text \<open>The raw latch guard of a page that is not the one asked for is dropped; the pin is not.\<close>

definition fetch_frame ::
  "(latch \<Rightarrow> latch option) \<Rightarrow> env \<Rightarrow> 'd disk_manager \<Rightarrow> 'e find_victim \<Rightarrow> page_id \<Rightarrow>
   (('d, 'e) bpm, frame_id, bpm_error) call" where
  "fetch_frame mode E D V pid =
     sbind (checkout_page E D V pid) (\<lambda>i.
     sbind (take_latch mode i) (\<lambda>_ s.
       case slot (frames s ! i) of
         Some pg \<Rightarrow>
           if pg_id pg \<noteq> pid then (Err (WrongPage pid (pg_id pg)), release_latch i s)
           else (Ok i, s)
       | None \<Rightarrow> (Ok i, s)))"

definition fetch_read ::
  "env \<Rightarrow> 'd disk_manager \<Rightarrow> 'e find_victim \<Rightarrow> page_id \<Rightarrow>
   (('d, 'e) bpm, page_read_guard, bpm_error) call" where
  "fetch_read E D V pid =
     sbind (fetch_frame read_latched E D V pid) (\<lambda>i. sreturn (PageReadGuard i))"

definition fetch_write ::
  "env \<Rightarrow> 'd disk_manager \<Rightarrow> 'e find_victim \<Rightarrow> page_id \<Rightarrow>
   (('d, 'e) bpm, page_write_guard, bpm_error) call" where
  "fetch_write E D V pid =
     sbind (fetch_frame write_latched E D V pid) (\<lambda>i. sreturn (PageWriteGuard i))"

text \<open>Dropping a guard releases the latch first, then the pin.\<close>

fun drop_read :: "env \<Rightarrow> page_read_guard \<Rightarrow> (('d, 'e) bpm, unit, bpm_error) call" where
  "drop_read E (PageReadGuard i) s =
     sbind (unpin_frame E i) (\<lambda>_. sreturn ()) (release_latch i s)"

fun drop_write :: "env \<Rightarrow> page_write_guard \<Rightarrow> (('d, 'e) bpm, unit, bpm_error) call" where
  "drop_write E (PageWriteGuard i) s =
     sbind (unpin_frame E i) (\<lambda>_. sreturn ()) (release_latch i s)"

fun read_deref :: "page_read_guard \<Rightarrow> ('d, 'e) bpm \<Rightarrow> (page, 'x) result" where
  "read_deref (PageReadGuard i) s = expect (slot (frames s ! i))"

fun write_deref :: "page_write_guard \<Rightarrow> ('d, 'e) bpm \<Rightarrow> (page, 'x) result" where
  "write_deref (PageWriteGuard i) s = expect (slot (frames s ! i))"

text \<open>A method that changes the page, called through \<^verbatim>\<open>deref_mut\<close>, which marks the frame dirty.\<close>

fun write_deref_mut ::
  "page_write_guard \<Rightarrow> (page \<Rightarrow> ('a, 'x) result \<times> page) \<Rightarrow> (('d, 'e) bpm, 'a, 'x) call" where
  "write_deref_mut (PageWriteGuard i) op s =
     (let s' = frame_update i (\<lambda>f. f\<lparr>dirty := True\<rparr>) s
      in case slot (frames s' ! i) of
        None \<Rightarrow> (Panic, s')
      | Some page \<Rightarrow>
          (case op page of (r, page') \<Rightarrow>
            (r, frame_update i (\<lambda>f. f\<lparr>slot := Some page'\<rparr>) s')))"

section \<open>Flushing and replacing the file\<close>

fun flush_frames ::
  "env \<Rightarrow> 'd disk_manager \<Rightarrow> frame_id list \<Rightarrow> (('d, 'e) bpm, unit, bpm_error) call" where
  "flush_frames E D [] = sreturn ()"
| "flush_frames E D (i # is) =
     sbind (frame_at i) (\<lambda>frame.
       if read_latched (latch frame) = None then spanic
       else if dirty frame then
         sbind
           (case slot frame of
             None \<Rightarrow> sreturn ()
           | Some page \<Rightarrow>
               sbind (slift (map_err BpmPage (as_raw_page E page))) (\<lambda>raw.
                 disk_call (dm_write_page D (pg_id page) raw)))
           (\<lambda>_ s. flush_frames E D is (frame_update i (\<lambda>f. f\<lparr>dirty := False\<rparr>) s))
       else flush_frames E D is)"

definition flush_all :: "env \<Rightarrow> 'd disk_manager \<Rightarrow> (('d, 'e) bpm, unit, bpm_error) call" where
  "flush_all E D s =
     sbind (flush_frames E D [0..<length (frames s)]) (\<lambda>_. disk_call (dm_sync D)) s"

fun reset_frames :: "frame_id list \<Rightarrow> (('d, 'e) bpm, unit, bpm_error) call" where
  "reset_frames [] = sreturn ()"
| "reset_frames (i # is) =
     sbind (frame_at i) (\<lambda>frame.
       if is_pinned frame then spanic
       else if write_latched (latch frame) = None then spanic
       else (\<lambda>s. reset_frames is
         (frame_update i (\<lambda>f. f\<lparr>slot := None, dirty := False, referenced := False\<rparr>) s)))"

definition bpm_swap_file ::
  "env \<Rightarrow> 'd disk_manager \<Rightarrow> page list \<Rightarrow> (('d, 'e) bpm, unit, bpm_error) call" where
  "bpm_swap_file E D pages =
     sbind (flush_all E D) (\<lambda>_.
     sbind (disk_call (dm_swap_file D pages)) (\<lambda>_ s.
     sbind (reset_frames [0..<length (frames s)]) (\<lambda>_ s.
       (Ok (), s\<lparr>page_table := (\<lambda>_. None), free_frames := [0..<length (frames s)]\<rparr>)) s))"

text \<open>\<^verbatim>\<open>Drop\<close> flushes and only logs an error; \<^verbatim>\<open>close\<close> flushes, reports, and is dropped.\<close>

definition bpm_drop :: "env \<Rightarrow> 'd disk_manager \<Rightarrow> ('d, 'e) bpm \<Rightarrow> ('d, 'e) bpm" where
  "bpm_drop E D s = snd (flush_all E D s)"

definition bpm_close :: "env \<Rightarrow> 'd disk_manager \<Rightarrow> (('d, 'e) bpm, unit, bpm_error) call" where
  "bpm_close E D s = (case flush_all E D s of (r, s') \<Rightarrow> (r, bpm_drop E D s'))"

end
