(* ===== verification/Pool_Correct.thy ===== *)
theory Pool_Correct
  imports Pool
begin

text \<open>
  The buffer pool keeps every page. \<open>pool_view\<close> is what the pool stands for: a page in a frame if it
  is cached, otherwise what the disk holds. \<open>pool_inv\<close> is the invariant between two calls, and
  the lemmas say what each call does to both, on success and on every error. They are proved once for
  every disk and every eviction policy that keep their contracts, in the locale \<open>buffer_pool\<close>, and
  used for the pool of the program, a \<open>FileDisk\<close> with the clock.
\<close>

section \<open>The invariant and the view\<close>

text \<open>A frame's pin count is the number of guards on it, and the latch knows that number too.\<close>

definition frame_ok :: "frame \<Rightarrow> bool" where
  "frame_ok f \<longleftrightarrow>
     (case latch f of
       Unlatched \<Rightarrow> pin_count f = 0
     | ReadLatched n \<Rightarrow> 0 < n \<and> n < 2 ^ 32 \<and> pin_count f = of_nat n
     | WriteLatched \<Rightarrow> pin_count f = 1)"

text \<open>What holds of a cached page, and of a frame on the free list.\<close>

definition mapped_ok ::
  "env \<Rightarrow> page_id set \<Rightarrow> (page_id \<Rightarrow> page option) \<Rightarrow> frame list \<Rightarrow> page_id \<Rightarrow> frame_id \<Rightarrow> bool" where
  "mapped_ok E ids disk frs pid i \<longleftrightarrow>
     pid \<in> ids \<and> i < length frs \<and>
     (\<exists>p. slot (frs ! i) = Some p \<and> pg_id p = pid \<and> storable E p \<and>
       (\<not> dirty (frs ! i) \<longrightarrow> disk pid = Some p))"

text \<open>\<open>claimed\<close> are the frames that an operation has taken and not yet put to use.\<close>

definition pool_inv_but ::
  "env \<Rightarrow> page_id set \<Rightarrow> ('d \<Rightarrow> page_id \<Rightarrow> page option) \<Rightarrow> ('e \<Rightarrow> nat \<Rightarrow> bool) \<Rightarrow> frame_id set \<Rightarrow>
   ('d, 'e) bpm \<Rightarrow> bool" where
  "pool_inv_but E ids stored ok claimed s \<longleftrightarrow>
     frames s \<noteq> [] \<and> ok (eviction_state s) (length (frames s)) \<and> list_all frame_ok (frames s) \<and>
     (\<forall>pid i. page_table s pid = Some i \<longrightarrow>
       mapped_ok E ids (stored (persistant_layer s)) (frames s) pid i) \<and>
     distinct (free_frames s) \<and> claimed \<inter> set (free_frames s) = {} \<and>
     (\<forall>i \<in> claimed \<union> set (free_frames s).
       i < length (frames s) \<and> latch (frames s ! i) = Unlatched \<and> i \<notin> ran (page_table s)) \<and>
     (\<forall>i < length (frames s). i \<in> claimed \<union> set (free_frames s) \<union> ran (page_table s)) \<and>
     (\<forall>i \<in> set (free_frames s). \<not> dirty (frames s ! i))"

definition pool_inv ::
  "env \<Rightarrow> page_id set \<Rightarrow> ('d \<Rightarrow> page_id \<Rightarrow> page option) \<Rightarrow> ('e \<Rightarrow> nat \<Rightarrow> bool) \<Rightarrow> ('d, 'e) bpm \<Rightarrow> bool" where
  "pool_inv E ids stored ok s \<longleftrightarrow> pool_inv_but E ids stored ok {} s"

definition pool_view ::
  "env \<Rightarrow> page_id set \<Rightarrow> ('d \<Rightarrow> page_id \<Rightarrow> page option) \<Rightarrow> ('d, 'e) bpm \<Rightarrow> page_id \<Rightarrow> page option" where
  "pool_view E ids stored s pid =
     (case page_table s pid of
       Some i \<Rightarrow> slot (frames s ! i)
     | None \<Rightarrow>
         (case stored (persistant_layer s) pid of
           Some p \<Rightarrow> if pid \<in> ids \<and> pg_id p = pid \<and> storable E p then Some p else None
         | None \<Rightarrow> None))"

lemma pool_view_Some:
  "pool_view E ids stored s q = Some x \<longleftrightarrow>
    (case page_table s q of
      Some j \<Rightarrow> slot (frames s ! j) = Some x
    | None \<Rightarrow> stored (persistant_layer s) q = Some x \<and> q \<in> ids \<and> pg_id x = q \<and> storable E x)"
  by (auto simp: pool_view_def split: option.splits)

text \<open>This excludes a file in which the place of a page holds some other page.\<close>

definition pool_knows ::
  "env \<Rightarrow> page_id set \<Rightarrow> ('d \<Rightarrow> page_id \<Rightarrow> page option) \<Rightarrow> ('d, 'e) bpm \<Rightarrow> page_id \<Rightarrow> bool" where
  "pool_knows E ids stored s pid \<longleftrightarrow>
     pid \<in> ids \<and> (pool_view E ids stored s pid \<noteq> None \<or> stored (persistant_layer s) pid = None)"

text \<open>Who holds a guard on a page.\<close>

definition hold :: "('d, 'e) bpm \<Rightarrow> page_id \<Rightarrow> latch" where
  "hold s pid = (case page_table s pid of Some i \<Rightarrow> latch (frames s ! i) | None \<Rightarrow> Unlatched)"

text \<open>Every page of one state is there in the other, unchanged.\<close>

definition keeps :: "(page_id \<Rightarrow> page option) \<Rightarrow> (page_id \<Rightarrow> page option) \<Rightarrow> bool" where
  "keeps v v' \<longleftrightarrow> (\<forall>pid p. v pid = Some p \<longrightarrow> v' pid = Some p)"

text \<open>A page that somebody holds stays in its frame; of the others only those of \<open>A\<close> can get a new frame.\<close>

definition remaps :: "page_id set \<Rightarrow> ('d, 'e) bpm \<Rightarrow> ('d, 'e) bpm \<Rightarrow> bool" where
  "remaps A s s' \<longleftrightarrow>
     (\<forall>q. q \<notin> A \<longrightarrow> page_table s' q = page_table s q \<or> page_table s' q = None \<and> hold s q = Unlatched)"

lemma remaps_same [simp]: "page_table s' = page_table s \<Longrightarrow> remaps A s s'"
  by (simp add: remaps_def)

lemma keeps_refl [simp]: "keeps v v"
  by (simp add: keeps_def)

lemma keeps_trans: "keeps v v1 \<Longrightarrow> keeps v1 v2 \<Longrightarrow> keeps v v2"
  by (simp add: keeps_def)

lemma keepsD: "keeps v v' \<Longrightarrow> v pid = Some p \<Longrightarrow> v' pid = Some p"
  by (simp add: keeps_def)

lemma pool_inv_mapped:
  assumes "pool_inv_but E ids stored ok C s" and "page_table s pid = Some i"
  shows "pid \<in> ids" and "i < length (frames s)" and "i \<notin> set (free_frames s)" and "i \<notin> C"
    and "\<exists>p. slot (frames s ! i) = Some p \<and> pg_id p = pid \<and> storable E p \<and>
      (\<not> dirty (frames s ! i) \<longrightarrow> stored (persistant_layer s) pid = Some p)"
  using assms by (auto simp: pool_inv_but_def mapped_ok_def ran_def)

lemma pool_inv_butD:
  assumes "pool_inv_but E ids stored ok C s"
  shows "frames s \<noteq> []" and "ok (eviction_state s) (length (frames s))" and "list_all frame_ok (frames s)"
    and "\<And>q j. page_table s q = Some j \<Longrightarrow> mapped_ok E ids (stored (persistant_layer s)) (frames s) q j"
    and "distinct (free_frames s)" and "C \<inter> set (free_frames s) = {}"
    and "\<And>j. j \<in> C \<union> set (free_frames s) \<Longrightarrow>
      j < length (frames s) \<and> latch (frames s ! j) = Unlatched \<and> j \<notin> ran (page_table s)"
    and "\<And>j. j < length (frames s) \<Longrightarrow> j \<in> C \<union> set (free_frames s) \<union> ran (page_table s)"
    and "\<And>j. j \<in> set (free_frames s) \<Longrightarrow> \<not> dirty (frames s ! j)"
  using assms unfolding pool_inv_but_def by blast+

text \<open>No two pages share a frame.\<close>

lemma pool_inv_inj:
  assumes "pool_inv_but E ids stored ok C s" and "page_table s pid = Some i" and "page_table s pid' = Some i"
  shows "pid' = pid"
  using pool_inv_mapped(5) [OF assms(1,2)] pool_inv_mapped(5) [OF assms(1,3)] by auto

lemma frame_ok_pinned: "frame_ok f \<Longrightarrow> is_pinned f \<longleftrightarrow> latch f \<noteq> Unlatched"
proof -
  have "of_nat n \<noteq> (0 :: 32 word)" if "0 < n" "n < 2 ^ 32" for n
    using that by (simp add: word_of_nat_eq_0_iff nat_dvd_not_less)
  then show "frame_ok f \<Longrightarrow> ?thesis" by (auto simp: frame_ok_def is_pinned_def split: latch.splits)
qed

lemma frame_update_simps [simp]:
  "page_table (frame_update i g s) = page_table s" "free_frames (frame_update i g s) = free_frames s"
  "eviction_state (frame_update i g s) = eviction_state s"
  "persistant_layer (frame_update i g s) = persistant_layer s"
  "frames (frame_update i g s) = (frames s)[i := g (frames s ! i)]"
  by (simp_all add: frame_update_def)

section \<open>Steps of the operations\<close>

text \<open>Clearing \<^verbatim>\<open>referenced\<close> flags, as an eviction policy may.\<close>

lemma policy_step:
  assumes "pool_inv_but E ids stored ok C s" and "same_frames (frames s) frs" and "ok e (length (frames s))"
  defines "s' \<equiv> s\<lparr>eviction_state := e, frames := frs\<rparr>"
  shows "pool_inv_but E ids stored ok C s' \<and> pool_view E ids stored s' = pool_view E ids stored s \<and>
    hold s' = hold s"
proof -
  note len = same_frames_length [OF assms(2)] and nth = same_frames_nth [OF assms(2)]
  have table: "i < length (frames s)" if "page_table s pid = Some i" for pid i
    using pool_inv_mapped(2) [OF assms(1) that] .
  have "frame_ok (frs ! i)" if "i < length (frames s)" for i
  proof -
    have "frame_ok (frames s ! i)" using assms(1) that by (simp add: pool_inv_but_def list_all_length)
    then show ?thesis using nth(2,3) [OF that] by (simp add: frame_ok_def cong: latch.case_cong)
  qed
  then have frs: "list_all frame_ok frs" using len by (simp add: list_all_length)
  have mapped: "mapped_ok E ids (stored (persistant_layer s)) frs pid i" if "page_table s pid = Some i" for pid i
    using assms(1) that nth(1,4) table [OF that] len by (auto simp: pool_inv_but_def mapped_ok_def)
  have free: "i < length (frames s) \<and> latch (frs ! i) = Unlatched" if "i \<in> C \<union> set (free_frames s)" for i
    using assms(1) that nth(2) by (auto simp: pool_inv_but_def)
  have clean: "\<not> dirty (frs ! i)" if "i \<in> set (free_frames s)" for i
    using assms(1) that nth(4) by (auto simp: pool_inv_but_def)
  have "frs \<noteq> []" using assms(1) len by (auto simp: pool_inv_but_def)
  then have "pool_inv_but E ids stored ok C s'"
    using assms(1,3) frs mapped free clean len unfolding pool_inv_but_def s'_def by auto
  moreover have "pool_view E ids stored s' = pool_view E ids stored s" "hold s' = hold s"
    using table nth(1,2) by (auto simp: pool_view_def hold_def s'_def fun_eq_iff split: option.splits)
  ultimately show ?thesis by simp
qed

lemma ran_unmap:
  assumes "m k = Some v" and "\<And>k'. m k' = Some v \<Longrightarrow> k' = k"
  shows "ran (m(k := None)) = ran m - {v}"
proof (intro subset_antisym subsetI)
  fix j assume "j \<in> ran (m(k := None))"
  then obtain q where "q \<noteq> k" "m q = Some j" by (auto simp: ran_def split: if_splits)
  moreover have "j \<noteq> v" using calculation assms(2) [of q] by blast
  ultimately show "j \<in> ran m - {v}" using ranI [of m q j] by simp
next
  fix j assume "j \<in> ran m - {v}"
  then obtain q where q: "m q = Some j" "j \<noteq> v" by (auto simp: ran_def)
  then have "q \<noteq> k" using assms(1) by auto
  then have "(m(k := None)) q = Some j" using q(1) by simp
  then show "j \<in> ran (m(k := None))" by (rule ranI)
qed

text \<open>Dropping the mapping of a page that the disk has.\<close>

lemma evict_step:
  assumes "pool_inv_but E ids stored ok C s" and "page_table s pid = Some i"
    and "latch (frames s ! i) = Unlatched" and "slot (frames s ! i) = Some p"
    and "stored (persistant_layer s) pid = Some p"
  defines "s' \<equiv> s\<lparr>page_table := (page_table s)(pid := None)\<rparr>"
  shows "pool_inv_but E ids stored ok (insert i C) s' \<and> pool_view E ids stored s' = pool_view E ids stored s \<and>
    hold s' = hold s"
proof -
  note m = pool_inv_mapped [OF assms(1,2)]
  have ran: "ran (page_table s') = ran (page_table s) - {i}"
  proof -
    have "ran ((page_table s)(pid := None)) = ran (page_table s) - {i}"
      by (rule ran_unmap) (use assms(2) in simp, rule pool_inv_inj [OF assms(1,2)])
    then show ?thesis by (simp add: s'_def)
  qed
  have old: "page_table s q = Some j" if "page_table s' q = Some j" for q j
    using that by (simp add: s'_def split: if_splits)
  have same: "frames s' = frames s" "free_frames s' = free_frames s" "eviction_state s' = eviction_state s"
    "persistant_layer s' = persistant_layer s" by (simp_all add: s'_def)
  note clauses = pool_inv_butD [OF assms(1)]
  have "pool_inv_but E ids stored ok (insert i C) s'"
    unfolding pool_inv_but_def same ran using clauses assms(3) m(2,3) old by blast
  moreover have "pool_view E ids stored s' = pool_view E ids stored s"
  proof
    fix q
    show "pool_view E ids stored s' q = pool_view E ids stored s q"
      using m(1,5) assms(2,4,5) by (cases "q = pid") (auto simp: pool_view_def s'_def cong: option.case_cong)
  qed
  moreover have "hold s' = hold s"
    using assms(2,3) by (auto simp: hold_def s'_def cong: option.case_cong)
  ultimately show ?thesis by blast
qed

lemma claimed_free:
  assumes "pool_inv_but E ids stored ok C s" and "free_frames s = fs @ [i]"
  defines "s' \<equiv> s\<lparr>free_frames := fs\<rparr>"
  shows "pool_inv_but E ids stored ok (insert i C) s' \<and> pool_view E ids stored s' = pool_view E ids stored s \<and>
    hold s' = hold s"
  using assms by (auto simp: pool_inv_but_def pool_view_def hold_def fun_eq_iff split: option.split)

text \<open>Putting a page into a claimed frame.\<close>

lemma fill_step:
  assumes "pool_inv_but E ids stored ok (insert i C) s" and "i \<notin> C" and "page_table s pid = None"
    and "pid \<in> ids" and "pg_id p = pid" and "storable E p"
    and "new \<or> stored (persistant_layer s) pid = Some p"
  shows "\<exists>s'. fill_frame i pid p new s = (Ok (), s') \<and> pool_inv_but E ids stored ok C s' \<and>
    pool_view E ids stored s' = (pool_view E ids stored s)(pid \<mapsto> p) \<and> hold s' = hold s \<and>
    page_table s' = (page_table s)(pid \<mapsto> i) \<and> persistant_layer s' = persistant_layer s \<and>
    length (frames s') = length (frames s)"
proof -
  let ?f = "\<lambda>f. f\<lparr>slot := Some p, dirty := new\<rparr>"
  let ?s = "(frame_update i ?f s)\<lparr>page_table := (page_table s)(pid \<mapsto> i)\<rparr>"
  have i: "i < length (frames s)" "latch (frames s ! i) = Unlatched" "i \<notin> ran (page_table s)"
    "i \<notin> set (free_frames s)"
    using assms(1) by (auto simp: pool_inv_but_def)
  have fill: "fill_frame i pid p new s = (Ok (), ?s)"
    using i by (simp add: fill_frame_def sbind_def frame_at_def Let_def)
  have table: "j < length (frames s) \<and> j \<noteq> i" if "page_table s q = Some j" for q j
    using pool_inv_mapped(2) [OF assms(1) that] i(3) that by (auto simp: ran_def)
  have other: "(frames s)[i := f] ! j = frames s ! j" if "page_table s q = Some j" for q j f
    using table [OF that] by simp
  have ok: "frame_ok (frames s ! i)" using assms(1) i(1) by (simp add: pool_inv_but_def list_all_length)
  have frs: "list_all frame_ok (frames ?s)"
    using assms(1) ok by (auto simp: pool_inv_but_def list_all_length nth_list_update frame_ok_def)
  have mapped: "mapped_ok E ids (stored (persistant_layer s)) (frames ?s) q j" if "page_table ?s q = Some j" for q j
  proof (cases "q = pid")
    case True
    then show ?thesis using that i(1) assms(4-7) by (auto simp: mapped_ok_def)
  next
    case False
    then have j: "page_table s q = Some j" using that by simp
    then show ?thesis
      using assms(1) table [OF j] by (auto simp: pool_inv_but_def mapped_ok_def)
  qed
  have ran: "ran (page_table ?s) = insert i (ran (page_table s))"
    using assms(3) by (simp add: ran_map_upd)
  have "pool_inv_but E ids stored ok C ?s"
    using assms(1,2) frs mapped ran i unfolding pool_inv_but_def by (auto simp: nth_list_update)
  moreover have "pool_view E ids stored ?s = (pool_view E ids stored s)(pid \<mapsto> p)" "hold ?s = hold s"
    using i(1,2) assms(3) other
    by (auto simp: pool_view_def hold_def fun_eq_iff split: option.splits)
  ultimately show ?thesis using fill by simp
qed

text \<open>Any change to one cached frame that keeps it well-formed.\<close>

lemma frame_step:
  assumes "pool_inv_but E ids stored ok C s" and "page_table s pid = Some i"
    and "frame_ok (g (frames s ! i))" and "slot (g (frames s ! i)) = Some p" and "pg_id p = pid"
    and "storable E p" and "\<not> dirty (g (frames s ! i)) \<longrightarrow> stored (persistant_layer s) pid = Some p"
  shows "pool_inv_but E ids stored ok C (frame_update i g s)"
    and "pool_view E ids stored (frame_update i g s) = (pool_view E ids stored s)(pid \<mapsto> p)"
    and "hold (frame_update i g s) = (hold s)(pid := latch (g (frames s ! i)))"
proof -
  let ?s = "frame_update i g s"
  note clauses = pool_inv_butD [OF assms(1)] and m = pool_inv_mapped [OF assms(1,2)]
  have apart: "j < length (frames s) \<and> (j = i \<longleftrightarrow> q = pid)" if "page_table s q = Some j" for q j
    using pool_inv_mapped(2) [OF assms(1) that] pool_inv_inj [OF assms(1,2), of q] assms(2) that by auto
  have other: "(frames s)[i := f] ! j = frames s ! j" if "j \<noteq> i" for j f
    using that by simp
  have frs: "list_all frame_ok (frames ?s)"
    using clauses(3) assms(3) m(2) by (auto simp: list_all_length nth_list_update)
  have mapped: "mapped_ok E ids (stored (persistant_layer s)) (frames ?s) q j" if "page_table s q = Some j" for q j
    using clauses(4) [OF that] apart [OF that] assms(4-7) m(1,2)
    by (cases "j = i") (auto simp: mapped_ok_def)
  have unused: "frames ?s ! j = frames s ! j" if j: "j \<in> C \<union> set (free_frames s)" for j
  proof -
    have "j \<noteq> i" using clauses(7) [OF j] assms(2) by (auto simp: ran_def)
    then show ?thesis by simp
  qed
  show "pool_inv_but E ids stored ok C ?s"
    using clauses frs mapped unused unfolding pool_inv_but_def by auto
  have "pool_view E ids stored ?s q = ((pool_view E ids stored s)(pid \<mapsto> p)) q" for q
    using assms(2,4) m(2) apart [of q]
    by (cases "page_table s q") (auto simp: pool_view_def nth_list_update)
  then show "pool_view E ids stored ?s = (pool_view E ids stored s)(pid \<mapsto> p)" by (rule ext)
  have "hold ?s q = ((hold s)(pid := latch (g (frames s ! i)))) q" for q
    using assms(2) m(2) apart [of q]
    by (cases "page_table s q") (auto simp: hold_def nth_list_update)
  then show "hold ?s = (hold s)(pid := latch (g (frames s ! i)))" by (rule ext)
qed

text \<open>Taking a latch, and the pin that goes with it.\<close>

definition latch_mode :: "(latch \<Rightarrow> latch option) \<Rightarrow> bool" where
  "latch_mode mode \<longleftrightarrow> mode = read_latched \<or> mode = write_latched"

definition has_room :: "latch \<Rightarrow> bool" where
  "has_room l \<longleftrightarrow> (\<forall>n. l = ReadLatched n \<longrightarrow> Suc n < 2 ^ 32)"

lemma has_room_simps [simp]: "has_room Unlatched" "has_room WriteLatched"
  by (simp_all add: has_room_def)

lemma latched_ok:
  assumes "frame_ok f" and "mode = read_latched \<or> mode = write_latched" and "mode (latch f) = Some l"
    and "has_room (latch f)"
  shows "frame_ok (f\<lparr>referenced := True, pin_count := pin_count f + 1, latch := l\<rparr>)"
  using assms by (cases "latch f") (auto simp: frame_ok_def has_room_def)

lemma pin_room:
  assumes "frame_ok f" and "has_room (latch f)"
  shows "pin_count f \<noteq> - 1"
proof (cases "latch f")
  case (ReadLatched n)
  then have n: "pin_count f = of_nat n" "Suc n < 2 ^ 32" using assms by (auto simp: frame_ok_def has_room_def)
  show ?thesis
  proof
    assume "pin_count f = - 1"
    then have "of_nat (Suc n) = (0 :: 32 word)" using n(1) by simp
    then show False using n(2) by (simp add: word_of_nat_eq_0_iff nat_dvd_not_less del: of_nat_Suc)
  qed
qed (use assms in \<open>auto simp: frame_ok_def\<close>)

lemma unlatched_ok:
  assumes "frame_ok f" and "latch f \<noteq> Unlatched"
  shows "frame_ok (f\<lparr>latch := unlatched (latch f), pin_count := pin_count f - 1\<rparr>)" and "pin_count f \<noteq> 0"
proof -
  show "frame_ok (f\<lparr>latch := unlatched (latch f), pin_count := pin_count f - 1\<rparr>)"
    using assms by (cases "latch f" rule: unlatched.cases) (auto simp: frame_ok_def)
  show "pin_count f \<noteq> 0" using frame_ok_pinned [OF assms(1)] assms(2) by (simp add: is_pinned_def)
qed

lemma reset_frames_law:
  assumes "\<forall>i \<in> set fs. i < length (frames s) \<and> \<not> is_pinned (frames s ! i) \<and> latch (frames s ! i) = Unlatched"
  shows "\<exists>frs. reset_frames fs s = (Ok (), s\<lparr>frames := frs\<rparr>) \<and> length frs = length (frames s) \<and>
    (\<forall>j < length (frames s). frs ! j =
      (if j \<in> set fs then (frames s ! j)\<lparr>slot := None, dirty := False, referenced := False\<rparr> else frames s ! j))"
  using assms
proof (induction fs arbitrary: s)
  case Nil
  then show ?case by (auto intro: exI [of _ "frames s"])
next
  case (Cons i fs)
  let ?g = "\<lambda>f. f\<lparr>slot := None, dirty := False, referenced := False\<rparr>"
  let ?s = "frame_update i ?g s"
  have i: "i < length (frames s)" "\<not> is_pinned (frames s ! i)" "latch (frames s ! i) = Unlatched"
    using Cons.prems by simp_all
  have "\<forall>j \<in> set fs. j < length (frames ?s) \<and> \<not> is_pinned (frames ?s ! j) \<and> latch (frames ?s ! j) = Unlatched"
    using Cons.prems by (auto simp: nth_list_update is_pinned_def)
  from Cons.IH [OF this] obtain frs where frs: "reset_frames fs ?s = (Ok (), ?s\<lparr>frames := frs\<rparr>)"
    "length frs = length (frames s)"
    "\<forall>j < length (frames s). frs ! j = (if j \<in> set fs then ?g (frames ?s ! j) else frames ?s ! j)"
    by auto
  have "frs ! j = (if j \<in> set (i # fs) then ?g (frames s ! j) else frames s ! j)" if "j < length (frames s)" for j
    using that frs(3) i(1) by (auto simp: nth_list_update)
  moreover have "reset_frames (i # fs) s = (Ok (), s\<lparr>frames := frs\<rparr>)"
    using frs(1) i by (simp add: sbind_def frame_at_def frame_update_def)
  ultimately show ?case using frs(2) by blast
qed

text \<open>A condition on the pool that reading a page never breaks.\<close>

definition reads_keep :: "env \<Rightarrow> 'd disk_manager \<Rightarrow> 'e find_victim \<Rightarrow> (('d, 'e) bpm \<Rightarrow> bool) \<Rightarrow> bool" where
  "reads_keep E D V P \<longleftrightarrow> (\<forall>pid. kept P (fetch_read E D V pid)) \<and> (\<forall>g. kept P (drop_read E g))"

section \<open>The operations, for any disk and policy\<close>

locale buffer_pool = page_disk E D ids stored well safe + eviction_policy V ok
  for E :: env and D :: "'d disk_manager" and ids :: "page_id set"
    and stored :: "'d \<Rightarrow> page_id \<Rightarrow> page option" and well :: "'d \<Rightarrow> bool" and safe :: "'d \<Rightarrow> bool"
    and V :: "'e find_victim" and ok :: "'e \<Rightarrow> nat \<Rightarrow> bool"
begin

abbreviation inv_but :: "frame_id set \<Rightarrow> ('d, 'e) bpm \<Rightarrow> bool" where
  "inv_but \<equiv> pool_inv_but E ids stored ok"

abbreviation view :: "('d, 'e) bpm \<Rightarrow> page_id \<Rightarrow> page option" where
  "view \<equiv> pool_view E ids stored"

abbreviation known :: "('d, 'e) bpm \<Rightarrow> page_id \<Rightarrow> bool" where
  "known \<equiv> pool_knows E ids stored"

abbreviation disk :: "('d, 'e) bpm \<Rightarrow> page_id \<Rightarrow> page option" where
  "disk s \<equiv> stored (persistant_layer s)"

lemma write_step:
  assumes "varint_ok E" and "inv_but C s" and "page_table s pid = Some i"
    and "slot (frames s ! i) = Some p" and "as_raw_page E p = Ok raw"
    and "disk_call (dm_write_page D pid raw) s = (r, s')"
  shows "r \<noteq> Panic \<and> keeps (view s) (view s') \<and> hold s' = hold s \<and>
    (\<exists>d. s' = s\<lparr>persistant_layer := d\<rparr>) \<and>
    (r = Ok () \<longrightarrow> inv_but C s' \<and> disk s' pid = Some p) \<and>
    (dirty (frames s ! i) \<longrightarrow> inv_but C s') \<and> (well (persistant_layer s) \<longrightarrow> r = Ok () \<and> well (persistant_layer s')) \<and>
    (\<forall>q \<in> ids - {pid}. \<forall>x. disk s q = Some x \<longrightarrow> disk s' q = Some x)"
proof -
  note clauses = pool_inv_butD [OF assms(2)] and m = pool_inv_mapped [OF assms(2,3)]
  obtain r0 d where w: "dm_write_page D pid raw (persistant_layer s) = (r0, d)" by fastforce
  then have s': "s' = s\<lparr>persistant_layer := d\<rparr>" and r: "r = map_err BpmIo r0"
    using assms(6) by (auto simp: disk_call_def)
  have p: "storable E p" "pg_id p = pid" using m(5) assms(4) by auto
  have raw: "length raw = PAGE_SIZE" "decode_page E raw = Some p"
    using storable_raw [OF assms(1) p(1)] assms(5) by auto
  note law = write_law [OF m(1) raw(1) w]
  have same: "frames s' = frames s" "free_frames s' = free_frames s" "eviction_state s' = eviction_state s"
    "page_table s' = page_table s" "persistant_layer s' = d" by (simp_all add: s')
  have keep: "disk s' q = Some x" if "q \<in> ids" "q \<noteq> pid" "disk s q = Some x" for q x
    using law that by (simp add: same)
  have wrote: "disk s' pid = Some p" if "r = Ok ()"
    using law that raw(2) by (simp add: same r map_err_Ok_iff)
  have mapped: "mapped_ok E ids (disk s') (frames s) q j"
    if "page_table s q = Some j" "r = Ok () \<or> dirty (frames s ! i)" for q j
  proof (cases "q = pid")
    case True
    then show ?thesis using clauses(4) [OF that(1)] assms(3,4) that wrote by (auto simp: mapped_ok_def)
  next
    case False
    then show ?thesis using clauses(4) [OF that(1)] keep by (auto simp: mapped_ok_def)
  qed
  have inv: "inv_but C s'" if "r = Ok () \<or> dirty (frames s ! i)"
    unfolding pool_inv_but_def same
    using clauses mapped [OF _ that] by (auto simp: same [symmetric] simp del: same)
  have "keeps (view s) (view s')"
    unfolding keeps_def
  proof (intro allI impI)
    fix q x
    assume "view s q = Some x"
    moreover have "disk s' q = Some x" if "page_table s q = None" "disk s q = Some x" "q \<in> ids"
      using keep [OF that(3) _ that(2)] that(1) assms(3) by fastforce
    ultimately show "view s' q = Some x"
      by (auto simp: pool_view_Some same(1,4) split: option.splits)
  qed
  moreover have "hold s' = hold s" by (simp add: hold_def fun_eq_iff same cong: option.case_cong)
  moreover have "r \<noteq> Panic" using law by (simp add: r)
  moreover have "well (persistant_layer s) \<longrightarrow> r = Ok () \<and> well (persistant_layer s')"
    using law by (auto simp: r same)
  moreover have "\<exists>d. s' = s\<lparr>persistant_layer := d\<rparr>" using s' by blast
  ultimately show ?thesis using inv wrote keep by blast
qed


text \<open>
  \<^verbatim>\<open>claim_frame\<close> takes a free frame or evicts an unpinned page, after writing it back if it is dirty. On every
  path, the failing ones included, no page is lost.
\<close>

lemma claim_law:
  assumes "varint_ok E" and "inv_but {} s" and "claim_frame E D V s = (r, s')"
  shows "r \<noteq> Panic \<and> keeps (view s) (view s') \<and> hold s' = hold s \<and>
    length (frames s') = length (frames s) \<and>
    (\<forall>q. page_table s q = None \<longrightarrow> page_table s' q = None) \<and> remaps {} s s' \<and>
    (\<forall>q \<in> ids. \<forall>x. page_table s q = None \<and> disk s q = Some x \<longrightarrow> disk s' q = Some x) \<and>
    (\<forall>i. r = Ok i \<longrightarrow> inv_but {i} s') \<and> (\<forall>e. r = Err e \<longrightarrow> inv_but {} s') \<and>
    (well (persistant_layer s) \<longrightarrow> well (persistant_layer s') \<and>
      (\<forall>e. r = Err e \<longrightarrow> e = NoFreeFrames \<and> (\<forall>i < length (frames s). is_pinned (frames s ! i))))"
proof (cases "free_frames s = []")
  case False
  then have "claim_frame E D V s = (Ok (last (free_frames s)), s\<lparr>free_frames := butlast (free_frames s)\<rparr>)"
    by (simp add: claim_frame_def vec_last_def)
  then have s': "r = Ok (last (free_frames s))" "s' = s\<lparr>free_frames := butlast (free_frames s)\<rparr>"
    using assms(3) by simp_all
  have "free_frames s = butlast (free_frames s) @ [last (free_frames s)]" using False by simp
  note step = claimed_free [OF assms(2) this]
  then show ?thesis by (simp add: s')
next
  case True
  note clauses = pool_inv_butD [OF assms(2)]
  obtain v e frs where v: "V (eviction_state s) (frames s) = Some (v, e, frs)" "ok e (length (frames s))"
      "same_frames (frames s) frs"
      "case v of Some i \<Rightarrow> i < length (frames s) \<and> \<not> is_pinned (frames s ! i)
        | None \<Rightarrow> \<forall>i < length (frames s). is_pinned (frames s ! i)"
    using victim_law [OF clauses(2,1)] by blast
  define s1 where "s1 = s\<lparr>eviction_state := e, frames := frs\<rparr>"
  have inv1: "inv_but {} s1" and view1: "view s1 = view s" "hold s1 = hold s"
    using policy_step [OF assms(2) v(3,2)] by (simp_all add: s1_def)
  have same1: "page_table s1 = page_table s" "persistant_layer s1 = persistant_layer s"
    "length (frames s1) = length (frames s)" "frames s1 = frs"
    using same_frames_length [OF v(3)] by (simp_all add: s1_def)
  show ?thesis
  proof (cases v)
    case None
    then have "(r, s') = (Err NoFreeFrames, s1)"
      using assms(3) True v(1) by (simp add: claim_frame_def vec_last_def s1_def)
    then show ?thesis using inv1 view1 same1 v(4) None by simp
  next
    case (Some i)
    then have i: "i < length frs" "\<not> is_pinned (frs ! i)"
      using v(4) same1 same_frames_nth(3) [OF v(3)] by (simp_all add: is_pinned_def)
    have "frame_ok (frs ! i)"
      using pool_inv_butD(3) [OF inv1] i(1) by (simp add: list_all_length same1)
    then have free: "latch (frs ! i) = Unlatched" using frame_ok_pinned i(2) by blast
    obtain pid where pid: "page_table s1 pid = Some i"
      using pool_inv_butD(8) [OF inv1, of i] i(1) True by (auto simp: same1 s1_def ran_def)
    note m = pool_inv_mapped [OF inv1 pid]
    obtain p where p: "slot (frs ! i) = Some p" "pg_id p = pid" "storable E p"
        "\<not> dirty (frs ! i) \<longrightarrow> disk s1 pid = Some p"
      using m(5) same1 by auto
    obtain raw where raw: "as_raw_page E p = Ok raw" using storable_raw [OF assms(1) p(3)] by blast
    let ?evict = "\<lambda>s2. s2\<lparr>page_table := (page_table s2)(pid := None)\<rparr>"
    have evicted: ?thesis
      if "r = Ok i" "s' = ?evict s2" "inv_but {} s2" "disk s2 pid = Some p" "keeps (view s1) (view s2)"
        "hold s2 = hold s1" "s2 = s1\<lparr>persistant_layer := d\<rparr>"
        "\<forall>q \<in> ids - {pid}. \<forall>x. disk s1 q = Some x \<longrightarrow> disk s2 q = Some x"
        "well (persistant_layer s) \<longrightarrow> well (persistant_layer s2)" for s2 d
    proof -
      have s2: "page_table s2 = page_table s" "frames s2 = frs" using that(7) same1 by simp_all
      have "inv_but {i} s' \<and> view s' = view s2 \<and> hold s' = hold s2"
        using evict_step [OF that(3), of pid i p] pid free p(1) that(2,4) same1 s2 by simp
      moreover have "hold s pid = Unlatched" using view1(2) pid free by (metis hold_def option.simps(5) same1(4))
      then have "remaps {} s s'" using that(2) s2(1) by (simp add: remaps_def)
      moreover have "disk s' q = Some x" if "q \<in> ids" "page_table s q = None" "disk s q = Some x" for q x
        using that pid same1 \<open>s' = ?evict s2\<close>
          \<open>\<forall>q \<in> ids - {pid}. \<forall>x. disk s1 q = Some x \<longrightarrow> disk s2 q = Some x\<close> by fastforce
      ultimately show ?thesis using that(1,2,5,6,9) view1 s2 same1 by simp
    qed
    note start = assms(3) [unfolded claim_frame_def] True v(1) Some i free p(1,2) raw same1
    show ?thesis
    proof (cases "dirty (frs ! i)")
      case False
      then have "(r, s') = (Ok i, ?evict s1)"
        using start by (simp add: vec_last_def s1_def [symmetric] frame_at_def sbind_def sreturn_def)
      then show ?thesis
        by (intro evicted [of s1 "persistant_layer s1"]) (use False inv1 p(4) same1 in auto)
    next
      case dirty: True
      obtain r2 s2 where dc: "disk_call (dm_write_page D pid raw) s1 = (r2, s2)" by fastforce
      note step = write_step [OF assms(1) inv1 pid _ raw dc, unfolded same1(4), OF p(1)]
      have run: "(r, s') = (case r2 of Ok _ \<Rightarrow> (Ok i, ?evict s2) | Err e \<Rightarrow> (Err e, s2) | Panic \<Rightarrow> (Panic, s2))"
        using start dirty dc
        by (cases r2) (simp_all add: vec_last_def s1_def [symmetric] frame_at_def sbind_def slift_def)
      show ?thesis
      proof (cases r2)
        case (Ok u)
        then show ?thesis
          using step run same1 by (intro evicted [of s2 "persistant_layer s2"]) auto
      next
        case (Err e)
        have "q \<noteq> pid" if "page_table s q = None" for q using that pid same1 by auto
        then show ?thesis using step run same1 view1 dirty Err by auto
      next
        case Panic
        then show ?thesis using step by simp
      qed
    qed
  qed
qed


lemma same_disk:
  assumes "stored d = disk s"
  defines "s' \<equiv> s\<lparr>persistant_layer := d\<rparr>"
  shows "inv_but C s' = inv_but C s" and "view s' = view s" and "hold s' = hold s"
    and "page_table s' = page_table s" and "frames s' = frames s" and "disk s' = disk s"
  using assms(1)
  by (auto simp: s'_def pool_inv_but_def pool_view_def hold_def cong: option.case_cong intro!: ext)

text \<open>\<^verbatim>\<open>load_page\<close> of a page that is not cached.\<close>

lemma load_law:
  assumes "varint_ok E" and "inv_but {} s" and "known s pid" and "page_table s pid = None"
    and "load_page E D V pid s = (r, s')"
  shows "keeps (view s) (view s') \<and> hold s' = hold s \<and> length (frames s') = length (frames s) \<and>
    remaps {pid} s s' \<and> (\<forall>e. r = Err e \<longrightarrow> page_table s' pid = None) \<and>
    (\<forall>i. r = Ok i \<longrightarrow> inv_but {} s' \<and> page_table s' pid = Some i \<and> view s pid \<noteq> None) \<and>
    (\<forall>e. r = Err e \<longrightarrow> inv_but {} s') \<and> (r = Panic \<longrightarrow> view s pid = None) \<and>
    (well (persistant_layer s) \<longrightarrow> well (persistant_layer s') \<and>
      (\<forall>e. r = Err e \<and> view s pid \<noteq> None \<longrightarrow>
        e = NoFreeFrames \<and> (\<forall>i < length (frames s). is_pinned (frames s ! i))))"
proof -
  obtain rd d where rd: "dm_read_page D pid (persistant_layer s) = (rd, d)" by fastforce
  have ids: "pid \<in> ids" using assms(3) by (simp add: pool_knows_def)
  note law = read_law [OF ids rd]
  define s1 where "s1 = s\<lparr>persistant_layer := d\<rparr>"
  have same: "stored d = disk s" using law by blast
  note s1 = same_disk [OF same, folded s1_def]
  have call: "disk_call (dm_read_page D pid) s = (map_err BpmIo rd, s1)"
    by (simp add: disk_call_def rd s1_def)
  have len: "length (frames s1) = length (frames s)" using s1(5) by simp
  show ?thesis
  proof (cases rd)
    case Panic
    then show ?thesis using law by simp
  next
    case (Err e)
    then have rs: "r = Err (BpmIo e)" "s' = s1"
      using assms(5) call by (simp_all add: load_page_def sbind_def)
    have "view s pid = None" if "well (persistant_layer s)"
    proof (rule ccontr)
      assume "view s pid \<noteq> None"
      then obtain p where "disk s pid = Some p" using assms(4) by (auto simp: pool_view_Some)
      then show False using read_well [OF ids rd that] Err by auto
    qed
    then show ?thesis using rs s1 assms(2,4) law by (auto simp: s1_def)
  next
    case (Ok raw)
    have dec: "decode_page E raw = disk s pid" using law Ok by blast
    show ?thesis
    proof (cases "page_deserialize E raw")
      case Panic
      then have rs: "r = Panic" "s' = s1"
        using assms(5) call Ok by (simp_all add: load_page_def sbind_def slift_def)
      have "disk s pid = None" using dec Panic by (simp add: decode_page_def)
      then have "view s pid = None" using assms(4) by (auto simp: pool_view_def)
      then show ?thesis using rs s1 law by (auto simp: s1_def)
    next
      case (Err e)
      then have rs: "r = Err (BpmPage e)" "s' = s1"
        using assms(5) call Ok by (simp_all add: load_page_def sbind_def slift_def)
      have "disk s pid = None" using dec Err by (simp add: decode_page_def)
      then have "view s pid = None" using assms(4) by (auto simp: pool_view_def)
      then show ?thesis using rs s1 assms(2,4) law by (auto simp: s1_def)
    next
      case page: (Ok pr)
      obtain p rest where pr: "pr = (p, rest)" by fastforce
      have "disk s pid = Some p" using dec page by (simp add: decode_page_def pr)
      then obtain x where "view s pid = Some x" using assms(3) by (auto simp: pool_knows_def)
      then have p: "view s pid = Some p" "disk s pid = Some p" "pg_id p = pid" "storable E p"
        using \<open>disk s pid = Some p\<close> assms(4) by (auto simp: pool_view_Some)
      obtain rc s2 where claim: "claim_frame E D V s1 = (rc, s2)" by fastforce
      have inv1: "inv_but {} s1" using assms(2) s1(1) by simp
      note cl = claim_law [OF assms(1) inv1 claim]
      have run: "(r, s') = (case rc of
          Ok i \<Rightarrow> (case fill_frame i pid p False s2 of
            (Ok _, s3) \<Rightarrow> (Ok i, s3) | (Err e, s3) \<Rightarrow> (Err e, s3) | (Panic, s3) \<Rightarrow> (Panic, s3))
        | Err e \<Rightarrow> (Err e, s2) | Panic \<Rightarrow> (Panic, s2))"
        using assms(5) call Ok page pr claim
        by (simp add: load_page_def sbind_def slift_def sreturn_def split: result.splits prod.splits)
      show ?thesis
      proof (cases rc)
        case Panic
        then show ?thesis using cl by simp
      next
        case (Err e)
        then have "r = Err e" "s' = s2" using run by simp_all
        moreover have "remaps {pid} s s2" using cl s1(3,4) by (simp add: remaps_def)
        ultimately show ?thesis using cl Err s1 len law assms(4) by (auto simp: s1_def)
      next
        case (Ok i)
        have i: "inv_but {i} s2" using cl Ok by blast
        have table: "page_table s2 pid = None" using cl assms(4) s1(4) by simp
        have "disk s2 pid = Some p" using cl ids assms(4) s1(4,6) p(2) by simp
        then obtain s3 where s3: "fill_frame i pid p False s2 = (Ok (), s3)" "inv_but {} s3"
            "view s3 = (view s2)(pid \<mapsto> p)" "hold s3 = hold s2" "page_table s3 = (page_table s2)(pid \<mapsto> i)"
            "persistant_layer s3 = persistant_layer s2" "length (frames s3) = length (frames s2)"
          using fill_step [OF i _ table ids p(3,4), of False] by auto
        have "view s2 pid = Some p" using cl p(1) s1(2) by (auto simp: keeps_def)
        then have "view s3 = view s2" using s3(3) by auto
        moreover have "remaps {pid} s s3" using cl s3(5) s1(3,4) by (simp add: remaps_def)
        ultimately show ?thesis
          using run Ok s3 cl s1 len law p(1) by (auto simp: s1_def)
      qed
    qed
  qed
qed


lemma checkout_law:
  assumes "varint_ok E" and "inv_but {} s" and "known s pid"
    and "(case page_table s pid of Some i \<Rightarrow> sreturn i | None \<Rightarrow> load_page E D V pid) s = (r, s1)"
  shows "keeps (view s) (view s1) \<and> hold s1 = hold s \<and> length (frames s1) = length (frames s) \<and>
    remaps (if page_table s pid = None then {pid} else {}) s s1 \<and>
    (\<forall>e. r = Err e \<longrightarrow> page_table s1 pid = page_table s pid) \<and>
    (\<forall>i. r = Ok i \<longrightarrow> inv_but {} s1 \<and> page_table s1 pid = Some i \<and> view s pid \<noteq> None) \<and>
    (\<forall>e. r = Err e \<longrightarrow> inv_but {} s1) \<and> (r = Panic \<longrightarrow> view s pid = None) \<and>
    (well (persistant_layer s) \<longrightarrow> well (persistant_layer s1) \<and>
      (\<forall>e. r = Err e \<and> view s pid \<noteq> None \<longrightarrow>
        e = NoFreeFrames \<and> page_table s pid = None \<and> (\<forall>i < length (frames s). is_pinned (frames s ! i))))"
proof (cases "page_table s pid")
  case None
  then show ?thesis using load_law [OF assms(1-3) None] assms(4) by simp
next
  case (Some i)
  then have "view s pid \<noteq> None" using pool_inv_mapped(5) [OF assms(2) Some] by (auto simp: pool_view_def)
  then show ?thesis using Some assms(2,4) by auto
qed

text \<open>
  Fetching a page, in either mode. It succeeds exactly with the page the pool stands for; it blocks only on a
  page that is held in a conflicting mode; it fails only when the disk fails or every frame is pinned; and
  nothing is lost whatever happens.
\<close>

lemma fetch_law:
  assumes "varint_ok E" and "inv_but {} s" and "known s pid" and "latch_mode mode"
    and "has_room (hold s pid)" and "fetch_frame mode E D V pid s = (r, s')"
  shows "(r \<noteq> Panic \<longrightarrow> keeps (view s) (view s') \<and> length (frames s') = length (frames s) \<and>
      remaps (if page_table s pid = None then {pid} else {}) s s' \<and>
      (\<forall>e. r = Err e \<longrightarrow> page_table s' pid = page_table s pid)) \<and>
    (\<forall>i. r = Ok i \<longrightarrow> inv_but {} s' \<and> page_table s' pid = Some i \<and> view s pid \<noteq> None \<and>
      (\<exists>l. mode (hold s pid) = Some l \<and> hold s' = (hold s)(pid := l))) \<and>
    (\<forall>e. r = Err e \<longrightarrow> inv_but {} s' \<and> hold s' = hold s) \<and>
    (r = Panic \<longrightarrow> mode (hold s pid) = None \<or> view s pid = None) \<and>
    (well (persistant_layer s) \<and> r \<noteq> Panic \<longrightarrow> well (persistant_layer s') \<and>
      (\<forall>e. r = Err e \<and> view s pid \<noteq> None \<longrightarrow>
        e = NoFreeFrames \<and> page_table s pid = None \<and> (\<forall>i < length (frames s). is_pinned (frames s ! i))))"
proof -
  obtain r1 s1 where co: "(case page_table s pid of Some i \<Rightarrow> sreturn i | None \<Rightarrow> load_page E D V pid) s = (r1, s1)"
    by fastforce
  note law = checkout_law [OF assms(1-3) co]
  show ?thesis
  proof (cases r1)
    case Panic
    then have "r = Panic" "s' = s1"
      using assms(6) co by (simp_all add: fetch_frame_def checkout_page_def sbind_def)
    then show ?thesis using law Panic by auto
  next
    case (Err e)
    then have "r = Err e" "s' = s1"
      using assms(6) co by (simp_all add: fetch_frame_def checkout_page_def sbind_def)
    then show ?thesis using law Err by auto
  next
    case (Ok i)
    then have inv1: "inv_but {} s1" and table: "page_table s1 pid = Some i" and known: "view s pid \<noteq> None"
      using law by auto
    note m = pool_inv_mapped [OF inv1 table]
    let ?f = "frames s1 ! i"
    have ok: "frame_ok ?f" using pool_inv_butD(3) [OF inv1] m(2) by (simp add: list_all_length)
    have "hold s1 pid = latch ?f" using table by (simp add: hold_def)
    then have hold: "hold s pid = latch ?f" using law by simp
    then have room: "has_room (latch ?f)" using assms(5) by simp
    obtain p where p: "slot ?f = Some p" "pg_id p = pid" "storable E p"
        "\<not> dirty ?f \<longrightarrow> disk s1 pid = Some p" using m(5) by blast
    let ?pin = "\<lambda>f. f\<lparr>referenced := True, pin_count := pin_count f + 1\<rparr>"
    have pin: "pin_frame E i s1 = (Ok (pin_count ?f), frame_update i ?pin s1)"
      using m(2) pin_room [OF ok room] by (simp add: pin_frame_def sbind_def frame_at_def Let_def)
    show ?thesis
    proof (cases "mode (latch ?f)")
      case None
      then have "r = Panic" "s' = frame_update i ?pin s1"
        using assms(6) co Ok pin m(2)
        by (simp_all add: fetch_frame_def checkout_page_def sbind_def sreturn_def take_latch_def frame_at_def)
      then show ?thesis using None hold by simp
    next
      case (Some l)
      let ?g = "\<lambda>f. f\<lparr>referenced := True, pin_count := pin_count f + 1, latch := l\<rparr>"
      have run: "r = Ok i" "s' = frame_update i ?g s1"
        using assms(6) co Ok pin m(2) Some p(1,2)
        by (simp_all add: fetch_frame_def checkout_page_def sbind_def sreturn_def take_latch_def frame_at_def
            frame_update_def)
      have fok: "frame_ok (?g ?f)"
        using latched_ok [of ?f mode l] ok Some room assms(4) by (simp add: latch_mode_def)
      note step = frame_step [OF inv1 table, of ?g p, OF fok]
      have "view s1 pid = Some p" using table p(1) by (simp add: pool_view_def)
      moreover have "remaps A s s' = remaps A s s1" for A by (simp add: remaps_def run)
      ultimately show ?thesis
        using step p law run Some hold known table by (auto simp: fun_upd_idem)
    qed
  qed
qed


text \<open>Dropping a guard.\<close>

lemma drop_law:
  assumes "inv_but {} s" and "page_table s pid = Some i" and "hold s pid \<noteq> Unlatched"
  shows "\<exists>s'. sbind (unpin_frame E i) (\<lambda>_. sreturn ()) (release_latch i s) = (Ok (), s') \<and>
    inv_but {} s' \<and> view s' = view s \<and> hold s' = (hold s)(pid := unlatched (hold s pid)) \<and>
    page_table s' = page_table s \<and> persistant_layer s' = persistant_layer s \<and>
    length (frames s') = length (frames s)"
proof -
  let ?f = "frames s ! i"
  let ?g = "\<lambda>f. f\<lparr>latch := unlatched (latch f), pin_count := pin_count f - 1\<rparr>"
  note m = pool_inv_mapped [OF assms(1,2)]
  have ok: "frame_ok ?f" using pool_inv_butD(3) [OF assms(1)] m(2) by (simp add: list_all_length)
  have hold: "hold s pid = latch ?f" using assms(2) by (simp add: hold_def)
  note un = unlatched_ok [OF ok] assms(3) [unfolded hold]
  obtain p where p: "slot ?f = Some p" "pg_id p = pid" "storable E p" "\<not> dirty ?f \<longrightarrow> disk s pid = Some p"
    using m(5) by blast
  have run: "sbind (unpin_frame E i) (\<lambda>_. sreturn ()) (release_latch i s) = (Ok (), frame_update i ?g s)"
    using m(2) un by (simp add: unpin_frame_def sbind_def frame_at_def Let_def release_latch_def frame_update_def
        sreturn_def)
  have "view s pid = Some p" using assms(2) p(1) by (simp add: pool_view_def)
  then show ?thesis
    using frame_step [OF assms(1,2), of ?g p] un p run hold by (simp add: fun_upd_idem)
qed

text \<open>Changing a page through its write guard.\<close>

lemma update_law:
  assumes "inv_but {} s" and "page_table s pid = Some i" and "view s pid = Some p"
    and "op p = (r, p')" and "storable E p'" and "pg_id p' = pid"
  shows "\<exists>s'. write_deref_mut (PageWriteGuard i) op s = (r, s') \<and> inv_but {} s' \<and>
    view s' = (view s)(pid \<mapsto> p') \<and> hold s' = hold s \<and> page_table s' = page_table s \<and>
    persistant_layer s' = persistant_layer s \<and> length (frames s') = length (frames s)"
proof -
  let ?g = "\<lambda>f. f\<lparr>dirty := True, slot := Some p'\<rparr>"
  note m = pool_inv_mapped [OF assms(1,2)]
  have ok: "frame_ok (?g (frames s ! i))"
    using pool_inv_butD(3) [OF assms(1)] m(2) by (simp add: list_all_length frame_ok_def cong: latch.case_cong)
  have "slot (frames s ! i) = Some p" using assms(2,3) by (simp add: pool_view_def)
  then have "write_deref_mut (PageWriteGuard i) op s = (r, frame_update i ?g s)"
    using assms(4) m(2) by (simp add: frame_update_def Let_def)
  then show ?thesis
    using frame_step [OF assms(1,2), of ?g p', OF ok] assms(2,5,6) by (simp add: hold_def fun_upd_idem)
qed

text \<open>Creating a page.\<close>

lemma new_page_law:
  assumes "varint_ok E" and "inv_but {} s" and "pg_id page \<in> ids" and "storable E page"
    and "new_page E D V page s = (r, s')"
  shows "r \<noteq> Panic \<and> length (frames s') = length (frames s) \<and>
    remaps (if page_table s (pg_id page) = None then {pg_id page} else {}) s s' \<and>
    (\<forall>e. r = Err e \<longrightarrow> page_table s' (pg_id page) = page_table s (pg_id page)) \<and>
    (\<forall>g. r = Ok g \<longrightarrow> page_table s (pg_id page) = None \<and>
      (\<exists>i. g = PageWriteGuard i \<and> inv_but {} s' \<and> page_table s' (pg_id page) = Some i \<and>
        hold s' = (hold s)(pg_id page := WriteLatched) \<and>
        keeps ((view s)(pg_id page \<mapsto> page)) (view s'))) \<and>
    (\<forall>e. r = Err e \<longrightarrow> inv_but {} s' \<and> keeps (view s) (view s') \<and> hold s' = hold s) \<and>
    (well (persistant_layer s) \<longrightarrow> well (persistant_layer s') \<and>
      (\<forall>e. r = Err e \<longrightarrow> e = PageAlreadyExists (pg_id page) \<and> page_table s (pg_id page) \<noteq> None \<or>
        e = NoFreeFrames \<and> (\<forall>i < length (frames s). is_pinned (frames s ! i))))"
proof (cases "page_table s (pg_id page)")
  case (Some i)
  then show ?thesis using assms(2,5) by (auto simp: new_page_def)
next
  case None
  let ?pid = "pg_id page"
  obtain rc s1 where claim: "claim_frame E D V s = (rc, s1)" by fastforce
  note law = claim_law [OF assms(1,2) claim]
  have new: "new_page E D V page s =
      sbind (claim_frame E D V) (\<lambda>i. sbind (fill_frame i ?pid page True) (\<lambda>_.
        sbind (pin_frame E i) (\<lambda>_. sbind (take_latch write_latched i) (\<lambda>_. sreturn (PageWriteGuard i))))) s"
    using None by (simp add: new_page_def)
  show ?thesis
  proof (cases rc)
    case Panic
    then show ?thesis using law by simp
  next
    case (Err e)
    then have "r = Err e" "s' = s1" using assms(5) new claim by (simp_all add: sbind_def)
    moreover have "remaps {?pid} s s1" using law by (simp add: remaps_def)
    ultimately show ?thesis using law Err None by simp
  next
    case (Ok i)
    have i: "inv_but {i} s1" using law Ok by blast
    have table: "page_table s1 ?pid = None" using law None by blast
    obtain s2 where s2: "fill_frame i ?pid page True s1 = (Ok (), s2)" "inv_but {} s2"
        "view s2 = (view s1)(?pid \<mapsto> page)" "hold s2 = hold s1" "page_table s2 = (page_table s1)(?pid \<mapsto> i)"
        "persistant_layer s2 = persistant_layer s1" "length (frames s2) = length (frames s1)"
      using fill_step [OF i _ table assms(3) refl assms(4), of True] by auto
    have mapped: "page_table s2 ?pid = Some i" using s2(5) by simp
    note m = pool_inv_mapped [OF s2(2) mapped]
    let ?f = "frames s2 ! i"
    let ?g = "\<lambda>f. f\<lparr>referenced := True, pin_count := pin_count f + 1, latch := WriteLatched\<rparr>"
    have "hold s ?pid = Unlatched" using None by (simp add: hold_def)
    then have hold: "latch ?f = Unlatched"
      using s2(4) mapped law by (metis hold_def option.simps(5))
    have ok: "frame_ok ?f" using pool_inv_butD(3) [OF s2(2)] m(2) by (simp add: list_all_length)
    then have pin: "pin_count ?f = 0" using hold by (simp add: frame_ok_def)
    have run: "r = Ok (PageWriteGuard i)" "s' = frame_update i ?g s2"
      using assms(5) new claim Ok s2(1) m(2) hold pin
      by (simp_all add: sbind_def sreturn_def pin_frame_def take_latch_def frame_at_def Let_def frame_update_def)
    have fok: "frame_ok (?g ?f)" using pin by (simp add: frame_ok_def)
    obtain p where p: "slot ?f = Some p" "pg_id p = ?pid" "storable E p" "\<not> dirty ?f \<longrightarrow> disk s2 ?pid = Some p"
      using m(5) by blast
    have "view s2 ?pid = Some p" using mapped p(1) by (simp add: pool_view_def)
    then have "p = page" using s2(3) by simp
    have keep: "keeps ((view s)(?pid \<mapsto> page)) (view s2)"
      using law s2(3) by (auto simp: keeps_def)
    have "remaps {?pid} s s'" using law run(2) s2(5) by (simp add: remaps_def)
    then show ?thesis
      using frame_step [OF s2(2) mapped, of ?g p, OF fok] p run s2 law None keep \<open>p = page\<close>
      by (simp add: fun_upd_idem)
  qed
qed


text \<open>Flushing: the frames of \<open>fs\<close> become clean, and the disk has what they hold.\<close>

lemma flush_frames_law:
  assumes "varint_ok E" and "inv_but {} s" and "\<forall>i \<in> set fs. i < length (frames s) \<and> latch (frames s ! i) \<noteq> WriteLatched"
    and "flush_frames E D fs s = (r, s')"
  shows "r \<noteq> Panic \<and> inv_but {} s' \<and> keeps (view s) (view s') \<and> hold s' = hold s \<and>
    page_table s' = page_table s \<and> length (frames s') = length (frames s) \<and>
    (\<forall>j < length (frames s). slot (frames s' ! j) = slot (frames s ! j) \<and> latch (frames s' ! j) = latch (frames s ! j) \<and>
      (dirty (frames s' ! j) \<longrightarrow> dirty (frames s ! j))) \<and>
    (r = Ok () \<longrightarrow> (\<forall>i \<in> set fs. \<not> dirty (frames s' ! i))) \<and>
    (well (persistant_layer s) \<longrightarrow> r = Ok () \<and> well (persistant_layer s'))"
  using assms(2-)
proof (induction fs arbitrary: s)
  case Nil
  then show ?case by simp
next
  case (Cons i fs)
  let ?f = "frames s ! i" and ?clean = "\<lambda>f. f\<lparr>dirty := False\<rparr>"
  have i: "i < length (frames s)" "read_latched (latch ?f) \<noteq> None"
    using Cons.prems(2) by (auto split: latch.splits) (metis latch.exhaust option.simps(3) read_latched.simps)
  show ?case
  proof (cases "dirty ?f")
    case False
    then have "flush_frames E D fs s = (r, s')"
      using Cons.prems(3) i by (simp add: sbind_def frame_at_def)
    then show ?thesis using Cons.IH [OF Cons.prems(1)] Cons.prems(2) False i by auto
  next
    case True
    have "i \<notin> set (free_frames s)" using pool_inv_butD(9) [OF Cons.prems(1)] True by blast
    then obtain pid where pid: "page_table s pid = Some i"
      using pool_inv_butD(8) [OF Cons.prems(1) i(1)] by (auto simp: ran_def)
    note m = pool_inv_mapped [OF Cons.prems(1) pid]
    obtain p where p: "slot ?f = Some p" "pg_id p = pid" "storable E p" using m(5) by blast
    obtain raw where raw: "as_raw_page E p = Ok raw" using storable_raw [OF assms(1) p(3)] by blast
    obtain rw s1 where dc: "disk_call (dm_write_page D pid raw) s = (rw, s1)" by fastforce
    note step = write_step [OF assms(1) Cons.prems(1) pid p(1) raw dc]
    have fr: "frames s1 = frames s" "page_table s1 = page_table s" using step by auto
    have run: "(r, s') = (case rw of Ok _ \<Rightarrow> flush_frames E D fs (frame_update i ?clean s1)
        | Err e \<Rightarrow> (Err e, s1) | Panic \<Rightarrow> (Panic, s1))"
      using Cons.prems(3) i True p(1,2) raw dc
      by (cases rw) (auto simp: sbind_def frame_at_def slift_def)
    show ?thesis
    proof (cases rw)
      case Panic
      then show ?thesis using step by simp
    next
      case (Err e)
      then show ?thesis using run step True fr by auto
    next
      case (Ok u)
      have inv1: "inv_but {} s1" "disk s1 pid = Some p" using step Ok by auto
      have fok: "frame_ok (?clean (frames s1 ! i))"
        using pool_inv_butD(3) [OF inv1(1)] i(1) fr(1)
        by (simp add: list_all_length frame_ok_def cong: latch.case_cong)
      let ?s2 = "frame_update i ?clean s1"
      note fs = frame_step [OF inv1(1), of pid i ?clean p, OF _ fok]
      have "view s1 pid = Some p" using pid p(1) fr by (simp add: pool_view_def)
      then have s2: "inv_but {} ?s2" "view ?s2 = view s1" "hold ?s2 = hold s1"
        using fs pid p fr inv1(2) by (auto simp: hold_def fun_upd_idem)
      have run2: "flush_frames E D fs ?s2 = (r, s')" using run Ok by simp
      have "\<forall>j \<in> set fs. j < length (frames ?s2) \<and> latch (frames ?s2 ! j) \<noteq> WriteLatched"
        using Cons.prems(2) fr i(1) by (auto simp: nth_list_update)
      note IH = Cons.IH [OF s2(1) this run2]
      have nth: "slot (frames ?s2 ! j) = slot (frames s ! j)" "latch (frames ?s2 ! j) = latch (frames s ! j)"
        "dirty (frames ?s2 ! j) \<Longrightarrow> dirty (frames s ! j)" "\<not> dirty (frames ?s2 ! i)"
        if "j < length (frames s)" for j
        using that fr i(1) by (auto simp: nth_list_update split: if_splits)
      have "keeps (view s) (view s')" using keeps_trans step s2(2) IH by metis
      moreover have "\<not> dirty (frames s' ! i)" using IH nth(4) [OF i(1)] i(1) fr by auto
      ultimately show ?thesis using IH s2 step fr nth by auto
    qed
  qed
qed

lemma flush_law:
  assumes "varint_ok E" and "inv_but {} s" and "\<forall>pid. hold s pid \<noteq> WriteLatched"
    and "flush_all E D s = (r, s')"
  shows "r \<noteq> Panic \<and> inv_but {} s' \<and> keeps (view s) (view s') \<and> hold s' = hold s \<and>
    page_table s' = page_table s \<and> length (frames s') = length (frames s) \<and>
    (r = Ok () \<longrightarrow> (\<forall>i < length (frames s'). \<not> dirty (frames s' ! i)) \<and>
      (\<forall>pid p. view s' pid = Some p \<longrightarrow> disk s' pid = Some p)) \<and>
    (well (persistant_layer s) \<longrightarrow> r = Ok () \<and> well (persistant_layer s'))"
proof -
  have un: "\<forall>i \<in> set [0..<length (frames s)]. i < length (frames s) \<and> latch (frames s ! i) \<noteq> WriteLatched"
  proof
    fix i assume i: "i \<in> set [0..<length (frames s)]"
    then consider "i \<in> set (free_frames s)" | pid where "page_table s pid = Some i"
      using pool_inv_butD(8) [OF assms(2), of i] by (auto simp: ran_def)
    then show "i < length (frames s) \<and> latch (frames s ! i) \<noteq> WriteLatched"
    proof cases
      case 1
      then show ?thesis using pool_inv_butD(7) [OF assms(2), of i] by simp
    next
      case 2
      then have "hold s pid = latch (frames s ! i)" by (simp add: hold_def)
      then show ?thesis using assms(3) i by (metis atLeastLessThan_iff set_upt)
    qed
  qed
  obtain r1 s1 where fl: "flush_frames E D [0..<length (frames s)] s = (r1, s1)" by fastforce
  note law = flush_frames_law [OF assms(1,2) un fl]
  show ?thesis
  proof (cases r1)
    case Panic
    then show ?thesis using law by simp
  next
    case (Err e)
    then have "r = Err e" "s' = s1" using assms(4) fl by (simp_all add: flush_all_def sbind_def)
    then show ?thesis using law Err by simp
  next
    case (Ok u)
    obtain rs d where sy: "dm_sync D (persistant_layer s1) = (rs, d)" by fastforce
    note sl = sync_law [OF sy]
    then have same: "stored d = disk s1" by blast
    have run: "r = map_err BpmIo rs" "s' = s1\<lparr>persistant_layer := d\<rparr>"
      using assms(4) fl Ok sy by (simp_all add: flush_all_def sbind_def disk_call_def)
    note s' = same_disk [OF same, folded run(2)]
    have clean: "\<not> dirty (frames s1 ! i)" if "i < length (frames s1)" for i
      using law Ok that by simp
    have "disk s1 pid = Some p" if "view s1 pid = Some p" for pid p
    proof (cases "page_table s1 pid")
      case None
      then show ?thesis using that by (simp add: pool_view_Some)
    next
      case (Some i)
      then show ?thesis
        using that pool_inv_mapped(2,5) [of E ids stored ok "{}" s1, OF _ Some] law clean
        by (auto simp: pool_view_Some)
    qed
    then show ?thesis
      using law sl s' Ok clean by (auto simp: run(1) s' map_err_Ok_iff) (simp add: run(2))
  qed
qed


text \<open>No call makes a disk unsafe.\<close>

abbreviation safe_pool :: "('d, 'e) bpm \<Rightarrow> bool" where
  "safe_pool s \<equiv> safe (persistant_layer s)"

lemma kept_disk_call: "kept safe m \<Longrightarrow> kept safe_pool (disk_call m)"
  by (auto simp: disk_call_def intro!: keptI dest: keptD split: prod.splits)

lemma kept_frames:
  "kept safe_pool (frame_at i)" "kept safe_pool (pin_frame E i)" "kept safe_pool (unpin_frame E i)"
  "kept safe_pool (take_latch mode i)" "kept safe_pool (fill_frame i pid page is_new)"
  by (auto simp: kept_def frame_at_def pin_frame_def unpin_frame_def take_latch_def fill_frame_def sbind_eq
      frame_update_def Let_def split: if_splits option.splits)

lemma kept_claim: "kept safe_pool (claim_frame E D V)"
proof (rule keptI)
  fix s r s' assume run: "claim_frame E D V s = (r, s')" and safe: "safe_pool s"
  note wr = keptD [OF kept_disk_call [OF safe_kept(2)]]
  show "safe_pool s'"
    using run safe
    by (auto simp: claim_frame_def Let_def sbind_eq frame_at_def call_defs split: option.splits prod.splits if_splits dest!: wr)
qed

text \<open>What reading keeps is what its parts keep.\<close>

lemma kept_fetch_read:
  assumes "kept P (disk_call (dm_read_page D pid))" and "kept P (claim_frame E D V)"
    and "\<And>i page. kept P (fill_frame i pid page False)" and "\<And>i. kept P (pin_frame E i)"
    and "\<And>i. kept P (take_latch read_latched i)" and "\<And>i s. P s \<Longrightarrow> P (release_latch i s)"
  shows "kept P (fetch_read E D V pid)"
proof -
  have "kept P (load_page E D V pid)"
    unfolding load_page_def by (intro kept_intros assms) (auto split: prod.split intro!: kept_intros assms)
  then have "kept P (checkout_page E D V pid)"
    by (intro keptI) (auto simp: checkout_page_def sbind_eq split: option.splits dest: keptD [OF assms(4)] keptD)
  then have "kept P (fetch_frame read_latched E D V pid)"
    unfolding fetch_frame_def
    by (intro kept_intros assms) (auto simp: kept_def assms(6) split: option.splits if_splits)
  then show ?thesis unfolding fetch_read_def by (intro kept_intros)
qed

lemma kept_drop_read:
  assumes "\<And>i. kept P (unpin_frame E i)" and "\<And>i s. P s \<Longrightarrow> P (release_latch i s)"
  shows "kept P (drop_read E g)"
  by (cases g) (auto simp: sbind_eq assms(2) intro!: keptI dest!: keptD [OF assms(1)])

lemma reads_keep_safe: "reads_keep E D V safe_pool"
  unfolding reads_keep_def
  by (intro conjI allI kept_fetch_read kept_drop_read kept_disk_call safe_kept kept_claim kept_frames)
    (simp_all add: release_latch_def frame_update_def)

text \<open>Reading makes no frame dirty.\<close>

definition clean_pool :: "('d, 'e) bpm \<Rightarrow> bool" where
  "clean_pool s \<longleftrightarrow> frames s \<noteq> [] \<and> ok (eviction_state s) (length (frames s)) \<and> (\<forall>i < length (frames s). \<not> dirty (frames s ! i))"

lemma same_dirty: "dirty (g (xs ! i)) = dirty (xs ! i) \<Longrightarrow> dirty (xs[i := g (xs ! i)] ! j) = dirty (xs ! j)"
  by (cases "i < length xs"; cases "i = j") (simp_all add: list_update_beyond)

lemma clean_frames:
  "kept clean_pool (disk_call m)" "kept clean_pool (frame_at i)" "kept clean_pool (pin_frame E i)" "kept clean_pool (unpin_frame E i)"
  "kept clean_pool (take_latch mode i)" "kept clean_pool (fill_frame i pid page False)" "clean_pool s \<Longrightarrow> clean_pool (release_latch i s)"
  by (auto simp: kept_def clean_pool_def disk_call_def frame_at_def pin_frame_def unpin_frame_def take_latch_def fill_frame_def
      release_latch_def sbind_eq frame_update_def Let_def nth_list_update same_dirty split: if_splits option.splits prod.splits)

lemma clean_claim: "kept clean_pool (claim_frame E D V)"
proof (rule keptI)
  fix s r s' assume run: "claim_frame E D V s = (r, s')" and clean: "clean_pool s"
  obtain v e' frs' where victim: "V (eviction_state s) (frames s) = Some (v, e', frs')" "ok e' (length (frames s))"
      "same_frames (frames s) frs'"
    using victim_law [of "eviction_state s" "frames s"] clean unfolding clean_pool_def by blast
  have same: "length frs' = length (frames s)" "\<forall>i < length (frames s). \<not> dirty (frs' ! i)"
    using clean same_frames_length [OF victim(3)] same_frames_nth(4) [OF victim(3)] by (auto simp: clean_pool_def)
  show "clean_pool s'"
    using run clean victim same
    by (auto simp: claim_frame_def Let_def sbind_eq frame_at_def call_defs clean_pool_def split: option.splits if_splits)
qed

lemma reads_keep_clean: "reads_keep E D V clean_pool"
  unfolding reads_keep_def by (intro conjI allI kept_fetch_read kept_drop_read clean_claim clean_frames)

lemma kept_flush: "kept safe_pool (flush_all E D)"
proof -
  have "kept safe_pool (flush_frames E D is)" for "is"
  proof (induction "is")
    case Nil
    then show ?case by (simp add: kept_intros)
  next
    case (Cons i "is")
    have "kept safe_pool (\<lambda>s. flush_frames E D is (frame_update i g s))" for g
      using Cons by (auto simp: kept_def frame_update_def)
    then show ?case
      using Cons by (auto intro!: kept_intros kept_frames kept_disk_call safe_kept split: option.split)
  qed
  then show ?thesis
    by (intro keptI)
      (auto simp: flush_all_def sbind_eq dest!: keptD [OF kept_disk_call [OF safe_kept(3)]] dest: keptD)
qed

text \<open>Replacing the file: afterwards the pool stands for exactly the pages given.\<close>

lemma swap_pool_law:
  assumes "varint_ok E" and "inv_but {} s" and "\<forall>pid. hold s pid = Unlatched"
    and "\<forall>p \<in> set pages. pg_id p \<in> ids \<and> storable E p" and "distinct (map pg_id pages)"
    and "bpm_swap_file E D pages s = (r, s')"
  shows "(r = Ok () \<longrightarrow> inv_but {} s' \<and> (\<forall>pid. hold s' pid = Unlatched) \<and>
      (\<forall>pid p. view s' pid = Some p \<longleftrightarrow> p \<in> set pages \<and> pg_id p = pid) \<and> page_table s' = (\<lambda>_. None)) \<and>
    (\<forall>e. r = Err e \<and> safe_pool s \<longrightarrow>
      inv_but {} s' \<and> keeps (view s) (view s') \<and> hold s' = hold s \<and> page_table s' = page_table s) \<and>
    (r \<noteq> Panic \<longrightarrow> length (frames s') = length (frames s)) \<and>
    (well (persistant_layer s) \<longrightarrow> r \<noteq> Panic \<and> well (persistant_layer s') \<and>
      (\<forall>e. r = Err e \<longrightarrow> (\<exists>d d' e'. well d \<and> dm_swap_file D pages d = (Err e', d'))))"
proof -
  obtain r1 s1 where fl: "flush_all E D s = (r1, s1)" by fastforce
  note law = flush_law [OF assms(1,2) _ fl]
  have law: "r1 \<noteq> Panic" "inv_but {} s1" "keeps (view s) (view s1)" "hold s1 = hold s"
      "page_table s1 = page_table s" "length (frames s1) = length (frames s)"
      "well (persistant_layer s) \<longrightarrow> r1 = Ok () \<and> well (persistant_layer s1)"
    using law assms(3) by simp_all
  have safe1: "safe_pool s1" if "safe_pool s" using keptD [OF kept_flush fl that] .
  show ?thesis
  proof (cases r1)
    case Panic
    then show ?thesis using law by simp
  next
    case (Err e)
    then have "r = Err e" "s' = s1" using assms(6) fl by (simp_all add: bpm_swap_file_def sbind_def)
    then show ?thesis using law Err by simp
  next
    case (Ok u)
    obtain rw d where sw: "dm_swap_file D pages (persistant_layer s1) = (rw, d)" by fastforce
    note sl = swap_law [OF assms(1,4,5) sw]
    let ?s2 = "s1\<lparr>persistant_layer := d\<rparr>"
    have call: "disk_call (dm_swap_file D pages) s1 = (map_err BpmIo rw, ?s2)"
      by (simp add: disk_call_def sw)
    show ?thesis
    proof (cases rw)
      case Panic
      then have "r = Panic" using assms(6) fl Ok call by (simp add: bpm_swap_file_def sbind_def)
      moreover have "\<not> well (persistant_layer s)" using sl law(7) Panic by auto
      ultimately show ?thesis by simp
    next
      case (Err e)
      then have run: "r = Err (BpmIo e)" "s' = ?s2"
        using assms(6) fl Ok call by (simp_all add: bpm_swap_file_def sbind_def)
      have "stored d = disk s1" if "safe_pool s" using sl Err safe1 [OF that] by blast
      moreover have "\<exists>d d' e'. well d \<and> dm_swap_file D pages d = (Err e', d')" if "well (persistant_layer s)"
        using that law(7) sw Err by blast
      ultimately show ?thesis using law run same_disk [of d s1] sl by auto
    next
      case ok: (Ok u')
      note clauses = pool_inv_butD [OF law(2)]
      have un: "latch (frames s1 ! i) = Unlatched" if il: "i < length (frames s1)" for i
      proof -
        consider "i \<in> set (free_frames s1)" | pid where "page_table s1 pid = Some i"
          using clauses(8) [OF il] by (auto simp: ran_def)
        then show ?thesis
        proof cases
          case 1
          then show ?thesis using clauses(7) [of i] by simp
        next
          case 2
          then have "hold s1 pid = latch (frames s1 ! i)" by (simp add: hold_def)
          then show ?thesis using assms(3) law(4) by simp
        qed
      qed
      have fok: "frame_ok (frames s1 ! i)" if "i < length (frames s1)" for i
        using clauses(3) that by (simp add: list_all_length)
      then have "\<not> is_pinned (frames s1 ! i)" if "i < length (frames s1)" for i
        using un frame_ok_pinned that by blast
      then obtain frs where frs: "reset_frames [0..<length (frames ?s2)] ?s2 = (Ok (), ?s2\<lparr>frames := frs\<rparr>)"
          "length frs = length (frames s1)"
          "\<forall>j < length (frames s1). frs ! j = (frames s1 ! j)\<lparr>slot := None, dirty := False, referenced := False\<rparr>"
        using reset_frames_law [of "[0..<length (frames ?s2)]" ?s2] un by auto
      let ?s3 = "?s2\<lparr>frames := frs, page_table := \<lambda>_. None, free_frames := [0..<length frs]\<rparr>"
      have run: "r = Ok ()" "s' = ?s3"
        using assms(6) fl Ok call ok frs(1) by (simp_all add: bpm_swap_file_def sbind_def)
      have "list_all frame_ok frs"
        using fok frs(2,3) by (simp add: list_all_length frame_ok_def cong: latch.case_cong)
      then have "inv_but {} ?s3"
        using clauses(1,2) frs un by (auto simp: pool_inv_but_def)
      moreover have "view ?s3 pid = Some p \<longleftrightarrow> p \<in> set pages \<and> pg_id p = pid" for pid p
        using sl ok assms(4) by (auto simp: pool_view_Some)
      ultimately show ?thesis using run frs(2) law(6,7) sl by (simp add: hold_def)
    qed
  qed
qed

lemma new_pool_law:
  assumes "0 < n" and "ok e n"
  shows "\<exists>s. bpm_new d e n = Ok s \<and> inv_but {} s \<and> (\<forall>pid. hold s pid = Unlatched) \<and>
    (\<forall>pid p. view s pid = Some p \<longleftrightarrow> stored d pid = Some p \<and> pid \<in> ids \<and> pg_id p = pid \<and> storable E p)"
  using assms
  by (simp add: bpm_new_def pool_inv_but_def hold_def pool_view_Some list_all_length frame_ok_def frame_default_def)

end

interpretation file_pool: buffer_pool E "file_disk_manager E" "{pid. get_table_id pid = t}" "file_stored E"
  healthy temp_apart clock_find_victim clock_ok for E t
  by (intro buffer_pool.intro file_disk.page_disk_axioms clock.eviction_policy_axioms)

text \<open>The same pool, known to be on a path with a directory.\<close>

interpretation named_pool: buffer_pool E "file_disk_manager E" "{pid. get_table_id pid = t}" "file_stored E"
  well_named temp_apart clock_find_victim clock_ok for E t
  by (intro buffer_pool.intro named_disk.page_disk_axioms clock.eviction_policy_axioms)

text \<open>The other policy of the program gives the same pool.\<close>

interpretation replacer_pool: buffer_pool E "file_disk_manager E" "{pid. get_table_id pid = t}" "file_stored E"
  healthy temp_apart replacer_find_victim replacer_ok for E t
  by (intro buffer_pool.intro file_disk.page_disk_axioms replacer.eviction_policy_axioms)

end
