(* ===== verification/Procs.thy ===== *)
theory Procs
  imports Effects
begin

text \<open>
  Calls with loops, guards that are dropped, and the logic the calls above the buffer pool are
  proved in. A loop need not end, so a procedure that has one may have no outcome: it returns
  \<open>None\<close> then. A guard is dropped where the scope that owns it ends, on an early return too; a
  panic ends the run, so what is dropped after it is left out.
\<close>

section \<open>Procedures\<close>

type_synonym ('s, 'a, 'e) proc = "'s \<Rightarrow> (('a, 'e) result \<times> 's) option"

definition pcall :: "('s, 'a, 'e) call \<Rightarrow> ('s, 'a, 'e) proc" where
  "pcall m = (\<lambda>s. Some (m s))"

definition pbind :: "('s, 'a, 'e) proc \<Rightarrow> ('a \<Rightarrow> ('s, 'b, 'e) proc) \<Rightarrow> ('s, 'b, 'e) proc" where
  "pbind m f = (\<lambda>s. case m s of
     None \<Rightarrow> None
   | Some (Ok x, s') \<Rightarrow> f x s'
   | Some (Err e, s') \<Rightarrow> Some (Err e, s')
   | Some (Panic, s') \<Rightarrow> Some (Panic, s'))"

definition plift_err :: "('e \<Rightarrow> 'f) \<Rightarrow> ('s, 'a, 'e) proc \<Rightarrow> ('s, 'a, 'f) proc" where
  "plift_err g m = (\<lambda>s. map_option (\<lambda>(r, s'). (map_err g r, s')) (m s))"

text \<open>A \<^verbatim>\<open>loop\<close> or \<^verbatim>\<open>while\<close>: \<open>Inl\<close> goes round again, \<open>Inr\<close> is \<^verbatim>\<open>break\<close> or a return.\<close>

partial_function (option) loop ::
  "('a \<Rightarrow> ('s, 'a + 'b, 'e) call) \<Rightarrow> 'a \<Rightarrow> ('s, 'b, 'e) proc" where
  "loop body x s =
     (case body x s of
       (Ok (Inl x'), s') \<Rightarrow> loop body x' s'
     | (Ok (Inr y), s') \<Rightarrow> Some (Ok y, s')
     | (Err e, s') \<Rightarrow> Some (Err e, s')
     | (Panic, s') \<Rightarrow> Some (Panic, s'))"

section \<open>Dropping and expecting\<close>

text \<open>\<open>then_drop\<close> is the end of a scope, \<open>else_drop\<close> the early return of a \<^verbatim>\<open>?\<close>.\<close>

definition drop_after :: "('s, unit, 'x) call \<Rightarrow> ('a, 'e) result \<times> 's \<Rightarrow> ('a, 'e) result \<times> 's" where
  "drop_after d out =
     (case out of
       (Panic, s') \<Rightarrow> (Panic, s')
     | (r, s') \<Rightarrow> (case d s' of (Panic, s'') \<Rightarrow> (Panic, s'') | (_, s'') \<Rightarrow> (r, s'')))"

definition then_drop :: "('s, 'a, 'e) call \<Rightarrow> ('s, unit, 'x) call \<Rightarrow> ('s, 'a, 'e) call" where
  "then_drop m d = (\<lambda>s. drop_after d (m s))"

definition else_drop :: "('s, 'a, 'e) call \<Rightarrow> ('s, unit, 'x) call \<Rightarrow> ('s, 'a, 'e) call" where
  "else_drop m d = (\<lambda>s. case m s of (Err e, s') \<Rightarrow> drop_after d (Err e, s') | out \<Rightarrow> out)"

definition pthen_drop :: "('s, 'a, 'e) proc \<Rightarrow> ('s, unit, 'x) call \<Rightarrow> ('s, 'a, 'e) proc" where
  "pthen_drop m d = (\<lambda>s. map_option (drop_after d) (m s))"

definition pelse_drop :: "('s, 'a, 'e) proc \<Rightarrow> ('s, unit, 'x) call \<Rightarrow> ('s, 'a, 'e) proc" where
  "pelse_drop m d = (\<lambda>s. case m s of
     Some (Err e, s') \<Rightarrow> Some (drop_after d (Err e, s')) | out \<Rightarrow> out)"

text \<open>\<^verbatim>\<open>call.expect(..)\<close>.\<close>

definition sexpect :: "('s, 'a, 'e) call \<Rightarrow> ('s, 'a, 'f) call" where
  "sexpect m = (\<lambda>s. case m s of (Ok x, s') \<Rightarrow> (Ok x, s') | (_, s') \<Rightarrow> (Panic, s'))"

fun each :: "('a \<Rightarrow> ('s, unit, 'e) call) \<Rightarrow> 'a list \<Rightarrow> ('s, unit, 'e) call" where
  "each f [] = sreturn ()"
| "each f (x # xs) = sbind (f x) (\<lambda>_. each f xs)"

section \<open>What a procedure keeps\<close>

definition pkept :: "('s \<Rightarrow> bool) \<Rightarrow> ('s, 'a, 'e) proc \<Rightarrow> bool" where
  "pkept P m \<longleftrightarrow> (\<forall>s r s'. m s = Some (r, s') \<longrightarrow> P s \<longrightarrow> P s')"

lemma pkeptI: "(\<And>s r s'. m s = Some (r, s') \<Longrightarrow> P s \<Longrightarrow> P s') \<Longrightarrow> pkept P m"
  by (auto simp: pkept_def)

lemma pkeptD: "pkept P m \<Longrightarrow> m s = Some (r, s') \<Longrightarrow> P s \<Longrightarrow> P s'"
  by (auto simp: pkept_def)

lemma kept_then_drop [kept_intros]: "kept P m \<Longrightarrow> kept P d \<Longrightarrow> kept P (then_drop m d)"
  by (intro keptI)
    (auto simp: then_drop_def drop_after_def split: prod.splits result.splits dest: keptD)

lemma kept_sexpect [kept_intros]: "kept P m \<Longrightarrow> kept P (sexpect m)"
  by (intro keptI) (auto simp: sexpect_def split: prod.splits result.splits dest: keptD)

lemma pkept_pcall [kept_intros]: "kept P m \<Longrightarrow> pkept P (pcall m)"
  by (auto simp: kept_def pkept_def pcall_def)

lemma pkept_plift [kept_intros]: "pkept P m \<Longrightarrow> pkept P (plift_err g m)"
  by (auto simp: pkept_def plift_err_def)

lemma pkept_pbind [kept_intros]: "pkept P m \<Longrightarrow> (\<And>x. pkept P (f x)) \<Longrightarrow> pkept P (pbind m f)"
  by (intro pkeptI) (auto simp: pbind_def split: option.splits prod.splits result.splits dest: pkeptD)

lemma pkept_loop [kept_intros]:
  assumes "\<And>x. kept P (body x)"
  shows "pkept P (loop body x)"
proof -
  have "P s \<longrightarrow> P (snd out)" if "loop body x s = Some out" for x s out
  proof (rule loop.raw_induct [where P = "\<lambda>f x s out. f = body \<longrightarrow> P s \<longrightarrow> P (snd out)" and xa = "((body, x), s)" and y = out,
        unfolded prod.case, THEN mp, OF _ that refl])
    fix rec f x s out
    assume IH: "\<And>f x s out. rec f x s = Some out \<Longrightarrow> f = body \<longrightarrow> P s \<longrightarrow> P (snd out)"
      and run: "(case f x s of (Ok (Inl x'), s') \<Rightarrow> rec f x' s' | (Ok (Inr y), s') \<Rightarrow> Some (Ok y, s')
        | (Err e, s') \<Rightarrow> Some (Err e, s') | (Panic, s') \<Rightarrow> Some (Panic, s')) = Some out"
    show "f = body \<longrightarrow> P s \<longrightarrow> P (snd out)"
    proof (intro impI)
      assume f: "f = body" and s: "P s"
      obtain r s' where r: "f x s = (r, s')" by fastforce
      then have "P s'" using keptD [OF assms] f s by blast
      then show "P (snd out)" using run r IH f by (auto split: result.splits sum.splits)
    qed
  qed
  then show ?thesis by (fastforce intro: pkeptI)
qed

section \<open>What holds of an outcome\<close>

text \<open>
  \<open>wp h out Q X\<close>: there is an outcome; after \<open>Ok\<close> it satisfies \<open>Q\<close>, after an error \<open>X\<close>, and it is a
  panic only if \<open>h\<close> does not hold. \<open>h\<close> says that the run meets no failing system call and has
  enough frames.
\<close>

definition wp ::
  "bool \<Rightarrow> (('a, 'e) result \<times> 's) option \<Rightarrow> ('a \<Rightarrow> 's \<Rightarrow> bool) \<Rightarrow> ('e \<Rightarrow> 's \<Rightarrow> bool) \<Rightarrow> bool" where
  "wp h out Q X \<longleftrightarrow>
     (case out of
       None \<Rightarrow> False
     | Some (Ok x, s) \<Rightarrow> Q x s
     | Some (Err e, s) \<Rightarrow> X e s
     | Some (Panic, s) \<Rightarrow> \<not> h)"

named_theorems wp_simps "the outcome of composed calls"

lemma wp_Some [wp_simps]:
  "wp h (Some (Ok x, s)) Q X \<longleftrightarrow> Q x s" "wp h (Some (Err e, s)) Q X \<longleftrightarrow> X e s"
  "wp h (Some (Panic, s)) Q X \<longleftrightarrow> \<not> h" "wp h None Q X \<longleftrightarrow> False"
  by (simp_all add: wp_def)

lemma wp_mono:
  assumes "wp h out Q X" and "\<And>x s. Q x s \<Longrightarrow> Q' x s" and "\<And>e s. X e s \<Longrightarrow> X' e s"
  shows "wp h out Q' X'"
  using assms by (auto simp: wp_def split: option.splits prod.splits result.splits)

lemma wp_kept:
  assumes "wp h (m s) Q X" and "pkept P m" and "P s"
  shows "wp h (m s) (\<lambda>x s'. Q x s' \<and> P s') (\<lambda>e s'. X e s' \<and> P s')"
  using assms by (auto simp: wp_def dest: pkeptD split: option.splits prod.splits result.splits)

lemma wp_return [wp_simps]: "wp h (Some (sreturn x s)) Q X \<longleftrightarrow> Q x s"
  and wp_fail [wp_simps]: "wp h (Some (sfail e s)) Q X \<longleftrightarrow> X e s"
  and wp_panic [wp_simps]: "wp h (Some (spanic s)) Q X \<longleftrightarrow> \<not> h"
  by (simp_all add: call_defs wp_def)

lemma wp_sbind [wp_simps]:
  "wp h (Some (sbind m f s)) Q X \<longleftrightarrow> wp h (Some (m s)) (\<lambda>x s'. wp h (Some (f x s')) Q X) X"
  by (auto simp: sbind_def wp_def split: prod.splits result.splits)

lemma wp_pbind [wp_simps]:
  "wp h (pbind m f s) Q X \<longleftrightarrow> wp h (m s) (\<lambda>x s'. wp h (f x s') Q X) X"
  by (auto simp: pbind_def wp_def split: option.splits prod.splits result.splits)

lemma wp_pcall [wp_simps]: "wp h (pcall m s) Q X \<longleftrightarrow> wp h (Some (m s)) Q X"
  by (simp add: pcall_def)

lemma wp_lift_err [wp_simps]:
  "wp h (Some (lift_err g m s)) Q X \<longleftrightarrow> wp h (Some (m s)) Q (\<lambda>e. X (g e))"
  "wp h (plift_err g p s) Q X \<longleftrightarrow> wp h (p s) Q (\<lambda>e. X (g e))"
  by (auto simp: lift_err_def plift_err_def wp_def split: option.splits prod.splits result.splits)

lemma wp_sexpect [wp_simps]:
  "wp h (Some (sexpect m s)) Q X \<longleftrightarrow> wp h (Some (m s)) Q (\<lambda>_ _. \<not> h)"
  by (auto simp: sexpect_def wp_def split: prod.splits result.splits)

lemma wp_drop_after [wp_simps]:
  "wp h (Some (drop_after d (r, s))) Q X \<longleftrightarrow>
    (if r = Panic then \<not> h
     else wp h (Some (d s)) (\<lambda>_ s'. wp h (Some (r, s')) Q X) (\<lambda>_ s'. wp h (Some (r, s')) Q X))"
  by (auto simp: drop_after_def wp_def split: prod.splits result.splits)

lemma wp_then_drop [wp_simps]:
  "wp h (Some (then_drop m d s)) Q X \<longleftrightarrow>
    wp h (Some (m s)) (\<lambda>x s'. wp h (Some (d s')) (\<lambda>_. Q x) (\<lambda>_. Q x))
      (\<lambda>e s'. wp h (Some (d s')) (\<lambda>_. X e) (\<lambda>_. X e))"
  by (auto simp: then_drop_def drop_after_def wp_def split: prod.splits result.splits)

lemma wp_else_drop [wp_simps]:
  "wp h (Some (else_drop m d s)) Q X \<longleftrightarrow>
    wp h (Some (m s)) Q (\<lambda>e s'. wp h (Some (d s')) (\<lambda>_. X e) (\<lambda>_. X e))"
  by (auto simp: else_drop_def drop_after_def wp_def split: prod.splits result.splits)

lemma wp_pthen_drop [wp_simps]:
  "wp h (pthen_drop m d s) Q X \<longleftrightarrow>
    wp h (m s) (\<lambda>x s'. wp h (Some (d s')) (\<lambda>_. Q x) (\<lambda>_. Q x))
      (\<lambda>e s'. wp h (Some (d s')) (\<lambda>_. X e) (\<lambda>_. X e))"
  by (auto simp: pthen_drop_def drop_after_def wp_def split: option.splits prod.splits result.splits)

lemma wp_pelse_drop [wp_simps]:
  "wp h (pelse_drop m d s) Q X \<longleftrightarrow>
    wp h (m s) Q (\<lambda>e s'. wp h (Some (d s')) (\<lambda>_. X e) (\<lambda>_. X e))"
  by (auto simp: pelse_drop_def drop_after_def wp_def split: option.splits prod.splits result.splits)

lemma wp_slift [wp_simps]: "wp h (Some (slift r s)) Q X \<longleftrightarrow> wp h (Some (r, s)) Q X"
  by (simp add: slift_def)

text \<open>A loop with an invariant and a variant.\<close>

lemma wp_loop:
  assumes "I k x s"
    and step: "\<And>k x s. I k x s \<Longrightarrow> wp h (Some (body x s))
      (\<lambda>r s'. case r of Inl x' \<Rightarrow> (\<exists>k' < (k :: nat). I k' x' s') | Inr y \<Rightarrow> Q y s') X"
  shows "wp h (loop body x s) Q X"
  using assms(1)
proof (induction k arbitrary: x s rule: less_induct)
  case (less k)
  note st = step [OF less.prems]
  obtain r s' where r: "body x s = (r, s')" by fastforce
  show ?case
  proof (cases r)
    case (Ok y)
    show ?thesis
    proof (cases y)
      case (Inl x')
      then obtain k' where "k' < k" "I k' x' s'" using st r Ok by (auto simp: wp_def)
      then have "wp h (loop body x' s') Q X" by (rule less.IH)
      then show ?thesis using r Ok Inl by (subst loop.simps) simp
    next
      case (Inr z)
      then show ?thesis using st r Ok by (subst loop.simps) (simp add: wp_def)
    qed
  next
    case (Err e)
    then show ?thesis using st r by (subst loop.simps) (simp add: wp_def)
  next
    case Panic
    then show ?thesis using st r by (subst loop.simps) (simp add: wp_def)
  qed
qed

lemma wp_outcome:
  "wp h out Q X \<Longrightarrow> \<exists>r s. out = Some (r, s) \<and>
    (case r of Ok x \<Rightarrow> Q x s | Err e \<Rightarrow> X e s | Panic \<Rightarrow> \<not> h)"
  by (auto simp: wp_def split: option.splits prod.splits result.splits)

text \<open>A run that can neither fail nor panic returns.\<close>

lemma returns:
  assumes "\<exists>r s. out = Some (r, s) \<and> (case r of Ok x \<Rightarrow> Q x s | Err e \<Rightarrow> X e s | Panic \<Rightarrow> \<not> h)"
    and "\<And>e s. \<not> X e s" and "h"
  shows "\<exists>x s. out = Some (Ok x, s) \<and> Q x s"
proof -
  obtain r s where "out = Some (r, s)" "case r of Ok x \<Rightarrow> Q x s | Err e \<Rightarrow> X e s | Panic \<Rightarrow> \<not> h"
    using assms(1) by blast
  then show ?thesis using assms(2,3) by (cases r) auto
qed

end
