(* ===== verification/Guarded.thy ===== *)
theory Guarded
  imports Pool_Correct Procs "HOL-Library.Multiset"
begin

text \<open>
  The buffer pool as its clients use it. \<open>tracks\<close> describes a state of the pool by what a client can
  know: the pages it has (a map that the view of the pool extends), and the guards that are out.
  Each call of the pool gets one rule in the logic of theory \<open>Procs\<close>, so that a client is
  executed symbolically over maps of pages. A run of the client for which \<open>h\<close> is assumed meets no failing
  system call and always finds a frame; then no call fails at all.
\<close>

section \<open>The state a client sees\<close>

text \<open>A guard that is out: the page, its frame, and whether it is a read or a write guard.\<close>

type_synonym holder = "page_id \<times> frame_id \<times> latch"

abbreviation rguard :: "page_id \<Rightarrow> frame_id \<Rightarrow> holder" where
  "rguard pid i \<equiv> (pid, i, ReadLatched 1)"

abbreviation wguard :: "page_id \<Rightarrow> frame_id \<Rightarrow> holder" where
  "wguard pid i \<equiv> (pid, i, WriteLatched)"

abbreviation held :: "holder multiset \<Rightarrow> page_id set" where
  "held H \<equiv> fst ` set_mset H"

definition holders :: "holder multiset \<Rightarrow> ('d, 'e) bpm \<Rightarrow> bool" where
  "holders H s \<longleftrightarrow>
     (\<forall>q i l. (q, i, l) \<in># H \<longrightarrow> page_table s q = Some i \<and> hold s q = l) \<and>
     {q. hold s q \<noteq> Unlatched} = held H \<and> size H = card (held H)"

definition tracks ::
  "env \<Rightarrow> page_id set \<Rightarrow> ('d \<Rightarrow> page_id \<Rightarrow> page option) \<Rightarrow> ('e \<Rightarrow> nat \<Rightarrow> bool) \<Rightarrow> ('d \<Rightarrow> bool) \<Rightarrow>
   bool \<Rightarrow> nat \<Rightarrow> (page_id \<Rightarrow> page option) \<Rightarrow> holder multiset \<Rightarrow> ('d, 'e) bpm \<Rightarrow> bool" where
  "tracks E ids stored ok well h n v H s \<longleftrightarrow>
     pool_inv_but E ids stored ok {} s \<and> keeps v (pool_view E ids stored s) \<and>
     dom (page_table s) \<subseteq> dom v \<and> holders H s \<and> length (frames s) = n \<and>
     (h \<longrightarrow> well (persistant_layer s))"

lemma remaps_dom: "remaps A s s' \<Longrightarrow> q \<in> dom (page_table s') \<Longrightarrow> q \<in> A \<or> q \<in> dom (page_table s)"
  unfolding remaps_def by (metis domIff)

lemma card_held_le: "card (held H) \<le> size H"
proof (induction H)
  case empty
  then show ?case by simp
next
  case (add x H)
  then show ?case by (simp add: card_insert_if)
qed

lemma size_held_add:
  "size (add_mset (q, i, l) H) = card (held (add_mset (q, i, l) H)) \<longleftrightarrow> q \<notin> held H \<and> size H = card (held H)"
  using card_held_le [of H] by (auto simp: card_insert_if)

lemma holdersD:
  assumes "holders (add_mset (q, i, l) H) s"
  shows "q \<notin> held H" and "page_table s q = Some i" and "hold s q = l" and "l \<noteq> Unlatched"
proof -
  show "q \<notin> held H" using assms size_held_add [of q i l H] by (simp add: holders_def)
  show "page_table s q = Some i" and h: "hold s q = l" using assms by (auto simp: holders_def)
  have "q \<in> {q. hold s q \<noteq> Unlatched}" using assms unfolding holders_def by auto
  then show "l \<noteq> Unlatched" using h by simp
qed

lemma holders_add:
  assumes "holders H s" and "pid \<notin> held H" and "remaps A s s'" and "A \<subseteq> {pid}"
    and "hold s' = (hold s)(pid := l)" and "page_table s' pid = Some i" and "l \<noteq> Unlatched"
  shows "holders (add_mset (pid, i, l) H) s'"
proof -
  have old: "page_table s' q = Some j \<and> hold s' q = m \<and> q \<noteq> pid" if "(q, j, m) \<in># H" for q j m
  proof -
    have "q \<in> held H" using that by force
    then have "q \<noteq> pid" "q \<in> {q. hold s q \<noteq> Unlatched}"
      using assms(1,2) by (auto simp: holders_def)
    moreover have "page_table s q = Some j" "hold s q = m" using assms(1) that by (auto simp: holders_def)
    ultimately show ?thesis using assms(3-5) by (auto simp: remaps_def)
  qed
  have "{q. hold s' q \<noteq> Unlatched} = insert pid {q. hold s q \<noteq> Unlatched}"
    using assms(5,7) by auto
  also have "\<dots> = held (add_mset (pid, i, l) H)" using assms(1) by (simp add: holders_def)
  finally show ?thesis
    using assms(1,2,5,6) old size_held_add [of pid i l H] by (auto simp: holders_def)
qed

lemma holders_keep:
  assumes "holders H s" and "remaps A s s'" and "hold s' = hold s"
    and "\<And>q. q \<in> A \<Longrightarrow> page_table s' q = page_table s q"
  shows "holders H s'"
proof -
  have "page_table s' q = Some j" if "(q, j, m) \<in># H" for q j m
  proof -
    have "q \<in> held H" using that by force
    then have "q \<in> {q. hold s q \<noteq> Unlatched}" using assms(1) by (simp add: holders_def)
    moreover have "page_table s q = Some j" using assms(1) that by (auto simp: holders_def)
    ultimately show ?thesis using assms(2) assms(4) [of q] by (cases "q \<in> A") (auto simp: remaps_def)
  qed
  then show ?thesis using assms(1,3) by (auto simp: holders_def)
qed

lemma holders_drop:
  assumes "holders (add_mset (pid, i, l) H) s" and "hold s' = (hold s)(pid := Unlatched)"
    and "page_table s' = page_table s"
  shows "holders H s'"
proof -
  note d = holdersD [OF assms(1)]
  have "{q. hold s' q \<noteq> Unlatched} = {q. hold s q \<noteq> Unlatched} - {pid}" using assms(2) by auto
  also have "\<dots> = held H" using assms(1) d(1) by (simp add: holders_def)
  finally have "{q. hold s' q \<noteq> Unlatched} = held H" .
  moreover have "size H = card (held H)"
    using assms(1) size_held_add [of pid i l H] by (simp add: holders_def)
  moreover have "page_table s' q = Some j \<and> hold s' q = m" if "(q, j, m) \<in># H" for q j m
  proof -
    have "q \<noteq> pid" using that d(1) by force
    moreover have "(q, j, m) \<in># add_mset (pid, i, l) H" using that by simp
    ultimately show ?thesis using assms by (auto simp: holders_def)
  qed
  ultimately show ?thesis by (simp add: holders_def)
qed

text \<open>With fewer guards than frames, some frame is not pinned.\<close>

lemma unpinned_frame:
  assumes "pool_inv_but E ids stored ok {} s" and "holders H s" and "size H < length (frames s)"
  shows "\<exists>i < length (frames s). \<not> is_pinned (frames s ! i)"
proof (rule ccontr)
  assume "\<not> ?thesis"
  then have pinned: "is_pinned (frames s ! i)" if "i < length (frames s)" for i using that by blast
  note clauses = pool_inv_butD [OF assms(1)]
  have "i \<in> (\<lambda>q. the (page_table s q)) ` held H" if i: "i < length (frames s)" for i
  proof -
    have "frame_ok (frames s ! i)" using clauses(3) i by (simp add: list_all_length)
    then have latched: "latch (frames s ! i) \<noteq> Unlatched"
      using frame_ok_pinned pinned [OF i] by blast
    then have "i \<notin> set (free_frames s)" using clauses(7) [of i] by auto
    then obtain q where q: "page_table s q = Some i" using clauses(8) [OF i] by (auto simp: ran_def)
    then have "q \<in> {q. hold s q \<noteq> Unlatched}" using latched by (simp add: hold_def)
    then have "q \<in> held H" using assms(2) unfolding holders_def by blast
    then show ?thesis using q by (intro image_eqI [of _ _ q]) simp_all
  qed
  then have "{..<length (frames s)} \<subseteq> (\<lambda>q. the (page_table s q)) ` held H" by auto
  then have "card {..<length (frames s)} \<le> card ((\<lambda>q. the (page_table s q)) ` held H)"
    by (intro card_mono) simp_all
  also have "\<dots> \<le> card (held H)" by (intro card_image_le) simp
  also have "\<dots> \<le> size H" by (rule card_held_le)
  finally show False using assms(3) by simp
qed

section \<open>The rules\<close>

context buffer_pool begin

abbreviation trk ::
  "bool \<Rightarrow> nat \<Rightarrow> (page_id \<Rightarrow> page option) \<Rightarrow> holder multiset \<Rightarrow> ('d, 'e) bpm \<Rightarrow> bool" where
  "trk \<equiv> tracks E ids stored ok well"

lemma trk_view: "trk h n v H s \<Longrightarrow> v pid = Some p \<Longrightarrow> view s pid = Some p"
  by (simp add: tracks_def keeps_def)

lemma trk_storable:
  assumes "trk h n v H s" and "v pid = Some p"
  shows "storable E p" and "pg_id p = pid" and "pid \<in> ids"
proof -
  have inv: "inv_but {} s" using assms(1) by (simp add: tracks_def)
  have "storable E p \<and> pg_id p = pid \<and> pid \<in> ids"
  proof (cases "page_table s pid")
    case None
    then show ?thesis using trk_view [OF assms] by (simp add: pool_view_Some)
  next
    case (Some i)
    then show ?thesis using trk_view [OF assms] pool_inv_mapped(1,5) [OF inv Some] by (auto simp: pool_view_Some)
  qed
  then show "storable E p" and "pg_id p = pid" and "pid \<in> ids" by simp_all
qed

lemma trk_distinct: "trk h n v (add_mset (q, i, l) H) s \<Longrightarrow> q \<notin> held H"
  using holdersD(1) [of q i l H s] by (simp add: tracks_def)

lemma trk_known: "trk h n v H s \<Longrightarrow> v pid = Some p \<Longrightarrow> known s pid"
  using trk_view trk_storable(3) by (simp add: pool_knows_def)

lemma trk_unheld:
  assumes "trk h n v H s" and "pid \<notin> held H"
  shows "hold s pid = Unlatched"
proof -
  have "{q. hold s q \<noteq> Unlatched} = held H" using assms(1) by (simp add: tracks_def holders_def)
  then show ?thesis using assms(2) by blast
qed

text \<open>Reading through a guard.\<close>

lemma trk_slot:
  assumes "trk h n v (add_mset (pid, i, l) H) s" and "v pid = Some p"
  shows "slot (frames s ! i) = Some p"
  using trk_view [OF assms] holdersD(2) [of pid i l H s] assms(1)
  by (simp add: tracks_def pool_view_Some)

lemma trk_deref:
  assumes "trk h n v (add_mset (pid, i, l) H) s" and "v pid = Some p"
  shows "read_deref (PageReadGuard i) s = Ok p" and "write_deref (PageWriteGuard i) s = Ok p"
  by (simp_all add: trk_slot [OF assms])

text \<open>Fetching a page in either mode.\<close>

lemma trk_fetch:
  assumes E: "varint_ok E" and tr: "trk h n v H s" and v: "v pid = Some p" and free: "pid \<notin> held H"
    and room: "h \<longrightarrow> size H < n" and mode: "latch_mode mode" "mode Unlatched = Some l" "l \<noteq> Unlatched"
    and f: "fetch_frame mode E D V pid s = (r, s')"
  shows "(\<exists>i. r = Ok i \<and> trk h n v (add_mset (pid, i, l) H) s') \<or> (\<exists>e. r = Err e \<and> \<not> h \<and> trk h n v H s')"
proof -
  have inv: "inv_but {} s" and keep: "keeps v (view s)" and dom: "dom (page_table s) \<subseteq> dom v"
    and hol: "holders H s" and len: "length (frames s) = n" and well: "h \<longrightarrow> well (persistant_layer s)"
    using tr by (simp_all add: tracks_def)
  have un: "hold s pid = Unlatched" by (rule trk_unheld [OF tr free])
  have room': "has_room (hold s pid)" by (simp add: un)
  note law = fetch_law [OF E inv trk_known [OF tr v] mode(1) room' f]
  have vw: "view s pid \<noteq> None" using trk_view [OF tr v] by simp
  then have np: "r \<noteq> Panic" using law mode(2) un by auto
  then have keep': "keeps v (view s')" using law keep keeps_trans by blast
  have rm: "remaps (if page_table s pid = None then {pid} else {}) s s'" using law np by blast
  have dom': "dom (page_table s') \<subseteq> dom v"
  proof
    fix q assume "q \<in> dom (page_table s')"
    then show "q \<in> dom v"
      using remaps_dom [OF rm, of q] dom v by (auto split: if_splits)
  qed
  show ?thesis
  proof (cases r)
    case (Ok i)
    then have inv': "inv_but {} s'" and tab: "page_table s' pid = Some i" and hold: "hold s' = (hold s)(pid := l)"
      using law un mode(2) by auto
    have "holders (add_mset (pid, i, l) H) s'"
      by (rule holders_add [OF hol free rm _ hold tab mode(3)]) simp
    then show ?thesis using Ok inv' keep' dom' law np len well by (simp add: tracks_def)
  next
    case (Err e)
    then have inv': "inv_but {} s'" and hold: "hold s' = hold s" and tab: "page_table s' pid = page_table s pid"
      using law by auto
    have hol': "holders H s'"
      by (rule holders_keep [OF hol rm hold]) (auto simp: tab split: if_splits)
    have "\<not> h"
    proof
      assume h: h
      then have "\<forall>i < length (frames s). is_pinned (frames s ! i)"
        using law Err vw np well by auto
      then show False using unpinned_frame [OF inv hol] room h len by blast
    qed
    then show ?thesis using Err inv' keep' dom' hol' law np len by (simp add: tracks_def)
  next
    case Panic
    then show ?thesis using np by simp
  qed
qed

lemma wp_fetch_read:
  assumes "varint_ok E" and "trk h n v H s" and "v pid = Some p" and "pid \<notin> held H" and "h \<longrightarrow> size H < n"
    and "\<And>i s'. trk h n v (add_mset (rguard pid i) H) s' \<Longrightarrow> Q (PageReadGuard i) s'"
    and "\<And>e s'. \<not> h \<Longrightarrow> trk h n v H s' \<Longrightarrow> X e s'"
  shows "wp h (Some (fetch_read E D V pid s)) Q X"
proof -
  obtain r s' where f: "fetch_frame read_latched E D V pid s = (r, s')" by fastforce
  have "latch_mode read_latched" "read_latched Unlatched = Some (ReadLatched 1)" by (simp_all add: latch_mode_def)
  note law = trk_fetch [OF assms(1-5) this _ f]
  then show ?thesis using assms(6,7) f by (auto simp: fetch_read_def sbind_def sreturn_def wp_def)
qed

lemma wp_fetch_write:
  assumes "varint_ok E" and "trk h n v H s" and "v pid = Some p" and "pid \<notin> held H" and "h \<longrightarrow> size H < n"
    and "\<And>i s'. trk h n v (add_mset (wguard pid i) H) s' \<Longrightarrow> Q (PageWriteGuard i) s'"
    and "\<And>e s'. \<not> h \<Longrightarrow> trk h n v H s' \<Longrightarrow> X e s'"
  shows "wp h (Some (fetch_write E D V pid s)) Q X"
proof -
  obtain r s' where f: "fetch_frame write_latched E D V pid s = (r, s')" by fastforce
  have "latch_mode write_latched" "write_latched Unlatched = Some WriteLatched" by (simp_all add: latch_mode_def)
  note law = trk_fetch [OF assms(1-5) this _ f]
  then show ?thesis using assms(6,7) f by (auto simp: fetch_write_def sbind_def sreturn_def wp_def)
qed

text \<open>Dropping a guard.\<close>

lemma trk_drop:
  assumes "trk h n v (add_mset (pid, i, l) H) s" and "unlatched l = Unlatched"
  shows "\<exists>s'. sbind (unpin_frame E i) (\<lambda>_. sreturn ()) (release_latch i s) = (Ok (), s') \<and> trk h n v H s'"
proof -
  have hol: "holders (add_mset (pid, i, l) H) s" and inv: "inv_but {} s" using assms(1) by (simp_all add: tracks_def)
  note d = holdersD [OF hol]
  obtain s' where s': "sbind (unpin_frame E i) (\<lambda>_. sreturn ()) (release_latch i s) = (Ok (), s')"
      "inv_but {} s'" "view s' = view s" "hold s' = (hold s)(pid := unlatched (hold s pid))"
      "page_table s' = page_table s" "persistant_layer s' = persistant_layer s" "length (frames s') = length (frames s)"
    using drop_law [OF inv d(2)] d(3,4) by auto
  then have "holders H s'" using holders_drop [OF hol, of s'] assms(2) d(3) by simp
  then show ?thesis using s' assms(1) by (simp add: tracks_def)
qed

lemma wp_drop_read:
  assumes "trk h n v (add_mset (rguard pid i) H) s" and "\<And>s'. trk h n v H s' \<Longrightarrow> Q () s'"
  shows "wp h (Some (drop_read E (PageReadGuard i) s)) Q X"
  using trk_drop [OF assms(1)] assms(2) by (auto simp: wp_def)

lemma wp_drop_write:
  assumes "trk h n v (add_mset (wguard pid i) H) s" and "\<And>s'. trk h n v H s' \<Longrightarrow> Q () s'"
  shows "wp h (Some (drop_write E (PageWriteGuard i) s)) Q X"
  using trk_drop [OF assms(1)] assms(2) by (auto simp: wp_def)

text \<open>Changing a page through its guard.\<close>

lemma trk_update:
  assumes "trk h n v (add_mset (pid, i, l) H) s" and "v pid = Some p"
    and "op p = (r, p')" and "storable E p'" and "pg_id p' = pid"
  shows "\<exists>s'. write_deref_mut (PageWriteGuard i) op s = (r, s') \<and> trk h n (v(pid \<mapsto> p')) (add_mset (pid, i, l) H) s'"
proof -
  have hol: "holders (add_mset (pid, i, l) H) s" and inv: "inv_but {} s" using assms(1) by (simp_all add: tracks_def)
  note d = holdersD [OF hol]
  obtain s' where s': "write_deref_mut (PageWriteGuard i) op s = (r, s')" "inv_but {} s'"
      "view s' = (view s)(pid \<mapsto> p')" "hold s' = hold s" "page_table s' = page_table s"
      "persistant_layer s' = persistant_layer s" "length (frames s') = length (frames s)"
    using update_law [OF inv d(2) trk_view [OF assms(1,2)], of op r p'] assms(3-5) by blast
  have "keeps (v(pid \<mapsto> p')) (view s')" using assms(1) s'(3) by (auto simp: tracks_def keeps_def)
  moreover have "holders (add_mset (pid, i, l) H) s'" using hol s'(4,5) by (simp add: holders_def)
  moreover have "dom (page_table s') \<subseteq> dom (v(pid \<mapsto> p'))" using assms(1) s'(5) by (auto simp: tracks_def)
  ultimately show ?thesis using s' assms(1) by (simp add: tracks_def)
qed

lemma wp_deref_mut:
  assumes "trk h n v (add_mset (pid, i, l) H) s" and "v pid = Some p" and "op p = (r, p')"
    and "r \<noteq> Panic \<Longrightarrow> storable E p' \<and> pg_id p' = pid"
    and "\<And>s'. trk h n (v(pid \<mapsto> p')) (add_mset (pid, i, l) H) s' \<Longrightarrow> wp h (Some (r, s')) Q X" and "r = Panic \<Longrightarrow> \<not> h"
  shows "wp h (Some (write_deref_mut (PageWriteGuard i) op s)) Q X"
proof (cases "r = Panic")
  case True
  have "slot (frames s ! i) = Some p" by (rule trk_slot [OF assms(1,2)])
  moreover have "i < length (frames s)"
    using holdersD(2) [of pid i l H s] pool_inv_mapped(2) assms(1) by (auto simp: tracks_def)
  ultimately have "fst (write_deref_mut (PageWriteGuard i) op s) = Panic"
    using assms(3) True by (simp add: frame_update_def)
  then have "\<exists>s'. write_deref_mut (PageWriteGuard i) op s = (Panic, s')" by (metis prod.collapse)
  then show ?thesis using assms(6) True by (auto simp: wp_def simp del: write_deref_mut.simps)
next
  case False
  then obtain s' where "write_deref_mut (PageWriteGuard i) op s = (r, s')"
      "trk h n (v(pid \<mapsto> p')) (add_mset (pid, i, l) H) s'"
    using trk_update [of h n v pid i l H s p op r p'] assms(1-4) by blast
  then show ?thesis using assms(5) by (simp del: write_deref_mut.simps)
qed

text \<open>Creating a page.\<close>

lemma wp_new_page:
  assumes E: "varint_ok E" and tr: "trk h n v H s" and new: "v (pg_id page) = None" and ids: "pg_id page \<in> ids"
    and st: "storable E page" and room: "h \<longrightarrow> size H < n"
    and Q: "\<And>i s'. trk h n (v(pg_id page \<mapsto> page)) (add_mset (wguard (pg_id page) i) H) s' \<Longrightarrow> Q (PageWriteGuard i) s'"
    and X: "\<And>e s'. \<not> h \<Longrightarrow> trk h n v H s' \<Longrightarrow> X e s'"
  shows "wp h (Some (new_page E D V page s)) Q X"
proof -
  let ?pid = "pg_id page"
  have inv: "inv_but {} s" and keep: "keeps v (view s)" and dom: "dom (page_table s) \<subseteq> dom v"
    and hol: "holders H s" and len: "length (frames s) = n" and well: "h \<longrightarrow> well (persistant_layer s)"
    using tr by (simp_all add: tracks_def)
  have none: "page_table s ?pid = None" using dom new by (auto simp: dom_def)
  then have "hold s ?pid = Unlatched" by (simp add: hold_def)
  then have free: "?pid \<notin> held H" using hol unfolding holders_def by blast
  obtain r s' where f: "new_page E D V page s = (r, s')" by fastforce
  note law = new_page_law [OF E inv ids st f]
  have rm: "remaps {?pid} s s'" using law none by simp
  show ?thesis
  proof (cases r)
    case (Ok g)
    then obtain i where i: "g = PageWriteGuard i" "inv_but {} s'" "page_table s' ?pid = Some i"
        "hold s' = (hold s)(?pid := WriteLatched)" "keeps ((view s)(?pid \<mapsto> page)) (view s')" using law by auto
    have "holders (add_mset (wguard ?pid i) H) s'"
      by (rule holders_add [OF hol free rm _ i(4,3)]) simp_all
    moreover have "keeps (v(?pid \<mapsto> page)) (view s')"
      using keep i(5) by (auto simp: keeps_def)
    moreover have "dom (page_table s') \<subseteq> dom (v(?pid \<mapsto> page))"
    proof
      fix q assume "q \<in> dom (page_table s')"
      then have "q = ?pid \<or> q \<in> dom (page_table s)" using remaps_dom [OF rm, of q] by blast
      then show "q \<in> dom (v(?pid \<mapsto> page))" using dom by auto
    qed
    ultimately have "trk h n (v(?pid \<mapsto> page)) (add_mset (wguard ?pid i) H) s'"
      using i law len well by (simp add: tracks_def)
    then show ?thesis using Q f Ok i(1) by (simp add: wp_def)
  next
    case (Err e)
    then have inv': "inv_but {} s'" "keeps (view s) (view s')" "hold s' = hold s" "page_table s' ?pid = None"
      using law none by auto
    have "holders H s'" by (rule holders_keep [OF hol rm inv'(3)]) (simp add: inv'(4) none)
    moreover have "dom (page_table s') \<subseteq> dom v"
    proof
      fix q assume "q \<in> dom (page_table s')"
      then have "q \<in> dom (page_table s)" using remaps_dom [OF rm, of q] inv'(4) by auto
      then show "q \<in> dom v" using dom by auto
    qed
    moreover have "\<not> h"
    proof
      assume h: h
      then have "\<forall>i < length (frames s). is_pinned (frames s ! i)" using law Err none well by auto
      then show False using unpinned_frame [OF inv hol] room h len by blast
    qed
    ultimately have "trk h n v H s'" "\<not> h" using inv' keep keeps_trans law len by (auto simp: tracks_def)
    then show ?thesis using X f Err by (simp add: wp_def)
  next
    case Panic
    then show ?thesis using law by simp
  qed
qed

end

end
