(* ===== verification/Table_Pages.thy ===== *)
theory Table_Pages
  imports Guarded
begin

text \<open>
  The part of \<^verbatim>\<open>src/table/mod.rs\<close> the tree is built on, with \<^verbatim>\<open>src/table/errors.rs\<close> and
  \<^verbatim>\<open>src/btree/error.rs\<close>: a table is an identifier of a meta page and what was read from it; it hands
  out and takes back pages, and keeps the identifier of the root.
\<close>

section \<open>Errors\<close>

datatype btree_error = BTreeBpm bpm_error | BTreePage page_error

datatype table_error =
    TableBpm bpm_error
  | TablePage page_error
  | TableSchema schema_error
  | TableBTree btree_error
  | TableAlreadyExists table_id
  | TableUnexpected

section \<open>Through a guard\<close>

text \<open>A method that takes \<^verbatim>\<open>&self\<close>, called on a guard (\<^verbatim>\<open>Deref\<close>).\<close>

fun peek_read :: "page_read_guard \<Rightarrow> (page \<Rightarrow> ('a, 'x) result) \<Rightarrow> (('d, 'e) bpm, 'a, 'x) call" where
  "peek_read g op s = (rbind (read_deref g s) op, s)"

fun peek_write :: "page_write_guard \<Rightarrow> (page \<Rightarrow> ('a, 'x) result) \<Rightarrow> (('d, 'e) bpm, 'a, 'x) call" where
  "peek_write g op s = (rbind (write_deref g s) op, s)"

text \<open>A method that takes \<^verbatim>\<open>&mut self\<close> and another page as \<^verbatim>\<open>&mut\<close>, both guarded.\<close>

definition write_deref_mut2 ::
  "page_write_guard \<Rightarrow> page_write_guard \<Rightarrow> (page \<Rightarrow> page \<Rightarrow> ('a, 'x) result \<times> page \<times> page) \<Rightarrow>
   (('d, 'e) bpm, 'a, 'x) call" where
  "write_deref_mut2 g1 g2 op s =
     (case (write_deref g1 s :: (page, unit) result, write_deref g2 s :: (page, unit) result) of
       (Ok p, Ok q) \<Rightarrow>
         (case op p q of (r, p', q') \<Rightarrow>
           (case (write_deref_mut g1 (\<lambda>_. (r, p')) s) of (r1, s1) \<Rightarrow>
             write_deref_mut g2 (\<lambda>_. (r1, q')) s1))
     | _ \<Rightarrow> (Panic, s))"

text \<open>\<^verbatim>\<open>*guard = page\<close> and \<^verbatim>\<open>guard.replace(page)\<close>.\<close>

definition overwrite :: "page_write_guard \<Rightarrow> page \<Rightarrow> (('d, 'e) bpm, unit, 'x) call" where
  "overwrite g page = write_deref_mut g (\<lambda>p. (Ok (), page_replace p page))"

lemmas guard_simps = peek_read.simps peek_write.simps read_deref.simps write_deref.simps

declare peek_read.simps [simp del] peek_write.simps [simp del] read_deref.simps [simp del] write_deref.simps [simp del]
  write_deref_mut.simps [simp del] drop_read.simps [simp del] drop_write.simps [simp del]

section \<open>The table\<close>

record table =
  meta_id :: page_id
  tbl_schema :: schema
  tbl_name :: rstring

definition table_open ::
  "env \<Rightarrow> 'd disk_manager \<Rightarrow> 'e find_victim \<Rightarrow> table_id \<Rightarrow> (('d, 'e) bpm, table, table_error) call" where
  "table_open E D V tid =
     sbind (lift_err TableBpm (fetch_read E D V (PageId tid 0))) (\<lambda>guard.
     then_drop
       (lift_err TablePage
         (sbind (peek_read guard (\<lambda>p. Ok (pg_id p))) (\<lambda>meta.
          sbind (peek_read guard meta_get_schema) (\<lambda>schema.
          sbind (peek_read guard meta_get_table_name) (\<lambda>name.
            sreturn \<lparr>meta_id = meta, tbl_schema = schema, tbl_name = name\<rparr>)))))
       (drop_read E guard))"

definition table_close :: "table \<Rightarrow> (('d, 'e) bpm, unit, table_error) call" where
  "table_close tbl = sreturn ()"

text \<open>A statement \<^verbatim>\<open>self.bpm.fetch_read(self.meta_id)?.getter()?\<close>.\<close>

definition read_meta ::
  "env \<Rightarrow> 'd disk_manager \<Rightarrow> 'e find_victim \<Rightarrow> table \<Rightarrow> (page \<Rightarrow> ('a, page_error) result) \<Rightarrow>
   (('d, 'e) bpm, 'a, table_error) call" where
  "read_meta E D V tbl getter =
     sbind (lift_err TableBpm (fetch_read E D V (meta_id tbl))) (\<lambda>guard.
       then_drop (lift_err TablePage (peek_read guard getter)) (drop_read E guard))"

definition root_id ::
  "env \<Rightarrow> 'd disk_manager \<Rightarrow> 'e find_victim \<Rightarrow> table \<Rightarrow> (('d, 'e) bpm, page_id, table_error) call" where
  "root_id E D V tbl = read_meta E D V tbl meta_get_root_id"

definition set_root_id ::
  "env \<Rightarrow> 'd disk_manager \<Rightarrow> 'e find_victim \<Rightarrow> table \<Rightarrow> page_id \<Rightarrow>
   (('d, 'e) bpm, unit, table_error) call" where
  "set_root_id E D V tbl pid =
     sbind (lift_err TableBpm (fetch_write E D V (meta_id tbl))) (\<lambda>guard.
       then_drop (lift_err TablePage (write_deref_mut guard (\<lambda>p. meta_set_root_id p pid)))
         (drop_write E guard))"

definition table_size ::
  "env \<Rightarrow> 'd disk_manager \<Rightarrow> 'e find_victim \<Rightarrow> table \<Rightarrow> (('d, 'e) bpm, nat, table_error) call" where
  "table_size E D V tbl =
     sbind (read_meta E D V tbl meta_get_page_count) (\<lambda>count. sreturn (count * PAGE_SIZE))"

definition allocate ::
  "env \<Rightarrow> 'd disk_manager \<Rightarrow> 'e find_victim \<Rightarrow> table \<Rightarrow>
   (('d, 'e) bpm, page_write_guard, table_error) call" where
  "allocate E D V tbl =
     sbind (lift_err TableBpm (fetch_write E D V (meta_id tbl))) (\<lambda>meta_guard.
     then_drop
       (sbind (lift_err TablePage (peek_write meta_guard meta_get_free_list_head)) (\<lambda>head.
         case head of
           Some free_list_head \<Rightarrow>
             sbind (lift_err TableBpm (fetch_write E D V free_list_head)) (\<lambda>free_guard.
             else_drop
               (sbind (peek_write free_guard Ok) (\<lambda>free_page.
                sbind (lift_err TablePage
                    (write_deref_mut meta_guard (\<lambda>p. free_list_pop E p free_page))) (\<lambda>_.
                sbind (overwrite free_guard (empty_page (pg_id free_page) (Free None))) (\<lambda>_.
                  sreturn free_guard))))
               (drop_write E free_guard))
         | None \<Rightarrow>
             sbind (lift_err TablePage (write_deref_mut meta_guard (meta_bump_page_count E))) (\<lambda>new_free_id.
               lift_err TableBpm (new_page E D V (empty_page new_free_id (Free None))))))
       (drop_write E meta_guard))"

text \<open>\<^verbatim>\<open>free\<close> owns the guard it is given and drops it.\<close>

definition table_free ::
  "env \<Rightarrow> 'd disk_manager \<Rightarrow> 'e find_victim \<Rightarrow> table \<Rightarrow> page_write_guard \<Rightarrow>
   (('d, 'e) bpm, unit, table_error) call" where
  "table_free E D V tbl page =
     then_drop
       (sbind (lift_err TableBpm (fetch_write E D V (meta_id tbl))) (\<lambda>meta_guard.
         then_drop
           (lift_err TablePage (write_deref_mut2 meta_guard page (free_list_push E)))
           (drop_write E meta_guard)))
       (drop_write E page)"

end
