(* ===== verification/BTree.thy ===== *)
theory BTree
  imports Table_Pages Page_Ops
begin

text \<open>
  \<^verbatim>\<open>src/btree/tree.rs\<close> and \<^verbatim>\<open>src/btree/sibling.rs\<close>: the tree over the buffer pool. Every operation is
  translated with the guards it takes, keeps and drops. A \<^verbatim>\<open>Vec\<close> of ancestors is a list with the
  last element first; \<^verbatim>\<open>BTree\<close> is the table it refers to.
\<close>

section \<open>Siblings (btree/sibling.rs)\<close>

datatype side = LeftSide | RightSide

record sibling =
  sib_id :: page_id
  separator :: key
  sib_side :: side

text \<open>The \<^verbatim>\<open>expect\<close>s are results around the option the source returns.\<close>

definition pick_sibling :: "page \<Rightarrow> child_index \<Rightarrow> (sibling option, 'x) result" where
  "pick_sibling parent idx =
     (case child_at (body parent) (right_sibling idx) of
       Some sid \<Rightarrow>
         rbind (expect (key_at (body parent) (right_separator idx))) (\<lambda>k.
           Ok (Some \<lparr>sib_id = sid, separator = k, sib_side = RightSide\<rparr>))
     | None \<Rightarrow>
         (case Option.bind (left_sibling idx) (child_at (body parent)) of
           None \<Rightarrow> Ok None
         | Some sid \<Rightarrow>
             (case left_separator idx of
               None \<Rightarrow> Ok None
             | Some ki \<Rightarrow>
                 rbind (expect (key_at (body parent) ki)) (\<lambda>k.
                   Ok (Some \<lparr>sib_id = sid, separator = k, sib_side = LeftSide\<rparr>)))))"

section \<open>The root\<close>

text \<open>The loop repeats until the root has not changed while its latch was waited for.\<close>

definition get_root_write ::
  "env \<Rightarrow> 'd disk_manager \<Rightarrow> 'e find_victim \<Rightarrow> table \<Rightarrow> (('d, 'e) bpm, page_write_guard, btree_error) proc" where
  "get_root_write E D V tbl =
     loop (\<lambda>_::unit.
       sbind (sexpect (root_id E D V tbl)) (\<lambda>rid.
       sbind (lift_err BTreeBpm (fetch_write E D V rid)) (\<lambda>guard.
       sbind (sexpect (root_id E D V tbl)) (\<lambda>rid'.
         if rid' = rid then sreturn (Inr guard)
         else sbind (lift_err BTreeBpm (drop_write E guard)) (\<lambda>_. sreturn (Inl ())))))) ()"

definition get_root_read ::
  "env \<Rightarrow> 'd disk_manager \<Rightarrow> 'e find_victim \<Rightarrow> table \<Rightarrow> (('d, 'e) bpm, page_read_guard, btree_error) proc" where
  "get_root_read E D V tbl =
     loop (\<lambda>_::unit.
       sbind (sexpect (root_id E D V tbl)) (\<lambda>rid.
       sbind (lift_err BTreeBpm (fetch_read E D V rid)) (\<lambda>guard.
       sbind (sexpect (root_id E D V tbl)) (\<lambda>rid'.
         if rid' = rid then sreturn (Inr guard)
         else sbind (lift_err BTreeBpm (drop_read E guard)) (\<lambda>_. sreturn (Inl ())))))) ()"

section \<open>Lookup\<close>

text \<open>One turn of the loop that descends to a leaf; assigning \<^verbatim>\<open>curr_page\<close> drops the old guard.\<close>

definition get_step ::
  "env \<Rightarrow> 'd disk_manager \<Rightarrow> 'e find_victim \<Rightarrow> key \<Rightarrow> page_read_guard \<Rightarrow>
   (('d, 'e) bpm, page_read_guard + page_read_guard, btree_error) call" where
  "get_step E D V key curr_page =
     sbind (peek_read curr_page Ok) (\<lambda>p.
       if \<not> is_internal p then sreturn (Inr curr_page)
       else sbind (slift (map_err BTreePage (find_child p key))) (\<lambda>ch.
         case ch of
           None \<Rightarrow> sreturn (Inr curr_page)
         | Some ch \<Rightarrow>
             then_drop
               (sbind (lift_err BTreeBpm (fetch_read E D V ch)) (\<lambda>next_page. sreturn (Inl next_page)))
               (drop_read E curr_page)))"

definition btree_get ::
  "env \<Rightarrow> 'd disk_manager \<Rightarrow> 'e find_victim \<Rightarrow> table \<Rightarrow> key \<Rightarrow> (('d, 'e) bpm, row option, btree_error) proc" where
  "btree_get E D V tbl key =
     pbind (get_root_read E D V tbl) (\<lambda>root.
     pbind (loop (get_step E D V key) root) (\<lambda>leaf.
       pcall (then_drop (lift_err BTreePage (peek_read leaf (\<lambda>p. leaf_get p key))) (drop_read E leaf))))"

section \<open>Ranges\<close>

datatype bound = Unbounded | Included key | Excluded key

text \<open>\<^verbatim>\<open>cmp_key\<close> panics on a row without a valid key.\<close>

fun before_start :: "row \<Rightarrow> bound \<Rightarrow> (bool, 'x) result" where
  "before_start row Unbounded = Ok False"
| "before_start row (Included k) = rbind (expect (cmp_key row k)) (\<lambda>c. Ok (c = Less))"
| "before_start row (Excluded k) = rbind (expect (cmp_key row k)) (\<lambda>c. Ok (c \<noteq> Greater))"

fun past_end :: "row \<Rightarrow> bound \<Rightarrow> (bool, 'x) result" where
  "past_end row Unbounded = Ok False"
| "past_end row (Included k) = rbind (expect (cmp_key row k)) (\<lambda>c. Ok (c = Greater))"
| "past_end row (Excluded k) = rbind (expect (cmp_key row k)) (\<lambda>c. Ok (c \<noteq> Less))"

definition range_step ::
  "env \<Rightarrow> 'd disk_manager \<Rightarrow> 'e find_victim \<Rightarrow> bound \<Rightarrow> page_read_guard \<Rightarrow>
   (('d, 'e) bpm, page_read_guard + page_read_guard, btree_error) call" where
  "range_step E D V start curr_page =
     sbind (peek_read curr_page Ok) (\<lambda>p.
       if \<not> is_internal p then sreturn (Inr curr_page)
       else
         sbind (slift
             (case start of
               Unbounded \<Rightarrow> rbind (expect (page_children (body p))) (\<lambda>cs. expect (vec_first cs))
             | Included k \<Rightarrow> rbind (map_err BTreePage (find_child p k)) expect
             | Excluded k \<Rightarrow> rbind (map_err BTreePage (find_child p k)) expect)) (\<lambda>child.
         then_drop
           (sbind (lift_err BTreeBpm (fetch_read E D V child)) (\<lambda>next_page. sreturn (Inl next_page)))
           (drop_read E curr_page)))"

text \<open>The rows of one leaf: the result so far, and whether the end of the range was passed.\<close>

fun scan_rows ::
  "bound \<Rightarrow> bound \<Rightarrow> (row \<Rightarrow> bool) \<Rightarrow> row list \<Rightarrow> row list \<Rightarrow> (row list \<times> bool, 'x) result" where
  "scan_rows start stop filter_fn [] acc = Ok (acc, False)"
| "scan_rows start stop filter_fn (row # rows) acc =
     rbind (before_start row start) (\<lambda>before.
       if before then scan_rows start stop filter_fn rows acc
       else rbind (past_end row stop) (\<lambda>past.
         if past then Ok (acc, True)
         else scan_rows start stop filter_fn rows (if filter_fn row then acc @ [row] else acc)))"

definition leaves_step ::
  "env \<Rightarrow> 'd disk_manager \<Rightarrow> 'e find_victim \<Rightarrow> bound \<Rightarrow> bound \<Rightarrow> (row \<Rightarrow> bool) \<Rightarrow>
   page_read_guard \<times> row list \<Rightarrow>
   (('d, 'e) bpm, page_read_guard \<times> row list + row list, btree_error) call" where
  "leaves_step E D V start stop filter_fn = (\<lambda>(curr_page, acc).
     sbind (peek_read curr_page Ok) (\<lambda>p.
     sbind (slift (rbind (expect (page_records (body p))) (\<lambda>rs. scan_rows start stop filter_fn rs acc)))
       (\<lambda>(acc', past).
         then_drop
           (if past then sreturn (Inr acc')
            else sbind (slift (map_err BTreePage (page_next (body p)))) (\<lambda>nxt.
              case nxt of
                None \<Rightarrow> sreturn (Inr acc')
              | Some n \<Rightarrow>
                  sbind (lift_err BTreeBpm (fetch_read E D V n)) (\<lambda>next_page. sreturn (Inl (next_page, acc')))))
           (drop_read E curr_page))))"

definition get_range ::
  "env \<Rightarrow> 'd disk_manager \<Rightarrow> 'e find_victim \<Rightarrow> table \<Rightarrow> bound \<Rightarrow> bound \<Rightarrow> (row \<Rightarrow> bool) \<Rightarrow>
   (('d, 'e) bpm, row list, btree_error) proc" where
  "get_range E D V tbl start stop filter_fn =
     pbind (get_root_read E D V tbl) (\<lambda>root.
     pbind (loop (range_step E D V start) root) (\<lambda>leaf.
       loop (leaves_step E D V start stop filter_fn) (leaf, [])))"

definition btree_get_all ::
  "env \<Rightarrow> 'd disk_manager \<Rightarrow> 'e find_victim \<Rightarrow> table \<Rightarrow> (row \<Rightarrow> bool) \<Rightarrow>
   (('d, 'e) bpm, row list, btree_error) proc" where
  "btree_get_all E D V tbl filter_fn = get_range E D V tbl Unbounded Unbounded filter_fn"

section \<open>Insertion\<close>

definition drop_all :: "env \<Rightarrow> page_write_guard list \<Rightarrow> (('d, 'e) bpm, unit, bpm_error) call" where
  "drop_all E guards = each (drop_write E) guards"

definition insert_step ::
  "env \<Rightarrow> 'd disk_manager \<Rightarrow> 'e find_victim \<Rightarrow> row \<Rightarrow> key \<Rightarrow> page_write_guard \<times> page_write_guard list \<Rightarrow>
   (('d, 'e) bpm,
    page_write_guard \<times> page_write_guard list + page_write_guard \<times> page_write_guard list, btree_error) call" where
  "insert_step E D V row key = (\<lambda>(curr_page, ancestors).
     sbind (peek_write curr_page Ok) (\<lambda>p.
       if \<not> is_internal p then sreturn (Inr (curr_page, ancestors))
       else sbind (slift (map_err BTreePage (find_child p key))) (\<lambda>ch.
         case ch of
           None \<Rightarrow> sreturn (Inr (curr_page, ancestors))
         | Some ch \<Rightarrow>
             sbind (else_drop (lift_err BTreeBpm (fetch_write E D V ch)) (drop_all E (rev (curr_page # ancestors)))) (\<lambda>child.
             sbind (peek_write child Ok) (\<lambda>q.
               if is_split_safe E q \<or> can_insert E q row then
                 sbind (lift_err BTreeBpm (drop_all E (rev (curr_page # ancestors)))) (\<lambda>_. sreturn (Inl (child, [])))
               else sreturn (Inl (child, curr_page # ancestors)))))))"

text \<open>
  One turn of the loop of \<^verbatim>\<open>split_and_insert\<close>: a new root, or the separator goes into the parent, or the
  parent is split. What it returns at the end are the ancestors that are left.
\<close>

definition split_step ::
  "env \<Rightarrow> 'd disk_manager \<Rightarrow> 'e find_victim \<Rightarrow> table \<Rightarrow> page_id \<times> key \<times> page_id \<times> page_write_guard list \<Rightarrow>
   (('d, 'e) bpm,
    page_id \<times> key \<times> page_id \<times> page_write_guard list + page_write_guard list, btree_error) call" where
  "split_step E D V tbl = (\<lambda>(left_id, sep, right_id, ancestors).
     case ancestors of
       [] \<Rightarrow>
         sbind (sexpect (allocate E D V tbl)) (\<lambda>root_guard.
         then_drop
           (sbind (peek_write root_guard (\<lambda>p. Ok (pg_id p))) (\<lambda>rid.
            sbind (slift (map_err BTreePage (new_root E rid left_id sep right_id))) (\<lambda>root.
            sbind (overwrite root_guard root) (\<lambda>_.
            sbind (peek_write root_guard (\<lambda>p. Ok (pg_id p))) (\<lambda>rid.
            sbind (sexpect (set_root_id E D V tbl rid)) (\<lambda>_.
              sreturn (Inr [])))))))
           (drop_write E root_guard))
     | parent # rest \<Rightarrow>
         else_drop
           (sbind (peek_write parent Ok) (\<lambda>p.
              if can_insert_separator E p sep then
                then_drop
                  (sbind (lift_err BTreePage (write_deref_mut parent (\<lambda>p. internal_insert E p sep right_id))) (\<lambda>_.
                     sreturn (Inr rest)))
                  (drop_write E parent)
              else
                then_drop
                  (sbind (sexpect (allocate E D V tbl)) (\<lambda>new_right.
                   then_drop
                     (sbind (peek_write new_right (\<lambda>p. Ok (pg_id p))) (\<lambda>new_id.
                      sbind (lift_err BTreePage (write_deref_mut parent (\<lambda>p. split_page E p new_id)))
                        (\<lambda>(promoted, page).
                      sbind (overwrite new_right page) (\<lambda>_.
                      sbind (lift_err BTreePage
                        (write_deref_mut (if sep > promoted then new_right else parent)
                          (\<lambda>p. internal_insert E p sep right_id))) (\<lambda>_.
                      sbind (peek_write parent (\<lambda>p. Ok (pg_id p))) (\<lambda>left_id'.
                      sbind (peek_write new_right (\<lambda>p. Ok (pg_id p))) (\<lambda>right_id'.
                        sreturn (Inl (left_id', promoted, right_id', rest)))))))))
                     (drop_write E new_right)))
                  (drop_write E parent)))
           (drop_all E (rev rest)))"

definition split_and_insert ::
  "env \<Rightarrow> 'd disk_manager \<Rightarrow> 'e find_victim \<Rightarrow> table \<Rightarrow> page_write_guard \<Rightarrow> validated_row \<Rightarrow>
   page_write_guard list \<Rightarrow> (('d, 'e) bpm, unit, btree_error) proc" where
  "split_and_insert E D V tbl page row ancestors =
     pthen_drop
       (pbind (pcall (sexpect (allocate E D V tbl))) (\<lambda>right.
        pthen_drop
          (pbind (pcall
             (else_drop
               (sbind (peek_write right (\<lambda>p. Ok (pg_id p))) (\<lambda>new_id.
                sbind (lift_err BTreePage (write_deref_mut page (\<lambda>p. split_page E p new_id))) (\<lambda>(sep, new_page).
                sbind (overwrite right new_page) (\<lambda>_.
                sbind (lift_err BTreePage (peek_write right (\<lambda>p. page_next (body p)))) (\<lambda>nxt.
                sbind (peek_write right (\<lambda>p. Ok (pg_id p))) (\<lambda>right_id.
                sbind
                  (case nxt of
                    None \<Rightarrow> sreturn ()
                  | Some n \<Rightarrow>
                      sbind (lift_err BTreeBpm (fetch_write E D V n)) (\<lambda>neighbour.
                        then_drop
                          (lift_err BTreePage (write_deref_mut neighbour (\<lambda>p. set_prev p (Some right_id))))
                          (drop_write E neighbour))) (\<lambda>_.
                sbind (peek_write page (\<lambda>p. Ok (pg_id p))) (\<lambda>left_id.
                sbind (slift (map_err BTreePage (primary_key row))) (\<lambda>key.
                sbind (lift_err BTreePage
                  (write_deref_mut (if key \<le> sep then page else right) (\<lambda>p. leaf_insert E p row))) (\<lambda>_.
                  sreturn (left_id, sep, right_id)))))))))))
               (drop_all E (rev ancestors))))
             (\<lambda>(left_id, sep, right_id).
               pbind (loop (split_step E D V tbl) (left_id, sep, right_id, ancestors)) (\<lambda>rest.
                 pcall (lift_err BTreeBpm (drop_all E (rev rest))))))
          (drop_write E right)))
       (drop_write E page)"

definition btree_insert ::
  "env \<Rightarrow> 'd disk_manager \<Rightarrow> 'e find_victim \<Rightarrow> table \<Rightarrow> validated_row \<Rightarrow>
   (('d, 'e) bpm, unit, btree_error) proc" where
  "btree_insert E D V tbl vr =
     pbind (get_root_write E D V tbl) (\<lambda>root.
     pbind (pcall (else_drop (slift (primary_key vr)) (drop_write E root))) (\<lambda>key.
     pbind (loop (insert_step E D V (validated_row_as_ref vr) key) (root, [])) (\<lambda>(curr_page, ancestors).
     pbind (pcall (peek_write curr_page Ok)) (\<lambda>p.
       if can_insert E p (validated_row_as_ref vr) then
         pcall (then_drop (then_drop
           (lift_err BTreePage (write_deref_mut curr_page (\<lambda>p. leaf_insert E p vr)))
           (drop_all E (rev ancestors))) (drop_write E curr_page))
       else
         pbind (pcall (else_drop (else_drop
           (sbind (slift (map_err BTreePage (leaf_get p key))) (\<lambda>found.
             if found \<noteq> None then sfail (BTreePage DuplicateKey) else sreturn ()))
           (drop_all E (rev ancestors))) (drop_write E curr_page))) (\<lambda>_.
           split_and_insert E D V tbl curr_page vr ancestors)))))"

section \<open>Deletion\<close>

definition drop_ancestors :: "env \<Rightarrow> (page_write_guard \<times> child_index) list \<Rightarrow> (('d, 'e) bpm, unit, bpm_error) call" where
  "drop_ancestors E ancestors = drop_all E (rev (map fst ancestors))"

definition delete_step ::
  "env \<Rightarrow> 'd disk_manager \<Rightarrow> 'e find_victim \<Rightarrow> key \<Rightarrow> page_write_guard \<times> (page_write_guard \<times> child_index) list \<Rightarrow>
   (('d, 'e) bpm,
    page_write_guard \<times> (page_write_guard \<times> child_index) list +
    page_write_guard \<times> (page_write_guard \<times> child_index) list, btree_error) call" where
  "delete_step E D V key = (\<lambda>(curr_page, ancestors).
     sbind (peek_write curr_page Ok) (\<lambda>p.
       if \<not> is_internal p then sreturn (Inr (curr_page, ancestors))
       else
         sbind (slift (rbind (map_err BTreePage (find_child_index p key)) expect)) (\<lambda>(idx, child_id).
         sbind
           (if is_delete_safe E p then
              sbind (lift_err BTreeBpm (drop_ancestors E ancestors)) (\<lambda>_. sreturn [])
            else sreturn ancestors) (\<lambda>kept.
         sbind (else_drop (lift_err BTreeBpm (fetch_write E D V child_id))
             (drop_ancestors E ((curr_page, idx) # kept))) (\<lambda>child.
           sreturn (Inl (child, (curr_page, idx) # kept)))))))"

text \<open>The branch of \<^verbatim>\<open>rebalance\<close> that merges two siblings; it consumes both guards.\<close>

definition merge_siblings ::
  "env \<Rightarrow> 'd disk_manager \<Rightarrow> 'e find_victim \<Rightarrow> table \<Rightarrow> page_write_guard \<Rightarrow> key \<Rightarrow>
   page_write_guard \<Rightarrow> page_write_guard \<Rightarrow> (('d, 'e) bpm, unit, btree_error) call" where
  "merge_siblings E D V tbl parent sep left right =
     then_drop
       (sbind
         (else_drop
           (sbind (lift_err BTreePage (write_deref_mut2 left right (\<lambda>l r. merge_from_right E l r sep))) (\<lambda>_.
            sbind (lift_err BTreePage (write_deref_mut parent (\<lambda>p. internal_remove E p sep))) (\<lambda>removed.
            sbind (peek_write right (\<lambda>p. Ok (pg_id p))) (\<lambda>right_id.
            sbind
              (if debug_assertions E \<and> map_option snd removed \<noteq> Some right_id then spanic else sreturn ()) (\<lambda>_.
            sbind (peek_write left Ok) (\<lambda>l.
              if \<not> is_leaf l then sreturn ()
              else sbind (slift (map_err BTreePage (page_next (body l)))) (\<lambda>nxt.
                case nxt of
                  None \<Rightarrow> sreturn ()
                | Some n \<Rightarrow>
                    sbind (lift_err BTreeBpm (fetch_write E D V n)) (\<lambda>neighbour.
                    sbind (peek_write left (\<lambda>p. Ok (pg_id p))) (\<lambda>left_id.
                      then_drop
                        (lift_err BTreePage (write_deref_mut neighbour (\<lambda>p. set_prev p (Some left_id))))
                        (drop_write E neighbour))))))))))
           (drop_write E right)) (\<lambda>_.
          sexpect (table_free E D V tbl right)))
       (drop_write E left)"

text \<open>The branch that borrows; it consumes both guards as well.\<close>

definition borrow_siblings ::
  "env \<Rightarrow> page_write_guard \<Rightarrow> sibling \<Rightarrow> page_write_guard \<Rightarrow> page_write_guard \<Rightarrow>
   (('d, 'e) bpm, unit, btree_error) call" where
  "borrow_siblings E parent sib left right =
     then_drop (then_drop
       (sbind
         (lift_err BTreePage
           (case sib_side sib of
             RightSide \<Rightarrow> write_deref_mut2 left right (\<lambda>l r. bulk_borrow_from_right E l r (separator sib))
           | LeftSide \<Rightarrow> write_deref_mut2 right left (\<lambda>r l. bulk_borrow_from_left E r l (separator sib)))) (\<lambda>new_sep.
          lift_err BTreePage (write_deref_mut parent (\<lambda>p. internal_replace_key E p (separator sib) new_sep))))
       (drop_write E right)) (drop_write E left)"

text \<open>The page and its sibling, named left and right.\<close>

definition fetch_pair ::
  "env \<Rightarrow> 'd disk_manager \<Rightarrow> 'e find_victim \<Rightarrow> sibling \<Rightarrow> page_write_guard \<Rightarrow>
   (('d, 'e) bpm, page_write_guard \<times> page_write_guard, btree_error) call" where
  "fetch_pair E D V sib page =
     (case sib_side sib of
       RightSide \<Rightarrow>
         sbind (else_drop (lift_err BTreeBpm (fetch_write E D V (sib_id sib))) (drop_write E page)) (\<lambda>right.
           sreturn (page, right))
     | LeftSide \<Rightarrow>
         sbind (peek_write page (\<lambda>p. Ok (pg_id p))) (\<lambda>right_id.
         sbind (lift_err BTreeBpm (drop_write E page)) (\<lambda>_.
         sbind (lift_err BTreeBpm (fetch_write E D V (sib_id sib))) (\<lambda>left.
         sbind (else_drop (lift_err BTreeBpm (fetch_write E D V right_id)) (drop_write E left)) (\<lambda>right.
           sreturn (left, right))))))"

text \<open>
  One turn of the loop of \<^verbatim>\<open>rebalance\<close>. \<open>Inr None\<close> is the early return, \<open>Inr (Some ..)\<close> the end of the loop.
\<close>

definition rebalance_step ::
  "env \<Rightarrow> 'd disk_manager \<Rightarrow> 'e find_victim \<Rightarrow> table \<Rightarrow>
   page_write_guard \<times> (page_write_guard \<times> child_index) list \<Rightarrow>
   (('d, 'e) bpm,
    page_write_guard \<times> (page_write_guard \<times> child_index) list +
    (page_write_guard \<times> (page_write_guard \<times> child_index) list) option, btree_error) call" where
  "rebalance_step E D V tbl = (\<lambda>(page, ancestors).
     sbind (peek_write page Ok) (\<lambda>p.
       if \<not> is_underfull E p then sreturn (Inr (Some (page, ancestors)))
       else case ancestors of
         [] \<Rightarrow> sreturn (Inr (Some (page, [])))
       | (parent, idx) # rest \<Rightarrow>
           else_drop (else_drop
             (sbind (peek_write parent (\<lambda>p. rbind (pick_sibling p idx) expect)) (\<lambda>sib.
              sbind (fetch_pair E D V sib page) (\<lambda>(left, right).
              sbind (peek_write left Ok) (\<lambda>l.
              sbind (peek_write right Ok) (\<lambda>r.
                if can_merge_with E l r (separator sib) then
                  sbind (merge_siblings E D V tbl parent (separator sib) left right) (\<lambda>_.
                    sreturn (Inl (parent, rest)))
                else
                  sbind (borrow_siblings E parent sib left right) (\<lambda>_.
                  sbind (lift_err BTreeBpm (drop_write E parent)) (\<lambda>_.
                  sbind (lift_err BTreeBpm (drop_ancestors E rest)) (\<lambda>_.
                    sreturn (Inr None)))))))))
             (drop_write E parent)) (drop_ancestors E rest)))"

text \<open>What follows the loop: a root without separators gives way to its only child.\<close>

definition collapse_root ::
  "env \<Rightarrow> 'd disk_manager \<Rightarrow> 'e find_victim \<Rightarrow> table \<Rightarrow> page_write_guard \<Rightarrow>
   (('d, 'e) bpm, unit, btree_error) call" where
  "collapse_root E D V tbl page =
     sbind (peek_write page Ok) (\<lambda>p.
     sbind (sexpect (root_id E D V tbl)) (\<lambda>rid.
       if pg_id p = rid \<and> is_internal p \<and> num_items p = 0 then
         sbind (slift (rbind (expect (page_children (body p))) (\<lambda>cs. expect (vec_first cs)))) (\<lambda>only_child.
         sbind (sexpect (set_root_id E D V tbl only_child)) (\<lambda>_.
         sbind (write_deref_mut page (\<lambda>p. (Ok (), make_free p))) (\<lambda>_.
           sexpect (table_free E D V tbl page))))
       else lift_err BTreeBpm (drop_write E page)))"

definition rebalance ::
  "env \<Rightarrow> 'd disk_manager \<Rightarrow> 'e find_victim \<Rightarrow> table \<Rightarrow> page_write_guard \<Rightarrow>
   (page_write_guard \<times> child_index) list \<Rightarrow> (('d, 'e) bpm, unit, btree_error) proc" where
  "rebalance E D V tbl page ancestors =
     pbind (loop (rebalance_step E D V tbl) (page, ancestors)) (\<lambda>out.
       case out of
         None \<Rightarrow> pcall (sreturn ())
       | Some (page, rest) \<Rightarrow>
           pcall (then_drop (collapse_root E D V tbl page) (drop_ancestors E rest)))"

definition btree_delete ::
  "env \<Rightarrow> 'd disk_manager \<Rightarrow> 'e find_victim \<Rightarrow> table \<Rightarrow> key \<Rightarrow>
   (('d, 'e) bpm, row option, btree_error) proc" where
  "btree_delete E D V tbl key =
     pbind (get_root_write E D V tbl) (\<lambda>root.
     pbind (loop (delete_step E D V key) (root, [])) (\<lambda>(curr_page, ancestors).
     pbind (pcall (else_drop (else_drop
         (lift_err BTreePage (write_deref_mut curr_page (\<lambda>p. leaf_remove E p key)))
         (drop_ancestors E ancestors)) (drop_write E curr_page))) (\<lambda>removed.
       case removed of
         None \<Rightarrow>
           pcall (sbind (lift_err BTreeBpm (drop_ancestors E ancestors)) (\<lambda>_.
                  sbind (lift_err BTreeBpm (drop_write E curr_page)) (\<lambda>_. sreturn None)))
       | Some row \<Rightarrow>
           pbind (rebalance E D V tbl curr_page ancestors) (\<lambda>_. pcall (sreturn (Some row))))))"

end
