(* ===== verification/Table.thy ===== *)
theory Table
  imports BTree
begin

text \<open>
  The rest of \<^verbatim>\<open>src/table/mod.rs\<close>: a table is created, used through its tree, and packed by \<^verbatim>\<open>vacuum\<close>, which
  builds the pages of a new file bottom up and has the pool swap it in. \<open>check_space_accounting\<close> is the check that
  debug builds run. Converting typed text and printing are left out.
\<close>

section \<open>Accounting of the pages\<close>

text \<open>A \<^verbatim>\<open>HashSet\<close> is a set, the stack a list with the top first.\<close>

definition tree_walk_step ::
  "env \<Rightarrow> 'd disk_manager \<Rightarrow> 'e find_victim \<Rightarrow> page_id list \<times> page_id set \<Rightarrow>
   (('d, 'e) bpm, page_id list \<times> page_id set + page_id set, table_error) call" where
  "tree_walk_step E D V = (\<lambda>(child_stack, in_tree).
     case child_stack of
       [] \<Rightarrow> sreturn (Inr in_tree)
     | cid # rest \<Rightarrow>
         if cid \<in> in_tree then spanic
         else sbind (sexpect (fetch_read E D V cid)) (\<lambda>guard.
           then_drop
             (sbind (peek_read guard Ok) (\<lambda>p.
               sreturn (Inl (case page_children (body p) of None \<Rightarrow> rest | Some children \<Rightarrow> rev children @ rest,
                 insert cid in_tree))))
             (drop_read E guard)))"

definition free_walk_step ::
  "env \<Rightarrow> 'd disk_manager \<Rightarrow> 'e find_victim \<Rightarrow> page_id option \<times> page_id set \<Rightarrow>
   (('d, 'e) bpm, page_id option \<times> page_id set + page_id set, table_error) call" where
  "free_walk_step E D V = (\<lambda>(cur, on_free_list).
     case cur of
       None \<Rightarrow> sreturn (Inr on_free_list)
     | Some pid \<Rightarrow>
         if pid \<in> on_free_list then spanic
         else sbind (sexpect (fetch_read E D V pid)) (\<lambda>guard.
           then_drop
             (sbind (sexpect (peek_read guard free_next)) (\<lambda>nxt. sreturn (Inl (nxt, insert pid on_free_list))))
             (drop_read E guard)))"

definition check_space_accounting ::
  "env \<Rightarrow> 'd disk_manager \<Rightarrow> 'e find_victim \<Rightarrow> table \<Rightarrow> (('d, 'e) bpm, unit, table_error) proc" where
  "check_space_accounting E D V tbl =
     pbind (pcall (sexpect (read_meta E D V tbl meta_get_page_count))) (\<lambda>page_count.
     pbind (pcall (sexpect (root_id E D V tbl))) (\<lambda>rid.
     pbind (loop (tree_walk_step E D V) ([rid], {})) (\<lambda>in_tree.
     pbind (pcall (sexpect (read_meta E D V tbl meta_get_free_list_head))) (\<lambda>cur.
     pbind (loop (free_walk_step E D V) (cur, {})) (\<lambda>on_free_list.
       if in_tree \<inter> on_free_list \<noteq> {} then pcall spanic
       else if card in_tree + card on_free_list + 1 \<noteq> page_count then pcall spanic
       else pcall (sreturn ()))))))"

definition debug_check_space_accounting ::
  "env \<Rightarrow> 'd disk_manager \<Rightarrow> 'e find_victim \<Rightarrow> table \<Rightarrow> (('d, 'e) bpm, unit, table_error) proc" where
  "debug_check_space_accounting E D V tbl =
     (if debug_assertions E then check_space_accounting E D V tbl else pcall (sreturn ()))"

section \<open>Creation\<close>

text \<open>The \<^verbatim>\<open>match\<close> on \<^verbatim>\<open>bpm.fetch_read(meta_id)\<close>: only a page that is not in the file lets creation go on.\<close>

definition refuse_existing ::
  "env \<Rightarrow> 'd disk_manager \<Rightarrow> 'e find_victim \<Rightarrow> table_id \<Rightarrow> (('d, 'e) bpm, unit, table_error) call" where
  "refuse_existing E D V tid s =
     (case fetch_read E D V (PageId tid 0) s of
       (Ok guard, s') \<Rightarrow> then_drop (sfail (TableAlreadyExists tid)) (drop_read E guard) s'
     | (Err (BpmIo e), s') \<Rightarrow>
         if e = UnexpectedEof \<or> e = NotFound then (Ok (), s') else (Err (TableBpm (BpmIo e)), s')
     | (Err e, s') \<Rightarrow> (Err (TableBpm e), s')
     | (Panic, s') \<Rightarrow> (Panic, s'))"

definition table_create ::
  "env \<Rightarrow> 'd disk_manager \<Rightarrow> 'e find_victim \<Rightarrow> table_id \<Rightarrow> schema \<Rightarrow> rstring \<Rightarrow>
   (('d, 'e) bpm, table, table_error) proc" where
  "table_create E D V tid schema name =
     (let meta = PageId tid 0;
          root = PageId tid 1;
          meta_page = empty_page meta (Meta root 2 None schema name);
          leaf_root = empty_leaf root;
          tbl = \<lparr>meta_id = meta, tbl_schema = schema, tbl_name = name\<rparr>
      in
       pbind (pcall
         (sbind (refuse_existing E D V tid) (\<lambda>_.
          lift_err TableBpm
            (sbind (new_page E D V leaf_root) (\<lambda>g.
             sbind (drop_write E g) (\<lambda>_.
             sbind (new_page E D V meta_page) (\<lambda>g.
             sbind (drop_write E g) (\<lambda>_.
               flush_all E D)))))))) (\<lambda>_.
       pbind (debug_check_space_accounting E D V tbl) (\<lambda>_.
         pcall (sreturn tbl))))"

section \<open>Rows\<close>

definition table_insert ::
  "env \<Rightarrow> 'd disk_manager \<Rightarrow> 'e find_victim \<Rightarrow> table \<Rightarrow> row \<Rightarrow> (('d, 'e) bpm, unit, table_error) proc" where
  "table_insert E D V tbl row =
     pbind (pcall (slift (map_err TableSchema (validate_row E (tbl_schema tbl) row)))) (\<lambda>vr.
       plift_err TableBTree (btree_insert E D V tbl vr))"

definition table_delete ::
  "env \<Rightarrow> 'd disk_manager \<Rightarrow> 'e find_victim \<Rightarrow> table \<Rightarrow> key \<Rightarrow>
   (('d, 'e) bpm, row option, table_error) proc" where
  "table_delete E D V tbl key = plift_err TableBTree (btree_delete E D V tbl key)"

definition table_get ::
  "env \<Rightarrow> 'd disk_manager \<Rightarrow> 'e find_victim \<Rightarrow> table \<Rightarrow> key \<Rightarrow>
   (('d, 'e) bpm, row option, table_error) proc" where
  "table_get E D V tbl key = plift_err TableBTree (btree_get E D V tbl key)"

definition table_get_all ::
  "env \<Rightarrow> 'd disk_manager \<Rightarrow> 'e find_victim \<Rightarrow> table \<Rightarrow> (row \<Rightarrow> bool) \<Rightarrow>
   (('d, 'e) bpm, row list, table_error) proc" where
  "table_get_all E D V tbl filter_fn = plift_err TableBTree (btree_get_all E D V tbl filter_fn)"

section \<open>Vacuum\<close>

text \<open>\<^verbatim>\<open>n += 1\<close> on a \<^verbatim>\<open>u32\<close>, which panics or wraps as in \<open>meta_bump_page_count\<close>.\<close>

definition next_num :: "env \<Rightarrow> 32 word \<Rightarrow> (32 word, 'x) result" where
  "next_num E n = (if n = - 1 \<and> debug_assertions E then Panic else Ok (n + 1))"

definition table_page_id :: "table \<Rightarrow> 32 word \<Rightarrow> page_id" where
  "table_page_id tbl page_num = PageId (get_table_id (meta_id tbl)) page_num"

definition new_leaf :: "env \<Rightarrow> table \<Rightarrow> 32 word \<Rightarrow> (page \<times> 32 word, 'x) result" where
  "new_leaf E tbl n = rbind (next_num E n) (\<lambda>n'. Ok (empty_leaf (table_page_id tbl n), n'))"

definition new_internal :: "env \<Rightarrow> table \<Rightarrow> 32 word \<Rightarrow> page_id \<Rightarrow> (page \<times> 32 word, 'x) result" where
  "new_internal E tbl n right_child =
     rbind (next_num E n) (\<lambda>n'. Ok (empty_page (table_page_id tbl n) (Internal [] [right_child]), n'))"

definition put_row :: "env \<Rightarrow> table \<Rightarrow> page \<Rightarrow> row \<Rightarrow> (page, table_error) result" where
  "put_row E tbl page row =
     rbind (map_err TableSchema (validate_row E (tbl_schema tbl) row)) (\<lambda>vr.
       case leaf_insert E page vr of
         (Ok _, page') \<Rightarrow> Ok page'
       | (Err e, _) \<Rightarrow> Err (TablePage e)
       | (Panic, _) \<Rightarrow> Panic)"

text \<open>The leaves of the new file: the finished ones, the one being filled, the next page number.\<close>

fun fill_leaves ::
  "env \<Rightarrow> table \<Rightarrow> row list \<Rightarrow> page list \<Rightarrow> page \<Rightarrow> 32 word \<Rightarrow> (page list \<times> 32 word, table_error) result" where
  "fill_leaves E tbl [] leaves page n = Ok (leaves @ [page], n)"
| "fill_leaves E tbl (row # rows) leaves page n =
     (if can_insert E page row then
        rbind (put_row E tbl page row) (\<lambda>page'. fill_leaves E tbl rows leaves page' n)
      else
        rbind (new_leaf E tbl n) (\<lambda>(fresh, n').
        rbind (put_row E tbl fresh row) (\<lambda>page'. fill_leaves E tbl rows (leaves @ [page]) page' n')))"

definition relink_leaf :: "page_id option \<Rightarrow> page_id option \<Rightarrow> page \<Rightarrow> (page, table_error) result" where
  "relink_leaf prv nxt leaf =
     (case set_prev leaf prv of
       (Ok _, leaf') \<Rightarrow>
         (case set_next leaf' nxt of
           (Ok _, leaf'') \<Rightarrow> Ok leaf''
         | (Err e, _) \<Rightarrow> Err (TablePage e)
         | (Panic, _) \<Rightarrow> Panic)
     | (Err e, _) \<Rightarrow> Err (TablePage e)
     | (Panic, _) \<Rightarrow> Panic)"

fun link_leaves :: "page_id list \<Rightarrow> nat \<Rightarrow> page list \<Rightarrow> (page list, table_error) result" where
  "link_leaves ids i [] = Ok []"
| "link_leaves ids i (leaf # leaves) =
     rbind (case checked_sub i 1 of None \<Rightarrow> Ok None | Some j \<Rightarrow> rbind (vec_index ids j) (\<lambda>x. Ok (Some x))) (\<lambda>prv.
     rbind (relink_leaf prv (vec_get (i + 1) ids) leaf) (\<lambda>leaf'.
     rbind (link_leaves ids (i + 1) leaves) (\<lambda>leaves'. Ok (leaf' # leaves'))))"

definition first_key :: "page \<Rightarrow> (key, 'x) result" where
  "first_key page =
     rbind (expect (page_records (body page))) (\<lambda>records.
     rbind (expect (vec_first records)) (\<lambda>row.
     rbind (expect (vec_first (row_fields row))) (\<lambda>field.
       case key_try_from field of Ok key \<Rightarrow> Ok key | _ \<Rightarrow> Panic)))"

fun first_keys :: "page list \<Rightarrow> ((key \<times> page_id) list, 'x) result" where
  "first_keys [] = Ok []"
| "first_keys (l # ls) =
     rbind (first_key l) (\<lambda>k. rbind (first_keys ls) (\<lambda>rest. Ok ((k, pg_id l) # rest)))"

text \<open>
  The loop of \<^verbatim>\<open>build_internal_level\<close>: the lowest key and the page being filled, the next number, the pages so far
  and the level so far.
\<close>

fun fill_level ::
  "env \<Rightarrow> table \<Rightarrow> (key \<times> page_id) list \<Rightarrow> key \<Rightarrow> page \<Rightarrow> 32 word \<Rightarrow> page list \<Rightarrow> (key \<times> page_id) list \<Rightarrow>
   ((key \<times> page_id) list \<times> 32 word \<times> page list, table_error) result" where
  "fill_level E tbl [] low_key page n out level = Ok (level @ [(low_key, pg_id page)], n, out @ [page])"
| "fill_level E tbl ((key, child) # children) low_key page n out level =
     (if can_insert_separator E page key then
        (case internal_insert E page key child of
          (Ok _, page') \<Rightarrow> fill_level E tbl children low_key page' n out level
        | (Err e, _) \<Rightarrow> Err (TablePage e)
        | (Panic, _) \<Rightarrow> Panic)
      else
        rbind (new_internal E tbl n child) (\<lambda>(fresh, n').
          fill_level E tbl children key fresh n' (out @ [page]) (level @ [(low_key, pg_id page)])))"

definition build_internal_level ::
  "env \<Rightarrow> table \<Rightarrow> (key \<times> page_id) list \<Rightarrow> 32 word \<Rightarrow> page list \<Rightarrow>
   ((key \<times> page_id) list \<times> 32 word \<times> page list, table_error) result" where
  "build_internal_level E tbl children n out =
     (case children of
       [] \<Rightarrow> Panic
     | (low_key, first_child) # rest \<Rightarrow>
         rbind (new_internal E tbl n first_child) (\<lambda>(page, n').
           fill_level E tbl rest low_key page n' out []))"

definition build_step ::
  "env \<Rightarrow> table \<Rightarrow> (key \<times> page_id) list \<times> 32 word \<times> page list \<Rightarrow>
   (('d, 'e) bpm,
    (key \<times> page_id) list \<times> 32 word \<times> page list + (key \<times> page_id) list \<times> 32 word \<times> page list, table_error) call" where
  "build_step E tbl = (\<lambda>(level, n, internals).
     if 1 < length level then
       sbind (slift (build_internal_level E tbl level n internals)) (\<lambda>x. sreturn (Inl x))
     else sreturn (Inr (level, n, internals)))"

text \<open>The new meta page.\<close>

definition repack_meta :: "page \<Rightarrow> page_id \<Rightarrow> 32 word \<Rightarrow> (page, page_error) result" where
  "repack_meta p rid n =
     (case meta_set_root_id p rid of
       (Ok _, p1) \<Rightarrow>
         (case meta_set_page_count p1 n of
           (Ok _, p2) \<Rightarrow>
             (case meta_set_free_list_head p2 None of
               (Ok _, p3) \<Rightarrow> Ok p3
             | (Err e, _) \<Rightarrow> Err e
             | (Panic, _) \<Rightarrow> Panic)
         | (Err e, _) \<Rightarrow> Err e
         | (Panic, _) \<Rightarrow> Panic)
     | (Err e, _) \<Rightarrow> Err e
     | (Panic, _) \<Rightarrow> Panic)"

definition pack_leaves :: "env \<Rightarrow> table \<Rightarrow> row list \<Rightarrow> (page list \<times> (key \<times> page_id) list \<times> 32 word, table_error) result" where
  "pack_leaves E tbl rows =
     rbind (new_leaf E tbl 1) (\<lambda>(page, n).
     rbind (fill_leaves E tbl rows [] page n) (\<lambda>(leaves, n).
     rbind (link_leaves (map pg_id leaves) 0 leaves) (\<lambda>leaves.
     rbind (first_keys leaves) (\<lambda>level.
       Ok (leaves, level, n)))))"

definition vacuum ::
  "env \<Rightarrow> 'd disk_manager \<Rightarrow> 'e find_victim \<Rightarrow> table \<Rightarrow> (('d, 'e) bpm, unit, table_error) proc" where
  "vacuum E D V tbl =
     pbind (plift_err TableBTree (btree_get_all E D V tbl (\<lambda>_. True))) (\<lambda>rows.
     pbind (pcall (slift (pack_leaves E tbl rows))) (\<lambda>(leaves, level, n).
     pbind (loop (build_step E tbl) (level, n, [])) (\<lambda>(level, n, internals).
     pbind (pcall (slift (vec_index level 0))) (\<lambda>(_, rid).
     pbind (pcall (read_meta E D V tbl Ok)) (\<lambda>meta_page.
     pbind (pcall (slift (map_err TablePage (repack_meta meta_page rid n)))) (\<lambda>meta_page.
       pcall (lift_err TableBpm (bpm_swap_file E D (meta_page # internals @ leaves)))))))))"

end
