(* ===== verification/Tree_Shape.thy ===== *)
theory Tree_Shape
  imports Internal_Correct Leaf_Correct
begin

text \<open>
  What a tree of pages is, apart from the pages: which identifiers it has, how keys are spread over
  it, and what rows it holds. \<open>rep\<close> relates it to the pages. A subtree of an internal page comes with
  its lower bound, the separator to its left; that way splitting and joining pages is splitting and
  joining lists. A path is a tree with a hole, seen from the hole up, like the ancestors the code keeps.
\<close>

section \<open>Bounds\<close>

text \<open>A lower bound \<open>None\<close> is below every key, an upper bound \<open>None\<close> above.\<close>

definition lt_bound :: "key option \<Rightarrow> key option \<Rightarrow> bool" where
  "lt_bound l h \<longleftrightarrow> (\<forall>a b. l = Some a \<longrightarrow> h = Some b \<longrightarrow> a < b)"

definition within :: "key option \<Rightarrow> key option \<Rightarrow> key \<Rightarrow> bool" where
  "within l h k \<longleftrightarrow> (\<forall>a. l = Some a \<longrightarrow> a \<le> k) \<and> (\<forall>b. h = Some b \<longrightarrow> k < b)"

lemma lt_bound_simps [simp]: "lt_bound None h" "lt_bound l None" "lt_bound (Some a) (Some b) \<longleftrightarrow> a < b"
  by (auto simp: lt_bound_def)

lemma within_simps [simp]:
  "within None None k" "within (Some a) h k \<longleftrightarrow> a \<le> k \<and> within None h k"
  "within None (Some b) k \<longleftrightarrow> k < b"
  by (auto simp: within_def)

lemma lt_bound_trans: "lt_bound l (Some a) \<Longrightarrow> lt_bound (Some a) h \<Longrightarrow> lt_bound l h"
  by (cases l; cases h) auto

lemma within_weaken_high: "within l (Some b) k \<Longrightarrow> lt_bound (Some b) h \<Longrightarrow> within l h k"
  by (cases h) (auto simp: within_def)

lemma within_weaken_low: "within (Some a) h k \<Longrightarrow> lt_bound l (Some a) \<Longrightarrow> within l h k"
  by (cases l) (auto simp: within_def)

lemma within_lt: "within l h k \<Longrightarrow> lt_bound l h"
  by (cases l; cases h) (auto simp: within_def)

section \<open>Chains of items\<close>

definition low :: "(key option \<times> 'x) list \<Rightarrow> key option \<Rightarrow> key option" where
  "low xs h = (case xs of [] \<Rightarrow> h | x # _ \<Rightarrow> fst x)"

lemma low_simps [simp]: "low [] h = h" "low (x # xs) h = fst x" "low (xs @ ys) h = low xs (low ys h)"
  by (simp_all add: low_def split: list.split)

fun chain :: "(key option \<Rightarrow> key option \<Rightarrow> 'x \<Rightarrow> bool) \<Rightarrow> key option \<Rightarrow> (key option \<times> 'x) list \<Rightarrow> bool" where
  "chain W h [] \<longleftrightarrow> True"
| "chain W h (x # xs) \<longleftrightarrow> lt_bound (fst x) (low xs h) \<and> (xs \<noteq> [] \<longrightarrow> fst (hd xs) \<noteq> None) \<and>
     W (fst x) (low xs h) (snd x) \<and> chain W h xs"

lemma chain_append:
  "chain W h (xs @ ys) \<longleftrightarrow>
    chain W (low ys h) xs \<and> chain W h ys \<and> (xs \<noteq> [] \<and> ys \<noteq> [] \<longrightarrow> fst (hd ys) \<noteq> None)"
  by (induction xs) (auto simp: hd_append)

text \<open>The separators of a page with these lower bounds.\<close>

definition seps :: "key option list \<Rightarrow> key list" where
  "seps ls = map the (tl ls)"

lemma seps_simps [simp]: "seps [] = []" "seps (l # ls) = map the ls" "length (seps ls) = length ls - 1"
  by (simp_all add: seps_def)

lemma seps_append: "xs \<noteq> [] \<Longrightarrow> seps (xs @ ys) = seps xs @ map the ys"
  by (simp add: seps_def)

lemma chain_lt: "chain W h xs \<Longrightarrow> xs \<noteq> [] \<Longrightarrow> lt_bound (fst (hd xs)) h"
proof (induction xs)
  case (Cons x xs)
  show ?case
  proof (cases "xs = []")
    case False
    then obtain b where b: "fst (hd xs) = Some b" and lb: "low xs h = Some b"
      using Cons.prems(1) by (cases xs) auto
    have "lt_bound (Some b) h" using Cons False b by simp
    then show ?thesis using Cons.prems(1) lb lt_bound_trans by auto
  qed (use Cons in simp)
qed simp

text \<open>The keys between the items are strictly increasing and inside the bounds.\<close>

lemma chain_seps:
  assumes "chain W h xs" and "xs \<noteq> []"
  shows "\<forall>k \<in> set (seps (map fst xs)). lt_bound (fst (hd xs)) (Some k) \<and> lt_bound (Some k) h"
    and "sorted_wrt (<) (seps (map fst xs))"
proof -
  have "(\<forall>k \<in> set (seps (map fst xs)). lt_bound (fst (hd xs)) (Some k) \<and> lt_bound (Some k) h) \<and>
    sorted_wrt (<) (seps (map fst xs))"
    using assms
  proof (induction xs)
    case (Cons x xs)
    show ?case
    proof (cases xs)
      case (Cons y ys)
      then obtain b where b: "fst y = Some b" and lt: "lt_bound (fst x) (Some b)" and ch: "chain W h xs"
        using Cons.prems(1) by auto
      have ih: "\<forall>k \<in> set (seps (map fst xs)). lt_bound (Some b) (Some k) \<and> lt_bound (Some k) h"
        "sorted_wrt (<) (seps (map fst xs))"
        using Cons.IH ch Cons b by auto
      have "lt_bound (Some b) h" using chain_lt [OF ch] Cons b by simp
      moreover have "lt_bound (fst x) (Some k)" if "k \<in> set (seps (map fst xs))" for k
        using ih(1) that lt lt_bound_trans by blast
      ultimately show ?thesis using ih lt Cons b by auto
    qed simp
  qed simp
  then show "\<forall>k \<in> set (seps (map fst xs)). lt_bound (fst (hd xs)) (Some k) \<and> lt_bound (Some k) h"
    and "sorted_wrt (<) (seps (map fst xs))" by auto
qed

text \<open>The item a key belongs to is the one the page routes it to.\<close>

lemma chain_route:
  assumes "chain W h xs" and "xs \<noteq> []" and "within (fst (hd xs)) h k"
  obtains as a t bs where "xs = as @ (a, t) # bs" "length as = route_pos k (seps (map fst xs))"
    "within a (low bs h) k"
proof -
  have "\<exists>as a t bs. xs = as @ (a, t) # bs \<and> length as = route_pos k (seps (map fst xs)) \<and> within a (low bs h) k"
    using assms
  proof (induction xs)
    case (Cons x xs)
    obtain a t where x: "x = (a, t)" by fastforce
    show ?case
    proof (cases xs)
      case Nil
      then show ?thesis using Cons.prems x by (intro exI [of _ "[]"]) (auto simp: route_pos_def)
    next
      case (Cons y ys)
      then obtain b where b: "fst y = Some b" and ch: "chain W h xs" using Cons.prems(1) by auto
      show ?thesis
      proof (cases "k < b")
        case True
        then show ?thesis
          using Cons.prems x Cons b
          by (intro exI [of _ "[]"] exI [of _ a] exI [of _ t] exI [of _ xs]) (auto simp: route_pos_def within_def)
      next
        case False
        then have "within (fst (hd xs)) h k" using Cons.prems(3) Cons b by (auto simp: within_def)
        moreover have "xs \<noteq> []" using Cons by simp
        ultimately obtain as a' t' bs where ih: "xs = as @ (a', t') # bs"
            "length as = route_pos k (seps (map fst xs))" "within a' (low bs h) k"
          using Cons.IH [OF ch] by blast
        have "route_pos k (seps (map fst (x # xs))) = Suc (route_pos k (seps (map fst xs)))"
          using Cons b False by (simp add: route_pos_def)
        then show ?thesis using ih
          by (intro exI [of _ "x # as"] exI [of _ a'] exI [of _ t'] exI [of _ bs]) simp
      qed
    qed
  qed simp
  then show thesis using that by blast
qed

section \<open>Trees\<close>

datatype btree = Tip page_id "row list" | Branch page_id "(key option \<times> btree) list"

type_synonym items = "(key option \<times> btree) list"

fun tid :: "btree \<Rightarrow> page_id" where
  "tid (Tip i rs) = i"
| "tid (Branch i xs) = i"

fun pids :: "btree \<Rightarrow> page_id list" where
  "pids (Tip i rs) = [i]"
| "pids (Branch i xs) = i # concat (map (\<lambda>x. pids (snd x)) xs)"

fun leaf_ids :: "btree \<Rightarrow> page_id list" where
  "leaf_ids (Tip i rs) = [i]"
| "leaf_ids (Branch i xs) = concat (map (\<lambda>x. leaf_ids (snd x)) xs)"

fun rows :: "btree \<Rightarrow> row list" where
  "rows (Tip i rs) = rs"
| "rows (Branch i xs) = concat (map (\<lambda>x. rows (snd x)) xs)"

abbreviation tids :: "items \<Rightarrow> page_id list" where
  "tids xs \<equiv> map (\<lambda>x. tid (snd x)) xs"

abbreviation item_ids :: "items \<Rightarrow> page_id list" where
  "item_ids xs \<equiv> concat (map (\<lambda>x. pids (snd x)) xs)"

abbreviation item_leaf_ids :: "items \<Rightarrow> page_id list" where
  "item_leaf_ids xs \<equiv> concat (map (\<lambda>x. leaf_ids (snd x)) xs)"

abbreviation item_rows :: "items \<Rightarrow> row list" where
  "item_rows xs \<equiv> concat (map (\<lambda>x. rows (snd x)) xs)"

text \<open>
  A tree of height \<open>n\<close> with all keys within bounds. Every internal page has two children or more, except that
  the topmost one may have as few as \<open>k\<close>: while pages are merged it can be left with one.
\<close>

primrec wfk :: "env \<Rightarrow> nat \<Rightarrow> nat \<Rightarrow> key option \<Rightarrow> key option \<Rightarrow> btree \<Rightarrow> bool" where
  "wfk E 0 k l h t \<longleftrightarrow>
     (\<exists>i rs. t = Tip i rs \<and> rows_ok E rs \<and> (\<forall>r \<in> set rs. within l h (the_key r)))"
| "wfk E (Suc n) k l h t \<longleftrightarrow>
     (\<exists>i xs. t = Branch i xs \<and> xs \<noteq> [] \<and> k \<le> length xs \<and> fst (hd xs) = l \<and> chain (wfk E n 2) h xs)"

abbreviation wf_tree :: "env \<Rightarrow> nat \<Rightarrow> key option \<Rightarrow> key option \<Rightarrow> btree \<Rightarrow> bool" where
  "wf_tree E n \<equiv> wfk E n 2"

lemma chain_within:
  assumes "chain W h xs" and "\<And>l' h' t r. W l' h' t \<Longrightarrow> r \<in> set (f t) \<Longrightarrow> within l' h' (the_key r)"
    and "r \<in> set (concat (map (\<lambda>x. f (snd x)) xs))"
  shows "within (fst (hd xs)) h (the_key r)"
  using assms(1,3)
proof (induction xs)
  case (Cons x xs)
  consider (here) "r \<in> set (f (snd x))" | (there) "r \<in> set (concat (map (\<lambda>x. f (snd x)) xs))"
    using Cons.prems(2) by auto
  then show ?case
  proof cases
    case here
    then have w: "within (fst x) (low xs h) (the_key r)" using Cons.prems(1) by (intro assms(2) [of _ _ "snd x"]) simp_all
    show ?thesis
    proof (cases xs)
      case (Cons y ys)
      then obtain b where "fst y = Some b" using Cons.prems(1) by auto
      then show ?thesis
        using w Cons Cons.prems(1) chain_lt [of W h xs] within_weaken_high [of "fst x" b "the_key r" h] by auto
    qed (use w in simp)
  next
    case there
    then have "xs \<noteq> []" by auto
    then obtain b where "fst (hd xs) = Some b" "lt_bound (fst x) (Some b)"
      using Cons.prems(1) by (cases xs) auto
    then show ?thesis
      using Cons.IH Cons.prems(1) there within_weaken_low [of b h "the_key r" "fst x"] by auto
  qed
qed simp

lemma wfk_within: "wfk E n k l h t \<Longrightarrow> r \<in> set (rows t) \<Longrightarrow> within l h (the_key r)"
proof (induction n arbitrary: k l h t r)
  case 0
  then show ?case by auto
next
  case (Suc n)
  then obtain i xs where t: "t = Branch i xs" "fst (hd xs) = l" "chain (wfk E n 2) h xs" by auto
  show ?case
    using chain_within [OF t(3), of rows r, OF Suc.IH] Suc.prems(2) t(1,2) by simp
qed

lemma chain_item_within:
  "chain (wfk E n k) h xs \<Longrightarrow> r \<in> set (item_rows xs) \<Longrightarrow> within (fst (hd xs)) h (the_key r)"
  by (rule chain_within [of "wfk E n k" h xs rows, OF _ wfk_within])

text \<open>The rows of a tree, left to right, are sorted.\<close>

lemma wfk_rows_ok: "wfk E n k l h t \<Longrightarrow> rows_ok E (rows t)"
proof (induction n arbitrary: k l h t)
  case 0
  then show ?case by auto
next
  case (Suc n)
  then obtain i xs where t: "t = Branch i xs" "chain (wfk E n 2) h xs" by auto
  have "rows_ok E (item_rows xs)" using t(2)
  proof (induction xs)
    case (Cons x xs)
    have "the_key a < the_key b" if "a \<in> set (rows (snd x))" "b \<in> set (item_rows xs)" for a b
    proof -
      have "xs \<noteq> []" using that(2) by auto
      then obtain y ys c where xs: "xs = y # ys" "fst y = Some c"
        using Cons.prems by (cases xs) auto
      have "within (fst x) (Some c) (the_key a)" using Cons.prems that(1) xs wfk_within by fastforce
      moreover have "within (Some c) h (the_key b)"
        using chain_item_within [of E n 2 h xs b] Cons.prems that(2) xs by simp
      ultimately show ?thesis by (auto simp: within_def)
    qed
    moreover have "rows_ok E (rows (snd x))" using Suc.IH Cons.prems by auto
    ultimately show ?case using Cons by (simp add: rows_ok_append)
  qed simp
  then show ?case by (simp add: t(1))
qed

end
