(* ===== verification/Tree_Path.thy ===== *)
theory Tree_Path
  imports Tree_Shape "HOL-Library.Multiset"
begin

text \<open>Trees with a hole, the pages a tree is made of, and the chain of its leaves.\<close>

section \<open>Paths\<close>

text \<open>
  A crumb is an internal page without one of its subtrees: the items to the left, the lower bound of the
  hole, the items to the right. A path lists the crumbs from the hole to the root.
\<close>

type_synonym crumb = "page_id \<times> items \<times> key option \<times> items"

fun plug :: "crumb list \<Rightarrow> btree \<Rightarrow> btree" where
  "plug [] t = t"
| "plug ((i, as, a, bs) # cs) t = plug cs (Branch i (as @ (a, t) # bs))"

fun hole_low :: "crumb list \<Rightarrow> key option" where
  "hole_low [] = None"
| "hole_low ((i, as, a, bs) # cs) = a"

fun hole_high :: "crumb list \<Rightarrow> key option" where
  "hole_high [] = None"
| "hole_high ((i, as, a, bs) # cs) = low bs (hole_high cs)"

text \<open>A path into a well-formed tree, for a subtree of height \<open>n\<close>.\<close>

fun path_ok :: "env \<Rightarrow> nat \<Rightarrow> crumb list \<Rightarrow> bool" where
  "path_ok E n [] \<longleftrightarrow> True"
| "path_ok E n ((i, as, a, bs) # cs) \<longleftrightarrow>
     chain (wf_tree E n) a as \<and> chain (wf_tree E n) (hole_high cs) bs \<and>
     (as \<noteq> [] \<longrightarrow> a \<noteq> None) \<and> (bs \<noteq> [] \<longrightarrow> fst (hd bs) \<noteq> None) \<and>
     low as a = hole_low cs \<and> lt_bound a (low bs (hole_high cs)) \<and> as @ bs \<noteq> [] \<and> path_ok E (Suc n) cs"

lemma wf_tree_branch:
  "chain (wf_tree E n) h (as @ (a, t) # bs) \<longleftrightarrow>
    chain (wf_tree E n) a as \<and> chain (wf_tree E n) h bs \<and> (as \<noteq> [] \<longrightarrow> a \<noteq> None) \<and>
    (bs \<noteq> [] \<longrightarrow> fst (hd bs) \<noteq> None) \<and> lt_bound a (low bs h) \<and> wf_tree E n a (low bs h) t"
  by (auto simp: chain_append)

lemma low_hd: "xs \<noteq> [] \<Longrightarrow> low xs h = fst (hd xs)"
  by (cases xs) auto

lemma plug_ok:
  "path_ok E n cs \<Longrightarrow> wf_tree E n (hole_low cs) (hole_high cs) t \<Longrightarrow>
    wf_tree E (n + length cs) None None (plug cs t)"
proof (induction cs arbitrary: n t)
  case (Cons c cs)
  obtain i as a bs where c: "c = (i, as, a, bs)" by (cases c)
  have "wf_tree E (Suc n) (hole_low cs) (hole_high cs) (Branch i (as @ (a, t) # bs))"
    using Cons.prems by (cases "as = []") (auto simp: c wf_tree_branch low_hd Suc_le_eq)
  then show ?case using Cons.IH [of "Suc n"] Cons.prems(1) by (simp add: c)
qed simp

text \<open>Descending into a subtree.\<close>

lemma path_ok_step:
  assumes "path_ok E (Suc n) cs" and "wf_tree E (Suc n) (hole_low cs) (hole_high cs) (Branch i (as @ (a, t) # bs))"
  shows "path_ok E n ((i, as, a, bs) # cs)"
    and "wf_tree E n a (low bs (hole_high cs)) t"
proof -
  have "fst (hd (as @ (a, t) # bs)) = low as a" by (cases as) simp_all
  moreover have "2 \<le> length (as @ (a, t) # bs)" and hd: "fst (hd (as @ (a, t) # bs)) = hole_low cs"
    and ch: "chain (wf_tree E n) (hole_high cs) (as @ (a, t) # bs)" using assms(2) by auto
  moreover from this have "as @ bs \<noteq> []" by auto
  ultimately show "path_ok E n ((i, as, a, bs) # cs)" using assms(1) ch by (simp add: wf_tree_branch)
  show "wf_tree E n a (low bs (hole_high cs)) t" using ch by (simp add: wf_tree_branch)
qed

lemma plug_append: "plug (cs @ ds) t = plug ds (plug cs t)"
  by (induction cs t rule: plug.induct) simp_all

section \<open>What is around a hole\<close>

fun path_ids :: "crumb list \<Rightarrow> page_id list" where
  "path_ids [] = []"
| "path_ids ((i, as, a, bs) # cs) = i # item_ids as @ item_ids bs @ path_ids cs"

fun left_leaves :: "crumb list \<Rightarrow> page_id list" where
  "left_leaves [] = []"
| "left_leaves ((i, as, a, bs) # cs) = left_leaves cs @ item_leaf_ids as"

fun right_leaves :: "crumb list \<Rightarrow> page_id list" where
  "right_leaves [] = []"
| "right_leaves ((i, as, a, bs) # cs) = item_leaf_ids bs @ right_leaves cs"

fun left_rows :: "crumb list \<Rightarrow> row list" where
  "left_rows [] = []"
| "left_rows ((i, as, a, bs) # cs) = left_rows cs @ item_rows as"

fun right_rows :: "crumb list \<Rightarrow> row list" where
  "right_rows [] = []"
| "right_rows ((i, as, a, bs) # cs) = item_rows bs @ right_rows cs"

lemma mset_ids_plug: "mset (pids (plug cs t)) = mset (pids t) + mset (path_ids cs)"
  by (induction cs t rule: plug.induct) simp_all

lemma distinct_plug: "distinct (pids (plug cs t)) \<longleftrightarrow> distinct (pids t @ path_ids cs)"
  using mset_ids_plug [of cs t] by (metis mset_append mset_eq_imp_distinct_iff)

lemma set_ids_plug: "set (pids (plug cs t)) = set (pids t) \<union> set (path_ids cs)"
  using mset_ids_plug [of cs t] by (metis set_mset_mset set_mset_union)

lemma leaf_ids_plug: "leaf_ids (plug cs t) = left_leaves cs @ leaf_ids t @ right_leaves cs"
  by (induction cs t rule: plug.induct) simp_all

lemma rows_plug: "rows (plug cs t) = left_rows cs @ rows t @ right_rows cs"
  by (induction cs t rule: plug.induct) simp_all

lemma leaf_ids_subset: "set (leaf_ids t) \<subseteq> set (pids t)"
  by (induction t rule: leaf_ids.induct) auto

lemma item_leaf_subset: "set (item_leaf_ids xs) \<subseteq> set (item_ids xs)"
  using leaf_ids_subset by auto

lemma path_leaf_subset: "set (left_leaves cs) \<union> set (right_leaves cs) \<subseteq> set (path_ids cs)"
proof (induction cs rule: path_ids.induct)
  case (2 i as a bs cs)
  then show ?case using item_leaf_subset [of as] item_leaf_subset [of bs] unfolding path_ids.simps
      left_leaves.simps right_leaves.simps set_append list.set by blast
qed simp

text \<open>The keys of the rows and of the separators.\<close>

fun tree_keys :: "btree \<Rightarrow> key set" where
  "tree_keys (Tip i rs) = the_key ` set rs"
| "tree_keys (Branch i xs) = set (seps (map fst xs)) \<union> (\<Union>x \<in> set xs. tree_keys (snd x))"

fun path_keys :: "crumb list \<Rightarrow> key set" where
  "path_keys [] = {}"
| "path_keys ((i, as, a, bs) # cs) =
     set (seps (map fst as @ a # map fst bs)) \<union> (\<Union>x \<in> set as \<union> set bs. tree_keys (snd x)) \<union> path_keys cs"

lemma tree_keys_plug: "tree_keys (plug cs t) = tree_keys t \<union> path_keys cs"
  by (induction cs t rule: plug.induct) auto

lemma row_keys_in_tree: "the_key ` set (rows t) \<subseteq> tree_keys t"
  by (induction t rule: rows.induct) auto

lemma dom_in_tree: "dom (rows_map (rows t)) \<subseteq> tree_keys t"
  using row_keys_in_tree by (simp add: dom_rows_map row_keys_def)

text \<open>The rows around the hole have no key that the hole is for.\<close>

lemma path_rows_apart:
  assumes "path_ok E n cs" and "hole_low cs = l" and "hole_high cs = h" and "lt_bound l h"
  shows "(\<forall>r \<in> set (left_rows cs). \<exists>a. l = Some a \<and> the_key r < a) \<and>
    (\<forall>r \<in> set (right_rows cs). \<exists>b. h = Some b \<and> b \<le> the_key r)"
  using assms
proof (induction cs arbitrary: n l h)
  case (Cons c cs)
  obtain i as a bs where c: "c = (i, as, a, bs)" by (cases c)
  note ok = Cons.prems(1) [unfolded c, simplified]
  have la: "l = a" and h: "h = low bs (hole_high cs)" using Cons.prems by (simp_all add: c)
  have low_as: "low as a = hole_low cs" using ok by blast
  have lt1: "lt_bound (hole_low cs) a" if "as \<noteq> []"
    using that ok chain_lt [of "wf_tree E n" a as] by (metis low_hd)
  have lt2: "lt_bound (low bs (hole_high cs)) (hole_high cs)" if "bs \<noteq> []"
    using that ok chain_lt [of "wf_tree E n" "hole_high cs" bs] by (metis low_hd)
  have outer: "lt_bound (hole_low cs) (hole_high cs)"
  proof -
    have "lt_bound a (hole_high cs)"
      using ok lt2 lt_bound_trans by (cases "bs = []") (auto simp: low_hd)
    then show ?thesis using lt1 ok lt_bound_trans by (cases "as = []") auto
  qed
  note ih = Cons.IH [of "Suc n", OF _ refl refl outer]
  have ih: "(\<forall>r \<in> set (left_rows cs). \<exists>a. hole_low cs = Some a \<and> the_key r < a) \<and>
      (\<forall>r \<in> set (right_rows cs). \<exists>b. hole_high cs = Some b \<and> b \<le> the_key r)"
    using ih ok by blast
  have "\<exists>b. l = Some b \<and> the_key r < b" if r: "r \<in> set (left_rows (c # cs))" for r
  proof (cases "r \<in> set (item_rows as)")
    case True
    then have "as \<noteq> []" by auto
    moreover have "within (fst (hd as)) a (the_key r)"
      by (rule chain_item_within [OF _ True]) (use ok in blast)
    ultimately show ?thesis using ok la by (auto simp: within_def)
  next
    case False
    then obtain b where b: "hole_low cs = Some b" "the_key r < b" using r ih c by auto
    show ?thesis
    proof (cases "as = []")
      case True
      then show ?thesis using b low_as la by auto
    next
      case ne: False
      then obtain a' where "a = Some a'" using ok by auto
      then show ?thesis using lt1 [OF ne] b la by auto
    qed
  qed
  moreover have "\<exists>b. h = Some b \<and> b \<le> the_key r" if r: "r \<in> set (right_rows (c # cs))" for r
  proof (cases "r \<in> set (item_rows bs)")
    case True
    then have "bs \<noteq> []" by auto
    moreover have "within (fst (hd bs)) (hole_high cs) (the_key r)"
      by (rule chain_item_within [OF _ True]) (use ok in blast)
    ultimately show ?thesis using ok h by (auto simp: within_def low_hd)
  next
    case False
    then obtain b where b: "hole_high cs = Some b" "b \<le> the_key r" using r ih c by auto
    show ?thesis
    proof (cases "bs = []")
      case True
      then show ?thesis using b h by auto
    next
      case ne: False
      then obtain b' where "fst (hd bs) = Some b'" using ok by auto
      then show ?thesis using lt2 [OF ne] b h low_hd [OF ne] by auto
    qed
  qed
  ultimately show ?case by (intro conjI ballI)
qed simp

lemma rows_map_around:
  assumes "path_ok E n cs" and "within (hole_low cs) (hole_high cs) k"
  shows "rows_map (left_rows cs @ rs @ right_rows cs) k = rows_map rs k"
proof -
  note apart = path_rows_apart [OF assms(1) refl refl within_lt [OF assms(2)]]
  have "k \<notin> set (row_keys (left_rows cs))" "k \<notin> set (row_keys (right_rows cs))"
    using apart assms(2) by (fastforce simp: row_keys_def within_def)+
  then have "rows_map (left_rows cs) k = None" "rows_map (right_rows cs) k = None"
    by (simp_all add: rows_map_None_iff)
  then show ?thesis by (simp add: rows_map_append map_add_def split: option.splits)
qed

section \<open>Pages\<close>

type_synonym pages = "page_id \<Rightarrow> page option"

fun rep :: "pages \<Rightarrow> btree \<Rightarrow> bool" where
  "rep v (Tip i rs) \<longleftrightarrow> (\<exists>p nx pv. v i = Some p \<and> body p = Leaf rs nx pv)"
| "rep v (Branch i xs) \<longleftrightarrow>
     (\<exists>p. v i = Some p \<and> body p = Internal (seps (map fst xs)) (tids xs)) \<and> (\<forall>x \<in> set xs. rep v (snd x))"

text \<open>\<open>hid\<close> is the identifier of the page at the top of the hole.\<close>

fun rep_path :: "pages \<Rightarrow> page_id \<Rightarrow> crumb list \<Rightarrow> bool" where
  "rep_path v hid [] \<longleftrightarrow> True"
| "rep_path v hid ((i, as, a, bs) # cs) \<longleftrightarrow>
     (\<exists>p. v i = Some p \<and> body p = Internal (seps (map fst as @ a # map fst bs)) (tids as @ hid # tids bs)) \<and>
     (\<forall>x \<in> set as \<union> set bs. rep v (snd x)) \<and> rep_path v i cs"

lemma rep_plug: "rep v (plug cs t) \<longleftrightarrow> rep v t \<and> rep_path v (tid t) cs"
  by (induction cs t rule: plug.induct) auto

lemma tid_in_ids [simp]: "tid t \<in> set (pids t)"
  by (cases t) auto

text \<open>A tree is about its own pages only, and not about the links of its leaves.\<close>

definition relinked :: "page option \<Rightarrow> page option \<Rightarrow> bool" where
  "relinked x y \<longleftrightarrow> x = y \<or> (\<exists>p q rs nx pv nx' pv'. x = Some p \<and> y = Some q \<and>
     body p = Leaf rs nx pv \<and> body q = Leaf rs nx' pv')"

lemma relinked_refl [simp]: "relinked x x"
  by (simp add: relinked_def)

lemma rep_frame: "(\<And>i. i \<in> set (pids t) \<Longrightarrow> relinked (v i) (v' i)) \<Longrightarrow> rep v t \<Longrightarrow> rep v' t"
proof (induction t rule: pids.induct)
  case (1 i rs)
  then have "relinked (v i) (v' i)" by simp
  then show ?case using 1(2) by (auto simp: relinked_def)
next
  case (2 i xs)
  have "relinked (v i) (v' i)" using 2(2) by simp
  moreover have "rep v' (snd x)" if "x \<in> set xs" for x
    using 2(1) [OF that] 2(2,3) that by fastforce
  ultimately show ?case using 2(3) by (auto simp: relinked_def)
qed

lemma rep_items_frame:
  assumes "\<And>i. i \<in> set (item_ids xs) \<Longrightarrow> relinked (v i) (v' i)" and "\<forall>x \<in> set xs. rep v (snd x)"
  shows "\<forall>x \<in> set xs. rep v' (snd x)"
proof
  fix x assume "x \<in> set xs"
  then show "rep v' (snd x)" using assms by (intro rep_frame [of "snd x" v v']) auto
qed

lemma rep_path_frame:
  "(\<And>i. i \<in> set (path_ids cs) \<Longrightarrow> relinked (v i) (v' i)) \<Longrightarrow> rep_path v hid cs \<Longrightarrow> rep_path v' hid cs"
proof (induction cs arbitrary: hid)
  case (Cons c cs)
  obtain i as a bs where c: "c = (i, as, a, bs)" by (cases c)
  have "relinked (v i) (v' i)" using Cons.prems(1) by (simp add: c)
  moreover have "\<forall>x \<in> set (as @ bs). rep v' (snd x)"
    using Cons.prems by (intro rep_items_frame [of "as @ bs" v v']) (auto simp: c)
  moreover have "rep_path v' i cs" using Cons by (simp add: c)
  ultimately show ?case using Cons.prems(2) by (auto simp: c relinked_def)
qed simp

section \<open>The chain of leaves\<close>

text \<open>The leaves \<open>ls\<close> are linked to each other; the first has \<open>pv\<close> before it, the last \<open>nx\<close> behind it.\<close>

fun links :: "pages \<Rightarrow> page_id option \<Rightarrow> page_id list \<Rightarrow> page_id option \<Rightarrow> bool" where
  "links v pv [] nx \<longleftrightarrow> True"
| "links v pv (i # ls) nx \<longleftrightarrow>
     (\<exists>p rs. v i = Some p \<and> body p = Leaf rs (case ls of [] \<Rightarrow> nx | j # _ \<Rightarrow> Some j) pv) \<and> links v (Some i) ls nx"

lemma links_append:
  "links v pv (xs @ ys) nx \<longleftrightarrow>
    links v pv xs (case ys of [] \<Rightarrow> nx | j # _ \<Rightarrow> Some j) \<and>
    links v (if xs = [] then pv else Some (last xs)) ys nx"
proof (induction xs arbitrary: pv)
  case (Cons x xs)
  have "(case xs @ ys of [] \<Rightarrow> nx | j # _ \<Rightarrow> Some j) =
      (case xs of [] \<Rightarrow> (case ys of [] \<Rightarrow> nx | j # _ \<Rightarrow> Some j) | j # _ \<Rightarrow> Some j)"
    by (cases xs) simp_all
  then show ?case using Cons by auto
qed simp

lemma links_frame: "(\<And>i. i \<in> set ls \<Longrightarrow> v' i = v i) \<Longrightarrow> links v' pv ls nx = links v pv ls nx"
  by (induction ls arbitrary: pv) auto

text \<open>Changes that keep the links: the rows of a leaf may be any.\<close>

lemma links_rows:
  assumes "links v pv ls nx" and "v i = Some p" and "body p = Leaf rs n pr" and "body q = Leaf rs' n pr"
  shows "links (v(i \<mapsto> q)) pv ls nx"
  using assms(1)
proof (induction ls arbitrary: pv)
  case (Cons j ls)
  then show ?case using assms(2-4) by (cases "j = i") auto
qed simp

end
