(* ===== verification/Table_Space.thy ===== *)
theory Table_Space
  imports Table_Pages Tree_Path Meta_Page
begin

text \<open>
  The pages of a table: its meta page, those in use, and those on the free list, which together are the
  pages with a number below the page count. Allocating, freeing and setting the root keep that.
\<close>

section \<open>Two pages at once\<close>

context buffer_pool begin

lemma wp_peek_read:
  assumes "trk h n v (add_mset (pid, i, l) H) s" and "v pid = Some p" and "wp h (Some (op p, s)) Q X"
  shows "wp h (Some (peek_read (PageReadGuard i) op s)) Q X"
  using assms(3) trk_slot [OF assms(1,2)] by (simp add: guard_simps)

lemma wp_peek_write:
  assumes "trk h n v (add_mset (pid, i, l) H) s" and "v pid = Some p" and "wp h (Some (op p, s)) Q X"
  shows "wp h (Some (peek_write (PageWriteGuard i) op s)) Q X"
  using assms(3) trk_slot [OF assms(1,2)] by (simp add: guard_simps)

lemma wp_deref_mut2:
  assumes tr: "trk h n v (add_mset (a, i, l) (add_mset (b, j, l') H)) s" and a: "v a = Some p" and b: "v b = Some q"
    and op: "op p q = (r, p', q')" and r: "r \<noteq> Panic"
    and p': "storable E p'" "pg_id p' = a" and q': "storable E q'" "pg_id q' = b"
    and Q: "\<And>s'. trk h n (v(a \<mapsto> p', b \<mapsto> q')) (add_mset (a, i, l) (add_mset (b, j, l') H)) s' \<Longrightarrow>
      wp h (Some (r, s')) Q X"
  shows "wp h (Some (write_deref_mut2 (PageWriteGuard i) (PageWriteGuard j) op s)) Q X"
proof -
  have ab: "a \<noteq> b" using trk_distinct [OF tr] by auto
  have tr': "trk h n v (add_mset (b, j, l') (add_mset (a, i, l) H)) s"
    using tr by (simp add: add_mset_commute)
  obtain s1 where s1: "write_deref_mut (PageWriteGuard i) (\<lambda>_. (r, p')) s = (r, s1)"
      "trk h n (v(a \<mapsto> p')) (add_mset (a, i, l) (add_mset (b, j, l') H)) s1"
    using trk_update [OF tr a _ p', of "\<lambda>_. (r, p')" r] by blast
  then have "trk h n (v(a \<mapsto> p')) (add_mset (b, j, l') (add_mset (a, i, l) H)) s1"
    by (simp add: add_mset_commute)
  moreover have "(v(a \<mapsto> p')) b = Some q" using ab b by simp
  ultimately obtain s2 where s2: "write_deref_mut (PageWriteGuard j) (\<lambda>_. (r, q')) s1 = (r, s2)"
      "trk h n (v(a \<mapsto> p', b \<mapsto> q')) (add_mset (b, j, l') (add_mset (a, i, l) H)) s2"
    using trk_update [of h n "v(a \<mapsto> p')" b j l' "add_mset (a, i, l) H" s1 q "\<lambda>_. (r, q')" r q'] q' by blast
  have "write_deref_mut2 (PageWriteGuard i) (PageWriteGuard j) op s = (r, s2)"
    using trk_slot [OF tr a] trk_slot [OF tr' b] op s1(1) s2(1) by (simp add: write_deref_mut2_def guard_simps)
  then show ?thesis using Q [of s2] s2(2) by (simp add: add_mset_commute)
qed

lemma wp_overwrite:
  assumes "trk h n v (add_mset (pid, i, l) H) s" and "v pid = Some p" and "storable E page" and "pg_id page = pid"
    and "\<And>s'. trk h n (v(pid \<mapsto> page)) (add_mset (pid, i, l) H) s' \<Longrightarrow> Q () s'"
  shows "wp h (Some (overwrite (PageWriteGuard i) page s)) Q X"
  unfolding overwrite_def
  by (rule wp_deref_mut [OF assms(1,2)]) (use assms(3-5) in \<open>auto simp: page_replace_def wp_simps\<close>)

end

section \<open>The space of a table\<close>

definition space :: "table \<Rightarrow> pages \<Rightarrow> page_id \<Rightarrow> 32 word \<Rightarrow> page_id list \<Rightarrow> page_id set \<Rightarrow> bool" where
  "space tbl v root cnt fl U \<longleftrightarrow>
     (\<exists>m flh. v (meta_id tbl) = Some m \<and> body m = Meta root cnt flh (tbl_schema tbl) (tbl_name tbl) \<and> free_chain v flh fl) \<and>
     get_page_num (meta_id tbl) = 0 \<and> get_table_id root = get_table_id (meta_id tbl) \<and>
     dom v = {PageId (get_table_id (meta_id tbl)) k | k. k < cnt} \<and>
     dom v = insert (meta_id tbl) (U \<union> set fl) \<and> meta_id tbl \<notin> U \<union> set fl \<and> U \<inter> set fl = {}"

lemma spaceE:
  assumes "space tbl v root cnt fl U"
  obtains m flh where "v (meta_id tbl) = Some m" "body m = Meta root cnt flh (tbl_schema tbl) (tbl_name tbl)" "free_chain v flh fl"
    "get_page_num (meta_id tbl) = 0" "get_table_id root = get_table_id (meta_id tbl)"
    "dom v = {PageId (get_table_id (meta_id tbl)) k | k. k < cnt}"
    "dom v = insert (meta_id tbl) (U \<union> set fl)" "meta_id tbl \<notin> U" "meta_id tbl \<notin> set fl" "U \<inter> set fl = {}"
  using assms that unfolding space_def by (elim conjE exE) auto

lemma spaceI:
  assumes "v (meta_id tbl) = Some m" and "body m = Meta root cnt flh (tbl_schema tbl) (tbl_name tbl)" and "free_chain v flh fl"
    and "get_page_num (meta_id tbl) = 0" and "get_table_id root = get_table_id (meta_id tbl)"
    and "dom v = {PageId (get_table_id (meta_id tbl)) k | k. k < cnt}"
    and "dom v = insert (meta_id tbl) (U \<union> set fl)" and "meta_id tbl \<notin> U" and "meta_id tbl \<notin> set fl"
    and "U \<inter> set fl = {}"
  shows "space tbl v root cnt fl U"
  unfolding space_def using assms by (intro conjI exI [of _ m] exI [of _ flh]) auto

lemma free_chain_frame: "(\<And>i. i \<in> set fl \<Longrightarrow> v' i = v i) \<Longrightarrow> free_chain v' h fl = free_chain v h fl"
  by (induction fl arbitrary: h) (auto split: option.splits page_body.splits)

text \<open>Changing pages in use is no concern of the space.\<close>

lemma space_use:
  assumes "space tbl v root cnt fl U" and "\<And>i. i \<notin> U \<Longrightarrow> v' i = v i" and "dom v' = dom v"
  shows "space tbl v' root cnt fl U"
proof -
  obtain m flh where m: "v (meta_id tbl) = Some m" "body m = Meta root cnt flh (tbl_schema tbl) (tbl_name tbl)" "free_chain v flh fl"
    and rest: "get_page_num (meta_id tbl) = 0" "get_table_id root = get_table_id (meta_id tbl)"
      "dom v = {PageId (get_table_id (meta_id tbl)) k | k. k < cnt}"
      "dom v = insert (meta_id tbl) (U \<union> set fl)" "meta_id tbl \<notin> U" "meta_id tbl \<notin> set fl" "U \<inter> set fl = {}"
    using assms(1) by (rule spaceE)
  have "v' (meta_id tbl) = Some m" using assms(2) m(1) rest(5) by simp
  moreover have "free_chain v' flh fl" using free_chain_frame [of fl v' v flh] assms(2) m(3) rest(7) by blast
  ultimately show ?thesis
    by (rule spaceI [OF _ m(2) _ rest(1,2) rest(3,4) [folded assms(3)] rest(5-7)])
qed

lemma space_dom:
  assumes "space tbl v root cnt fl U" and "i \<in> U"
  shows "\<exists>p. v i = Some p"
proof -
  have "dom v = insert (meta_id tbl) (U \<union> set fl)" using assms(1) by (rule spaceE)
  then have "i \<in> dom v" using assms(2) by simp
  then show ?thesis by blast
qed

lemma space_table:
  assumes "space tbl v root cnt fl U" and "i \<in> dom v"
  shows "get_table_id i = get_table_id (meta_id tbl)"
proof -
  have "dom v = {PageId (get_table_id (meta_id tbl)) k | k. k < cnt}" using assms(1) by (rule spaceE)
  then have "i \<in> {PageId (get_table_id (meta_id tbl)) k | k. k < cnt}" using assms(2) by simp
  then show ?thesis by auto
qed

lemma storable_meta:
  assumes "storable E m" and "body m = Meta r c f s nm" and "\<forall>x \<in> set_option f'. get_page_num x < c'"
  shows "storable E (m\<lparr>body := Meta r' c' f' s nm\<rparr>)"
  using assms by (auto simp: storable_def page_wf_def page_inv_meta [OF assms(2)] page_inv_iff)

lemma storable_free: "storable E (empty_page x (Free f))" "storable E p \<Longrightarrow> storable E (p\<lparr>body := Free f\<rparr>)"
  by (auto simp: storable_def page_wf_def empty_page_def page_lsn_wf_def)

context buffer_pool begin

lemma wp_read_meta:
  assumes E: "varint_ok E" and tr: "trk h n v H s" and m: "v (meta_id tbl) = Some m" and free: "meta_id tbl \<notin> held H"
    and room: "h \<longrightarrow> size H < n" and g: "getter m = Ok x"
    and Q: "\<And>s'. trk h n v H s' \<Longrightarrow> Q x s'" and X: "\<And>e s'. \<not> h \<Longrightarrow> trk h n v H s' \<Longrightarrow> X (TableBpm e) s'"
  shows "wp h (Some (read_meta E D V tbl getter s)) Q X"
  unfolding read_meta_def wp_simps
proof (rule wp_fetch_read [OF E tr m free room])
  fix i s' assume s': "trk h n v (add_mset (rguard (meta_id tbl) i) H) s'"
  show "wp h (Some (peek_read (PageReadGuard i) getter s'))
      (\<lambda>x s'. wp h (Some (drop_read E (PageReadGuard i) s')) (\<lambda>_. Q x) (\<lambda>_. Q x))
      (\<lambda>e s'. wp h (Some (drop_read E (PageReadGuard i) s')) (\<lambda>_. X (TablePage e)) (\<lambda>_. X (TablePage e)))"
    by (rule wp_peek_read [OF s' m]) (use g Q in \<open>auto simp: wp_simps intro!: wp_drop_read [OF s']\<close>)
qed (use X in auto)

lemma wp_root_id:
  assumes "varint_ok E" and "trk h n v H s" and "space tbl v root cnt fl U" and "held H \<subseteq> U"
    and "h \<longrightarrow> size H < n" and "\<And>s'. trk h n v H s' \<Longrightarrow> Q root s'"
    and "\<And>e s'. \<not> h \<Longrightarrow> trk h n v H s' \<Longrightarrow> X (TableBpm e) s'"
  shows "wp h (Some (root_id E D V tbl s)) Q X"
proof -
  obtain m flh where m: "v (meta_id tbl) = Some m" "body m = Meta root cnt flh (tbl_schema tbl) (tbl_name tbl)" "meta_id tbl \<notin> U"
    using assms(3) by (rule spaceE)
  show ?thesis
    unfolding root_id_def
    by (rule wp_read_meta [OF assms(1,2) m(1)])
      (use assms(4-7) m(2,3) in \<open>auto simp: meta_get_root_id_def\<close>)
qed

lemma wp_set_root_id:
  assumes E: "varint_ok E" and tr: "trk h n v H s" and sp: "space tbl v root cnt fl U" and H: "held H \<subseteq> U"
    and room: "h \<longrightarrow> size H < n" and pid: "get_table_id pid = get_table_id (meta_id tbl)"
    and Q: "\<And>v' s'. trk h n v' H s' \<Longrightarrow> space tbl v' pid cnt fl U \<Longrightarrow>
      (\<And>i. i \<noteq> meta_id tbl \<Longrightarrow> v' i = v i) \<Longrightarrow> Q () s'"
    and X: "\<And>e s'. \<not> h \<Longrightarrow> X e s'"
  shows "wp h (Some (set_root_id E D V tbl pid s)) Q X"
proof -
  obtain m flh where m: "v (meta_id tbl) = Some m" "body m = Meta root cnt flh (tbl_schema tbl) (tbl_name tbl)" "free_chain v flh fl"
    and rest: "get_page_num (meta_id tbl) = 0" "get_table_id root = get_table_id (meta_id tbl)"
      "dom v = {PageId (get_table_id (meta_id tbl)) k | k. k < cnt}"
      "dom v = insert (meta_id tbl) (U \<union> set fl)" "meta_id tbl \<notin> U" "meta_id tbl \<notin> set fl" "U \<inter> set fl = {}"
    using sp by (rule spaceE)
  let ?m = "m\<lparr>body := Meta pid cnt flh (tbl_schema tbl) (tbl_name tbl)\<rparr>"
  have st: "storable E m" "pg_id m = meta_id tbl" using trk_storable [OF tr m(1)] by simp_all
  have "\<forall>x \<in> set_option flh. get_page_num x < cnt"
    using st(1) page_inv_meta [OF m(2)] by (auto simp: storable_def)
  then have st': "storable E ?m" by (rule storable_meta [OF st(1) m(2)])
  have "free_chain (v(meta_id tbl \<mapsto> ?m)) flh fl"
    using m(3) free_chain_upd_other [OF rest(6)] by simp
  moreover have "dom (v(meta_id tbl \<mapsto> ?m)) = dom v" using m(1) by auto
  ultimately have sp': "space tbl (v(meta_id tbl \<mapsto> ?m)) pid cnt fl U"
    using pid rest by (intro spaceI [where m = ?m]) simp_all
  show ?thesis
    unfolding set_root_id_def wp_simps
  proof (rule wp_fetch_write [OF E tr m(1) _ room])
    fix i s' assume s': "trk h n v (add_mset (wguard (meta_id tbl) i) H) s'"
    show "wp h (Some (write_deref_mut (PageWriteGuard i) (\<lambda>p. meta_set_root_id p pid) s'))
        (\<lambda>x s'. wp h (Some (drop_write E (PageWriteGuard i) s')) (\<lambda>_. Q x) (\<lambda>_. Q x))
        (\<lambda>e s'. wp h (Some (drop_write E (PageWriteGuard i) s')) (\<lambda>_. X (TablePage e)) (\<lambda>_. X (TablePage e)))"
      by (rule wp_deref_mut [OF s' m(1), where r = "Ok ()" and p' = ?m])
        (use m(2) st st' sp' Q in \<open>auto simp: meta_set_root_id_def wp_simps intro!: wp_drop_write\<close>)
  qed (use H rest(5) X in auto)
qed

end

section \<open>Allocating and freeing\<close>

lemma word_less_inc: "cnt \<noteq> - 1 \<Longrightarrow> k < cnt + 1 \<longleftrightarrow> k < cnt \<or> k = (cnt :: 'a :: len word)"
proof -
  assume "cnt \<noteq> - 1"
  then have "unat (cnt + 1) = Suc (unat cnt)"
    using unatSuc [of cnt] by (simp add: add.commute add_eq_0_iff)
  then show ?thesis by (simp only: word_less_nat_alt word_unat_eq_iff less_Suc_eq)
qed

lemma unat_inc: "cnt \<noteq> - 1 \<Longrightarrow> unat (cnt + 1) = unat (cnt :: 'a :: len word) + 1"
  using unatSuc [of cnt] by (simp add: add.commute add_eq_0_iff)

lemma space_grow:
  assumes sp: "space tbl v root cnt fl U" and cnt: "cnt \<noteq> - 1"
    and m: "v (meta_id tbl) = Some m" "body m = Meta root cnt None (tbl_schema tbl) (tbl_name tbl)"
  defines "x \<equiv> PageId (get_table_id (meta_id tbl)) cnt"
  shows "x \<notin> dom v" and "fl = []" and "space tbl (v(meta_id tbl \<mapsto> m\<lparr>body := Meta root (cnt + 1) None (tbl_schema tbl) (tbl_name tbl)\<rparr>, x \<mapsto> p)) root (cnt + 1) fl (insert x U)"
proof -
  obtain m' flh where m': "v (meta_id tbl) = Some m'" "body m' = Meta root cnt flh (tbl_schema tbl) (tbl_name tbl)" "free_chain v flh fl"
    and rest: "get_page_num (meta_id tbl) = 0" "get_table_id root = get_table_id (meta_id tbl)"
      "dom v = {PageId (get_table_id (meta_id tbl)) k | k. k < cnt}"
      "dom v = insert (meta_id tbl) (U \<union> set fl)" "meta_id tbl \<notin> U" "meta_id tbl \<notin> set fl" "U \<inter> set fl = {}"
    using sp by (rule spaceE)
  show fl: "fl = []" using m m' by (cases fl) auto
  have "meta_id tbl \<in> dom v" using m(1) by auto
  show x: "x \<notin> dom v" unfolding rest(3) x_def by simp
  let ?m = "m\<lparr>body := Meta root (cnt + 1) None (tbl_schema tbl) (tbl_name tbl)\<rparr>" and ?v = "v(meta_id tbl \<mapsto> m\<lparr>body := Meta root (cnt + 1) None (tbl_schema tbl) (tbl_name tbl)\<rparr>, x \<mapsto> p)"
  have ne: "x \<noteq> meta_id tbl" using x \<open>meta_id tbl \<in> dom v\<close> by blast
  have dom: "dom ?v = insert x (dom v)" using m(1) by auto
  show "space tbl ?v root (cnt + 1) fl (insert x U)"
  proof (rule spaceI)
    show "?v (meta_id tbl) = Some ?m" using ne by simp
    show "dom ?v = {PageId (get_table_id (meta_id tbl)) k | k. k < cnt + 1}"
      unfolding dom unfolding rest(3) x_def word_less_inc [OF cnt] by auto
    show "dom ?v = insert (meta_id tbl) (insert x U \<union> set fl)" unfolding dom rest(4) by auto
  qed (use rest(1,2,5) fl ne in auto)
qed

lemma space_pop:
  assumes sp: "space tbl v root cnt fl U"
    and m: "v (meta_id tbl) = Some m" "body m = Meta root cnt (Some x) (tbl_schema tbl) (tbl_name tbl)"
  obtains f nxt fl' where "fl = x # fl'" "v x = Some f" "pg_id f = x" "body f = Free nxt" "x \<notin> U" "x \<noteq> meta_id tbl"
    "\<forall>y \<in> set_option nxt. get_page_num y < cnt"
    "space tbl (v(meta_id tbl \<mapsto> m\<lparr>body := Meta root cnt nxt (tbl_schema tbl) (tbl_name tbl)\<rparr>, x \<mapsto> p)) root cnt fl' (insert x U)"
proof -
  obtain m' flh where m': "v (meta_id tbl) = Some m'" "body m' = Meta root cnt flh (tbl_schema tbl) (tbl_name tbl)" "free_chain v flh fl"
    and rest: "get_page_num (meta_id tbl) = 0" "get_table_id root = get_table_id (meta_id tbl)"
      "dom v = {PageId (get_table_id (meta_id tbl)) k | k. k < cnt}"
      "dom v = insert (meta_id tbl) (U \<union> set fl)" "meta_id tbl \<notin> U" "meta_id tbl \<notin> set fl" "U \<inter> set fl = {}"
    using sp by (rule spaceE)
  have ch: "free_chain v (Some x) fl" using m m' by simp
  then obtain fl' where fl: "fl = x # fl'" by (cases fl) auto
  then obtain f nxt where f: "v x = Some f" "pg_id f = x" "body f = Free nxt" "free_chain v nxt fl'"
    using ch by (auto split: option.splits page_body.splits)
  have dis: "x \<notin> set fl'" using free_chain_distinct [OF ch] fl by simp
  have x: "x \<notin> U" "x \<noteq> meta_id tbl" using rest(5-7) fl by auto
  have nxt: "get_page_num y < cnt" if "nxt = Some y" for y
  proof -
    have "y \<in> set fl'" using f(4) that by (cases fl') auto
    then have "y \<in> dom v" unfolding rest(4) fl by simp
    then show ?thesis unfolding rest(3) by auto
  qed
  let ?m = "m\<lparr>body := Meta root cnt nxt (tbl_schema tbl) (tbl_name tbl)\<rparr>" and ?v = "v(meta_id tbl \<mapsto> m\<lparr>body := Meta root cnt nxt (tbl_schema tbl) (tbl_name tbl)\<rparr>, x \<mapsto> p)"
  have dom: "dom ?v = dom v" using m(1) f(1) by auto
  have "space tbl ?v root cnt fl' (insert x U)"
  proof (rule spaceI)
    show "?v (meta_id tbl) = Some ?m" using x by simp
    show "free_chain ?v nxt fl'"
      using f(4) dis rest(6) fl free_chain_upd_other [of _ fl'] by simp
    show "dom ?v = {PageId (get_table_id (meta_id tbl)) k | k. k < cnt}" unfolding dom by (rule rest(3))
    show "dom ?v = insert (meta_id tbl) (insert x U \<union> set fl')" unfolding dom rest(4) fl by auto
  qed (use rest fl x dis in auto)
  then show thesis using that fl f x nxt by (metis elem_set)
qed

context buffer_pool begin

lemma trk_swap: "trk h n v (add_mset a (add_mset b H)) s \<Longrightarrow> trk h n v (add_mset b (add_mset a H)) s"
  by (simp add: add_mset_commute)

lemma wp_allocate:
  assumes E: "varint_ok E" and tr: "trk h n v H s" and sp: "space tbl v root cnt fl U" and H: "held H \<subseteq> U"
    and room: "h \<longrightarrow> size H + 1 < n" and cnt: "cnt \<noteq> - 1"
    and tb: "\<And>i. get_table_id i = get_table_id (meta_id tbl) \<Longrightarrow> i \<in> ids"
    and Q: "\<And>v' cnt' fl' x i s'. trk h n v' (add_mset (wguard x i) H) s' \<Longrightarrow>
      space tbl v' root cnt' fl' (insert x U) \<Longrightarrow> x \<notin> U \<Longrightarrow> v' x = Some (empty_page x (Free None)) \<Longrightarrow>
      (\<And>j. j \<in> U \<Longrightarrow> v' j = v j) \<Longrightarrow> unat cnt' \<le> unat cnt + 1 \<Longrightarrow> Q (PageWriteGuard i) s'"
    and X: "\<And>e s'. \<not> h \<Longrightarrow> X e s'"
  shows "wp h (Some (allocate E D V tbl s)) Q X"
proof -
  obtain m flh where m: "v (meta_id tbl) = Some m" "body m = Meta root cnt flh (tbl_schema tbl) (tbl_name tbl)"
    and rest: "get_table_id root = get_table_id (meta_id tbl)" "meta_id tbl \<notin> U"
    using sp by (rule spaceE)
  let ?x = "PageId (get_table_id (meta_id tbl)) cnt"
  have st: "storable E m" "pg_id m = meta_id tbl" using trk_storable [OF tr m(1)] by simp_all
  have mh: "meta_id tbl \<notin> held H" using H rest(2) by blast
  have head: "meta_get_free_list_head m = Ok flh" by (simp add: meta_get_free_list_head_def m(2))
  show ?thesis
    apply (simp only: allocate_def wp_simps)
    apply (rule wp_fetch_write [OF E tr m(1) mh])
      apply (use room in force)
     apply (rule wp_peek_write, assumption, rule m(1))
     apply (simp only: head wp_simps)
     apply (cases flh; simp only: option.case wp_simps)
  proof goal_cases
    case (1 i s1)
    let ?m = "m\<lparr>body := Meta root (cnt + 1) None (tbl_schema tbl) (tbl_name tbl)\<rparr>"
    note grow = space_grow [OF sp cnt m(1) m(2) [unfolded 1(2)]]
    have xU: "?x \<notin> U" using grow(1) space_dom [OF sp] by blast
    have bump: "meta_bump_page_count E m = (Ok ?x, ?m)"
      using cnt rest(1) by (simp add: meta_bump_page_count_def m(2) 1(2) Let_def)
    have st': "storable E ?m" by (rule storable_meta [OF st(1) m(2)]) simp
    show ?case
      apply (rule wp_deref_mut [where op = "meta_bump_page_count E", OF 1(1) m(1) bump])
        apply (simp add: st st')
       apply (simp only: wp_simps)
       apply (rule wp_new_page [OF E])
             apply assumption
      subgoal using grow(1) m(1) by (auto simp: empty_page_def)
      subgoal by (auto simp: empty_page_def intro!: tb)
      subgoal by (rule storable_free)
      subgoal using room by auto
      subgoal for s2 j s3
        apply (rule wp_drop_write [where pid = "meta_id tbl" and H = "add_mset (wguard ?x j) H"])
         apply (drule trk_swap, simp add: empty_page_def)
        apply (rule Q [where cnt' = "cnt + 1" and fl' = fl], assumption)
        subgoal using grow(3) by (simp add: empty_page_def)
        using xU rest(2) unat_inc [OF cnt] by (auto simp: empty_page_def)
      subgoal for s2 e s3
        by (rule wp_drop_write, assumption, rule X) simp
      by simp
  next
    case (2 i s1 x)
    obtain f nxt fl' where f: "fl = x # fl'" "v x = Some f" "pg_id f = x" "body f = Free nxt" "x \<notin> U"
        "x \<noteq> meta_id tbl" "\<forall>y \<in> set_option nxt. get_page_num y < cnt"
        "space tbl (v(meta_id tbl \<mapsto> m\<lparr>body := Meta root cnt nxt (tbl_schema tbl) (tbl_name tbl)\<rparr>, x \<mapsto> empty_page x (Free None)))
          root cnt fl' (insert x U)"
      by (rule space_pop [OF sp m(1) m(2) [unfolded 2(2)]])
    let ?m = "m\<lparr>body := Meta root cnt nxt (tbl_schema tbl) (tbl_name tbl)\<rparr>"
    have st': "storable E ?m" by (rule storable_meta [OF st(1) m(2) f(7)])
    then have pop: "free_list_pop E m f = (Ok x, ?m)"
      by (simp add: free_list_pop_def m(2) 2(2) f(3,4) storable_def Let_def)
    have xH: "x \<notin> held (add_mset (wguard (meta_id tbl) i) H)" using H f(5,6) by auto
    show ?case
      apply (rule wp_fetch_write [OF E 2(1) f(2) xH])
        apply (use room in simp)
      subgoal for j s2
        apply (rule wp_peek_write, assumption, rule f(2))
        apply (simp only: wp_simps f(3))
        apply (rule wp_deref_mut [where pid = "meta_id tbl" and op = "\<lambda>p. free_list_pop E p f" and p = m and r = "Ok x"
              and p' = ?m and v = v])
            apply (erule trk_swap)
           apply (rule m(1))
          apply (rule pop)
         apply (simp add: st st')
        subgoal for s3
          apply (simp only: wp_simps)
          apply (rule wp_overwrite [where pid = x and p = f])
              apply (erule trk_swap)
             apply (use f(2,6) in simp)
            apply (rule storable_free)
           apply (simp add: empty_page_def)
          subgoal for s4
            apply (rule wp_drop_write, erule trk_swap)
            apply (rule Q, assumption, rule f(8))
            using f(5,6) rest(2) by auto
          done
        by simp
      subgoal for e s2
        by (rule wp_drop_write, assumption, rule X) simp
      done
  qed (use X in auto)
qed

lemma wp_table_free:
  assumes E: "varint_ok E" and tr: "trk h n v (add_mset (wguard x j) H) s"
    and sp: "space tbl v root cnt fl U" and x: "x \<in> U" and H: "held H \<subseteq> U"
    and f: "v x = Some f" "body f = Free nxt" and room: "h \<longrightarrow> size H + 1 < n"
    and Q: "\<And>v' s'. trk h n v' H s' \<Longrightarrow> space tbl v' root cnt (x # fl) (U - {x}) \<Longrightarrow>
      (\<And>i. i \<in> U - {x} \<Longrightarrow> v' i = v i) \<Longrightarrow> Q () s'"
    and X: "\<And>e s'. \<not> h \<Longrightarrow> X e s'"
  shows "wp h (Some (table_free E D V tbl (PageWriteGuard j) s)) Q X"
proof -
  obtain m flh where m: "v (meta_id tbl) = Some m" "body m = Meta root cnt flh (tbl_schema tbl) (tbl_name tbl)" "free_chain v flh fl"
    and rest: "get_page_num (meta_id tbl) = 0" "get_table_id root = get_table_id (meta_id tbl)"
      "dom v = {PageId (get_table_id (meta_id tbl)) k | k. k < cnt}"
      "dom v = insert (meta_id tbl) (U \<union> set fl)" "meta_id tbl \<notin> U" "meta_id tbl \<notin> set fl" "U \<inter> set fl = {}"
    using sp by (rule spaceE)
  have st: "storable E m" "pg_id m = meta_id tbl" "storable E f" "pg_id f = x"
    using trk_storable [OF tr m(1)] trk_storable [OF tr f(1)] by simp_all
  have ne: "x \<noteq> meta_id tbl" and xfl: "x \<notin> set fl" using x rest(5,7) by auto
  have "x \<in> dom v" using f(1) by blast
  then obtain k where k: "x = PageId (get_table_id (meta_id tbl)) k" "k < cnt" unfolding rest(3) by blast
  have "k \<noteq> 0" using k(1) ne rest(1) by (cases "meta_id tbl") auto
  then have k0: "0 < k" by (simp add: word_gt_0)
  have head: "flh \<noteq> Some x" using m(3) xfl by (cases fl) auto
  let ?m = "m\<lparr>body := Meta root cnt (Some x) (tbl_schema tbl) (tbl_name tbl)\<rparr>" and ?f = "f\<lparr>body := Free flh\<rparr>"
  have st': "storable E ?m" "storable E ?f"
    using storable_meta [OF st(1) m(2), of "Some x" cnt root] k storable_free(2) [OF st(3)] by simp_all
  then have push: "free_list_push E m f = (Ok (), ?m, ?f)"
    using k k0 head rest(2) by (simp add: free_list_push_def m(2) f(2) st(4) storable_def Let_def not_le)
  let ?v = "v(meta_id tbl \<mapsto> ?m, x \<mapsto> ?f)"
  have dom: "dom ?v = dom v" using m(1) f(1) by auto
  have "space tbl ?v root cnt (x # fl) (U - {x})"
  proof (rule spaceI)
    show "?v (meta_id tbl) = Some ?m" using ne by simp
    show "free_chain ?v (Some x) (x # fl)"
      using m(3) xfl rest(6) ne st(4) by (simp add: free_chain_upd_other)
    show "dom ?v = {PageId (get_table_id (meta_id tbl)) k | k. k < cnt}" unfolding dom by (rule rest(3))
    show "dom ?v = insert (meta_id tbl) (U - {x} \<union> set (x # fl))" unfolding dom rest(4) using x by auto
  qed (use rest ne in auto)
  note sp' = this
  have mH: "meta_id tbl \<notin> held (add_mset (wguard x j) H)" using H rest(5) ne by auto
  show ?thesis
    apply (simp only: table_free_def wp_simps)
    apply (rule wp_fetch_write [OF E tr m(1) mH])
      apply (use room in simp)
    subgoal for i s1
      apply (rule wp_deref_mut2 [where a = "meta_id tbl" and b = x and v = v and p = m and q = f and op = "free_list_push E"
            and r = "Ok ()" and p' = ?m and q' = ?f], assumption)
              apply (rule m(1))
             apply (rule f(1))
            apply (rule push)
           apply simp
          apply (rule st'(1))
         apply (simp add: st)
        apply (rule st'(2))
       apply (simp add: st)
      apply (simp only: wp_simps)
      apply (rule wp_drop_write, assumption)
      apply (rule wp_drop_write, assumption)
      apply (rule Q, assumption, rule sp')
      using rest(5) by auto
    subgoal for e s1
      by (rule wp_drop_write, assumption, rule X) simp
    done
qed
end

end
