(* ===== verification/BTree_Search.thy ===== *)
theory BTree_Search
  imports BTree Table_Space
begin

text \<open>
  Looking up in the tree: the pages of a table hold a tree (\<open>tree_in\<close>), and the calls that only read
  return what the map of its rows says, change no page, and give back every guard.
\<close>

section \<open>The tree of a table\<close>

definition tree_in :: "env \<Rightarrow> pages \<Rightarrow> nat \<Rightarrow> btree \<Rightarrow> bool" where
  "tree_in E v n t \<longleftrightarrow>
     rep v t \<and> wf_tree E n None None t \<and> links v None (leaf_ids t) None \<and> distinct (pids t)"

text \<open>A subtree in its place.\<close>

definition place :: "env \<Rightarrow> pages \<Rightarrow> nat \<Rightarrow> crumb list \<Rightarrow> btree \<Rightarrow> bool" where
  "place E v n cs t \<longleftrightarrow>
     rep v t \<and> rep_path v (tid t) cs \<and> path_ok E n cs \<and> wf_tree E n (hole_low cs) (hole_high cs) t"

lemma place_root: "tree_in E v n t \<Longrightarrow> place E v n [] t"
  by (simp add: tree_in_def place_def)

text \<open>One level down, along the page the key is routed to.\<close>

lemma place_down:
  assumes pl: "place E v (Suc n) cs t" and inv: "\<And>p. v (tid t) = Some p \<Longrightarrow> page_inv E p"
    and k: "within (hole_low cs) (hole_high cs) k"
  obtains i p ks ps as a t' bs where "t = Branch i (as @ (a, t') # bs)" "v (tid t) = Some p"
    "body p = Internal ks ps" "ks = seps (map fst (as @ (a, t') # bs))" "ps = tids (as @ (a, t') # bs)"
    "length as = route_pos k ks" "find_child p k = Ok (Some (tid t'))"
    "find_child_index p k = Ok (Some (ChildIndex (length as), tid t'))"
    "place E v n ((i, as, a, bs) # cs) t'" "within a (low bs (hole_high cs)) k"
proof -
  obtain i xs where t: "t = Branch i xs" and xs: "xs \<noteq> []" "fst (hd xs) = hole_low cs"
      "chain (wf_tree E n) (hole_high cs) xs"
    using pl by (auto simp: place_def)
  obtain as a t' bs where s: "xs = as @ (a, t') # bs" "length as = route_pos k (seps (map fst xs))"
      "within a (low bs (hole_high cs)) k"
    using chain_route [OF xs(3,1)] k xs(2) by metis
  obtain p where p: "v (tid t) = Some p" "body p = Internal (seps (map fst xs)) (tids xs)"
    using pl t by (auto simp: place_def)
  note f = find_child_eq [OF p(2) inv [OF p(1)], of k] find_child_index_eq [OF p(2) inv [OF p(1)], of k]
  have "tids xs ! length as = tid t'" by (simp add: s(1) nth_append)
  then have f: "find_child p k = Ok (Some (tid t'))" "find_child_index p k = Ok (Some (ChildIndex (length as), tid t'))"
    using f s(2) by simp_all
  have "path_ok E n ((i, as, a, bs) # cs)" "wf_tree E n a (low bs (hole_high cs)) t'"
    using path_ok_step [of E n cs i as a t' bs] pl t s(1) by (simp_all add: place_def)
  then have "place E v n ((i, as, a, bs) # cs) t'" using pl t s(1) p by (auto simp: place_def)
  then show thesis using that [OF _ p(1) p(2)] t s f by simp
qed

lemma place_leaf:
  assumes "place E v 0 cs t"
  obtains i rs p nx pv where "t = Tip i rs" "v (tid t) = Some p" "body p = Leaf rs nx pv" "rows_ok E rs"
    "\<forall>r \<in> set rs. within (hole_low cs) (hole_high cs) (the_key r)"
  using assms that by (auto simp: place_def)

lemma place_page: "place E v n cs t \<Longrightarrow> \<exists>p. v (tid t) = Some p \<and> (is_internal p \<longleftrightarrow> n \<noteq> 0)"
  by (cases n) (auto simp: place_def kind_defs)

lemma place_lookup:
  "place E v n cs t \<Longrightarrow> within (hole_low cs) (hole_high cs) k \<Longrightarrow>
    rows_map (rows (plug cs t)) k = rows_map (rows t) k"
  using rows_map_around by (auto simp: place_def rows_plug)

section \<open>Descending\<close>

context buffer_pool begin

lemma trk_inv: "trk h n v H s \<Longrightarrow> v pid = Some p \<Longrightarrow> page_inv E p"
  using trk_storable [of h n v H s pid p] by (simp add: storable_def)

lemma wp_get_root_read:
  assumes E: "varint_ok E" and tr: "trk h n v {#} s" and sp: "space tbl v root cnt fl U" and root: "root \<in> U"
    and room: "h \<longrightarrow> 2 < n" and Q: "\<And>i s'. trk h n v {#rguard root i#} s' \<Longrightarrow> Q (PageReadGuard i) s'"
    and X: "\<And>e s'. \<not> h \<Longrightarrow> trk h n v {#} s' \<Longrightarrow> X e s'"
  shows "wp h (get_root_read E D V tbl s) Q X"
  unfolding get_root_read_def
proof (rule wp_loop [where I = "\<lambda>k x s. trk h n v {#} s" and k = 0])
  obtain p where p: "v root = Some p" using space_dom [OF sp root] by blast
  fix k :: nat and x s assume tr: "trk h n v {#} s"
  show "wp h (Some (sbind (sexpect (root_id E D V tbl)) (\<lambda>rid.
       sbind (lift_err BTreeBpm (fetch_read E D V rid)) (\<lambda>guard.
       sbind (sexpect (root_id E D V tbl)) (\<lambda>rid'.
         if rid' = rid then sreturn (Inr guard)
         else sbind (lift_err BTreeBpm (drop_read E guard)) (\<lambda>_. sreturn (Inl ()))))) s))
     (\<lambda>r s'. case r of Inl x' \<Rightarrow> \<exists>k' < k. trk h n v {#} s' | Inr y \<Rightarrow> Q y s') X"
    unfolding wp_simps
    apply (rule wp_root_id [OF E tr sp])
       apply simp
    subgoal using room by auto
    subgoal for s1
      apply (rule wp_fetch_read [where v = v, OF E], assumption, rule p)
      subgoal by simp
      subgoal using room by auto
      subgoal for i s2
        apply (rule wp_root_id [where v = v, OF E], assumption, rule sp)
        using root room Q by (auto simp: wp_simps)
      subgoal by (rule X)
      done
    by simp
qed (rule tr)

text \<open>The loop of \<^verbatim>\<open>get\<close>, over the height that is left.\<close>

definition at_read :: "bool \<Rightarrow> nat \<Rightarrow> pages \<Rightarrow> btree \<Rightarrow> key \<Rightarrow> nat \<Rightarrow> page_read_guard \<Rightarrow> ('d, 'e) bpm \<Rightarrow> bool" where
  "at_read h n v t key k g s \<longleftrightarrow> (\<exists>i cs t'. g = PageReadGuard i \<and> trk h n v {#rguard (tid t') i#} s \<and>
     plug cs t' = t \<and> place E v k cs t' \<and> within (hole_low cs) (hole_high cs) key)"

lemma wp_get_step:
  assumes E: "varint_ok E" and at: "at_read h n v t key k g s" and dis: "distinct (pids t)" and room: "h \<longrightarrow> 2 < n"
    and X: "\<And>e s'. \<not> h \<Longrightarrow> trk h n v {#} s' \<Longrightarrow> X e s'"
  shows "wp h (Some (get_step E D V key g s))
    (\<lambda>r s'. case r of Inl g' \<Rightarrow> (\<exists>k' < k. at_read h n v t key k' g' s') | Inr g' \<Rightarrow> at_read h n v t key 0 g' s') X"
proof -
  obtain i cs t' where g: "g = PageReadGuard i" and tr: "trk h n v {#rguard (tid t') i#} s" and t: "plug cs t' = t"
      and pl: "place E v k cs t'" and wi: "within (hole_low cs) (hole_high cs) key"
    using at by (auto simp: at_read_def)
  obtain p where p: "v (tid t') = Some p" "is_internal p \<longleftrightarrow> k \<noteq> 0" using place_page [OF pl] by blast
  show ?thesis
  proof (cases k)
    case 0
    then have "at_read h n v t key 0 g s" using at by simp
    then show ?thesis
      unfolding get_step_def g wp_simps
      by (intro wp_peek_read [OF tr p(1)]) (simp add: wp_simps p(2) 0)
  next
    case (Suc m)
    obtain j as a t2 bs where d: "t' = Branch j (as @ (a, t2) # bs)" "find_child p key = Ok (Some (tid t2))"
        "place E v m ((j, as, a, bs) # cs) t2" "within a (low bs (hole_high cs)) key"
      by (rule place_down [OF pl [unfolded Suc] trk_inv [OF tr] wi]) (use p(1) in auto)
    obtain q where q: "v (tid t2) = Some q" using place_page [OF d(3)] by blast
    have "distinct (pids t')" using dis t distinct_plug [of cs t'] by simp
    then have ne: "tid t2 \<noteq> tid t'" using d(1) by auto
    have down: "at_read h n v t key m (PageReadGuard i') s'" if "trk h n v {#rguard (tid t2) i'#} s'" for i' s'
      using that t d unfolding at_read_def
      by (intro exI [of _ i'] exI [of _ "(j, as, a, bs) # cs"] exI [of _ t2]) auto
    show ?thesis
      unfolding get_step_def g wp_simps
      apply (rule wp_peek_read [OF tr p(1)])
      apply (simp add: wp_simps d(2) p(2) Suc)
      apply (rule wp_fetch_read [OF E tr q])
      subgoal using ne by simp
      subgoal using room by auto
      subgoal for i' s' by (drule trk_swap, rule wp_drop_read, assumption) (use down in \<open>auto simp: wp_simps\<close>)
      subgoal for e s' by (rule wp_drop_read, assumption, rule X)
      done
  qed
qed

text \<open>\<open>get\<close> as a whole.\<close>

lemma wp_btree_get:
  assumes E: "varint_ok E" and tr: "trk h n v {#} s" and sp: "space tbl v (tid t) cnt fl (set (pids t))"
    and ti: "tree_in E v m t" and room: "h \<longrightarrow> 2 < n"
    and Q: "\<And>s'. trk h n v {#} s' \<Longrightarrow> Q (rows_map (rows t) key) s'"
    and X: "\<And>e s'. \<not> h \<Longrightarrow> trk h n v {#} s' \<Longrightarrow> X e s'"
  shows "wp h (btree_get E D V tbl key s) Q X"
  unfolding btree_get_def wp_simps
proof (rule wp_get_root_read [OF E tr sp tid_in_ids room])
  fix i s1 assume s1: "trk h n v {#rguard (tid t) i#} s1"
  show "wp h (loop (get_step E D V key) (PageReadGuard i) s1)
     (\<lambda>x s'. wp h (Some (peek_read x (\<lambda>p. leaf_get p key) s'))
        (\<lambda>xa s'. wp h (Some (drop_read E x s')) (\<lambda>_. Q xa) (\<lambda>_. Q xa))
        (\<lambda>e s'. wp h (Some (drop_read E x s')) (\<lambda>_. X (BTreePage e)) (\<lambda>_. X (BTreePage e)))) X"
  proof (rule wp_loop [where I = "at_read h n v t key" and k = m], goal_cases)
    case 1
    then show ?case using s1 place_root [OF ti] unfolding at_read_def
      by (intro exI [of _ i] exI [of _ "[]"] exI [of _ t]) simp
  next
    case (2 k g s2)
    have "distinct (pids t)" using ti by (simp add: tree_in_def)
    then show ?case
    proof (rule wp_mono [OF wp_get_step [OF E 2 _ room X]], goal_cases)
      case (3 r s3)
      show ?case
      proof (cases r)
        case (Inr g')
        then obtain i cs t' where g: "g' = PageReadGuard i" and tr: "trk h n v {#rguard (tid t') i#} s3"
            and t: "plug cs t' = t" and pl: "place E v 0 cs t'" and wi: "within (hole_low cs) (hole_high cs) key"
          using 3 by (auto simp: at_read_def)
        obtain j rs p nx pv where l: "t' = Tip j rs" "v (tid t') = Some p" "body p = Leaf rs nx pv" "rows_ok E rs"
          using place_leaf [OF pl] by metis
        have "rows_map (rows t) key = rows_map rs key" using place_lookup [OF pl wi] t l(1) by simp
        then show ?thesis
          using Inr Q leaf_get_eq [OF l(3,4)] g
          by (auto simp: wp_simps intro!: wp_peek_read [OF tr l(2)] wp_drop_read [OF tr])
      qed (use 3 in auto)
    qed
  qed
qed (rule X)

end

section \<open>Ranges\<close>

fun key_before :: "key \<Rightarrow> bound \<Rightarrow> bool" where
  "key_before k Unbounded \<longleftrightarrow> False"
| "key_before k (Included b) \<longleftrightarrow> k < b"
| "key_before k (Excluded b) \<longleftrightarrow> k \<le> b"

fun key_past :: "key \<Rightarrow> bound \<Rightarrow> bool" where
  "key_past k Unbounded \<longleftrightarrow> False"
| "key_past k (Included b) \<longleftrightarrow> b < k"
| "key_past k (Excluded b) \<longleftrightarrow> b \<le> k"

definition in_range :: "bound \<Rightarrow> bound \<Rightarrow> (row \<Rightarrow> bool) \<Rightarrow> row \<Rightarrow> bool" where
  "in_range start stop f r \<longleftrightarrow> \<not> key_before (the_key r) start \<and> \<not> key_past (the_key r) stop \<and> f r"

lemma before_start_eq: "row_fits E r \<Longrightarrow> before_start r b = Ok (key_before (the_key r) b)"
  by (cases b) (use row_fits_key [of E r] in \<open>auto simp: cmp_key_row_key cmp_def\<close>)

lemma past_end_eq: "row_fits E r \<Longrightarrow> past_end r b = Ok (key_past (the_key r) b)"
  by (cases b) (use row_fits_key [of E r] in \<open>auto simp: cmp_key_row_key cmp_def\<close>)

lemma key_past_mono: "key_past k b \<Longrightarrow> k < k' \<Longrightarrow> key_past k' b"
  by (cases b) auto

lemma scan_rows_eq:
  "rows_ok E rs \<Longrightarrow> scan_rows start stop f rs acc =
    Ok (acc @ filter (in_range start stop f) rs,
      \<exists>r \<in> set rs. \<not> key_before (the_key r) start \<and> key_past (the_key r) stop)"
proof (induction rs arbitrary: acc)
  case (Cons r rs)
  have r: "row_fits E r" "rows_ok E rs" "\<And>r'. r' \<in> set rs \<Longrightarrow> the_key r < the_key r'"
    using Cons.prems by (auto simp: rows_ok_iff row_keys_def)
  have "filter (in_range start stop f) rs = []" if "key_past (the_key r) stop"
    using that r(3) key_past_mono by (auto simp: filter_empty_conv in_range_def)
  moreover have "in_range start stop f r \<longleftrightarrow> \<not> key_before (the_key r) start \<and> \<not> key_past (the_key r) stop \<and> f r"
    by (simp add: in_range_def)
  ultimately show ?case using Cons.IH [OF r(2)] r(1)
    by (auto simp: before_start_eq past_end_eq)
qed simp

lemma leaf_ids_distinct: "distinct (pids t) \<Longrightarrow> distinct (leaf_ids t)"
proof (induction t rule: pids.induct)
  case (2 i xs)
  have "distinct (item_ids xs)" using 2(2) by simp
  then have "distinct (item_leaf_ids xs)" using 2(1)
  proof (induction xs)
    case (Cons x xs)
    then have "distinct (leaf_ids (snd x))" "distinct (item_leaf_ids xs)" by auto
    moreover have "set (pids (snd x)) \<inter> set (item_ids xs) = {}" using Cons.prems(1) by simp
    then have "set (leaf_ids (snd x)) \<inter> set (item_leaf_ids xs) = {}"
      using leaf_ids_subset [of "snd x"] item_leaf_subset [of xs] by blast
    ultimately show ?case by simp
  qed simp
  then show ?case by simp
qed simp

text \<open>The rows of the leaf a page is.\<close>

definition leaf_rows :: "pages \<Rightarrow> page_id \<Rightarrow> row list" where
  "leaf_rows v i = (case v i of Some p \<Rightarrow> (case body p of Leaf rs nx pv \<Rightarrow> rs | _ \<Rightarrow> []) | None \<Rightarrow> [])"

lemma rep_rows: "rep v t \<Longrightarrow> rows t = concat (map (leaf_rows v) (leaf_ids t))"
proof (induction t rule: rows.induct)
  case (2 i xs)
  then have "rows (snd x) = concat (map (leaf_rows v) (leaf_ids (snd x)))" if "x \<in> set xs" for x
    using that by auto
  then have "map (\<lambda>x. rows (snd x)) xs = map (\<lambda>x. concat (map (leaf_rows v) (leaf_ids (snd x)))) xs" by simp
  then show ?case by (induction xs) auto
qed (auto simp: leaf_rows_def)

lemma links_at:
  "links v pv (xs @ i # ls) nx \<Longrightarrow> \<exists>p rs. v i = Some p \<and>
    body p = Leaf rs (case ls of [] \<Rightarrow> nx | j # _ \<Rightarrow> Some j) (if xs = [] then pv else Some (last xs))"
  by (auto simp: links_append split: if_splits)

text \<open>The path to the leaf where a range starts: every row to its left is before the start.\<close>

fun starts :: "bound \<Rightarrow> crumb list \<Rightarrow> bool" where
  "starts Unbounded cs \<longleftrightarrow> left_leaves cs = []"
| "starts (Included k) cs \<longleftrightarrow> within (hole_low cs) (hole_high cs) k"
| "starts (Excluded k) cs \<longleftrightarrow> within (hole_low cs) (hole_high cs) k"

lemma starts_root [simp]: "starts b []"
  by (cases b) simp_all

lemma left_rows_leaves: "rep_path v hid cs \<Longrightarrow> left_rows cs = concat (map (leaf_rows v) (left_leaves cs))"
proof (induction cs arbitrary: hid)
  case (Cons c cs)
  obtain i as a bs where c: "c = (i, as, a, bs)" by (cases c)
  have "\<forall>x \<in> set as. rep v (snd x)" using Cons.prems c by auto
  then have "item_rows as = concat (map (leaf_rows v) (item_leaf_ids as))"
    by (induction as) (auto simp: rep_rows)
  then show ?case using Cons c by auto
qed simp

lemma starts_before:
  assumes "starts b cs" and "path_ok E n cs" and "rep_path v hid cs" and "r \<in> set (left_rows cs)"
  shows "key_before (the_key r) b"
proof (cases b)
  case Unbounded
  then show ?thesis using assms left_rows_leaves [OF assms(3)] by simp
next
  case (Included k)
  then have w: "within (hole_low cs) (hole_high cs) k" using assms(1) by simp
  then show ?thesis
    using path_rows_apart [OF assms(2) refl refl within_lt [OF w]] assms(4) Included by (fastforce simp: within_def)
next
  case (Excluded k)
  then have w: "within (hole_low cs) (hole_high cs) k" using assms(1) by simp
  then show ?thesis
    using path_rows_apart [OF assms(2) refl refl within_lt [OF w]] assms(4) Excluded by (fastforce simp: within_def)
qed

definition range_child :: "bound \<Rightarrow> page \<Rightarrow> (page_id, btree_error) result" where
  "range_child start p =
     (case start of
       Unbounded \<Rightarrow> rbind (expect (page_children (body p))) (\<lambda>cs. expect (vec_first cs))
     | Included k \<Rightarrow> rbind (map_err BTreePage (find_child p k)) expect
     | Excluded k \<Rightarrow> rbind (map_err BTreePage (find_child p k)) expect)"

lemma place_down_range:
  assumes pl: "place E v (Suc n) cs t" and inv: "\<And>p. v (tid t) = Some p \<Longrightarrow> page_inv E p" and st: "starts start cs"
  obtains i p as a t' bs where "t = Branch i (as @ (a, t') # bs)" "v (tid t) = Some p"
    "range_child start p = Ok (tid t')" "place E v n ((i, as, a, bs) # cs) t'" "starts start ((i, as, a, bs) # cs)"
proof (cases start)
  case Unbounded
  obtain i xs where t: "t = Branch i xs" and xs: "xs \<noteq> []" using pl by (auto simp: place_def)
  then obtain a t' bs where s: "xs = [] @ (a, t') # bs" by (cases xs) auto
  obtain p where p: "v (tid t) = Some p" "body p = Internal (seps (map fst xs)) (tids xs)"
    using pl t by (auto simp: place_def)
  have "path_ok E (Suc n) cs" "wf_tree E (Suc n) (hole_low cs) (hole_high cs) (Branch i ([] @ (a, t') # bs))"
    using pl t s by (simp_all only: place_def)
  note down = path_ok_step [OF this]
  have "rep v (Branch i ((a, t') # bs))" "rep_path v i cs" using pl t s by (simp_all add: place_def)
  then have "rep v t'" "rep_path v (tid t') ((i, [], a, bs) # cs)" by simp_all
  then have "place E v n ((i, [], a, bs) # cs) t'"
    unfolding place_def using down by (simp only: hole_low.simps hole_high.simps simp_thms)
  moreover have "range_child start p = Ok (tid t')" by (simp add: range_child_def Unbounded p(2) s)
  moreover have "starts start ((i, [], a, bs) # cs)" using st by (simp add: Unbounded)
  moreover have "t = Branch i ([] @ (a, t') # bs)" using t s by simp
  ultimately show thesis using that [of i "[]" a t' bs p] p(1) by simp
next
  case (Included k)
  then have w: "within (hole_low cs) (hole_high cs) k" using st by simp
  show thesis
  proof (rule place_down [OF pl inv w], assumption)
    fix i p ks ps as a t' bs
    assume d: "t = Branch i (as @ (a, t') # bs)" "v (tid t) = Some p" "find_child p k = Ok (Some (tid t'))"
      "place E v n ((i, as, a, bs) # cs) t'" "within a (low bs (hole_high cs)) k"
    have "range_child start p = Ok (tid t')" using d(3) by (simp add: range_child_def Included)
    moreover have "starts start ((i, as, a, bs) # cs)" using d(5) by (simp add: Included)
    ultimately show thesis using that [OF d(1,2) _ d(4)] by simp
  qed
next
  case (Excluded k)
  then have w: "within (hole_low cs) (hole_high cs) k" using st by simp
  show thesis
  proof (rule place_down [OF pl inv w], assumption)
    fix i p ks ps as a t' bs
    assume d: "t = Branch i (as @ (a, t') # bs)" "v (tid t) = Some p" "find_child p k = Ok (Some (tid t'))"
      "place E v n ((i, as, a, bs) # cs) t'" "within a (low bs (hole_high cs)) k"
    have "range_child start p = Ok (tid t')" using d(3) by (simp add: range_child_def Excluded)
    moreover have "starts start ((i, as, a, bs) # cs)" using d(5) by (simp add: Excluded)
    ultimately show thesis using that [OF d(1,2) _ d(4)] by simp
  qed
qed

context buffer_pool begin

definition at_range :: "bool \<Rightarrow> nat \<Rightarrow> pages \<Rightarrow> btree \<Rightarrow> bound \<Rightarrow> nat \<Rightarrow> page_read_guard \<Rightarrow> ('d, 'e) bpm \<Rightarrow> bool" where
  "at_range h n v t start k g s \<longleftrightarrow> (\<exists>i cs t'. g = PageReadGuard i \<and> trk h n v {#rguard (tid t') i#} s \<and>
     plug cs t' = t \<and> place E v k cs t' \<and> starts start cs)"

lemma wp_range_step:
  assumes E: "varint_ok E" and at: "at_range h n v t start k g s" and dis: "distinct (pids t)" and room: "h \<longrightarrow> 2 < n"
    and X: "\<And>e s'. \<not> h \<Longrightarrow> trk h n v {#} s' \<Longrightarrow> X e s'"
  shows "wp h (Some (range_step E D V start g s))
    (\<lambda>r s'. case r of Inl g' \<Rightarrow> (\<exists>k' < k. at_range h n v t start k' g' s') | Inr g' \<Rightarrow> at_range h n v t start 0 g' s') X"
proof -
  obtain i cs t' where g: "g = PageReadGuard i" and tr: "trk h n v {#rguard (tid t') i#} s" and t: "plug cs t' = t"
      and pl: "place E v k cs t'" and st: "starts start cs"
    using at by (auto simp: at_range_def)
  obtain p where p: "v (tid t') = Some p" "is_internal p \<longleftrightarrow> k \<noteq> 0" using place_page [OF pl] by blast
  note step = range_step_def [folded range_child_def]
  show ?thesis
  proof (cases k)
    case 0
    then have "at_range h n v t start 0 g s" using at by simp
    then show ?thesis
      unfolding step g wp_simps
      by (intro wp_peek_read [OF tr p(1)]) (simp add: wp_simps p(2) 0)
  next
    case (Suc m)
    obtain j as a t2 bs where d: "t' = Branch j (as @ (a, t2) # bs)" "range_child start p = Ok (tid t2)"
        "place E v m ((j, as, a, bs) # cs) t2" "starts start ((j, as, a, bs) # cs)"
      by (rule place_down_range [OF pl [unfolded Suc] trk_inv [OF tr] st]) (use p(1) in auto)
    obtain q where q: "v (tid t2) = Some q" using place_page [OF d(3)] by blast
    have "distinct (pids t')" using dis t distinct_plug [of cs t'] by simp
    then have ne: "tid t2 \<noteq> tid t'" using d(1) by auto
    have down: "at_range h n v t start m (PageReadGuard i') s'" if "trk h n v {#rguard (tid t2) i'#} s'" for i' s'
      using that t d unfolding at_range_def
      by (intro exI [of _ i'] exI [of _ "(j, as, a, bs) # cs"] exI [of _ t2]) auto
    show ?thesis
      unfolding step g wp_simps
      apply (rule wp_peek_read [OF tr p(1)])
      apply (simp add: wp_simps d(2) p(2) Suc)
      apply (rule wp_fetch_read [OF E tr q])
      subgoal using ne by simp
      subgoal using room by auto
      subgoal for i' s' by (drule trk_swap, rule wp_drop_read, assumption) (use down in \<open>auto simp: wp_simps\<close>)
      subgoal for e s' by (rule wp_drop_read, assumption, rule X)
      done
  qed
qed

text \<open>The walk along the leaves, over the number of leaves that follow.\<close>

definition at_leaves ::
  "bool \<Rightarrow> nat \<Rightarrow> pages \<Rightarrow> btree \<Rightarrow> (row \<Rightarrow> bool) \<Rightarrow> nat \<Rightarrow> page_read_guard \<times> row list \<Rightarrow> ('d, 'e) bpm \<Rightarrow> bool" where
  "at_leaves h n v t P k x s \<longleftrightarrow> (\<exists>i b xs ls. x = (PageReadGuard i, filter P (concat (map (leaf_rows v) xs))) \<and>
     trk h n v {#rguard b i#} s \<and> leaf_ids t = xs @ b # ls \<and> length ls = k)"

lemma wp_leaves_step:
  assumes E: "varint_ok E" and at: "at_leaves h n v t (in_range start stop f) k x s" and ti: "tree_in E v m t"
    and room: "h \<longrightarrow> 2 < n" and Q: "\<And>s'. trk h n v {#} s' \<Longrightarrow> Q (filter (in_range start stop f) (rows t)) s'"
    and X: "\<And>e s'. \<not> h \<Longrightarrow> trk h n v {#} s' \<Longrightarrow> X e s'"
  shows "wp h (Some (leaves_step E D V start stop f x s))
    (\<lambda>r s'. case r of Inl x' \<Rightarrow> (\<exists>k' < k. at_leaves h n v t (in_range start stop f) k' x' s') | Inr rs \<Rightarrow> Q rs s') X"
proof -
  let ?P = "in_range start stop f"
  obtain i b xs ls where x: "x = (PageReadGuard i, filter ?P (concat (map (leaf_rows v) xs)))"
      and tr: "trk h n v {#rguard b i#} s" and l: "leaf_ids t = xs @ b # ls" and k: "length ls = k"
    using at by (auto simp: at_leaves_def)
  obtain p rs where p: "v b = Some p"
      "body p = Leaf rs (case ls of [] \<Rightarrow> None | j # _ \<Rightarrow> Some j) (if xs = [] then None else Some (last xs))"
    using ti l links_at [of v None xs b ls None] by (auto simp: tree_in_def)
  have all: "rows t = concat (map (leaf_rows v) xs) @ rs @ concat (map (leaf_rows v) ls)"
    using ti rep_rows [of v t] l p by (simp add: tree_in_def leaf_rows_def)
  have ok: "rows_ok E (rows t)" using ti wfk_rows_ok by (auto simp: tree_in_def)
  then have rs: "rows_ok E rs" by (simp add: all rows_ok_append)
  let ?past = "\<exists>r \<in> set rs. \<not> key_before (the_key r) start \<and> key_past (the_key r) stop"
  note scan = scan_rows_eq [OF rs, of start stop f "filter ?P (concat (map (leaf_rows v) xs))"]
  have stop: "filter ?P (concat (map (leaf_rows v) ls)) = []" if past: ?past
  proof -
    obtain r where r: "r \<in> set rs" "key_past (the_key r) stop" using past by blast
    have "the_key r < the_key r'" if "r' \<in> set (concat (map (leaf_rows v) ls))" for r'
      using ok r(1) that by (auto simp: all rows_ok_append)
    then show ?thesis using key_past_mono [OF r(2)] by (auto simp: filter_empty_conv in_range_def)
  qed
  have page: "page_records (body p) = Some rs" "page_next (body p) = Ok (case ls of [] \<Rightarrow> None | j # _ \<Rightarrow> Some j)"
    by (simp_all add: p(2))
  have fin: "Q (filter ?P (concat (map (leaf_rows v) xs)) @ filter ?P rs) s'"
    if s': "trk h n v {#} s'" and fin: "?past \<or> ls = []" for s'
  proof -
    have "filter ?P (concat (map (leaf_rows v) ls)) = []" using fin stop by (elim disjE) simp_all
    then show ?thesis using Q [OF s'] by (simp add: all)
  qed
  show ?thesis
  proof (cases "?past \<or> ls = []")
    case True
    show ?thesis
      unfolding leaves_step_def x prod.case wp_simps
      apply (rule wp_peek_read [OF tr p(1)])
      apply (simp only: wp_simps page scan rbind.simps expect.simps)
      using True fin by (auto simp: wp_simps page intro!: wp_drop_read [OF tr])
  next
    case False
    then have np: "?past = False" by blast
    obtain j ls' where ls: "ls = j # ls'" using False by (cases ls) auto
    have "b \<noteq> j" using ls l ti leaf_ids_distinct [of t] by (auto simp: tree_in_def)
    obtain q where q: "v j = Some q"
      using ti l ls links_at [of v None "xs @ [b]" j ls' None] by (auto simp: tree_in_def)
    have go: "at_leaves h n v t ?P (length ls') (PageReadGuard i', filter ?P (concat (map (leaf_rows v) xs)) @ filter ?P rs) s'"
      if "trk h n v {#rguard j i'#} s'" for i' s'
      using that l ls p unfolding at_leaves_def
      by (intro exI [of _ i'] exI [of _ j] exI [of _ "xs @ [b]"] exI [of _ ls']) (auto simp: leaf_rows_def)
    show ?thesis
      unfolding leaves_step_def x prod.case wp_simps
      apply (rule wp_peek_read [OF tr p(1)])
      apply (simp only: wp_simps page scan np rbind.simps expect.simps prod.case)
      apply (simp only: ls list.case option.case if_False wp_simps page map_err.simps)
      apply (rule wp_fetch_read [OF E tr q])
      subgoal using \<open>b \<noteq> j\<close> by simp
      subgoal using room by auto
      subgoal for i' s' by (drule trk_swap, rule wp_drop_read, assumption) (use go k ls in \<open>auto simp: wp_simps\<close>)
      subgoal for e s' by (rule wp_drop_read, assumption, rule X)
      done
  qed
qed

lemma wp_get_range:
  assumes E: "varint_ok E" and tr: "trk h n v {#} s" and sp: "space tbl v (tid t) cnt fl (set (pids t))"
    and ti: "tree_in E v m t" and room: "h \<longrightarrow> 2 < n"
    and Q: "\<And>s'. trk h n v {#} s' \<Longrightarrow> Q (filter (in_range start stop f) (rows t)) s'"
    and X: "\<And>e s'. \<not> h \<Longrightarrow> trk h n v {#} s' \<Longrightarrow> X e s'"
  shows "wp h (get_range E D V tbl start stop f s) Q X"
  unfolding get_range_def wp_simps
proof (rule wp_get_root_read [OF E tr sp tid_in_ids room])
  fix i s1 assume s1: "trk h n v {#rguard (tid t) i#} s1"
  let ?P = "in_range start stop f"
  have leaves: "wp h (loop (leaves_step E D V start stop f) (g, []) s') Q X" if at: "at_range h n v t start 0 g s'" for g s'
  proof -
    obtain i cs t' where g: "g = PageReadGuard i" and tr: "trk h n v {#rguard (tid t') i#} s'"
        and t: "plug cs t' = t" and pl: "place E v 0 cs t'" and st: "starts start cs"
      using at by (auto simp: at_range_def)
    obtain j rs where l: "t' = Tip j rs" using place_leaf [OF pl] by metis
    have "filter ?P (left_rows cs) = []"
      using starts_before [OF st] pl by (auto simp: place_def filter_empty_conv in_range_def)
    then have "filter ?P (concat (map (leaf_rows v) (left_leaves cs))) = []"
      using left_rows_leaves pl unfolding place_def by metis
    then have at: "at_leaves h n v t ?P (length (right_leaves cs)) (g, []) s'"
      unfolding at_leaves_def
      by (intro exI [of _ i] exI [of _ j] exI [of _ "left_leaves cs"] exI [of _ "right_leaves cs"])
        (use g tr t [symmetric] l in \<open>auto simp: leaf_ids_plug\<close>)
    show ?thesis
      by (rule wp_loop [where I = "at_leaves h n v t ?P", OF at], rule wp_leaves_step [OF E], assumption)
        (rule ti room Q X, assumption?)+
  qed
  show "wp h (loop (range_step E D V start) (PageReadGuard i) s1)
      (\<lambda>leaf s'. wp h (loop (leaves_step E D V start stop f) (leaf, []) s') Q X) X"
  proof (rule wp_loop [where I = "at_range h n v t start" and k = m], goal_cases)
    case 1
    then show ?case using s1 place_root [OF ti] unfolding at_range_def
      by (intro exI [of _ i] exI [of _ "[]"] exI [of _ t]) simp
  next
    case (2 k g s2)
    have "distinct (pids t)" using ti by (simp add: tree_in_def)
    then show ?case
      by (rule wp_mono [OF wp_range_step [OF E 2 _ room X]]) (use leaves in \<open>auto split: sum.splits\<close>)
  qed
qed (rule X)

lemma wp_btree_get_all:
  assumes "varint_ok E" and "trk h n v {#} s" and "space tbl v (tid t) cnt fl (set (pids t))"
    and "tree_in E v m t" and "h \<longrightarrow> 2 < n"
    and "\<And>s'. trk h n v {#} s' \<Longrightarrow> Q (filter f (rows t)) s'"
    and "\<And>e s'. \<not> h \<Longrightarrow> trk h n v {#} s' \<Longrightarrow> X e s'"
  shows "wp h (btree_get_all E D V tbl f s) Q X"
proof -
  have "filter (in_range Unbounded Unbounded f) (rows t) = filter f (rows t)"
    by (rule filter_cong) (simp_all add: in_range_def)
  then show ?thesis
    unfolding btree_get_all_def using wp_get_range [OF assms(1-5), of Q Unbounded Unbounded f X] assms(6,7) by simp
qed

end

end
