(* ===== verification/Tree_Pages.thy ===== *)
theory Tree_Pages
  imports Table_Space Page_Split
begin

text \<open>
  The operations on pages as operations on the items and rows of a tree: what an insertion, a split, and
  an insertion after a split do to the lists a \<open>btree\<close> is made of, on pages that can be stored.
\<close>

section \<open>Storable pages\<close>

lemma storable_internal:
  "body p = Internal ks cs \<Longrightarrow> storable E p \<longleftrightarrow>
    page_lsn_wf (last_update p) \<and> page_inv E p \<and> (\<forall>k \<in> set ks. key_wf k)"
  by (auto simp: storable_def page_wf_def)

lemma storable_leaf:
  "body p = Leaf rs n pv \<Longrightarrow> storable E p \<longleftrightarrow>
    page_lsn_wf (last_update p) \<and> page_inv E p \<and> (\<forall>r \<in> set rs. row_wf r)"
  by (auto simp: storable_def page_wf_def)

lemma storable_inv: "storable E p \<Longrightarrow> page_inv E p"
  by (simp add: storable_def)

lemma row_key_ok:
  assumes "row_fits E r" and "row_wf r"
  shows "key_fits E (the_key r)" and "key_wf (the_key r)"
proof -
  show "key_fits E (the_key r)" using assms(1) row_fits_key [OF assms(1)] by (simp add: row_fits_iff)
  obtain vs where "row_fields r = key_to_row_value (the_key r) # vs"
    using row_fits_key [OF assms(1)] by (auto simp: row_key_Some_iff)
  then show "key_wf (the_key r)" using assms(2) by (simp add: row_wf_def key_wf_def)
qed

lemma storable_key:
  assumes "body p = Internal ks cs" and "storable E p" and "k \<in> set ks"
  shows "key_fits E k" and "key_wf k"
  using assms internal_invD(1) [OF assms(1) storable_inv [OF assms(2)]]
  by (auto simp: storable_internal keys_ok_def)

section \<open>Separators of items\<close>

abbreviation branch_body :: "items \<Rightarrow> page_body" where
  "branch_body xs \<equiv> Internal (seps (map fst xs)) (tids xs)"

lemma seps_snoc: "seps (xs @ a # ys) = seps (xs @ [a]) @ map the ys"
  by (cases xs) simp_all

lemma ins_pos_middle:
  assumes "sorted_wrt (<) (xs @ k # ys)"
  shows "ins_pos k (xs @ ys) = length xs" and "k \<notin> set (xs @ ys)"
proof -
  have s: "\<forall>x \<in> set xs. x < k" "\<forall>y \<in> set ys. k < y" using assms by (auto simp: sorted_wrt_append)
  then show "k \<notin> set (xs @ ys)" by auto
  have "takeWhile (\<lambda>x. x < k) (xs @ ys) = xs"
    using s by (cases ys) (auto simp: takeWhile_append)
  then show "ins_pos k (xs @ ys) = length xs" by (simp add: ins_pos_def)
qed

lemma items_sep:
  assumes "chain W h (as @ (a, t) # (Some k, u) # bs)"
  shows "ins_pos k (seps (map fst (as @ (a, t) # bs))) = length as"
    and "k \<notin> set (seps (map fst (as @ (a, t) # bs)))"
    and "seps (map fst (as @ (a, t) # (Some k, u) # bs)) =
      take (length as) (seps (map fst (as @ (a, t) # bs))) @ k # drop (length as) (seps (map fst (as @ (a, t) # bs)))"
proof -
  let ?x = "seps (map fst as @ [a])" and ?y = "map the (map fst bs)"
  have w: "seps (map fst (as @ (a, t) # (Some k, u) # bs)) = ?x @ k # ?y"
    and o: "seps (map fst (as @ (a, t) # bs)) = ?x @ ?y"
    using seps_snoc [of "map fst as" a "Some k # map fst bs"] seps_snoc [of "map fst as" a "map fst bs"] by simp_all
  have l: "length ?x = length as" by simp
  have "sorted_wrt (<) (?x @ k # ?y)" using chain_seps(2) [OF assms] w by simp
  note m = ins_pos_middle [OF this]
  show "ins_pos k (seps (map fst (as @ (a, t) # bs))) = length as" unfolding o m(1) by (rule l)
  show "k \<notin> set (seps (map fst (as @ (a, t) # bs)))" unfolding o by (rule m(2))
  show "seps (map fst (as @ (a, t) # (Some k, u) # bs)) =
      take (length as) (seps (map fst (as @ (a, t) # bs))) @ k # drop (length as) (seps (map fst (as @ (a, t) # bs)))"
    unfolding w o by (simp add: l [symmetric] del: seps_simps)
qed

lemma chain_some: "chain W h xs \<Longrightarrow> x \<in> set (tl xs) \<Longrightarrow> fst x \<noteq> None"
proof (induction xs)
  case (Cons y ys)
  then show ?case by (cases ys) auto
qed simp

lemma room_internal:
  assumes "body p = Internal ks cs" and "page_inv E p"
  shows "can_insert_separator E p k \<longleftrightarrow> keys_size E ks + internal_entry_size E k \<le> INTERNAL_USABLE"
    and "is_split_safe E p \<longleftrightarrow> keys_size E ks + MAX_INTERNAL_ENTRY_SIZE \<le> INTERNAL_USABLE"
  using free_space_at_least(1) [OF assms, of "internal_entry_size E k"]
    free_space_at_least(1) [OF assms, of MAX_INTERNAL_ENTRY_SIZE] assms(1)
  by (auto simp: can_insert_separator_def is_split_safe_def kind_defs split: option.splits)

lemma split_safe_room:
  "is_split_safe E p \<Longrightarrow> key_fits E k \<Longrightarrow> can_insert_separator E p k"
  by (auto simp: can_insert_separator_def is_split_safe_def split: option.splits if_splits)

section \<open>Inserting a child\<close>

lemma insert_item_eq:
  assumes b: "body p = branch_body (as @ (a, t) # bs)" and st: "storable E p"
    and ch: "chain W h (as @ (a, t) # (Some k, u) # bs)" and k: "key_fits E k" "key_wf k"
    and room: "can_insert_separator E p k"
  defines "p' \<equiv> p\<lparr>body := branch_body (as @ (a, t) # (Some k, u) # bs)\<rparr>"
  shows "internal_insert E p k (tid u) = (Ok (), p')" and "storable E p'"
proof -
  let ?zs = "as @ (a, t) # bs" and ?ws = "as @ (a, t) # (Some k, u) # bs"
  note inv = storable_inv [OF st] and s = items_sep [OF ch]
  have "tids ?ws = take (length as + 1) (tids ?zs) @ tid u # drop (length as + 1) (tids ?zs)" by simp
  moreover have "keys_size E (seps (map fst ?zs)) + internal_entry_size E k \<le> INTERNAL_USABLE"
    using room room_internal(1) [OF b inv] by simp
  ultimately show "internal_insert E p k (tid u) = (Ok (), p')"
    unfolding internal_insert_eq [OF b inv] s(1) Let_def s(3) p'_def using k(1) s(2) by simp
  note i = internal_invD [OF b inv]
  have ins: "keys_ok E (seps (map fst ?ws))"
    using keys_insert_ok [OF i(1) k(1) s(2), of "length as"] s(1,3) by simp
  have "keys_size E (seps (map fst ?ws)) = keys_size E (seps (map fst ?zs)) + internal_entry_size E k"
    unfolding s(3) by (simp only: sum_list_insert)
  then have "page_inv E p'"
    using ins room room_internal(1) [OF b inv] by (simp add: page_inv_internal [of p', unfolded p'_def, simplified] p'_def)
  moreover have "set (seps (map fst ?ws)) = insert k (set (seps (map fst ?zs)))"
    unfolding s(3) by (metis append_take_drop_id list.set(2) set_append Un_insert_right)
  ultimately show "storable E p'"
    using st k(2) by (auto simp: storable_internal [OF b] storable_internal [of p', unfolded p'_def, simplified] p'_def)
qed

lemma insert_item:
  assumes "body p = branch_body (as @ (a, t) # bs)" and "storable E p"
    and "chain W h (as @ (a, t) # (Some k, u) # bs)" and "key_fits E k" "key_wf k" and "can_insert_separator E p k"
  shows "\<exists>p'. internal_insert E p k (tid u) = (Ok (), p') \<and> body p' = branch_body (as @ (a, t) # (Some k, u) # bs) \<and>
    storable E p' \<and> pg_id p' = pg_id p"
  using insert_item_eq [OF assms] by auto

text \<open>A page that has no room for a separator can be split in two, with at least two children each.\<close>

lemma split_items:
  assumes b: "body p = branch_body zs" and st: "storable E p" and full: "\<not> can_insert_separator E p k" and k: "key_fits E k"
    and some: "\<And>x. x \<in> set (tl zs) \<Longrightarrow> fst x \<noteq> None"
  obtains xs ys c p1 where "zs = xs @ ys" "2 \<le> length xs" "2 \<le> length ys" "fst (hd ys) = Some c"
    "split_page E p new = (Ok (c, empty_page new (branch_body ys)), p1)"
    "body p1 = branch_body xs" "pg_id p1 = pg_id p" "storable E p1" "storable E (empty_page new (branch_body ys))"
    "is_split_safe E p1" "is_split_safe E (empty_page new (branch_body ys))" "c \<in> set (seps (map fst zs))"
proof -
  let ?ks = "seps (map fst zs)"
  note inv = storable_inv [OF st] and i = internal_invD [OF b storable_inv [OF st]]
  have "keys_size E ?ks \<le> length ?ks * MAX_INTERNAL_ENTRY_SIZE"
    using i(1) by (intro sum_list_upper_bound) (auto simp: keys_ok_def)
  moreover have "INTERNAL_USABLE < keys_size E ?ks + internal_entry_size E k"
    using full room_internal(1) [OF b inv] by simp
  ultimately have "INTERNAL_USABLE < (length ?ks + 1) * MAX_INTERNAL_ENTRY_SIZE" using k by simp
  then have len: "3 \<le> length ?ks" by (simp add: layout_simps del: seps_simps)
  obtain at where at: "0 < at" "at + 1 < length ?ks"
    "split_page E p new =
      (Ok (?ks ! at, empty_page new (Internal (drop (Suc at) ?ks) (drop (Suc at) (tids zs)))),
       p\<lparr>body := Internal (take at ?ks) (take (Suc at) (tids zs))\<rparr>)"
    "keys_size E (take at ?ks) + MAX_INTERNAL_ENTRY_SIZE \<le> INTERNAL_USABLE"
    "keys_size E (drop (Suc at) ?ks) + MAX_INTERNAL_ENTRY_SIZE \<le> INTERNAL_USABLE"
    "keys_ok E (take at ?ks)" "keys_ok E (drop (Suc at) ?ks)"
    by (rule split_internal_eq [OF b inv len, of new])
  let ?xs = "take (Suc at) zs" and ?ys = "drop (Suc at) zs"
  let ?p = "p\<lparr>body := branch_body ?xs\<rparr>" and ?q = "empty_page new (branch_body ?ys)"
  obtain z zs' where zs: "zs = z # zs'" using len by (cases zs) auto
  have ks: "take at ?ks = seps (map fst ?xs)" "drop (Suc at) ?ks = seps (map fst ?ys)"
    by (simp_all add: zs seps_def take_map drop_map drop_Suc drop_tl map_tl [symmetric])
  have ts: "take (Suc at) (tids zs) = tids ?xs" "drop (Suc at) (tids zs) = tids ?ys"
    by (simp_all add: take_map drop_map)
  have lens: "2 \<le> length ?xs" "2 \<le> length ?ys" using at(1,2) by simp_all
  have c: "fst (hd ?ys) = Some (?ks ! at)"
  proof -
    have "hd ?ys = zs' ! at" using at(2) zs by (simp add: hd_drop_conv_nth)
    moreover have "at < length zs'" using at(2) zs by simp
    then have "fst (zs' ! at) \<noteq> None" using some zs by simp
    ultimately show ?thesis using at(2) zs by simp
  qed
  have "page_inv E ?p" "page_inv E ?q"
    using at(4-7) lens
    by (simp_all add: ks page_inv_internal [of ?p, simplified]
        page_inv_internal [of ?q, unfolded empty_page_def, simplified] empty_page_def del: seps_simps(2))
  moreover have "set (seps (map fst ?xs)) \<subseteq> set ?ks" "set (seps (map fst ?ys)) \<subseteq> set ?ks"
    unfolding ks [symmetric] by (rule set_take_subset, rule set_drop_subset)
  ultimately have st': "storable E ?p" "storable E ?q"
    using st by (auto simp: storable_internal [OF b] storable_internal [of ?p, simplified]
        storable_internal [of ?q, unfolded empty_page_def, simplified] empty_page_def page_lsn_wf_def)
  have q: "body ?q = branch_body ?ys" by (simp add: empty_page_def)
  have safe: "is_split_safe E ?p" "is_split_safe E ?q"
    using at(4,5) room_internal(2) [of ?p, OF _ storable_inv [OF st'(1)]]
      room_internal(2) [OF q storable_inv [OF st'(2)]] by (simp_all add: ks)
  show thesis
    by (rule that [of ?xs ?ys "?ks ! at" ?p]) (use lens c at(3) st' safe at(2) in \<open>simp_all add: ks ts del: seps_simps(2)\<close>)
qed

text \<open>Splitting a page and then inserting is splitting the list with the new item in it.\<close>

lemma split_insert_item:
  assumes b: "body p = branch_body (as @ (a, t) # bs)" and st: "storable E p" and full: "\<not> can_insert_separator E p k"
    and ch: "chain W h (as @ (a, t) # (Some k, u) # bs)" and k: "key_fits E k" "key_wf k"
  obtains xs ys c p1 q1 p2 q2 where "as @ (a, t) # (Some k, u) # bs = xs @ ys" "2 \<le> length xs" "2 \<le> length ys"
    "fst (hd ys) = Some c" "key_fits E c" "key_wf c" "split_page E p new = (Ok (c, q1), p1)"
    "pg_id p1 = pg_id p" "pg_id q1 = new" "storable E p1" "storable E q1"
    "if k > c then internal_insert E q1 k (tid u) = (Ok (), q2) \<and> p2 = p1
     else internal_insert E p1 k (tid u) = (Ok (), p2) \<and> q2 = q1"
    "body p2 = branch_body xs" "body q2 = branch_body ys" "pg_id p2 = pg_id p" "pg_id q2 = new" "storable E p2" "storable E q2"
proof -
  let ?zs = "as @ (a, t) # bs" and ?ws = "as @ (a, t) # (Some k, u) # bs"
  have some: "fst x \<noteq> None" if "x \<in> set (tl ?zs)" for x
    using chain_some [OF ch, of x] that by (cases as) auto
  obtain xs ys c p1 where s: "?zs = xs @ ys" "2 \<le> length xs" "2 \<le> length ys" "fst (hd ys) = Some c"
    "split_page E p new = (Ok (c, empty_page new (branch_body ys)), p1)"
    "body p1 = branch_body xs" "pg_id p1 = pg_id p" "storable E p1" "storable E (empty_page new (branch_body ys))"
    "is_split_safe E p1" "is_split_safe E (empty_page new (branch_body ys))" "c \<in> set (seps (map fst ?zs))"
    by (rule split_items [OF b st full k(1) some])
  note c = storable_key [OF b st s(12)]
  let ?q1 = "empty_page new (branch_body ys)"
  have q1: "body ?q1 = branch_body ys" "pg_id ?q1 = new" by (simp_all add: empty_page_def)
  consider (left) bs' where "xs = as @ (a, t) # bs'" "bs = bs' @ ys"
    | (right) as' where "as = xs @ as'" "ys = as' @ (a, t) # bs"
    using s(1) s(3) by (auto simp: append_eq_append_conv2 Cons_eq_append_conv)
  then show thesis
  proof cases
    case left
    have "ys \<noteq> []" using s(3) by auto
    then have ch': "chain W (low ys h) (as @ (a, t) # (Some k, u) # bs')" "low ys h = Some c"
      using ch left s(4) chain_append [of W h "as @ (a, t) # (Some k, u) # bs'" ys] low_hd [of ys h]
      by simp_all
    have "k \<in> set (seps (map fst (as @ (a, t) # (Some k, u) # bs')))"
      using items_sep(3) [OF ch'(1)] by simp
    then have "k < c" using chain_seps(1) [OF ch'(1)] ch'(2) by fastforce
    obtain p2 where p2: "internal_insert E p1 k (tid u) = (Ok (), p2)"
        "body p2 = branch_body (as @ (a, t) # (Some k, u) # bs')" "storable E p2" "pg_id p2 = pg_id p1"
      using insert_item [OF _ s(8) ch'(1) k split_safe_room [OF s(10) k(1)]] s(6) left(1) by metis
    show thesis
      by (rule that [of "as @ (a, t) # (Some k, u) # bs'" ys c ?q1 p1 ?q1 p2])
        (use left s c p2 q1 \<open>k < c\<close> in \<open>simp_all add: not_less_iff_gr_or_eq order_less_not_sym\<close>)
  next
    case right
    have ch': "chain W h (as' @ (a, t) # (Some k, u) # bs)"
      using ch right chain_append [of W h xs "as' @ (a, t) # (Some k, u) # bs"] by simp
    have hd: "fst (hd (as' @ (a, t) # (Some k, u) # bs)) = Some c" using s(4) right(2) by (cases as') simp_all
    have "k \<in> set (seps (map fst (as' @ (a, t) # (Some k, u) # bs)))"
      using items_sep(3) [OF ch'] by simp
    then have "c < k" using chain_seps(1) [OF ch'] hd by fastforce
    obtain q2 where q2: "internal_insert E ?q1 k (tid u) = (Ok (), q2)"
        "body q2 = branch_body (as' @ (a, t) # (Some k, u) # bs)" "storable E q2" "pg_id q2 = pg_id ?q1"
      using insert_item [OF _ s(9) ch' k split_safe_room [OF s(11) k(1)]] q1(1) right(2) by metis
    show thesis
      by (rule that [of xs "as' @ (a, t) # (Some k, u) # bs" c ?q1 p1 q2 p1])
        (use right s c q2 q1 hd \<open>c < k\<close> in simp_all)
  qed
qed

section \<open>Inserting a row\<close>

lemma storable_leaf_upd:
  assumes "storable E p" and "body p = Leaf rs n pv" and "page_inv E q" and "body q = Leaf rs' n' pv'"
    and "last_update q = last_update p" and "\<forall>r \<in> set rs'. row_wf r"
  shows "storable E q"
  using assms by (simp add: storable_leaf)

text \<open>The rows of a leaf with a row added.\<close>

definition added :: "env \<Rightarrow> row \<Rightarrow> row list \<Rightarrow> row list \<Rightarrow> bool" where
  "added E r rs rs' \<longleftrightarrow> rows_ok E rs' \<and> set rs' = insert r (set rs) \<and> rows_map rs' = (rows_map rs)(the_key r \<mapsto> r)"

lemma added_left:
  assumes "added E r xs xs'" and "the_key r \<notin> set (row_keys ys)" and "rows_ok E (xs' @ ys)"
  shows "added E r (xs @ ys) (xs' @ ys)"
  using assms by (auto simp: added_def rows_map_append map_add_def rows_map_None_iff fun_eq_iff split: option.splits)

lemma added_right:
  assumes "added E r ys ys'" and "the_key r \<notin> set (row_keys xs)" and "rows_ok E (xs @ ys')"
  shows "added E r (xs @ ys) (xs @ ys')"
proof -
  have "rows_map xs (the_key r) = None" using assms(2) by (simp add: rows_map_None_iff)
  then have "rows_map (xs @ ys') = (rows_map (xs @ ys))(the_key r \<mapsto> r)"
    using assms(1) by (auto simp: added_def rows_map_append map_add_def fun_eq_iff split: option.splits)
  then show ?thesis using assms(1,3) by (auto simp: added_def)
qed

lemma insert_row:
  assumes b: "body p = Leaf rs n pv" and st: "storable E p" and r: "row_fits E r" "row_wf r"
    and new: "the_key r \<notin> set (row_keys rs)" and room: "can_insert E p r"
  shows "\<exists>p' rs'. leaf_insert E p (ValidatedRow r) = (Ok (), p') \<and> body p' = Leaf rs' n pv \<and> added E r rs rs' \<and>
    storable E p' \<and> pg_id p' = pg_id p"
proof -
  note inv = storable_inv [OF st]
  let ?i = "ins_pos (the_key r) (row_keys rs)"
  let ?rs = "take ?i rs @ r # drop ?i rs"
  let ?p = "p\<lparr>body := Leaf ?rs n pv\<rparr>"
  have size: "sum_list (map (leaf_entry_size E) rs) + leaf_entry_size E r \<le> LEAF_USABLE"
    using room can_insert_leaf [OF b inv] by simp
  have ok: "rows_ok E rs" using inv by (simp add: page_inv_leaf [OF b])
  note ins = insert_rows_ok [OF ok r(1) new refl]
  have "set (take ?i rs) \<union> set (drop ?i rs) = set rs" by (metis append_take_drop_id set_append)
  then have set: "set ?rs = insert r (set rs)" by simp
  have "page_inv E ?p" using ins(1) size by (simp only: page_inv_leaf [of ?p, simplified] sum_list_insert)
  then have "storable E ?p"
    using st r(2) set by (intro storable_leaf_upd [OF st b]) (auto simp: storable_leaf [OF b])
  moreover have "leaf_insert E p (ValidatedRow r) = (Ok (), ?p)"
    using leaf_insert_eq [OF b inv r(1)] new size by (simp add: Let_def not_less)
  ultimately show ?thesis using ins set by (intro exI [of _ ?p] exI [of _ ?rs]) (simp add: added_def)
qed

lemma split_insert_row:
  assumes b: "body p = Leaf rs n pv" and st: "storable E p" and r: "row_fits E r" "row_wf r"
    and new: "the_key r \<notin> set (row_keys rs)" and full: "\<not> can_insert E p r"
  obtains c p1 q1 rs1 rs2 p2 q2 xs ys where "split_page E p new = (Ok (c, q1), p1)" "storable E p1" "storable E q1"
    "pg_id p1 = pg_id p" "pg_id q1 = new" "body p1 = Leaf xs (Some new) pv" "body q1 = Leaf ys n (Some (pg_id p))"
    "if the_key r \<le> c then leaf_insert E p1 (ValidatedRow r) = (Ok (), p2) \<and> q2 = q1
     else leaf_insert E q1 (ValidatedRow r) = (Ok (), q2) \<and> p2 = p1"
    "storable E p2" "storable E q2" "pg_id p2 = pg_id p" "pg_id q2 = new"
    "body p2 = Leaf rs1 (Some new) pv" "body q2 = Leaf rs2 n (Some (pg_id p))"
    "added E r rs (rs1 @ rs2)" "\<forall>x \<in> set rs1. the_key x < c" "\<forall>x \<in> set rs2. c \<le> the_key x"
    "\<exists>x \<in> set rs. the_key x < c" "\<exists>x \<in> set rs. the_key x = c" "key_fits E c" "key_wf c"
proof -
  note inv = storable_inv [OF st]
  have ok: "rows_ok E rs" using inv by (simp add: page_inv_leaf [OF b])
  have fits: "leaf_entry_size E r \<le> MAX_LEAF_ENTRY_SIZE" using r(1) by (simp add: row_fits_iff)
  have "rows_size E rs \<le> length rs * MAX_LEAF_ENTRY_SIZE"
    using ok by (intro sum_list_upper_bound) (auto simp: rows_ok_def row_fits_iff)
  moreover have "LEAF_USABLE < rows_size E rs + leaf_entry_size E r" using full can_insert_leaf [OF b inv] by simp
  ultimately have "LEAF_USABLE < (length rs + 1) * MAX_LEAF_ENTRY_SIZE" using fits by simp
  then have len: "2 \<le> length rs" by (simp add: layout_simps)
  obtain at where at: "0 < at" "at < length rs"
    "split_page E p new =
      (Ok (the_key (rs ! at), empty_page new (Leaf (drop at rs) n (Some (pg_id p)))),
       p\<lparr>body := Leaf (take at rs) (Some new) pv\<rparr>)"
    "rows_size E (take at rs) + MAX_LEAF_ENTRY_SIZE \<le> LEAF_USABLE"
    "rows_size E (drop at rs) + MAX_LEAF_ENTRY_SIZE \<le> LEAF_USABLE"
    "rows_ok E (take at rs)" "rows_ok E (drop at rs)"
    by (rule split_leaf_eq [OF b inv len, of new])
  let ?xs = "take at rs" and ?ys = "drop at rs" and ?c = "the_key (rs ! at)"
  let ?p = "p\<lparr>body := Leaf ?xs (Some new) pv\<rparr>" and ?q = "empty_page new (Leaf ?ys n (Some (pg_id p)))"
  have p: "body ?p = Leaf ?xs (Some new) pv" and q: "body ?q = Leaf ?ys n (Some (pg_id p))"
    by (simp_all add: empty_page_def)
  have rs: "rs = ?xs @ ?ys" by simp
  have ys: "?ys = rs ! at # drop (Suc at) rs" using at(2) by (simp add: Cons_nth_drop_Suc)
  have inv': "page_inv E ?p" "page_inv E ?q"
    using at(4-7) by (simp_all add: page_inv_leaf [OF p] page_inv_leaf [OF q])
  have wf: "\<forall>x \<in> set rs. row_wf x" using st by (simp add: storable_leaf [OF b])
  then have "\<forall>x \<in> set ?xs. row_wf x" "\<forall>x \<in> set ?ys. row_wf x" by (auto dest: in_set_takeD in_set_dropD)
  then have st': "storable E ?p" "storable E ?q"
    using st inv' unfolding storable_leaf [OF b] storable_leaf [OF p] storable_leaf [OF q]
    by (simp_all add: empty_page_def page_lsn_wf_def)
  have below: "\<forall>x \<in> set ?xs. the_key x < ?c"
    using ok rows_ok_append [of E ?xs ?ys] rs ys by (metis list.set_intros(1))
  have above: "\<forall>x \<in> set ?ys. ?c \<le> the_key x" using at(7) by (auto simp: ys rows_ok_Cons)
  have mem: "rs ! at \<in> set rs" using at(2) by simp
  have keys: "key_fits E ?c" "key_wf ?c" using row_key_ok [of E "rs ! at"] ok wf mem by (auto simp: rows_ok_def)
  have ex: "\<exists>x \<in> set rs. the_key x < ?c" "\<exists>x \<in> set rs. the_key x = ?c"
  proof -
    have "hd rs \<in> set ?xs" using at(1,2) by (cases rs; cases at) simp_all
    then show "\<exists>x \<in> set rs. the_key x < ?c" using below by (meson in_set_takeD)
  qed (use mem in blast)
  have ne: "the_key r \<noteq> ?c" using new mem by (auto simp: row_keys_def)
  have fresh: "the_key r \<notin> set (row_keys ?xs)" "the_key r \<notin> set (row_keys ?ys)"
    using new by (auto simp: row_keys_def dest: in_set_takeD in_set_dropD)
  have room: "can_insert E ?p r" "can_insert E ?q r"
    using at(4,5) fits can_insert_leaf [OF p inv'(1), of r] can_insert_leaf [OF q inv'(2), of r] by linarith+
  show thesis
  proof (cases "the_key r \<le> ?c")
    case True
    obtain p2 rs1 where i: "leaf_insert E ?p (ValidatedRow r) = (Ok (), p2)" "body p2 = Leaf rs1 (Some new) pv"
        "added E r ?xs rs1" "storable E p2" "pg_id p2 = pg_id p"
      using insert_row [OF p st'(1) r fresh(1) room(1)] by auto
    have lt: "\<forall>x \<in> set rs1. the_key x < ?c" using i(3) below True ne by (auto simp: added_def)
    have "rows_ok E (rs1 @ ?ys)" using i(3) at(7) lt above unfolding added_def rows_ok_append by fastforce
    then have "added E r rs (rs1 @ ?ys)" using added_left [OF i(3) fresh(2)] by simp
    then show thesis
      using that [of ?c ?q ?p ?xs ?ys p2 ?q rs1 ?ys] at(3) st' p q i lt above ex keys True by (simp add: empty_page_def)
  next
    case False
    obtain q2 rs2 where i: "leaf_insert E ?q (ValidatedRow r) = (Ok (), q2)" "body q2 = Leaf rs2 n (Some (pg_id p))"
        "added E r ?ys rs2" "storable E q2" "pg_id q2 = pg_id ?q"
      using insert_row [OF q st'(2) r fresh(2) room(2)] by auto
    have ge: "\<forall>x \<in> set rs2. ?c \<le> the_key x" using i(3) above False by (auto simp: added_def)
    have "rows_ok E (?xs @ rs2)" using i(3) at(6) below ge unfolding added_def rows_ok_append by fastforce
    then have "added E r rs (?xs @ rs2)" using added_right [OF i(3) fresh(1)] by simp
    then show thesis
      using that [of ?c ?q ?p ?xs ?ys ?p q2 ?xs rs2] at(3) st' p q i below ge ex keys False by (simp add: empty_page_def)
  qed
qed

end
