(* ===== verification/Tree_Grow.thy ===== *)
theory Tree_Grow
  imports BTree_Search Tree_Pages
begin

text \<open>
  A tree while a split works its way up: at some place there are two trees instead of one, with the separator
  between them, and their parent does not know of the second one yet. Each way the loop of
  \<^verbatim>\<open>split_and_insert\<close> goes on is a lemma here: a new root, a parent with room, and a parent that is split.
\<close>

section \<open>Frames\<close>

lemma rep_agree: "rep v t \<Longrightarrow> (\<And>j. j \<in> set (pids t) \<Longrightarrow> v' j = v j) \<Longrightarrow> rep v' t"
  by (rule rep_frame) simp_all

lemma rep_path_agree: "rep_path v i cs \<Longrightarrow> (\<And>j. j \<in> set (path_ids cs) \<Longrightarrow> v' j = v j) \<Longrightarrow> rep_path v' i cs"
  by (rule rep_path_frame) simp_all

lemma links_agree: "links v pv ls nx \<Longrightarrow> (\<And>j. j \<in> set ls \<Longrightarrow> v' j = v j) \<Longrightarrow> links v' pv ls nx"
  using links_frame [of ls v' v] by simp

section \<open>Two trees in one place\<close>

text \<open>The topmost page of a path.\<close>

definition top_id :: "btree \<Rightarrow> crumb list \<Rightarrow> page_id" where
  "top_id t cs = (if cs = [] then tid t else fst (last cs))"

lemma top_id_Cons: "top_id t (c # cs) = (if cs = [] then fst c else fst (last cs))"
  by (simp add: top_id_def)

lemma top_id_plug: "tid (plug cs t) = top_id t cs"
  by (induction cs t rule: plug.induct) (auto simp: top_id_def)

definition twin ::
  "env \<Rightarrow> pages \<Rightarrow> nat \<Rightarrow> crumb list \<Rightarrow> btree \<Rightarrow> key \<Rightarrow> btree \<Rightarrow> bool" where
  "twin E v k cs l sep r \<longleftrightarrow>
     path_ok E k cs \<and> rep v l \<and> rep v r \<and> rep_path v (tid l) cs \<and>
     wf_tree E k (hole_low cs) (Some sep) l \<and> wf_tree E k (Some sep) (hole_high cs) r \<and>
     lt_bound (hole_low cs) (Some sep) \<and> lt_bound (Some sep) (hole_high cs) \<and>
     links v None (left_leaves cs @ leaf_ids l @ leaf_ids r @ right_leaves cs) None \<and>
     distinct (pids l @ pids r @ path_ids cs) \<and> key_fits E sep \<and> key_wf sep"

abbreviation twin_ids :: "crumb list \<Rightarrow> btree \<Rightarrow> btree \<Rightarrow> page_id set" where
  "twin_ids cs l r \<equiv> set (pids l) \<union> set (pids r) \<union> set (path_ids cs)"

definition twin_rows :: "crumb list \<Rightarrow> btree \<Rightarrow> btree \<Rightarrow> row list" where
  "twin_rows cs l r = left_rows cs @ rows l @ rows r @ right_rows cs"

definition twin_keys :: "crumb list \<Rightarrow> btree \<Rightarrow> key \<Rightarrow> btree \<Rightarrow> key set" where
  "twin_keys cs l sep r = insert sep (tree_keys l \<union> tree_keys r \<union> path_keys cs)"

text \<open>The separators of neighbouring items.\<close>

lemma seps_item: "set (seps (as @ a # b # bs)) = insert (the b) (set (seps (as @ a # bs)))"
  by (cases as) auto

lemma seps_cut: "xs \<noteq> [] \<Longrightarrow> ys \<noteq> [] \<Longrightarrow> set (seps (xs @ ys)) = insert (the (hd ys)) (set (seps xs) \<union> set (seps ys))"
  by (cases xs; cases ys) auto

lemma twin_agree:
  assumes "twin E v k cs l sep r" and v': "\<And>j. j \<in> twin_ids cs l r \<Longrightarrow> v' j = v j"
  shows "twin E v' k cs l sep r"
proof -
  have "rep v' l" "rep v' r" "rep_path v' (tid l) cs"
    using assms by (auto simp: twin_def intro: rep_agree rep_path_agree)
  moreover have "links v' None (left_leaves cs @ leaf_ids l @ leaf_ids r @ right_leaves cs) None"
    using assms(1) path_leaf_subset [of cs] leaf_ids_subset [of l] leaf_ids_subset [of r]
    by (intro links_agree [of v _ _ _ v'] v') (auto simp: twin_def)
  ultimately show ?thesis using assms(1) by (simp add: twin_def)
qed

text \<open>No page is left above: a new root.\<close>

lemma twin_root:
  assumes tw: "twin E v k [] l sep r" and x: "x \<notin> twin_ids [] l r"
    and v': "\<And>j. j \<in> twin_ids [] l r \<Longrightarrow> v' j = v j" "v' x = Some p" "body p = Internal [sep] [tid l, tid r]"
  shows "tree_in E v' (Suc k) (Branch x [(None, l), (Some sep, r)])"
    and "tree_keys (Branch x [(None, l), (Some sep, r)]) = twin_keys [] l sep r"
    and "rows (Branch x [(None, l), (Some sep, r)]) = twin_rows [] l r"
    and "set (pids (Branch x [(None, l), (Some sep, r)])) = insert x (twin_ids [] l r)"
proof -
  have "twin E v' k [] l sep r" using twin_agree [OF tw] v'(1) by blast
  then show "tree_in E v' (Suc k) (Branch x [(None, l), (Some sep, r)])"
    using x v'(2,3) by (auto simp: twin_def tree_in_def)
qed (auto simp: twin_rows_def twin_keys_def)

text \<open>The page above takes the separator.\<close>

lemma twin_parent:
  assumes "twin E v k ((i, as, a, bs) # cs) l sep r"
  shows "\<exists>p. v i = Some p \<and> body p = branch_body (as @ (a, l) # bs)"
    and "chain (wf_tree E k) (hole_high cs) (as @ (a, l) # (Some sep, r) # bs)"
    and "fst (hd (as @ (a, l) # (Some sep, r) # bs)) = hole_low cs" and "path_ok E (Suc k) cs"
proof -
  show "\<exists>p. v i = Some p \<and> body p = branch_body (as @ (a, l) # bs)" using assms by (simp add: twin_def)
  show "chain (wf_tree E k) (hole_high cs) (as @ (a, l) # (Some sep, r) # bs)"
    using assms by (auto simp: twin_def chain_append)
  show "fst (hd (as @ (a, l) # (Some sep, r) # bs)) = hole_low cs" using assms by (cases as) (auto simp: twin_def)
  show "path_ok E (Suc k) cs" using assms by (simp add: twin_def)
qed

lemma twin_done:
  assumes tw: "twin E v k ((i, as, a, bs) # cs) l sep r" and p: "body p = branch_body (as @ (a, l) # (Some sep, r) # bs)"
  defines "t \<equiv> plug cs (Branch i (as @ (a, l) # (Some sep, r) # bs))"
  shows "tree_in E (v(i \<mapsto> p)) (k + length ((i, as, a, bs) # cs)) t" and "rows t = twin_rows ((i, as, a, bs) # cs) l r"
    and "set (pids t) = twin_ids ((i, as, a, bs) # cs) l r" and "tid t = top_id l ((i, as, a, bs) # cs)"
    and "tree_keys t = twin_keys ((i, as, a, bs) # cs) l sep r"
proof -
  let ?ws = "as @ (a, l) # (Some sep, r) # bs" and ?v = "v(i \<mapsto> p)"
  note par = twin_parent [OF tw]
  have dis: "distinct (pids l @ pids r @ path_ids ((i, as, a, bs) # cs))" using tw by (simp add: twin_def)
  have reps: "rep v l" "rep v r" "\<forall>x \<in> set (as @ bs). rep v (snd x)" "rep_path v i cs"
    using tw by (auto simp: twin_def)
  have out: "i \<notin> set (pids l)" "i \<notin> set (pids r)" "i \<notin> set (item_ids (as @ bs))" "i \<notin> set (path_ids cs)"
    using dis by auto
  have "rep ?v l" "rep ?v r" by (rule rep_agree [OF reps(1)], use out(1) in auto) (rule rep_agree [OF reps(2)], use out(2) in auto)
  moreover have "\<forall>x \<in> set (as @ bs). rep ?v (snd x)"
    by (rule rep_items_frame [OF _ reps(3)]) (use out(3) in auto)
  ultimately have "rep ?v (Branch i ?ws)" using p by auto
  moreover have "rep_path ?v i cs"
    by (rule rep_path_agree [OF reps(4)]) (use out(4) in auto)
  ultimately have rep: "rep ?v t" by (simp add: t_def rep_plug)
  have "wf_tree E (Suc k) (hole_low cs) (hole_high cs) (Branch i ?ws)"
    using par(2,3) by auto
  then have wf: "wf_tree E (Suc k + length cs) None None t" unfolding t_def by (rule plug_ok [OF par(4)])
  have leaves: "leaf_ids t = left_leaves ((i, as, a, bs) # cs) @ leaf_ids l @ leaf_ids r @ right_leaves ((i, as, a, bs) # cs)"
    by (simp add: t_def leaf_ids_plug)
  have "i \<notin> set (leaf_ids t)"
    using dis path_leaf_subset [of cs] leaf_ids_subset [of l] leaf_ids_subset [of r] item_leaf_subset [of as]
      item_leaf_subset [of bs] unfolding leaves by auto
  then have "links ?v None (leaf_ids t) None"
    using tw by (intro links_agree [of v _ _ _ ?v]) (auto simp: leaves twin_def)
  moreover have "distinct (pids t)" using dis by (auto simp: t_def distinct_plug)
  ultimately show "tree_in E ?v (k + length ((i, as, a, bs) # cs)) t" using rep wf by (simp add: tree_in_def)
  show "rows t = twin_rows ((i, as, a, bs) # cs) l r" by (simp add: t_def rows_plug twin_rows_def)
  show "set (pids t) = twin_ids ((i, as, a, bs) # cs) l r" by (auto simp: t_def set_ids_plug)
  show "tid t = top_id l ((i, as, a, bs) # cs)" by (simp add: t_def top_id_plug top_id_def)
  show "tree_keys t = twin_keys ((i, as, a, bs) # cs) l sep r" by (auto simp: t_def tree_keys_plug seps_item twin_keys_def)
qed

text \<open>The page above is split in turn.\<close>

lemma twin_split:
  assumes tw: "twin E v k ((i, as, a, bs) # cs) l sep r" and ws: "as @ (a, l) # (Some sep, r) # bs = xs @ ys"
    and len: "2 \<le> length xs" "2 \<le> length ys" and c: "fst (hd ys) = Some c" "key_fits E c" "key_wf c"
    and p: "body p = branch_body xs" and q: "body q = branch_body ys" and x: "x \<notin> twin_ids ((i, as, a, bs) # cs) l r"
  shows "twin E (v(i \<mapsto> p, x \<mapsto> q)) (Suc k) cs (Branch i xs) c (Branch x ys)"
    and "twin_rows cs (Branch i xs) (Branch x ys) = twin_rows ((i, as, a, bs) # cs) l r"
    and "twin_ids cs (Branch i xs) (Branch x ys) = insert x (twin_ids ((i, as, a, bs) # cs) l r)"
    and "twin_keys cs (Branch i xs) c (Branch x ys) = twin_keys ((i, as, a, bs) # cs) l sep r"
proof -
  let ?v = "v(i \<mapsto> p, x \<mapsto> q)"
  note par = twin_parent [OF tw]
  have dis: "distinct (pids l @ pids r @ path_ids ((i, as, a, bs) # cs))" using tw by (simp add: twin_def)
  have ne: "xs \<noteq> []" "ys \<noteq> []" using len by auto
  have ids: "mset (item_ids xs) + mset (item_ids ys) = mset (pids l) + mset (pids r) + mset (item_ids as) + mset (item_ids bs)"
    using arg_cong [OF ws, of "\<lambda>zs. mset (item_ids zs)"] by (simp add: ac_simps)
  then have set_ids: "set (item_ids xs) \<union> set (item_ids ys) = set (pids l) \<union> set (pids r) \<union> set (item_ids as) \<union> set (item_ids bs)"
    by (metis set_mset_mset set_mset_union)
  have leaves: "item_leaf_ids xs @ item_leaf_ids ys = item_leaf_ids as @ leaf_ids l @ leaf_ids r @ item_leaf_ids bs"
    using arg_cong [OF ws, of item_leaf_ids] by simp
  have rws: "item_rows xs @ item_rows ys = item_rows as @ rows l @ rows r @ item_rows bs"
    using arg_cong [OF ws, of item_rows] by simp
  have "mset (i # x # item_ids xs @ item_ids ys @ path_ids cs) = mset (x # pids l @ pids r @ path_ids ((i, as, a, bs) # cs))"
    using ids by (simp add: ac_simps)
  moreover have "distinct (x # pids l @ pids r @ path_ids ((i, as, a, bs) # cs))" using dis x by auto
  ultimately have dis': "distinct (i # x # item_ids xs @ item_ids ys @ path_ids cs)"
    by (metis mset_eq_imp_distinct_iff)
  have reps: "rep v l" "rep v r" "\<forall>z \<in> set (as @ bs). rep v (snd z)" "rep_path v i cs"
    using tw by (auto simp: twin_def)
  then have "\<forall>z \<in> set (as @ (a, l) # (Some sep, r) # bs). rep v (snd z)" by auto
  then have all: "\<forall>z \<in> set (xs @ ys). rep v (snd z)" unfolding ws .
  have all': "\<forall>z \<in> set (xs @ ys). rep ?v (snd z)"
    by (rule rep_items_frame [OF _ all]) (use dis' in auto)
  then have "rep ?v (Branch i xs)" "rep ?v (Branch x ys)" using p q dis' by auto
  moreover have "rep_path ?v i cs" by (rule rep_path_agree [OF reps(4)]) (use dis' in auto)
  moreover have "chain (wf_tree E k) (Some c) xs" "chain (wf_tree E k) (hole_high cs) ys"
    using par(2) c(1) low_hd [OF ne(2)] unfolding ws by (simp_all add: chain_append)
  moreover have "fst (hd xs) = hole_low cs" using par(3) ne unfolding ws by simp
  moreover have "lt_bound (hole_low cs) (Some c)"
    using chain_lt [OF \<open>chain (wf_tree E k) (Some c) xs\<close> ne(1)] \<open>fst (hd xs) = hole_low cs\<close> by simp
  moreover have "lt_bound (Some c) (hole_high cs)"
    using chain_lt [OF \<open>chain (wf_tree E k) (hole_high cs) ys\<close> ne(2)] c(1) by simp
  moreover have "links ?v None (left_leaves cs @ leaf_ids (Branch i xs) @ leaf_ids (Branch x ys) @ right_leaves cs) None"
  proof -
    have eq: "left_leaves cs @ leaf_ids (Branch i xs) @ leaf_ids (Branch x ys) @ right_leaves cs =
        left_leaves ((i, as, a, bs) # cs) @ leaf_ids l @ leaf_ids r @ right_leaves ((i, as, a, bs) # cs)"
      using leaves by simp
    have "set (left_leaves cs @ leaf_ids (Branch i xs) @ leaf_ids (Branch x ys) @ right_leaves cs) \<subseteq>
        set (item_ids xs @ item_ids ys @ path_ids cs)"
      using path_leaf_subset [of cs] item_leaf_subset [of xs] item_leaf_subset [of ys] by auto
    then have "i \<notin> set (left_leaves cs @ leaf_ids (Branch i xs) @ leaf_ids (Branch x ys) @ right_leaves cs)"
      "x \<notin> set (left_leaves cs @ leaf_ids (Branch i xs) @ leaf_ids (Branch x ys) @ right_leaves cs)"
      using dis' unfolding distinct.simps by (meson subsetD list.set_intros(2))+
    then show ?thesis
      using tw unfolding eq by (intro links_agree [of v _ _ _ ?v]) (auto simp: twin_def)
  qed
  ultimately show "twin E ?v (Suc k) cs (Branch i xs) c (Branch x ys)"
    using par(4) dis' c len ne unfolding twin_def by simp
  show "twin_rows cs (Branch i xs) (Branch x ys) = twin_rows ((i, as, a, bs) # cs) l r"
    using rws by (simp add: twin_rows_def)
  show "twin_ids cs (Branch i xs) (Branch x ys) = insert x (twin_ids ((i, as, a, bs) # cs) l r)"
    using set_ids by auto
  have "set (seps (map fst (xs @ ys))) = insert c (set (seps (map fst xs)) \<union> set (seps (map fst ys)))"
    using seps_cut [of "map fst xs" "map fst ys"] ne c(1) by (simp add: hd_map)
  then have "insert c (set (seps (map fst xs)) \<union> set (seps (map fst ys))) = insert sep (set (seps (map fst as @ a # map fst bs)))"
    using seps_item [of "map fst as" a "Some sep" "map fst bs"] unfolding ws [symmetric] by simp
  moreover have "(\<Union>z \<in> set xs. tree_keys (snd z)) \<union> (\<Union>z \<in> set ys. tree_keys (snd z)) =
      tree_keys l \<union> tree_keys r \<union> (\<Union>z \<in> set as \<union> set bs. tree_keys (snd z))"
    using arg_cong [OF ws, of "\<lambda>zs. \<Union>z \<in> set zs. tree_keys (snd z)"] by auto
  ultimately show "twin_keys cs (Branch i xs) c (Branch x ys) = twin_keys ((i, as, a, bs) # cs) l sep r"
    unfolding twin_keys_def tree_keys.simps path_keys.simps by blast
qed

section \<open>Splitting a leaf\<close>

lemma path_tops: "fst ` set cs \<subseteq> set (path_ids cs)"
  by (induction cs rule: path_ids.induct) auto

lemma path_tops_leaves: "distinct (path_ids cs) \<Longrightarrow> fst ` set cs \<inter> (set (left_leaves cs) \<union> set (right_leaves cs)) = {}"
proof (induction cs rule: path_ids.induct)
  case (2 i as a bs cs)
  let ?A = "set (item_ids as)" and ?B = "set (item_ids bs)" and ?P = "set (path_ids cs)"
  have d: "i \<notin> ?A \<union> ?B \<union> ?P" "?A \<inter> ?P = {}" "?B \<inter> ?P = {}" "distinct (path_ids cs)"
    using 2(2) unfolding path_ids.simps distinct_append distinct.simps set_append by blast+
  have sub: "set (item_leaf_ids as) \<subseteq> ?A" "set (item_leaf_ids bs) \<subseteq> ?B" "fst ` set cs \<subseteq> ?P"
    "set (left_leaves cs) \<union> set (right_leaves cs) \<subseteq> ?P"
    by (rule item_leaf_subset, rule item_leaf_subset, rule path_tops, rule path_leaf_subset)
  have "set (left_leaves ((i, as, a, bs) # cs)) \<union> set (right_leaves ((i, as, a, bs) # cs)) =
      set (left_leaves cs) \<union> set (right_leaves cs) \<union> set (item_leaf_ids as) \<union> set (item_leaf_ids bs)"
    unfolding left_leaves.simps right_leaves.simps set_append by blast
  moreover have "fst ` set ((i, as, a, bs) # cs) = insert i (fst ` set cs)" by simp
  moreover have "i \<notin> set (left_leaves cs) \<union> set (right_leaves cs)" using d(1) sub(4) by blast
  moreover have "i \<notin> set (item_leaf_ids as)" "i \<notin> set (item_leaf_ids bs)" using d(1) sub(1,2) by blast+
  moreover have "fst ` set cs \<inter> set (item_leaf_ids as) = {}" using d(2) sub(1,3) by blast
  moreover have "fst ` set cs \<inter> set (item_leaf_ids bs) = {}" using d(3) sub(2,3) by blast
  ultimately show ?case using 2(1) [OF d(4)] by (simp add: Int_Un_distrib del: left_leaves.simps right_leaves.simps)
qed simp

text \<open>The chain of leaves with a new leaf \<open>x\<close> behind \<open>b\<close>.\<close>

lemma links_insert:
  assumes l: "links v pv (ls @ b # rs) nx" and d: "distinct (ls @ b # x # rs)"
    and n: "n = (case rs of [] \<Rightarrow> nx | j # _ \<Rightarrow> Some j)"
    and b: "v b = Some p" "body p = Leaf r0 n pb" "v' b = Some p'" "body p' = Leaf r1 (Some x) pb"
    and x: "v' x = Some q" "body q = Leaf r2 n (Some b)"
    and nn: "\<And>j rest. rs = j # rest \<Longrightarrow> \<exists>q q' rn n'. v j = Some q \<and> body q = Leaf rn n' (Some b) \<and> v' j = Some q' \<and>
      body q' = Leaf rn n' (Some x)"
    and same: "\<And>j. j \<in> set ls \<union> set (tl rs) \<Longrightarrow> v' j = v j"
  shows "links v' pv (ls @ b # x # rs) nx"
proof -
  have l1: "links v pv ls (Some b)" and l2: "links v (if ls = [] then pv else Some (last ls)) (b # rs) nx"
    using l by (simp_all add: links_append split: if_splits)
  have "links v' pv ls (Some b)" by (rule links_agree [OF l1]) (use same in blast)
  moreover have "links v' (Some x) rs nx"
  proof (cases rs)
    case (Cons j rest)
    have "links v (Some j) rest nx" using l2 Cons by simp
    then have "links v' (Some j) rest nx" by (rule links_agree) (use same Cons in simp)
    then show ?thesis using nn [OF Cons] l2 Cons by auto
  qed simp
  moreover have "pb = (if ls = [] then pv else Some (last ls))" using l2 b(1,2) by auto
  ultimately show ?thesis using b(3,4) x n by (simp add: links_append)
qed

lemma rows_map_grow:
  assumes "path_ok E k cs" and "within (hole_low cs) (hole_high cs) (the_key r)" and "rows_map rs' = (rows_map rs)(the_key r \<mapsto> r)"
  shows "rows_map (left_rows cs @ rs' @ right_rows cs) = (rows_map (left_rows cs @ rs @ right_rows cs))(the_key r \<mapsto> r)"
proof -
  have "rows_map (left_rows cs @ [] @ right_rows cs) (the_key r) = rows_map [] (the_key r)"
    by (rule rows_map_around [OF assms(1,2)])
  then have "the_key r \<notin> dom (rows_map (left_rows cs))"
    by (auto simp: rows_map_append rows_map_def)
  then show ?thesis using assms(3) by (simp add: rows_map_append map_add_upd_left)
qed

lemma twin_leaf:
  assumes pl: "place E v 0 cs (Tip b rs)" and li: "links v None (left_leaves cs @ b # right_leaves cs) None"
    and d: "distinct (b # path_ids cs)" and x: "x \<notin> insert b (set (path_ids cs))"
    and p: "v b = Some p" "body p = Leaf rs nx pv" and wi: "within (hole_low cs) (hole_high cs) (the_key r)"
    and rs: "added E r rs (rs1 @ rs2)" "\<forall>y \<in> set rs1. the_key y < c" "\<forall>y \<in> set rs2. c \<le> the_key y"
    and c: "\<exists>y \<in> set rs. the_key y < c" "\<exists>y \<in> set rs. the_key y = c" "key_fits E c" "key_wf c"
    and p2: "v' b = Some p2" "body p2 = Leaf rs1 (Some x) pv" and q2: "v' x = Some q2" "body q2 = Leaf rs2 nx (Some b)"
    and nn: "\<And>j. nx = Some j \<Longrightarrow> \<exists>q q' rn n'. v j = Some q \<and> body q = Leaf rn n' (Some b) \<and> v' j = Some q' \<and>
      body q' = Leaf rn n' (Some x)"
    and same: "\<And>j. j \<in> set (path_ids cs) \<Longrightarrow> nx \<noteq> Some j \<Longrightarrow> v' j = v j"
  shows "twin E v' 0 cs (Tip b rs1) c (Tip x rs2)"
    and "rows_map (twin_rows cs (Tip b rs1) (Tip x rs2)) = (rows_map (rows (plug cs (Tip b rs))))(the_key r \<mapsto> r)"
    and "twin_ids cs (Tip b rs1) (Tip x rs2) = insert x (set (pids (plug cs (Tip b rs))))"
    and "twin_keys cs (Tip b rs1) c (Tip x rs2) \<subseteq> insert (the_key r) (tree_keys (plug cs (Tip b rs)))"
proof -
  let ?l = "hole_low cs" and ?h = "hole_high cs"
  have ok: "path_ok E 0 cs" and rp: "rep_path v b cs" and old: "\<forall>y \<in> set rs. within ?l ?h (the_key y)"
    using pl by (auto simp: place_def)
  have "\<forall>y \<in> set (rs1 @ rs2). within ?l ?h (the_key y)" using rs(1) old wi by (auto simp: added_def)
  moreover have "rows_ok E rs1" "rows_ok E rs2" using rs(1) by (simp_all add: added_def rows_ok_append)
  moreover have "lt_bound ?l (Some c)" "lt_bound (Some c) ?h"
    using c(1,2) old by (cases ?l; fastforce simp: within_def lt_bound_def)+
  ultimately have wf: "wf_tree E 0 ?l (Some c) (Tip b rs1)" "wf_tree E 0 (Some c) ?h (Tip x rs2)"
    "lt_bound ?l (Some c)" "lt_bound (Some c) ?h"
    using rs(2,3) by (auto simp: within_def)
  have "rep_path v' b cs"
  proof (rule rep_path_frame [OF _ rp])
    fix j assume j: "j \<in> set (path_ids cs)"
    show "relinked (v j) (v' j)" using nn [of j] same [OF j] by (cases "nx = Some j") (auto simp: relinked_def)
  qed
  moreover have "links v' None (left_leaves cs @ b # x # right_leaves cs) None"
  proof (rule links_insert [OF li _ _ p p2 q2])
    have sub: "set (left_leaves cs) \<union> set (right_leaves cs) \<subseteq> set (path_ids cs)" by (rule path_leaf_subset)
    have "distinct (pids (plug cs (Tip b rs)))" using d by (simp add: distinct_plug)
    then have dl: "distinct (left_leaves cs @ b # right_leaves cs)"
      using leaf_ids_distinct [of "plug cs (Tip b rs)"] by (simp add: leaf_ids_plug)
    then show "distinct (left_leaves cs @ b # x # right_leaves cs)" using x sub by auto
    show n: "nx = (case right_leaves cs of [] \<Rightarrow> None | j # _ \<Rightarrow> Some j)"
      using links_at [OF li] p by auto
    show "\<exists>q q' rn n'. v j = Some q \<and> body q = Leaf rn n' (Some b) \<and> v' j = Some q' \<and> body q' = Leaf rn n' (Some x)"
      if "right_leaves cs = j # rest" for j rest
      by (rule nn) (simp add: n that)
    show "v' j = v j" if "j \<in> set (left_leaves cs) \<union> set (tl (right_leaves cs))" for j
    proof (rule same)
      show "j \<in> set (path_ids cs)" using sub that by (cases "right_leaves cs") auto
      show "nx \<noteq> Some j" using dl that unfolding n by (cases "right_leaves cs") auto
    qed
  qed
  moreover have "rep v' (Tip b rs1)" "rep v' (Tip x rs2)" using p2 q2 by auto
  moreover have "distinct (pids (Tip b rs1) @ pids (Tip x rs2) @ path_ids cs)" using d x by auto
  ultimately show "twin E v' 0 cs (Tip b rs1) c (Tip x rs2)" using ok wf c(3,4) by (simp add: twin_def)
  show "rows_map (twin_rows cs (Tip b rs1) (Tip x rs2)) = (rows_map (rows (plug cs (Tip b rs))))(the_key r \<mapsto> r)"
    using rows_map_grow [OF ok wi, of "rs1 @ rs2" rs] rs(1) by (simp add: twin_rows_def rows_plug added_def)
  show "twin_ids cs (Tip b rs1) (Tip x rs2) = insert x (set (pids (plug cs (Tip b rs))))"
    by (auto simp: set_ids_plug)
  have "set (rs1 @ rs2) \<subseteq> insert r (set rs)" using rs(1) by (auto simp: added_def)
  then show "twin_keys cs (Tip b rs1) c (Tip x rs2) \<subseteq> insert (the_key r) (tree_keys (plug cs (Tip b rs)))"
    using c(2) by (auto simp: tree_keys_plug twin_keys_def)
qed

text \<open>A leaf whose rows change.\<close>

lemma tree_rows:
  assumes ti: "tree_in E v m (plug cs (Tip b rs))" and pl: "place E v 0 cs (Tip b rs)" and len: "length cs = m"
    and p: "v b = Some p" "body p = Leaf rs nx pv" "body p' = Leaf rs' nx pv" and ok: "rows_ok E rs'"
    and wi: "\<forall>y \<in> set rs'. within (hole_low cs) (hole_high cs) (the_key y)"
  shows "tree_in E (v(b \<mapsto> p')) m (plug cs (Tip b rs'))"
proof -
  have d: "distinct (b # path_ids cs)" using ti by (simp add: tree_in_def distinct_plug)
  have "rep_path (v(b \<mapsto> p')) b cs"
    by (rule rep_path_agree [of v]) (use pl d in \<open>auto simp: place_def\<close>)
  then have "rep (v(b \<mapsto> p')) (plug cs (Tip b rs'))" using p(3) by (simp add: rep_plug)
  moreover have "wf_tree E m None None (plug cs (Tip b rs'))"
    using plug_ok [of E 0 cs "Tip b rs'"] pl ok wi len by (simp add: place_def)
  moreover have "links (v(b \<mapsto> p')) None (leaf_ids (plug cs (Tip b rs'))) None"
    using links_rows [of v None "leaf_ids (plug cs (Tip b rs))" None b p rs nx pv p' rs'] ti p
    by (simp add: tree_in_def leaf_ids_plug)
  ultimately show ?thesis using d by (simp add: tree_in_def distinct_plug)
qed

end
