(* ===== verification/BTree_Insert.thy ===== *)
theory BTree_Insert
  imports Tree_Grow
begin

text \<open>
  Insertion into the tree. On the way down the write guards of the pages that may have to be split are
  kept; the topmost page kept has room for one more entry, or is the root. Splitting then works its
  way up along the guards, with two trees where there was one, until a page has room or the root is replaced.
\<close>

section \<open>Many guards\<close>

abbreviation wguards :: "(page_id \<times> frame_id) list \<Rightarrow> holder multiset" where
  "wguards hs \<equiv> image_mset (\<lambda>(q, i). wguard q i) (mset hs)"

abbreviation guards :: "(page_id \<times> frame_id) list \<Rightarrow> page_write_guard list" where
  "guards hs \<equiv> map (\<lambda>x. PageWriteGuard (snd x)) hs"

lemma held_wguards [simp]: "held (wguards hs) = fst ` set hs"
  by force

lemma held_union [simp]: "held (H + H') = held H \<union> held H'"
  by (simp add: image_Un)

lemma wp_trivial: "\<not> h \<Longrightarrow> (\<And>x s'. Q x s') \<Longrightarrow> (\<And>e s'. X e s') \<Longrightarrow> wp h (Some out) Q X"
  by (auto simp: wp_def split: prod.splits result.splits)

context buffer_pool begin

lemma wp_each_drop:
  assumes "trk h n v (wguards hs + H) s" and "\<And>s'. trk h n v H s' \<Longrightarrow> Q () s'"
  shows "wp h (Some (each (drop_write E) (guards hs) s)) Q X"
  using assms
proof (induction hs arbitrary: s)
  case Nil
  then show ?case by (simp add: wp_simps)
next
  case (Cons a hs)
  obtain q i where a: "a = (q, i)" by fastforce
  have "trk h n v (add_mset (wguard q i) (wguards hs + H)) s" using Cons.prems(1) by (simp add: a)
  then show ?case
    unfolding a each.simps list.map snd_conv wp_simps
    by (rule wp_drop_write) (use Cons in blast)
qed

lemma wp_drop_all:
  assumes "trk h n v (wguards hs + H) s" and "\<And>s'. trk h n v H s' \<Longrightarrow> Q () s'"
  shows "wp h (Some (drop_all E (rev (guards hs)) s)) Q X"
  unfolding drop_all_def rev_map
  by (rule wp_each_drop [of h n v "rev hs" H]) (use assms in simp_all)

lemma wp_get_root_write:
  assumes E: "varint_ok E" and tr: "trk h n v {#} s" and sp: "space tbl v root cnt fl U" and root: "root \<in> U"
    and room: "h \<longrightarrow> 2 < n" and Q: "\<And>i s'. trk h n v {#wguard root i#} s' \<Longrightarrow> Q (PageWriteGuard i) s'"
    and X: "\<And>e s'. \<not> h \<Longrightarrow> X e s'"
  shows "wp h (get_root_write E D V tbl s) Q X"
  unfolding get_root_write_def
proof (rule wp_loop [where I = "\<lambda>k x s. trk h n v {#} s" and k = 0])
  obtain p where p: "v root = Some p" using space_dom [OF sp root] by blast
  fix k :: nat and x s assume tr: "trk h n v {#} s"
  show "wp h (Some (sbind (sexpect (root_id E D V tbl)) (\<lambda>rid.
       sbind (lift_err BTreeBpm (fetch_write E D V rid)) (\<lambda>guard.
       sbind (sexpect (root_id E D V tbl)) (\<lambda>rid'.
         if rid' = rid then sreturn (Inr guard)
         else sbind (lift_err BTreeBpm (drop_write E guard)) (\<lambda>_. sreturn (Inl ()))))) s))
     (\<lambda>r s'. case r of Inl x' \<Rightarrow> \<exists>k' < k. trk h n v {#} s' | Inr y \<Rightarrow> Q y s') X"
    unfolding wp_simps
    apply (rule wp_root_id [OF E tr sp])
       apply simp
    subgoal using room by auto
    subgoal for s1
      apply (rule wp_fetch_write [where v = v, OF E], assumption, rule p)
      subgoal by simp
      subgoal using room by auto
      subgoal for i s2
        apply (rule wp_root_id [where v = v, OF E], assumption, rule sp)
        using root room Q by (auto simp: wp_simps)
      subgoal by (rule X)
      done
    by simp
qed (rule tr)

end

section \<open>Descending\<close>

text \<open>
  \<open>cs1\<close> are the pages kept, from the current page up, \<open>hs\<close> their guards; above them are \<open>cs2\<close>. A page is roomy when
  the insertion cannot split it.
\<close>

definition roomy :: "env \<Rightarrow> pages \<Rightarrow> row \<Rightarrow> page_id \<Rightarrow> bool" where
  "roomy E v r i \<longleftrightarrow> (\<exists>p. v i = Some p \<and> (is_split_safe E p \<or> can_insert E p r))"

definition descent ::
  "env \<Rightarrow> pages \<Rightarrow> btree \<Rightarrow> key \<Rightarrow> nat \<Rightarrow> nat \<Rightarrow> crumb list \<Rightarrow> crumb list \<Rightarrow> btree \<Rightarrow> (page_id \<times> frame_id) list \<Rightarrow> bool" where
  "descent E v t key m k cs1 cs2 t' hs \<longleftrightarrow>
     plug (cs1 @ cs2) t' = t \<and> place E v k (cs1 @ cs2) t' \<and>
     within (hole_low (cs1 @ cs2)) (hole_high (cs1 @ cs2)) key \<and> map fst hs = map fst cs1 \<and> length (cs1 @ cs2) + k = m"

lemma descent_root: "tree_in E v m t \<Longrightarrow> descent E v t key m m [] [] t []"
  using place_root by (simp add: descent_def)

lemma descent_held:
  assumes "descent E v t key m k cs1 cs2 t' hs" and "distinct (pids t)"
  shows "fst ` set hs \<inter> set (pids t') = {}" and "fst ` set hs \<subseteq> set (pids t)" and "length hs + k \<le> m"
proof -
  have eq: "fst ` set hs = fst ` set cs1" and len: "length hs = length cs1"
    using assms(1) unfolding descent_def by (metis list.set_map, metis length_map)
  have sub: "fst ` set hs \<subseteq> set (path_ids (cs1 @ cs2))" using path_tops [of "cs1 @ cs2"] by (auto simp: eq)
  have d: "distinct (pids t' @ path_ids (cs1 @ cs2))"
    using assms distinct_plug [of "cs1 @ cs2" t'] by (simp add: descent_def)
  then show "fst ` set hs \<inter> set (pids t') = {}" using sub by auto
  show "fst ` set hs \<subseteq> set (pids t)"
    using assms(1) sub set_ids_plug [of "cs1 @ cs2" t'] by (auto simp: descent_def)
  show "length hs + k \<le> m" using assms(1) len by (simp add: descent_def)
qed

lemma descent_down:
  assumes d: "descent E v t key m (Suc k) cs1 cs2 t' hs" and inv: "\<And>p. v (tid t') = Some p \<Longrightarrow> page_inv E p"
  obtains p c t2 where "v (tid t') = Some p" "is_internal p" "find_child p key = Ok (Some (tid t2))" "fst c = tid t'"
    "tid t2 \<in> set (pids t')" "distinct (pids t') \<Longrightarrow> tid t2 \<noteq> tid t'"
    "\<And>i. descent E v t key m k (c # cs1) cs2 t2 ((tid t', i) # hs)" "descent E v t key m k [] (c # cs1 @ cs2) t2 []"
proof -
  have pl: "place E v (Suc k) (cs1 @ cs2) t'" and wi: "within (hole_low (cs1 @ cs2)) (hole_high (cs1 @ cs2)) key"
    using d by (simp_all add: descent_def)
  obtain j p as a t2 bs where s: "t' = Branch j (as @ (a, t2) # bs)" "v (tid t') = Some p"
      "find_child p key = Ok (Some (tid t2))" "place E v k ((j, as, a, bs) # cs1 @ cs2) t2"
      "within a (low bs (hole_high (cs1 @ cs2))) key"
    by (rule place_down [OF pl inv wi]) auto
  show thesis
    by (rule that [of p t2 "(j, as, a, bs)"])
      (use s d place_page [OF pl] in \<open>auto simp: descent_def\<close>)
qed

context buffer_pool begin

definition at_insert ::
  "bool \<Rightarrow> nat \<Rightarrow> pages \<Rightarrow> btree \<Rightarrow> row \<Rightarrow> nat \<Rightarrow> nat \<Rightarrow> page_write_guard \<times> page_write_guard list \<Rightarrow> ('d, 'e) bpm \<Rightarrow> bool" where
  "at_insert h n v t r m k x s \<longleftrightarrow> (\<exists>i hs cs1 cs2 t'. x = (PageWriteGuard i, guards hs) \<and>
     descent E v t (the_key r) m k cs1 cs2 t' hs \<and> trk h n v (add_mset (wguard (tid t') i) (wguards hs)) s \<and>
     (cs2 = [] \<or> roomy E v r (top_id t' cs1)))"

lemma wp_insert_step:
  assumes E: "varint_ok E" and at: "at_insert h n v t r m k x s" and dis: "distinct (pids t)" and room: "h \<longrightarrow> m + 4 \<le> n"
    and X: "\<And>e s'. \<not> h \<Longrightarrow> X e s'"
  shows "wp h (Some (insert_step E D V r (the_key r) x s))
    (\<lambda>y s'. case y of Inl x' \<Rightarrow> (\<exists>k' < k. at_insert h n v t r m k' x' s') | Inr x' \<Rightarrow> at_insert h n v t r m 0 x' s') X"
proof -
  obtain i hs cs1 cs2 t' where x: "x = (PageWriteGuard i, guards hs)" and d: "descent E v t (the_key r) m k cs1 cs2 t' hs"
      and tr: "trk h n v (add_mset (wguard (tid t') i) (wguards hs)) s" and top: "cs2 = [] \<or> roomy E v r (top_id t' cs1)"
    using at by (auto simp: at_insert_def)
  note held = descent_held [OF d dis]
  have pl: "place E v k (cs1 @ cs2) t'" and t: "plug (cs1 @ cs2) t' = t" using d by (simp_all add: descent_def)
  obtain p where p: "v (tid t') = Some p" "is_internal p \<longleftrightarrow> k \<noteq> 0" using place_page [OF pl] by blast
  show ?thesis
  proof (cases k)
    case 0
    then have "at_insert h n v t r m 0 x s" using at by simp
    then show ?thesis
      unfolding insert_step_def x prod.case wp_simps
      by (intro wp_peek_write [OF tr p(1)]) (simp add: wp_simps p(2) 0)
  next
    case (Suc k')
    obtain c t2 where c: "find_child p (the_key r) = Ok (Some (tid t2))" "fst c = tid t'"
        "tid t2 \<in> set (pids t')" "distinct (pids t') \<Longrightarrow> tid t2 \<noteq> tid t'"
        "\<And>i. descent E v t (the_key r) m k' (c # cs1) cs2 t2 ((tid t', i) # hs)"
        "descent E v t (the_key r) m k' [] (c # cs1 @ cs2) t2 []"
      by (rule descent_down [OF d [unfolded Suc] trk_inv [OF tr]]) (use p(1) in auto)
    obtain q where q: "v (tid t2) = Some q" using place_page [of E v k' "c # cs1 @ cs2" t2] c(6) by (auto simp: descent_def)
    have "distinct (pids t')" using dis t distinct_plug [of "cs1 @ cs2" t'] by simp
    then have ne: "tid t2 \<noteq> tid t'" by (rule c(4))
    have fresh: "tid t2 \<notin> held (add_mset (wguard (tid t') i) (wguards hs))"
      using ne held(1) c(3) by auto
    have keep: "at_insert h n v t r m k' (PageWriteGuard j, PageWriteGuard i # guards hs) s'"
      if "trk h n v (add_mset (wguard (tid t2) j) (add_mset (wguard (tid t') i) (wguards hs))) s'" for j s'
      unfolding at_insert_def using that c(5) [of i] top c(2)
      by (intro exI [of _ j] exI [of _ "(tid t', i) # hs"] exI [of _ "c # cs1"] exI [of _ cs2] exI [of _ t2])
        (auto simp: top_id_def)
    have let_go: "at_insert h n v t r m k' (PageWriteGuard j, []) s'"
      if "trk h n v {#wguard (tid t2) j#} s'" "is_split_safe E q \<or> can_insert E q r" for j s'
      unfolding at_insert_def using that c(6) q
      by (intro exI [of _ j] exI [of _ "[]"] exI [of _ "c # cs1 @ cs2"] exI [of _ t2])
        (auto simp: roomy_def top_id_def)
    show ?thesis
      unfolding insert_step_def x prod.case wp_simps
      apply (rule wp_peek_write [OF tr p(1)])
      apply (simp add: wp_simps c(1) p(2) Suc)
      apply (rule wp_fetch_write [OF E tr q fresh])
      subgoal using room held(3) by (auto simp: Suc)
      subgoal for j s'
        apply (rule wp_peek_write, assumption, rule q)
        apply (simp only: wp_simps)
        apply (cases "is_split_safe E q \<or> can_insert E q r"; simp add: wp_simps)
        subgoal
          by (rule wp_drop_all [where hs = "(tid t', i) # hs" and H = "{#wguard (tid t2) j#}", simplified])
            (use let_go Suc in \<open>auto simp: add_mset_commute\<close>)
        subgoal using keep Suc by auto
        done
      subgoal using X by (intro wp_trivial) auto
      done
  qed
qed

end

section \<open>Splitting upwards\<close>

lemma below_max:
  fixes c :: "32 word"
  shows "unat c + 1 < 2 ^ 32 \<Longrightarrow> c \<noteq> - 1"
  by (auto simp: unsigned_minus_1_eq_mask mask_eq_exp_minus_1)

lemma empty_page_simps: "pg_id (empty_page x b) = x" "body (empty_page x b) = b"
  by (simp_all add: empty_page_def)

lemma new_root_eq:
  assumes "key_fits E k" and "key_wf k"
  shows "new_root E x a k b = Ok (empty_page x (Internal [k] [a, b]))" and "storable E (empty_page x (Internal [k] [a, b]))"
proof -
  have b: "body (empty_page x (Internal [k] [a, b])) = Internal [k] [a, b]" by (simp add: empty_page_def)
  have "page_inv E (empty_page x (Internal [k] [a, b]))"
    using assms(1) by (simp add: page_inv_internal [OF b] keys_ok_def layout_simps)
  then show "new_root E x a k b = Ok (empty_page x (Internal [k] [a, b]))"
    and "storable E (empty_page x (Internal [k] [a, b]))"
    using assms(2) by (simp_all add: new_root_def storable_internal [OF b] Let_def) (simp_all add: empty_page_def page_lsn_wf_def)
qed

context buffer_pool begin

text \<open>What an insertion leaves: guards to drop, and a tree with the row.\<close>

definition split_post ::
  "bool \<Rightarrow> nat \<Rightarrow> table \<Rightarrow> key set \<Rightarrow> holder multiset \<Rightarrow> (key \<Rightarrow> row option) \<Rightarrow> nat \<Rightarrow>
   page_write_guard list \<Rightarrow> ('d, 'e) bpm \<Rightarrow> bool" where
  "split_post h n tbl S H M B rest s \<longleftrightarrow> (\<exists>v t m cnt fl hs. rest = guards hs \<and> trk h n v (H + wguards hs) s \<and>
     tree_in E v m t \<and> space tbl v (tid t) cnt fl (set (pids t)) \<and> rows_map (rows t) = M \<and> unat cnt \<le> B \<and> tree_keys t \<subseteq> S)"

definition at_split ::
  "bool \<Rightarrow> nat \<Rightarrow> table \<Rightarrow> key set \<Rightarrow> holder multiset \<Rightarrow> (key \<Rightarrow> row option) \<Rightarrow> nat \<Rightarrow> nat \<Rightarrow>
   page_id \<times> key \<times> page_id \<times> page_write_guard list \<Rightarrow> ('d, 'e) bpm \<Rightarrow> bool" where
  "at_split h n tbl S H M B k x s \<longleftrightarrow> (\<exists>v j cs1 cs2 hs l sep r cnt fl. x = (tid l, sep, tid r, guards hs) \<and>
     twin E v j (cs1 @ cs2) l sep r \<and> space tbl v (top_id l (cs1 @ cs2)) cnt fl (twin_ids (cs1 @ cs2) l r) \<and>
     trk h n v (H + wguards hs) s \<and> rows_map (twin_rows (cs1 @ cs2) l r) = M \<and> held H \<subseteq> twin_ids (cs1 @ cs2) l r \<and>
     map fst hs = map fst cs1 \<and> length hs = k \<and> unat cnt + k + 1 \<le> B \<and>
     twin_keys (cs1 @ cs2) l sep r \<subseteq> S \<and>
     (cs2 = [] \<or> cs1 \<noteq> [] \<and> (\<exists>p. v (fst (last cs1)) = Some p \<and> is_split_safe E p)))"

lemma wp_split_root:
  assumes E: "varint_ok E" and tb: "\<And>i. get_table_id i = get_table_id (meta_id tbl) \<Longrightarrow> i \<in> ids"
    and tw: "twin E v j [] l sep r" and sp: "space tbl v (tid l) cnt fl (twin_ids [] l r)"
    and tr: "trk h n v H s" and H: "held H \<subseteq> twin_ids [] l r" and room: "h \<longrightarrow> size H + 2 \<le> n"
    and cnt: "unat cnt + 1 < 2 ^ 32" and B: "unat cnt + 1 \<le> B" and S: "twin_keys [] l sep r \<subseteq> S" and X: "\<And>e s'. \<not> h \<Longrightarrow> X e s'"
  shows "wp h (Some (split_step E D V tbl (tid l, sep, tid r, []) s))
    (\<lambda>y s'. case y of Inl x' \<Rightarrow> False | Inr rest \<Rightarrow> split_post h n tbl S H (rows_map (twin_rows [] l r)) B rest s') X"
proof -
  have key: "key_fits E sep" "key_wf sep" using tw by (simp_all add: twin_def)
  have "cnt \<noteq> - 1" using cnt by (rule below_max)
  show ?thesis
    unfolding split_step_def prod.case list.case wp_simps
  proof (rule wp_allocate [OF E tr sp H _ \<open>cnt \<noteq> - 1\<close> tb], goal_cases)
    case 1
    then show ?case using room by auto
  next
    case (3 v1 cnt1 fl1 x i s1)
    note root = new_root_eq [OF key, of x "tid l" "tid r"]
    let ?root = "empty_page x (Internal [sep] [tid l, tid r])"
    let ?v2 = "v1(x \<mapsto> ?root)"
    let ?t = "Branch x [(None, l), (Some sep, r)]"
    have sp2: "space tbl ?v2 (tid l) cnt1 fl1 (insert x (twin_ids [] l r))"
      by (rule space_use [OF 3(2)]) (use 3(4) in auto)
    have x: "get_table_id x = get_table_id (meta_id tbl)"
      by (rule space_table [OF 3(2)]) (use 3(4) in blast)
    have fin: "split_post h n tbl S H (rows_map (twin_rows [] l r)) B [] s'"
      if tr': "trk h n v' H s'" and sp': "space tbl v' x cnt1 fl1 (insert x (twin_ids [] l r))"
        and v': "\<And>i. i \<noteq> meta_id tbl \<Longrightarrow> v' i = ?v2 i" for v' s'
    proof -
      have m: "meta_id tbl \<notin> insert x (twin_ids [] l r)" using sp' by (rule spaceE)
      have "v' i = v i" if "i \<in> twin_ids [] l r" for i
      proof -
        have "i \<noteq> meta_id tbl" "i \<noteq> x" using m 3(3) that by blast+
        then show ?thesis using v' [of i] 3(5) [OF that] by simp
      qed
      moreover have "v' x = Some ?root" using v' [of x] m by auto
      moreover have "body ?root = Internal [sep] [tid l, tid r]" by (simp add: empty_page_def)
      ultimately have t: "tree_in E v' (Suc j) ?t" "tree_keys ?t = twin_keys [] l sep r" "rows ?t = twin_rows [] l r" "set (pids ?t) = insert x (twin_ids [] l r)"
        using twin_root [OF tw 3(3), of v'] by blast+
      then show ?thesis
        unfolding split_post_def using tr' sp' 3(6) B
        by (intro exI [of _ v'] exI [of _ ?t] exI [of _ "Suc j"] exI [of _ cnt1] exI [of _ fl1] exI [of _ "[]"])
          (simp add: S del: pids.simps tree_keys.simps)
    qed
    show ?case
      apply (rule wp_peek_write [OF 3(1,4)])
      apply (simp only: wp_simps empty_page_simps root(1) map_err.simps)
      apply (rule wp_overwrite [OF 3(1,4) root(2)])
      subgoal by (simp add: empty_page_def)
      subgoal for s2
        apply (rule wp_peek_write [where pid = x], assumption, simp)
        apply (simp only: wp_simps)
        apply (rule wp_set_root_id [where v = ?v2, OF E], assumption, rule sp2)
        subgoal using H by auto
        subgoal using room by auto
        subgoal using x by (simp add: empty_page_def)
        subgoal for v3 s3
          apply (rule wp_drop_write, assumption)
          using fin [of v3] by (simp add: wp_simps empty_page_def)
        subgoal by simp
        done
      done
  qed (use X in auto)
qed

lemma wp_split_room:
  assumes tw: "twin E v j ((i, as, a, bs) # cs) l sep r"
    and sp: "space tbl v (top_id l ((i, as, a, bs) # cs)) cnt fl (twin_ids ((i, as, a, bs) # cs) l r)"
    and tr: "trk h n v (add_mset (wguard i g) (H + wguards hs)) s"
    and p: "v i = Some p" and room: "can_insert_separator E p sep" and B: "unat cnt \<le> B"
    and S: "twin_keys ((i, as, a, bs) # cs) l sep r \<subseteq> S"
  shows "wp h (Some (split_step E D V tbl (tid l, sep, tid r, PageWriteGuard g # guards hs) s))
    (\<lambda>y s'. case y of Inl x' \<Rightarrow> False
      | Inr rest \<Rightarrow> split_post h n tbl S H (rows_map (twin_rows ((i, as, a, bs) # cs) l r)) B rest s') X"
proof -
  note par = twin_parent [OF tw]
  have key: "key_fits E sep" "key_wf sep" using tw by (simp_all add: twin_def)
  have b: "body p = branch_body (as @ (a, l) # bs)" using par(1) p by simp
  note st = trk_storable [OF tr p]
  obtain p' where p': "internal_insert E p sep (tid r) = (Ok (), p')" "body p' = branch_body (as @ (a, l) # (Some sep, r) # bs)"
      "storable E p'" "pg_id p' = pg_id p"
    using insert_item [OF b st(1) par(2) key room] by blast
  let ?t = "plug cs (Branch i (as @ (a, l) # (Some sep, r) # bs))"
  note t = twin_done [OF tw p'(2)]
  have sp': "space tbl (v(i \<mapsto> p')) (tid ?t) cnt fl (set (pids ?t))"
    unfolding t(3,4) by (rule space_use [OF sp]) (use p in auto)
  have fin: "split_post h n tbl S H (rows_map (twin_rows ((i, as, a, bs) # cs) l r)) B (guards hs) s'"
    if "trk h n (v(i \<mapsto> p')) (H + wguards hs) s'" for s'
    unfolding split_post_def t(2) [symmetric] using that t(1) sp' B S [folded t(5)]
    by (intro exI [of _ "v(i \<mapsto> p')"] exI [of _ ?t] exI [of _ "j + length ((i, as, a, bs) # cs)"] exI [of _ cnt]
        exI [of _ fl] exI [of _ hs]) blast
  show ?thesis
    unfolding split_step_def prod.case list.case wp_simps
    apply (rule wp_peek_write [OF tr p])
    apply (simp only: room if_True wp_simps)
    apply (rule wp_deref_mut [where op = "\<lambda>p. internal_insert E p sep (tid r)", OF tr p p'(1)])
    subgoal using p'(3,4) st by simp
    subgoal
      apply (simp only: wp_simps)
      apply (rule wp_drop_write, assumption)
      using fin by (simp add: wp_simps)
    subgoal by simp
    done
qed

lemma wp_split_full:
  assumes E: "varint_ok E" and tb: "\<And>i. get_table_id i = get_table_id (meta_id tbl) \<Longrightarrow> i \<in> ids"
    and tw: "twin E v j ((i, as, a, bs) # cs) l sep r"
    and sp: "space tbl v (top_id l ((i, as, a, bs) # cs)) cnt fl (twin_ids ((i, as, a, bs) # cs) l r)"
    and tr: "trk h n v (add_mset (wguard i g) (H + wguards hs)) s"
    and H: "held H \<subseteq> twin_ids ((i, as, a, bs) # cs) l r" and hs: "fst ` set hs \<subseteq> twin_ids ((i, as, a, bs) # cs) l r"
    and p: "v i = Some p" and full: "\<not> can_insert_separator E p sep" and size: "h \<longrightarrow> size H + length hs + 3 \<le> n"
    and cnt: "unat cnt + 1 < 2 ^ 32"
    and Q: "\<And>v' x xs c ys cnt' fl' s'. twin E v' (Suc j) cs (Branch i xs) c (Branch x ys) \<Longrightarrow>
      space tbl v' (top_id (Branch i xs) cs) cnt' fl' (twin_ids cs (Branch i xs) (Branch x ys)) \<Longrightarrow>
      trk h n v' (H + wguards hs) s' \<Longrightarrow>
      twin_rows cs (Branch i xs) (Branch x ys) = twin_rows ((i, as, a, bs) # cs) l r \<Longrightarrow>
      held H \<subseteq> twin_ids cs (Branch i xs) (Branch x ys) \<Longrightarrow> unat cnt' \<le> unat cnt + 1 \<Longrightarrow>
      (\<And>k. k \<in> set (path_ids cs) \<Longrightarrow> v' k = v k) \<Longrightarrow>
      twin_keys cs (Branch i xs) c (Branch x ys) = twin_keys ((i, as, a, bs) # cs) l sep r \<Longrightarrow>
      Q (Inl (i, c, x, guards hs)) s'"
    and X: "\<And>e s'. \<not> h \<Longrightarrow> X e s'"
  shows "wp h (Some (split_step E D V tbl (tid l, sep, tid r, PageWriteGuard g # guards hs) s)) Q X"
proof -
  let ?cs = "(i, as, a, bs) # cs"
  note par = twin_parent [OF tw]
  have key: "key_fits E sep" "key_wf sep" using tw by (simp_all add: twin_def)
  have b: "body p = branch_body (as @ (a, l) # bs)" using par(1) p by simp
  note st = trk_storable [OF tr p]
  have "cnt \<noteq> - 1" using cnt by (rule below_max)
  have i: "i \<in> twin_ids ?cs l r" by simp
  have held: "held (add_mset (wguard i g) (H + wguards hs)) \<subseteq> twin_ids ?cs l r"
    using H hs i
    by (simp only: set_mset_add_mset_insert image_insert fst_conv held_union held_wguards insert_subset Un_subset_iff simp_thms)
  have tb1: "get_table_id k = get_table_id (meta_id tbl) \<Longrightarrow> k \<in> ids" for k by (rule tb)
  show ?thesis
    unfolding split_step_def prod.case list.case wp_simps
    apply (rule wp_peek_write [OF tr p])
    apply (simp only: full if_False wp_simps)
  proof (rule wp_allocate [OF E tr sp _ _ \<open>cnt \<noteq> - 1\<close> tb1], goal_cases)
    case 1
    show ?case by (rule held)
  next
    case 2
    then show ?case using size by auto
  next
    case (4 v1 cnt1 fl1 x gx s1)
    obtain xs ys c p1 q1 p2 q2 where sI: "as @ (a, l) # (Some sep, r) # bs = xs @ ys" "2 \<le> length xs" "2 \<le> length ys"
      "fst (hd ys) = Some c" "key_fits E c" "key_wf c" "split_page E p x = (Ok (c, q1), p1)"
      "pg_id p1 = pg_id p" "pg_id q1 = x" "storable E p1" "storable E q1"
      "if sep > c then internal_insert E q1 sep (tid r) = (Ok (), q2) \<and> p2 = p1
       else internal_insert E p1 sep (tid r) = (Ok (), p2) \<and> q2 = q1"
      "body p2 = branch_body xs" "body q2 = branch_body ys" "pg_id p2 = pg_id p" "pg_id q2 = x" "storable E p2" "storable E q2"
      by (rule split_insert_item [OF b st(1) full par(2) key, of x])
    have ne: "x \<noteq> i" and v1i: "v1 i = Some p" using 4(3) i 4(5) [OF i] p by auto
    let ?v = "v1(i \<mapsto> p2, x \<mapsto> q2)"
    note tr1 = 4(1)
    have tr1': "trk h n v1 (add_mset (wguard i g) (add_mset (wguard x gx) (H + wguards hs))) s1"
      by (rule trk_swap [OF tr1])
    have tw1: "twin E v1 j ?cs l sep r" by (rule twin_agree [OF tw 4(5)])
    note two = twin_split [OF tw1 sI(1-6,13,14) 4(3)]
    have top: "top_id (Branch i xs) cs = top_id l ?cs" by (simp add: top_id_def)
    have sp': "space tbl ?v (top_id (Branch i xs) cs) cnt1 fl1 (twin_ids cs (Branch i xs) (Branch x ys))"
      unfolding two(3) top by (rule space_use [OF 4(2)]) (use 4(4) v1i i in auto)
    have keep: "?v k = v k" if "k \<in> set (path_ids cs)" for k
    proof -
      have "k \<in> twin_ids ?cs l r" using that by simp
      moreover have "k \<noteq> i" using tw that by (auto simp: twin_def)
      ultimately show ?thesis using 4(3) 4(5) [of k] by (cases "k = x") auto
    qed
    have fin: "Q (Inl (i, c, x, guards hs)) s'" if "trk h n ?v (H + wguards hs) s'" for s'
    proof (rule Q [OF two(1) sp' that two(2)])
      show "held H \<subseteq> twin_ids cs (Branch i xs) (Branch x ys)" unfolding two(3) using H by blast
      show "twin_keys cs (Branch i xs) c (Branch x ys) = twin_keys ?cs l sep r" by (rule two(4))
    qed (use 4(6) keep in auto)
    have insert: "wp h (Some (write_deref_mut (if c < sep then PageWriteGuard gx else PageWriteGuard g)
        (\<lambda>p. internal_insert E p sep (tid r)) s')) R Y"
      if s': "trk h n (v1(i \<mapsto> p1, x \<mapsto> q1)) (add_mset (wguard x gx) (add_mset (wguard i g) (H + wguards hs))) s'"
        and R: "\<And>s''. trk h n ?v (add_mset (wguard x gx) (add_mset (wguard i g) (H + wguards hs))) s'' \<Longrightarrow> R () s''" for s' R Y
    proof (cases "c < sep")
      case True
      then have op: "internal_insert E q1 sep (tid r) = (Ok (), q2)" "p2 = p1" using sI(12) by simp_all
      show ?thesis
        unfolding if_P [OF True]
        by (rule wp_deref_mut [where op = "\<lambda>p. internal_insert E p sep (tid r)" and p = q1, OF s' _ op(1)])
          (use R sI(16,18) op(2) in \<open>auto simp: wp_simps\<close>)
    next
      case False
      then have op: "internal_insert E p1 sep (tid r) = (Ok (), p2)" "q2 = q1" using sI(12) by simp_all
      have eq: "(v1(i \<mapsto> p1, x \<mapsto> q1))(i \<mapsto> p2) = ?v" using ne op(2) by (simp add: fun_upd_twist)
      show ?thesis
        unfolding if_not_P [OF False]
        by (rule wp_deref_mut [where op = "\<lambda>p. internal_insert E p sep (tid r)" and p = p1, OF trk_swap [OF s'] _ op(1)])
          (use R sI(15,17) st ne in \<open>auto simp: wp_simps eq intro: trk_swap\<close>)
    qed
    show ?case
      apply (rule wp_peek_write [OF tr1 4(4)])
      apply (simp only: wp_simps empty_page_simps)
      apply (rule wp_deref_mut [where op = "\<lambda>p. split_page E p x", OF tr1' v1i sI(7)])
      subgoal using sI(8,10) st by simp
      subgoal for s2
        apply (simp only: wp_simps prod.case)
        apply (rule wp_overwrite [where pid = x and v = "v1(i \<mapsto> p1)" and p = "empty_page x (Free None)"])
            apply (erule trk_swap)
        subgoal using ne 4(4) by simp
        subgoal by (rule sI(11))
        subgoal by (rule sI(9))
        subgoal for s3
          apply (rule insert, assumption)
          subgoal for s4
            apply (rule wp_peek_write [where pid = i and v = ?v and p = p2], erule trk_swap)
            subgoal using ne by simp
            apply (simp only: wp_simps)
            apply (rule wp_peek_write [where pid = x and v = ?v and p = q2], assumption)
            subgoal by simp
            apply (simp only: wp_simps sI(15,16) st)
            apply (rule wp_drop_write [where pid = x], assumption)
            apply (rule wp_drop_write [where pid = i], assumption)
            by (rule fin)
          done
        done
      subgoal by simp
      done
  qed (use X in auto)
qed

lemma wp_split_step:
  assumes E: "varint_ok E" and tb: "\<And>i. get_table_id i = get_table_id (meta_id tbl) \<Longrightarrow> i \<in> ids"
    and at: "at_split h n tbl S H M B k x s" and size: "h \<longrightarrow> size H + k + 2 \<le> n" and B: "B < 2 ^ 32"
    and X: "\<And>e s'. \<not> h \<Longrightarrow> X e s'"
  shows "wp h (Some (split_step E D V tbl x s))
    (\<lambda>y s'. case y of Inl x' \<Rightarrow> (\<exists>k' < k. at_split h n tbl S H M B k' x' s')
      | Inr rest \<Rightarrow> split_post h n tbl S H M B rest s') X"
proof -
  obtain v j cs1 cs2 hs l sep r cnt fl where x: "x = (tid l, sep, tid r, guards hs)"
    and tw: "twin E v j (cs1 @ cs2) l sep r" and sp: "space tbl v (top_id l (cs1 @ cs2)) cnt fl (twin_ids (cs1 @ cs2) l r)"
    and tr: "trk h n v (H + wguards hs) s" and M: "rows_map (twin_rows (cs1 @ cs2) l r) = M"
    and H: "held H \<subseteq> twin_ids (cs1 @ cs2) l r" and hs: "map fst hs = map fst cs1" and k: "length hs = k"
    and cnt: "unat cnt + k + 1 \<le> B" and S: "twin_keys (cs1 @ cs2) l sep r \<subseteq> S"
    and top: "cs2 = [] \<or> cs1 \<noteq> [] \<and> (\<exists>p. v (fst (last cs1)) = Some p \<and> is_split_safe E p)"
    using at unfolding at_split_def by blast
  show ?thesis
  proof (cases hs)
    case Nil
    then have e: "cs1 = []" "cs2 = []" "k = 0" using hs k top by auto
    have "wp h (Some (split_step E D V tbl (tid l, sep, tid r, []) s))
      (\<lambda>y s'. case y of Inl x' \<Rightarrow> False | Inr rest \<Rightarrow> split_post h n tbl S H (rows_map (twin_rows [] l r)) B rest s') X"
      by (rule wp_split_root [OF E tb]) (use tw sp tr H size cnt B S X e Nil in \<open>auto simp: top_id_def\<close>)
    then show ?thesis
      unfolding x Nil list.map by (rule wp_mono) (use M e in \<open>auto split: sum.splits\<close>)
  next
    case (Cons a hs')
    then obtain c cs1' where c: "cs1 = c # cs1'" using hs by (cases cs1) auto
    obtain i as b bs where ci: "c = (i, as, b, bs)" by (cases c)
    obtain g where a: "a = (i, g)" and hs': "map fst hs' = map fst cs1'" using hs Cons c ci by (cases a) auto
    note tw = tw [unfolded c ci append_Cons] and sp = sp [unfolded c ci append_Cons]
      and H = H [unfolded c ci append_Cons] and M = M [unfolded c ci append_Cons] and S = S [unfolded c ci append_Cons]
    have tr: "trk h n v (add_mset (wguard i g) (H + wguards hs')) s" using tr by (simp add: Cons a)
    obtain p where p: "v i = Some p" using twin_parent(1) [OF tw] by blast
    have B': "unat cnt \<le> B" using cnt by simp
    show ?thesis
    proof (cases "can_insert_separator E p sep")
      case True
      show ?thesis
        unfolding x Cons list.map a snd_conv
        by (rule wp_mono [OF wp_split_room [OF tw sp tr p True B' S]]) (use M in \<open>auto split: sum.splits\<close>)
    next
      case False
      have key: "key_fits E sep" using tw by (simp add: twin_def)
      have eq: "fst ` set hs' = fst ` set cs1'" using hs' by (metis list.set_map)
      have "fst ` set hs' \<subseteq> set (path_ids (cs1' @ cs2))" using path_tops [of "cs1' @ cs2"] by (auto simp: eq)
      then have sub: "fst ` set hs' \<subseteq> twin_ids ((i, as, b, bs) # cs1' @ cs2) l r" by auto
      show ?thesis
        unfolding x Cons list.map a snd_conv
      proof (rule wp_split_full [OF E tb tw sp tr H sub p False], goal_cases)
        case 2
        then show ?case using size k Cons by auto
      next
        case 3
        then show ?case using cnt B by simp
      next
        case (4 v' x' xs d ys cnt' fl' s')
        have "cs2 = [] \<or> cs1' \<noteq> [] \<and> (\<exists>p. v' (fst (last cs1')) = Some p \<and> is_split_safe E p)"
        proof (cases "cs1' = []")
          case True
          then show ?thesis using top p \<open>\<not> can_insert_separator E p sep\<close> split_safe_room [OF _ key] c ci by auto
        next
          case False
          then have "last cs1' \<in> set (cs1' @ cs2)" by simp
          then have "fst (last cs1') \<in> set (path_ids (cs1' @ cs2))" using path_tops by blast
          then show ?thesis using top 4(7) [of "fst (last cs1')"] False c by simp
        qed
        then have "at_split h n tbl S H M B (length hs') (i, d, x', guards hs') s'"
          unfolding at_split_def using 4(1-6) S [folded 4(8)] hs' M cnt k Cons
          by (intro exI [of _ v'] exI [of _ "Suc j"] exI [of _ cs1'] exI [of _ cs2] exI [of _ hs']
              exI [of _ "Branch i xs"] exI [of _ d] exI [of _ "Branch x' ys"] exI [of _ cnt'] exI [of _ fl'])
            (simp del: pids.simps tree_keys.simps)
        then show ?case using k Cons by auto
      qed (use X in auto)
    qed
  qed
qed

lemma wp_split_loop:
  assumes "varint_ok E" and "\<And>i. get_table_id i = get_table_id (meta_id tbl) \<Longrightarrow> i \<in> ids"
    and at: "at_split h n tbl S H M B k x s" and size: "h \<longrightarrow> size H + k + 2 \<le> n" and "B < 2 ^ 32"
    and Q: "\<And>rest s'. split_post h n tbl S H M B rest s' \<Longrightarrow> Q rest s'" and X: "\<And>e s'. \<not> h \<Longrightarrow> X e s'"
  shows "wp h (loop (split_step E D V tbl) x s) Q X"
proof (rule wp_loop [where I = "\<lambda>k' x s. k' \<le> k \<and> at_split h n tbl S H M B k' x s" and k = k])
  show "k \<le> k \<and> at_split h n tbl S H M B k x s" using at by simp
next
  fix k' x s
  assume I: "k' \<le> k \<and> at_split h n tbl S H M B k' x s"
  show "wp h (Some (split_step E D V tbl x s))
     (\<lambda>r s'. case r of Inl x' \<Rightarrow> \<exists>k'' < k'. k'' \<le> k \<and> at_split h n tbl S H M B k'' x' s' | Inr y \<Rightarrow> Q y s') X"
    by (rule wp_mono [OF wp_split_step [where h = h and n = n and S = S and H = H and M = M and B = B and k = k' and X = X, OF assms(1,2)]])
      (use I size assms(5) Q X in \<open>force split: sum.splits\<close>)+
qed

end

section \<open>Splitting the leaf\<close>

lemma storable_relink:
  assumes "storable E p" and "body p = Leaf rs n pv"
  shows "storable E (p\<lparr>body := Leaf rs n' pv'\<rparr>)"
  using assms by (simp add: storable_leaf [OF assms(2)] storable_leaf [of "p\<lparr>body := Leaf rs n' pv'\<rparr>", simplified]
      page_inv_leaf [OF assms(2)] page_inv_leaf [of "p\<lparr>body := Leaf rs n' pv'\<rparr>", simplified])

context buffer_pool begin

lemma wp_relink:
  assumes tr: "trk h n v (add_mset (wguard j g) H) s" and q: "v j = Some q" "body q = Leaf rn n' pb"
    and Q: "\<And>q' s'. trk h n (v(j \<mapsto> q')) H s' \<Longrightarrow> body q' = Leaf rn n' pid \<Longrightarrow> Q () s'"
  shows "wp h (Some (then_drop (lift_err BTreePage (write_deref_mut (PageWriteGuard g) (\<lambda>p. set_prev p pid)))
    (drop_write E (PageWriteGuard g)) s)) Q X"
proof -
  let ?q = "q\<lparr>body := Leaf rn n' pid\<rparr>"
  have op: "set_prev q pid = (Ok (), ?q)" by (simp add: set_prev_def q(2))
  note st = trk_storable [OF tr q(1)]
  show ?thesis
    unfolding wp_simps
    by (rule wp_deref_mut [where op = "\<lambda>p. set_prev p pid", OF tr q(1) op])
      (use st storable_relink [OF st(1) q(2)] Q in \<open>auto simp: wp_simps intro!: wp_drop_write\<close>)
qed

definition table_post :: "bool \<Rightarrow> nat \<Rightarrow> table \<Rightarrow> key set \<Rightarrow> (key \<Rightarrow> row option) \<Rightarrow> nat \<Rightarrow> ('d, 'e) bpm \<Rightarrow> bool" where
  "table_post h n tbl S M B s \<longleftrightarrow> (\<exists>v t m cnt fl. trk h n v {#} s \<and> tree_in E v m t \<and>
     space tbl v (tid t) cnt fl (set (pids t)) \<and> rows_map (rows t) = M \<and> unat cnt \<le> B \<and> tree_keys t \<subseteq> S)"

lemma wp_split_leaf:
  assumes E: "varint_ok E" and tr: "trk h n v (add_mset (wguard x gx) (add_mset (wguard b gb) (wguards hs))) s"
    and pl: "place E v 0 cs (Tip b rs)" and li: "links v None (left_leaves cs @ b # right_leaves cs) None"
    and d: "distinct (b # path_ids cs)" and x: "x \<notin> insert b (set (path_ids cs))" "v x = Some x0"
    and hs: "fst ` set hs \<subseteq> fst ` set cs"
    and p: "v b = Some p" "body p = Leaf rs nx pv" and wi: "within (hole_low cs) (hole_high cs) (the_key r)"
    and r: "row_fits E r" "row_wf r" "the_key r \<notin> set (row_keys rs)" and full: "\<not> can_insert E p r"
    and size: "h \<longrightarrow> length hs + 3 \<le> n"
    and Q: "\<And>v' rs1 c rs2 s'. trk h n v' (add_mset (wguard x gx) (add_mset (wguard b gb) (wguards hs))) s' \<Longrightarrow>
      twin E v' 0 cs (Tip b rs1) c (Tip x rs2) \<Longrightarrow>
      rows_map (twin_rows cs (Tip b rs1) (Tip x rs2)) = (rows_map (rows (plug cs (Tip b rs))))(the_key r \<mapsto> r) \<Longrightarrow>
      twin_ids cs (Tip b rs1) (Tip x rs2) = insert x (set (pids (plug cs (Tip b rs)))) \<Longrightarrow>
      twin_keys cs (Tip b rs1) c (Tip x rs2) \<subseteq> insert (the_key r) (tree_keys (plug cs (Tip b rs))) \<Longrightarrow>
      (\<And>j. j \<notin> insert x (insert b (set (left_leaves cs) \<union> set (right_leaves cs))) \<Longrightarrow> v' j = v j) \<Longrightarrow> dom v' = dom v \<Longrightarrow>
      Q (b, c, x) s'"
    and X: "\<And>e s'. \<not> h \<Longrightarrow> X e s'"
  shows "wp h (Some ((sbind (peek_write (PageWriteGuard gx) (\<lambda>p. Ok (pg_id p))) (\<lambda>new_id.
      sbind (lift_err BTreePage (write_deref_mut (PageWriteGuard gb) (\<lambda>p. split_page E p new_id))) (\<lambda>(sep, new_page).
      sbind (overwrite (PageWriteGuard gx) new_page) (\<lambda>_.
      sbind (lift_err BTreePage (peek_write (PageWriteGuard gx) (\<lambda>p. page_next (body p)))) (\<lambda>nxt.
      sbind (peek_write (PageWriteGuard gx) (\<lambda>p. Ok (pg_id p))) (\<lambda>right_id.
      sbind
        (case nxt of
          None \<Rightarrow> sreturn ()
        | Some n \<Rightarrow>
            sbind (lift_err BTreeBpm (fetch_write E D V n)) (\<lambda>neighbour.
              then_drop
                (lift_err BTreePage (write_deref_mut neighbour (\<lambda>p. set_prev p (Some right_id))))
                (drop_write E neighbour))) (\<lambda>_.
      sbind (peek_write (PageWriteGuard gb) (\<lambda>p. Ok (pg_id p))) (\<lambda>left_id.
      sbind (slift (map_err BTreePage (primary_key (ValidatedRow r)))) (\<lambda>key.
      sbind (lift_err BTreePage
        (write_deref_mut (if key \<le> sep then (PageWriteGuard gb) else (PageWriteGuard gx)) (\<lambda>p. leaf_insert E p (ValidatedRow r)))) (\<lambda>_.
        sreturn (left_id, sep, right_id))))))))))) s)) Q X"
proof -
  note st = trk_storable [OF trk_swap [OF tr] p(1)]
  obtain c p1 q1 rs1 rs2 p2 q2 xs ys where sI: "split_page E p x = (Ok (c, q1), p1)" "storable E p1" "storable E q1"
    "pg_id p1 = pg_id p" "pg_id q1 = x" "body p1 = Leaf xs (Some x) pv" "body q1 = Leaf ys nx (Some (pg_id p))"
    "if the_key r \<le> c then leaf_insert E p1 (ValidatedRow r) = (Ok (), p2) \<and> q2 = q1
     else leaf_insert E q1 (ValidatedRow r) = (Ok (), q2) \<and> p2 = p1"
    "storable E p2" "storable E q2" "pg_id p2 = pg_id p" "pg_id q2 = x"
    "body p2 = Leaf rs1 (Some x) pv" "body q2 = Leaf rs2 nx (Some (pg_id p))"
    "added E r rs (rs1 @ rs2)" "\<forall>x \<in> set rs1. the_key x < c" "\<forall>x \<in> set rs2. c \<le> the_key x"
    "\<exists>x \<in> set rs. the_key x < c" "\<exists>x \<in> set rs. the_key x = c" "key_fits E c" "key_wf c"
    by (rule split_insert_row [OF p(2) st(1) r full, of x])
  let ?H = "add_mset (wguard x gx) (add_mset (wguard b gb) (wguards hs))"
  have ne: "x \<noteq> b" using x by simp
  have key: "primary_key (ValidatedRow r) = Ok (the_key r)"
    using row_fits_key [OF r(1)] by (simp add: primary_key_row_key)
  let ?v = "\<lambda>u :: pages. u(b \<mapsto> p2, x \<mapsto> q2)"
  have insert: "wp h (Some (write_deref_mut (if the_key r \<le> c then PageWriteGuard gb else PageWriteGuard gx)
      (\<lambda>p. leaf_insert E p (ValidatedRow r)) s')) R Y"
    if s': "trk h n u ?H s'" and u: "u b = Some p1" "u x = Some q1"
      and R: "\<And>s''. trk h n (?v u) ?H s'' \<Longrightarrow> R () s''" for u s' R Y
  proof (cases "the_key r \<le> c")
    case True
    then have op: "leaf_insert E p1 (ValidatedRow r) = (Ok (), p2)" "q2 = q1" using sI(8) by simp_all
    have eq: "u(b \<mapsto> p2) = ?v u" using ne op(2) u(2) by (simp add: fun_eq_iff)
    show ?thesis
      unfolding if_P [OF True]
    proof (rule wp_deref_mut [where op = "\<lambda>p. leaf_insert E p (ValidatedRow r)" and p = p1, OF trk_swap [OF s'] _ op(1)])
      show "wp h (Some (Ok (), s'')) R Y"
        if "trk h n (u(b \<mapsto> p2)) (add_mset (wguard b gb) (add_mset (wguard x gx) (wguards hs))) s''" for s''
        unfolding wp_simps by (rule R, subst eq [symmetric]) (rule trk_swap [OF that])
    qed (use sI(9,11) st u in auto)
  next
    case False
    then have op: "leaf_insert E q1 (ValidatedRow r) = (Ok (), q2)" "p2 = p1" using sI(8) by simp_all
    have eq: "u(x \<mapsto> q2) = ?v u" using ne op(2) u(1) by (simp add: fun_eq_iff)
    show ?thesis
      unfolding if_not_P [OF False]
    proof (rule wp_deref_mut [where op = "\<lambda>p. leaf_insert E p (ValidatedRow r)" and p = q1, OF s' _ op(1)])
      show "wp h (Some (Ok (), s'')) R Y" if "trk h n (u(x \<mapsto> q2)) ?H s''" for s''
        unfolding wp_simps by (rule R, subst eq [symmetric]) (rule that)
    qed (use sI(10,12) u in auto)
  qed
  let ?v2 = "v(b \<mapsto> p1, x \<mapsto> q1)"
  have "distinct (pids (plug cs (Tip b rs)))" using d by (simp add: distinct_plug)
  then have dl: "distinct (left_leaves cs @ b # right_leaves cs)"
    using leaf_ids_distinct [of "plug cs (Tip b rs)"] by (simp add: leaf_ids_plug)
  have nx: "nx = (case right_leaves cs of [] \<Rightarrow> None | j # _ \<Rightarrow> Some j)"
    using links_at [OF li] p by auto
  have right: "j \<in> set (right_leaves cs)" if "nx = Some j" for j
    using that by (cases "right_leaves cs") (simp_all add: nx)
  have nxt: "nx \<noteq> Some b" "nx \<noteq> Some x" "\<And>j. nx = Some j \<Longrightarrow> j \<in> set (right_leaves cs)"
    using right dl x(1) path_leaf_subset [of cs] by auto
  have fin: "wp h (Some (sbind (peek_write (PageWriteGuard gb) (\<lambda>p. Ok (pg_id p))) (\<lambda>left_id.
      sbind (slift (map_err BTreePage (primary_key (ValidatedRow r)))) (\<lambda>key.
      sbind (lift_err BTreePage
        (write_deref_mut (if key \<le> c then (PageWriteGuard gb) else (PageWriteGuard gx)) (\<lambda>p. leaf_insert E p (ValidatedRow r)))) (\<lambda>_.
        sreturn (left_id, c, x)))) s')) Q X"
    if s': "trk h n u ?H s'" and same: "\<And>j. nx \<noteq> Some j \<Longrightarrow> u j = ?v2 j" and dom: "dom u = dom v"
      and nn: "\<And>j. nx = Some j \<Longrightarrow> \<exists>q q' rn n'. v j = Some q \<and> body q = Leaf rn n' (Some b) \<and> u j = Some q' \<and>
        body q' = Leaf rn n' (Some x)" for u s'
  proof -
    have u: "u b = Some p1" "u x = Some q1" using same nxt(1,2) ne by simp_all
    have v: "?v u b = Some p2" "?v u x = Some q2" using ne by simp_all
    have q2: "body q2 = Leaf rs2 nx (Some b)" using sI(14) st by simp
    have near: "\<exists>q q' rn n'. v j = Some q \<and> body q = Leaf rn n' (Some b) \<and> ?v u j = Some q' \<and> body q' = Leaf rn n' (Some x)"
      if j: "nx = Some j" for j
    proof -
      have "?v u j = u j" using j nxt(1,2) by auto
      then show ?thesis using nn [OF j] by simp
    qed
    have far: "?v u j = v j" if "j \<in> set (path_ids cs)" "nx \<noteq> Some j" for j
    proof -
      have "j \<noteq> b" "j \<noteq> x" using that(1) d x(1) by auto
      then show ?thesis using same [OF that(2)] by simp
    qed
    note two = twin_leaf [OF pl li d x(1) p wi sI(15-21) v(1) sI(13) v(2) q2 near far]
    have "Q (b, c, x) s''" if "trk h n (?v u) ?H s''" for s''
    proof (rule Q [OF that two])
      show "?v u j = v j" if "j \<notin> insert x (insert b (set (left_leaves cs) \<union> set (right_leaves cs)))" for j
      proof -
        have "j \<noteq> x" "j \<noteq> b" "nx \<noteq> Some j" using that nxt(3) [of j] by auto
        then show ?thesis using same [of j] by simp
      qed
      show "dom (?v u) = dom v" using dom p(1) x(2) by auto
    qed
    then show ?thesis
      unfolding wp_simps
      by (intro wp_peek_write [OF trk_swap [OF s'] u(1)]) (simp only: wp_simps key map_err.simps sI(4) st, intro insert [OF s' u], simp)
  qed
  show ?thesis
    unfolding wp_simps
    apply (rule wp_peek_write [OF tr x(2)])
    apply (simp only: wp_simps trk_storable(2) [OF tr x(2)])
    apply (rule wp_deref_mut [where op = "\<lambda>p. split_page E p x", OF trk_swap [OF tr] p(1) sI(1)])
    subgoal using sI(2,4) st by simp
    subgoal for s1
      apply (simp only: wp_simps prod.case)
      apply (rule wp_overwrite [where pid = x and v = "v(b \<mapsto> p1)" and p = x0])
          apply (erule trk_swap)
      subgoal using ne x by simp
      subgoal by (rule sI(3))
      subgoal by (rule sI(5))
      subgoal for s2
        apply (rule wp_peek_write [where pid = x and p = q1 and v = ?v2], assumption, simp)
        apply (simp only: wp_simps sI(7) page_next.simps)
        apply (rule wp_peek_write [where pid = x and p = q1 and v = ?v2], assumption, simp)
        apply (simp only: wp_simps sI(5))
        apply (cases nx; simp only: option.case wp_simps)
        subgoal by (rule fin [of ?v2, unfolded wp_simps]) (use x p in auto)
        subgoal for j
        proof -
          assume s2: "trk h n ?v2 ?H s2" and j: "nx = Some j"
          obtain rest where rl: "right_leaves cs = j # rest" using j by (cases "right_leaves cs") (simp_all add: nx)
          obtain q rn n' where q: "v j = Some q" "body q = Leaf rn n' (Some b)"
            using links_at [of v None "left_leaves cs @ [b]" j rest None] li by (auto simp: rl)
          have jne: "j \<noteq> b" "j \<noteq> x" using nxt(1,2) j by auto
          have "fst ` set cs \<inter> set (right_leaves cs) = {}" using path_tops_leaves [of cs] d by auto
          then have "j \<notin> fst ` set hs" using nxt(3) [OF j] hs by blast
          then have jH: "j \<notin> held ?H" using jne by (simp only: set_mset_add_mset_insert image_insert fst_conv held_wguards insert_iff simp_thms)
          have jv: "?v2 j = Some q" using q(1) jne by simp
          show ?thesis
            apply (rule wp_fetch_write [OF E s2 jv jH])
            subgoal using size by auto
            subgoal for g s3
              apply (rule wp_relink [unfolded wp_simps, where v = ?v2], assumption, rule jv, rule q(2))
              subgoal for q' s4
                by (rule fin [of "?v2(j \<mapsto> q')", unfolded wp_simps]) (use x p q j jne in auto)
              done
            subgoal using X by simp
            done
        qed
        done
      done
    subgoal by simp
    done
qed

lemma place_agree:
  assumes "place E v n cs t" and "\<And>j. j \<in> set (pids t) \<union> set (path_ids cs) \<Longrightarrow> v' j = v j"
  shows "place E v' n cs t"
  using assms by (auto simp: place_def intro: rep_agree rep_path_agree)

lemma wp_split_and_insert:
  assumes E: "varint_ok E" and tb: "\<And>i. get_table_id i = get_table_id (meta_id tbl) \<Longrightarrow> i \<in> ids"
    and d: "descent E v t (the_key r) m 0 cs1 cs2 (Tip b rs) hs"
    and tr: "trk h n v (add_mset (wguard b gb) (wguards hs)) s" and ti: "tree_in E v m t"
    and sp: "space tbl v (tid t) cnt fl (set (pids t))" and p: "v b = Some p" "body p = Leaf rs nx pv"
    and r: "row_fits E r" "row_wf r" "the_key r \<notin> set (row_keys rs)" and full: "\<not> can_insert E p r"
    and top: "cs2 = [] \<or> cs1 \<noteq> [] \<and> (\<exists>p. v (fst (last cs1)) = Some p \<and> is_split_safe E p)"
    and size: "h \<longrightarrow> m + 5 \<le> n" and cnt: "unat cnt + m + 2 < 2 ^ 32" and S: "insert (the_key r) (tree_keys t) \<subseteq> S"
    and Q: "\<And>s'. table_post h n tbl S ((rows_map (rows t))(the_key r \<mapsto> r)) (unat cnt + m + 2) s' \<Longrightarrow> Q () s'"
    and X: "\<And>e s'. \<not> h \<Longrightarrow> X e s'"
  shows "wp h (split_and_insert E D V tbl (PageWriteGuard gb) (ValidatedRow r) (guards hs) s) Q X"
proof -
  let ?cs = "cs1 @ cs2" and ?M = "(rows_map (rows t))(the_key r \<mapsto> r)" and ?B = "unat cnt + m + 2"
  have t: "t = plug ?cs (Tip b rs)" and pl: "place E v 0 ?cs (Tip b rs)" and hs: "map fst hs = map fst cs1"
    and wi: "within (hole_low ?cs) (hole_high ?cs) (the_key r)" and len: "length ?cs = m"
    using d by (simp_all add: descent_def)
  have dis: "distinct (pids t)" and lt: "links v None (leaf_ids t) None" using ti by (simp_all add: tree_in_def)
  have db: "distinct (b # path_ids ?cs)" using dis by (simp add: t distinct_plug)
  have li: "links v None (left_leaves ?cs @ b # right_leaves ?cs) None" using lt by (simp add: t leaf_ids_plug)
  have U: "set (pids t) = insert b (set (path_ids ?cs))" by (simp add: t set_ids_plug)
  note held = descent_held [OF d dis]
  have bU: "b \<in> set (pids t)" by (simp add: U)
  have "cnt \<noteq> - 1" using cnt by (intro below_max) simp
  have hst: "fst ` set hs = fst ` set cs1" using hs by (metis list.set_map)
  have tops: "fst ` set hs \<subseteq> fst ` set ?cs" by (auto simp: hst)
  have hl: "length hs \<le> m" using held(3) by simp
  show ?thesis
    unfolding split_and_insert_def wp_simps
  proof (rule wp_allocate [OF E tr sp _ _ \<open>cnt \<noteq> - 1\<close> tb], goal_cases)
    case 1
    show ?case using held(2) bU
      by (simp only: set_mset_add_mset_insert image_insert fst_conv held_wguards insert_subset simp_thms)
  next
    case 2
    then show ?case using size hl by auto
  next
    case (4 v1 cnt1 fl1 x gx s1)
    have x: "x \<notin> insert b (set (path_ids ?cs))" using 4(3) unfolding U .
    have pl1: "place E v1 0 ?cs (Tip b rs)"
      by (rule place_agree [OF pl], rule 4(5)) (simp only: U, simp)
    have li1: "links v1 None (left_leaves ?cs @ b # right_leaves ?cs) None"
      by (rule links_agree [OF li], rule 4(5)) (use path_leaf_subset [of ?cs] in \<open>auto simp: U\<close>)
    have p1: "v1 b = Some p" using 4(5) [OF bU] p(1) by simp
    show ?case
    proof (rule wp_split_leaf [OF E 4(1) pl1 li1 db x 4(4) tops p1 p(2) wi r full, unfolded wp_simps], goal_cases)
      case 1
      then show ?case using size hl by auto
    next
      case (2 v' rs1 c rs2 s2)
      have same: "v' j = v j" if "j \<in> fst ` set ?cs" for j
      proof -
        have "fst ` set ?cs \<inter> (set (left_leaves ?cs) \<union> set (right_leaves ?cs)) = {}"
          by (rule path_tops_leaves) (use db in simp)
        moreover have "j \<in> set (path_ids ?cs)" using that path_tops by blast
        ultimately have "j \<notin> insert x (insert b (set (left_leaves ?cs) \<union> set (right_leaves ?cs)))" and "j \<in> set (pids t)"
          using that x db by (auto simp: U)
        then show ?thesis using 2(6) 4(5) by metis
      qed
      have "top_id (Tip b rs1) ?cs = tid t" unfolding t top_id_plug by (simp add: top_id_def)
      moreover have "space tbl v' (tid t) cnt1 fl1 (insert x (set (pids t)))"
      proof (rule space_use [OF 4(2) _ 2(7)])
        fix i assume "i \<notin> insert x (set (pids t))"
        then have "i \<notin> insert x (insert b (set (left_leaves ?cs) \<union> set (right_leaves ?cs)))"
          using path_leaf_subset [of ?cs] by (auto simp: U)
        then show "v' i = v1 i" by (rule 2(6))
      qed
      moreover have "cs2 = [] \<or> cs1 \<noteq> [] \<and> (\<exists>p. v' (fst (last cs1)) = Some p \<and> is_split_safe E p)"
        using top same [of "fst (last cs1)"] by (cases "cs1 = []") auto
      moreover have "twin_keys ?cs (Tip b rs1) c (Tip x rs2) \<subseteq> S"
        by (rule subset_trans [OF 2(5)]) (use S in \<open>simp add: t\<close>)
      ultimately have at: "at_split h n tbl S {#wguard x gx, wguard b gb#} ?M ?B (length hs) (b, c, x, guards hs) s2"
        unfolding at_split_def using 2(1-4) hs 4(6) hl bU
        by (intro exI [of _ v'] exI [of _ 0] exI [of _ cs1] exI [of _ cs2] exI [of _ hs] exI [of _ "Tip b rs1"]
            exI [of _ c] exI [of _ "Tip x rs2"] exI [of _ cnt1] exI [of _ fl1]) (simp add: t)
      show ?case
        unfolding prod.case wp_simps
      proof (rule wp_split_loop [OF E tb at], goal_cases)
        case 2
        then show ?case using size hl by auto
      next
        case 3
        then show ?case by (rule cnt)
      next
        case (4 rest s3)
        then obtain v3 t3 m3 cnt3 fl3 hs3 where f: "rest = guards hs3" "trk h n v3 ({#wguard x gx, wguard b gb#} + wguards hs3) s3"
          "tree_in E v3 m3 t3" "space tbl v3 (tid t3) cnt3 fl3 (set (pids t3))" "rows_map (rows t3) = ?M" "unat cnt3 \<le> ?B"
          "tree_keys t3 \<subseteq> S"
          unfolding split_post_def by blast
        have tr3: "trk h n v3 (wguards hs3 + {#wguard x gx, wguard b gb#}) s3" using f(2) by (simp add: union_commute)
        have "table_post h n tbl S ?M ?B s'" if "trk h n v3 {#} s'" for s'
          unfolding table_post_def using that f(3-7) by blast
        then show ?case
          unfolding f(1)
          apply (intro wp_drop_all [OF tr3])
          apply (rule wp_drop_write [where pid = x], assumption)
          apply (rule wp_drop_write [where pid = b], assumption)
          using Q by blast
      qed (use X in \<open>auto intro!: wp_trivial\<close>)
    next
      case (3 e s')
      then show ?case using X by (auto intro!: wp_trivial)
    qed
  qed (use X in \<open>auto intro!: wp_trivial\<close>)
qed

section \<open>Insertion\<close>

lemma not_insert_internal: "is_internal p \<Longrightarrow> \<not> can_insert E p r"
  by (cases "body p") (simp_all add: can_insert_def kind_defs)

lemma rep_path_tops: "rep_path v i cs \<Longrightarrow> c \<in> set cs \<Longrightarrow> \<exists>p. v (fst c) = Some p \<and> is_internal p"
  by (induction cs arbitrary: i) (auto simp: kind_defs)

lemma wp_insert_leaf:
  assumes d: "descent E v t (the_key r) m 0 cs1 cs2 (Tip b rs) hs"
    and tr: "trk h n v (add_mset (wguard b gb) (wguards hs)) s" and ti: "tree_in E v m t"
    and sp: "space tbl v (tid t) cnt fl (set (pids t))" and p: "v b = Some p" "body p = Leaf rs nx pv"
    and r: "row_fits E r" "row_wf r" and room: "can_insert E p r" and B: "unat cnt \<le> B"
    and S: "insert (the_key r) (tree_keys t) \<subseteq> S"
    and Q: "\<And>s'. table_post h n tbl S ((rows_map (rows t))(the_key r \<mapsto> r)) B s' \<Longrightarrow>
      the_key r \<notin> dom (rows_map (rows t)) \<Longrightarrow> Q () s'"
    and X: "\<And>s'. the_key r \<in> dom (rows_map (rows t)) \<Longrightarrow> trk h n v {#} s' \<Longrightarrow> X (BTreePage DuplicateKey) s'"
  shows "wp h (Some (then_drop (then_drop
     (lift_err BTreePage (write_deref_mut (PageWriteGuard gb) (\<lambda>p. leaf_insert E p (ValidatedRow r))))
     (drop_all E (rev (guards hs)))) (drop_write E (PageWriteGuard gb)) s)) Q X"
proof -
  let ?cs = "cs1 @ cs2"
  have t: "t = plug ?cs (Tip b rs)" and pl: "place E v 0 ?cs (Tip b rs)" and len: "length ?cs = m"
    and wi: "within (hole_low ?cs) (hole_high ?cs) (the_key r)"
    using d by (simp_all add: descent_def)
  note st = trk_storable [OF tr p(1)]
  have look: "rows_map (rows t) (the_key r) = rows_map rs (the_key r)"
    using place_lookup [OF pl wi] by (simp add: t)
  have drops: "wp h (Some (drop_all E (rev (guards hs)) s'))
      (\<lambda>x s'. wp h (Some (drop_write E (PageWriteGuard gb) s')) (\<lambda>_. R) (\<lambda>_. R))
      (\<lambda>x s'. wp h (Some (drop_write E (PageWriteGuard gb) s')) (\<lambda>_. R) (\<lambda>_. R))"
    if "trk h n u (add_mset (wguard b gb) (wguards hs)) s'" "\<And>s'. trk h n u {#} s' \<Longrightarrow> R s'" for u s' R
  proof (rule wp_drop_all)
    show "trk h n u (wguards hs + {#wguard b gb#}) s'" using that(1) by simp
  qed (rule wp_drop_write, assumption, rule that(2))
  show ?thesis
  proof (cases "the_key r \<in> set (row_keys rs)")
    case True
    then have op: "leaf_insert E p (ValidatedRow r) = (Err DuplicateKey, p)"
      using leaf_insert_eq [OF p(2) storable_inv [OF st(1)] r(1)] by simp
    have vp: "v(b \<mapsto> p) = v" using p(1) by auto
    have "the_key r \<in> dom (rows_map (rows t))"
      using True dom_rows_map [of rs] look by (auto simp: domIff)
    then show ?thesis
      unfolding wp_simps
      apply (intro wp_deref_mut [where op = "\<lambda>p. leaf_insert E p (ValidatedRow r)", OF tr p(1) op])
      subgoal using st by simp
      subgoal unfolding vp wp_simps by (rule drops, assumption, rule X)
      subgoal by simp
      done
  next
    case False
    obtain p' rs' where i: "leaf_insert E p (ValidatedRow r) = (Ok (), p')" "body p' = Leaf rs' nx pv" "added E r rs rs'"
        "storable E p'" "pg_id p' = pg_id p"
      using insert_row [OF p(2) st(1) r False room] by blast
    let ?t = "plug ?cs (Tip b rs')"
    have old: "\<forall>y \<in> set rs. within (hole_low ?cs) (hole_high ?cs) (the_key y)" using pl by (auto simp: place_def)
    have "tree_in E (v(b \<mapsto> p')) m ?t"
      by (rule tree_rows [OF ti [unfolded t] pl len p i(2)]) (use i(3) old wi in \<open>auto simp: added_def\<close>)
    moreover have "rows_map (rows ?t) = (rows_map (rows t))(the_key r \<mapsto> r)"
      using rows_map_grow [of E 0 ?cs r rs' rs] pl wi i(3) by (simp add: t rows_plug place_def added_def)
    moreover have ids: "set (pids ?t) = set (pids t)" "tid ?t = tid t" by (simp_all add: t set_ids_plug top_id_plug top_id_def)
    moreover have "space tbl (v(b \<mapsto> p')) (tid t) cnt fl (set (pids t))"
      by (rule space_use [OF sp]) (use p(1) in \<open>auto simp: t set_ids_plug\<close>)
    moreover have "tree_keys ?t \<subseteq> S" using i(3) S by (auto simp: t tree_keys_plug added_def)
    ultimately have fin: "table_post h n tbl S ((rows_map (rows t))(the_key r \<mapsto> r)) B s'" if "trk h n (v(b \<mapsto> p')) {#} s'" for s'
      unfolding table_post_def using that B
      by (intro exI [of _ "v(b \<mapsto> p')"] exI [of _ ?t] exI [of _ m] exI [of _ cnt] exI [of _ fl]) simp
    have "the_key r \<notin> dom (rows_map (rows t))" using False look by (simp add: domIff rows_map_None_iff)
    then show ?thesis
      unfolding wp_simps
      apply (intro wp_deref_mut [where op = "\<lambda>p. leaf_insert E p (ValidatedRow r)", OF tr p(1) i(1)])
      subgoal using i st by simp
      subgoal unfolding wp_simps by (rule drops, assumption, rule Q, rule fin)
      subgoal by simp
      done
  qed
qed

lemma wp_btree_insert:
  assumes E: "varint_ok E" and tb: "\<And>i. get_table_id i = get_table_id (meta_id tbl) \<Longrightarrow> i \<in> ids"
    and tr: "trk h n v {#} s" and ti: "tree_in E v m t" and sp: "space tbl v (tid t) cnt fl (set (pids t))"
    and r: "row_fits E r" "row_wf r" and size: "h \<longrightarrow> m + 5 \<le> n" and cnt: "unat cnt + m + 2 < 2 ^ 32"
    and S: "insert (the_key r) (tree_keys t) \<subseteq> S"
    and Q: "\<And>s'. table_post h n tbl S ((rows_map (rows t))(the_key r \<mapsto> r)) (unat cnt + m + 2) s' \<Longrightarrow>
      the_key r \<notin> dom (rows_map (rows t)) \<Longrightarrow> Q () s'"
    and dup: "\<And>s'. the_key r \<in> dom (rows_map (rows t)) \<Longrightarrow> trk h n v {#} s' \<Longrightarrow> X (BTreePage DuplicateKey) s'"
    and X: "\<And>e s'. \<not> h \<Longrightarrow> X e s'"
  shows "wp h (btree_insert E D V tbl (ValidatedRow r) s) Q X"
proof -
  have key: "primary_key (ValidatedRow r) = (Ok (the_key r) :: (key, btree_error) result)"
    using row_fits_key [OF r(1)] by (simp add: primary_key_row_key)
  have dis: "distinct (pids t)" using ti by (simp add: tree_in_def)
  have room2: "h \<longrightarrow> 2 < n" "h \<longrightarrow> m + 4 \<le> n" using size by auto
  have step: "wp h (Some (insert_step E D V r (the_key r) x s'))
    (\<lambda>y s'. case y of Inl x' \<Rightarrow> (\<exists>k' < k. at_insert h n v t r m k' x' s') | Inr x' \<Rightarrow> at_insert h n v t r m 0 x' s') X"
    if "at_insert h n v t r m k x s'" for k x s'
    using wp_insert_step [OF E that dis room2(2) X] by simp
  let ?tail = "\<lambda>g anc p. if can_insert E p r then
         pcall (then_drop (then_drop
           (lift_err BTreePage (write_deref_mut g (\<lambda>p. leaf_insert E p (ValidatedRow r))))
           (drop_all E (rev anc))) (drop_write E g))
       else
         pbind (pcall (else_drop (else_drop
           (sbind (slift (map_err BTreePage (leaf_get p (the_key r)))) (\<lambda>found.
             if found \<noteq> None then sfail (BTreePage DuplicateKey) else sreturn ()))
           (drop_all E (rev anc))) (drop_write E g))) (\<lambda>_.
           split_and_insert E D V tbl g (ValidatedRow r) anc)"
  have leaf: "wp h (Some (peek_write g Ok s')) (\<lambda>p s'. wp h (?tail g anc p s') Q X) X"
    if at: "at_insert h n v t r m 0 (g, anc) s'" for g anc s'
  proof -
    obtain i hs cs1 cs2 t' where x: "g = PageWriteGuard i" "anc = guards hs"
        and d: "descent E v t (the_key r) m 0 cs1 cs2 t' hs"
        and tr: "trk h n v (add_mset (wguard (tid t') i) (wguards hs)) s'" and top: "cs2 = [] \<or> roomy E v r (top_id t' cs1)"
      using at by (auto simp: at_insert_def)
    have pl: "place E v 0 (cs1 @ cs2) t'" and t: "t = plug (cs1 @ cs2) t'"
      and wi: "within (hole_low (cs1 @ cs2)) (hole_high (cs1 @ cs2)) (the_key r)"
      using d by (simp_all add: descent_def)
    obtain b rs p nx pv where t': "t' = Tip b rs" and p: "v b = Some p" "body p = Leaf rs nx pv" "rows_ok E rs"
      using place_leaf [OF pl] by (metis tid.simps(1))
    note tr = tr [unfolded t' tid.simps] and d = d [unfolded t']
    have look: "rows_map (rows t) (the_key r) = rows_map rs (the_key r)"
      using place_lookup [OF pl wi] by (simp add: t t')
    have "wp h (?tail (PageWriteGuard i) (guards hs) p s') Q X"
    proof (cases "can_insert E p r")
      case True
      then show ?thesis
        unfolding if_P [OF True] wp_pcall
        by (intro wp_insert_leaf [where B = "unat cnt + m + 2", OF d tr ti sp p(1,2) r True]) (use S in \<open>auto intro: Q dup\<close>)
    next
      case False
      note get = leaf_get_eq [OF p(2,3)]
      have drops: "wp h (Some (drop_all E (rev (guards hs)) s'))
          (\<lambda>x s'. wp h (Some (drop_write E (PageWriteGuard i) s')) (\<lambda>_. R) (\<lambda>_. R))
          (\<lambda>x s'. wp h (Some (drop_write E (PageWriteGuard i) s')) (\<lambda>_. R) (\<lambda>_. R))"
        if "\<And>s'. trk h n v {#} s' \<Longrightarrow> R s'" for R
      proof (rule wp_drop_all)
        show "trk h n v (wguards hs + {#wguard b i#}) s'" using tr by simp
      qed (rule wp_drop_write, assumption, rule that)
      show ?thesis
      proof (cases "rows_map rs (the_key r)")
        case None
        then have new: "the_key r \<notin> set (row_keys rs)" "the_key r \<notin> dom (rows_map (rows t))"
          using look by (simp_all add: rows_map_None_iff domIff)
        have top': "cs2 = [] \<or> cs1 \<noteq> [] \<and> (\<exists>p. v (fst (last cs1)) = Some p \<and> is_split_safe E p)"
        proof (cases "cs1 = []")
          case True
          then show ?thesis using top p False by (auto simp: roomy_def top_id_def t' is_split_safe_def kind_defs)
        next
          case ne: False
          then have "last cs1 \<in> set (cs1 @ cs2)" by simp
          moreover have "rep_path v (tid t') (cs1 @ cs2)" using pl by (simp add: place_def)
          ultimately obtain q where "v (fst (last cs1)) = Some q" "is_internal q" using rep_path_tops by blast
          then show ?thesis using top ne not_insert_internal [of q r] by (auto simp: roomy_def top_id_def)
        qed
        show ?thesis
          unfolding if_not_P [OF False] wp_simps get map_err.simps None
          apply (simp add: wp_simps)
          apply (rule wp_split_and_insert [OF E tb d tr ti sp p(1,2) r new(1) False top' size cnt S], assumption)
           apply (rule Q [OF _ new(2)], assumption)
          by (rule X)
      next
        case (Some r')
        then have "the_key r \<in> dom (rows_map (rows t))" using look by (simp add: domIff)
        then show ?thesis
          using False Some drops [of "X (BTreePage DuplicateKey)"] dup
          by (simp add: wp_simps get)
      qed
    qed
    then show ?thesis unfolding x by (intro wp_peek_write [OF tr p(1)]) (simp only: wp_simps)
  qed
  show ?thesis
    unfolding btree_insert_def wp_simps
  proof (rule wp_get_root_write [OF E tr sp tid_in_ids room2(1)], goal_cases)
    case (1 i s1)
    have start: "at_insert h n v t r m m (PageWriteGuard i, []) s1"
      unfolding at_insert_def using 1 descent_root [OF ti]
      by (intro exI [of _ i] exI [of _ "[]"] exI [of _ "[]"] exI [of _ "[]"] exI [of _ t]) simp
    show ?case
      apply (simp only: wp_simps key validated_row_as_ref.simps)
      apply (rule wp_loop [where I = "at_insert h n v t r m" and k = m, OF start])
      apply (rule wp_mono [OF step], assumption)
      subgoal for k x s2 y s3
        using leaf by (cases y; cases "projr y") (auto simp: wp_simps)
      subgoal by simp
      done
  qed (rule X)
qed

end

end
