(* ===== verification/Table_Correct.thy ===== *)
theory Table_Correct
  imports Table BTree_Insert
begin

text \<open>The check of the accounting of pages, creation, and the calls a table forwards to its tree.\<close>

section \<open>The accounting\<close>

text \<open>The pages of a table are its meta page, its tree and its free list, and nothing is counted twice.\<close>

lemma space_count:
  assumes "space tbl v root cnt fl U" and "finite U"
  shows "unat cnt = card U + card (set fl) + 1"
proof -
  obtain dom: "dom v = {PageId (get_table_id (meta_id tbl)) k | k. k < cnt}"
    and dom': "dom v = insert (meta_id tbl) (U \<union> set fl)" and m: "meta_id tbl \<notin> U \<union> set fl" and dis: "U \<inter> set fl = {}"
    using assms(1) by (auto elim: spaceE)
  have "inj_on (PageId (get_table_id (meta_id tbl))) {k. k < cnt}" by (auto intro: inj_onI)
  then have "card (PageId (get_table_id (meta_id tbl)) ` {k. k < cnt}) = card {k. k < cnt}" by (rule card_image)
  moreover have "PageId (get_table_id (meta_id tbl)) ` {k. k < cnt} = dom v" unfolding dom by auto
  moreover have "card {k. k < cnt} = unat cnt"
  proof -
    have "unat ` {k. k < cnt} = {..<unat cnt}"
    proof
      show "{..<unat cnt} \<subseteq> unat ` {k. k < cnt}"
      proof
        fix j assume j: "j \<in> {..<unat cnt}"
        then have "j < 2 ^ 32" using unsigned_less [of cnt, where ?'a = nat] by simp
        then have "unat (of_nat j :: 32 word) = j" by (simp add: unat_of_nat take_bit_nat_eq_self)
        then show "j \<in> unat ` {k. k < cnt}"
          using j by (intro image_eqI [of _ _ "of_nat j"]) (simp_all add: word_less_nat_alt)
      qed
    qed (auto simp: word_less_nat_alt)
    moreover have "inj_on unat {k. k < cnt}" by (auto intro: inj_onI simp: word_unat_eq_iff)
    ultimately show ?thesis by (metis card_image card_lessThan)
  qed
  moreover have "card (dom v) = card U + card (set fl) + 1"
    unfolding dom' using assms(2) m dis by (simp add: card_Un_disjoint)
  ultimately show ?thesis by simp
qed

text \<open>The pages of a new table.\<close>

lemma new_table_tree:
  assumes "meta_id tbl = PageId T 0" and "root = PageId T 1"
  defines "v \<equiv> (\<lambda>_. None)(root \<mapsto> empty_leaf root,
    PageId T 0 \<mapsto> empty_page (PageId T 0) (Meta root 2 None (tbl_schema tbl) (tbl_name tbl)))"
  shows "tree_in E v 0 (Tip root [])" and "space tbl v root 2 [] {root}"
proof -
  show "tree_in E v 0 (Tip root [])"
    using assms(2) by (auto simp: tree_in_def v_def empty_leaf_def empty_page_def rows_ok_def)
  have less_2: "k < 2 \<longleftrightarrow> k = 0 \<or> k = 1" for k :: "32 word"
  proof -
    have "k < 2 \<longleftrightarrow> unat k = 0 \<or> unat k = 1" by (simp add: word_less_nat_alt less_2_cases_iff)
    then show ?thesis by (simp add: word_unat_eq_iff)
  qed
  show "space tbl v root 2 [] {root}"
  proof (rule spaceI)
    show "dom v = {PageId (get_table_id (meta_id tbl)) k |k. k < 2}"
      unfolding less_2 by (auto simp: v_def assms(1,2))
  qed (auto simp: v_def assms(1,2) empty_page_def)
qed

abbreviation forest_ids :: "btree list \<Rightarrow> page_id list" where
  "forest_ids ts \<equiv> concat (map pids ts)"

lemma forest_tids: "map tid (map snd xs) = tids xs"
  by simp

section \<open>What reading a table keeps\<close>

lemma keep_peek [kept_intros]: "kept P (peek_read g op)"
  by (simp add: kept_def peek_read.simps)

lemma keep_meta:
  assumes "reads_keep E D V P"
  shows "kept P (read_meta E D V tbl getter)" and "kept P (root_id E D V tbl)"
  using assms unfolding root_id_def read_meta_def reads_keep_def by (auto intro!: kept_intros)

lemma keep_get_all:
  assumes "reads_keep E D V P"
  shows "pkept P (btree_get_all E D V tbl f)"
proof -
  have calls: "kept P (fetch_read E D V pid)" "kept P (drop_read E g)" for pid g
    using assms by (simp_all add: reads_keep_def)
  have root: "pkept P (get_root_read E D V tbl)"
    unfolding get_root_read_def by (intro kept_intros keep_meta [OF assms] calls) (auto intro!: kept_intros calls)
  have descend: "kept P (range_step E D V b g)" for b g
    unfolding range_step_def by (auto intro!: kept_intros calls)
  have scan: "kept P (leaves_step E D V a b f x)" for a b x
    unfolding leaves_step_def by (auto split: prod.split option.split intro!: kept_intros calls)
  show ?thesis unfolding btree_get_all_def get_range_def by (intro kept_intros root descend scan)
qed

lemma keep_check:
  assumes "reads_keep E D V P"
  shows "pkept P (check_space_accounting E D V tbl)"
proof -
  have calls: "kept P (fetch_read E D V pid)" "kept P (drop_read E g)" for pid g
    using assms by (simp_all add: reads_keep_def)
  have walk: "kept P (tree_walk_step E D V x)" for x
    unfolding tree_walk_step_def by (auto split: prod.split list.split intro!: kept_intros calls)
  have free: "kept P (free_walk_step E D V x)" for x
    unfolding free_walk_step_def by (auto split: prod.split option.split intro!: kept_intros calls)
  show ?thesis
    unfolding check_space_accounting_def by (intro kept_intros keep_meta [OF assms] walk free) (auto intro!: kept_intros)
qed

context buffer_pool begin

text \<open>The walk through the tree: the stack holds the roots of trees not yet seen.\<close>

definition at_tree_walk ::
  "bool \<Rightarrow> nat \<Rightarrow> pages \<Rightarrow> page_id set \<Rightarrow> nat \<Rightarrow> page_id list \<times> page_id set \<Rightarrow> ('d, 'e) bpm \<Rightarrow> bool" where
  "at_tree_walk h n v U k x s \<longleftrightarrow>
     (\<exists>ts S. x = (map tid ts, S) \<and> trk h n v {#} s \<and> (\<forall>t \<in> set ts. rep v t) \<and> distinct (forest_ids ts) \<and>
       S \<inter> set (forest_ids ts) = {} \<and> S \<union> set (forest_ids ts) = U \<and> k = length (forest_ids ts))"

lemma wp_tree_walk_step:
  assumes E: "varint_ok E" and at: "at_tree_walk h n v U k x s" and room: "h \<longrightarrow> 0 < n"
  shows "wp h (Some (tree_walk_step E D V x s))
    (\<lambda>r s'. case r of Inl x' \<Rightarrow> (\<exists>k' < k. at_tree_walk h n v U k' x' s') | Inr S \<Rightarrow> S = U \<and> trk h n v {#} s') X"
proof -
  obtain ts S where x: "x = (map tid ts, S)" and tr: "trk h n v {#} s" and rep: "\<forall>t \<in> set ts. rep v t"
    and dis: "distinct (forest_ids ts)" and apart: "S \<inter> set (forest_ids ts) = {}" and U: "S \<union> set (forest_ids ts) = U"
    and k: "k = length (forest_ids ts)"
    using at unfolding at_tree_walk_def by blast
  show ?thesis
  proof (cases ts)
    case Nil
    then show ?thesis using U tr by (simp add: tree_walk_step_def x wp_simps)
  next
    case (Cons t ts')
    have new: "tid t \<notin> S" using apart Cons tid_in_ids [of t] by auto
    have go: "\<exists>p. v (tid t) = Some p \<and> (\<forall>s'. trk h n v {#} s' \<longrightarrow>
        (\<exists>k' < k. at_tree_walk h n v U k'
          (case page_children (body p) of None \<Rightarrow> map tid ts' | Some cs \<Rightarrow> rev cs @ map tid ts', insert (tid t) S) s'))"
    proof (cases t)
      case (Tip i rs)
      then obtain p nx pv where p: "v i = Some p" "body p = Leaf rs nx pv" using rep Cons by auto
      have "at_tree_walk h n v U (length (forest_ids ts')) (map tid ts', insert (tid t) S) s'" if "trk h n v {#} s'" for s'
        unfolding at_tree_walk_def using that rep dis apart U Cons Tip
        by (intro exI [of _ ts'] exI [of _ "insert (tid t) S"]) auto
      then show ?thesis using p k Cons Tip by fastforce
    next
      case (Branch i xs)
      then obtain p where p: "v i = Some p" "body p = Internal (seps (map fst xs)) (tids xs)" "\<forall>x \<in> set xs. rep v (snd x)"
        using rep Cons by auto
      let ?ts = "rev (map snd xs) @ ts'"
      have ids: "mset (forest_ids ?ts) = mset (item_ids xs) + mset (forest_ids ts')"
        by (simp add: mset_concat rev_map [symmetric] comp_def)
      then have set: "set (forest_ids ?ts) = set (item_ids xs) \<union> set (forest_ids ts')"
        and len: "length (forest_ids ?ts) = length (item_ids xs) + length (forest_ids ts')"
        by (metis set_mset_mset set_mset_union, metis size_mset size_union)
      have "distinct (item_ids xs @ forest_ids ts')" using dis Cons Branch by auto
      then have "distinct (forest_ids ?ts)" using ids by (metis mset_append mset_eq_imp_distinct_iff)
      then have "at_tree_walk h n v U (length (forest_ids ?ts)) (map tid ?ts, insert (tid t) S) s'" if "trk h n v {#} s'" for s'
        unfolding at_tree_walk_def using that rep p(3) dis apart U Cons Branch set
        by (intro exI [of _ ?ts] exI [of _ "insert (tid t) S"]) (auto simp del: set_concat)
      moreover have "map tid ?ts = rev (tids xs) @ map tid ts'" by (simp add: rev_map comp_def)
      ultimately show ?thesis using p k Cons Branch len by (auto intro!: exI [of _ p])
    qed
    then obtain p where p: "v (tid t) = Some p"
      and next_at: "\<And>s'. trk h n v {#} s' \<Longrightarrow> \<exists>k' < k. at_tree_walk h n v U k'
          (case page_children (body p) of None \<Rightarrow> map tid ts' | Some cs \<Rightarrow> rev cs @ map tid ts', insert (tid t) S) s'"
      by blast
    show ?thesis
      unfolding tree_walk_step_def x Cons
      apply (simp add: new wp_simps)
      apply (rule wp_fetch_read [OF E tr p])
        apply simp
       apply (simp add: room)
      subgoal for i s1
        apply (rule wp_peek_read [where v = v and p = p], assumption, rule p)
        apply (simp add: wp_simps del: One_nat_def)
        apply (rule wp_drop_read, assumption)
        using next_at by blast
      apply simp
      done
  qed
qed

definition at_free_walk ::
  "bool \<Rightarrow> nat \<Rightarrow> pages \<Rightarrow> page_id list \<Rightarrow> nat \<Rightarrow> page_id option \<times> page_id set \<Rightarrow> ('d, 'e) bpm \<Rightarrow> bool" where
  "at_free_walk h n v fl k x s \<longleftrightarrow>
     (\<exists>cur seen rest. x = (cur, set seen) \<and> trk h n v {#} s \<and> free_chain v cur rest \<and> fl = seen @ rest \<and> k = length rest)"

lemma wp_free_walk_step:
  assumes E: "varint_ok E" and at: "at_free_walk h n v fl k x s" and dis: "distinct fl" and room: "h \<longrightarrow> 0 < n"
  shows "wp h (Some (free_walk_step E D V x s))
    (\<lambda>r s'. case r of Inl x' \<Rightarrow> (\<exists>k' < k. at_free_walk h n v fl k' x' s') | Inr S \<Rightarrow> S = set fl \<and> trk h n v {#} s') X"
proof -
  obtain cur seen rest where x: "x = (cur, set seen)" and tr: "trk h n v {#} s" and ch: "free_chain v cur rest"
    and fl: "fl = seen @ rest" and k: "k = length rest"
    using at unfolding at_free_walk_def by blast
  show ?thesis
  proof (cases rest)
    case Nil
    then show ?thesis using ch fl tr by (simp add: free_walk_step_def x wp_simps)
  next
    case (Cons y rest')
    then obtain p nxt where cur: "cur = Some y" and p: "v y = Some p" "body p = Free nxt" "free_chain v nxt rest'"
      using ch by (auto split: option.splits page_body.splits)
    have new: "y \<notin> set seen" using dis fl Cons by simp
    have nx: "free_next p = Ok nxt" by (simp add: free_next_def p(2))
    have "at_free_walk h n v fl (length rest') (nxt, insert y (set seen)) s'" if "trk h n v {#} s'" for s'
      unfolding at_free_walk_def using that p(3) fl Cons
      by (intro exI [of _ nxt] exI [of _ "seen @ [y]"] exI [of _ rest']) simp
    then have next_at: "\<exists>k' < k. at_free_walk h n v fl k' (nxt, insert y (set seen)) s'" if "trk h n v {#} s'" for s'
      using that k Cons by auto
    show ?thesis
      unfolding free_walk_step_def x cur
      apply (simp add: new wp_simps)
      apply (rule wp_fetch_read [OF E tr p(1)])
        apply simp
       apply (simp add: room)
      subgoal for i s1
        apply (rule wp_peek_read [where v = v and p = p], assumption, rule p(1))
        apply (simp add: nx wp_simps del: One_nat_def)
        apply (rule wp_drop_read, assumption)
        using next_at by blast
      apply simp
      done
  qed
qed

lemma wp_check_space:
  assumes E: "varint_ok E" and tr: "trk h n v {#} s" and ti: "tree_in E v m t"
    and sp: "space tbl v (tid t) cnt fl (set (pids t))" and room: "h \<longrightarrow> 0 < n"
    and Q: "\<And>s'. trk h n v {#} s' \<Longrightarrow> Q () s'"
  shows "wp h (check_space_accounting E D V tbl s) Q X"
proof -
  obtain mp flh where m: "v (meta_id tbl) = Some mp" "body mp = Meta (tid t) cnt flh (tbl_schema tbl) (tbl_name tbl)" "free_chain v flh fl"
    and ufl: "set (pids t) \<inter> set fl = {}"
    using sp by (rule spaceE)
  have cnt: "unat cnt = card (set (pids t)) + card (set fl) + 1" by (rule space_count [OF sp]) simp
  have walk: "wp h (loop (tree_walk_step E D V) ([tid t], {}) s') (\<lambda>S s2. Q' S s2) X"
    if "trk h n v {#} s'" and "\<And>s2. trk h n v {#} s2 \<Longrightarrow> Q' (set (pids t)) s2" for s' Q'
  proof (rule wp_loop [where I = "at_tree_walk h n v (set (pids t))" and k = "length (pids t)"])
    show "at_tree_walk h n v (set (pids t)) (length (pids t)) ([tid t], {}) s'"
      unfolding at_tree_walk_def using that(1) ti by (intro exI [of _ "[t]"]) (auto simp: tree_in_def)
    fix k x s1 assume "at_tree_walk h n v (set (pids t)) k x s1"
    from wp_tree_walk_step [OF E this room, of X]
    show "wp h (Some (tree_walk_step E D V x s1))
      (\<lambda>r s'. case r of Inl x' \<Rightarrow> (\<exists>k' < k. at_tree_walk h n v (set (pids t)) k' x' s') | Inr y \<Rightarrow> Q' y s') X"
      by (rule wp_mono) (use that(2) in \<open>auto split: sum.splits\<close>)
  qed
  have free: "wp h (loop (free_walk_step E D V) (flh, {}) s') (\<lambda>S s2. Q' S s2) X"
    if "trk h n v {#} s'" and "\<And>s2. trk h n v {#} s2 \<Longrightarrow> Q' (set fl) s2" for s' Q'
  proof (rule wp_loop [where I = "at_free_walk h n v fl" and k = "length fl"])
    show "at_free_walk h n v fl (length fl) (flh, {}) s'"
      unfolding at_free_walk_def using that(1) m(3) by (intro exI [of _ flh] exI [of _ "[]"] exI [of _ fl]) simp
    fix k x s1 assume "at_free_walk h n v fl k x s1"
    from wp_free_walk_step [OF E this free_chain_distinct [OF m(3)] room, of X]
    show "wp h (Some (free_walk_step E D V x s1))
      (\<lambda>r s'. case r of Inl x' \<Rightarrow> (\<exists>k' < k. at_free_walk h n v fl k' x' s') | Inr y \<Rightarrow> Q' y s') X"
      by (rule wp_mono) (use that(2) in \<open>auto split: sum.splits\<close>)
  qed
  show ?thesis
    unfolding check_space_accounting_def wp_simps
    apply (rule wp_read_meta [OF E tr m(1)])
        apply simp
       apply (simp add: room)
      apply (simp add: meta_get_page_count_def m(2))
     apply (rule wp_root_id [OF E _ sp], assumption, simp, simp add: room)
      apply (rule walk, assumption)
      apply (rule wp_read_meta [where v = v and m = mp, OF E], assumption, rule m(1), simp, simp add: room)
        apply (simp add: meta_get_free_list_head_def m(2))
       apply (rule free, assumption)
       apply (use ufl cnt Q in \<open>simp add: wp_simps\<close>)
    apply simp_all
    done
qed

section \<open>Opening\<close>

lemma wp_table_open:
  assumes E: "varint_ok E" and tr: "trk h n v {#} s" and sp: "space tbl v root cnt fl U" and room: "h \<longrightarrow> 0 < n"
    and Q: "\<And>s'. trk h n v {#} s' \<Longrightarrow> Q tbl s'" and X: "\<And>e s'. \<not> h \<Longrightarrow> trk h n v {#} s' \<Longrightarrow> X e s'"
  shows "wp h (Some (table_open E D V (get_table_id (meta_id tbl)) s)) Q X"
proof -
  obtain m flh where m: "v (meta_id tbl) = Some m" "body m = Meta root cnt flh (tbl_schema tbl) (tbl_name tbl)"
    and num: "get_page_num (meta_id tbl) = 0"
    using sp by (rule spaceE)
  have pid: "PageId (get_table_id (meta_id tbl)) 0 = meta_id tbl"
    using num by (cases "meta_id tbl") simp
  have pg: "pg_id m = meta_id tbl" by (rule trk_storable(2) [OF tr m(1)])
  have get: "meta_get_schema m = Ok (tbl_schema tbl)" "meta_get_table_name m = Ok (tbl_name tbl)"
    by (simp_all add: meta_get_schema_def meta_get_table_name_def m(2))
  have rec: "\<lparr>meta_id = meta_id tbl, tbl_schema = tbl_schema tbl, tbl_name = tbl_name tbl\<rparr> = tbl" by simp
  show ?thesis
    unfolding table_open_def wp_simps pid
  proof (rule wp_fetch_read [OF E tr m(1)], goal_cases)
    case (3 i s1)
    note peek = wp_peek_read [OF 3 m(1)]
    show ?case
      apply (rule peek)
      apply (simp only: wp_simps)
      apply (rule peek)
      apply (simp only: wp_simps get)
      apply (rule peek)
      apply (simp only: wp_simps get pg rec)
      apply (rule wp_drop_read [OF 3])
      by (rule Q)
  qed (use room X in auto)
qed

section \<open>Flushing and starting again\<close>

lemma wp_flush:
  assumes E: "varint_ok E" and tr: "trk h n v {#} s"
    and Q: "\<And>s'. trk h n v {#} s' \<Longrightarrow> (\<And>pid p. v pid = Some p \<Longrightarrow> stored (persistant_layer s') pid = Some p) \<Longrightarrow>
      clean_pool s' \<Longrightarrow> Q () s'"
    and X: "\<And>e s'. \<not> h \<Longrightarrow> trk h n v {#} s' \<Longrightarrow> X e s'"
  shows "wp h (Some (flush_all E D s)) Q X"
proof -
  obtain r s' where f: "flush_all E D s = (r, s')" by fastforce
  have tr': "inv_but {} s" "keeps v (view s)" "dom (page_table s) \<subseteq> dom v" "holders {#} s" "length (frames s) = n"
      "h \<longrightarrow> well (persistant_layer s)"
    using tr by (simp_all add: tracks_def)
  have un: "hold s = (\<lambda>_. Unlatched)" using tr'(4) by (auto simp: holders_def fun_eq_iff)
  note law = flush_law [OF E tr'(1) _ f]
  have law: "r \<noteq> Panic" "inv_but {} s'" "keeps (view s) (view s')" "hold s' = hold s" "page_table s' = page_table s"
      "length (frames s') = length (frames s)" "well (persistant_layer s) \<longrightarrow> r = Ok () \<and> well (persistant_layer s')"
      "r = Ok () \<longrightarrow> (\<forall>pid p. view s' pid = Some p \<longrightarrow> stored (persistant_layer s') pid = Some p)"
      "r = Ok () \<longrightarrow> clean_pool s'"
    using law un pool_inv_butD(1,2) [of E ids stored ok "{}" s'] by (auto simp: clean_pool_def)
  have "keeps v (view s')" using tr'(2) law(3) keeps_trans by blast
  then have tr2: "trk h n v {#} s'"
    using tr' law un by (auto simp: tracks_def holders_def)
  show ?thesis
  proof (cases r)
    case (Ok u)
    have "stored (persistant_layer s') pid = Some p" if "v pid = Some p" for pid p
      using that trk_view [OF tr2] law(8) Ok by auto
    then show ?thesis using Q tr2 f Ok law(9) by (simp add: wp_def)
  next
    case (Err e)
    then have "\<not> h" using law(7) tr'(6) by auto
    then show ?thesis using X tr2 f Err by (simp add: wp_def)
  qed (use law(1) in simp)
qed

text \<open>With nothing dirty the disk has every page.\<close>

lemma clean_stored:
  assumes "trk h n v H s" and "clean_pool s" and "v pid = Some p"
  shows "stored (persistant_layer s) pid = Some p"
proof -
  have inv: "inv_but {} s" using assms(1) by (simp add: tracks_def)
  have "view s pid = Some p" using trk_view [OF assms(1,3)] .
  then show ?thesis
    using pool_inv_mapped(2,5) [OF inv] assms(2) by (fastforce simp: pool_view_Some clean_pool_def split: option.splits)
qed

text \<open>Replacing the file: an error leaves the old pages, and where nothing has failed it is the disk that refused.\<close>

lemma wp_swap:
  assumes E: "varint_ok E" and tr: "trk h n v {#} s"
    and pages: "\<forall>p \<in> set pages. pg_id p \<in> ids \<and> storable E p" "distinct (map pg_id pages)"
    and new: "\<And>i p. v' i = Some p \<longleftrightarrow> p \<in> set pages \<and> pg_id p = i"
    and Q: "\<And>s'. trk h n v' {#} s' \<Longrightarrow> Q () s'"
    and X: "\<And>e s'. (safe_pool s \<Longrightarrow> trk h n v {#} s') \<Longrightarrow>
      (h \<Longrightarrow> \<exists>d d' e'. well d \<and> dm_swap_file D pages d = (Err e', d')) \<Longrightarrow> X e s'"
  shows "wp h (Some (bpm_swap_file E D pages s)) Q X"
proof -
  obtain r s' where f: "bpm_swap_file E D pages s = (r, s')" by fastforce
  have tr': "inv_but {} s" "keeps v (view s)" "dom (page_table s) \<subseteq> dom v" "holders {#} s" "length (frames s) = n"
      "h \<longrightarrow> well (persistant_layer s)"
    using tr by (simp_all add: tracks_def)
  have un: "\<forall>pid. hold s pid = Unlatched" using tr'(4) by (auto simp: holders_def)
  note law = swap_pool_law [OF E tr'(1) un pages f]
  show ?thesis
  proof (cases r)
    case (Ok u)
    then have "trk h n v' {#} s'"
      using law tr'(5,6) new by (auto simp: tracks_def holders_def keeps_def)
    then show ?thesis using Q f Ok by (simp add: wp_def)
  next
    case (Err e)
    have "trk h n v {#} s'" if "safe_pool s"
    proof -
      have "keeps v (view s')" "inv_but {} s'" "hold s' = hold s" "page_table s' = page_table s" "length (frames s') = n"
        using law tr'(2,5) keeps_trans Err that by auto
      then show ?thesis using law tr' un by (auto simp: tracks_def holders_def)
    qed
    moreover have "\<exists>d d' e'. well d \<and> dm_swap_file D pages d = (Err e', d')" if h using that law tr'(6) Err by blast
    ultimately show ?thesis using X f Err by (simp add: wp_def)
  next
    case Panic
    then show ?thesis using law tr'(6) f by (auto simp: wp_def)
  qed
qed

lemma trk_disk:
  assumes "trk h n v H s" and "stored d = stored (persistant_layer s)" and "well d"
  shows "trk h n v H (s\<lparr>persistant_layer := d\<rparr>)"
proof -
  note same = same_disk [OF assms(2)]
  have "holders H (s\<lparr>persistant_layer := d\<rparr>) = holders H s" by (simp only: holders_def same(3,4))
  then show ?thesis using assms(1,3) by (simp add: tracks_def same(1,2))
qed

text \<open>A new pool on a disk that holds the pages stands for them.\<close>

lemma trk_new_pool:
  assumes "trk h n v H s" and "\<And>pid p. v pid = Some p \<Longrightarrow> stored d pid = Some p" and "well d" and "0 < k" and "ok e k"
    and "bpm_new d e k = Ok s'"
  shows "trk h k v {#} s'"
proof -
  have len: "length (frames s') = k" "page_table s' = (\<lambda>_. None)" "persistant_layer s' = d"
    using assms(4,6) by (auto simp: bpm_new_def)
  obtain s2 where "bpm_new d e k = (Ok s2 :: (('d, 'e) bpm, bpm_error) result)"
    and law: "inv_but {} s2" "\<forall>pid. hold s2 pid = Unlatched"
      "\<forall>pid p. view s2 pid = Some p \<longleftrightarrow> stored d pid = Some p \<and> pid \<in> ids \<and> pg_id p = pid \<and> storable E p"
    using new_pool_law [OF assms(4,5), of d] by blast
  then have "s2 = s'" using assms(4,6) by (simp add: bpm_new_def)
  then show ?thesis
    using law len assms(2,3) trk_storable [OF assms(1)] by (auto simp: tracks_def holders_def keeps_def)
qed

lemma trk_empty:
  assumes "0 < n" and "ok e n" and "bpm_new d e n = Ok s" and "well d"
  shows "trk h n Map.empty {#} s"
proof -
  have len: "length (frames s) = n" "page_table s = (\<lambda>_. None)" "persistant_layer s = d"
    using assms(1,3) by (auto simp: bpm_new_def)
  obtain s2 where "bpm_new d e n = (Ok s2 :: (('d, 'e) bpm, bpm_error) result)" and law: "inv_but {} s2" "\<forall>pid. hold s2 pid = Unlatched"
    using new_pool_law [OF assms(1,2), of d] by blast
  then have "s2 = s" using assms(1,3) by (simp add: bpm_new_def)
  then show ?thesis using law len assms(4) by (auto simp: tracks_def holders_def keeps_def)
qed

section \<open>Creation\<close>

lemma wp_new_pages:
  assumes E: "varint_ok E" and tr: "trk h n Map.empty {#} s" and room: "h \<longrightarrow> 0 < n"
    and meta: "storable E (empty_page (PageId T 0) (Meta (PageId T 1) 2 None schema name))"
    and tb: "\<And>i. get_table_id i = T \<Longrightarrow> i \<in> ids"
    and Q: "\<And>s'. trk h n ((\<lambda>_. None)(PageId T 1 \<mapsto> empty_leaf (PageId T 1),
        PageId T 0 \<mapsto> empty_page (PageId T 0) (Meta (PageId T 1) 2 None schema name))) {#} s' \<Longrightarrow> clean_pool s' \<Longrightarrow> Q () s'"
    and X: "\<And>e s'. \<not> h \<Longrightarrow> X e s'"
  shows "wp h (Some ((sbind (new_page E D V (empty_leaf (PageId T 1))) (\<lambda>g.
      sbind (drop_write E g) (\<lambda>_.
      sbind (new_page E D V (empty_page (PageId T 0) (Meta (PageId T 1) 2 None schema name))) (\<lambda>g.
      sbind (drop_write E g) (\<lambda>_.
        flush_all E D))))) s)) Q X"
proof -
  let ?leaf = "empty_leaf (PageId T 1)"
  let ?meta = "empty_page (PageId T 0) (Meta (PageId T 1) 2 None schema name)"
  have leaf: "storable E ?leaf"
    by (auto simp: storable_def page_wf_def page_lsn_wf_def empty_leaf_def empty_page_def page_inv_iff rows_ok_def layout_simps)
  have ids: "pg_id ?leaf = PageId T 1" "pg_id ?meta = PageId T 0" by (simp_all add: empty_leaf_def empty_page_def)
  show ?thesis
    apply (simp only: wp_simps)
    apply (rule wp_new_page [OF E tr])
         apply simp
        apply (simp add: ids tb)
       apply (rule leaf)
      apply (simp add: room)
     apply (rule wp_drop_write, assumption)
     apply (rule wp_new_page [OF E], assumption)
          apply (simp add: ids)
         apply (simp add: ids tb)
        apply (rule meta)
       apply (simp add: room)
      apply (rule wp_drop_write, assumption)
      apply (rule wp_flush [OF E], assumption)
       apply (use Q X in \<open>auto simp: ids\<close>)
    done
qed

end

end
