(* ===== verification/Vacuum_Pages.thy ===== *)
theory Vacuum_Pages
  imports Table_Correct
begin

text \<open>
  The pages that \<^verbatim>\<open>vacuum\<close> writes: leaves filled one after the other, linked, and levels of internal pages over them
  until one page is left. The rows come out as a list of groups, a level as a list of groups of items.
\<close>

section \<open>Page numbers\<close>

definition nth_page :: "table \<Rightarrow> nat \<Rightarrow> page_id" where
  "nth_page tbl k = table_page_id tbl (word_of_nat k)"

lemma word_of_nat_inj32: "j < 2 ^ 32 \<Longrightarrow> k < 2 ^ 32 \<Longrightarrow> (word_of_nat j :: 32 word) = word_of_nat k \<longleftrightarrow> j = k"
  by (auto simp: word_of_nat_eq_iff take_bit_nat_eq_self)

lemma nth_page_inj: "j < 2 ^ 32 \<Longrightarrow> k < 2 ^ 32 \<Longrightarrow> nth_page tbl j = nth_page tbl k \<longleftrightarrow> j = k"
  using word_of_nat_inj32 by (auto simp: nth_page_def table_page_id_def)

lemma next_num_nat:
  assumes "Suc k < 2 ^ 32"
  shows "next_num E (word_of_nat k) = Ok (word_of_nat (Suc k))"
proof -
  have "(- 1 :: 32 word) = word_of_nat (2 ^ 32 - 1)" by simp
  then have "(word_of_nat k :: 32 word) \<noteq> - 1"
    using assms word_of_nat_inj32 [of k "2 ^ 32 - 1"] by (metis Suc_lessD diff_less less_diff_conv nat_neq_iff
        plus_1_eq_Suc add.commute zero_less_numeral zero_less_one zero_less_power)
  then show ?thesis by (simp add: next_num_def add.commute)
qed

lemma new_leaf_nat:
  "Suc k < 2 ^ 32 \<Longrightarrow> new_leaf E tbl (word_of_nat k) = Ok (empty_page (nth_page tbl k) (Leaf [] None None), word_of_nat (Suc k))"
  by (simp add: new_leaf_def empty_leaf_def nth_page_def next_num_nat del: of_nat_Suc)

section \<open>Leaves\<close>

text \<open>The leaves of these groups of rows, before they are linked.\<close>

fun bare :: "table \<Rightarrow> nat \<Rightarrow> row list list \<Rightarrow> page list" where
  "bare tbl k [] = []"
| "bare tbl k (rs # rss) = empty_page (nth_page tbl k) (Leaf rs None None) # bare tbl (Suc k) rss"

lemma bare_ids: "map pg_id (bare tbl k rss) = map (nth_page tbl) [k..<k + length rss]"
  by (induction rss arbitrary: k) (simp_all add: empty_page_def upt_conv_Cons del: upt_Suc)

lemma leaf_page_inv: "page_inv E (empty_page i (Leaf rs nx pv)) \<longleftrightarrow> rows_size E rs \<le> LEAF_USABLE \<and> rows_ok E rs"
  using page_inv_leaf [of "empty_page i (Leaf rs nx pv)" rs nx pv E] by (simp add: empty_page_def)

lemma leaf_room:
  assumes "rows_size E rs \<le> LEAF_USABLE" and "rows_ok E rs"
  shows "can_insert E (empty_page i (Leaf rs nx pv)) r \<longleftrightarrow> rows_size E (rs @ [r]) \<le> LEAF_USABLE"
  using can_insert_leaf [of "empty_page i (Leaf rs nx pv)" rs nx pv E r] leaf_page_inv [of E i rs nx pv] assms
  by (simp add: empty_page_def)

lemma put_row_end:
  assumes "validate_row E (tbl_schema tbl) r = Ok (ValidatedRow r)" and "rows_ok E (rs @ [r])"
    and "rows_size E (rs @ [r]) \<le> LEAF_USABLE"
  shows "put_row E tbl (empty_page i (Leaf rs nx pv)) r = Ok (empty_page i (Leaf (rs @ [r]) nx pv))"
proof -
  let ?p = "empty_page i (Leaf rs nx pv)"
  have ok: "rows_ok E rs" "row_fits E r" "sorted_wrt (<) (row_keys rs @ [the_key r])"
    using assms(2) by (auto simp: rows_ok_append rows_ok_iff row_keys_def sorted_wrt_append)
  have inv: "page_inv E ?p" using ok(1) assms(3) by (simp add: leaf_page_inv)
  have b: "body ?p = Leaf rs nx pv" by (simp add: empty_page_def)
  have pos: "ins_pos (the_key r) (row_keys rs) = length rs" "the_key r \<notin> set (row_keys rs)"
    using ins_pos_middle [of "row_keys rs" "the_key r" "[]"] ok(3) by (simp_all add: row_keys_def)
  have "leaf_insert E ?p (ValidatedRow r) = (Ok (), empty_page i (Leaf (rs @ [r]) nx pv))"
    unfolding leaf_insert_eq [OF b inv ok(2)] pos(1) using pos(2) assms(3) by (simp add: empty_page_def)
  then show ?thesis by (simp add: put_row_def assms(1))
qed

text \<open>A row fits an empty leaf.\<close>

lemma first_row_fits: "row_fits E r \<Longrightarrow> leaf_entry_size E r \<le> LEAF_USABLE"
  by (simp add: row_fits_iff layout_simps)

text \<open>A leaf is full before another one is begun: the first row of the next leaf does not fit.\<close>

definition leaf_full :: "env \<Rightarrow> row list \<Rightarrow> row list \<Rightarrow> bool" where
  "leaf_full E g g' \<longleftrightarrow> g' \<noteq> [] \<and> LEAF_USABLE < rows_size E (g @ [hd g'])"

definition packed :: "env \<Rightarrow> row list list \<Rightarrow> row list \<Rightarrow> bool" where
  "packed E rss rl \<longleftrightarrow> concat rss = rl \<and> rss \<noteq> [] \<and> successively (leaf_full E) rss \<and>
     (\<forall>g \<in> set rss. rows_size E g \<le> LEAF_USABLE \<and> (rl \<noteq> [] \<longrightarrow> g \<noteq> []))"

lemma fill_leaves_packs:
  assumes "\<forall>r \<in> set rl. validate_row E (tbl_schema tbl) r = Ok (ValidatedRow r)" and "rows_ok E (rs @ rl)"
    and "rows_size E rs \<le> LEAF_USABLE" and "Suc k + length rl < 2 ^ 32"
  shows "\<exists>rss. fill_leaves E tbl rl leaves (empty_page (nth_page tbl k) (Leaf rs None None)) (word_of_nat (Suc k)) =
      Ok (leaves @ bare tbl k rss, word_of_nat (k + length rss)) \<and> packed E rss (rs @ rl)"
  using assms
proof (induction rl arbitrary: rs k leaves)
  case Nil
  then show ?case by (intro exI [of _ "[rs]"]) (simp add: packed_def)
next
  case (Cons r rl)
  have valid: "validate_row E (tbl_schema tbl) r = Ok (ValidatedRow r)" using Cons.prems(1) by simp
  have ok: "rows_ok E rs" "rows_ok E (rs @ [r])" "rows_ok E (r # rl)" "row_fits E r"
    using Cons.prems(2) by (simp_all add: rows_ok_append rows_ok_iff row_keys_def sorted_wrt_append)
  note room = leaf_room [OF Cons.prems(3) ok(1)]
  show ?case
  proof (cases "rows_size E (rs @ [r]) \<le> LEAF_USABLE")
    case True
    obtain rss where "fill_leaves E tbl rl leaves (empty_page (nth_page tbl k) (Leaf (rs @ [r]) None None)) (word_of_nat (Suc k)) =
        Ok (leaves @ bare tbl k rss, word_of_nat (k + length rss))" "packed E rss ((rs @ [r]) @ rl)"
      using Cons.IH [of "rs @ [r]" k leaves] Cons.prems True by auto
    then show ?thesis
      using put_row_end [OF valid ok(2) True] True by (intro exI [of _ rss]) (simp add: room del: of_nat_Suc)
  next
    case False
    let ?fresh = "empty_page (nth_page tbl (Suc k)) (Leaf [] None None)"
    have small: "rows_size E [r] \<le> LEAF_USABLE" "rows_ok E [r]" using first_row_fits [OF ok(4)] ok(4) by (simp_all add: rows_ok_iff row_keys_def)
    then have "rs \<noteq> []" using False by auto
    have put: "put_row E tbl ?fresh r = Ok (empty_page (nth_page tbl (Suc k)) (Leaf [r] None None))"
      using put_row_end [OF valid, of "[]"] small by simp
    obtain rss where rss: "fill_leaves E tbl rl (leaves @ [empty_page (nth_page tbl k) (Leaf rs None None)])
        (empty_page (nth_page tbl (Suc k)) (Leaf [r] None None)) (word_of_nat (Suc (Suc k))) =
        Ok ((leaves @ [empty_page (nth_page tbl k) (Leaf rs None None)]) @ bare tbl (Suc k) rss, word_of_nat (Suc k + length rss))"
        "packed E rss ([r] @ rl)"
      using Cons.IH [of "[r]" "Suc k"] Cons.prems(1,4) ok(3) small by fastforce
    have "hd (hd rss) = r" using rss(2) by (cases rss; cases "hd rss") (auto simp: packed_def)
    moreover have "hd rss \<noteq> []" using rss(2) by (cases rss) (auto simp: packed_def)
    ultimately have "leaf_full E rs (hd rss)" using False by (simp add: leaf_full_def)
    then have "packed E (rs # rss) (rs @ r # rl)"
      using rss(2) Cons.prems(3) \<open>rs \<noteq> []\<close> by (simp add: packed_def successively_Cons)
    then show ?thesis
      using rss(1) put False Cons.prems(4) by (intro exI [of _ "rs # rss"]) (simp add: room new_leaf_nat del: of_nat_Suc)
  qed
qed

text \<open>The leaves linked.\<close>

fun linked :: "table \<Rightarrow> nat \<Rightarrow> page_id option \<Rightarrow> row list list \<Rightarrow> page list" where
  "linked tbl k pv [] = []"
| "linked tbl k pv (rs # rss) =
     empty_page (nth_page tbl k) (Leaf rs (if rss = [] then None else Some (nth_page tbl (Suc k))) pv) #
     linked tbl (Suc k) (Some (nth_page tbl k)) rss"

lemma linked_ids: "map pg_id (linked tbl k pv rss) = map (nth_page tbl) [k..<k + length rss]"
  by (induction rss arbitrary: k pv) (simp_all add: empty_page_def upt_conv_Cons del: upt_Suc)

lemma link_leaves_links:
  "k0 \<le> k \<Longrightarrow> link_leaves (map (nth_page tbl) [k0..<k + length rss]) (k - k0) (bare tbl k rss) =
    Ok (linked tbl k (if k = k0 then None else Some (nth_page tbl (k - 1))) rss)"
proof (induction rss arbitrary: k)
  case (Cons rs rss)
  let ?ids = "map (nth_page tbl) [k0..<k + length (rs # rss)]"
  let ?pv = "if k = k0 then None else Some (nth_page tbl (k - 1))"
  have pv: "(case checked_sub (k - k0) 1 of None \<Rightarrow> Ok None | Some j \<Rightarrow> rbind (vec_index ?ids j) (\<lambda>x. Ok (Some x))) =
      (Ok ?pv :: (_, table_error) result)"
    using Cons.prems by (auto simp: checked_sub_def vec_index_def simp del: upt_Suc)
  have nx: "vec_get (k - k0 + 1) ?ids = (if rss = [] then None else Some (nth_page tbl (Suc k)))"
    using Cons.prems by (cases rss) (auto simp: vec_get_def simp del: upt_Suc)
  have "link_leaves ?ids (Suc k - k0) (bare tbl (Suc k) rss) = Ok (linked tbl (Suc k) (Some (nth_page tbl k)) rss)"
    using Cons.IH [of "Suc k"] Cons.prems by simp
  then show ?case
    using Cons.prems
    by (simp only: bare.simps link_leaves.simps pv nx)
      (simp add: relink_leaf_def set_prev_def set_next_def empty_page_def Suc_diff_le)
qed simp

section \<open>Levels\<close>

text \<open>A level as the code has it: the lowest key of each page, \<open>d\<close> being that of the first one.\<close>

definition low_key :: "key \<Rightarrow> key option \<Rightarrow> key" where
  "low_key d a = (case a of None \<Rightarrow> d | Some k \<Rightarrow> k)"

definition keyed :: "key \<Rightarrow> items \<Rightarrow> (key \<times> page_id) list" where
  "keyed d xs = map (\<lambda>x. (low_key d (fst x), tid (snd x))) xs"

lemma keyed_simps [simp]:
  "keyed d [] = []" "keyed d (x # xs) = (low_key d (fst x), tid (snd x)) # keyed d xs" "length (keyed d xs) = length xs"
  by (simp_all add: keyed_def)

fun tips :: "table \<Rightarrow> nat \<Rightarrow> row list list \<Rightarrow> items" where
  "tips tbl k [] = []"
| "tips tbl k (rs # rss) = (Some (the_key (hd rs)), Tip (nth_page tbl k) rs) # tips tbl (Suc k) rss"

lemma first_key_leaf:
  assumes "row_fits E r"
  shows "first_key (empty_page i (Leaf (r # rs) nx pv)) = Ok (the_key r)"
proof -
  obtain vs where "row_fields r = key_to_row_value (the_key r) # vs"
    using row_fits_key [OF assms] by (auto simp: row_key_Some_iff)
  then show ?thesis
    by (cases "the_key r") (simp_all add: first_key_def empty_page_def vec_first_def)
qed

lemma first_keys_tips:
  "\<forall>g \<in> set rss. g \<noteq> [] \<and> rows_ok E g \<Longrightarrow> first_keys (linked tbl k pv rss) = Ok (keyed d (tips tbl k rss))"
proof (induction rss arbitrary: k pv)
  case (Cons g rss)
  obtain r rs where g: "g = r # rs" "row_fits E r" using Cons.prems by (cases g) (auto simp: rows_ok_iff)
  show ?case
    using Cons by (simp add: g first_key_leaf [OF g(2)] low_key_def) (simp add: empty_page_def)
qed simp

text \<open>The pages of these groups of items, and the items of the next level.\<close>

fun branches :: "table \<Rightarrow> nat \<Rightarrow> items list \<Rightarrow> items" where
  "branches tbl k [] = []"
| "branches tbl k (g # gs) = (fst (hd g), Branch (nth_page tbl k) g) # branches tbl (Suc k) gs"

fun nodes :: "table \<Rightarrow> nat \<Rightarrow> items list \<Rightarrow> page list" where
  "nodes tbl k [] = []"
| "nodes tbl k (g # gs) = empty_page (nth_page tbl k) (branch_body g) # nodes tbl (Suc k) gs"

lemma nodes_ids: "map pg_id (nodes tbl k gs) = map (nth_page tbl) [k..<k + length gs]"
  by (induction gs arbitrary: k) (simp_all add: empty_page_def upt_conv_Cons del: upt_Suc)

lemma length_branches [simp]: "length (branches tbl k gs) = length gs"
  by (induction gs arbitrary: k) simp_all

definition node_ok :: "env \<Rightarrow> items \<Rightarrow> bool" where
  "node_ok E g \<longleftrightarrow> keys_size E (seps (map fst g)) \<le> INTERNAL_USABLE \<and> keys_ok E (seps (map fst g)) \<and>
     (\<forall>k \<in> set (seps (map fst g)). key_wf k)"

lemma node_storable: "g \<noteq> [] \<Longrightarrow> storable E (empty_page i (branch_body g)) \<longleftrightarrow> node_ok E g"
  using storable_internal [of "empty_page i (branch_body g)" "seps (map fst g)" "tids g" E]
    page_inv_internal [of "empty_page i (branch_body g)" "seps (map fst g)" "tids g" E]
  by (cases g) (auto simp: empty_page_def node_ok_def page_lsn_wf_def)

lemma single_node_ok: "node_ok E [x]"
  by (simp add: node_ok_def keys_ok_def)

text \<open>
  Every group but the last is full, the separator of the next one does not fit, and so it has two items or more.
\<close>

definition node_full :: "env \<Rightarrow> items \<Rightarrow> items \<Rightarrow> bool" where
  "node_full E g g' \<longleftrightarrow>
     INTERNAL_USABLE < keys_size E (seps (map fst g)) + internal_entry_size E (the (fst (hd g')))"

definition grouped :: "env \<Rightarrow> items list \<Rightarrow> items \<Rightarrow> bool" where
  "grouped E gs xs \<longleftrightarrow> concat gs = xs \<and> gs \<noteq> [] \<and> successively (node_full E) gs \<and> (\<forall>g \<in> set gs. g \<noteq> [] \<and> node_ok E g) \<and> 2 * length gs \<le> length xs + 1"

definition sep_ok :: "env \<Rightarrow> key option \<times> btree \<Rightarrow> bool" where
  "sep_ok E x \<longleftrightarrow> (\<exists>c. fst x = Some c \<and> key_fits E c \<and> key_wf c)"

lemma new_internal_nat:
  "Suc k < 2 ^ 32 \<Longrightarrow> new_internal E tbl (word_of_nat k) i =
    Ok (empty_page (nth_page tbl k) (Internal [] [i]), word_of_nat (Suc k))"
  by (simp add: new_internal_def nth_page_def next_num_nat del: of_nat_Suc)

lemma fill_level_groups:
  assumes "chain W h (g @ xs)" and "g \<noteq> []" and "node_ok E g" and "\<forall>x \<in> set xs. sep_ok E x" and "Suc k + length xs < 2 ^ 32"
  shows "\<exists>gs. fill_level E tbl (keyed d xs) (low_key d (fst (hd g))) (empty_page (nth_page tbl k) (branch_body g))
        (word_of_nat (Suc k)) out level =
      Ok (level @ keyed d (branches tbl k gs), word_of_nat (k + length gs), out @ nodes tbl k gs) \<and> grouped E gs (g @ xs)"
  using assms
proof (induction xs arbitrary: g k out level)
  case Nil
  then show ?case by (intro exI [of _ "[g]"]) (auto simp: grouped_def empty_page_def Suc_le_eq)
next
  case (Cons x xs)
  let ?p = "empty_page (nth_page tbl k) (branch_body g)"
  obtain c u where x: "x = (Some c, u)" and c: "key_fits E c" "key_wf c"
    using Cons.prems(4) by (cases x) (auto simp: sep_ok_def)
  obtain as a t where g: "g = as @ [(a, t)]" using Cons.prems(2) by (cases g rule: rev_cases) auto
  have st: "storable E ?p" using Cons.prems(2,3) by (simp add: node_storable)
  have b: "body ?p = branch_body (as @ (a, t) # [])" by (simp add: g empty_page_def)
  have ch: "chain W (low xs h) (as @ (a, t) # (Some c, u) # [])" "chain W h (x # xs)"
    using Cons.prems(1) by (auto simp: g x chain_append)
  show ?case
  proof (cases "can_insert_separator E ?p c")
    case True
    note ins = insert_item_eq [OF b st ch(1) c True]
    have eq: "?p\<lparr>body := branch_body (as @ (a, t) # (Some c, u) # [])\<rparr> = empty_page (nth_page tbl k) (branch_body (g @ [x]))"
      by (simp add: g x empty_page_def)
    have "node_ok E (g @ [x])" using ins(2) unfolding eq by (subst (asm) node_storable) simp_all
    then obtain gs where gs: "fill_level E tbl (keyed d xs) (low_key d (fst (hd (g @ [x]))))
          (empty_page (nth_page tbl k) (branch_body (g @ [x]))) (word_of_nat (Suc k)) out level =
        Ok (level @ keyed d (branches tbl k gs), word_of_nat (k + length gs), out @ nodes tbl k gs)" "grouped E gs ((g @ [x]) @ xs)"
      using Cons.IH [of "g @ [x]" k out level] Cons.prems by auto
    have "hd (g @ [x]) = hd g" using Cons.prems(2) by simp
    then show ?thesis
      using gs ins(1) unfolding eq by (intro exI [of _ gs]) (simp add: x low_key_def True)
  next
    case False
    have "2 \<le> length g"
    proof (rule ccontr)
      assume "\<not> 2 \<le> length g"
      then have "as = []" by (cases as) (simp_all add: g)
      then have "can_insert_separator E ?p c"
        using room_internal(1) [OF b storable_inv [OF st]] c(1) by (simp add: layout_simps)
      then show False using False by simp
    qed
    obtain gs where gs: "fill_level E tbl (keyed d xs) (low_key d (fst (hd [x])))
          (empty_page (nth_page tbl (Suc k)) (branch_body [x])) (word_of_nat (Suc (Suc k))) (out @ [?p])
          (level @ [(low_key d (fst (hd g)), nth_page tbl k)]) =
        Ok ((level @ [(low_key d (fst (hd g)), nth_page tbl k)]) @ keyed d (branches tbl (Suc k) gs),
          word_of_nat (Suc k + length gs), (out @ [?p]) @ nodes tbl (Suc k) gs)" "grouped E gs ([x] @ xs)"
      using Cons.IH [of "[x]" "Suc k" "out @ [?p]" "level @ [(low_key d (fst (hd g)), nth_page tbl k)]"]
        Cons.prems(4,5) ch(2) single_node_ok by fastforce
    have "hd (hd gs) = x" using gs(2) by (cases gs; cases "hd gs") (auto simp: grouped_def)
    then have "node_full E g (hd gs)"
      using False room_internal(1) [OF b storable_inv [OF st], of c] by (simp add: node_full_def x g)
    then have "grouped E (g # gs) (g @ x # xs)"
      using gs(2) Cons.prems(2,3) \<open>2 \<le> length g\<close> by (auto simp: grouped_def successively_Cons)
    moreover have "Suc (Suc k) < 2 ^ 32" using Cons.prems(5) by simp
    ultimately show ?thesis
      using gs(1) False
      by (intro exI [of _ "g # gs"]) (simp add: x low_key_def new_internal_nat empty_page_def del: of_nat_Suc)
  qed
qed

lemma build_level_groups:
  assumes "chain W h (x # xs)" and "\<forall>x \<in> set xs. sep_ok E x" and "Suc k + length xs < 2 ^ 32"
  shows "\<exists>gs. build_internal_level E tbl (keyed d (x # xs)) (word_of_nat k) out =
      Ok (keyed d (branches tbl k gs), word_of_nat (k + length gs), out @ nodes tbl k gs) \<and> grouped E gs (x # xs)"
proof -
  obtain gs where gs: "fill_level E tbl (keyed d xs) (low_key d (fst (hd [x]))) (empty_page (nth_page tbl k) (branch_body [x]))
        (word_of_nat (Suc k)) out [] =
      Ok ([] @ keyed d (branches tbl k gs), word_of_nat (k + length gs), out @ nodes tbl k gs)" "grouped E gs ([x] @ xs)"
    using fill_level_groups [of W h "[x]" xs E k tbl d out "[]"] assms single_node_ok by auto
  then show ?thesis
    using assms(3) by (intro exI [of _ gs]) (simp add: build_internal_level_def new_internal_nat del: of_nat_Suc of_nat_add)
qed

section \<open>Trees that may be thin\<close>

text \<open>
  The last page of a level may be left with a single child. \<open>loose\<close> is \<open>wf_tree\<close> without the condition that every
  internal page has two, which is \<open>full\<close>.
\<close>

primrec loose :: "env \<Rightarrow> nat \<Rightarrow> key option \<Rightarrow> key option \<Rightarrow> btree \<Rightarrow> bool" where
  "loose E 0 l h t \<longleftrightarrow> (\<exists>i rs. t = Tip i rs \<and> rows_ok E rs \<and> (\<forall>r \<in> set rs. within l h (the_key r)))"
| "loose E (Suc n) l h t \<longleftrightarrow> (\<exists>i xs. t = Branch i xs \<and> xs \<noteq> [] \<and> fst (hd xs) = l \<and> chain (loose E n) h xs)"

fun full :: "btree \<Rightarrow> bool" where
  "full (Tip i rs) \<longleftrightarrow> True"
| "full (Branch i xs) \<longleftrightarrow> 2 \<le> length xs \<and> (\<forall>x \<in> set xs. full (snd x))"

lemma chain_imp:
  "chain W h xs \<Longrightarrow> (\<And>l h' x. x \<in> set xs \<Longrightarrow> W l h' (snd x) \<Longrightarrow> W' l h' (snd x)) \<Longrightarrow> chain W' h xs"
  by (induction xs) auto

lemma loose_full: "loose E n l h t \<Longrightarrow> full t \<Longrightarrow> wf_tree E n l h t"
proof (induction n arbitrary: l h t)
  case (Suc n)
  then obtain i xs where t: "t = Branch i xs" "xs \<noteq> []" "fst (hd xs) = l" "chain (loose E n) h xs" by auto
  have "chain (wf_tree E n) h xs"
    by (rule chain_imp [OF t(4)]) (use Suc.IH Suc.prems(2) t(1) in auto)
  then show ?case using t Suc.prems(2) by auto
qed auto

lemma low_branches: "\<forall>g \<in> set gs. g \<noteq> [] \<Longrightarrow> low (branches tbl k gs) h = low (concat gs) h"
  by (cases gs; cases "hd gs") auto

lemma chain_branches:
  "chain (loose E m) h (concat gs) \<Longrightarrow> \<forall>g \<in> set gs. g \<noteq> [] \<Longrightarrow> chain (loose E (Suc m)) h (branches tbl k gs)"
proof (induction gs arbitrary: k)
  case (Cons g gs)
  have ch: "chain (loose E m) (low (concat gs) h) g" "chain (loose E m) h (concat gs)" "g \<noteq> []"
      "concat gs \<noteq> [] \<Longrightarrow> fst (hd (concat gs)) \<noteq> None"
    using Cons.prems by (simp_all add: chain_append)
  have lo: "low (branches tbl (Suc k) gs) h = low (concat gs) h" using Cons.prems(2) by (simp add: low_branches)
  have "lt_bound (fst (hd g)) (low (concat gs) h)" by (rule chain_lt [OF ch(1,3)])
  moreover have "fst (hd (branches tbl (Suc k) gs)) \<noteq> None" if "branches tbl (Suc k) gs \<noteq> []"
  proof -
    from that obtain g1 gs1 where "gs = g1 # gs1" by (cases gs) auto
    then show ?thesis using ch(4) Cons.prems(2) by simp
  qed
  ultimately show ?case using Cons ch lo by auto
qed simp

lemma branches_ids:
  "mset (item_ids (branches tbl k gs)) = mset (map (nth_page tbl) [k..<k + length gs]) + mset (item_ids (concat gs))"
  by (induction gs arbitrary: k) (simp_all add: upt_conv_Cons del: upt_Suc)

lemma branches_leaves:
  "item_leaf_ids (branches tbl k gs) = item_leaf_ids (concat gs)" "item_rows (branches tbl k gs) = item_rows (concat gs)"
  by (induction gs arbitrary: k) simp_all

lemma branches_nodes:
  "x \<in> set (branches tbl k gs) \<Longrightarrow> \<exists>g i. g \<in> set gs \<and> x = (fst (hd g), Branch i g) \<and> empty_page i (branch_body g) \<in> set (nodes tbl k gs)"
proof (induction gs arbitrary: k)
  case (Cons g gs)
  then show ?case using Cons.IH [of "Suc k"] by (cases "x \<in> set (branches tbl (Suc k) gs)") fastforce+
qed simp

lemma branches_seps:
  assumes "\<forall>g \<in> set gs. g \<noteq> []" and "\<forall>x \<in> set (tl (concat gs)). sep_ok E x" and "x \<in> set (tl (branches tbl k gs))"
  shows "sep_ok E x"
proof -
  obtain g gs' where gs: "gs = g # gs'" using assms(3) by (cases gs) auto
  then obtain y ys where g: "g = y # ys" using assms(1) by (cases g) auto
  obtain g1 i where x: "g1 \<in> set gs'" "x = (fst (hd g1), Branch i g1)"
    using branches_nodes [of x tbl "Suc k" gs'] assms(3) gs by auto
  moreover have "hd g1 \<in> set g1" using assms(1) gs x(1) by (intro hd_in_set) simp
  ultimately have "hd g1 \<in> set (tl (concat gs))" using gs g by auto
  then show ?thesis using assms(2) x(2) by (auto simp: sep_ok_def)
qed

section \<open>The pages so far\<close>

definition page_map :: "page list \<Rightarrow> pages" where
  "page_map ps = map_of (map (\<lambda>p. (pg_id p, p)) ps)"

lemma page_map_Some:
  assumes "distinct (map pg_id ps)"
  shows "page_map ps i = Some p \<longleftrightarrow> p \<in> set ps \<and> pg_id p = i"
proof -
  have "distinct (map fst (map (\<lambda>p. (pg_id p, p)) ps))" using assms by (simp add: comp_def)
  from map_of_eq_Some_iff [OF this] show ?thesis by (auto simp: page_map_def)
qed

lemma distinct_pages: "n \<le> 2 ^ 32 \<Longrightarrow> distinct (map (nth_page tbl) [k..<n])"
  by (auto simp: distinct_map inj_on_def nth_page_inj)

text \<open>
  A level of a packed tree: the pages of a level, of height \<open>m\<close>, are all full but the last one, and so are
  those of every level below.
\<close>

fun kids :: "btree \<Rightarrow> items" where
  "kids (Tip i rs) = []"
| "kids (Branch i xs) = xs"

primrec packed_level :: "env \<Rightarrow> nat \<Rightarrow> btree list \<Rightarrow> bool" where
  "packed_level E 0 ts \<longleftrightarrow> successively (leaf_full E) (map rows ts)"
| "packed_level E (Suc m) ts \<longleftrightarrow>
     successively (node_full E) (map kids ts) \<and> packed_level E m (map snd (concat (map kids ts)))"

text \<open>A packed tree has no more levels than it needs: its root is a leaf or has two children.\<close>

definition packed_tree :: "env \<Rightarrow> nat \<Rightarrow> btree \<Rightarrow> bool" where
  "packed_tree E m t \<longleftrightarrow> packed_level E m [t] \<and> (0 < m \<longrightarrow> 2 \<le> length (kids t))"

lemma kids_branches [simp]: "map (kids \<circ> snd) (branches tbl k gs) = gs"
  by (induction gs arbitrary: k) simp_all

lemma packed_level_leaves:
  "packed_level E m ts \<Longrightarrow> \<forall>t \<in> set ts. \<exists>l h. loose E m l h t \<Longrightarrow>
    \<exists>gss. successively (leaf_full E) gss \<and> concat gss = concat (map rows ts) \<and> length ts \<le> length gss"
proof (induction m arbitrary: ts)
  case 0
  then show ?case by (intro exI [of _ "map rows ts"]) simp
next
  case (Suc m)
  let ?ts = "map snd (concat (map kids ts))"
  have kids: "\<forall>t \<in> set ts. \<exists>i h. t = Branch i (kids t) \<and> kids t \<noteq> [] \<and> chain (loose E m) h (kids t)"
    using Suc.prems(2) by fastforce
  have "\<exists>l h'. loose E m l h' (snd x)" if "chain (loose E m) h xs" "x \<in> set xs" for h xs x
    using that by (induction xs) auto
  then have "\<forall>t \<in> set ?ts. \<exists>l h. loose E m l h t" using kids by fastforce
  then obtain gss where gss: "successively (leaf_full E) gss" "concat gss = concat (map rows ?ts)" "length ?ts \<le> length gss"
    using Suc.IH [of ?ts] Suc.prems(1) by auto
  have "concat (map rows ?ts) = concat (map rows ts) \<and> length ts \<le> length ?ts"
    using kids
  proof (induction ts)
    case (Cons t ts)
    obtain i where t: "t = Branch i (kids t)" "kids t \<noteq> []" using Cons.prems by auto
    have "rows t = concat (map (\<lambda>x. rows (snd x)) (kids t))" by (subst t(1)) simp
    moreover have "1 \<le> length (kids t)" using t(2) by (simp add: Suc_le_eq)
    ultimately show ?case using Cons by (simp add: comp_def)
  qed simp
  then show ?case using gss by (intro exI [of _ gss]) auto
qed

text \<open>Rows that fit a leaf are packed into one.\<close>

lemma small_packed:
  assumes "loose E m None None t" and "packed_tree E m t" and "rows_size E (rows t) \<le> LEAF_USABLE"
  shows "\<exists>i. t = Tip i (rows t)"
proof (cases m)
  case 0
  then show ?thesis using assms(1) by auto
next
  case (Suc k)
  then obtain i xs where t: "t = Branch i xs" "chain (loose E k) None xs" using assms(1) by auto
  have level: "packed_level E k (map snd xs)" "2 \<le> length xs" using assms(2) Suc t(1) by (simp_all add: packed_tree_def)
  have "\<exists>l h'. loose E k l h' (snd x)" if "chain (loose E k) h ys" "x \<in> set ys" for h ys x
    using that by (induction ys) auto
  then have "\<forall>u \<in> set (map snd xs). \<exists>l h. loose E k l h u" using t(2) by fastforce
  from packed_level_leaves [OF level(1) this] obtain gss where gss: "successively (leaf_full E) gss"
      "concat gss = rows t" "length xs \<le> length gss"
    using t(1) by (auto simp: comp_def)
  then obtain g g' rest where g: "gss = g # g' # rest" using level(2) by (cases gss; cases "tl gss") auto
  then have "LEAF_USABLE < rows_size E (g @ [hd g'])" "g' \<noteq> []" using gss(1) by (simp_all add: leaf_full_def)
  then show ?thesis using assms(3) unfolding gss(2) [symmetric] g by (cases g') simp_all
qed

definition built ::
  "env \<Rightarrow> table \<Rightarrow> page list \<Rightarrow> row list \<Rightarrow> nat \<Rightarrow> nat \<Rightarrow> items \<Rightarrow> page list \<Rightarrow> bool" where
  "built E tbl leaves rl n m xs internals \<longleftrightarrow>
     xs \<noteq> [] \<and> fst (hd xs) = None \<and> chain (loose E m) None xs \<and> (\<forall>x \<in> set (tl xs). sep_ok E x) \<and>
     map pg_id (leaves @ internals) = map (nth_page tbl) [1..<n] \<and> (\<forall>p \<in> set (leaves @ internals). storable E p) \<and>
     (\<forall>x \<in> set xs. rep (page_map (leaves @ internals)) (snd x)) \<and> packed_level E m (map snd xs) \<and>
     (0 < m \<and> length xs = 1 \<longrightarrow> 2 \<le> length (kids (snd (hd xs)))) \<and> item_leaf_ids xs = map pg_id leaves \<and> item_rows xs = rl \<and>
     mset (item_ids xs) = mset (map (nth_page tbl) [1..<n]) \<and> 1 \<le> n \<and> n + 2 * length xs \<le> 2 ^ 32"

lemma built_step:
  assumes "built E tbl leaves rl n m xs internals" and "1 < length xs"
  shows "\<exists>gs. build_internal_level E tbl (keyed d xs) (word_of_nat n) internals =
      Ok (keyed d (branches tbl n gs), word_of_nat (n + length gs), internals @ nodes tbl n gs) \<and>
    length gs < length xs \<and> built E tbl leaves rl (n + length gs) (Suc m) (branches tbl n gs) (internals @ nodes tbl n gs)"
proof -
  obtain x xs' where xs: "xs = x # xs'" using assms(2) by (cases xs) auto
  have b: "chain (loose E m) None xs" "\<forall>x \<in> set (tl xs). sep_ok E x" "fst (hd xs) = None"
      "map pg_id (leaves @ internals) = map (nth_page tbl) [1..<n]" "\<forall>p \<in> set (leaves @ internals). storable E p"
      "\<forall>x \<in> set xs. rep (page_map (leaves @ internals)) (snd x)" "item_leaf_ids xs = map pg_id leaves" "item_rows xs = rl"
      "mset (item_ids xs) = mset (map (nth_page tbl) [1..<n])" "1 \<le> n" "n + 2 * length xs \<le> 2 ^ 32"
      "packed_level E m (map snd xs)"
    using assms(1) unfolding built_def by simp_all
  obtain gs where gs: "build_internal_level E tbl (keyed d xs) (word_of_nat n) internals =
      Ok (keyed d (branches tbl n gs), word_of_nat (n + length gs), internals @ nodes tbl n gs)" "grouped E gs xs"
    using build_level_groups [of "loose E m" None x xs' E n tbl d internals] b(1,2,11) xs by auto
  have g: "concat gs = xs" "gs \<noteq> []" "\<forall>g \<in> set gs. g \<noteq> []" "\<forall>g \<in> set gs. node_ok E g" "2 * length gs \<le> length xs + 1"
      "successively (node_full E) gs"
    using gs(2) by (auto simp: grouped_def)
  let ?new = "nodes tbl n gs" and ?n = "n + length gs"
  have n: "?n + 2 * length gs \<le> 2 ^ 32" "length gs < length xs" using g(5) assms(2) b(11) by linarith+
  have ids: "map pg_id (leaves @ internals @ ?new) = map (nth_page tbl) [1..<?n]"
    using b(4) nodes_ids [of tbl n gs] upt_add_eq_append [OF b(10), of "length gs"] by simp
  have dist: "distinct (map pg_id (leaves @ internals @ ?new))" unfolding ids by (rule distinct_pages) (use n in simp)
  note new_map = page_map_Some [OF dist]
  have old_map: "page_map (leaves @ internals) i = Some p \<longleftrightarrow> p \<in> set (leaves @ internals) \<and> pg_id p = i" for i p
    by (rule page_map_Some) (use dist in auto)
  have rep_old: "rep (page_map (leaves @ internals @ ?new)) (snd x)" if x: "x \<in> set xs" for x
  proof (rule rep_agree)
    show "rep (page_map (leaves @ internals)) (snd x)" using b(6) x by blast
    fix j assume "j \<in> set (pids (snd x))"
    then have "j \<in> set_mset (mset (item_ids xs))" using x by auto
    then have "j \<in> set (map pg_id (leaves @ internals))" unfolding b(9) b(4) by simp
    then obtain p where "p \<in> set (leaves @ internals)" "pg_id p = j" by auto
    then show "page_map (leaves @ internals @ ?new) j = page_map (leaves @ internals) j"
      using old_map [of j p] new_map [of j p] by auto
  qed
  have rep_new: "rep (page_map (leaves @ internals @ ?new)) (snd y)" if y: "y \<in> set (branches tbl n gs)" for y
  proof -
    obtain g1 i where g1: "g1 \<in> set gs" "y = (fst (hd g1), Branch i g1)" "empty_page i (branch_body g1) \<in> set ?new"
      using branches_nodes [OF y] by blast
    have "page_map (leaves @ internals @ ?new) i = Some (empty_page i (branch_body g1))"
      using new_map [of i] g1(3) by (auto simp: empty_page_def)
    moreover have "set g1 \<subseteq> set xs" using g(1) g1(1) by auto
    then have "\<forall>x \<in> set g1. rep (page_map (leaves @ internals @ ?new)) (snd x)" using rep_old by blast
    ultimately show ?thesis by (simp add: g1(2) empty_page_def)
  qed
  have "storable E p" if p: "p \<in> set ?new" for p
    using p g(3,4)
  proof (induction gs arbitrary: n)
    case (Cons h hs)
    then show ?case using node_storable [of h E "nth_page tbl n"] by auto
  qed simp
  moreover have "mset (item_ids (branches tbl n gs)) = mset (map (nth_page tbl) [1..<?n])"
    unfolding branches_ids g(1) b(9) using upt_add_eq_append [OF b(10), of "length gs"] by simp
  moreover have "branches tbl n gs \<noteq> [] \<and> fst (hd (branches tbl n gs)) = None"
    using g(1-3) b(3) xs by (cases gs; cases "hd gs") auto
  moreover have "chain (loose E (Suc m)) None (branches tbl n gs)" by (rule chain_branches) (use b(1) g in simp_all)
  moreover have "\<forall>x \<in> set (tl (branches tbl n gs)). sep_ok E x" using branches_seps [OF g(3)] b(2) g(1) by blast
  moreover have "packed_level E (Suc m) (map snd (branches tbl n gs))" using b(12) g(1,6) by simp
  moreover have "2 \<le> length (kids (snd (hd (branches tbl n gs))))" if one: "length (branches tbl n gs) = 1"
  proof -
    obtain g1 where "gs = [g1]" using one by (cases gs) auto
    then show ?thesis using g(1) assms(2) by simp
  qed
  ultimately have "built E tbl leaves rl ?n (Suc m) (branches tbl n gs) (internals @ ?new)"
    unfolding built_def using ids rep_new b(5,7,8,10) n branches_leaves [of tbl n gs] g(1) by auto
  then show ?thesis using gs(1) n(2) by blast
qed

section \<open>The lowest level\<close>

text \<open>Nothing bounds the first page from below.\<close>

definition unbound :: "items \<Rightarrow> items" where
  "unbound xs = (case xs of [] \<Rightarrow> [] | x # xs' \<Rightarrow> (None, snd x) # xs')"

lemma unbound_simps [simp]: "unbound (x # xs) = (None, snd x) # xs"
  by (simp add: unbound_def)

lemma chain_tips:
  "rows_ok E (concat rss) \<Longrightarrow> \<forall>g \<in> set rss. g \<noteq> [] \<Longrightarrow> chain (loose E 0) None (tips tbl k rss)"
proof (induction rss arbitrary: k)
  case (Cons g rss)
  have ok: "rows_ok E g" "rows_ok E (concat rss)" "\<forall>a \<in> set g. \<forall>b \<in> set (concat rss). the_key a < the_key b" "g \<noteq> []"
    using Cons.prems by (simp_all add: rows_ok_append)
  have first: "the_key (hd g) \<le> the_key r" if "r \<in> set g" for r
    using that ok(1,4) by (cases g) (auto simp: rows_ok_def less_imp_le)
  show ?case
  proof (cases rss)
    case Nil
    then show ?thesis using ok(1) first by simp
  next
    case (Cons h hs)
    have "hd h \<in> set (concat rss)" using Cons Cons.prems(2) by (cases h) auto
    then have "\<forall>a \<in> set g. the_key a < the_key (hd h)" using ok(3) by blast
    then show ?thesis using Cons.IH [of "Suc k"] ok(1,2,4) first Cons.prems(2) Cons by auto
  qed
qed simp

lemma tips_rep:
  "\<forall>p \<in> set (linked tbl k pv rss). v (pg_id p) = Some p \<Longrightarrow>
    links v pv (map (nth_page tbl) [k..<k + length rss]) None \<and> (\<forall>x \<in> set (tips tbl k rss). rep v (snd x))"
proof (induction rss arbitrary: k pv)
  case (Cons g rss)
  then have "v (nth_page tbl k) =
      Some (empty_page (nth_page tbl k) (Leaf g (if rss = [] then None else Some (nth_page tbl (Suc k))) pv))"
    by (simp add: empty_page_def)
  then show ?case using Cons.IH [of "Suc k" "Some (nth_page tbl k)"] Cons.prems
    by (cases rss) (auto simp: upt_conv_Cons empty_page_def simp del: upt_Suc)
qed simp

lemma tips_ids:
  "item_ids (tips tbl k rss) = map (nth_page tbl) [k..<k + length rss]"
  "item_leaf_ids (tips tbl k rss) = map (nth_page tbl) [k..<k + length rss]" "item_rows (tips tbl k rss) = concat rss"
  by (induction rss arbitrary: k) (simp_all add: upt_conv_Cons del: upt_Suc)

lemma tips_seps:
  "\<forall>g \<in> set rss. g \<noteq> [] \<and> (\<forall>r \<in> set g. row_fits E r \<and> row_wf r) \<Longrightarrow> x \<in> set (tips tbl k rss) \<Longrightarrow> sep_ok E x"
proof (induction rss arbitrary: k)
  case (Cons g rss)
  have "hd g \<in> set g" using Cons.prems(1) by simp
  then have "key_fits E (the_key (hd g)) \<and> key_wf (the_key (hd g))" using Cons.prems(1) row_key_ok [of E "hd g"] by simp
  then show ?case using Cons by (auto simp: sep_ok_def)
qed simp

lemma linked_storable:
  assumes "\<forall>g \<in> set rss. rows_size E g \<le> LEAF_USABLE \<and> rows_ok E g \<and> (\<forall>r \<in> set g. row_wf r)"
    and "p \<in> set (linked tbl k pv rss)"
  shows "storable E p"
  using assms
proof (induction rss arbitrary: k pv)
  case (Cons g rss)
  let ?p = "empty_page (nth_page tbl k) (Leaf g (if rss = [] then None else Some (nth_page tbl (Suc k))) pv)"
  have "storable E ?p"
    using Cons.prems(1) leaf_page_inv by (subst storable_leaf) (auto simp: empty_page_def page_lsn_wf_def)
  then show ?case using Cons by auto
qed simp

lemma packed_length: "\<forall>g \<in> set rss. g \<noteq> [] \<Longrightarrow> length rss \<le> length (concat rss)"
proof (induction rss)
  case (Cons g rss)
  then show ?case by (cases g) auto
qed simp

lemma rows_ok_concat: "rows_ok E (concat rss) \<Longrightarrow> g \<in> set rss \<Longrightarrow> rows_ok E g"
  by (induction rss) (auto simp: rows_ok_append)

lemma built_leaves:
  assumes "packed E rss rl" and "rows_ok E rl" and "rl \<noteq> []" and "\<forall>r \<in> set rl. row_wf r" and "1 + 3 * length rl \<le> 2 ^ 32"
  shows "built E tbl (linked tbl 1 None rss) rl (1 + length rss) 0 (unbound (tips tbl 1 rss)) []"
    and "links (page_map (linked tbl 1 None rss)) None (map pg_id (linked tbl 1 None rss)) None"
    and "first_keys (linked tbl 1 None rss) = Ok (keyed (the_key (hd rl)) (unbound (tips tbl 1 rss)))"
proof -
  have p: "concat rss = rl" "rss \<noteq> []" "\<forall>g \<in> set rss. g \<noteq> []" "\<forall>g \<in> set rss. rows_size E g \<le> LEAF_USABLE"
    using assms(1,3) by (auto simp: packed_def)
  have full: "successively (leaf_full E) rss" using assms(1) by (simp add: packed_def)
  obtain g gs where g: "rss = g # gs" using p(2) by (cases rss) auto
  have ok: "rows_ok E h" "\<forall>r \<in> set h. row_fits E r \<and> row_wf r" if "h \<in> set rss" for h
    using rows_ok_concat [of E rss h] that assms(2,4) p(1) by (auto simp: rows_ok_def)
  have len: "length rss \<le> length rl" using packed_length [OF p(3)] p(1) by simp
  have ids: "map pg_id (linked tbl 1 None rss) = map (nth_page tbl) [1..<1 + length rss]" by (rule linked_ids)
  have dist: "distinct (map pg_id (linked tbl 1 None rss))"
    unfolding ids by (rule distinct_pages) (use len assms(5) in simp)
  have pages: "links (page_map (linked tbl 1 None rss)) None (map (nth_page tbl) [1..<1 + length rss]) None \<and>
      (\<forall>x \<in> set (tips tbl 1 rss). rep (page_map (linked tbl 1 None rss)) (snd x))"
    by (rule tips_rep) (use page_map_Some [OF dist] in blast)
  then show "links (page_map (linked tbl 1 None rss)) None (map pg_id (linked tbl 1 None rss)) None" unfolding ids by blast
  have "hd g = hd rl" using p(1,3) g by auto
  then show "first_keys (linked tbl 1 None rss) = Ok (keyed (the_key (hd rl)) (unbound (tips tbl 1 rss)))"
    using first_keys_tips [of rss E tbl 1 None "the_key (hd rl)"] ok(1) p(3) by (simp add: g low_key_def)
  have ch: "chain (loose E 0) None (tips tbl 1 rss)" by (rule chain_tips) (use assms(2) p in simp_all)
  have "chain (loose E 0) None (unbound (tips tbl 1 rss))"
    using ch by (auto simp: g within_def)
  moreover have "\<forall>x \<in> set (tl (unbound (tips tbl 1 rss))). sep_ok E x"
    using tips_seps [of rss E _ tbl 1] ok(2) p(3) by (simp add: g)
  moreover have "\<forall>q \<in> set (linked tbl 1 None rss). storable E q"
    using linked_storable [of rss E _ tbl 1 None] ok p(4) by blast
  moreover have "\<forall>x \<in> set (unbound (tips tbl 1 rss)). rep (page_map (linked tbl 1 None rss)) (snd x)"
    using pages by (simp add: g)
  moreover have "item_ids (unbound (tips tbl 1 rss)) = item_ids (tips tbl 1 rss)"
      "item_leaf_ids (unbound (tips tbl 1 rss)) = item_leaf_ids (tips tbl 1 rss)"
      "item_rows (unbound (tips tbl 1 rss)) = item_rows (tips tbl 1 rss)"
      "length (unbound (tips tbl 1 rss)) = length rss"
  proof -
    have "length (tips tbl k rss) = length rss" for k by (induction rss arbitrary: k) simp_all
    then show "length (unbound (tips tbl 1 rss)) = length rss" by (simp add: g)
  qed (simp_all add: g)
  moreover have "packed_level E 0 (map snd (unbound (tips tbl 1 rss)))"
  proof -
    have "map (rows \<circ> snd) (tips tbl k rss) = rss" for k by (induction rss arbitrary: k) simp_all
    moreover have "map (rows \<circ> snd) (unbound (tips tbl 1 rss)) = map (rows \<circ> snd) (tips tbl 1 rss)" by (simp add: g)
    ultimately show ?thesis using full by simp
  qed
  ultimately show "built E tbl (linked tbl 1 None rss) rl (1 + length rss) 0 (unbound (tips tbl 1 rss)) []"
    unfolding built_def tips_ids ids using len assms(5) p(1) tips_ids [of tbl 1 rss] ids by (simp add: g del: upt_Suc)
qed

section \<open>The whole tree\<close>

lemma built_tree:
  assumes "built E tbl leaves rl n m [x] internals" and "links (page_map leaves) None (map pg_id leaves) None"
    and "distinct (map pg_id pages)" and "set (leaves @ internals) \<subseteq> set pages"
  shows "rep (page_map pages) (snd x) \<and> loose E m None None (snd x) \<and> links (page_map pages) None (leaf_ids (snd x)) None \<and>
    distinct (pids (snd x)) \<and> set (pids (snd x)) = nth_page tbl ` {1..<n} \<and> rows (snd x) = rl \<and> packed_tree E m (snd x)"
proof -
  have full: "packed_tree E m (snd x)" using assms(1) unfolding built_def packed_tree_def by simp
  have b: "fst x = None" "loose E m (fst x) None (snd x)" "map pg_id (leaves @ internals) = map (nth_page tbl) [1..<n]"
      "rep (page_map (leaves @ internals)) (snd x)" "leaf_ids (snd x) = map pg_id leaves" "rows (snd x) = rl"
      "mset (pids (snd x)) = mset (map (nth_page tbl) [1..<n])" "n \<le> 2 ^ 32"
    using assms(1) unfolding built_def by auto
  have dist: "distinct (map pg_id (leaves @ internals))" unfolding b(3) using b(8) by (rule distinct_pages)
  have sub: "page_map pages (pg_id p) = Some p" if "p \<in> set (leaves @ internals)" for p
    using that assms(3,4) page_map_Some by blast
  have ids: "set (pids (snd x)) = nth_page tbl ` {1..<n}"
    using arg_cong [OF b(7), of set_mset] by simp
  have "rep (page_map pages) (snd x)"
  proof (rule rep_agree [OF b(4)])
    fix j assume "j \<in> set (pids (snd x))"
    then have "j \<in> set (map pg_id (leaves @ internals))" unfolding b(3) ids by auto
    then obtain p where p: "p \<in> set (leaves @ internals)" "pg_id p = j" by auto
    then have "page_map (leaves @ internals) j = Some p" using page_map_Some [OF dist] by blast
    then show "page_map pages j = page_map (leaves @ internals) j" using sub [OF p(1)] p(2) by simp
  qed
  moreover have "links (page_map pages) None (leaf_ids (snd x)) None"
    unfolding b(5)
  proof (rule links_agree [OF assms(2)])
    fix j assume "j \<in> set (map pg_id leaves)"
    then obtain p where p: "p \<in> set leaves" "pg_id p = j" by auto
    then have "page_map leaves j = Some p" using page_map_Some [of leaves] dist by auto
    then show "page_map pages j = page_map leaves j" using sub [of p] p by simp
  qed
  moreover have "distinct (pids (snd x))"
    using distinct_pages [OF b(8), of tbl 1] b(7) by (metis mset_eq_imp_distinct_iff)
  ultimately show ?thesis using b(1,2,6) ids full by simp
qed

text \<open>A tree as \<open>tree_in\<close> has it, but for pages with a single child.\<close>

definition thin_in :: "env \<Rightarrow> pages \<Rightarrow> nat \<Rightarrow> btree \<Rightarrow> bool" where
  "thin_in E v n t \<longleftrightarrow> rep v t \<and> loose E n None None t \<and> links v None (leaf_ids t) None \<and> distinct (pids t)"

lemma small_thin: "thin_in E v m t \<Longrightarrow> packed_tree E m t \<Longrightarrow> rows_size E (rows t) \<le> LEAF_USABLE \<Longrightarrow> \<exists>i. t = Tip i (rows t)"
  using small_packed by (auto simp: thin_in_def)

lemma thin_full: "thin_in E v n t \<Longrightarrow> full t \<Longrightarrow> tree_in E v n t"
  by (simp add: thin_in_def tree_in_def loose_full)

text \<open>What the new file holds.\<close>

definition new_file :: "env \<Rightarrow> table \<Rightarrow> row list \<Rightarrow> page list \<Rightarrow> btree \<Rightarrow> nat \<Rightarrow> nat \<Rightarrow> bool" where
  "new_file E tbl rl pages t m n \<longleftrightarrow>
     (\<forall>p \<in> set pages. get_table_id (pg_id p) = get_table_id (meta_id tbl) \<and> storable E p) \<and> distinct (map pg_id pages) \<and>
     thin_in E (page_map pages) m t \<and> space tbl (page_map pages) (tid t) (word_of_nat n) [] (set (pids t)) \<and>
     rows t = rl \<and> packed_tree E m t \<and> n < 2 ^ 32"

lemma nth_page_table [simp]: "get_table_id (nth_page tbl k) = get_table_id (meta_id tbl)"
  by (simp add: nth_page_def table_page_id_def)

lemma built_file:
  assumes b: "built E tbl leaves rl n m [x] internals" and links: "links (page_map leaves) None (map pg_id leaves) None"
    and mp: "storable E mp" "pg_id mp = meta_id tbl" "body mp = Meta r c f (tbl_schema tbl) (tbl_name tbl)"
    and num: "get_page_num (meta_id tbl) = 0"
  defines "new_meta \<equiv> mp\<lparr>body := Meta (tid (snd x)) (word_of_nat n) None (tbl_schema tbl) (tbl_name tbl)\<rparr>"
  shows "new_file E tbl rl (new_meta # internals @ leaves) (snd x) m n"
proof -
  let ?pages = "new_meta # internals @ leaves"
  have ids: "map pg_id (leaves @ internals) = map (nth_page tbl) [1..<n]" and st: "\<forall>p \<in> set (leaves @ internals). storable E p"
    and n: "n + 2 \<le> 2 ^ 32" "1 \<le> n"
    using b unfolding built_def by simp_all
  have m0: "meta_id tbl = nth_page tbl 0" using num by (cases "meta_id tbl") (simp add: nth_page_def table_page_id_def)
  have "nth_page tbl 0 \<noteq> nth_page tbl k" if "1 \<le> k" "k < n" for k using nth_page_inj [of 0 k tbl] that n(1) by simp
  then have fresh: "meta_id tbl \<notin> nth_page tbl ` {1..<n}" unfolding m0 image_iff by (metis atLeastLessThan_iff)
  have set_ids: "pg_id ` set (leaves @ internals) = nth_page tbl ` {1..<n}"
    using arg_cong [OF ids, of set] by (simp add: image_Un)
  have id0: "pg_id new_meta = meta_id tbl" by (simp add: new_meta_def mp(2))
  have "distinct (map pg_id (leaves @ internals))" unfolding ids using n by (intro distinct_pages) simp
  then have dist: "distinct (map pg_id ?pages)" using id0 fresh set_ids by auto
  have tree: "rep (page_map ?pages) (snd x) \<and> loose E m None None (snd x) \<and> links (page_map ?pages) None (leaf_ids (snd x)) None \<and>
      distinct (pids (snd x)) \<and> set (pids (snd x)) = nth_page tbl ` {1..<n} \<and> rows (snd x) = rl \<and> packed_tree E m (snd x)"
    by (rule built_tree [OF b links dist]) auto
  have "tid (snd x) \<in> set (pids (snd x))" by (rule tid_in_ids)
  then have root: "get_table_id (tid (snd x)) = get_table_id (meta_id tbl)" using tree by auto
  have dom: "dom (page_map ?pages) = insert (meta_id tbl) (nth_page tbl ` {1..<n})"
  proof -
    have "dom (page_map ?pages) = pg_id ` set ?pages" using page_map_Some [OF dist] by (auto simp: dom_def)
    then show ?thesis using id0 set_ids by auto
  qed
  have "{0..<n} = insert 0 {1..<n}" using n(2) by auto
  then have "insert (meta_id tbl) (nth_page tbl ` {1..<n}) = nth_page tbl ` {0..<n}" by (simp add: m0)
  also have "\<dots> = {PageId (get_table_id (meta_id tbl)) k | k. k < word_of_nat n}"
  proof -
    have "j \<in> word_of_nat ` {0..<n} \<longleftrightarrow> j < word_of_nat n" for j :: "32 word"
    proof -
      have "unat (word_of_nat n :: 32 word) = n" using n(1) by (simp add: unat_of_nat)
      then have "j < word_of_nat n \<longleftrightarrow> unat j < n" by (simp add: word_less_nat_alt)
      moreover have "unat (word_of_nat i :: 32 word) = i" if "i < n" for i using that n(1) by (simp add: unat_of_nat)
      ultimately show ?thesis by (auto simp: image_iff intro: bexI [of _ "unat j"])
    qed
    then show ?thesis by (auto simp: nth_page_def table_page_id_def image_iff)
  qed
  finally have all: "dom (page_map ?pages) = {PageId (get_table_id (meta_id tbl)) k | k. k < word_of_nat n}" using dom by simp
  have "space tbl (page_map ?pages) (tid (snd x)) (word_of_nat n) [] (set (pids (snd x)))"
  proof (rule spaceI [OF _ _ _ num root all])
    show "page_map ?pages (meta_id tbl) = Some new_meta" using page_map_Some [OF dist] id0 by auto
  qed (use dom tree fresh in \<open>auto simp: new_meta_def\<close>)
  moreover have "storable E new_meta" unfolding new_meta_def by (rule storable_meta [OF mp(1,3)]) simp
  moreover have "get_table_id (pg_id p) = get_table_id (meta_id tbl)" if "p \<in> set ?pages" for p
    using that id0 set_ids by (metis (no_types, lifting) Un_iff image_eqI image_iff nth_page_table set_ConsD set_append)
  ultimately show ?thesis
    unfolding new_file_def thin_in_def using tree dist st n by auto
qed

lemma pack_leaves_packs:
  assumes "\<forall>r \<in> set rl. validate_row E (tbl_schema tbl) r = Ok (ValidatedRow r)" and "rows_ok E rl" and "rl \<noteq> []"
    and "1 + 3 * length rl \<le> 2 ^ 32" and "\<forall>r \<in> set rl. row_wf r"
  shows "\<exists>leaves n xs. pack_leaves E tbl rl = Ok (leaves, keyed (the_key (hd rl)) xs, word_of_nat n) \<and>
    built E tbl leaves rl n 0 xs [] \<and> links (page_map leaves) None (map pg_id leaves) None"
proof -
  have "length rl \<noteq> 0" using assms(3) by simp
  then have len: "2 + length rl < 2 ^ 32" using assms(4) by linarith
  obtain rss where rss: "fill_leaves E tbl rl [] (empty_page (nth_page tbl 1) (Leaf [] None None)) (word_of_nat (Suc 1)) =
      Ok ([] @ bare tbl 1 rss, word_of_nat (1 + length rss))" "packed E rss ([] @ rl)"
    using fill_leaves_packs [of rl E tbl "[]" 1 "[]"] assms(1,2) len by auto
  have p: "packed E rss rl" using rss(2) by simp
  note b = built_leaves [OF p assms(2,3,5,4), of tbl]
  have one: "new_leaf E tbl 1 = Ok (empty_page (nth_page tbl 1) (Leaf [] None None), word_of_nat (Suc 1))"
    using new_leaf_nat [of 1 E tbl] by simp
  have link: "link_leaves (map pg_id (bare tbl 1 rss)) 0 (bare tbl 1 rss) = Ok (linked tbl 1 None rss)"
    unfolding bare_ids using link_leaves_links [of 1 1 tbl rss] by simp
  have "pack_leaves E tbl rl =
      Ok (linked tbl 1 None rss, keyed (the_key (hd rl)) (unbound (tips tbl 1 rss)), word_of_nat (1 + length rss))"
    unfolding pack_leaves_def one rbind.simps(1) prod.case rss(1) append_Nil link b(3) ..
  then show ?thesis using b(1,2) by blast
qed

end
