(* ===== verification/Pool_Props.thy ===== *)
theory Pool_Props
  imports Pool_Correct
begin

text \<open>
  What the buffer pool of the program promises: a \<open>FileDisk\<close> under the clock policy, for the pages of one
  table. The laws are those of the locale \<open>buffer_pool\<close>, read off its interpretation.
\<close>

type_synonym pool = "(file_disk, clock_evictor) bpm"

definition db_inv :: "env \<Rightarrow> table_id \<Rightarrow> pool \<Rightarrow> bool" where
  "db_inv E t s \<longleftrightarrow> pool_inv E {pid. get_table_id pid = t} (file_stored E) clock_ok s"

definition db_view :: "env \<Rightarrow> table_id \<Rightarrow> pool \<Rightarrow> page_id \<Rightarrow> page option" where
  "db_view E t = pool_view E {pid. get_table_id pid = t} (file_stored E)"

definition db_knows :: "env \<Rightarrow> table_id \<Rightarrow> pool \<Rightarrow> page_id \<Rightarrow> bool" where
  "db_knows E t = pool_knows E {pid. get_table_id pid = t} (file_stored E)"

definition db_read :: "env \<Rightarrow> page_id \<Rightarrow> (pool, page_read_guard, bpm_error) call" where
  "db_read E = fetch_read E (file_disk_manager E) clock_find_victim"

definition db_write :: "env \<Rightarrow> page_id \<Rightarrow> (pool, page_write_guard, bpm_error) call" where
  "db_write E = fetch_write E (file_disk_manager E) clock_find_victim"

lemmas db_defs = db_inv_def db_view_def db_knows_def db_read_def db_write_def pool_inv_def

lemma fetch_write_frame:
  "db_write E pid s = (r, s') \<longleftrightarrow> (\<exists>r0. fetch_frame write_latched E (file_disk_manager E) clock_find_victim pid s
      = (r0, s') \<and> r = (case r0 of Ok i \<Rightarrow> Ok (PageWriteGuard i) | Err e \<Rightarrow> Err e | Panic \<Rightarrow> Panic))"
  by (auto simp: db_write_def fetch_write_def sbind_def sreturn_def split: prod.splits result.splits)

lemma fetch_read_frame:
  "db_read E pid s = (r, s') \<longleftrightarrow> (\<exists>r0. fetch_frame read_latched E (file_disk_manager E) clock_find_victim pid s
      = (r0, s') \<and> r = (case r0 of Ok i \<Rightarrow> Ok (PageReadGuard i) | Err e \<Rightarrow> Err e | Panic \<Rightarrow> Panic))"
  by (auto simp: db_read_def fetch_read_def sbind_def sreturn_def split: prod.splits result.splits)

lemma modes [simp]: "latch_mode read_latched" "latch_mode write_latched"
  by (simp_all add: latch_mode_def)

lemma write_latched_Some: "write_latched l = Some l' \<longleftrightarrow> l = Unlatched \<and> l' = WriteLatched"
  by (cases l) auto

lemma write_latched_None: "write_latched l = None \<longleftrightarrow> l \<noteq> Unlatched"
  by (cases l) auto

lemma read_latched_None: "read_latched l = None \<longleftrightarrow> l = WriteLatched"
  by (cases l) auto

fun guards_page :: "page_write_guard \<Rightarrow> ('d, 'e) bpm \<Rightarrow> page_id \<Rightarrow> bool" where
  "guards_page (PageWriteGuard i) s pid \<longleftrightarrow> page_table s pid = Some i \<and> hold s pid = WriteLatched"

lemma write_deref_view:
  assumes "guards_page g s pid" and "db_view E t s pid = Some p"
  shows "write_deref g s = Ok p"
  using assms by (cases g) (auto simp: db_view_def pool_view_def)

text \<open>A small pool, for the witnesses: an empty file, two frames, and in the first of them a leaf.\<close>

definition demo_disk :: file_disk where
  "demo_disk = \<lparr>path = [47, 100], named = [], orphan = None, faults = []\<rparr>"

lemma demo_disk_facts [simp]:
  "healthy demo_disk" "parent_dir demo_disk = Some [47]" "temp_path demo_disk \<noteq> path demo_disk" "temp_apart demo_disk"
  by (simp_all add: demo_disk_def healthy_def parent_dir_def temp_apart_def temp_path_def path_parent_def dir_part_def
      with_extension_def file_stem_def path_file_name_def)

definition demo_pool :: pool where
  "demo_pool = \<lparr>
     frames = [frame_default\<lparr>slot := Some (demo_leaf 1 [demo_row 4] None None), dirty := True\<rparr>, frame_default],
     page_table = (\<lambda>_. None)(demo_id 1 \<mapsto> 0), free_frames = [1], eviction_state = ClockEvictor 0,
     persistant_layer = demo_disk\<rparr>"

lemma demo_storable [simp]:
  "storable demo_env (demo_leaf 1 [demo_row n] None None)" "storable demo_env (demo_leaf m [] None None)"
  "storable demo_env (demo_free m nxt)"
  by (simp_all add: storable_def rows_ok_def)
    (simp_all add: page_wf_def page_lsn_wf_def row_wf_def demo_row_def demo_leaf_def demo_free_def
      empty_page_def layout_simps)

lemma demo_pool_facts [simp]:
  "db_inv demo_env (TableId 1) demo_pool" "hold demo_pool = (\<lambda>_. Unlatched)"
  "db_view demo_env (TableId 1) demo_pool (demo_id 1) = Some (demo_leaf 1 [demo_row 4] None None)"
  "db_knows demo_env (TableId 1) demo_pool (demo_id 1)"
  by (auto simp: db_defs pool_inv_but_def mapped_ok_def demo_pool_def frame_ok_def frame_default_def hold_def
      pool_view_def pool_knows_def demo_id_def less_Suc_eq fun_eq_iff ran_def)

section \<open>Fetching, writing, creating\<close>

text \<open>
  C14: \<^verbatim>\<open>fetch_write\<close> on a page nobody holds returns a guard on exactly that page, pinned in its frame and
  latched for writing. Whether it succeeds or fails, and however the disk fails in the read or in the
  write-back of an evicted page, every page of the pool stays what it was and no guard but the new one
  appears.
\<close>

theorem fetch_write_gives_page:
  assumes "varint_ok E" and "db_inv E t s" and "db_knows E t s pid" and "hold s pid = Unlatched"
    and "db_write E pid s = (r, s')" and "r \<noteq> Panic"
  shows "db_inv E t s' \<and> keeps (db_view E t s) (db_view E t s') \<and>
    (case r of
      Ok g \<Rightarrow> guards_page g s' pid \<and> hold s' = (hold s)(pid := WriteLatched) \<and>
        (\<exists>p. db_view E t s pid = Some p \<and> pg_id p = pid \<and> write_deref g s' = (Ok p :: (page, bpm_error) result))
    | Err e \<Rightarrow> hold s' = hold s
    | Panic \<Rightarrow> False)"
proof -
  obtain r0 where f: "fetch_frame write_latched E (file_disk_manager E) clock_find_victim pid s = (r0, s')"
    and r: "r = (case r0 of Ok i \<Rightarrow> Ok (PageWriteGuard i) | Err e \<Rightarrow> Err e | Panic \<Rightarrow> Panic)"
    using assms(5) by (auto simp: fetch_write_frame)
  have room: "has_room (hold s pid)" by (simp add: assms(4))
  note law = file_pool.fetch_law [OF assms(1) assms(2) [unfolded db_defs] assms(3) [unfolded db_defs] modes(2) room f]
  show ?thesis
  proof (cases r0)
    case (Ok i)
    then have g: "r = Ok (PageWriteGuard i)" "guards_page (PageWriteGuard i) s' pid"
        "hold s' = (hold s)(pid := WriteLatched)" "db_inv E t s'"
      using law r assms(4) by (auto simp: write_latched_Some db_defs)
    obtain p where p: "db_view E t s pid = Some p" using law Ok by (auto simp: db_defs)
    then have p': "db_view E t s' pid = Some p" using law Ok by (auto simp: db_defs keeps_def)
    have "pg_id p = pid"
      using pool_inv_mapped(5) [of E _ "file_stored E" clock_ok "{}" s' pid i] g(2,4) p'
      by (auto simp: db_defs pool_view_def)
    then show ?thesis using g law Ok p p' write_deref_view [OF g(2) p'] by (auto simp: db_defs)
  next
    case (Err e)
    then show ?thesis using law r by (auto simp: db_defs)
  next
    case Panic
    then show ?thesis using r assms(6) by simp
  qed
qed

lemma fetch_write_gives_page_witness:
  "\<exists>g s'. db_write demo_env (demo_id 1) demo_pool = (Ok g, s') \<and>
    write_deref g s' = (Ok (demo_leaf 1 [demo_row 4] None None) :: (page, bpm_error) result)"
proof -
  let ?r = "db_write demo_env (demo_id 1) demo_pool"
  have "\<exists>s'. ?r = (Ok (PageWriteGuard 0), s')"
    by (simp add: db_write_def fetch_write_def fetch_frame_def checkout_page_def sbind_def sreturn_def pin_frame_def
        frame_at_def take_latch_def demo_pool_def frame_update_def frame_default_def Let_def)
  then obtain s' where r: "?r = (Ok (PageWriteGuard 0), s')" by blast
  then show ?thesis
    using fetch_write_gives_page [of demo_env "TableId 1" demo_pool "demo_id 1" "Ok (PageWriteGuard 0)" s']
    by auto
qed

text \<open>
  C20: what is written through a write guard is what the page is from then on. Changing the page through the
  guard and dropping the guard always succeeds, replaces exactly that page, and leaves it free for the next
  caller.
\<close>

theorem write_guard_updates:
  assumes "db_inv E t s" and "guards_page g s pid" and "db_view E t s pid = Some p"
    and "op p = (x, p')" and "storable E p'" and "pg_id p' = pid"
  shows "\<exists>s1 s2. write_deref_mut g op s = (x, s1) \<and> drop_write E g s1 = (Ok (), s2) \<and>
    db_inv E t s1 \<and> db_view E t s1 = (db_view E t s)(pid \<mapsto> p') \<and> guards_page g s1 pid \<and>
    db_inv E t s2 \<and> db_view E t s2 = (db_view E t s)(pid \<mapsto> p') \<and> hold s2 = (hold s)(pid := Unlatched)"
proof -
  obtain i where g: "g = PageWriteGuard i" "page_table s pid = Some i" "hold s pid = WriteLatched"
    using assms(2) by (cases g) auto
  obtain s1 where s1: "write_deref_mut g op s = (x, s1)" "db_inv E t s1"
      "db_view E t s1 = (db_view E t s)(pid \<mapsto> p')" "hold s1 = hold s" "page_table s1 = page_table s"
    using file_pool.update_law [of E t s pid i p op x p'] assms g by (auto simp: db_defs)
  then obtain s2 where "drop_write E g s1 = (Ok (), s2)" "db_inv E t s2" "db_view E t s2 = db_view E t s1"
      "hold s2 = (hold s1)(pid := Unlatched)"
    using file_pool.drop_law [of E t s1 pid i] g by (auto simp: db_defs)
  then show ?thesis using s1 g by auto
qed

lemma write_guard_updates_witness:
  "\<exists>g s1 s2 s3. db_write demo_env (demo_id 1) demo_pool = (Ok g, s1) \<and>
    write_deref_mut g (\<lambda>p. (Ok () :: (unit, page_error) result, demo_leaf 1 [demo_row 9] None None)) s1 = (Ok (), s2) \<and>
    drop_write demo_env g s2 = (Ok (), s3) \<and>
    db_view demo_env (TableId 1) s3 (demo_id 1) = Some (demo_leaf 1 [demo_row 9] None None)"
proof -
  let ?s = "frame_update 0 (\<lambda>f. f\<lparr>referenced := True, pin_count := 1, latch := WriteLatched\<rparr>) demo_pool"
  have g: "db_write demo_env (demo_id 1) demo_pool = (Ok (PageWriteGuard 0), ?s)"
    by (simp add: db_write_def fetch_write_def fetch_frame_def checkout_page_def sbind_def sreturn_def pin_frame_def
        frame_at_def take_latch_def demo_pool_def frame_update_def frame_default_def Let_def)
  have "db_inv demo_env (TableId 1) ?s" "guards_page (PageWriteGuard 0) ?s (demo_id 1)"
    "db_view demo_env (TableId 1) ?s (demo_id 1) = Some (demo_leaf 1 [demo_row 4] None None)"
    by (auto simp: db_defs pool_inv_but_def mapped_ok_def demo_pool_def frame_ok_def frame_default_def hold_def
        pool_view_def demo_id_def less_Suc_eq ran_def frame_update_def)
  then show ?thesis
    using write_guard_updates [of demo_env "TableId 1" ?s "PageWriteGuard 0" "demo_id 1"
        "demo_leaf 1 [demo_row 4] None None"
        "\<lambda>p. (Ok () :: (unit, page_error) result, demo_leaf 1 [demo_row 9] None None)" "Ok ()"
        "demo_leaf 1 [demo_row 9] None None"] g
    by (auto simp del: write_deref_mut.simps drop_write.simps)
qed

text \<open>
  \<^verbatim>\<open>new_page\<close> adds a page to the pool. It never panics; it refuses a page that is cached already; on
  success the caller holds the only guard on the new page, every other page is kept, and on an error every page is.
\<close>

theorem new_page_adds_page:
  assumes "varint_ok E" and "db_inv E t s" and "get_table_id (pg_id page) = t" and "storable E page"
    and "new_page E (file_disk_manager E) clock_find_victim page s = (r, s')"
  shows "db_inv E t s' \<and>
    (case r of
      Ok g \<Rightarrow> guards_page g s' (pg_id page) \<and> hold s' = (hold s)(pg_id page := WriteLatched) \<and>
        keeps ((db_view E t s)(pg_id page \<mapsto> page)) (db_view E t s')
    | Err e \<Rightarrow> hold s' = hold s \<and> keeps (db_view E t s) (db_view E t s')
    | Panic \<Rightarrow> False)"
  using file_pool.new_page_law [OF assms(1) assms(2) [unfolded db_defs] _ assms(4,5)] assms(3)
  by (cases r) (auto simp: db_defs)

lemma new_page_adds_page_witness:
  "\<exists>g s'. new_page demo_env (file_disk_manager demo_env) clock_find_victim (demo_free 2 None) demo_pool = (Ok g, s') \<and>
    db_view demo_env (TableId 1) s' (demo_id 2) = Some (demo_free 2 None) \<and>
    db_view demo_env (TableId 1) s' (demo_id 1) = Some (demo_leaf 1 [demo_row 4] None None)"
proof -
  let ?r = "new_page demo_env (file_disk_manager demo_env) clock_find_victim (demo_free 2 None) demo_pool"
  have id: "pg_id (demo_free 2 None) = demo_id 2" by (simp add: demo_free_def empty_page_def)
  have "\<exists>s'. ?r = (Ok (PageWriteGuard 1), s')"
    by (simp add: new_page_def claim_frame_def fill_frame_def vec_last_def sbind_def sreturn_def pin_frame_def
        frame_at_def take_latch_def demo_pool_def frame_update_def frame_default_def Let_def id)
  then obtain s' where r: "?r = (Ok (PageWriteGuard 1), s')" by blast
  show ?thesis
    using new_page_adds_page [of demo_env "TableId 1" demo_pool "demo_free 2 None" "Ok (PageWriteGuard 1)" s'] r
    by (auto simp: id keeps_def)
qed

text \<open>
  C22: fetching makes progress. As long as no system call fails, a page of the pool can be fetched in either
  mode, unless it is held in a conflicting mode, or it is not cached and every frame is pinned, and then
  the error is \<^verbatim>\<open>NoFreeFrames\<close>.
\<close>

theorem fetch_makes_progress:
  assumes "varint_ok E" and "db_inv E t s" and "db_view E t s pid = Some p" and "get_table_id pid = t"
    and "healthy (persistant_layer s)" and "has_room (hold s pid)"
    and "page_table s pid \<noteq> None \<or> (\<exists>i < length (frames s). \<not> is_pinned (frames s ! i))"
  shows "(hold s pid \<noteq> WriteLatched \<longrightarrow> (\<exists>i s'. db_read E pid s = (Ok (PageReadGuard i), s') \<and>
      db_inv E t s' \<and> slot (frames s' ! i) = Some p)) \<and>
    (hold s pid = Unlatched \<longrightarrow> (\<exists>i s'. db_write E pid s = (Ok (PageWriteGuard i), s') \<and>
      db_inv E t s' \<and> slot (frames s' ! i) = Some p))"
proof -
  have knows: "db_knows E t s pid" using assms(3,4) by (simp add: db_defs pool_knows_def)
  have "\<exists>i s'. fetch_frame mode E (file_disk_manager E) clock_find_victim pid s = (Ok i, s') \<and>
      db_inv E t s' \<and> slot (frames s' ! i) = Some p"
    if mode: "latch_mode mode" "mode (hold s pid) \<noteq> None" for mode
  proof -
    obtain r s' where f: "fetch_frame mode E (file_disk_manager E) clock_find_victim pid s = (r, s')" by fastforce
    note law = file_pool.fetch_law [OF assms(1) assms(2) [unfolded db_defs] knows [unfolded db_defs] mode(1)
        assms(6) f]
    have "\<exists>i. r = Ok i" using law mode(2) assms(3,5,7) by (cases r) (auto simp: db_defs)
    then obtain i where i: "r = Ok i" by blast
    then have "db_view E t s' pid = Some p" "page_table s' pid = Some i" "db_inv E t s'"
      using law assms(3) by (auto simp: db_defs keeps_def)
    then show ?thesis using f i by (auto simp: db_defs pool_view_def)
  qed
  from this [of read_latched] this [of write_latched] show ?thesis
    by (fastforce simp: fetch_read_frame fetch_write_frame write_latched_None read_latched_None)
qed

lemma fetch_makes_progress_witness:
  "\<exists>i s'. db_read demo_env (demo_id 1) demo_pool = (Ok (PageReadGuard i), s')"
proof -
  have "healthy (persistant_layer demo_pool)" "page_table demo_pool (demo_id 1) \<noteq> None"
    "get_table_id (demo_id 1) = TableId 1"
    by (simp_all add: demo_pool_def demo_disk_def healthy_def demo_id_def)
  then show ?thesis using fetch_makes_progress [of demo_env "TableId 1" demo_pool "demo_id 1" "demo_leaf 1 [demo_row 4] None None"]
    by auto
qed

section \<open>Durability\<close>

text \<open>
  C15: when \<^verbatim>\<open>flush_all\<close> returns \<^verbatim>\<open>Ok\<close> and nobody holds a write guard, everything is in the file: a new pool of any
  size, opened on what the disk is then, stands for at least the same pages, each with the same contents. A flush that
  fails loses nothing.
\<close>

theorem flush_makes_durable:
  assumes "varint_ok E" and "db_inv E t s" and "\<forall>pid. hold s pid \<noteq> WriteLatched"
    and "flush_all E (file_disk_manager E) s = (r, s')"
  shows "r \<noteq> Panic \<and> db_inv E t s' \<and> keeps (db_view E t s) (db_view E t s') \<and>
    (healthy (persistant_layer s) \<longrightarrow> r = Ok ()) \<and>
    (r = Ok () \<and> hand < n \<longrightarrow>
      (\<exists>s2. bpm_new (persistant_layer s') (ClockEvictor hand) n = (Ok s2 :: (pool, bpm_error) result) \<and>
        db_inv E t s2 \<and> keeps (db_view E t s) (db_view E t s2)))"
proof -
  note law = file_pool.flush_law [OF assms(1) assms(2) [unfolded db_defs] assms(3,4)]
  have "\<exists>s2. bpm_new (persistant_layer s') (ClockEvictor hand) n = (Ok s2 :: (pool, bpm_error) result) \<and>
        db_inv E t s2 \<and> keeps (db_view E t s) (db_view E t s2)" if ok: "r = Ok ()" and hand: "hand < n"
  proof -
    obtain s2 where s2: "bpm_new (persistant_layer s') (ClockEvictor hand) n = (Ok s2 :: (pool, bpm_error) result)"
      "db_inv E t s2"
      "\<forall>pid p. db_view E t s2 pid = Some p \<longleftrightarrow> file_stored E (persistant_layer s') pid = Some p \<and>
        get_table_id pid = t \<and> pg_id p = pid \<and> storable E p"
      using file_pool.new_pool_law [of n "ClockEvictor hand" "persistant_layer s'" E t] hand by (auto simp: db_defs)
    have "db_view E t s2 pid = Some p" if v: "db_view E t s' pid = Some p" for pid p
    proof (cases "page_table s' pid")
      case None
      then show ?thesis using v s2(3) by (auto simp: db_defs pool_view_Some)
    next
      case (Some i)
      then show ?thesis
        using v s2(3) law ok pool_inv_mapped(1,5) [of E _ "file_stored E" clock_ok "{}" s' pid i]
        by (auto simp: db_defs pool_view_Some)
    qed
    then show ?thesis using s2(1,2) law by (auto simp: db_defs keeps_def)
  qed
  then show ?thesis using law by (auto simp: db_defs)
qed

lemma flush_makes_durable_witness:
  "\<exists>s' s2. flush_all demo_env (file_disk_manager demo_env) demo_pool = (Ok (), s') \<and>
    bpm_new (persistant_layer s') (ClockEvictor 0) 5 = (Ok s2 :: (pool, bpm_error) result) \<and>
    db_view demo_env (TableId 1) s2 (demo_id 1) = Some (demo_leaf 1 [demo_row 4] None None)"
proof -
  let ?r = "flush_all demo_env (file_disk_manager demo_env) demo_pool"
  have "healthy (persistant_layer demo_pool)" by (simp add: demo_pool_def demo_disk_def healthy_def)
  then have "fst ?r = Ok ()" and "\<exists>s2. bpm_new (persistant_layer (snd ?r)) (ClockEvictor 0) 5 =
      (Ok s2 :: (pool, bpm_error) result) \<and> db_inv demo_env (TableId 1) s2 \<and>
      keeps (db_view demo_env (TableId 1) demo_pool) (db_view demo_env (TableId 1) s2)"
    using flush_makes_durable [of demo_env "TableId 1" demo_pool "fst ?r" "snd ?r" 0 5] by simp_all
  then obtain s2 where "fst ?r = Ok ()"
      "bpm_new (persistant_layer (snd ?r)) (ClockEvictor 0) 5 = (Ok s2 :: (pool, bpm_error) result)"
      "keeps (db_view demo_env (TableId 1) demo_pool) (db_view demo_env (TableId 1) s2)"
    by blast
  then show ?thesis
    by (intro exI [of _ "snd ?r"] exI [of _ s2]) (auto simp: keeps_def intro: prod_eqI)
qed

text \<open>
  C25: \<^verbatim>\<open>swap_file\<close> of the pool, called when nobody holds a guard: on \<^verbatim>\<open>Ok\<close> the pool stands for exactly the new
  pages; on an error for the old ones, provided that the temporary file is not the database file itself. With a path
  that has a directory part it fails only if a system call does.
\<close>

theorem pool_swap_replaces_all:
  assumes "varint_ok E" and "db_inv E t s" and "\<forall>pid. hold s pid = Unlatched"
    and "\<forall>p \<in> set pages. get_table_id (pg_id p) = t \<and> storable E p" and "distinct (map pg_id pages)"
    and "bpm_swap_file E (file_disk_manager E) pages s = (r, s')"
  shows "(r = Ok () \<longrightarrow> db_inv E t s' \<and>
      (\<forall>pid p. db_view E t s' pid = Some p \<longleftrightarrow> p \<in> set pages \<and> pg_id p = pid)) \<and>
    (\<forall>e. r = Err e \<and> temp_path (persistant_layer s) \<noteq> path (persistant_layer s) \<longrightarrow>
      db_inv E t s' \<and> keeps (db_view E t s) (db_view E t s')) \<and>
    (healthy (persistant_layer s) \<and> parent_dir (persistant_layer s) \<noteq> Some [] \<longrightarrow> r = Ok ())"
proof -
  have ids: "\<forall>p \<in> set pages. pg_id p \<in> {pid. get_table_id pid = t} \<and> storable E p" using assms(4) by simp
  have nums: "distinct (map (get_page_num \<circ> pg_id) pages)" "\<forall>p \<in> set pages. storable E p"
    using distinct_page_nums [OF assms(4,5)] by blast+
  note named = named_pool.swap_pool_law [OF assms(1) assms(2) [unfolded db_defs] assms(3) ids assms(5,6)]
  have "dm_swap_file (file_disk_manager E) pages d \<noteq> (Err e, d')" if "well_named d" for d d' e
    using healthy_swap [OF assms(1) nums(2,1), of d "Err e" d'] that by (auto simp: file_disk_manager_def)
  then have "r = Ok ()" if "well_named (persistant_layer s)" using named that by (cases r) auto
  then show ?thesis
    using file_pool.swap_pool_law [OF assms(1) assms(2) [unfolded db_defs] assms(3) ids assms(5,6)]
    by (auto simp: db_defs temp_apart_def)
qed

lemma pool_swap_replaces_all_witness:
  "\<exists>s s'. bpm_new demo_disk (ClockEvictor 0) 2 = (Ok s :: (pool, bpm_error) result) \<and>
    bpm_swap_file demo_env (file_disk_manager demo_env) [demo_leaf 1 [demo_row 7] None None] s = (Ok (), s') \<and>
    db_view demo_env (TableId 1) s' (demo_id 1) = Some (demo_leaf 1 [demo_row 7] None None)"
proof -
  let ?D = "file_disk_manager demo_env" and ?pages = "[demo_leaf 1 [demo_row 7] None None]"
  obtain s where s: "bpm_new demo_disk (ClockEvictor 0) 2 = (Ok s :: (pool, bpm_error) result)"
      "db_inv demo_env (TableId 1) s" "\<forall>pid. hold s pid = Unlatched"
    using file_pool.new_pool_law [of 2 "ClockEvictor 0" demo_disk demo_env "TableId 1"] by (auto simp: db_defs)
  let ?r = "bpm_swap_file demo_env ?D ?pages s"
  have ids: "\<forall>p \<in> set ?pages. get_table_id (pg_id p) = TableId 1 \<and> storable demo_env p"
      "distinct (map (get_page_num \<circ> pg_id) ?pages)" "\<forall>p \<in> set ?pages. storable demo_env p"
    by (auto simp: demo_id_def)
  have h: "healthy demo_disk" "parent_dir demo_disk = Some [47]" by simp_all
  obtain d where d: "sys demo_disk = (Ok (), d)" "healthy d" "same_file demo_disk d"
    by (rule sys_healthy [OF h(1)])
  obtain r2 d2 where swap: "file_swap_file demo_env ?pages d = (r2, d2)" by fastforce
  have "parent_dir d = Some [47]" using same_file_dir [OF d(3)] h(2) by simp
  then have "r2 = Ok ()" using healthy_swap [OF _ ids(3,2) _ swap] d(2) by simp
  moreover have "s = \<lparr>frames = [frame_default, frame_default], page_table = \<lambda>_. None, free_frames = [0, 1],
      eviction_state = ClockEvictor 0, persistant_layer = demo_disk\<rparr>"
    using s(1) by (simp add: bpm_new_def numeral_2_eq_2 upt_rec)
  moreover from this have "flush_all demo_env ?D s = (Ok (), s\<lparr>persistant_layer := d\<rparr>)"
    using d(1) by (simp add: flush_all_def disk_call_def frame_at_def file_disk_manager_def file_sync_def
        frame_default_def upt_rec sbind_def sreturn_def)
  ultimately have "fst ?r = Ok ()"
    using swap by (simp add: bpm_swap_file_def disk_call_def file_disk_manager_def frame_at_def frame_default_def
        upt_rec is_pinned_def frame_update_def sbind_def sreturn_def)
  then have r: "?r = (Ok (), snd ?r)" by (simp add: prod_eq_iff)
  then have "db_view demo_env (TableId 1) (snd ?r) (demo_id 1) = Some (demo_leaf 1 [demo_row 7] None None)"
    using pool_swap_replaces_all [OF _ s(2,3) ids(1), of "Ok ()" "snd ?r"] by simp
  with r s(1) show ?thesis by blast
qed

end
