(* ===== verification/Tree_Props.thy ===== *)
theory Tree_Props
  imports BTree_Insert Pool_Props
begin

text \<open>
  What the tree of a table promises, on the pool of the program: a \<open>FileDisk\<close> under the clock policy. The
  theorems are the rules of the theories \<open>BTree_Search\<close>, \<open>BTree_Insert\<close> and \<open>Table_Space\<close>, read off the
  interpretation \<open>file_pool\<close>.
\<close>

section \<open>A table at rest\<close>

text \<open>
  No guard is out, the pages of the table are a tree \<open>t\<close> of height \<open>m\<close>, its meta page and a free list. \<open>h\<close> asks that
  the disk meets no more faults; \<open>n\<close> is the number of frames.
\<close>

definition table_state ::
  "env \<Rightarrow> bool \<Rightarrow> nat \<Rightarrow> table \<Rightarrow> btree \<Rightarrow> nat \<Rightarrow> 32 word \<Rightarrow> page_id list \<Rightarrow> pool \<Rightarrow> bool" where
  "table_state E h n tbl t m cnt fl s \<longleftrightarrow>
     (\<exists>v. tracks E {pid. get_table_id pid = get_table_id (meta_id tbl)} (file_stored E) clock_ok healthy h n v {#} s \<and>
       tree_in E v m t \<and> space tbl v (tid t) cnt fl (set (pids t)))"

text \<open>The same with one page handed out.\<close>

definition table_lent ::
  "env \<Rightarrow> bool \<Rightarrow> nat \<Rightarrow> table \<Rightarrow> btree \<Rightarrow> nat \<Rightarrow> 32 word \<Rightarrow> page_id list \<Rightarrow> page_id \<Rightarrow> page_write_guard \<Rightarrow> pool \<Rightarrow> bool" where
  "table_lent E h n tbl t m cnt fl x g s \<longleftrightarrow>
     (\<exists>v i. g = PageWriteGuard i \<and>
       tracks E {pid. get_table_id pid = get_table_id (meta_id tbl)} (file_stored E) clock_ok healthy h n v
         {#wguard x i#} s \<and>
       tree_in E v m t \<and> space tbl v (tid t) cnt fl (insert x (set (pids t))) \<and>
       x \<notin> set (pids t) \<and> v x = Some (empty_page x (Free None)))"

abbreviation fd :: "env \<Rightarrow> file_disk disk_manager" where
  "fd \<equiv> file_disk_manager"

lemma table_stateI:
  "tracks E {pid. get_table_id pid = get_table_id (meta_id tbl)} (file_stored E) clock_ok healthy h n v {#} s \<Longrightarrow>
    tree_in E v m t \<Longrightarrow> space tbl v (tid t) cnt fl (set (pids t)) \<Longrightarrow> table_state E h n tbl t m cnt fl s"
  unfolding table_state_def by blast

section \<open>A small table, for the witnesses\<close>

definition demo_table :: table where
  "demo_table = \<lparr>meta_id = demo_id 0, tbl_schema = demo_schema, tbl_name = [116]\<rparr>"

definition demo_rows :: "row list" where
  "demo_rows = map big_row [1, 2, 3, 4]"

definition demo_tree :: btree where
  "demo_tree = Tip (demo_id 1) demo_rows"

text \<open>A pool in whose frames such a table is, with any rows in its leaf.\<close>

definition leaf_pages :: "row list \<Rightarrow> pages" where
  "leaf_pages rs = (\<lambda>_. None)(demo_id 0 \<mapsto> demo_meta 2 None, demo_id 1 \<mapsto> demo_leaf 1 rs None None)"

definition leaf_pool :: "row list \<Rightarrow> pool" where
  "leaf_pool rs = \<lparr>
     frames = frame_default\<lparr>slot := Some (demo_meta 2 None), dirty := True\<rparr> #
       frame_default\<lparr>slot := Some (demo_leaf 1 rs None None), dirty := True\<rparr> # replicate 6 frame_default,
     page_table = (\<lambda>_. None)(demo_id 0 \<mapsto> 0, demo_id 1 \<mapsto> 1), free_frames = [2, 3, 4, 5, 6, 7],
     eviction_state = ClockEvictor 0, persistant_layer = demo_disk\<rparr>"

definition demo_tpool :: pool where
  "demo_tpool = leaf_pool demo_rows"

lemma utf8_valid_ascii: "c < 0x80 \<Longrightarrow> utf8_valid (replicate n c)"
  by (induction n) simp_all

lemma demo_row_wf: "row_wf (demo_row n)" "row_wf (big_row n)"
  by (simp_all add: row_wf_def demo_row_def big_row_def layout_simps utf8_valid_ascii)

lemma demo_schema_wf: "schema_wf demo_schema"
  by (simp add: schema_wf_def schema_valid_iff column_wf_def demo_schema_def layout_simps)

lemma demo_leaf_storable:
  assumes "\<And>r. r \<in> set rs \<Longrightarrow> row_wf r" and "sum_list (map (leaf_entry_size demo_env) rs) \<le> 4055"
    and "rows_ok demo_env rs"
  shows "storable demo_env (demo_leaf n rs nxt prv)"
  unfolding storable_def
proof (intro conjI)
  show "page_wf (demo_leaf n rs nxt prv)"
    using assms(1) by (simp add: page_wf_def page_lsn_wf_def demo_leaf_def empty_page_def)
qed (use assms(2,3) in \<open>simp_all\<close>)

lemma demo_meta_storable: "2 \<le> n \<Longrightarrow> storable demo_env (demo_meta n None)"
  unfolding storable_def
proof (intro conjI)
  show "page_wf (demo_meta n None)"
    by (simp add: page_wf_def page_lsn_wf_def demo_meta_def empty_page_def demo_schema_wf)
qed simp_all

lemma demo_rows_ok: "rows_ok demo_env demo_rows" "sum_list (map (leaf_entry_size demo_env) demo_rows) \<le> 4055"
  by (simp_all add: demo_rows_def rows_ok_def)

lemma demo_pages_storable:
  "storable demo_env (demo_meta 2 None)" "storable demo_env (demo_leaf 1 demo_rows None None)"
  by (rule demo_meta_storable, simp)
    (rule demo_leaf_storable [OF _ demo_rows_ok(2,1)], auto simp: demo_rows_def demo_row_wf)

lemma word_less_2: "k < 2 \<longleftrightarrow> k = 0 \<or> k = (1 :: 32 word)"
proof -
  have "k < 2 \<longleftrightarrow> unat k = 0 \<or> unat k = 1"
    by (simp add: word_less_nat_alt less_2_cases_iff)
  then show ?thesis by (simp add: word_unat_eq_iff)
qed

lemma leaf_pages_dom: "dom (leaf_pages rs) = {demo_id 0, demo_id 1}"
  by (auto simp: leaf_pages_def)

lemma leaf_pages_view: "pool_view demo_env {pid. get_table_id pid = TableId 1} (file_stored demo_env) (leaf_pool rs) pid
    = (if pid = demo_id 0 \<or> pid = demo_id 1 then (leaf_pages rs) pid
       else pool_view demo_env {pid. get_table_id pid = TableId 1} (file_stored demo_env) (leaf_pool rs) pid)"
  by (simp add: pool_view_def leaf_pool_def leaf_pages_def)

lemma leaf_pool_inv:
  assumes "storable demo_env (demo_leaf 1 rs None None)"
  shows "pool_inv_but demo_env {pid. get_table_id pid = TableId 1} (file_stored demo_env) clock_ok {} (leaf_pool rs)"
  unfolding pool_inv_but_def
proof (intro conjI)
  have ran: "ran (page_table (leaf_pool rs)) = {0, 1}"
    by (auto simp: leaf_pool_def ran_map_upd)
  show "\<forall>pid i. page_table (leaf_pool rs) pid = Some i \<longrightarrow>
      mapped_ok demo_env {pid. get_table_id pid = TableId 1} (file_stored demo_env (persistant_layer (leaf_pool rs)))
        (frames (leaf_pool rs)) pid i"
    using assms demo_pages_storable(1) by (simp add: leaf_pool_def mapped_ok_def)
  show "\<forall>i<length (frames (leaf_pool rs)). i \<in> {} \<union> set (free_frames (leaf_pool rs)) \<union> ran (page_table (leaf_pool rs))"
    unfolding ran by (auto simp: leaf_pool_def less_Suc_eq)
  show "\<forall>i \<in> {} \<union> set (free_frames (leaf_pool rs)). i < length (frames (leaf_pool rs)) \<and>
      latch (frames (leaf_pool rs) ! i) = Unlatched \<and> i \<notin> ran (page_table (leaf_pool rs))"
    unfolding ran by (auto simp: leaf_pool_def frame_default_def)
qed (auto simp: leaf_pool_def frame_default_def frame_ok_def list_all_iff)

lemma leaf_table_state:
  assumes "storable demo_env (demo_leaf 1 rs None None)"
  shows "table_state demo_env True 8 demo_table (Tip (demo_id 1) rs) 0 2 [] (leaf_pool rs)"
proof (rule table_stateI)
  have hold: "hold (leaf_pool rs) = (\<lambda>_. Unlatched)"
    by (auto simp: hold_def leaf_pool_def frame_default_def fun_eq_iff)
  have "keeps (leaf_pages rs) (pool_view demo_env {pid. get_table_id pid = TableId 1} (file_stored demo_env) (leaf_pool rs))"
    unfolding keeps_def
  proof (intro allI impI)
    fix pid p assume p: "(leaf_pages rs) pid = Some p"
    then have "pid = demo_id 0 \<or> pid = demo_id 1" using leaf_pages_dom by blast
    then show "pool_view demo_env {pid. get_table_id pid = TableId 1} (file_stored demo_env) (leaf_pool rs) pid = Some p"
      using p by (subst leaf_pages_view) simp
  qed
  moreover have "dom (page_table (leaf_pool rs)) \<subseteq> dom (leaf_pages rs)"
    unfolding leaf_pages_dom by (auto simp: leaf_pool_def)
  ultimately show "tracks demo_env {pid. get_table_id pid = get_table_id (meta_id demo_table)} (file_stored demo_env)
      clock_ok healthy True 8 (leaf_pages rs) {#} (leaf_pool rs)"
    using hold leaf_pool_inv [OF assms]
    by (simp add: tracks_def holders_def demo_table_def)
      (simp add: leaf_pool_def healthy_def demo_disk_def)
  show "tree_in demo_env (leaf_pages rs) 0 (Tip (demo_id 1) rs)"
    using storable_inv [OF assms] by (auto simp: tree_in_def leaf_pages_def)
  show "space demo_table (leaf_pages rs) (tid (Tip (demo_id 1) rs)) 2 [] (set (pids (Tip (demo_id 1) rs)))"
  proof (rule spaceI)
    show "dom (leaf_pages rs) = {PageId (get_table_id (meta_id demo_table)) k |k. k < 2}"
      unfolding leaf_pages_dom word_less_2 by (auto simp: demo_table_def demo_id_def)
  qed (auto simp: leaf_pages_def demo_table_def )
qed

lemma demo_table_state: "table_state demo_env True 8 demo_table demo_tree 0 2 [] demo_tpool"
  unfolding demo_tree_def demo_tpool_def by (rule leaf_table_state [OF demo_pages_storable(2)])

section \<open>Lookups\<close>

lemma wp_got:
  assumes "varint_ok E" and "table_state E h n tbl t m cnt fl s" and "h \<longrightarrow> 2 < n"
  shows "wp h (btree_get E (fd E) clock_find_victim tbl key s)
    (\<lambda>x s'. x = rows_map (rows t) key \<and> table_state E h n tbl t m cnt fl s')
    (\<lambda>e s'. \<not> h \<and> table_state E h n tbl t m cnt fl s')"
proof -
  obtain v where v: "tracks E {pid. get_table_id pid = get_table_id (meta_id tbl)} (file_stored E) clock_ok healthy h n v {#} s"
      "tree_in E v m t" "space tbl v (tid t) cnt fl (set (pids t))"
    using assms(2) unfolding table_state_def by blast
  show ?thesis
    by (rule file_pool.wp_btree_get [OF assms(1) v(1,3,2) assms(3)]) (use v(2,3) in \<open>auto intro: table_stateI\<close>)
qed

text \<open>
  C6: \<^verbatim>\<open>BTree::get\<close> terminates and returns exactly what the ordered map of the rows holds at the key, for every
  tree, whatever the pool has cached and evicts on the way. It changes no page, gives back every guard, and
  never fails unless a system call fails or the pool has less than three frames.
\<close>

theorem btree_get_correct:
  assumes "varint_ok E" and "table_state E h n tbl t m cnt fl s" and "h \<longrightarrow> 2 < n"
  shows "\<exists>r s'. btree_get E (fd E) clock_find_victim tbl key s = Some (r, s') \<and>
    (case r of
      Ok x \<Rightarrow> x = rows_map (rows t) key \<and> table_state E h n tbl t m cnt fl s'
    | Err e \<Rightarrow> \<not> h \<and> table_state E h n tbl t m cnt fl s'
    | Panic \<Rightarrow> \<not> h)"
  using wp_outcome [OF wp_got [OF assms]] .

lemma btree_get_correct_witness:
  "\<exists>s'. btree_get demo_env (fd demo_env) clock_find_victim demo_table (IntegerK 3) demo_tpool = Some (Ok (Some (big_row 3)), s')"
  using returns [OF btree_get_correct [OF demo_varint_ok demo_table_state, of "IntegerK 3"]]
  by (auto simp: demo_tree_def demo_rows_def)

text \<open>
  C7: \<^verbatim>\<open>BTree::get_range\<close> terminates and returns, in order of the keys, the rows of the table that lie within the
  bounds and satisfy the filter: it starts at the right leaf, follows the chain of leaves to the end of the
  range and misses or repeats none. It changes no page and gives back every guard.
\<close>

theorem get_range_correct:
  assumes "varint_ok E" and "table_state E h n tbl t m cnt fl s" and "h \<longrightarrow> 2 < n"
  shows "\<exists>r s'. get_range E (fd E) clock_find_victim tbl start stop f s = Some (r, s') \<and>
    (case r of
      Ok rs \<Rightarrow> rs = filter (in_range start stop f) (rows t) \<and> sorted_wrt (\<lambda>a b. the_key a < the_key b) rs \<and>
        table_state E h n tbl t m cnt fl s'
    | Err e \<Rightarrow> \<not> h \<and> table_state E h n tbl t m cnt fl s'
    | Panic \<Rightarrow> \<not> h)"
proof -
  obtain v where v: "tracks E {pid. get_table_id pid = get_table_id (meta_id tbl)} (file_stored E) clock_ok healthy h n v {#} s"
      "tree_in E v m t" "space tbl v (tid t) cnt fl (set (pids t))"
    using assms(2) unfolding table_state_def by blast
  have "sorted_wrt (\<lambda>a b. the_key a < the_key b) (filter (in_range start stop f) (rows t))"
    using v(2) wfk_rows_ok [of E m 2 None None t]
    by (auto simp: tree_in_def rows_ok_iff row_keys_def sorted_wrt_map intro: sorted_wrt_filter)
  then have "wp h (get_range E (fd E) clock_find_victim tbl start stop f s)
    (\<lambda>rs s'. rs = filter (in_range start stop f) (rows t) \<and> sorted_wrt (\<lambda>a b. the_key a < the_key b) rs \<and>
      table_state E h n tbl t m cnt fl s')
    (\<lambda>e s'. \<not> h \<and> table_state E h n tbl t m cnt fl s')"
    by (intro file_pool.wp_get_range [OF assms(1) v(1,3,2) assms(3)]) (use v(2,3) in \<open>auto intro: table_stateI\<close>)
  from wp_outcome [OF this] show ?thesis .
qed

lemma get_range_correct_witness:
  "\<exists>s'. get_range demo_env (fd demo_env) clock_find_victim demo_table (Excluded (IntegerK 1)) (Included (IntegerK 3))
    (\<lambda>_. True) demo_tpool = Some (Ok [big_row 2, big_row 3], s')"
proof -
  let ?P = "in_range (Excluded (IntegerK 1)) (Included (IntegerK 3)) (\<lambda>_. True)"
  have rs: "filter ?P (rows demo_tree) = [big_row 2, big_row 3]"
    by (simp add: demo_tree_def demo_rows_def in_range_def not_le)
  show ?thesis
    using returns [OF get_range_correct [OF demo_varint_ok demo_table_state, of "Excluded (IntegerK 1)"
        "Included (IntegerK 3)" "\<lambda>_. True"]] rs by auto
qed

section \<open>Insertion\<close>

lemma wp_inserted:
  assumes "varint_ok E" and "table_state E h n tbl t m cnt fl s" and "row_fits E r" and "row_wf r"
    and "h \<longrightarrow> m + 5 \<le> n" and "unat cnt + m + 2 < 2 ^ 32"
  shows "wp h (btree_insert E (fd E) clock_find_victim tbl (ValidatedRow r) s)
    (\<lambda>_ s'. the_key r \<notin> dom (rows_map (rows t)) \<and>
        (\<exists>t' m' cnt' fl'. table_state E h n tbl t' m' cnt' fl' s' \<and> unat cnt' \<le> unat cnt + m + 2 \<and>
          rows_map (rows t') = (rows_map (rows t))(the_key r \<mapsto> r) \<and> tree_keys t' \<subseteq> insert (the_key r) (tree_keys t)))
    (\<lambda>e s'. h \<longrightarrow> e = BTreePage DuplicateKey \<and> the_key r \<in> dom (rows_map (rows t)) \<and>
        table_state E h n tbl t m cnt fl s')"
proof -
  obtain v where v: "tracks E {pid. get_table_id pid = get_table_id (meta_id tbl)} (file_stored E) clock_ok healthy h n v {#} s"
      "tree_in E v m t" "space tbl v (tid t) cnt fl (set (pids t))"
    using assms(2) unfolding table_state_def by blast
  show ?thesis
    by (rule file_pool.wp_btree_insert [OF assms(1) _ v assms(3-6) subset_refl])
      (use v(2,3) in \<open>auto simp: file_pool.table_post_def intro: table_stateI\<close>, blast intro: table_stateI)
qed

text \<open>
  C3: \<^verbatim>\<open>BTree::insert\<close> terminates. When it returns \<^verbatim>\<open>Ok\<close>, the key was new, the table is again a tree with its
  pages accounted for, its map is the old one with the row added, and no key of the tree is new but the row's;
  whether the leaf had room, was split, or the split went up through full pages to a new root. When it returns an
  error without a system call having failed, the key was there, the error is \<^verbatim>\<open>DuplicateKey\<close> and nothing has
  changed. No guard is left out.
\<close>

theorem btree_insert_correct:
  assumes "varint_ok E" and "table_state E h n tbl t m cnt fl s" and "row_fits E r" and "row_wf r"
    and "h \<longrightarrow> m + 5 \<le> n" and "unat cnt + m + 2 < 2 ^ 32"
  shows "\<exists>out s'. btree_insert E (fd E) clock_find_victim tbl (ValidatedRow r) s = Some (out, s') \<and>
    (case out of
      Ok _ \<Rightarrow> the_key r \<notin> dom (rows_map (rows t)) \<and>
        (\<exists>t' m' cnt' fl'. table_state E h n tbl t' m' cnt' fl' s' \<and> unat cnt' \<le> unat cnt + m + 2 \<and>
          rows_map (rows t') = (rows_map (rows t))(the_key r \<mapsto> r) \<and> tree_keys t' \<subseteq> insert (the_key r) (tree_keys t))
    | Err e \<Rightarrow> h \<longrightarrow> e = BTreePage DuplicateKey \<and> the_key r \<in> dom (rows_map (rows t)) \<and>
        table_state E h n tbl t m cnt fl s'
    | Panic \<Rightarrow> \<not> h)"
  using wp_outcome [OF wp_inserted [OF assms]] .

text \<open>A fifth row of a thousand bytes does not fit into the only leaf: the root is split.\<close>

lemma btree_insert_correct_witness:
  "\<exists>s' t' m' cnt' fl'. btree_insert demo_env (fd demo_env) clock_find_victim demo_table (ValidatedRow (big_row 7)) demo_tpool
      = Some (Ok (), s') \<and> table_state demo_env True 8 demo_table t' m' cnt' fl' s' \<and>
    rows_map (rows t') = (rows_map demo_rows)(IntegerK 7 \<mapsto> big_row 7)"
proof -
  have rows: "rows demo_tree = demo_rows" and new: "rows_map demo_rows (IntegerK 7) = None"
    by (simp_all add: demo_tree_def demo_rows_def)
  show ?thesis
    using returns [OF btree_insert_correct [OF demo_varint_ok demo_table_state, of "big_row 7"]] demo_row_wf new
    by (force simp: rows domIff)
qed

section \<open>Pages handed out and taken back\<close>

lemma tree_in_agree:
  assumes "tree_in E v m t" and "\<And>i. i \<in> set (pids t) \<Longrightarrow> v' i = v i"
  shows "tree_in E v' m t"
proof -
  have "set (leaf_ids t) \<subseteq> set (pids t)" by (rule leaf_ids_subset)
  then show ?thesis
    using assms rep_agree [of v t v'] links_agree [of v None "leaf_ids t" None v']
    unfolding tree_in_def by blast
qed

lemma wp_lends:
  assumes "varint_ok E" and "table_state E h n tbl t m cnt fl s" and "h \<longrightarrow> 1 < n" and "cnt \<noteq> - 1"
  shows "wp h (Some (allocate E (fd E) clock_find_victim tbl s))
    (\<lambda>g s'. \<exists>x cnt' fl'. table_lent E h n tbl t m cnt' fl' x g s') (\<lambda>_ _. \<not> h)"
proof -
  obtain v where v: "tracks E {pid. get_table_id pid = get_table_id (meta_id tbl)} (file_stored E) clock_ok healthy h n v {#} s"
      "tree_in E v m t" "space tbl v (tid t) cnt fl (set (pids t))"
    using assms(2) unfolding table_state_def by blast
  show ?thesis
  proof (rule file_pool.wp_allocate [OF assms(1) v(1,3) _ _ assms(4)], goal_cases)
    case (4 v' cnt' fl' x i s')
    have "tree_in E v' m t" using tree_in_agree [OF v(2)] 4(5) by blast
    then show ?case using 4(1-4) unfolding table_lent_def by blast
  qed (use assms(3) in auto)
qed

text \<open>
  C38: \<^verbatim>\<open>Table::allocate\<close> hands out, behind a write guard, an empty free page that is neither in the tree nor the
  meta page nor left on the free list. Every other page stays in the tree or on the free list.
\<close>

theorem allocate_correct:
  assumes "varint_ok E" and "table_state E h n tbl t m cnt fl s" and "h \<longrightarrow> 1 < n" and "cnt \<noteq> - 1"
  shows "case allocate E (fd E) clock_find_victim tbl s of
      (Ok g, s') \<Rightarrow> \<exists>x cnt' fl'. table_lent E h n tbl t m cnt' fl' x g s'
    | _ \<Rightarrow> \<not> h"
  using wp_lends [OF assms] by (auto simp: wp_def split: prod.splits result.splits)

lemma allocate_correct_witness:
  "\<exists>g s' x cnt' fl'. allocate demo_env (fd demo_env) clock_find_victim demo_table demo_tpool = (Ok g, s') \<and>
    table_lent demo_env True 8 demo_table demo_tree 0 cnt' fl' x g s'"
  using allocate_correct [OF demo_varint_ok demo_table_state] by (auto split: prod.splits result.splits)

text \<open>
  \<^verbatim>\<open>Table::free\<close> puts a page that is in use by nobody at the head of the free list and drops its guard; tree and
  meta page are otherwise untouched, so the table is at rest again with every page accounted for.
\<close>

theorem table_free_correct:
  assumes "varint_ok E" and "table_lent E h n tbl t m cnt fl x g s" and "h \<longrightarrow> 1 < n"
  shows "case table_free E (fd E) clock_find_victim tbl g s of
      (Ok _, s') \<Rightarrow> table_state E h n tbl t m cnt (x # fl) s'
    | _ \<Rightarrow> \<not> h"
proof -
  obtain v i where v: "tracks E {pid. get_table_id pid = get_table_id (meta_id tbl)} (file_stored E) clock_ok healthy h n v
        {#wguard x i#} s"
      "tree_in E v m t" "space tbl v (tid t) cnt fl (insert x (set (pids t)))" "v x = Some (empty_page x (Free None))"
      "x \<notin> set (pids t)" and g: "g = PageWriteGuard i"
    using assms(2) unfolding table_lent_def by blast
  have U: "insert x (set (pids t)) - {x} = set (pids t)" using v(5) by simp
  have "wp h (Some (table_free E (fd E) clock_find_victim tbl (PageWriteGuard i) s))
    (\<lambda>_ s'. table_state E h n tbl t m cnt (x # fl) s') (\<lambda>_ _. \<not> h)"
  proof (rule file_pool.wp_table_free [OF assms(1) v(1,3) _ _ v(4)], goal_cases)
    case (5 v' s')
    have "tree_in E v' m t" using tree_in_agree [OF v(2)] 5(3) unfolding U by blast
    then show ?case using 5(1,2) unfolding U by (blast intro: table_stateI)
  qed (use assms(3) in \<open>auto simp: empty_page_def\<close>)
  then show ?thesis unfolding g by (auto simp: wp_def split: prod.splits result.splits)
qed

lemma table_free_correct_witness:
  "\<exists>g s s' cnt' fl'. table_free demo_env (fd demo_env) clock_find_victim demo_table g s = (Ok (), s') \<and>
    table_state demo_env True 8 demo_table demo_tree 0 cnt' fl' s'"
proof -
  obtain g s x cnt' fl' where "table_lent demo_env True 8 demo_table demo_tree 0 cnt' fl' x g s"
    using wp_lends [OF demo_varint_ok demo_table_state] by (auto simp: wp_def split: prod.splits result.splits)
  from table_free_correct [OF demo_varint_ok this] show ?thesis
    by (fastforce split: prod.splits result.splits)
qed

end
