(* ===== verification/Tree_Shrink.thy ===== *)
theory Tree_Shrink
  imports Tree_Grow Rebalance_Pages
begin

text \<open>
  A tree while a deletion is repaired: one subtree may have become too small. With the neighbour it has in the
  page above it is a couple; merging the two makes one tree of them, borrowing makes two of the right
  size, and each is a lemma about the lists a \<open>btree\<close> is made of.
\<close>

section \<open>The page above two neighbours\<close>

lemma ins_pos_here: "sorted_wrt (<) (xs @ k # ys) \<Longrightarrow> ins_pos k (xs @ k # ys) = length xs"
  by (simp add: ins_pos_def takeWhile_append sorted_wrt_append)

lemma sep_between:
  "seps (map fst (as @ (a, t) # (Some k, u) # bs)) = seps (map fst as @ [a]) @ k # map (\<lambda>x. the (fst x)) bs"
  using seps_snoc [of "map fst as" a "Some k # map fst bs"] by simp

lemma seps_without:
  "seps (map fst (as @ (a, t) # bs)) = seps (map fst as @ [a]) @ map (\<lambda>x. the (fst x)) bs"
  using seps_snoc [of "map fst as" a "map fst bs"] by simp

lemma length_seps_snoc: "length (seps (map fst as @ [a])) = length as"
  by simp

text \<open>Removing the separator of two neighbours removes the right one.\<close>

lemma remove_item:
  assumes b: "body p = branch_body (as @ (a, t) # (Some k, u) # bs)" and st: "storable E p"
    and ch: "chain W h (as @ (a, t) # (Some k, u) # bs)" and t': "tid t' = tid t"
  shows "\<exists>p'. internal_remove E p k = (Ok (Some (k, tid u)), p') \<and> body p' = branch_body (as @ (a, t') # bs) \<and>
    storable E p' \<and> pg_id p' = pg_id p \<and> entries_size E p' + internal_entry_size E k = entries_size E p"
proof -
  let ?x = "seps (map fst as @ [a])" and ?y = "map (\<lambda>x. the (fst x)) bs"
  let ?cs = "tids as @ tid t # tid u # tids bs"
  define q where "q = p\<lparr>body := branch_body (as @ (a, t') # bs)\<rparr>"
  have lu: "last_update q = last_update p" by (simp add: q_def)
  note inv = storable_inv [OF st]
  have b': "body p = Internal (?x @ k # ?y) ?cs" unfolding b sep_between by simp
  have bp: "body q = branch_body (as @ (a, t') # bs)" "body q = Internal (?x @ ?y) (tids as @ tid t # tids bs)"
    using t' unfolding q_def seps_without by simp_all
  have pp: "p\<lparr>body := Internal (?x @ ?y) (tids as @ tid t # tids bs)\<rparr> = q"
    using bp(2) by (simp add: q_def del: seps_simps)
  have "sorted_wrt (<) (?x @ k # ?y)" using chain_seps(2) [OF ch] by (simp only: sep_between) simp
  then have pos: "ins_pos k (?x @ k # ?y) = length as" by (simp only: ins_pos_here length_seps_snoc)
  have "take (length as) (?x @ k # ?y) @ drop (Suc (length as)) (?x @ k # ?y) = ?x @ ?y"
    using length_seps_snoc [of as a] by (simp only: take_append drop_append) simp
  then have eq: "internal_remove E p k = (Ok (Some (k, tid u)), q)"
    unfolding internal_remove_eq [OF b' inv] Let_def pos
    by (simp add: nth_append pp del: seps_simps)
  note i = internal_invD [OF b' inv]
  have "page_inv E q"
    using i by (auto simp: page_inv_internal [OF bp(2)] keys_ok_append keys_ok_Cons)
  then have "storable E q"
    using st lu by (simp add: storable_internal [OF b'] storable_internal [OF bp(2)])
  moreover have "entries_size E q + internal_entry_size E k = entries_size E p"
    by (simp add: entries_size_def b' bp(2) del: seps_simps)
  moreover have "pg_id q = pg_id p" by (simp add: q_def)
  ultimately show ?thesis using eq bp(1) by blast
qed

text \<open>Replacing it keeps the children; it fails only on a page that has no room for a longer key.\<close>

lemma replace_item:
  assumes b: "body p = branch_body (as @ (a, t) # (Some k, u) # bs)" and st: "storable E p"
    and ch: "chain W h (as @ (a, t) # (Some k, u) # bs)" and ch': "chain W' h (as @ (a, t') # (Some k', u') # bs)"
    and k': "key_fits E k'" "key_wf k'" and t': "tid t' = tid t" "tid u' = tid u"
  shows "internal_replace_key E p k k' = (Err PageFull, p) \<and> internal_entry_size E k < internal_entry_size E k' \<or>
    (\<exists>p'. internal_replace_key E p k k' = (Ok (), p') \<and> body p' = branch_body (as @ (a, t') # (Some k', u') # bs) \<and>
      storable E p' \<and> pg_id p' = pg_id p)"
proof -
  let ?x = "seps (map fst as @ [a])" and ?y = "map (\<lambda>x. the (fst x)) bs"
  let ?cs = "tids as @ tid t # tid u # tids bs"
  define q where "q = p\<lparr>body := branch_body (as @ (a, t') # (Some k', u') # bs)\<rparr>"
  have lu: "last_update q = last_update p" by (simp add: q_def)
  note inv = storable_inv [OF st]
  have b': "body p = Internal (?x @ k # ?y) ?cs" unfolding b sep_between by simp
  have bp: "body q = branch_body (as @ (a, t') # (Some k', u') # bs)" "body q = Internal (?x @ k' # ?y) ?cs"
    using t' unfolding q_def sep_between by simp_all
  have "sorted_wrt (<) (?x @ k # ?y)" using chain_seps(2) [OF ch] by (simp only: sep_between) simp
  then have pos: "ins_pos k (?x @ k # ?y) = length as" by (simp only: ins_pos_here length_seps_snoc)
  have upd: "(?x @ k # ?y)[length as := k'] = ?x @ k' # ?y"
    using length_seps_snoc [of as a] by (metis list_update_length)
  have "sorted_wrt (<) (?x @ k' # ?y)" using chain_seps(2) [OF ch'] by (simp only: sep_between) simp
  moreover note i = internal_invD [OF b' inv]
  ultimately have ok: "keys_ok E (?x @ k' # ?y)" using k'(1) by (auto simp: keys_ok_def)
  have pp: "p\<lparr>body := Internal (?x @ k' # ?y) ?cs\<rparr> = q"
    using bp(2) by (simp add: q_def del: seps_simps)
  have eq: "internal_replace_key E p k k' =
      (if INTERNAL_USABLE < keys_size E (?x @ k' # ?y) then (Err PageFull, p) else (Ok (), q))"
    unfolding internal_replace_eq [OF b' inv k'(1)] Let_def pos upd pp using ok by simp
  have "storable E q" if "\<not> INTERNAL_USABLE < keys_size E (?x @ k' # ?y)"
  proof -
    have "page_inv E q" using that ok i(2) by (simp only: page_inv_internal [OF bp(2)]) simp
    then show ?thesis using st k'(2) lu by (auto simp: storable_internal [OF b'] storable_internal [OF bp(2)])
  qed
  then show ?thesis using eq i(3) bp(1) by (auto simp: q_def simp del: seps_simps)
qed

text \<open>The sibling the code picks.\<close>

lemma pick_right:
  "body p = branch_body (as @ (a, t) # (Some k, u) # bs) \<Longrightarrow>
    pick_sibling p (ChildIndex (length as)) = Ok (Some \<lparr>sib_id = tid u, separator = k, sib_side = RightSide\<rparr>)"
  using length_seps_snoc [of as a] unfolding sep_between
  by (simp add: pick_sibling_def vec_get_def nth_append del: seps_simps)

lemma pick_left:
  assumes "body p = branch_body (as @ [(a, t), (Some k, u)])"
  shows "pick_sibling p (ChildIndex (length as + 1)) = Ok (Some \<lparr>sib_id = tid t, separator = k, sib_side = LeftSide\<rparr>)"
  using assms length_seps_snoc [of as a] sep_between [of as a t k u "[]"]
  by (simp add: pick_sibling_def vec_get_def nth_append checked_sub_def del: seps_simps)

section \<open>A subtree that may be too small\<close>

definition loose :: "env \<Rightarrow> pages \<Rightarrow> nat \<Rightarrow> crumb list \<Rightarrow> btree \<Rightarrow> bool" where
  "loose E v j cs t \<longleftrightarrow>
     path_ok E j cs \<and> wfk E j 1 (hole_low cs) (hole_high cs) t \<and> rep v (plug cs t) \<and>
     links v None (leaf_ids (plug cs t)) None \<and> distinct (pids (plug cs t))"

lemma wfk_mono: "wfk E j k l h t \<Longrightarrow> k' \<le> k \<Longrightarrow> wfk E j k' l h t"
  by (cases j) auto

lemma loose_tree:
  assumes "loose E v j cs t" and "wf_tree E j (hole_low cs) (hole_high cs) t"
  shows "tree_in E v (j + length cs) (plug cs t)"
  using assms plug_ok [of E j cs t] by (simp add: loose_def tree_in_def)

lemma tree_loose:
  assumes "tree_in E v m (plug cs t)" and "place E v j cs t"
  shows "loose E v j cs t"
  using assms wfk_mono [of E j 2 "hole_low cs" "hole_high cs" t 1] by (simp add: loose_def tree_in_def place_def)

text \<open>Two neighbours \<open>L\<close> and \<open>R\<close> under the page \<open>i\<close>.\<close>

definition couple ::
  "env \<Rightarrow> pages \<Rightarrow> nat \<Rightarrow> page_id \<Rightarrow> items \<Rightarrow> key option \<Rightarrow> btree \<Rightarrow> key \<Rightarrow> btree \<Rightarrow> items \<Rightarrow> crumb list \<Rightarrow> bool" where
  "couple E v j i ps la L k R qs cs \<longleftrightarrow>
     path_ok E (Suc j) cs \<and> chain (wf_tree E j) la ps \<and> (ps \<noteq> [] \<longrightarrow> la \<noteq> None) \<and>
     chain (wf_tree E j) (hole_high cs) qs \<and> (qs \<noteq> [] \<longrightarrow> fst (hd qs) \<noteq> None) \<and> low ps la = hole_low cs \<and>
     wfk E j 1 la (Some k) L \<and> wfk E j 1 (Some k) (low qs (hole_high cs)) R \<and>
     lt_bound la (Some k) \<and> lt_bound (Some k) (low qs (hole_high cs)) \<and>
     rep v (plug cs (Branch i (ps @ (la, L) # (Some k, R) # qs))) \<and>
     links v None (leaf_ids (plug cs (Branch i (ps @ (la, L) # (Some k, R) # qs)))) None \<and>
     distinct (pids (plug cs (Branch i (ps @ (la, L) # (Some k, R) # qs))))"

lemma loose_right:
  "loose E v j ((i, as, a, (Some k, R) # bs) # cs) t \<Longrightarrow> couple E v j i as a t k R bs cs"
  by (auto simp: loose_def couple_def intro: wfk_mono [of E j 2])

lemma loose_left:
  assumes "loose E v j ((i, as @ [(la, L)], Some k, []) # cs) t"
  shows "couple E v j i as la L k t [] cs"
  using assms by (auto simp: loose_def couple_def chain_append intro: wfk_mono [of E j 2])

text \<open>A page below the root has a neighbour; the code takes the right one if there is one.\<close>

lemma loose_cases:
  assumes "loose E v j ((i, as, a, bs) # cs) t"
  obtains (right) k R qs where "bs = (Some k, R) # qs" "couple E v j i as a t k R qs cs"
  | (left) ps la L k where "as = ps @ [(la, L)]" "a = Some k" "bs = []" "couple E v j i ps la L k t [] cs"
proof (cases bs)
  case (Cons b qs)
  obtain x R where b: "b = (x, R)" by fastforce
  obtain k where "x = Some k" using assms Cons b by (auto simp: loose_def)
  then show thesis using right [of k R qs] Cons b loose_right assms by simp
next
  case Nil
  then have "as \<noteq> []" using assms by (simp add: loose_def)
  then obtain ps x where as: "as = ps @ [x]" by (cases as rule: rev_cases) auto
  obtain la L where x: "x = (la, L)" by fastforce
  obtain k where "a = Some k" using assms as by (auto simp: loose_def)
  then show thesis using left [of ps la L k] Nil as x loose_left assms by simp
qed

lemma couple_parts:
  assumes "couple E v j i ps la L k R qs cs"
  shows "chain (wfk E j 1) (hole_high cs) (ps @ (la, L) # (Some k, R) # qs)"
    and "\<exists>p. v i = Some p \<and> body p = branch_body (ps @ (la, L) # (Some k, R) # qs)"
    and "rep v L" "rep v R" "\<forall>x \<in> set ps \<union> set qs. rep v (snd x)" "rep_path v i cs"
    and "distinct (i # pids L @ pids R @ item_ids ps @ item_ids qs @ path_ids cs)"
    and "links v None (left_leaves cs @ item_leaf_ids ps @ leaf_ids L @ leaf_ids R @ item_leaf_ids qs @ right_leaves cs) None"
proof -
  have mono: "chain (wfk E j 1) h xs" if "chain (wf_tree E j) h xs" for h xs
    using that by (induction xs) (auto intro: wfk_mono [of E j 2])
  then show "chain (wfk E j 1) (hole_high cs) (ps @ (la, L) # (Some k, R) # qs)"
    using assms by (auto simp: couple_def chain_append)
  show "\<exists>p. v i = Some p \<and> body p = branch_body (ps @ (la, L) # (Some k, R) # qs)"
    and "rep v L" "rep v R" "\<forall>x \<in> set ps \<union> set qs. rep v (snd x)" "rep_path v i cs"
    using assms by (auto simp: couple_def rep_plug)
  have "distinct ((i # item_ids ps @ pids L @ pids R @ item_ids qs) @ path_ids cs)"
    using assms by (simp add: couple_def distinct_plug)
  moreover have "mset ((i # item_ids ps @ pids L @ pids R @ item_ids qs) @ path_ids cs) =
      mset (i # pids L @ pids R @ item_ids ps @ item_ids qs @ path_ids cs)"
    by (simp add: ac_simps)
  ultimately show "distinct (i # pids L @ pids R @ item_ids ps @ item_ids qs @ path_ids cs)"
    using mset_eq_imp_distinct_iff by blast
  show "links v None (left_leaves cs @ item_leaf_ids ps @ leaf_ids L @ leaf_ids R @ item_leaf_ids qs @ right_leaves cs) None"
    using assms by (simp add: couple_def leaf_ids_plug)
qed

text \<open>Neighbours in the tree are siblings as pages.\<close>

lemma couple_siblings:
  assumes cp: "couple E v j i ps la L k R qs cs" and l: "v (tid L) = Some l" "pg_id l = tid L" "page_inv E l"
    and r: "v (tid R) = Some r" "pg_id r = tid R" "page_inv E r" and k: "key_fits E k"
  shows "siblings E l k r" and "is_internal l \<longleftrightarrow> j \<noteq> 0"
proof -
  note pt = couple_parts [OF cp]
  have "siblings E l k r \<and> (is_internal l \<longleftrightarrow> j \<noteq> 0)"
  proof (cases j)
    case 0
    then obtain b rs c rs' where L: "L = Tip b rs" "rows_ok E rs" "\<forall>x \<in> set rs. within la (Some k) (the_key x)"
      and R: "R = Tip c rs'" "rows_ok E rs'" "\<forall>x \<in> set rs'. within (Some k) (low qs (hole_high cs)) (the_key x)"
      using cp by (auto simp: couple_def)
    obtain nx pv nx' pv' where b: "body l = Leaf rs nx pv" "body r = Leaf rs' nx' pv'"
      using pt(3,4) l(1) r(1) by (auto simp: L(1) R(1))
    note li = pt(8) [unfolded L(1) R(1) leaf_ids.simps]
    have "nx = Some c"
      using links_at [of v None "left_leaves cs @ item_leaf_ids ps" b "c # item_leaf_ids qs @ right_leaves cs" None] li l(1) b(1)
      by (simp add: L(1))
    moreover have "pv' = Some b"
      using links_at [of v None "left_leaves cs @ item_leaf_ids ps @ [b]" c "item_leaf_ids qs @ right_leaves cs" None] li r(1) b(2)
      by (simp add: R(1))
    ultimately have "siblings E l k r"
      using b l(2,3) r(2,3) L R k
      by (intro siblings_leavesI [where rs = rs and rs' = rs']) (auto simp: page_inv_leaf [OF b(1)] page_inv_leaf [OF b(2)] within_def)
    then show ?thesis using 0 b(1) by (simp add: kind_defs)
  next
    case (Suc n)
    then obtain b xs c ys where L: "L = Branch b xs" "xs \<noteq> []" "chain (wf_tree E n) (Some k) xs"
      and R: "R = Branch c ys" "ys \<noteq> []" "fst (hd ys) = Some k" "chain (wf_tree E n) (low qs (hole_high cs)) ys"
      using cp by (auto simp: couple_def)
    have b: "body l = branch_body xs" "body r = branch_body ys" using pt(3,4) l(1) r(1) by (auto simp: L(1) R(1))
    note il = internal_invD [OF b(1) l(3)] and ir = internal_invD [OF b(2) r(3)]
    have "chain (wf_tree E n) (low qs (hole_high cs)) (xs @ ys)" using L R low_hd [of ys] by (simp add: chain_append)
    then have "sorted_wrt (<) (seps (map fst (xs @ ys)))" by (rule chain_seps(2)) (use L in simp)
    moreover have "seps (map fst (xs @ ys)) = seps (map fst xs) @ k # seps (map fst ys)"
      using L(2) R(2,3) by (cases ys) (simp_all add: seps_append)
    ultimately have "keys_ok E (seps (map fst xs) @ k # seps (map fst ys))"
      using il(1) ir(1) k by (auto simp: keys_ok_def)
    then have "siblings E l k r" by (rule siblings_internalsI [OF b _ il(2) ir(2) il(3) ir(3)])
    then show ?thesis using Suc b(1) by (simp add: kind_defs)
  qed
  then show "siblings E l k r" and "is_internal l \<longleftrightarrow> j \<noteq> 0" by simp_all
qed

section \<open>Other subtrees in their place\<close>

lemma rep_items_agree:
  "\<forall>x \<in> set xs. rep v (snd x) \<Longrightarrow> (\<And>j. j \<in> set (item_ids xs) \<Longrightarrow> v' j = v j) \<Longrightarrow> \<forall>x \<in> set xs. rep v' (snd x)"
  by (rule rep_items_frame) simp_all

lemma distinct_sub:
  assumes "mset xs \<subseteq># mset ys" and "distinct ys"
  shows "distinct xs"
  unfolding distinct_count_atmost_1
proof
  fix a
  have "count (mset xs) a \<le> count (mset ys) a" using assms(1) by (rule mset_subset_eq_count)
  also have "\<dots> \<le> 1" using assms(2) by (simp add: distinct_count_atmost_1)
  finally show "count (mset xs) a = (if a \<in> set xs then 1 else 0)"
    by (metis One_nat_def count_mset_0_iff le_SucE le_zero_eq)
qed

text \<open>The page \<open>i\<close> gets the subtrees \<open>zs\<close> in the place of a couple.\<close>

lemma couple_new:
  assumes cp: "couple E v j i ps la L k R qs cs"
    and zs: "chain (wf_tree E j) (low qs (hole_high cs)) zs" "zs \<noteq> []" "fst (hd zs) = la"
    and rep: "\<forall>z \<in> set zs. rep v' (snd z)" and p': "v' i = Some p'" "body p' = branch_body (ps @ zs @ qs)"
    and frame: "\<And>x. x \<in> set (item_ids ps) \<union> set (item_ids qs) \<union> set (path_ids cs) \<Longrightarrow> relinked (v x) (v' x)"
    and li: "links v' None (left_leaves cs @ item_leaf_ids ps @ item_leaf_ids zs @ item_leaf_ids qs @ right_leaves cs) None"
    and ids: "mset (item_ids zs) \<subseteq># mset (pids L) + mset (pids R)"
    and rws: "item_rows zs = rows L @ rows R"
  defines "t \<equiv> Branch i (ps @ zs @ qs)"
  shows "loose E v' (Suc j) cs t" and "2 \<le> length (ps @ zs @ qs) \<Longrightarrow> tree_in E v' (Suc j + length cs) (plug cs t)"
    and "rows (plug cs t) = rows (plug cs (Branch i (ps @ (la, L) # (Some k, R) # qs)))"
    and "set (pids (plug cs t)) = insert i (set (item_ids zs) \<union> set (item_ids ps) \<union> set (item_ids qs) \<union> set (path_ids cs))"
    and "tid (plug cs t) = tid (plug cs (Branch i (ps @ (la, L) # (Some k, R) # qs)))"
proof -
  note pt = couple_parts [OF cp]
  have parts: "path_ok E (Suc j) cs" "chain (wf_tree E j) la ps" "ps \<noteq> [] \<longrightarrow> la \<noteq> None"
    "chain (wf_tree E j) (hole_high cs) qs" "qs \<noteq> [] \<longrightarrow> fst (hd qs) \<noteq> None" "low ps la = hole_low cs"
    using cp by (simp_all add: couple_def)
  have "chain (wf_tree E j) (hole_high cs) (ps @ zs @ qs)"
    using parts zs low_hd [OF zs(2)] by (simp add: chain_append hd_append)
  moreover have "fst (hd (ps @ zs @ qs)) = hole_low cs"
    using parts(6) zs(2,3) by (cases ps) (simp_all add: hd_append)
  ultimately have wf: "wfk E (Suc j) n (hole_low cs) (hole_high cs) t" if "n \<le> length (ps @ zs @ qs)" for n
    using that zs(2) unfolding t_def by simp
  have rp: "rep v' (plug cs t)"
  proof -
    have "\<forall>x \<in> set (ps @ qs). rep v' (snd x)"
      by (rule rep_items_frame [of "ps @ qs" v v']) (use frame pt(5) in auto)
    moreover have "rep_path v' i cs" by (rule rep_path_frame [OF _ pt(6)]) (use frame in auto)
    ultimately show ?thesis using rep p' by (auto simp: t_def rep_plug)
  qed
  have dis: "distinct (pids (plug cs t))"
  proof -
    have "mset (i # item_ids zs @ item_ids ps @ item_ids qs @ path_ids cs) \<subseteq>#
        mset (i # pids L @ pids R @ item_ids ps @ item_ids qs @ path_ids cs)"
      using ids by (simp add: add.assoc [symmetric])
    then have "distinct (i # item_ids zs @ item_ids ps @ item_ids qs @ path_ids cs)"
      by (rule distinct_sub) (rule pt(7))
    moreover have "mset (pids (plug cs t)) = mset (i # item_ids zs @ item_ids ps @ item_ids qs @ path_ids cs)"
      by (simp add: t_def mset_ids_plug ac_simps)
    ultimately show ?thesis using mset_eq_imp_distinct_iff by blast
  qed
  have l1: "1 \<le> length (ps @ zs @ qs)" using zs(2) by (cases zs) auto
  show lo: "loose E v' (Suc j) cs t"
    unfolding loose_def using parts(1) wf [OF l1] rp dis li by (simp add: t_def leaf_ids_plug)
  show "tree_in E v' (Suc j + length cs) (plug cs t)" if "2 \<le> length (ps @ zs @ qs)"
    by (rule loose_tree [OF lo wf [OF that]])
  show "rows (plug cs t) = rows (plug cs (Branch i (ps @ (la, L) # (Some k, R) # qs)))"
    using rws by (simp add: t_def rows_plug)
  show "set (pids (plug cs t)) = insert i (set (item_ids zs) \<union> set (item_ids ps) \<union> set (item_ids qs) \<union> set (path_ids cs))"
    by (auto simp: t_def set_ids_plug)
  show "tid (plug cs t) = tid (plug cs (Branch i (ps @ (la, L) # (Some k, R) # qs)))"
    by (simp add: t_def top_id_plug top_id_def)
qed

section \<open>The chain of leaves\<close>

text \<open>Leaves keep their links, whatever else changes.\<close>

lemma links_same:
  assumes "links v pv ls nx" and "\<And>x p rs n q. x \<in> set ls \<Longrightarrow> v x = Some p \<Longrightarrow> body p = Leaf rs n q \<Longrightarrow>
    \<exists>p' rs'. v' x = Some p' \<and> body p' = Leaf rs' n q"
  shows "links v' pv ls nx"
  using assms
proof (induction ls arbitrary: pv)
  case (Cons i ls)
  obtain p rs where p: "v i = Some p" "body p = Leaf rs (case ls of [] \<Rightarrow> nx | j # _ \<Rightarrow> Some j) pv"
    using Cons.prems(1) by auto
  have "\<exists>p' rs'. v' i = Some p' \<and> body p' = Leaf rs' (case ls of [] \<Rightarrow> nx | j # _ \<Rightarrow> Some j) pv"
    by (rule Cons.prems(2) [OF _ p]) simp
  moreover have "links v' (Some i) ls nx" by (rule Cons.IH) (use Cons.prems in auto)
  ultimately show ?case by auto
qed simp

text \<open>The leaf \<open>c\<close> behind \<open>b\<close> leaves the chain.\<close>

lemma links_remove:
  assumes l: "links v pv (ls @ b # c # rs) nx"
    and b: "v b = Some p" "body p = Leaf r0 n0 pb" "v' b = Some p'" "body p' = Leaf r1 n pb"
    and c: "v c = Some q" "body q = Leaf r2 n pc"
    and nn: "\<And>j rest x rn n' px. rs = j # rest \<Longrightarrow> v j = Some x \<Longrightarrow> body x = Leaf rn n' px \<Longrightarrow>
      \<exists>x' rn'. v' j = Some x' \<and> body x' = Leaf rn' n' (Some b)"
    and same: "\<And>j. j \<in> set ls \<union> set (tl rs) \<Longrightarrow> v' j = v j"
  shows "links v' pv (ls @ b # rs) nx"
proof -
  have l1: "links v pv ls (Some b)" and l2: "links v (if ls = [] then pv else Some (last ls)) (b # c # rs) nx"
    using l by (simp_all add: links_append split: if_splits)
  have "links v' pv ls (Some b)" by (rule links_agree [OF l1]) (use same in blast)
  moreover have "links v' (Some b) rs nx"
  proof (cases rs)
    case (Cons j rest)
    have "links v (Some j) rest nx" using l2 Cons by simp
    then have "links v' (Some j) rest nx" by (rule links_agree) (use same Cons in simp)
    moreover obtain x rn where "v j = Some x" "body x = Leaf rn (case rest of [] \<Rightarrow> nx | j # _ \<Rightarrow> Some j) (Some c)"
      using l2 Cons by auto
    ultimately show ?thesis using nn [OF Cons] Cons by auto
  qed simp
  moreover have "pb = (if ls = [] then pv else Some (last ls))" "n = (case rs of [] \<Rightarrow> nx | j # _ \<Rightarrow> Some j)"
    using l2 b(1,2) c by auto
  ultimately show ?thesis using b(3,4) by (auto simp: links_append)
qed

section \<open>Merging\<close>

lemma merged_tree:
  assumes cp: "couple E v j i ps la L k R qs cs" and l: "v (tid L) = Some l" and r: "v (tid R) = Some r"
    and con: "body_contents (body l') = pair_contents l k r"
  obtains M where "tid M = tid L" "wf_tree E j la (low qs (hole_high cs)) M" "rows M = rows L @ rows R"
    "mset (pids M) + {#tid R#} = mset (pids L) + mset (pids R)"
    "\<And>v'. v' (tid L) = Some l' \<Longrightarrow>
      (\<And>x. x \<in> set (pids L) \<union> set (pids R) \<Longrightarrow> x \<noteq> tid L \<Longrightarrow> x \<noteq> tid R \<Longrightarrow> v' x = v x) \<Longrightarrow> rep v' M"
    "if j = 0 then leaf_ids L = [tid L] \<and> leaf_ids R = [tid R] \<and> leaf_ids M = [tid L]
     else leaf_ids M = leaf_ids L @ leaf_ids R"
proof -
  note pt = couple_parts [OF cp]
  have lt: "lt_bound la (Some k)" "lt_bound (Some k) (low qs (hole_high cs))" using cp by (simp_all add: couple_def)
  show thesis
  proof (cases j)
    case 0
    then obtain b rs c rs' where L: "L = Tip b rs" "rows_ok E rs" "\<forall>x \<in> set rs. within la (Some k) (the_key x)"
      and R: "R = Tip c rs'" "rows_ok E rs'" "\<forall>x \<in> set rs'. within (Some k) (low qs (hole_high cs)) (the_key x)"
      using cp by (auto simp: couple_def)
    obtain nx pv nx' pv' where b: "body l = Leaf rs nx pv" "body r = Leaf rs' nx' pv'"
      using pt(3,4) l r by (auto simp: L(1) R(1))
    have l': "\<exists>n p. body l' = Leaf (rs @ rs') n p"
      using con b by (cases "body l'") (simp_all add: pair_contents_def)
    have "the_key x < the_key y" if "x \<in> set rs" "y \<in> set rs'" for x y
      using L(3) R(3) that by (force simp: within_def)
    then have "rows_ok E (rs @ rs')" using L(2) R(2) by (simp add: rows_ok_append)
    moreover have "within la (low qs (hole_high cs)) (the_key x)" if "x \<in> set (rs @ rs')" for x
      using that L(3) R(3) within_weaken_high [OF _ lt(2)] within_weaken_low [OF _ lt(1)] by auto
    ultimately show thesis using l' 0 by (intro that [of "Tip b (rs @ rs')"]) (simp_all add: L(1) R(1))
  next
    case (Suc n)
    then obtain b xs c ys where L: "L = Branch b xs" "xs \<noteq> []" "fst (hd xs) = la" "chain (wf_tree E n) (Some k) xs"
      and R: "R = Branch c ys" "ys \<noteq> []" "fst (hd ys) = Some k" "chain (wf_tree E n) (low qs (hole_high cs)) ys"
      using cp by (auto simp: couple_def)
    have b: "body l = branch_body xs" "body r = branch_body ys" using pt(3,4) l r by (auto simp: L(1) R(1))
    have "seps (map fst (xs @ ys)) = seps (map fst xs) @ k # seps (map fst ys)"
      using L(2) R(2,3) by (cases ys) (simp_all add: seps_append)
    then have l': "body l' = branch_body (xs @ ys)"
      using con b by (cases "body l'") (simp_all add: pair_contents_def)
    have "chain (wf_tree E n) (low qs (hole_high cs)) (xs @ ys)" using L R low_hd [of ys] by (simp add: chain_append)
    moreover have "2 \<le> length (xs @ ys)" using L(2) R(2) by (cases xs; cases ys) simp_all
    moreover have "rep v' (Branch b (xs @ ys))"
      if vb: "v' b = Some l'" and vx: "\<And>x. x \<in> set (pids L) \<union> set (pids R) \<Longrightarrow> x \<noteq> b \<Longrightarrow> x \<noteq> c \<Longrightarrow> v' x = v x" for v'
    proof -
      have out: "b \<notin> set (item_ids (xs @ ys))" "c \<notin> set (item_ids (xs @ ys))" using pt(7) by (auto simp: L(1) R(1))
      have same: "v' x = v x" if x: "x \<in> set (item_ids (xs @ ys))" for x
      proof (rule vx)
        show "x \<in> set (pids L) \<union> set (pids R)" using x by (auto simp: L(1) R(1))
        show "x \<noteq> b" "x \<noteq> c" using x out by blast+
      qed
      have "\<forall>x \<in> set (xs @ ys). rep v (snd x)" using pt(3,4) by (auto simp: L(1) R(1))
      then have "\<forall>x \<in> set (xs @ ys). rep v' (snd x)" by (rule rep_items_agree) (rule same)
      then show ?thesis using vb l' by auto
    qed
    ultimately show thesis using Suc L(2,3) by (intro that [of "Branch b (xs @ ys)"]) (simp_all add: L(1) R(1))
  qed
qed

section \<open>Borrowing\<close>

lemma moved_cases:
  assumes sib: "siblings E l k r" and mv: "moved E l k r l' k' r'"
  obtains (leaves) rs pv rs' n rs1 rs2 where "body l = Leaf rs (Some (pg_id r)) pv" "body r = Leaf rs' n (Some (pg_id l))"
      "body l' = Leaf rs1 (Some (pg_id r)) pv" "body r' = Leaf rs2 n (Some (pg_id l))" "rs1 @ rs2 = rs @ rs'"
      "rows_ok E rs1" "rows_ok E rs2" "\<forall>x \<in> set rs1. the_key x < k'" "\<forall>x \<in> set rs2. k' \<le> the_key x"
      "k' = k \<or> k' \<in> the_key ` set (rs @ rs')"
  | (internals) ks cs ks' cs' ks1 cs1 ks2 cs2 where "body l = Internal ks cs" "body r = Internal ks' cs'"
      "body l' = Internal ks1 cs1" "body r' = Internal ks2 cs2" "ks1 @ k' # ks2 = ks @ k # ks'" "cs1 @ cs2 = cs @ cs'"
      "length cs1 = length ks1 + 1" "length cs2 = length ks2 + 1"
proof -
  have sib': "siblings E l' k' r'" and same: "pg_id l' = pg_id l" "pg_id r' = pg_id r"
      "page_prev (body l') = page_prev (body l)" "page_next (body r') = page_next (body r)"
      "pair_contents l' k' r' = pair_contents l k r"
    using mv by (simp_all add: moved_def)
  show thesis
  proof (use sib in \<open>cases rule: siblings_cases\<close>)
    case l: (leaves rs pv rs' n)
    show thesis
      using sib'
    proof (cases rule: siblings_cases)
      case l': (leaves rs1 pv1 rs2 n2)
      have "k' = k \<or> k' \<in> the_key ` set (rs @ rs')" using mv l by (simp add: moved_def pair_contents_def)
      then show thesis using leaves l l' same by (simp add: pair_contents_def)
    qed (use same(5) l in \<open>simp add: pair_contents_def\<close>)
  next
    case l: (internals ks cs ks' cs')
    show thesis
      using sib'
    proof (cases rule: siblings_cases)
      case l': (internals ks1 cs1 ks2 cs2)
      then show thesis using internals l same(5) by (simp add: pair_contents_def)
    qed (use same(5) l in \<open>simp add: pair_contents_def\<close>)
  qed
qed

lemma moved_storable:
  assumes sib: "siblings E l k r" and mv: "moved E l k r l' k' r'" and st: "storable E l" "storable E r" and k: "key_wf k"
  shows "storable E l'" and "storable E r'" and "key_fits E k'" and "key_wf k'"
proof -
  have inv: "page_inv E l'" "page_inv E r'" "key_fits E k'" and lu: "last_update l' = last_update l" "last_update r' = last_update r"
    using mv siblings_invs [of E l' k' r'] by (simp_all add: moved_def)
  have "storable E l' \<and> storable E r' \<and> key_wf k'"
  proof (use sib mv in \<open>cases rule: moved_cases\<close>)
    case (leaves rs pv rs' n rs1 rs2)
    have wf: "\<forall>x \<in> set (rs @ rs'). row_fits E x \<and> row_wf x"
      using st siblings_invs [OF sib]
      by (auto simp: storable_leaf [OF leaves(1)] storable_leaf [OF leaves(2)] page_inv_leaf leaves(1,2) rows_ok_def)
    then have "key_wf k'" using leaves(10) k row_key_ok(2) by auto
    moreover have "\<forall>x \<in> set rs1. row_wf x" "\<forall>x \<in> set rs2. row_wf x"
      using wf leaves(5) by (metis Un_iff set_append)+
    ultimately show ?thesis
      using st inv lu by (simp add: storable_leaf [OF leaves(1)] storable_leaf [OF leaves(2)]
          storable_leaf [OF leaves(3)] storable_leaf [OF leaves(4)])
  next
    case (internals ks cs ks' cs' ks1 cs1 ks2 cs2)
    have "\<forall>x \<in> set (ks @ k # ks'). key_wf x"
      using st k by (auto simp: storable_internal [OF internals(1)] storable_internal [OF internals(2)])
    then have "\<forall>x \<in> set (ks1 @ k' # ks2). key_wf x" unfolding internals(5) .
    then show ?thesis
      using st inv lu by (simp add: storable_internal [OF internals(1)] storable_internal [OF internals(2)]
          storable_internal [OF internals(3)] storable_internal [OF internals(4)])
  qed
  then show "storable E l'" and "storable E r'" and "key_fits E k'" and "key_wf k'" using inv by simp_all
qed

lemma moved_trees:
  assumes cp: "couple E v j i ps la L k R qs cs" and l: "v (tid L) = Some l" and r: "v (tid R) = Some r"
    and sib: "siblings E l k r" and mv: "moved E l k r l' k' r'" and some: "1 \<le> num_items l'" "1 \<le> num_items r'"
  obtains L' R' where "tid L' = tid L" "tid R' = tid R" "wf_tree E j la (Some k') L'"
    "wf_tree E j (Some k') (low qs (hole_high cs)) R'" "lt_bound la (Some k')" "lt_bound (Some k') (low qs (hole_high cs))"
    "rows L' @ rows R' = rows L @ rows R" "mset (pids L') + mset (pids R') = mset (pids L) + mset (pids R)"
    "leaf_ids L' @ leaf_ids R' = leaf_ids L @ leaf_ids R"
    "\<And>v'. v' (tid L) = Some l' \<Longrightarrow> v' (tid R) = Some r' \<Longrightarrow>
      (\<And>x. x \<in> set (pids L) \<union> set (pids R) \<Longrightarrow> x \<noteq> tid L \<Longrightarrow> x \<noteq> tid R \<Longrightarrow> v' x = v x) \<Longrightarrow> rep v' L' \<and> rep v' R'"
proof -
  note pt = couple_parts [OF cp]
  let ?h = "low qs (hole_high cs)"
  have lt: "lt_bound la (Some k)" "lt_bound (Some k) ?h" using cp by (simp_all add: couple_def)
  show thesis
  proof (cases j)
    case 0
    then obtain b rs0 c rs0' where L: "L = Tip b rs0" "rows_ok E rs0" "\<forall>x \<in> set rs0. within la (Some k) (the_key x)"
      and R: "R = Tip c rs0'" "rows_ok E rs0'" "\<forall>x \<in> set rs0'. within (Some k) ?h (the_key x)"
      using cp by (auto simp: couple_def)
    have b: "\<exists>nx pv. body l = Leaf rs0 nx pv" "\<exists>nx pv. body r = Leaf rs0' nx pv"
      using pt(3,4) l r by (auto simp: L(1) R(1))
    show thesis
    proof (use sib mv in \<open>cases rule: moved_cases\<close>)
      case (leaves rs pv rs' n rs1 rs2)
      have eq: "rs = rs0" "rs' = rs0'" using b leaves by auto
      have all: "within la ?h (the_key x)" if "x \<in> set rs1 \<union> set rs2" for x
      proof -
        have "x \<in> set (rs0 @ rs0')" using that leaves(5) unfolding eq by (metis set_append)
        then show ?thesis using L(3) R(3) within_weaken_high [OF _ lt(2)] within_weaken_low [OF _ lt(1)] by auto
      qed
      obtain x where "x \<in> set rs1" using some(1) leaves(3) by (cases rs1) (auto simp: num_items_def)
      then have la: "lt_bound la (Some k')" using all [of x] leaves(8) by (cases la) (auto simp: within_def)
      have high: "lt_bound (Some k') ?h"
      proof (cases "k' = k")
        case False
        then obtain y where "y \<in> set (rs0 @ rs0')" "k' = the_key y" using leaves(10) by (auto simp: eq)
        moreover from this have "y \<in> set rs1 \<union> set rs2" using leaves(5) unfolding eq by (metis set_append)
        ultimately show ?thesis using all [of y] by (cases ?h) (auto simp: within_def)
      qed (use lt(2) in simp)
      show thesis
        using leaves all la high 0
        by (intro that [of "Tip b rs1" "Tip c rs2"]) (auto simp: L(1) R(1) eq within_def)
    qed (use b in auto)
  next
    case (Suc n)
    then obtain b xs c ys where L: "L = Branch b xs" "xs \<noteq> []" "fst (hd xs) = la" "chain (wf_tree E n) (Some k) xs"
      and R: "R = Branch c ys" "ys \<noteq> []" "fst (hd ys) = Some k" "chain (wf_tree E n) ?h ys"
      using cp by (auto simp: couple_def)
    have b: "body l = branch_body xs" "body r = branch_body ys" using pt(3,4) l r by (auto simp: L(1) R(1))
    show thesis
    proof (use sib mv in \<open>cases rule: moved_cases\<close>)
      case (internals ks cs1 ks' cs1' ks1 ts1 ks2 ts2)
      define zs where "zs = xs @ ys"
      define xs' ys' where "xs' = take (length ts1) zs" and "ys' = drop (length ts1) zs"
      have zs: "zs = xs' @ ys'" by (simp add: xs'_def ys'_def)
      have ch: "chain (wf_tree E n) ?h zs" using L R low_hd [of ys] by (simp add: zs_def chain_append)
      have sp: "seps (map fst zs) = ks1 @ k' # ks2"
        using internals(1,2,5) b L(2) R(2,3) by (cases ys) (simp_all add: zs_def seps_append)
      have ts: "tids zs = ts1 @ ts2" using internals(1,2,6) b by (simp add: zs_def)
      have t1: "ts1 = tids xs'" "ts2 = tids ys'"
        using ts by (simp_all add: xs'_def ys'_def take_map [symmetric] drop_map [symmetric])
      have len: "2 \<le> length xs'" "2 \<le> length ys'"
        using some internals(3,4,7,8) t1 by (simp_all add: num_items_def)
      obtain y yr where y: "ys' = y # yr" using len by (cases ys') auto
      have "fst y \<noteq> None" using ch len(1) y by (auto simp: zs chain_append)
      then obtain c' where c': "fst y = Some c'" by auto
      have "xs' \<noteq> []" using len by auto
      then have "seps (map fst xs') @ c' # seps (map fst ys') = ks1 @ k' # ks2"
        using sp c' by (simp add: zs y seps_append)
      moreover have "length (seps (map fst xs')) = length ks1"
        using internals(7) t1(1) by (cases xs') simp_all
      ultimately have eq: "seps (map fst xs') = ks1" "c' = k'" "seps (map fst ys') = ks2" by simp_all
      have ch': "chain (wf_tree E n) (Some k') xs'" "chain (wf_tree E n) ?h ys'"
        using ch c' eq(2) by (simp_all add: zs y chain_append)
      have hd: "fst (hd xs') = la" "fst (hd ys') = Some k'"
        using L(2,3) \<open>xs' \<noteq> []\<close> c' eq(2) by (simp_all add: xs'_def zs_def hd_take y)
      have low: "lt_bound la (Some k')" "lt_bound (Some k') ?h"
        using chain_lt [OF ch'(1) \<open>xs' \<noteq> []\<close>] chain_lt [OF ch'(2)] hd y by simp_all
      have ids: "item_ids xs' @ item_ids ys' = item_ids xs @ item_ids ys"
        "item_leaf_ids xs' @ item_leaf_ids ys' = item_leaf_ids xs @ item_leaf_ids ys"
        "item_rows xs' @ item_rows ys' = item_rows xs @ item_rows ys"
        using arg_cong [OF zs, of item_ids] arg_cong [OF zs, of item_leaf_ids] arg_cong [OF zs, of item_rows]
        by (simp_all add: zs_def)
      have out: "b \<notin> set (item_ids zs)" "c \<notin> set (item_ids zs)" using pt(7) by (auto simp: L(1) R(1) zs_def)
      have reps: "\<forall>x \<in> set zs. rep v (snd x)" using pt(3,4) by (auto simp: L(1) R(1) zs_def)
      have rp: "rep v' (Branch b xs') \<and> rep v' (Branch c ys')"
        if vb: "v' b = Some l'" "v' c = Some r'"
          and vx: "\<And>x. x \<in> set (pids L) \<union> set (pids R) \<Longrightarrow> x \<noteq> b \<Longrightarrow> x \<noteq> c \<Longrightarrow> v' x = v x" for v'
      proof -
        have same: "v' x = v x" if x: "x \<in> set (item_ids zs)" for x
        proof (rule vx)
          show "x \<in> set (pids L) \<union> set (pids R)" using x by (auto simp: L(1) R(1) zs_def)
          show "x \<noteq> b" "x \<noteq> c" using x out by blast+
        qed
        have "\<forall>x \<in> set zs. rep v' (snd x)" by (rule rep_items_agree [OF reps]) (rule same)
        then show ?thesis using vb internals(3,4) eq t1 by (auto simp: zs)
      qed
      have ms: "mset (item_ids xs') + mset (item_ids ys') = mset (item_ids xs) + mset (item_ids ys)"
        using arg_cong [OF ids(1), of mset] by simp
      show thesis
        using ch' hd low len rp Suc ids(2,3) ms
        by (intro that [of "Branch b xs'" "Branch c ys'"]) (auto simp: L(1) R(1) y)
    qed (use b in auto)
  qed
qed

section \<open>The tree after a step\<close>

abbreviation couple_tree :: "page_id \<Rightarrow> items \<Rightarrow> key option \<Rightarrow> btree \<Rightarrow> key \<Rightarrow> btree \<Rightarrow> items \<Rightarrow> crumb list \<Rightarrow> btree" where
  "couple_tree i ps la L k R qs cs \<equiv> plug cs (Branch i (ps @ (la, L) # (Some k, R) # qs))"

lemma couple_ids:
  "set (pids (couple_tree i ps la L k R qs cs)) =
    insert i (set (pids L) \<union> set (pids R) \<union> set (item_ids ps) \<union> set (item_ids qs) \<union> set (path_ids cs))"
  by (auto simp: set_ids_plug)

lemma couple_leaf_ids:
  "set (left_leaves cs @ item_leaf_ids ps @ leaf_ids L @ leaf_ids R @ item_leaf_ids qs @ right_leaves cs) \<subseteq>
    set (pids L) \<union> set (pids R) \<union> set (item_ids ps) \<union> set (item_ids qs) \<union> set (path_ids cs)"
  using path_leaf_subset [of cs] leaf_ids_subset [of L] leaf_ids_subset [of R] item_leaf_subset [of ps] item_leaf_subset [of qs]
  unfolding set_append by blast

lemma apart_lists:
  assumes "distinct (i # xs @ ys @ zs)" and "l \<in> set xs" and "r \<in> set ys"
  shows "i \<noteq> l" and "i \<noteq> r" and "l \<noteq> r" and "i \<notin> set xs \<union> set ys" and "x \<in> set zs \<Longrightarrow> x \<noteq> i \<and> x \<noteq> l \<and> x \<noteq> r"
    and "r \<notin> set xs" and "l \<notin> set ys"
  using assms by auto

lemma couple_apart:
  assumes "couple E v j i ps la L k R qs cs"
  shows "i \<noteq> tid L" and "i \<noteq> tid R" and "tid L \<noteq> tid R" and "i \<notin> set (pids L) \<union> set (pids R)"
    and "x \<in> set (item_ids ps) \<union> set (item_ids qs) \<union> set (path_ids cs) \<Longrightarrow> x \<noteq> i \<and> x \<noteq> tid L \<and> x \<noteq> tid R"
    and "tid R \<notin> set (pids L)" and "tid L \<notin> set (pids R)"
  using apart_lists [OF couple_parts(7) [OF assms] tid_in_ids tid_in_ids]
  unfolding set_append Un_assoc by blast+

lemma after_borrow:
  assumes cp: "couple E v j i ps la L k R qs cs" and l: "v (tid L) = Some l" "pg_id l = tid L"
    and r: "v (tid R) = Some r" "pg_id r = tid R" and sib: "siblings E l k r" and mv: "moved E l k r l' k' r'"
    and some: "1 \<le> num_items l'" "1 \<le> num_items r'"
  obtains L' R' where "tid L' = tid L" "tid R' = tid R"
    "chain (wf_tree E j) (hole_high cs) (ps @ (la, L') # (Some k', R') # qs)"
    "\<And>p'. body p' = branch_body (ps @ (la, L') # (Some k', R') # qs) \<Longrightarrow>
      \<exists>t. tree_in E (v(tid L \<mapsto> l', tid R \<mapsto> r', i \<mapsto> p')) (Suc j + length cs) t \<and>
        rows t = rows (couple_tree i ps la L k R qs cs) \<and> set (pids t) = set (pids (couple_tree i ps la L k R qs cs)) \<and>
        tid t = tid (couple_tree i ps la L k R qs cs)"
proof -
  note pt = couple_parts [OF cp]
  let ?h = "low qs (hole_high cs)"
  obtain L' R' where tr: "tid L' = tid L" "tid R' = tid R" "wf_tree E j la (Some k') L'" "wf_tree E j (Some k') ?h R'"
    "lt_bound la (Some k')" "lt_bound (Some k') ?h" "rows L' @ rows R' = rows L @ rows R"
    "mset (pids L') + mset (pids R') = mset (pids L) + mset (pids R)" "leaf_ids L' @ leaf_ids R' = leaf_ids L @ leaf_ids R"
    and rp: "\<And>v'. v' (tid L) = Some l' \<Longrightarrow> v' (tid R) = Some r' \<Longrightarrow>
      (\<And>x. x \<in> set (pids L) \<union> set (pids R) \<Longrightarrow> x \<noteq> tid L \<Longrightarrow> x \<noteq> tid R \<Longrightarrow> v' x = v x) \<Longrightarrow> rep v' L' \<and> rep v' R'"
    by (rule moved_trees [OF cp l(1) r(1) sib mv some]) blast
  let ?zs = "[(la, L'), (Some k', R')]"
  have zs: "chain (wf_tree E j) ?h ?zs" using tr by simp
  have "chain (wf_tree E j) la ps" "ps \<noteq> [] \<longrightarrow> la \<noteq> None" "chain (wf_tree E j) (hole_high cs) qs"
    "qs \<noteq> [] \<longrightarrow> fst (hd qs) \<noteq> None" using cp by (simp_all add: couple_def)
  then have ch: "chain (wf_tree E j) (hole_high cs) (ps @ (la, L') # (Some k', R') # qs)"
    using tr by (simp add: chain_append)
  show thesis
  proof (rule that [OF tr(1,2) ch])
    fix p' :: page assume p': "body p' = branch_body (ps @ (la, L') # (Some k', R') # qs)"
    let ?v = "v(tid L \<mapsto> l', tid R \<mapsto> r', i \<mapsto> p')"
    note apart = couple_apart [OF cp]
    have reps: "rep ?v L' \<and> rep ?v R'" by (rule rp) (use apart(1-4) in auto)
    have links: "links ?v None (left_leaves cs @ item_leaf_ids ps @ leaf_ids L @ leaf_ids R @ item_leaf_ids qs @ right_leaves cs) None"
    proof (rule links_same [OF pt(8)])
      fix x p rs n q
      assume x: "x \<in> set (left_leaves cs @ item_leaf_ids ps @ leaf_ids L @ leaf_ids R @ item_leaf_ids qs @ right_leaves cs)"
        and p: "v x = Some p" "body p = Leaf rs n q"
      have "x \<noteq> i" using pt(7) couple_leaf_ids [of cs ps L R qs] x by auto
      moreover have "\<exists>rs'. body l' = Leaf rs' n q" if "x = tid L"
        using p l that by (cases rule: moved_cases [OF sib mv]) auto
      moreover have "\<exists>rs'. body r' = Leaf rs' n q" if "x = tid R"
        using p r that by (cases rule: moved_cases [OF sib mv]) auto
      ultimately show "\<exists>p' rs'. ?v x = Some p' \<and> body p' = Leaf rs' n q" using p by auto
    qed
    have frame: "relinked (v x) (?v x)" if "x \<in> set (item_ids ps) \<union> set (item_ids qs) \<union> set (path_ids cs)" for x
    proof -
      have "?v x = v x" using apart(5) [OF that] by simp
      then show ?thesis by simp
    qed
    let ?t = "plug cs (Branch i (ps @ ?zs @ qs))"
    have "tree_in E ?v (Suc j + length cs) ?t"
    proof (rule couple_new(2) [OF cp zs _ _ _ _ _ frame])
      show "\<forall>z \<in> set ?zs. rep ?v (snd z)" using reps by simp
      show "?v i = Some p'" by simp
      show "body p' = branch_body (ps @ ?zs @ qs)" using p' by simp
      have "item_leaf_ids ?zs = leaf_ids L @ leaf_ids R" using tr(9) by simp
      then show "links ?v None (left_leaves cs @ item_leaf_ids ps @ item_leaf_ids ?zs @ item_leaf_ids qs @ right_leaves cs) None"
        using links by (simp only: append.assoc)
      show "mset (item_ids ?zs) \<subseteq># mset (pids L) + mset (pids R)" using tr(8) by simp
      show "item_rows ?zs = rows L @ rows R" using tr(7) by simp
    qed simp_all
    moreover have "rows ?t = rows (couple_tree i ps la L k R qs cs)" using tr(7) by (simp add: rows_plug)
    moreover have "set (pids ?t) = set (pids (couple_tree i ps la L k R qs cs))"
    proof -
      have "set (pids L') \<union> set (pids R') = set (pids L) \<union> set (pids R)" using tr(8) by (metis set_mset_mset set_mset_union)
      then show ?thesis unfolding couple_ids by (auto simp: set_ids_plug)
    qed
    moreover have "tid ?t = tid (couple_tree i ps la L k R qs cs)" by (simp add: top_id_plug top_id_def)
    ultimately show "\<exists>t. tree_in E ?v (Suc j + length cs) t \<and> rows t = rows (couple_tree i ps la L k R qs cs) \<and>
        set (pids t) = set (pids (couple_tree i ps la L k R qs cs)) \<and> tid t = tid (couple_tree i ps la L k R qs cs)" by blast
  qed
qed

lemma set_tl: "set (tl xs) \<subseteq> set xs"
  by (cases xs) auto

lemma page_next_Ok: "page_next b = Ok nx \<longleftrightarrow> (\<exists>rs pv. b = Leaf rs nx pv)"
  by (cases b) auto

text \<open>Of a merge the leaf behind the two is told, and the page on the right is gone.\<close>

lemma merge_bodies:
  assumes sib: "siblings E l k r" and con: "body_contents (body l') = pair_contents l k r"
    and nx: "page_next (body l') = page_next (body r)" "page_prev (body l') = page_prev (body l)"
  obtains (leaves) rs pv rs' n where "body l = Leaf rs (Some (pg_id r)) pv" "body r = Leaf rs' n (Some (pg_id l))"
      "body l' = Leaf (rs @ rs') n pv"
  | (internals) "is_internal l" "is_internal r" "is_internal l'"
proof (use sib in \<open>cases rule: siblings_cases\<close>)
  case (leaves rs pv rs' n)
  then show thesis using that(1) con nx by (cases "body l'") (simp_all add: pair_contents_def)
next
  case (internals ks cs ks' cs')
  then show thesis using that(2) con by (cases "body l'") (simp_all add: pair_contents_def kind_defs)
qed

lemma after_merge:
  assumes cp: "couple E v j i ps la L k R qs cs" and l: "v (tid L) = Some l" "pg_id l = tid L"
    and r: "v (tid R) = Some r" "pg_id r = tid R" and sib: "siblings E l k r"
    and con: "body_contents (body l') = pair_contents l k r"
    and nx: "page_next (body l') = page_next (body r)" "page_prev (body l') = page_prev (body l)"
  obtains M where "tid M = tid L"
    "\<And>v' p'. v' (tid L) = Some l' \<Longrightarrow> v' i = Some p' \<Longrightarrow> body p' = branch_body (ps @ (la, M) # qs) \<Longrightarrow>
      (\<And>x. x \<in> set (pids (couple_tree i ps la L k R qs cs)) \<Longrightarrow> x \<noteq> i \<Longrightarrow> x \<noteq> tid L \<Longrightarrow> x \<noteq> tid R \<Longrightarrow>
        page_next (body l') \<noteq> Ok (Some x) \<Longrightarrow> v' x = v x) \<Longrightarrow>
      (\<And>x p rn n px. page_next (body l') = Ok (Some x) \<Longrightarrow> v x = Some p \<Longrightarrow> body p = Leaf rn n px \<Longrightarrow>
        \<exists>p'. v' x = Some p' \<and> body p' = Leaf rn n (Some (tid L))) \<Longrightarrow>
      loose E v' (Suc j) cs (Branch i (ps @ (la, M) # qs)) \<and>
        rows (plug cs (Branch i (ps @ (la, M) # qs))) = rows (couple_tree i ps la L k R qs cs) \<and>
        set (pids (plug cs (Branch i (ps @ (la, M) # qs)))) = set (pids (couple_tree i ps la L k R qs cs)) - {tid R} \<and>
        tid (plug cs (Branch i (ps @ (la, M) # qs))) = tid (couple_tree i ps la L k R qs cs)"
    "\<And>x. page_next (body l') = Ok (Some x) \<Longrightarrow> x \<in> set (item_ids qs) \<union> set (path_ids cs) \<and> x \<notin> fst ` set cs \<and>
      (\<exists>p rn n px. v x = Some p \<and> body p = Leaf rn n px)"
proof -
  note pt = couple_parts [OF cp] and apart = couple_apart [OF cp]
  let ?h = "low qs (hole_high cs)" and ?t = "couple_tree i ps la L k R qs cs"
  let ?left = "left_leaves cs @ item_leaf_ids ps" and ?right = "item_leaf_ids qs @ right_leaves cs"
  obtain M where M: "tid M = tid L" "wf_tree E j la ?h M" "rows M = rows L @ rows R"
    "mset (pids M) + {#tid R#} = mset (pids L) + mset (pids R)"
    "if j = 0 then leaf_ids L = [tid L] \<and> leaf_ids R = [tid R] \<and> leaf_ids M = [tid L] else leaf_ids M = leaf_ids L @ leaf_ids R"
    and rp: "\<And>v'. v' (tid L) = Some l' \<Longrightarrow>
      (\<And>x. x \<in> set (pids L) \<union> set (pids R) \<Longrightarrow> x \<noteq> tid L \<Longrightarrow> x \<noteq> tid R \<Longrightarrow> v' x = v x) \<Longrightarrow> rep v' M"
    by (rule merged_tree [OF cp l(1) r(1) con]) blast
  have j0: "j = 0" if "page_next (body l') = Ok (Some x)" for x
    using that couple_siblings(2) [OF cp l _ r] siblings_invs [OF sib]
    by (cases rule: merge_bodies [OF sib con nx]) (auto simp: kind_defs page_next_Ok)
  have nxt: "x \<in> set ?right \<and> (\<exists>p rn n px. v x = Some p \<and> body p = Leaf rn n px) \<and> (\<exists>rest. ?right = x # rest)"
    if x: "page_next (body l') = Ok (Some x)" for x
  proof -
    have li: "links v None ((?left @ [tid L]) @ tid R # ?right) None" using pt(8) M(5) j0 [OF x] by simp
    obtain rs' where "body r = Leaf rs' (Some x) (Some (tid L))" using x nx(1) sib l(2)
      by (cases rule: merge_bodies [OF sib con nx]) (auto simp: kind_defs page_next_Ok)
    then have "Some x = (case ?right of [] \<Rightarrow> None | j # _ \<Rightarrow> Some j)" using links_at [OF li] r(1) by auto
    then obtain rest where rest: "?right = x # rest" by (cases ?right) auto
    have "links v None ((?left @ [tid L, tid R]) @ x # rest) None" using li rest by simp
    from links_at [OF this] rest show ?thesis by auto
  qed
  have rightU: "set ?right \<subseteq> set (item_ids qs) \<union> set (path_ids cs)"
    using path_leaf_subset [of cs] item_leaf_subset [of qs] unfolding set_append by blast
  show thesis
  proof (rule that [OF M(1)])
    fix x assume x: "page_next (body l') = Ok (Some x)"
    have "distinct (path_ids cs)" "set (item_ids qs) \<inter> set (path_ids cs) = {}" using pt(7) by auto
    then have "x \<notin> fst ` set cs"
      using nxt [OF x] path_tops_leaves [of cs] path_tops [of cs] item_leaf_subset [of qs] unfolding set_append by blast
    then show "x \<in> set (item_ids qs) \<union> set (path_ids cs) \<and> x \<notin> fst ` set cs \<and>
        (\<exists>p rn n px. v x = Some p \<and> body p = Leaf rn n px)"
      using nxt [OF x] rightU by blast
  next
    fix v' and p' :: page
    assume vl: "v' (tid L) = Some l'" and p': "v' i = Some p'" "body p' = branch_body (ps @ (la, M) # qs)"
      and vx: "\<And>x. x \<in> set (pids ?t) \<Longrightarrow> x \<noteq> i \<Longrightarrow> x \<noteq> tid L \<Longrightarrow> x \<noteq> tid R \<Longrightarrow>
        page_next (body l') \<noteq> Ok (Some x) \<Longrightarrow> v' x = v x"
      and vn: "\<And>x p rn n px. page_next (body l') = Ok (Some x) \<Longrightarrow> v x = Some p \<Longrightarrow> body p = Leaf rn n px \<Longrightarrow>
        \<exists>p'. v' x = Some p' \<and> body p' = Leaf rn n (Some (tid L))"
    let ?U = "set (item_ids ps) \<union> set (item_ids qs) \<union> set (path_ids cs)"
    have sub: "set (pids L) \<union> set (pids R) \<union> ?U \<subseteq> set (pids ?t)" unfolding couple_ids by blast
    have disU: "(set (pids L) \<union> set (pids R)) \<inter> ?U = {}" using pt(7) by auto
    have repM: "rep v' M"
    proof (rule rp [of v', OF vl])
      fix x assume x: "x \<in> set (pids L) \<union> set (pids R)" "x \<noteq> tid L" "x \<noteq> tid R"
      show "v' x = v x"
      proof (rule vx [OF _ _ x(2,3)])
        show "x \<in> set (pids ?t)" using x(1) sub by blast
        show "x \<noteq> i" using x(1) apart(4) by blast
        show "page_next (body l') \<noteq> Ok (Some x)" using nxt [of x] rightU x(1) disU by blast
      qed
    qed
    have outside: "v' x = v x" if "x \<in> ?U" "page_next (body l') \<noteq> Ok (Some x)" for x
      using vx [of x] that sub apart(5) [OF that(1)] by blast
    have frame: "relinked (v x) (v' x)" if x: "x \<in> ?U" for x
    proof (cases "page_next (body l') = Ok (Some x)")
      case True
      obtain p rn n px where p: "v x = Some p" "body p = Leaf rn n px" using nxt [OF True] by blast
      then show ?thesis using vn [OF True p] by (auto simp: relinked_def)
    qed (use outside [OF x] in simp)
    have links: "links v' None (?left @ leaf_ids M @ ?right) None"
    proof (cases "j = 0")
      case True
      have li: "links v None (?left @ tid L # tid R # ?right) None" using pt(8) M(5) True by simp
      have dis: "distinct (?left @ tid L # tid R # ?right)"
      proof -
        have "distinct (pids ?t)" using cp by (simp add: couple_def)
        then show ?thesis using leaf_ids_distinct [of ?t] M(5) True by (simp add: leaf_ids_plug)
      qed
      have same: "v' x = v x" if "x \<in> set ?left \<union> set (tl ?right)" for x
      proof (rule outside)
        have "set ?left \<subseteq> set (item_ids ps) \<union> set (path_ids cs)"
          using path_leaf_subset [of cs] item_leaf_subset [of ps] unfolding set_append by blast
        then show "x \<in> ?U" using that rightU set_tl [of ?right] by blast
        show "page_next (body l') \<noteq> Ok (Some x)"
        proof
          assume "page_next (body l') = Ok (Some x)"
          then obtain rest where rr: "?right = x # rest" using nxt by blast
          have "distinct (?left @ x # rest)" using dis unfolding rr by simp
          then have "x \<notin> set ?left \<union> set rest" by auto
          then show False using that unfolding rr by simp
        qed
      qed
      obtain rs pv rs' n where bo: "body l = Leaf rs (Some (pg_id r)) pv" "body r = Leaf rs' n (Some (pg_id l))"
          "body l' = Leaf (rs @ rs') n pv"
        using couple_siblings(2) [OF cp l _ r] siblings_invs [OF sib] True
        by (cases rule: merge_bodies [OF sib con nx]) (auto simp: kind_defs)
      have "links v' None (?left @ tid L # ?right) None"
      proof (rule links_remove [OF li l(1) bo(1) vl bo(3) r(1) bo(2) _ same])
        fix j rest x rn n' px assume "?right = j # rest" and x: "v j = Some x" "body x = Leaf rn n' px"
        then have "n = Some j" using links_at [of v None "?left @ [tid L]" "tid R" ?right None] li r(1) bo(2) by auto
        then show "\<exists>x' rn'. v' j = Some x' \<and> body x' = Leaf rn' n' (Some (tid L))"
          using vn [OF _ x] bo(3) by auto
      qed
      then show ?thesis using M(5) True by simp
    next
      case False
      have "links v' None (?left @ leaf_ids L @ leaf_ids R @ ?right) None"
      proof (rule links_same)
        show "links v None (?left @ leaf_ids L @ leaf_ids R @ ?right) None" using pt(8) by simp
        fix x p rs n q assume x: "x \<in> set (?left @ leaf_ids L @ leaf_ids R @ ?right)" and p: "v x = Some p" "body p = Leaf rs n q"
        have "is_internal l" "is_internal r"
          using couple_siblings(2) [OF cp l _ r] siblings_invs [OF sib] False
          by (cases rule: merge_bodies [OF sib con nx]; simp add: kind_defs)+
        then have ne: "x \<noteq> tid L" "x \<noteq> tid R" using p l r by (auto simp: kind_defs)
        have "x \<in> set (pids L) \<union> set (pids R) \<union> ?U" using x couple_leaf_ids [of cs ps L R qs] by auto
        moreover have "x \<noteq> i" using calculation apart(4,5) by blast
        moreover have "page_next (body l') \<noteq> Ok (Some x)" using j0 False by blast
        ultimately have "v' x = v x" using vx ne sub by blast
        then show "\<exists>p' rs'. v' x = Some p' \<and> body p' = Leaf rs' n q" using p by simp
      qed
      then show ?thesis using M(5) False by simp
    qed
    have zs: "chain (wf_tree E j) ?h [(la, M)]"
      using M(2) cp lt_bound_trans [of la k ?h] by (simp add: couple_def)
    have prems: "[(la, M)] \<noteq> []" "fst (hd [(la, M)]) = la" "\<forall>z \<in> set [(la, M)]. rep v' (snd z)"
      "body p' = branch_body (ps @ [(la, M)] @ qs)"
      "links v' None (left_leaves cs @ item_leaf_ids ps @ item_leaf_ids [(la, M)] @ item_leaf_ids qs @ right_leaves cs) None"
      "mset (item_ids [(la, M)]) \<subseteq># mset (pids L) + mset (pids R)" "item_rows [(la, M)] = rows L @ rows R"
      using repM p'(2) links M(3) by (simp_all add: M(4) [symmetric])
    note new = couple_new [where v' = v' and p' = p', OF cp zs prems(1-3) p'(1) prems(4) frame prems(5-7), simplified append_Cons append_Nil]
    have "set (pids M) = set (pids L) \<union> set (pids R) - {tid R}"
    proof -
      have "set (pids M) \<union> {tid R} = set (pids L) \<union> set (pids R)"
        using arg_cong [OF M(4), of set_mset] by simp
      moreover have "tid R \<notin> set (pids M)"
      proof
        assume "tid R \<in> set (pids M)"
        then have "1 \<le> count (mset (pids M)) (tid R)" by (simp add: Suc_le_eq)
        moreover have "count (mset (pids M)) (tid R) + 1 = count (mset (pids L) + mset (pids R)) (tid R)"
          using arg_cong [OF M(4), of "\<lambda>m. count m (tid R)"] by simp
        moreover have "distinct (pids L @ pids R)" using pt(7) by auto
        then have "count (mset (pids L @ pids R)) (tid R) \<le> 1" by (simp only: distinct_count_atmost_1) simp
        ultimately show False unfolding mset_append by linarith
      qed
      ultimately show ?thesis by blast
    qed
    moreover have "tid R \<notin> insert i ?U" using apart(2,5) by blast
    moreover have "set (pids (plug cs (Branch i (ps @ (la, M) # qs)))) = set (pids M) \<union> insert i ?U"
      by (auto simp: set_ids_plug)
    moreover have "set (pids ?t) = (set (pids L) \<union> set (pids R)) \<union> insert i ?U" unfolding couple_ids by blast
    ultimately have "set (pids (plug cs (Branch i (ps @ (la, M) # qs)))) = set (pids ?t) - {tid R}" by blast
    then show "loose E v' (Suc j) cs (Branch i (ps @ (la, M) # qs)) \<and>
        rows (plug cs (Branch i (ps @ (la, M) # qs))) = rows ?t \<and>
        set (pids (plug cs (Branch i (ps @ (la, M) # qs)))) = set (pids ?t) - {tid R} \<and>
        tid (plug cs (Branch i (ps @ (la, M) # qs))) = tid ?t"
      using new(1,3,5) by simp
  qed
qed

section \<open>The keys of a tree\<close>

definition keys_on :: "page \<Rightarrow> key set" where
  "keys_on p = (case body p of Leaf rs nx pv \<Rightarrow> the_key ` set rs | Internal ks cs \<Rightarrow> set ks | _ \<Rightarrow> {})"

definition keys_in :: "key set \<Rightarrow> pages \<Rightarrow> page_id set \<Rightarrow> bool" where
  "keys_in S v U \<longleftrightarrow> (\<forall>i \<in> U. \<forall>p. v i = Some p \<longrightarrow> keys_on p \<subseteq> S)"

text \<open>Keys that all take the same room: then a separator can always be replaced by another.\<close>

definition same_size :: "env \<Rightarrow> key set \<Rightarrow> bool" where
  "same_size E S \<longleftrightarrow> (\<forall>a \<in> S. \<forall>b \<in> S. internal_entry_size E a = internal_entry_size E b)"

lemma keys_on_simps:
  "body p = Leaf rs nx pv \<Longrightarrow> keys_on p = the_key ` set rs" "body p = Internal ks cs \<Longrightarrow> keys_on p = set ks"
  "body p = Free f \<Longrightarrow> keys_on p = {}"
  by (simp_all add: keys_on_def)

lemma keys_inD: "keys_in S v U \<Longrightarrow> i \<in> U \<Longrightarrow> v i = Some p \<Longrightarrow> keys_on p \<subseteq> S"
  by (simp add: keys_in_def)

lemma keys_in_tree: "rep v t \<Longrightarrow> keys_in S v (set (pids t)) \<longleftrightarrow> tree_keys t \<subseteq> S"
proof (induction t rule: pids.induct)
  case (2 i xs)
  obtain p where p: "v i = Some p" "body p = branch_body xs" using 2(2) by auto
  have "(\<forall>x \<in> set xs. keys_in S v (set (pids (snd x)))) \<longleftrightarrow> (\<forall>x \<in> set xs. tree_keys (snd x) \<subseteq> S)"
    using 2 by auto
  moreover have "keys_in S v (set (pids (Branch i xs))) \<longleftrightarrow>
      keys_on p \<subseteq> S \<and> (\<forall>x \<in> set xs. keys_in S v (set (pids (snd x))))"
    using p(1) by (auto simp: keys_in_def)
  ultimately show ?case using keys_on_simps(2) [OF p(2)] by (simp add: UN_subset_iff)
qed (force simp: keys_in_def keys_on_def)

lemma keys_in_step:
  assumes "keys_in S v U" and "U' \<subseteq> U" and "\<And>i p. i \<in> U' \<Longrightarrow> v' i = Some p \<Longrightarrow> v' i \<noteq> v i \<Longrightarrow> keys_on p \<subseteq> S"
  shows "keys_in S v' U'"
  unfolding keys_in_def
proof (intro ballI allI impI)
  fix i p assume i: "i \<in> U'" "v' i = Some p"
  show "keys_on p \<subseteq> S"
  proof (cases "v' i = v i")
    case True
    then show ?thesis using keys_inD [OF assms(1), of i p] i assms(2) by auto
  qed (use assms(3) i in blast)
qed

lemma moved_keys:
  assumes "siblings E l k r" and "moved E l k r l' k' r'"
  shows "keys_on l' \<union> keys_on r' \<union> {k'} \<subseteq> keys_on l \<union> keys_on r \<union> {k}"
proof (use assms in \<open>cases rule: moved_cases\<close>)
  case (leaves rs pv rs' n rs1 rs2)
  have "the_key ` set rs1 \<union> the_key ` set rs2 = the_key ` set rs \<union> the_key ` set rs'"
    using arg_cong [OF leaves(5), of set] by (simp add: image_Un [symmetric])
  then show ?thesis using leaves(10) by (auto simp: keys_on_def leaves(1-4) image_Un)
next
  case (internals ks cs ks' cs' ks1 cs1 ks2 cs2)
  have "set (ks1 @ k' # ks2) = set (ks @ k # ks')" using internals(5) by (rule arg_cong)
  then show ?thesis by (auto simp: keys_on_def internals(1-4))
qed

lemma merged_keys:
  assumes sib: "siblings E l k r" and con: "body_contents (body l') = pair_contents l k r"
    and nx: "page_next (body l') = page_next (body r)" "page_prev (body l') = page_prev (body l)"
  shows "keys_on l' \<subseteq> keys_on l \<union> keys_on r \<union> {k}"
proof (use sib in \<open>cases rule: siblings_cases\<close>)
  case (leaves rs pv rs' n)
  then show ?thesis using con by (cases "body l'") (auto simp: pair_contents_def keys_on_def)
next
  case (internals ks cs ks' cs')
  then show ?thesis using con by (cases "body l'") (auto simp: pair_contents_def keys_on_def)
qed

lemma merged_storable:
  assumes sib: "siblings E l k r" and con: "body_contents (body l') = pair_contents l k r"
    and nx: "page_next (body l') = page_next (body r)" "page_prev (body l') = page_prev (body l)"
    and st: "storable E l" "storable E r" "key_wf k" and l': "page_inv E l'" "last_update l' = last_update l"
  shows "storable E l'"
proof (use sib in \<open>cases rule: siblings_cases\<close>)
  case (leaves rs pv rs' n)
  then have b: "body l' = Leaf (rs @ rs') n pv" using con nx by (cases "body l'") (simp_all add: pair_contents_def)
  have "\<forall>x \<in> set (rs @ rs'). row_wf x"
    using st by (auto simp: storable_leaf [OF leaves(1)] storable_leaf [OF leaves(2)])
  then show ?thesis using st l' by (simp add: storable_leaf [OF leaves(1)] storable_leaf [OF b])
next
  case (internals ks cs ks' cs')
  then have b: "body l' = Internal (ks @ k # ks') (cs @ cs')" using con by (cases "body l'") (simp_all add: pair_contents_def)
  show ?thesis
    using st l' by (auto simp: storable_internal [OF internals(1)] storable_internal [OF internals(2)] storable_internal [OF b])
qed

lemma item_keys:
  assumes "body p = branch_body (as @ (a, t) # (Some k, u) # bs)"
  shows "k \<in> keys_on p" and "body q = branch_body (as @ (a, t') # bs) \<Longrightarrow> keys_on q \<subseteq> keys_on p"
    and "body q = branch_body (as @ (a, t') # (Some k', u') # bs) \<Longrightarrow> keys_on q \<subseteq> insert k' (keys_on p)"
proof -
  have p: "keys_on p = set (seps (map fst as @ [a])) \<union> insert k (set (map (\<lambda>x. the (fst x)) bs))"
    unfolding keys_on_simps(2) [OF assms] sep_between by simp
  show "k \<in> keys_on p" by (simp add: p)
  show "keys_on q \<subseteq> keys_on p" if "body q = branch_body (as @ (a, t') # bs)"
    unfolding keys_on_simps(2) [OF that] seps_without p by auto
  show "keys_on q \<subseteq> insert k' (keys_on p)" if "body q = branch_body (as @ (a, t') # (Some k', u') # bs)"
    unfolding keys_on_simps(2) [OF that] sep_between p by auto
qed

section \<open>Removing a row\<close>

lemma remove_row:
  assumes b: "body p = Leaf rs n pv" and st: "storable E p"
  shows "\<exists>p' rs'. leaf_remove E p k = (Ok (rows_map rs k), p') \<and> body p' = Leaf rs' n pv \<and> storable E p' \<and> pg_id p' = pg_id p \<and>
    rows_ok E rs' \<and> set rs' \<subseteq> set rs \<and> rows_map rs' = (rows_map rs)(k := None) \<and> (rows_map rs k = None \<longrightarrow> p' = p)"
proof (cases "k \<in> set (row_keys rs)")
  case False
  then have "rows_map rs k = None" by (simp add: rows_map_None_iff)
  moreover from this have "(rows_map rs)(k := None) = rows_map rs" by auto
  ultimately show ?thesis
    using False st leaf_remove_eq [OF b storable_inv [OF st]] b storable_inv [OF st] by (auto simp: page_inv_leaf [OF b])
next
  case True
  let ?i = "ins_pos k (row_keys rs)"
  let ?rs = "take ?i rs @ drop (Suc ?i) rs"
  let ?p = "p\<lparr>body := Leaf ?rs n pv\<rparr>"
  have ok: "rows_ok E rs" and size: "rows_size E rs \<le> LEAF_USABLE" using storable_inv [OF st] by (simp_all add: page_inv_leaf [OF b])
  have "sorted_wrt (<) (row_keys rs)" using ok by (simp add: rows_ok_iff)
  then have i: "?i < length rs" "row_keys rs ! ?i = k" using ins_pos_found [of "row_keys rs" k] True by auto
  then have key: "the_key (rs ! ?i) = k" by (simp add: row_keys_def)
  have rm: "rows_ok E ?rs" "rows_map ?rs = (rows_map rs)(k := None)" using remove_rows_ok [OF ok i(1)] key by simp_all
  have "page_inv E ?p"
    using rm(1) size sum_list_remove [OF i(1), of "leaf_entry_size E"] by (simp add: page_inv_leaf [of ?p, simplified])
  moreover have "\<forall>r \<in> set ?rs. row_wf r" using st set_remove_at_subset [of ?i rs] by (simp only: storable_leaf [OF b]) blast
  ultimately have "storable E ?p" using st by (intro storable_leaf_upd [OF st b, where rs' = ?rs and n' = n and pv' = pv]) simp_all
  moreover have "rows_map rs k = Some (rs ! ?i)" using rows_map_nth [OF ok i(1)] key by simp
  ultimately show ?thesis
    using leaf_remove_eq [OF b storable_inv [OF st]] True rm set_remove_at_subset [of ?i rs]
    by (intro exI [of _ ?p] exI [of _ ?rs]) (simp add: Let_def)
qed

lemma rows_map_shrink:
  assumes "path_ok E j cs" and "within (hole_low cs) (hole_high cs) k" and "rows_map rs' = (rows_map rs)(k := None)"
  shows "rows_map (left_rows cs @ rs' @ right_rows cs) = (rows_map (left_rows cs @ rs @ right_rows cs))(k := None)"
proof -
  have "rows_map (left_rows cs @ [] @ right_rows cs) k = rows_map [] k" by (rule rows_map_around [OF assms(1,2)])
  then have "rows_map (left_rows cs) k = None" "rows_map (right_rows cs) k = None"
    by (auto simp: rows_map_append map_add_def split: option.splits)
  then show ?thesis using assms(3) by (auto simp: rows_map_append map_add_def fun_eq_iff split: option.splits)
qed

end
