(* ===== verification/BTree_Delete.thy ===== *)
theory BTree_Delete
  imports BTree_Insert Tree_Shrink
begin

text \<open>
  Deletion from the tree. The way down keeps the write guards from the last page on that a deletion cannot make
  underfull; then pages are merged upwards along them until one is not underfull, can borrow, or is the root.
\<close>

section \<open>Ancestors\<close>

definition crumb_index :: "crumb \<Rightarrow> child_index" where
  "crumb_index c = ChildIndex (length (fst (snd c)))"

abbreviation ancs :: "(page_id \<times> frame_id) list \<Rightarrow> crumb list \<Rightarrow> (page_write_guard \<times> child_index) list" where
  "ancs hs cs \<equiv> map2 (\<lambda>h c. (PageWriteGuard (snd h), crumb_index c)) hs cs"

lemma fst_ancs: "length hs = length cs \<Longrightarrow> map fst (ancs hs cs) = guards hs"
  by (induction hs cs rule: list_induct2) simp_all

text \<open>One level down.\<close>

lemma descent_index:
  assumes d: "descent E v t key m (Suc k) cs1 cs2 t' hs" and inv: "\<And>p. v (tid t') = Some p \<Longrightarrow> page_inv E p"
  obtains p c t2 where "v (tid t') = Some p" "is_internal p" "find_child_index p key = Ok (Some (crumb_index c, tid t2))"
    "fst c = tid t'" "tid t2 \<in> set (pids t')" "distinct (pids t') \<Longrightarrow> tid t2 \<noteq> tid t'"
    "\<And>i. descent E v t key m k (c # cs1) cs2 t2 ((tid t', i) # hs)"
    "\<And>i. descent E v t key m k [c] (cs1 @ cs2) t2 [(tid t', i)]"
proof -
  have pl: "place E v (Suc k) (cs1 @ cs2) t'" and wi: "within (hole_low (cs1 @ cs2)) (hole_high (cs1 @ cs2)) key"
    using d by (simp_all add: descent_def)
  obtain j p as a t2 bs where s: "t' = Branch j (as @ (a, t2) # bs)" "v (tid t') = Some p"
      "find_child_index p key = Ok (Some (ChildIndex (length as), tid t2))" "place E v k ((j, as, a, bs) # cs1 @ cs2) t2"
      "within a (low bs (hole_high (cs1 @ cs2))) key"
    by (rule place_down [OF pl inv wi]) auto
  show thesis
    by (rule that [of p "(j, as, a, bs)" t2])
      (use s d place_page [OF pl] in \<open>auto simp: descent_def crumb_index_def\<close>)
qed

context buffer_pool begin

lemma wp_drop_ancestors:
  assumes "trk h n v (wguards hs + H) s" and "length hs = length cs" and "\<And>s'. trk h n v H s' \<Longrightarrow> Q () s'"
  shows "wp h (Some (drop_ancestors E (ancs hs cs) s)) Q X"
  unfolding drop_ancestors_def fst_ancs [OF assms(2)] by (rule wp_drop_all [where hs = hs and H = H and v = v]) (use assms in auto)

definition safe_above :: "pages \<Rightarrow> crumb list \<Rightarrow> crumb list \<Rightarrow> bool" where
  "safe_above v cs1 cs2 \<longleftrightarrow> cs2 = [] \<or> cs1 \<noteq> [] \<and> (\<exists>p. v (fst (last cs1)) = Some p \<and> is_delete_safe E p)"

definition at_delete ::
  "bool \<Rightarrow> nat \<Rightarrow> pages \<Rightarrow> btree \<Rightarrow> key \<Rightarrow> nat \<Rightarrow> nat \<Rightarrow> page_write_guard \<times> (page_write_guard \<times> child_index) list \<Rightarrow>
   ('d, 'e) bpm \<Rightarrow> bool" where
  "at_delete h n v t key m k x s \<longleftrightarrow> (\<exists>i hs cs1 cs2 t'. x = (PageWriteGuard i, ancs hs cs1) \<and>
     descent E v t key m k cs1 cs2 t' hs \<and> trk h n v (add_mset (wguard (tid t') i) (wguards hs)) s \<and> safe_above v cs1 cs2)"

lemma wp_delete_step:
  assumes E: "varint_ok E" and at: "at_delete h n v t key m k x s" and dis: "distinct (pids t)" and room: "h \<longrightarrow> m + 4 \<le> n"
    and X: "\<And>e s'. \<not> h \<Longrightarrow> X e s'"
  shows "wp h (Some (delete_step E D V key x s))
    (\<lambda>y s'. case y of Inl x' \<Rightarrow> (\<exists>k' < k. at_delete h n v t key m k' x' s') | Inr x' \<Rightarrow> at_delete h n v t key m 0 x' s') X"
proof -
  obtain i hs cs1 cs2 t' where x: "x = (PageWriteGuard i, ancs hs cs1)" and d: "descent E v t key m k cs1 cs2 t' hs"
      and tr: "trk h n v (add_mset (wguard (tid t') i) (wguards hs)) s" and safe: "safe_above v cs1 cs2"
    using at by (auto simp: at_delete_def)
  note held = descent_held [OF d dis]
  have pl: "place E v k (cs1 @ cs2) t'" and t: "plug (cs1 @ cs2) t' = t" and len: "length hs = length cs1"
    using d unfolding descent_def by (simp, simp, metis length_map)
  obtain p where p: "v (tid t') = Some p" "is_internal p \<longleftrightarrow> k \<noteq> 0" using place_page [OF pl] by blast
  show ?thesis
  proof (cases k)
    case 0
    then have "at_delete h n v t key m 0 x s" using at by simp
    then show ?thesis
      unfolding delete_step_def x prod.case wp_simps
      by (intro wp_peek_write [OF tr p(1)]) (simp add: wp_simps p(2) 0)
  next
    case (Suc k')
    obtain c t2 where c: "find_child_index p key = Ok (Some (crumb_index c, tid t2))" "fst c = tid t'"
        "tid t2 \<in> set (pids t')" "distinct (pids t') \<Longrightarrow> tid t2 \<noteq> tid t'"
        "\<And>i. descent E v t key m k' (c # cs1) cs2 t2 ((tid t', i) # hs)"
        "\<And>i. descent E v t key m k' [c] (cs1 @ cs2) t2 [(tid t', i)]"
      by (rule descent_index [OF d [unfolded Suc] trk_inv [OF tr]]) (use p(1) in auto)
    obtain q where q: "v (tid t2) = Some q"
      using place_page [of E v k' "[c] @ cs1 @ cs2" t2] c(6) by (auto simp: descent_def)
    have "distinct (pids t')" using dis t distinct_plug [of "cs1 @ cs2" t'] by simp
    then have ne: "tid t2 \<noteq> tid t'" by (rule c(4))
    have go: "wp h (Some (else_drop (lift_err BTreeBpm (fetch_write E D V (tid t2)))
          (drop_ancestors E (ancs ((tid t', i) # hs') (c # ds))) s'))
        (\<lambda>child s'. \<exists>k' < k. at_delete h n v t key m k' (child, ancs ((tid t', i) # hs') (c # ds)) s') X"
      if tr': "trk h n v (add_mset (wguard (tid t') i) (wguards hs')) s'" and sub: "fst ` set hs' \<subseteq> fst ` set hs" "length hs' \<le> length hs"
        and d': "descent E v t key m k' (c # ds) es t2 ((tid t', i) # hs')" "safe_above v (c # ds) es" for s' hs' ds es
      unfolding wp_simps
    proof (rule wp_fetch_write [OF E tr' q], goal_cases)
      case 1
      have "tid t2 \<notin> fst ` set hs'" using held(1) c(3) sub(1) by blast
      then show ?case using ne by force
    next
      case 2
      then show ?case using room held(3) sub(2) by (auto simp: Suc)
    next
      case (3 j s2)
      then have "at_delete h n v t key m k' (PageWriteGuard j, ancs ((tid t', i) # hs') (c # ds)) s2"
        unfolding at_delete_def using d'
        by (intro exI [of _ j] exI [of _ "(tid t', i) # hs'"] exI [of _ "c # ds"] exI [of _ es] exI [of _ t2]) simp
      then show ?case using Suc by blast
    next
      case (4 e s2)
      then show ?case using X by (intro wp_trivial) auto
    qed
    show ?thesis
      unfolding delete_step_def x prod.case wp_simps
      apply (rule wp_peek_write [OF tr p(1)])
      apply (simp only: wp_simps c(1) p(2) Suc map_err.simps rbind.simps expect.simps prod.case if_False simp_thms nat.distinct)
      apply (cases "is_delete_safe E p"; simp only: wp_simps if_True if_False)
      subgoal
        apply (rule wp_drop_ancestors [where H = "{#wguard (tid t') i#}" and v = v and n = n and hs = hs])
        subgoal using tr by simp
        subgoal by (rule len)
        subgoal for s'
          using go [of "[]" s' "[]" "cs1 @ cs2"] c(2,6) p(1)
          by (simp add: safe_above_def wp_simps sum.case Suc)
        done
      subgoal
        using go [OF tr subset_refl order_refl c(5)] safe by (cases "cs1 = []") (simp_all add: safe_above_def wp_simps Suc)
      done
  qed
qed

section \<open>Merging\<close>

text \<open>The pages that are held while two neighbours are repaired.\<close>

lemma trk_rotate: "trk h n v (add_mset a (add_mset b (add_mset c H))) s \<Longrightarrow> trk h n v (add_mset c (add_mset a (add_mset b H))) s"
  by (simp add: add_mset_commute)

lemma wp_merge_siblings:
  assumes E: "varint_ok E" and cp: "couple E v j i ps la L k R qs cs"
    and tr: "trk h n v (add_mset (wguard (tid L) gl) (add_mset (wguard (tid R) gr) (add_mset (wguard i gi) H))) s"
    and sp: "space tbl v (tid (couple_tree i ps la L k R qs cs)) cnt fl (set (pids (couple_tree i ps la L k R qs cs)))"
    and l: "v (tid L) = Some l" and r: "v (tid R) = Some r" and p: "v i = Some p"
    and sib: "siblings E l k r" and can: "can_merge_with E l r k" and H: "held H \<subseteq> fst ` set cs"
    and room: "h \<longrightarrow> size H + 4 \<le> n"
    and Q: "\<And>v' M p' s'. trk h n v' (add_mset (wguard i gi) H) s' \<Longrightarrow> loose E v' (Suc j) cs (Branch i (ps @ (la, M) # qs)) \<Longrightarrow>
      rows (plug cs (Branch i (ps @ (la, M) # qs))) = rows (couple_tree i ps la L k R qs cs) \<Longrightarrow>
      set (pids (plug cs (Branch i (ps @ (la, M) # qs)))) = set (pids (couple_tree i ps la L k R qs cs)) - {tid R} \<Longrightarrow>
      space tbl v' (tid (plug cs (Branch i (ps @ (la, M) # qs)))) cnt (tid R # fl) (set (pids (plug cs (Branch i (ps @ (la, M) # qs))))) \<Longrightarrow>
      (\<And>x. x \<in> fst ` set cs \<Longrightarrow> v' x = v x) \<Longrightarrow> v' i = Some p' \<Longrightarrow>
      entries_size E p' + internal_entry_size E k = entries_size E p \<Longrightarrow>
      (\<And>S. keys_in S v (set (pids (couple_tree i ps la L k R qs cs))) \<Longrightarrow>
        keys_in S v' (set (pids (plug cs (Branch i (ps @ (la, M) # qs)))))) \<Longrightarrow> Q () s'"
    and X: "\<And>e s'. \<not> h \<Longrightarrow> X e s'"
  shows "wp h (Some (merge_siblings E D V tbl (PageWriteGuard gi) k (PageWriteGuard gl) (PageWriteGuard gr) s)) Q X"
proof -
  let ?t = "couple_tree i ps la L k R qs cs"
  note pt = couple_parts [OF cp] and apart = couple_apart [OF cp]
  note st = trk_storable [OF tr l] trk_storable [OF tr r] trk_storable [OF tr p]
  obtain l' where l': "merge_from_right E l r k = (Ok (pg_id r), l', make_free r)" "page_inv E l'"
      "body_contents (body l') = pair_contents l k r" "pg_id l' = pg_id l"
      "page_next (body l') = page_next (body r)" "page_prev (body l') = page_prev (body l)" "last_update l' = last_update l"
    using merge_siblings_eq [OF sib] can by auto
  obtain M where M: "tid M = tid L"
    and after: "\<And>v' p'. v' (tid L) = Some l' \<Longrightarrow> v' i = Some p' \<Longrightarrow> body p' = branch_body (ps @ (la, M) # qs) \<Longrightarrow>
      (\<And>x. x \<in> set (pids ?t) \<Longrightarrow> x \<noteq> i \<Longrightarrow> x \<noteq> tid L \<Longrightarrow> x \<noteq> tid R \<Longrightarrow>
        page_next (body l') \<noteq> Ok (Some x) \<Longrightarrow> v' x = v x) \<Longrightarrow>
      (\<And>x p rn n px. page_next (body l') = Ok (Some x) \<Longrightarrow> v x = Some p \<Longrightarrow> body p = Leaf rn n px \<Longrightarrow>
        \<exists>p'. v' x = Some p' \<and> body p' = Leaf rn n (Some (tid L))) \<Longrightarrow>
      loose E v' (Suc j) cs (Branch i (ps @ (la, M) # qs)) \<and>
        rows (plug cs (Branch i (ps @ (la, M) # qs))) = rows ?t \<and>
        set (pids (plug cs (Branch i (ps @ (la, M) # qs)))) = set (pids ?t) - {tid R} \<and>
        tid (plug cs (Branch i (ps @ (la, M) # qs))) = tid ?t"
    and nxt: "\<And>x. page_next (body l') = Ok (Some x) \<Longrightarrow> x \<in> set (item_ids qs) \<union> set (path_ids cs) \<and> x \<notin> fst ` set cs \<and>
      (\<exists>p rn n px. v x = Some p \<and> body p = Leaf rn n px)"
    by (rule after_merge [OF cp l st(2) r st(5) sib l'(3,5,6)]) blast
  have bp: "body p = branch_body (ps @ (la, L) # (Some k, R) # qs)" using pt(2) p by auto
  obtain p' where p': "internal_remove E p k = (Ok (Some (k, tid R)), p')" "body p' = branch_body (ps @ (la, M) # qs)"
      "storable E p'" "pg_id p' = pg_id p" "entries_size E p' + internal_entry_size E k = entries_size E p"
    using remove_item [OF bp st(7) pt(1) M] by blast
  have sub: "insert i (set (pids L) \<union> set (pids R) \<union> set (item_ids qs) \<union> set (path_ids cs)) \<subseteq> set (pids ?t)"
    unfolding couple_ids by blast
  have inT: "tid L \<in> set (pids ?t)" "tid R \<in> set (pids ?t)" "i \<in> set (pids ?t)" using sub by auto
  have tops: "fst ` set cs \<subseteq> set (pids ?t)" "x \<in> fst ` set cs \<Longrightarrow> x \<noteq> i \<and> x \<noteq> tid L \<and> x \<noteq> tid R" for x
    using path_tops [of cs] sub apart(5) [of x] by blast+
  have k: "key_wf k" using storable_key(2) [OF bp st(7)] item_keys(1) [OF bp] keys_on_simps(2) [OF bp] by blast
  have stl: "storable E l'" by (rule merged_storable [OF sib l'(3,5,6) st(1,4) k l'(2,7)])
  have fin: "wp h (Some (table_free E D V tbl (PageWriteGuard gr) s'))
      (\<lambda>x s'. wp h (Some (drop_write E (PageWriteGuard gl) s')) (\<lambda>_. Q x) (\<lambda>_. Q x)) (\<lambda>e s'. \<not> h)"
    if tr': "trk h n v3 (add_mset (wguard (tid R) gr) (add_mset (wguard (tid L) gl) (add_mset (wguard i gi) H))) s'"
      and v3: "v3 (tid L) = Some l'" "v3 i = Some p'" "v3 (tid R) = Some (make_free r)"
      and same: "\<And>x. x \<noteq> i \<Longrightarrow> x \<noteq> tid L \<Longrightarrow> x \<noteq> tid R \<Longrightarrow> page_next (body l') \<noteq> Ok (Some x) \<Longrightarrow> v3 x = v x"
      and nn: "\<And>x p rn n px. page_next (body l') = Ok (Some x) \<Longrightarrow> v x = Some p \<Longrightarrow> body p = Leaf rn n px \<Longrightarrow>
        \<exists>p'. v3 x = Some p' \<and> body p' = Leaf rn n (Some (tid L))" for v3 s'
  proof -
    have dom: "dom v3 = dom v"
    proof -
      have "v3 x = None \<longleftrightarrow> v x = None" for x
      proof (cases "page_next (body l') = Ok (Some x)")
        case True
        obtain o' rn n' px where o: "v x = Some o'" "body o' = Leaf rn n' px" using nxt [OF True] by blast
        then show ?thesis using nn [OF True o] by auto
      next
        case False
        then show ?thesis using same [of x] v3 l r p by (cases "x = i \<or> x = tid L \<or> x = tid R") auto
      qed
      then show ?thesis by (auto simp: dom_def)
    qed
    have sp3: "space tbl v3 (tid ?t) cnt fl (set (pids ?t))"
    proof (rule space_use [OF sp _ dom])
      fix x assume x: "x \<notin> set (pids ?t)"
      then show "v3 x = v x" using same [of x] nxt [of x] inT sub by blast
    qed
    have bf: "body (make_free r) = Free None" by (simp add: make_free_def)
    show ?thesis
    proof (rule wp_table_free [OF E tr' sp3 inT(2) _ v3(3) bf], goal_cases)
      case 1
      show ?case using H tops(1) inT by auto
    next
      case 2
      show ?case using room by auto
    next
      case (3 v4 s4)
      have v4: "v4 x = v3 x" if "x \<in> set (pids ?t)" "x \<noteq> tid R" for x using 3(3) that by blast
      have "loose E v4 (Suc j) cs (Branch i (ps @ (la, M) # qs)) \<and>
        rows (plug cs (Branch i (ps @ (la, M) # qs))) = rows ?t \<and>
        set (pids (plug cs (Branch i (ps @ (la, M) # qs)))) = set (pids ?t) - {tid R} \<and>
        tid (plug cs (Branch i (ps @ (la, M) # qs))) = tid ?t"
      proof (rule after [of v4 p'])
        show "v4 (tid L) = Some l'" "v4 i = Some p'" using v4 inT apart(2,3) v3 by simp_all
        show "body p' = branch_body (ps @ (la, M) # qs)" by (rule p'(2))
        show "v4 x = v x" if "x \<in> set (pids ?t)" "x \<noteq> i" "x \<noteq> tid L" "x \<noteq> tid R" "page_next (body l') \<noteq> Ok (Some x)" for x
          using v4 same that by simp
        fix x p rn n px assume x: "page_next (body l') = Ok (Some x)" "v x = Some p" "body p = Leaf rn n px"
        have "x \<in> set (pids ?t)" "x \<noteq> tid R" using nxt [OF x(1)] sub apart(5) [of x] by blast+
        then show "\<exists>p'. v4 x = Some p' \<and> body p' = Leaf rn n (Some (tid L))" using nn [OF x] v4 by simp
      qed
      then have lo: "loose E v4 (Suc j) cs (Branch i (ps @ (la, M) # qs))"
        and rw: "rows (plug cs (Branch i (ps @ (la, M) # qs))) = rows ?t"
        and ids: "set (pids (plug cs (Branch i (ps @ (la, M) # qs)))) = set (pids ?t) - {tid R}"
        and tid: "tid (plug cs (Branch i (ps @ (la, M) # qs))) = tid ?t" by blast+
      have keys: "keys_in S v4 (set (pids (plug cs (Branch i (ps @ (la, M) # qs)))))" if S: "keys_in S v (set (pids ?t))" for S
        unfolding ids
      proof (rule keys_in_step [OF S])
        fix x q assume x: "x \<in> set (pids ?t) - {tid R}" "v4 x = Some q" "v4 x \<noteq> v x"
        have S': "keys_on l \<subseteq> S" "keys_on r \<subseteq> S" "keys_on p \<subseteq> S"
          using keys_inD [OF S] inT l r p by blast+
        have "v3 x = Some q" using x v4 by auto
        then consider "x = tid L" "q = l'" | "x = i" "q = p'" | "page_next (body l') = Ok (Some x)"
          using same [of x] v3 x by force
        then show "keys_on q \<subseteq> S"
        proof cases
          case 1
          then show ?thesis using merged_keys [OF sib l'(3,5,6)] S' item_keys(1) [OF bp] by blast
        next
          case 2
          then show ?thesis using item_keys(2) [OF bp p'(2)] S' by blast
        next
          case nx: 3
          obtain o' rn n' px where o: "v x = Some o'" "body o' = Leaf rn n' px" using nxt [OF nx] by blast
          then have "keys_on q = keys_on o'" using nn [OF nx o] \<open>v3 x = Some q\<close> by (auto simp: keys_on_def)
          then show ?thesis using keys_inD [OF S _ o(1)] x by blast
        qed
      qed blast
      show ?case
      proof (rule wp_drop_write [OF 3(1)], rule Q [OF _ lo rw ids], assumption)
        show "space tbl v4 (tid (plug cs (Branch i (ps @ (la, M) # qs)))) cnt (tid R # fl)
            (set (pids (plug cs (Branch i (ps @ (la, M) # qs)))))"
          unfolding ids tid by (rule 3(2))
        show "v4 x = v x" if "x \<in> fst ` set cs" for x
        proof -
          have "v4 x = v3 x" using v4 tops that by blast
          then show ?thesis using same [of x] nxt [of x] tops(2) [OF that] that by auto
        qed
        show "v4 i = Some p'" using v4 inT apart(2) v3 by simp
      qed (use p'(5) keys in auto)
    qed (use X in auto)
  qed
  let ?v1 = "v(tid L \<mapsto> l', tid R \<mapsto> make_free r)"
  let ?v2 = "?v1(i \<mapsto> p')"
  have free: "storable E (make_free r)" "pg_id (make_free r) = tid R"
    using storable_free(2) [OF st(4), of None] st(5) by (simp_all add: make_free_def)
  have v2: "?v2 (tid L) = Some l'" "?v2 i = Some p'" "?v2 (tid R) = Some (make_free r)" using apart(1-3) by simp_all
  show ?thesis
    unfolding merge_siblings_def wp_simps
  proof (rule wp_deref_mut2 [where op = "\<lambda>l r. merge_from_right E l r k", OF tr l r l'(1)], goal_cases)
    case (6 s1)
    have tr1: "trk h n ?v1 (add_mset (wguard i gi) (add_mset (wguard (tid L) gl) (add_mset (wguard (tid R) gr) H))) s1"
      using 6 by (simp add: add_mset_commute)
    have "?v1 i = Some p" using p apart(1,2) by simp
    then show ?case
      unfolding wp_simps
    proof (rule wp_deref_mut [where op = "\<lambda>p. internal_remove E p k", OF tr1 _ p'(1)], goal_cases)
      case (2 s2)
      have trR: "trk h n ?v2 (add_mset (wguard (tid R) gr) (add_mset (wguard (tid L) gl) (add_mset (wguard i gi) H))) s2"
        and trL: "trk h n ?v2 (add_mset (wguard (tid L) gl) (add_mset (wguard (tid R) gr) (add_mset (wguard i gi) H))) s2"
        using 2 by (simp_all add: add_mset_commute)
      show ?case
        unfolding wp_simps
        apply (rule wp_peek_write [OF trR v2(3)])
        apply (simp only: wp_simps free(2) option.map snd_conv simp_thms if_False)
        apply (rule wp_peek_write [OF trL v2(1)])
        apply (simp only: wp_simps)
        apply (cases "\<exists>x. page_next (body l') = Ok (Some x)")
        subgoal
        proof (elim exE)
          fix x assume x: "page_next (body l') = Ok (Some x)"
          then obtain rs pv where bl: "body l' = Leaf rs (Some x) pv" by (auto simp: page_next_Ok)
          obtain o' rn n' px where o: "v x = Some o'" "body o' = Leaf rn n' px" using nxt [OF x] by blast
          have ne: "x \<noteq> i" "x \<noteq> tid L" "x \<noteq> tid R" "x \<notin> held H"
            using nxt [OF x] apart(5) [of x] H by blast+
          have vx: "?v2 x = Some o'" using ne o by simp
          have fresh: "x \<notin> held (add_mset (wguard (tid L) gl) (add_mset (wguard (tid R) gr) (add_mset (wguard i gi) H)))"
            using ne by simp
          show ?thesis
            apply (simp only: bl is_leaf_def is_leaf_body.simps simp_thms if_False wp_simps page_next.simps map_err.simps option.case)
            apply (rule wp_fetch_write [OF E trL vx fresh])
            subgoal using room by auto
            subgoal for gx s3
              apply (rule wp_peek_write [where v = ?v2 and p = l' and pid = "tid L"])
                apply (erule trk_swap)
               apply (rule v2(1))
              apply (simp only: wp_simps l'(4) st(2))
              apply (rule wp_relink [where v = ?v2 and pid = "Some (tid L)", unfolded wp_simps, OF _ vx o(2)], assumption)
              subgoal for q' s4
                apply (rule fin [of "?v2(x \<mapsto> q')"])
                    apply (simp add: add_mset_commute)
                using v2 ne o x bl by auto
              done
            subgoal using X by (intro wp_trivial) auto
            done
        qed
        subgoal premises none
        proof -
          have "wp h (Some (table_free E D V tbl (PageWriteGuard gr) s2))
              (\<lambda>x s'. wp h (Some (drop_write E (PageWriteGuard gl) s')) (\<lambda>_. Q x) (\<lambda>_. Q x)) (\<lambda>e s'. \<not> h)"
            by (rule fin [of ?v2, OF trR v2]) (use none in auto)
          then show ?thesis
            using none by (cases "body l'"; cases "page_next (body l')") (auto simp: is_leaf_def wp_simps split: option.splits)
        qed
        done
    qed (use st p' in auto)
  qed (use stl free l'(4) st in auto)
qed

section \<open>Borrowing\<close>

lemma wp_borrow_siblings:
  assumes cp: "couple E v j i ps la L k R qs cs"
    and tr: "trk h n v (add_mset (wguard (tid L) gl) (add_mset (wguard (tid R) gr) (add_mset (wguard i gi) H))) s"
    and sp: "space tbl v (tid (couple_tree i ps la L k R qs cs)) cnt fl (set (pids (couple_tree i ps la L k R qs cs)))"
    and l: "v (tid L) = Some l" and r: "v (tid R) = Some r" and p: "v i = Some p"
    and sib: "siblings E l k r" and no: "\<not> can_merge_with E l r k"
    and side: "case sib_side sb of RightSide \<Rightarrow> is_underfull E l | LeftSide \<Rightarrow> is_underfull E r" "separator sb = k"
    and S: "keys_in S v (set (pids (couple_tree i ps la L k R qs cs)))"
    and Q: "\<And>v' t s'. trk h n v' (add_mset (wguard i gi) H) s' \<Longrightarrow> tree_in E v' (Suc j + length cs) t \<Longrightarrow>
      rows t = rows (couple_tree i ps la L k R qs cs) \<Longrightarrow> space tbl v' (tid t) cnt fl (set (pids t)) \<Longrightarrow>
      keys_in S v' (set (pids t)) \<Longrightarrow> Q () s'"
    and full: "\<And>v' s'. trk h n v' (add_mset (wguard i gi) H) s' \<Longrightarrow> \<not> same_size E S \<Longrightarrow> X (BTreePage PageFull) s'"
  shows "wp h (Some (borrow_siblings E (PageWriteGuard gi) sb (PageWriteGuard gl) (PageWriteGuard gr) s)) Q X"
proof -
  let ?t = "couple_tree i ps la L k R qs cs"
  note pt = couple_parts [OF cp] and apart = couple_apart [OF cp]
  note st = trk_storable [OF tr l] trk_storable [OF tr r] trk_storable [OF tr p]
  have bp: "body p = branch_body (ps @ (la, L) # (Some k, R) # qs)" using pt(2) p by auto
  have k: "key_wf k" using storable_key(2) [OF bp st(7)] item_keys(1) [OF bp] keys_on_simps(2) [OF bp] by blast
  have inT: "tid L \<in> set (pids ?t)" "tid R \<in> set (pids ?t)" "i \<in> set (pids ?t)" unfolding couple_ids by simp_all
  have S': "keys_on l \<subseteq> S" "keys_on r \<subseteq> S" "keys_on p \<subseteq> S" using keys_inD [OF S] inT l r p by blast+
  obtain k' l' r' where bulk: "case sib_side sb of RightSide \<Rightarrow> bulk_borrow_from_right E l r k = (Ok k', l', r')
      | LeftSide \<Rightarrow> bulk_borrow_from_left E r l k = (Ok k', r', l')"
    and mv: "moved E l k r l' k' r'" and some: "1 \<le> num_items l'" "1 \<le> num_items r'"
  proof (cases "sib_side sb")
    case LeftSide
    then have "is_underfull E r" using side(1) by simp
    then obtain sep' l' r' where b: "bulk_borrow_from_left E r l k = (Ok sep', r', l')" "moved E l k r l' sep' r'"
        "1 \<le> num_items l'" "1 \<le> num_items r'"
      by (rule bulk_left_helps [OF sib no])
    show thesis by (rule that [OF _ b(2-4)]) (simp add: b(1) LeftSide)
  next
    case RightSide
    then have "is_underfull E l" using side(1) by simp
    then obtain sep' l' r' where b: "bulk_borrow_from_right E l r k = (Ok sep', l', r')" "moved E l k r l' sep' r'"
        "1 \<le> num_items l'" "1 \<le> num_items r'"
      by (rule bulk_right_helps [OF sib no])
    show thesis by (rule that [OF _ b(2-4)]) (simp add: b(1) RightSide)
  qed
  note st' = moved_storable [OF sib mv st(1,4) k]
  have ids': "pg_id l' = tid L" "pg_id r' = tid R" using mv st by (simp_all add: moved_def)
  obtain L' R' where t': "tid L' = tid L" "tid R' = tid R"
    and ch': "chain (wf_tree E j) (hole_high cs) (ps @ (la, L') # (Some k', R') # qs)"
    and after: "\<And>p'. body p' = branch_body (ps @ (la, L') # (Some k', R') # qs) \<Longrightarrow>
      \<exists>t. tree_in E (v(tid L \<mapsto> l', tid R \<mapsto> r', i \<mapsto> p')) (Suc j + length cs) t \<and> rows t = rows ?t \<and>
        set (pids t) = set (pids ?t) \<and> tid t = tid ?t"
    by (rule after_borrow [OF cp l st(2) r st(5) sib mv some]) blast
  let ?v1 = "v(tid L \<mapsto> l', tid R \<mapsto> r')"
  have keys': "keys_on l' \<subseteq> S" "keys_on r' \<subseteq> S" "k' \<in> S" "k \<in> S"
    using moved_keys [OF sib mv] S' item_keys(1) [OF bp] by blast+
  have p1: "?v1 i = Some p" using p apart(1,2) by simp
  have drops: "wp h (Some (drop_write E (PageWriteGuard gr) s'))
      (\<lambda>x s'. wp h (Some (drop_write E (PageWriteGuard gl) s')) (\<lambda>_. P) (\<lambda>_. P))
      (\<lambda>x s'. wp h (Some (drop_write E (PageWriteGuard gl) s')) (\<lambda>_. P) (\<lambda>_. P))"
    if "trk h n u (add_mset (wguard i gi) (add_mset (wguard (tid L) gl) (add_mset (wguard (tid R) gr) H))) s'"
      "\<And>s'. trk h n u (add_mset (wguard i gi) H) s' \<Longrightarrow> P s'" for u s' P
  proof (rule wp_drop_write)
    show "trk h n u (add_mset (wguard (tid R) gr) (add_mset (wguard (tid L) gl) (add_mset (wguard i gi) H))) s'"
      using that(1) by (simp add: add_mset_commute)
  qed (rule wp_drop_write, assumption, rule that(2))
  have rest: "wp h (Some (write_deref_mut (PageWriteGuard gi) (\<lambda>p. internal_replace_key E p k k') s'))
      (\<lambda>x s'. wp h (Some (drop_write E (PageWriteGuard gr) s'))
        (\<lambda>_ s'. wp h (Some (drop_write E (PageWriteGuard gl) s')) (\<lambda>_. Q x) (\<lambda>_. Q x))
        (\<lambda>_ s'. wp h (Some (drop_write E (PageWriteGuard gl) s')) (\<lambda>_. Q x) (\<lambda>_. Q x)))
      (\<lambda>e s'. wp h (Some (drop_write E (PageWriteGuard gr) s'))
        (\<lambda>_ s'. wp h (Some (drop_write E (PageWriteGuard gl) s')) (\<lambda>_. X (BTreePage e)) (\<lambda>_. X (BTreePage e)))
        (\<lambda>_ s'. wp h (Some (drop_write E (PageWriteGuard gl) s')) (\<lambda>_. X (BTreePage e)) (\<lambda>_. X (BTreePage e))))"
    if "trk h n ?v1 (add_mset (wguard (tid L) gl) (add_mset (wguard (tid R) gr) (add_mset (wguard i gi) H))) s'" for s'
  proof -
    have tri: "trk h n ?v1 (add_mset (wguard i gi) (add_mset (wguard (tid L) gl) (add_mset (wguard (tid R) gr) H))) s'"
      using that by (simp add: add_mset_commute)
    consider (full) "internal_replace_key E p k k' = (Err PageFull, p)" "internal_entry_size E k < internal_entry_size E k'"
      | (fits) p' where "internal_replace_key E p k k' = (Ok (), p')" "body p' = branch_body (ps @ (la, L') # (Some k', R') # qs)"
        "storable E p'" "pg_id p' = pg_id p"
      using replace_item [OF bp st(7) pt(1) ch' st'(3,4) t'] by blast
    then show ?thesis
    proof cases
      case full
      have "\<not> same_size E S" using full(2) keys'(3,4) unfolding same_size_def by (metis less_irrefl)
      then have fin: "X (BTreePage PageFull) s'" if "trk h n u (add_mset (wguard i gi) H) s'" for u s'
        using assms(13) [OF that] by blast
      show ?thesis
      proof (rule wp_deref_mut [where op = "\<lambda>p. internal_replace_key E p k k'", OF tri p1 full(1)], goal_cases)
        case (2 s2)
        then show ?case unfolding wp_simps by (rule drops) (rule fin)
      qed (use st in auto)
    next
      case fits
      let ?v2 = "?v1(i \<mapsto> p')"
      obtain t where t: "tree_in E ?v2 (Suc j + length cs) t" "rows t = rows ?t" "set (pids t) = set (pids ?t)" "tid t = tid ?t"
        using after [OF fits(2)] by blast
      have "space tbl ?v2 (tid t) cnt fl (set (pids t))"
        unfolding t(3,4) by (rule space_use [OF sp]) (use inT l r p in auto)
      moreover have "keys_in S ?v2 (set (pids t))"
        unfolding t(3)
        by (rule keys_in_step [OF S]) (use keys' item_keys(3) [OF bp fits(2)] S' in \<open>auto split: if_splits\<close>)
      ultimately have fin: "Q () s'" if "trk h n ?v2 (add_mset (wguard i gi) H) s'" for s'
        using Q [OF that t(1,2)] by blast
      show ?thesis
      proof (rule wp_deref_mut [where op = "\<lambda>p. internal_replace_key E p k k'", OF tri p1 fits(1)], goal_cases)
        case (2 s2)
        then show ?case unfolding wp_simps by (rule drops) (rule fin)
      qed (use fits st in auto)
    qed
  qed
  show ?thesis
  proof (cases "sib_side sb")
    case RightSide
    then have b: "bulk_borrow_from_right E l r k = (Ok k', l', r')" using bulk by simp
    show ?thesis
      unfolding borrow_siblings_def RightSide side(2) side.case wp_simps
      by (rule wp_deref_mut2 [where op = "\<lambda>l r. bulk_borrow_from_right E l r k", OF tr l r b])
        (use st' ids' rest in \<open>auto simp: wp_simps\<close>)
  next
    case LeftSide
    then have b: "bulk_borrow_from_left E r l k = (Ok k', r', l')" using bulk by simp
    have "v(tid R \<mapsto> r', tid L \<mapsto> l') = ?v1" using apart(3) by (simp add: fun_upd_twist)
    then show ?thesis
      unfolding borrow_siblings_def LeftSide side(2) side.case wp_simps
      by (intro wp_deref_mut2 [where op = "\<lambda>r l. bulk_borrow_from_left E r l k", OF trk_swap [OF tr] r l b])
        (use st' ids' rest in \<open>auto simp: wp_simps dest: trk_swap\<close>)
  qed
qed

section \<open>Rebalancing\<close>

text \<open>
  \<open>M\<close> are the rows, \<open>S\<close> are keys that all keys of the tree are among. Above the page a guard is kept of every page that
  the repair can reach, or the page needs no repair.
\<close>

definition at_rebalance ::
  "bool \<Rightarrow> nat \<Rightarrow> table \<Rightarrow> (key \<Rightarrow> row option) \<Rightarrow> 32 word \<Rightarrow> key set \<Rightarrow> nat \<Rightarrow>
   page_write_guard \<times> (page_write_guard \<times> child_index) list \<Rightarrow> ('d, 'e) bpm \<Rightarrow> bool" where
  "at_rebalance h n tbl M cnt S k x s \<longleftrightarrow> (\<exists>v j cs1 cs2 t i hs fl. x = (PageWriteGuard i, ancs hs cs1) \<and>
     loose E v j (cs1 @ cs2) t \<and> trk h n v (add_mset (wguard (tid t) i) (wguards hs)) s \<and>
     space tbl v (tid (plug (cs1 @ cs2) t)) cnt fl (set (pids (plug (cs1 @ cs2) t))) \<and>
     map fst hs = map fst cs1 \<and> length cs1 = k \<and> rows_map (rows (plug (cs1 @ cs2) t)) = M \<and>
     keys_in S v (set (pids (plug (cs1 @ cs2) t))) \<and>
     (safe_above v cs1 cs2 \<or> cs1 = [] \<and> (\<exists>p. v (tid t) = Some p \<and> \<not> is_underfull E p)))"

definition delete_post ::
  "bool \<Rightarrow> nat \<Rightarrow> table \<Rightarrow> (key \<Rightarrow> row option) \<Rightarrow> 32 word \<Rightarrow> key set \<Rightarrow> ('d, 'e) bpm \<Rightarrow> bool" where
  "delete_post h n tbl M cnt S s \<longleftrightarrow> (\<exists>v t m fl. trk h n v {#} s \<and> tree_in E v m t \<and>
     space tbl v (tid t) cnt fl (set (pids t)) \<and> rows_map (rows t) = M \<and> keys_in S v (set (pids t)))"

lemma delete_safe_page:
  assumes "is_delete_safe E p" and "is_internal p" and "is_internal q" and "entries_size E q + internal_entry_size E k = entries_size E p"
    and "key_fits E k"
  shows "\<not> is_underfull E q"
  using assms by (cases "body p"; cases "body q") (auto simp: is_delete_safe_def is_underfull_def kind_defs)

text \<open>The two neighbours are fetched: they are merged, or one borrows from the other.\<close>

lemma wp_pair:
  assumes E: "varint_ok E" and cp: "couple E v j i ps la L k R qs (ds @ es)"
    and tr: "trk h n v (add_mset (wguard (tid L) gl) (add_mset (wguard (tid R) gr) (add_mset (wguard i gi) (wguards hs)))) s"
    and hs: "map fst hs = map fst ds"
    and sp: "space tbl v (tid (couple_tree i ps la L k R qs (ds @ es))) cnt fl (set (pids (couple_tree i ps la L k R qs (ds @ es))))"
    and l: "v (tid L) = Some l" and r: "v (tid R) = Some r"
    and side: "case sib_side sb of RightSide \<Rightarrow> is_underfull E l | LeftSide \<Rightarrow> is_underfull E r" "separator sb = k"
    and S: "keys_in S v (set (pids (couple_tree i ps la L k R qs (ds @ es))))"
    and M: "rows_map (rows (couple_tree i ps la L k R qs (ds @ es))) = M"
    and safe: "safe_above v ((i, ps') # ds) es" and room: "h \<longrightarrow> length hs + 4 \<le> n"
  shows "wp h (Some (sbind (peek_write (PageWriteGuard gl) Ok) (\<lambda>l.
      sbind (peek_write (PageWriteGuard gr) Ok) (\<lambda>r.
        if can_merge_with E l r (separator sb) then
          sbind (merge_siblings E D V tbl (PageWriteGuard gi) (separator sb) (PageWriteGuard gl) (PageWriteGuard gr)) (\<lambda>_.
            sreturn (Inl (PageWriteGuard gi, ancs hs ds)))
        else
          sbind (borrow_siblings E (PageWriteGuard gi) sb (PageWriteGuard gl) (PageWriteGuard gr)) (\<lambda>_.
          sbind (lift_err BTreeBpm (drop_write E (PageWriteGuard gi))) (\<lambda>_.
          sbind (lift_err BTreeBpm (drop_ancestors E (ancs hs ds))) (\<lambda>_.
            sreturn (Inr None)))))) s))
    (\<lambda>y s'. case y of Inl x' \<Rightarrow> at_rebalance h n tbl M cnt S (length ds) x' s'
      | Inr None \<Rightarrow> delete_post h n tbl M cnt S s' | Inr (Some x') \<Rightarrow> False)
    (\<lambda>e s'. \<not> h \<or> e = BTreePage PageFull \<and> \<not> same_size E S \<and> (\<exists>v. trk h n v (add_mset (wguard i gi) (wguards hs)) s'))"
proof -
  let ?t = "couple_tree i ps la L k R qs (ds @ es)"
  note pt = couple_parts [OF cp]
  note st = trk_storable [OF tr l] trk_storable [OF trk_swap [OF tr] r]
  obtain p where p: "v i = Some p" and bp: "body p = branch_body (ps @ (la, L) # (Some k, R) # qs)" using pt(2) by blast
  have stp: "storable E p" using trk_storable [OF tr p] by simp
  have kk: "k \<in> keys_on p" by (rule item_keys(1) [OF bp])
  have k: "key_fits E k" using storable_key(1) [OF bp stp] kk keys_on_simps(2) [OF bp] by blast
  have sib: "siblings E l k r"
    by (rule couple_siblings(1) [OF cp l st(2) storable_inv [OF st(1)] r st(5) storable_inv [OF st(4)] k])
  have len: "length hs = length ds" using hs by (metis length_map)
  have held: "held (wguards hs) \<subseteq> fst ` set (ds @ es)"
    unfolding held_wguards using hs by (metis list.set_map set_append Un_upper1 image_Un)
  have above: "safe_above v' ds es \<or> ds = [] \<and> \<not> is_underfull E p'"
    if same: "\<And>x. x \<in> fst ` set (ds @ es) \<Longrightarrow> v' x = v x"
      and p': "entries_size E p' + internal_entry_size E k = entries_size E p" "is_internal p'" for v' p'
  proof (cases "es = []")
    case False
    then obtain q where q: "v (fst (last ((i, ps') # ds))) = Some q" "is_delete_safe E q" using safe by (auto simp: safe_above_def)
    show ?thesis
    proof (cases "ds = []")
      case True
      then have "is_delete_safe E p" using q p by simp
      moreover have "is_internal p" using bp by (simp add: kind_defs)
      ultimately show ?thesis using delete_safe_page p' k True by blast
    next
      case False
      then have "fst (last ds) \<in> fst ` set (ds @ es)" by simp
      then have "v' (fst (last ds)) = v (fst (last ds))" by (rule same)
      then show ?thesis using q False by (simp add: safe_above_def)
    qed
  qed (simp add: safe_above_def)
  show ?thesis
    unfolding wp_simps
    apply (rule wp_peek_write [OF tr l])
    apply (simp only: wp_simps)
    apply (rule wp_peek_write [OF trk_swap [OF tr] r])
    apply (simp only: wp_simps side(2))
    apply (cases "can_merge_with E l r k"; simp only: if_True if_False wp_simps)
    subgoal premises can
    proof (rule wp_merge_siblings [OF E cp tr sp l r p sib can held], goal_cases)
      case 1
      show ?case using room by simp
    next
      case (2 v' N p' s')
      have "rep v' (Branch i (ps @ (la, N) # qs))" using 2(2) by (simp add: loose_def rep_plug)
      then have int: "is_internal p'" using 2(7) by (auto simp: kind_defs)
      have "at_rebalance h n tbl M cnt S (length ds) (PageWriteGuard gi, ancs hs ds) s'"
        unfolding at_rebalance_def
      proof (intro exI conjI)
        show "loose E v' (Suc j) (ds @ es) (Branch i (ps @ (la, N) # qs))" by (rule 2(2))
        show "trk h n v' (add_mset (wguard (tid (Branch i (ps @ (la, N) # qs))) gi) (wguards hs)) s'" using 2(1) by simp
        show "safe_above v' ds es \<or> ds = [] \<and> (\<exists>p. v' (tid (Branch i (ps @ (la, N) # qs))) = Some p \<and> \<not> is_underfull E p)"
          using above [of v' p', OF 2(6,8) int] 2(7) by auto
        show "rows_map (rows (plug (ds @ es) (Branch i (ps @ (la, N) # qs)))) = M" unfolding 2(3) by (rule M)
      qed (rule 2(5) 2(9) [OF S] hs refl)+
      then show ?case by (simp add: wp_simps)
    qed simp
    subgoal premises no
    proof (rule wp_borrow_siblings [OF cp tr sp l r p sib no side S], goal_cases)
      case (1 v' t s')
      have "delete_post h n tbl M cnt S s2" if "trk h n v' {#} s2" for s2
        unfolding delete_post_def using that 1 M by (intro exI conjI) auto
      then show ?case
        unfolding wp_simps
        apply (intro wp_drop_write [OF 1(1)])
        apply (rule wp_drop_ancestors [where v = v' and H = "{#}" and hs = hs and n = n])
        using len by (simp_all add: wp_simps)
    next
      case (2 v' s')
      then show ?case by blast
    qed
    done
qed

text \<open>The loop has ended at a page that is not underfull, or at the root.\<close>

definition settled ::
  "bool \<Rightarrow> nat \<Rightarrow> table \<Rightarrow> (key \<Rightarrow> row option) \<Rightarrow> 32 word \<Rightarrow> key set \<Rightarrow>
   page_write_guard \<times> (page_write_guard \<times> child_index) list \<Rightarrow> ('d, 'e) bpm \<Rightarrow> bool" where
  "settled h n tbl M cnt S x s \<longleftrightarrow> (\<exists>v j cs ds t i hs fl. x = (PageWriteGuard i, ancs hs ds) \<and> length hs = length ds \<and>
     loose E v j cs t \<and> trk h n v (add_mset (wguard (tid t) i) (wguards hs)) s \<and> fst ` set hs \<subseteq> fst ` set cs \<and>
     space tbl v (tid (plug cs t)) cnt fl (set (pids (plug cs t))) \<and> rows_map (rows (plug cs t)) = M \<and>
     keys_in S v (set (pids (plug cs t))) \<and> (cs = [] \<or> (\<exists>p. v (tid t) = Some p \<and> \<not> is_underfull E p)))"

lemma wp_rebalance_step:
  assumes E: "varint_ok E" and at: "at_rebalance h n tbl M cnt S k x s" and room: "h \<longrightarrow> k + 3 \<le> n"
    and full: "\<And>v s'. \<not> same_size E S \<Longrightarrow> trk h n v {#} s' \<Longrightarrow> X (BTreePage PageFull) s'"
    and X: "\<And>e s'. \<not> h \<Longrightarrow> X e s'"
  shows "wp h (Some (rebalance_step E D V tbl x s))
    (\<lambda>y s'. case y of Inl x' \<Rightarrow> (\<exists>k' < k. at_rebalance h n tbl M cnt S k' x' s')
      | Inr None \<Rightarrow> delete_post h n tbl M cnt S s' | Inr (Some x') \<Rightarrow> settled h n tbl M cnt S x' s' \<and> length (snd x') \<le> k) X"
proof -
  obtain v j cs1 cs2 t i hs fl where x: "x = (PageWriteGuard i, ancs hs cs1)" and lo: "loose E v j (cs1 @ cs2) t"
      and tr: "trk h n v (add_mset (wguard (tid t) i) (wguards hs)) s"
      and sp: "space tbl v (tid (plug (cs1 @ cs2) t)) cnt fl (set (pids (plug (cs1 @ cs2) t)))"
      and hs: "map fst hs = map fst cs1" and k: "length cs1 = k" and M: "rows_map (rows (plug (cs1 @ cs2) t)) = M"
      and S: "keys_in S v (set (pids (plug (cs1 @ cs2) t)))"
      and safe: "safe_above v cs1 cs2 \<or> cs1 = [] \<and> (\<exists>p. v (tid t) = Some p \<and> \<not> is_underfull E p)"
    using at unfolding at_rebalance_def by blast
  have len: "length hs = length cs1" using hs by (metis length_map)
  have tops: "fst ` set hs \<subseteq> fst ` set (cs1 @ cs2)" using hs by (metis list.set_map set_append Un_upper1 image_Un)
  have "rep v t" using lo by (simp add: loose_def rep_plug)
  then obtain p where p: "v (tid t) = Some p" by (cases t) auto
  have short: "length (snd x) \<le> k" using x len k by simp
  have fin: "settled h n tbl M cnt S x s" if "cs1 @ cs2 = [] \<or> \<not> is_underfull E p"
    unfolding settled_def using x lo tr sp len M S that p tops by blast
  show ?thesis
  proof (cases "is_underfull E p \<and> cs1 \<noteq> []")
    case False
    then have "settled h n tbl M cnt S x s" using fin safe p by (auto simp: safe_above_def)
    moreover have "ancs hs cs1 = []" if "cs1 = []" using that by simp
    ultimately show ?thesis
      using False short unfolding rebalance_step_def x prod.case wp_simps
      by (intro wp_peek_write [OF tr p]) (auto simp: wp_simps)
  next
    case True
    then obtain c ds where c: "cs1 = c # ds" by (cases cs1) auto
    obtain i0 as a bs where i0: "c = (i0, as, a, bs)" by (cases c)
    obtain g hs' where hs': "hs = (i0, g) # hs'" "map fst hs' = map fst ds" using hs c i0 by (cases hs) auto
    have safe': "safe_above v (c # ds) cs2" using safe c by simp
    have dlen: "length hs' = length ds" using hs'(2) by (metis length_map)
    have tr': "trk h n v (add_mset (wguard (tid t) i) (add_mset (wguard i0 g) (wguards hs'))) s" using tr by (simp add: hs'(1))
    note lo' = lo [unfolded c append_Cons i0]
    let ?Q = "\<lambda>y s'. case y of Inl x' \<Rightarrow> (\<exists>k' < k. at_rebalance h n tbl M cnt S k' x' s')
      | Inr None \<Rightarrow> delete_post h n tbl M cnt S s' | Inr (Some x') \<Rightarrow> settled h n tbl M cnt S x' s' \<and> length (snd x') \<le> k"
    let ?X = "\<lambda>e s'. wp h (Some (drop_write E (PageWriteGuard g) s'))
      (\<lambda>_ s'. wp h (Some (drop_ancestors E (ancs hs' ds) s')) (\<lambda>_. X e) (\<lambda>_. X e))
      (\<lambda>_ s'. wp h (Some (drop_ancestors E (ancs hs' ds) s')) (\<lambda>_. X e) (\<lambda>_. X e))"
    have bad: "?X e s'" if "\<not> h" for e s'
      using that X by (intro wp_trivial) (auto intro!: wp_trivial)
    have err: "?X e s'" if "\<not> h \<or> e = BTreePage PageFull \<and> \<not> same_size E S \<and> (\<exists>v. trk h n v (add_mset (wguard i0 g) (wguards hs')) s')" for e s'
      using that
    proof (elim disjE conjE exE)
      fix u assume e: "e = BTreePage PageFull" "\<not> same_size E S" and u: "trk h n u (add_mset (wguard i0 g) (wguards hs')) s'"
      show ?thesis
        apply (rule wp_drop_write [OF u])
        apply (rule wp_drop_ancestors [where v = u and H = "{#}" and hs = hs' and n = n])
        using full e dlen by auto
    qed (rule bad)
    have under: "is_underfull E p" using True by simp
    have room': "h \<longrightarrow> length hs' + 4 \<le> n" using room k c dlen by auto
    have good: "?Q y s'" if "case y of Inl x' \<Rightarrow> at_rebalance h n tbl M cnt S (length ds) x' s'
        | Inr None \<Rightarrow> delete_post h n tbl M cnt S s' | Inr (Some x') \<Rightarrow> False" for y s'
      using that k c by (auto split: sum.splits option.splits)
    have fresh: "u \<notin> held (add_mset (wguard u' g') (add_mset (wguard i0 g) (wguards hs')))"
      if "u \<noteq> u'" "u \<noteq> i0" "u \<notin> set (path_ids (ds @ cs2))" for u u' g'
    proof -
      have "fst ` set hs' = fst ` set ds" using hs'(2) by (metis list.set_map)
      then have "u \<notin> fst ` set hs'" using that(3) path_tops [of "ds @ cs2"] by auto
      then show ?thesis using that(1,2) by force
    qed
    show ?thesis
    proof (cases rule: loose_cases [OF lo'])
      case (1 kk R qs)
      note cp = 1(2) and apart = couple_apart [OF 1(2)]
      let ?sb = "\<lparr>sib_id = tid R, separator = kk, sib_side = RightSide\<rparr>"
      obtain p0 where p0: "v i0 = Some p0" "body p0 = branch_body (as @ (a, t) # (Some kk, R) # qs)"
        using couple_parts(2) [OF cp] by blast
      have pick: "pick_sibling p0 (crumb_index c) = (Ok (Some ?sb) :: (sibling option, btree_error) result)"
        using pick_right [OF p0(2)] by (simp add: crumb_index_def i0)
      obtain r where r: "v (tid R) = Some r" using couple_parts(4) [OF cp] by (cases R) auto
      have same: "couple_tree i0 as a t kk R qs (ds @ cs2) = plug (cs1 @ cs2) t" by (simp add: c i0 1(1))
      have new: "tid R \<notin> held (add_mset (wguard (tid t) i) (add_mset (wguard i0 g) (wguards hs')))"
        using fresh apart(2,3,5) by (metis UnI2)
      show ?thesis
        unfolding rebalance_step_def x c hs'(1) prod.case wp_simps
        apply (rule wp_peek_write [OF tr p])
        apply (simp only: wp_simps under simp_thms if_False list.case list.map zip.simps prod.case snd_conv)
        apply (rule wp_peek_write [OF trk_swap [OF tr'] p0(1)])
        apply (simp only: wp_simps pick rbind.simps expect.simps fetch_pair_def sibling.simps side.case)
        apply (rule wp_fetch_write [OF E tr' r new])
        subgoal using room' by auto
        subgoal premises pr for gr s2
        proof -
          have sd: "case sib_side ?sb of RightSide \<Rightarrow> is_underfull E p | LeftSide \<Rightarrow> is_underfull E r" "separator ?sb = kk"
            using under by simp_all
          note pair = wp_mono [OF wp_pair [OF E cp trk_swap [OF pr] hs'(2) sp [folded same] p r sd S [folded same] M [folded same]
              safe' [unfolded i0] room'] good err]
          then show ?thesis unfolding wp_simps sibling.simps prod.case .
        qed
        subgoal for e s2
          using bad X by (intro wp_trivial) auto
        done
    next
      case (2 ps la L kk)
      note cp = 2(4) and apart = couple_apart [OF 2(4)]
      let ?sb = "\<lparr>sib_id = tid L, separator = kk, sib_side = LeftSide\<rparr>"
      obtain p0 where p0: "v i0 = Some p0" "body p0 = branch_body (ps @ [(la, L), (Some kk, t)])"
        using couple_parts(2) [OF cp] by blast
      have pick: "pick_sibling p0 (crumb_index c) = (Ok (Some ?sb) :: (sibling option, btree_error) result)"
        using pick_left [OF p0(2)] by (simp add: crumb_index_def i0 2(1))
      obtain l where l: "v (tid L) = Some l" using couple_parts(3) [OF cp] by (cases L) auto
      have same: "couple_tree i0 ps la L kk t [] (ds @ cs2) = plug (cs1 @ cs2) t" by (simp add: c i0 2(1-3))
      have newL: "tid L \<notin> held (add_mset (wguard i0 g) (wguards hs'))"
        and newR: "tid t \<notin> held (add_mset (wguard (tid L) gl) (add_mset (wguard i0 g) (wguards hs')))" for gl
      proof -
        have "tid L \<notin> set (path_ids (ds @ cs2))" "tid t \<notin> set (path_ids (ds @ cs2))" using apart(5) by blast+
        then show "tid L \<notin> held (add_mset (wguard i0 g) (wguards hs'))"
          and "tid t \<notin> held (add_mset (wguard (tid L) gl) (add_mset (wguard i0 g) (wguards hs')))" for gl
          using fresh [of "tid L" "tid t" 0] fresh [of "tid t" "tid L" gl] apart(1-3) by auto
      qed
      show ?thesis
        unfolding rebalance_step_def x c hs'(1) prod.case wp_simps
        apply (rule wp_peek_write [OF tr p])
        apply (simp only: wp_simps under simp_thms if_False list.case list.map zip.simps prod.case snd_conv)
        apply (rule wp_peek_write [OF trk_swap [OF tr'] p0(1)])
        apply (simp only: wp_simps pick rbind.simps expect.simps fetch_pair_def sibling.simps side.case)
        apply (rule wp_peek_write [OF tr' p])
        apply (simp only: wp_simps)
        apply (rule wp_drop_write [OF tr'])
        apply (rule wp_fetch_write [where v = v and pid = "tid L" and p = l, OF E], assumption, rule l, rule newL)
        subgoal using room' by auto
        subgoal premises pl for s2 gl s3
          apply (simp only: wp_simps trk_storable(2) [OF tr p])
          apply (rule wp_fetch_write [OF E pl(2) p newR])
          subgoal using room' by auto
          subgoal premises pr for gr s4
          proof -
            have sd: "case sib_side ?sb of RightSide \<Rightarrow> is_underfull E l | LeftSide \<Rightarrow> is_underfull E p" "separator ?sb = kk"
              using under by simp_all
            note pair = wp_mono [OF wp_pair [OF E cp trk_swap [OF pr] hs'(2) sp [folded same] l p sd S [folded same] M [folded same]
                safe' [unfolded i0] room'] good err]
            then show ?thesis unfolding wp_simps sibling.simps prod.case .
          qed
          subgoal for e s4
            using bad X by (intro wp_trivial) auto
          done
        subgoal for s2 e s3
          using bad by simp
        done
    qed
  qed
qed

section \<open>The root\<close>

lemma top_is_root:
  assumes "distinct (pids (plug cs t))" and "tid t = tid (plug cs t)"
  shows "cs = []"
proof (rule ccontr)
  assume "cs \<noteq> []"
  then have "tid t \<in> fst ` set cs" using assms(2) by (simp add: top_id_plug top_id_def)
  moreover have "set (pids t) \<inter> set (path_ids cs) = {}" using assms(1) by (simp add: distinct_plug)
  ultimately show False using path_tops [of cs] tid_in_ids [of t] by blast
qed

lemma wp_collapse_root:
  assumes E: "varint_ok E" and st: "settled h n tbl M cnt S (page, rest) s" and room: "h \<longrightarrow> length rest + 3 \<le> n"
    and Q: "\<And>s'. delete_post h n tbl M cnt S s' \<Longrightarrow> Q () s'" and X: "\<And>e s'. \<not> h \<Longrightarrow> X e s'"
  shows "wp h (Some (then_drop (collapse_root E D V tbl page) (drop_ancestors E rest) s)) Q X"
proof -
  obtain v j cs ds t i hs fl where x: "page = PageWriteGuard i" "rest = ancs hs ds" "length hs = length ds"
      and lo: "loose E v j cs t" and tr: "trk h n v (add_mset (wguard (tid t) i) (wguards hs)) s" and hs: "fst ` set hs \<subseteq> fst ` set cs"
      and sp: "space tbl v (tid (plug cs t)) cnt fl (set (pids (plug cs t)))" and M: "rows_map (rows (plug cs t)) = M"
      and S: "keys_in S v (set (pids (plug cs t)))" and ok: "cs = [] \<or> (\<exists>p. v (tid t) = Some p \<and> \<not> is_underfull E p)"
    using st unfolding settled_def prod.inject by blast
  have size: "h \<longrightarrow> length hs + 3 \<le> n" using room x by simp
  have rep: "rep v t" and dis: "distinct (pids (plug cs t))" using lo by (simp_all add: loose_def rep_plug)
  then obtain p where p: "v (tid t) = Some p" by (cases t) auto
  note stp = trk_storable [OF tr p]
  have heldU: "held (add_mset (wguard (tid t) i) (wguards hs)) \<subseteq> set (pids (plug cs t))"
    using hs path_tops [of cs] by (force simp: set_ids_plug)
  let ?only = "pg_id p = tid (plug cs t) \<and> is_internal p \<and> num_items p = 0"
  have drops: "wp h (Some (drop_write E (PageWriteGuard i) s')) (\<lambda>x s'. wp h (Some (drop_ancestors E rest s')) (\<lambda>_. Q x) (\<lambda>_. Q x)) Y"
    if keep: "\<not> ?only" and tr': "trk h n v (add_mset (wguard (tid t) i) (wguards hs)) s'" for s' Y
  proof -
    have "wf_tree E j (hole_low cs) (hole_high cs) t"
    proof (cases j)
      case (Suc j')
      then obtain r xs where t: "t = Branch r xs" "xs \<noteq> []" using lo by (auto simp: loose_def)
      have b: "body p = branch_body xs" using rep p by (auto simp: t(1))
      have "length xs \<noteq> 1"
      proof
        assume "length xs = 1"
        then have "num_items p = 0" by (simp add: num_items_def b)
        then have "cs \<noteq> []" using keep b stp(2) by (auto simp: kind_defs)
        moreover have "is_underfull E p" using \<open>length xs = 1\<close> by (cases xs) (auto simp: is_underfull_def entries_size_def b layout_simps)
        ultimately show False using ok p by simp
      qed
      then have "2 \<le> length xs" using t(2) by (cases xs; cases "tl xs") auto
      then show ?thesis using lo Suc t(1) by (simp add: loose_def)
    qed (use lo in \<open>simp add: loose_def\<close>)
    then have "delete_post h n tbl M cnt S s2" if "trk h n v {#} s2" for s2
      unfolding delete_post_def using that loose_tree [OF lo] sp M S by blast
    then show ?thesis
      apply (intro wp_drop_write [OF tr'])
      unfolding x(2)
      apply (rule wp_drop_ancestors [where v = v and H = "{#}" and hs = hs and n = n])
      using x(3) Q by auto
  qed
  show ?thesis
    unfolding collapse_root_def x(1) wp_simps
    apply (rule wp_peek_write [OF tr p])
    apply (simp only: wp_simps)
    apply (rule wp_root_id [OF E tr sp heldU])
    subgoal using size by auto
    subgoal premises pr for s1
    proof (cases ?only)
      case False
      show ?thesis unfolding if_not_P [OF False] wp_simps by (rule drops [OF False pr])
    next
      case True
      have cs: "cs = []" by (rule top_is_root [OF dis]) (use True stp(2) in simp)
      have hs0: "hs = []" "ds = []" using hs x(3) by (auto simp: cs)
      have j: "j \<noteq> 0" using True lo rep p by (cases j) (auto simp: loose_def kind_defs)
      then obtain j' r xs where t: "j = Suc j'" "t = Branch r xs" "xs \<noteq> []" "fst (hd xs) = None" "chain (wf_tree E j') None xs"
        using lo by (cases j) (auto simp: loose_def cs)
      have b: "body p = branch_body xs" using rep p by (auto simp: t(2))
      obtain u where u: "xs = [(None, u)]" using t(3,4) True b by (cases xs) (auto simp: num_items_def)
      have kids: "page_children (body p) = Some [tid u]" by (simp add: b u)
      have uU: "set (pids u) \<subseteq> set (pids t)" and uids: "set (pids t) - {tid t} = set (pids u)"
        using dis by (auto simp: cs t(2) u)
      have tu: "get_table_id (tid u) = get_table_id (meta_id tbl)"
      proof (rule space_table [OF sp])
        have "tid u \<in> set (pids (plug cs t))" using uU tid_in_ids [of u] by (auto simp: cs)
        then show "tid u \<in> dom v" using space_dom [OF sp] by blast
      qed
      have trt: "trk h n v {#wguard (tid t) i#} s1" using pr by (simp add: hs0)
      have sp0: "space tbl v (tid t) cnt fl (set (pids t))" using sp by (simp add: cs)
      show ?thesis
        unfolding if_P [OF True]
        apply (simp only: wp_simps kids expect.simps rbind.simps vec_first_simps)
        apply (rule wp_set_root_id [OF E trt sp0 _ _ tu])
        subgoal by simp
        subgoal using size by auto
        subgoal premises sr for v2 s2
        proof -
          have "meta_id tbl \<notin> set (pids t)" using sr(2) by (rule spaceE)
          then have v2: "v2 x = v x" if "x \<in> set (pids t)" for x using sr(3) that by metis
          let ?f = "make_free p" and ?v3 = "v2(tid t \<mapsto> make_free p)"
          have p2: "v2 (tid t) = Some p" using v2 p by simp
          have free: "storable E ?f" "pg_id ?f = tid t" "body ?f = Free None"
            using storable_free(2) [OF stp(1), of None] stp(2) by (simp_all add: make_free_def)
          have sp3: "space tbl ?v3 (tid u) cnt fl (set (pids t))"
            by (rule space_use [OF sr(2)]) (use p2 in auto)
          show ?thesis
            unfolding wp_simps
          proof (rule wp_deref_mut [where op = "\<lambda>p. (Ok (), make_free p)", OF sr(1) p2 refl], goal_cases)
            case (2 s3)
            have f3: "?v3 (tid t) = Some ?f" by simp
            show ?case
              unfolding wp_simps
            proof (rule wp_table_free [OF E 2 sp3 tid_in_ids _ f3 free(3)], goal_cases)
              case (3 v4 s4)
              have v4: "v4 x = v x" if "x \<in> set (pids u)" for x
              proof -
                have "x \<in> set (pids t) - {tid t}" using that uids by blast
                then show ?thesis using 3(3) v2 by simp
              qed
              have "tree_in E v4 j' u"
              proof -
                have "rep v4 u" using rep_agree [of v u v4] rep v4 by (simp add: t(2) u)
                moreover have "wf_tree E j' None None u" using t(5) by (simp add: u)
                moreover have "links v None (leaf_ids u) None" using lo by (simp add: loose_def cs t(2) u)
                then have "links v4 None (leaf_ids u) None"
                  by (rule links_agree) (use v4 leaf_ids_subset [of u] in blast)
                ultimately show ?thesis using dis by (simp add: tree_in_def cs t(2) u)
              qed
              moreover have "keys_in S v4 (set (pids u))"
                by (rule keys_in_step [OF S]) (use uU v4 in \<open>auto simp: cs\<close>)
              moreover have "rows_map (rows u) = M" using M by (simp add: cs t(2) u)
              ultimately have "delete_post h n tbl M cnt S s4"
                unfolding delete_post_def using 3(1) 3(2) [unfolded uids] by blast
              then show ?case using Q by (simp add: x(2) hs0 drop_ancestors_def drop_all_def wp_simps)
            qed (use size hs0 X in auto)
          qed (use free in auto)
        qed
        using X by (auto intro!: wp_trivial)
    qed
    using X by (auto intro!: wp_trivial)
qed

section \<open>Deletion\<close>

lemma wp_rebalance:
  assumes E: "varint_ok E" and at: "at_rebalance h n tbl M cnt S k (page, ancestors) s" and room: "h \<longrightarrow> k + 3 \<le> n"
    and Q: "\<And>s'. delete_post h n tbl M cnt S s' \<Longrightarrow> Q () s'"
    and full: "\<And>v s'. \<not> same_size E S \<Longrightarrow> trk h n v {#} s' \<Longrightarrow> X (BTreePage PageFull) s'"
    and X: "\<And>e s'. \<not> h \<Longrightarrow> X e s'"
  shows "wp h (rebalance E D V tbl page ancestors s) Q X"
  unfolding rebalance_def wp_simps
proof (rule wp_loop [where I = "\<lambda>j x s. j \<le> k \<and> at_rebalance h n tbl M cnt S j x s" and k = k], goal_cases)
  case 1
  then show ?case using at by simp
next
  case (2 j x s1)
  then have room': "h \<longrightarrow> j + 3 \<le> n" using room by auto
  show ?case
  proof (rule wp_mono [OF wp_rebalance_step [where X = X, OF E conjunct2 [OF 2] room' full X]], goal_cases)
    case (4 y s2)
    show ?case
    proof (cases y)
      case (Inl x')
      then show ?thesis using 4 2 by auto
    next
      case (Inr o')
      show ?thesis
      proof (cases o')
        case None
        then show ?thesis using 4 Q Inr by (simp add: wp_simps)
      next
        case (Some z)
        obtain page' rest where z: "z = (page', rest)" by fastforce
        have "settled h n tbl M cnt S (page', rest) s2" "length rest \<le> j" using 4 Inr Some z by simp_all
        then show ?thesis
          using wp_collapse_root [OF E, of h n tbl M cnt S page' rest s2 Q X] room' Q X Inr Some z
          by (auto simp: wp_pcall)
      qed
    qed
  qed simp
qed

lemma wp_btree_delete:
  assumes E: "varint_ok E" and tr: "trk h n v {#} s" and ti: "tree_in E v m t"
    and sp: "space tbl v (tid t) cnt fl (set (pids t))" and S: "keys_in S v (set (pids t))" and room: "h \<longrightarrow> m + 4 \<le> n"
    and Q: "\<And>s'. delete_post h n tbl ((rows_map (rows t))(key := None)) cnt S s' \<Longrightarrow>
      (rows_map (rows t) key = None \<Longrightarrow> trk h n v {#} s') \<Longrightarrow> Q (rows_map (rows t) key) s'"
    and full: "\<And>v s'. \<not> same_size E S \<Longrightarrow> trk h n v {#} s' \<Longrightarrow> X (BTreePage PageFull) s'"
    and X: "\<And>e s'. \<not> h \<Longrightarrow> X e s'"
  shows "wp h (btree_delete E D V tbl key s) Q X"
proof -
  let ?M = "(rows_map (rows t))(key := None)"
  let ?tail = "\<lambda>g anc. pbind (pcall (else_drop (else_drop
         (lift_err BTreePage (write_deref_mut g (\<lambda>p. leaf_remove E p key)))
         (drop_ancestors E anc)) (drop_write E g))) (\<lambda>removed.
       case removed of
         None \<Rightarrow>
           pcall (sbind (lift_err BTreeBpm (drop_ancestors E anc)) (\<lambda>_.
                  sbind (lift_err BTreeBpm (drop_write E g)) (\<lambda>_. sreturn None)))
       | Some row \<Rightarrow>
           pbind (rebalance E D V tbl g anc) (\<lambda>_. pcall (sreturn (Some row))))"
  have dis: "distinct (pids t)" using ti by (simp add: tree_in_def)
  have leaf: "wp h (?tail g anc s') Q X" if at: "at_delete h n v t key m 0 (g, anc) s'" for g anc s'
  proof -
    obtain i hs cs1 cs2 t' where x: "g = PageWriteGuard i" "anc = ancs hs cs1"
        and d: "descent E v t key m 0 cs1 cs2 t' hs" and tr: "trk h n v (add_mset (wguard (tid t') i) (wguards hs)) s'"
        and safe: "safe_above v cs1 cs2"
      using at unfolding at_delete_def prod.inject by blast
    let ?cs = "cs1 @ cs2"
    have pl: "place E v 0 ?cs t'" and t: "t = plug ?cs t'" and wi: "within (hole_low ?cs) (hole_high ?cs) key"
      and hs: "map fst hs = map fst cs1" and len: "length ?cs = m"
      using d by (simp_all add: descent_def)
    have hlen: "length hs = length cs1" using hs by (metis length_map)
    obtain b rs p nx pv where t': "t' = Tip b rs" and p: "v b = Some p" "body p = Leaf rs nx pv" "rows_ok E rs"
      using place_leaf [OF pl] by (metis tid.simps(1))
    note tr = tr [unfolded t' tid.simps] and pl = pl [unfolded t'] and t = t [unfolded t']
    note st = trk_storable [OF tr p(1)]
    have look: "rows_map (rows t) key = rows_map rs key" using place_lookup [OF pl wi] by (simp add: t)
    obtain p' rs' where rm: "leaf_remove E p key = (Ok (rows_map rs key), p')" "body p' = Leaf rs' nx pv" "storable E p'"
        "pg_id p' = pg_id p" "rows_ok E rs'" "set rs' \<subseteq> set rs" "rows_map rs' = (rows_map rs)(key := None)"
        "rows_map rs key = None \<Longrightarrow> p' = p"
      using remove_row [OF p(2) st(1)] by blast
    let ?v = "v(b \<mapsto> p')"
    let ?t = "plug ?cs (Tip b rs')"
    have bout: "b \<notin> set (path_ids ?cs)" using dis by (simp add: t distinct_plug)
    have old: "\<forall>y \<in> set rs. within (hole_low ?cs) (hole_high ?cs) (the_key y)" using pl by (auto simp: place_def)
    have ti': "tree_in E ?v m ?t"
      by (rule tree_rows [OF ti [unfolded t] pl len p(1,2) rm(2,5)]) (use rm(6) old in blast)
    have "path_ok E 0 ?cs" using pl by (simp add: place_def)
    then have lo: "loose E ?v 0 ?cs (Tip b rs')" using ti' rm(5,6) old by (auto simp: loose_def tree_in_def)
    have ids: "set (pids ?t) = set (pids t)" "tid ?t = tid t" by (simp_all add: t set_ids_plug top_id_plug top_id_def)
    have sp': "space tbl ?v (tid ?t) cnt fl (set (pids ?t))"
      unfolding ids by (rule space_use [OF sp]) (use p(1) in \<open>auto simp: t set_ids_plug\<close>)
    have keys: "keys_in S ?v (set (pids ?t))"
      unfolding ids
    proof (rule keys_in_step [OF S])
      fix x q assume "?v x = Some q" "?v x \<noteq> v x"
      then have "q = p'" by (auto split: if_splits)
      then have "keys_on q \<subseteq> keys_on p" using rm(6) by (auto simp: keys_on_simps(1) [OF rm(2)] keys_on_simps(1) [OF p(2)])
      moreover have "keys_on p \<subseteq> S" using keys_inD [OF S _ p(1)] by (simp add: t set_ids_plug)
      ultimately show "keys_on q \<subseteq> S" by blast
    qed simp
    have M: "rows_map (rows ?t) = ?M"
      using rows_map_shrink [of E 0 ?cs key rs' rs] pl wi rm(7) by (simp add: t rows_plug place_def)
    have safe': "safe_above ?v cs1 cs2"
      using safe bout path_tops [of ?cs] unfolding safe_above_def by (cases "cs1 = []") (auto dest: last_in_set)
    show ?thesis
    proof (cases "rows_map rs key")
      case None
      then have p'p: "p' = p" by (rule rm(8))
      then have vp: "?v = v" using p(1) by auto
      have "delete_post h n tbl ?M cnt S s2" if "trk h n v {#} s2" for s2
        unfolding delete_post_def using that ti' sp' M keys vp by auto
      then have fin: "Q None s2" if "trk h n v {#} s2" for s2 using Q [of s2] that look None by simp
      show ?thesis
        unfolding x wp_simps
      proof (rule wp_deref_mut [where op = "\<lambda>p. leaf_remove E p key", OF tr p(1) rm(1)], goal_cases)
        case (2 s2)
        then have "trk h n v (wguards hs + {#wguard b i#}) s2" unfolding vp by simp
        then show ?case
          unfolding None wp_simps option.case
          by (rule wp_drop_ancestors [OF _ hlen]) (rule wp_drop_write, assumption, simp add: wp_simps fin)
      qed (use rm st in auto)
    next
      case (Some row)
      have atr: "at_rebalance h n tbl ?M cnt S (length cs1) (PageWriteGuard i, ancs hs cs1) s2"
        if "trk h n ?v (add_mset (wguard b i) (wguards hs)) s2" for s2
        unfolding at_rebalance_def using lo sp' hs M keys safe' that
        by (intro exI [of _ ?v] exI [of _ 0] exI [of _ cs1] exI [of _ cs2] exI [of _ "Tip b rs'"] exI [of _ i]
            exI [of _ hs] exI [of _ fl]) simp
      have fin: "Q (Some row) s2" if "delete_post h n tbl ?M cnt S s2" for s2
        using Q [OF that] look Some by simp
      have room': "h \<longrightarrow> length cs1 + 3 \<le> n" using room len by auto
      show ?thesis
        unfolding x wp_simps
      proof (rule wp_deref_mut [where op = "\<lambda>p. leaf_remove E p key", OF tr p(1) rm(1)], goal_cases)
        case (2 s2)
        show ?case
          unfolding Some wp_simps option.case
          by (rule wp_rebalance [OF E atr [OF 2] room']) (use fin full X in \<open>auto simp: wp_simps\<close>)
      qed (use rm st in auto)
    qed
  qed
  show ?thesis
    unfolding btree_delete_def wp_simps
  proof (rule wp_get_root_write [OF E tr sp tid_in_ids], goal_cases)
    case 1
    then show ?case using room by auto
  next
    case (2 i s1)
    have start: "at_delete h n v t key m m (PageWriteGuard i, []) s1"
      unfolding at_delete_def safe_above_def using 2 descent_root [OF ti]
      by (intro exI [of _ i] exI [of _ "[]"] exI [of _ "[]"] exI [of _ "[]"] exI [of _ t]) simp
    show ?case
      apply (rule wp_loop [where I = "at_delete h n v t key m" and k = m, OF start])
      apply (rule wp_mono [OF wp_delete_step [where X = X, OF E _ dis room X]], assumption)
      subgoal by simp
      subgoal for k x s2 y s3
        using leaf by (cases y; cases "projr y") (auto simp: wp_simps)
      subgoal by simp
      done
  qed (rule X)
qed

end

end
