(* ===== verification/Delete_Props.thy ===== *)
theory Delete_Props
  imports Tree_Props BTree_Delete
begin

text \<open>Deletion on the pool of the program: the rule of \<open>BTree_Delete\<close>, read off the interpretation \<open>file_pool\<close>.\<close>

section \<open>Deletion\<close>

lemma wp_deleted:
  assumes "varint_ok E" and "table_state E h n tbl t m cnt fl s" and "h \<longrightarrow> m + 4 \<le> n"
  shows "wp h (btree_delete E (fd E) clock_find_victim tbl key s)
    (\<lambda>x s'. x = rows_map (rows t) key \<and> (x = None \<longrightarrow> table_state E h n tbl t m cnt fl s') \<and>
      (\<exists>t' m' fl'. table_state E h n tbl t' m' cnt fl' s' \<and>
        rows_map (rows t') = (rows_map (rows t))(key := None) \<and> tree_keys t' \<subseteq> tree_keys t))
    (\<lambda>e s'. h \<longrightarrow> e = BTreePage PageFull \<and> \<not> same_size E (tree_keys t))"
proof -
  obtain v where v: "tracks E {pid. get_table_id pid = get_table_id (meta_id tbl)} (file_stored E) clock_ok healthy h n v {#} s"
      "tree_in E v m t" "space tbl v (tid t) cnt fl (set (pids t))"
    using assms(2) unfolding table_state_def by blast
  have S: "keys_in (tree_keys t) v (set (pids t))" using v(2) keys_in_tree by (simp add: tree_in_def)
  have post: "\<exists>t' m' fl'. table_state E h n tbl t' m' cnt fl' s' \<and>
        rows_map (rows t') = (rows_map (rows t))(key := None) \<and> tree_keys t' \<subseteq> tree_keys t"
    if d: "file_pool.delete_post E (get_table_id (meta_id tbl)) h n tbl ((rows_map (rows t))(key := None)) cnt (tree_keys t) s'" for s'
  proof -
    obtain u t' m' fl' where u: "tracks E {pid. get_table_id pid = get_table_id (meta_id tbl)} (file_stored E) clock_ok healthy h n u {#} s'"
        "tree_in E u m' t'" "space tbl u (tid t') cnt fl' (set (pids t'))"
        "rows_map (rows t') = (rows_map (rows t))(key := None)" "keys_in (tree_keys t) u (set (pids t'))"
      using d unfolding file_pool.delete_post_def by blast
    have "tree_keys t' \<subseteq> tree_keys t" using u(2,5) keys_in_tree by (simp add: tree_in_def)
    then show ?thesis using table_stateI [OF u(1-3)] u(4) by blast
  qed
  show ?thesis
    by (rule file_pool.wp_btree_delete [OF assms(1) v S assms(3)]) (use post v(2,3) in \<open>auto intro: table_stateI\<close>)
qed

text \<open>
  C4: \<^verbatim>\<open>BTree::delete\<close> terminates. When it returns \<^verbatim>\<open>Ok\<close>, what it returns is what the ordered map of the rows held at
  the key, and the table is again a tree whose map lacks just that key, with every page of the table accounted for:
  the pages that merging emptied are on the free list and the file has not grown. That holds whether the leaf
  stayed large enough, borrowed from a sibling or was merged, and however far up the pages became underfull. Without a failing
  system call, the only error is that a new separator does not fit into a page, and only if keys differ in size.
\<close>

theorem btree_delete_correct:
  assumes "varint_ok E" and "table_state E h n tbl t m cnt fl s" and "h \<longrightarrow> m + 4 \<le> n"
  shows "\<exists>out s'. btree_delete E (fd E) clock_find_victim tbl key s = Some (out, s') \<and>
    (case out of
      Ok x \<Rightarrow> x = rows_map (rows t) key \<and> (x = None \<longrightarrow> table_state E h n tbl t m cnt fl s') \<and>
        (\<exists>t' m' fl'. table_state E h n tbl t' m' cnt fl' s' \<and>
          rows_map (rows t') = (rows_map (rows t))(key := None) \<and> tree_keys t' \<subseteq> tree_keys t)
    | Err e \<Rightarrow> h \<longrightarrow> e = BTreePage PageFull \<and> \<not> same_size E (tree_keys t)
    | Panic \<Rightarrow> \<not> h)"
  using wp_outcome [OF wp_deleted [OF assms]] .

lemma btree_delete_correct_witness:
  "\<exists>s' t' m' fl'. btree_delete demo_env (fd demo_env) clock_find_victim demo_table (IntegerK 3) demo_tpool
      = Some (Ok (Some (big_row 3)), s') \<and> table_state demo_env True 8 demo_table t' m' 2 fl' s' \<and>
    rows_map (rows t') = (rows_map demo_rows)(IntegerK 3 := None)"
proof -
  have rows: "rows demo_tree = demo_rows" and here: "rows_map demo_rows (IntegerK 3) = Some (big_row 3)"
    by (simp_all add: demo_tree_def demo_rows_def)
  have same: "same_size demo_env (tree_keys demo_tree)"
    by (auto simp: same_size_def demo_tree_def demo_rows_def)
  show ?thesis
    using returns [OF btree_delete_correct [OF demo_varint_ok demo_table_state, of "IntegerK 3"]] here same
    by (force simp: rows)
qed

end
