(* ===== verification/Table_Props.thy ===== *)
theory Table_Props
  imports Tree_Props Table_Correct
begin

text \<open>
  What a table promises on the pool of the program: it can be created, opened and found again after a restart, and
  the check of its pages never fires.
\<close>

section \<open>The accounting holds\<close>

text \<open>
  C39: \<^verbatim>\<open>check_space_accounting\<close>, the assertion a debug build runs, never fires on a table at rest: it terminates
  without a panic, having visited every page of the tree and of the free list exactly once and counted them against
  the meta page. It leaves the table as it is. (A failing system call makes it panic.)
\<close>

theorem space_check_passes:
  assumes "varint_ok E" and "table_state E h n tbl t m cnt fl s" and "h \<longrightarrow> 0 < n"
  shows "\<exists>r s'. check_space_accounting E (fd E) clock_find_victim tbl s = Some (r, s') \<and>
    (case r of Ok _ \<Rightarrow> table_state E h n tbl t m cnt fl s' | Err e \<Rightarrow> False | Panic \<Rightarrow> \<not> h)"
proof -
  obtain v where v: "tracks E {pid. get_table_id pid = get_table_id (meta_id tbl)} (file_stored E) clock_ok healthy h n v {#} s"
      "tree_in E v m t" "space tbl v (tid t) cnt fl (set (pids t))"
    using assms(2) unfolding table_state_def by blast
  have "wp h (check_space_accounting E (fd E) clock_find_victim tbl s)
    (\<lambda>_ s'. table_state E h n tbl t m cnt fl s') (\<lambda>_ _. False)"
    by (rule file_pool.wp_check_space [OF assms(1) v assms(3)]) (use v(2,3) in \<open>auto intro: table_stateI\<close>)
  from wp_outcome [OF this] show ?thesis .
qed

lemma space_check_passes_witness:
  "\<exists>s'. check_space_accounting demo_env (fd demo_env) clock_find_victim demo_table demo_tpool = Some (Ok (), s')"
  using returns [OF space_check_passes [OF demo_varint_ok demo_table_state]] by auto

section \<open>Opening and starting again\<close>

text \<open>
  \<^verbatim>\<open>Table::open\<close> on the identifier of a table gives exactly that table (meta page, schema and name), changes
  nothing and keeps no guard.
\<close>

theorem table_open_correct:
  assumes "varint_ok E" and "table_state E h n tbl t m cnt fl s" and "h \<longrightarrow> 0 < n"
  shows "case table_open E (fd E) clock_find_victim (get_table_id (meta_id tbl)) s of
      (Ok tbl', s') \<Rightarrow> tbl' = tbl \<and> table_state E h n tbl t m cnt fl s'
    | (Err e, s') \<Rightarrow> \<not> h \<and> table_state E h n tbl t m cnt fl s'
    | (Panic, s') \<Rightarrow> \<not> h"
proof -
  obtain v where v: "tracks E {pid. get_table_id pid = get_table_id (meta_id tbl)} (file_stored E) clock_ok healthy h n v {#} s"
      "tree_in E v m t" "space tbl v (tid t) cnt fl (set (pids t))"
    using assms(2) unfolding table_state_def by blast
  have "wp h (Some (table_open E (fd E) clock_find_victim (get_table_id (meta_id tbl)) s))
    (\<lambda>tbl' s'. tbl' = tbl \<and> table_state E h n tbl t m cnt fl s')
    (\<lambda>_ s'. \<not> h \<and> table_state E h n tbl t m cnt fl s')"
    by (rule file_pool.wp_table_open [OF assms(1) v(1,3) assms(3)]) (use v(2,3) in \<open>auto intro: table_stateI\<close>)
  then show ?thesis by (auto simp: wp_def split: prod.splits result.splits)
qed

lemma table_open_correct_witness:
  "\<exists>s'. table_open demo_env (fd demo_env) clock_find_victim (TableId 1) demo_tpool = (Ok demo_table, s')"
proof -
  have "get_table_id (meta_id demo_table) = TableId 1" by (simp add: demo_table_def)
  then show ?thesis
    using table_open_correct [OF demo_varint_ok demo_table_state] by (auto split: prod.splits result.splits)
qed

lemma wp_flush_state:
  assumes "varint_ok E" and "table_state E h n tbl t m cnt fl s"
  shows "wp h (Some (flush_all E (fd E) s))
    (\<lambda>_ s1. table_state E h n tbl t m cnt fl s1 \<and>
      (\<forall>d k s2. open_file d = open_file (persistant_layer s1) \<longrightarrow> healthy d \<longrightarrow> 0 < k \<longrightarrow> bpm_new d (ClockEvictor 0) k = Ok s2 \<longrightarrow>
        table_state E h k tbl t m cnt fl s2))
    (\<lambda>_ s1. \<not> h)"
proof -
  obtain v where v: "tracks E {pid. get_table_id pid = get_table_id (meta_id tbl)} (file_stored E) clock_ok healthy h n v {#} s"
      "tree_in E v m t" "space tbl v (tid t) cnt fl (set (pids t))"
    using assms(2) unfolding table_state_def by blast
  show ?thesis
  proof (rule file_pool.wp_flush [OF assms(1) v(1)], goal_cases)
    case (1 s1)
    have "table_state E h k tbl t m cnt fl s2"
      if d: "open_file d = open_file (persistant_layer s1)" "healthy d" "0 < k" "bpm_new d (ClockEvictor 0) k = Ok s2" for d k s2
    proof -
      have "file_stored E d pid = Some p" if "v pid = Some p" for pid p
        using 1(2) [OF that] by (simp add: file_stored_slot d(1))
      from file_pool.trk_new_pool [OF v(1) this d(2,3) _ d(4)] show ?thesis using d(3) v(2,3) by (auto intro: table_stateI)
    qed
    then show ?case using 1(1) v(2,3) by (auto intro: table_stateI)
  qed (use v(2,3) in \<open>auto intro: table_stateI\<close>)
qed

text \<open>
  C9: a table survives a restart. When \<^verbatim>\<open>flush_all\<close> has returned \<^verbatim>\<open>Ok\<close>, a new pool of any size, with nothing
  cached, on the same disk stands for the same table: the same tree, rows, free list and page count.
\<close>

theorem restart_keeps_table:
  assumes "varint_ok E" and "table_state E h n tbl t m cnt fl s" and "flush_all E (fd E) s = (Ok (), s1)"
    and "healthy (persistant_layer s1)" and "0 < k" and "bpm_new (persistant_layer s1) (ClockEvictor 0) k = Ok s2"
  shows "table_state E h k tbl t m cnt fl s2"
  using wp_flush_state [OF assms(1,2)] assms(3-6) by (auto simp: wp_def)

lemma restart_keeps_table_witness:
  "\<exists>s1 s2. flush_all demo_env (fd demo_env) demo_tpool = (Ok (), s1) \<and>
    bpm_new (persistant_layer s1) (ClockEvictor 0) 3 = (Ok s2 :: (pool, bpm_error) result) \<and>
    table_state demo_env True 3 demo_table demo_tree 0 2 [] s2"
proof -
  obtain s1 where s1: "flush_all demo_env (fd demo_env) demo_tpool = (Ok (), s1)"
      "table_state demo_env True 8 demo_table demo_tree 0 2 [] s1"
    using wp_flush_state [OF demo_varint_ok demo_table_state] demo_table_state
    by (auto simp: wp_def split: prod.splits result.splits)
  have h: "healthy (persistant_layer s1)" using s1(2) by (auto simp: table_state_def tracks_def)
  obtain s2 where s2: "bpm_new (persistant_layer s1) (ClockEvictor 0) 3 = (Ok s2 :: (pool, bpm_error) result)"
    by (simp add: bpm_new_def)
  show ?thesis
    using s1(1) s2 restart_keeps_table [OF demo_varint_ok demo_table_state s1(1) h, of 3 s2] by (simp add: bpm_new_def)
qed

section \<open>Creation\<close>

lemma fetch_empty_file:
  assumes "page_table s (PageId T 0) = None" and "healthy (persistant_layer s)" and "open_file (persistant_layer s) = []"
  shows "\<exists>d. fetch_read E (fd E) V (PageId T 0) s = (Err (BpmIo NotFound), s\<lparr>persistant_layer := d\<rparr>) \<and>
    same_file (persistant_layer s) d \<and> healthy d"
proof -
  obtain d where d: "sys (persistant_layer s) = (Ok (), d)" "same_file (persistant_layer s) d" "healthy d"
    using sys_law [of "persistant_layer s"] assms(2) by (metis surj_pair)
  have "open_file d = []" using same_file_open [OF d(2)] assms(3) by simp
  then have "file_read_page (PageId T 0) (persistant_layer s) = (Err NotFound, d)"
    by (simp add: file_read_page_def d(1))
  then show ?thesis
    using d(2,3) assms(1)
    by (intro exI [of _ d]) (simp add: fetch_read_def fetch_frame_def checkout_page_def load_page_def disk_call_def file_disk_manager_def)
qed

lemma refuse_empty_file:
  assumes "page_table s (PageId T 0) = None" and "healthy (persistant_layer s)" and "open_file (persistant_layer s) = []"
  shows "\<exists>d. refuse_existing E (fd E) V T s = (Ok (), s\<lparr>persistant_layer := d\<rparr>) \<and>
    same_file (persistant_layer s) d \<and> healthy d"
proof -
  obtain d where "fetch_read E (fd E) V (PageId T 0) s = (Err (BpmIo NotFound), s\<lparr>persistant_layer := d\<rparr>)"
      "same_file (persistant_layer s) d" "healthy d"
    using fetch_empty_file [OF assms, of E V] by blast
  then show ?thesis by (intro exI [of _ d]) (simp add: refuse_existing_def)
qed

lemma creates:
  assumes "varint_ok E" and "storable E (empty_page (PageId T 0) (Meta (PageId T 1) 2 None schema name))"
    and "healthy d" and "open_file d = []" and "0 < n" and "bpm_new d (ClockEvictor 0) n = Ok s"
  shows "\<exists>s'. table_create E (fd E) clock_find_victim T schema name s =
      Some (Ok \<lparr>meta_id = PageId T 0, tbl_schema = schema, tbl_name = name\<rparr>, s') \<and>
    table_state E True n \<lparr>meta_id = PageId T 0, tbl_schema = schema, tbl_name = name\<rparr> (Tip (PageId T 1) []) 0 2 [] s' \<and>
    (\<forall>k s2. 0 < k \<longrightarrow> bpm_new (persistant_layer s') (ClockEvictor 0) k = (Ok s2 :: (pool, bpm_error) result) \<longrightarrow>
      table_state E True k \<lparr>meta_id = PageId T 0, tbl_schema = schema, tbl_name = name\<rparr> (Tip (PageId T 1) []) 0 2 [] s2)"
proof -
  let ?tbl = "\<lparr>meta_id = PageId T 0, tbl_schema = schema, tbl_name = name\<rparr>" and ?t = "Tip (PageId T 1) []"
  let ?ids = "{pid. get_table_id pid = T}"
  let ?v = "(\<lambda>_. None)(PageId T 1 \<mapsto> empty_leaf (PageId T 1),
        PageId T 0 \<mapsto> empty_page (PageId T 0) (Meta (PageId T 1) 2 None schema name))"
  have trk0: "tracks E ?ids (file_stored E) clock_ok healthy True n Map.empty {#} s"
    by (rule file_pool.trk_empty [OF assms(5) _ assms(6,3)]) (use assms(5) in simp)
  have s: "page_table s (PageId T 0) = None" "persistant_layer s = d" using assms(5,6) by (auto simp: bpm_new_def)
  then obtain d' where r: "refuse_existing E (fd E) clock_find_victim T s = (Ok (), s\<lparr>persistant_layer := d'\<rparr>)"
      "same_file d d'" "healthy d'"
    using refuse_empty_file [of s T E clock_find_victim] assms(3,4) by auto
  let ?s = "s\<lparr>persistant_layer := d'\<rparr>"
  have trk1: "tracks E ?ids (file_stored E) clock_ok healthy True n Map.empty {#} ?s"
    by (rule file_pool.trk_disk [OF trk0 _ r(3)]) (use same_file_open [OF r(2)] s(2) in \<open>simp add: file_stored_def fun_eq_iff\<close>)
  have tree: "tree_in E ?v 0 ?t" "space ?tbl ?v (tid ?t) 2 [] (set (pids ?t))"
    using new_table_tree [of ?tbl T "PageId T 1"] by simp_all
  let ?Q = "\<lambda>s2. table_state E True n ?tbl ?t 0 2 [] s2 \<and>
      (\<forall>k s3. 0 < k \<longrightarrow> bpm_new (persistant_layer s2) (ClockEvictor 0) k = (Ok s3 :: (pool, bpm_error) result) \<longrightarrow> table_state E True k ?tbl ?t 0 2 [] s3)"
  have saved: "?Q s2"
    if tr: "tracks E ?ids (file_stored E) clock_ok healthy True n ?v {#} s2" and clean: "file_pool.clean_pool s2" for s2
  proof (intro conjI allI impI)
    show "table_state E True n ?tbl ?t 0 2 [] s2" by (rule table_stateI [OF _ tree]) (use tr in simp)
    fix k s3 assume k: "0 < k" "bpm_new (persistant_layer s2) (ClockEvictor 0) k = (Ok s3 :: (pool, bpm_error) result)"
    have "healthy (persistant_layer s2)" using tr by (simp add: tracks_def)
    from file_pool.trk_new_pool [OF tr file_pool.clean_stored [OF tr clean] this k(1) _ k(2)]
    show "table_state E True k ?tbl ?t 0 2 [] s3" using k(1) tree by (auto intro: table_stateI)
  qed
  have check: "wp True (debug_check_space_accounting E (fd E) clock_find_victim ?tbl s1) (\<lambda>_. ?Q) (\<lambda>_ _. False)"
    if tr: "tracks E ?ids (file_stored E) clock_ok healthy True n ?v {#} s1" and clean: "file_pool.clean_pool s1" for s1
  proof (cases "debug_assertions E")
    case True
    have "wp True (check_space_accounting E (fd E) clock_find_victim ?tbl s1)
      (\<lambda>_ s2. tracks E ?ids (file_stored E) clock_ok healthy True n ?v {#} s2) (\<lambda>_ _. False)"
      by (rule file_pool.wp_check_space [OF assms(1) tr tree]) (use assms(5) in auto)
    note kept = wp_kept [OF this keep_check [OF file_pool.reads_keep_clean] clean]
    have "wp True (check_space_accounting E (fd E) clock_find_victim ?tbl s1) (\<lambda>_. ?Q) (\<lambda>_ _. False)"
      by (rule wp_mono [OF kept], erule conjE, erule (1) saved) blast
    then show ?thesis using True by (simp add: debug_check_space_accounting_def)
  qed (use saved [OF tr clean] in \<open>simp add: debug_check_space_accounting_def wp_simps\<close>)
  have "wp True (table_create E (fd E) clock_find_victim T schema name s) (\<lambda>x s'. x = ?tbl \<and> ?Q s') (\<lambda>_ _. False)"
    unfolding table_create_def Let_def wp_pbind wp_pcall sbind_Ok [where m = "refuse_existing E (fd E) clock_find_victim T", OF r(1)] wp_lift_err
    by (rule file_pool.wp_new_pages [OF assms(1) trk1 _ assms(2)])
      (use assms(5) in \<open>auto simp: wp_return intro!: wp_mono [OF check]\<close>)
  from returns [OF wp_outcome [OF this]] show ?thesis by auto
qed

text \<open>The table of the examples, new.\<close>

lemma demo_created:
  assumes "0 < n"
  shows "\<exists>s s'. bpm_new demo_disk (ClockEvictor 0) n = (Ok s :: (pool, bpm_error) result) \<and>
    storable demo_env (empty_page (PageId (TableId 1) 0) (Meta (PageId (TableId 1) 1) 2 None demo_schema [116])) \<and>
    healthy demo_disk \<and> open_file demo_disk = [] \<and>
    table_state demo_env True n demo_table (Tip (PageId (TableId 1) 1) []) 0 2 [] s'"
proof -
  obtain s where s: "bpm_new demo_disk (ClockEvictor 0) n = (Ok s :: (pool, bpm_error) result)"
    using assms by (simp add: bpm_new_def)
  have st: "storable demo_env (empty_page (PageId (TableId 1) 0) (Meta (PageId (TableId 1) 1) 2 None demo_schema [116]))"
    using demo_pages_storable(1) by (simp add: demo_meta_def demo_id_def)
  have d: "healthy demo_disk" "open_file demo_disk = []" by (simp_all add: demo_disk_def healthy_def open_file_def)
  show ?thesis
    using creates [OF demo_varint_ok st d assms, of s] s st d by (auto simp: demo_table_def demo_id_def bpm_new_def)
qed

text \<open>
  C8: \<^verbatim>\<open>Table::create\<close> on an empty file makes an empty table: it returns \<^verbatim>\<open>Ok\<close>, the meta page and an empty leaf as
  its root are the only pages, no guard is left, and both pages are in the file: a new pool on the disk that it leaves
  stands for the same table. The one condition on the schema and the name is that they fit the meta page, which
  \<^verbatim>\<open>create\<close> itself does not check.
\<close>

theorem table_create_correct:
  assumes "varint_ok E" and "storable E (empty_page (PageId T 0) (Meta (PageId T 1) 2 None schema name))"
    and "healthy d" and "open_file d = []" and "0 < n" and "bpm_new d (ClockEvictor 0) n = Ok s"
  shows "\<exists>s'. table_create E (fd E) clock_find_victim T schema name s =
      Some (Ok \<lparr>meta_id = PageId T 0, tbl_schema = schema, tbl_name = name\<rparr>, s') \<and>
    table_state E True n \<lparr>meta_id = PageId T 0, tbl_schema = schema, tbl_name = name\<rparr> (Tip (PageId T 1) []) 0 2 [] s' \<and>
    (\<forall>k s2. 0 < k \<longrightarrow> bpm_new (persistant_layer s') (ClockEvictor 0) k = (Ok s2 :: (pool, bpm_error) result) \<longrightarrow>
      table_state E True k \<lparr>meta_id = PageId T 0, tbl_schema = schema, tbl_name = name\<rparr> (Tip (PageId T 1) []) 0 2 [] s2)"
  by (rule creates [OF assms])

lemma table_create_correct_witness:
  "\<exists>s s' s2 t. bpm_new demo_disk (ClockEvictor 0) 4 = (Ok s :: (pool, bpm_error) result) \<and>
    table_create demo_env (fd demo_env) clock_find_victim (TableId 1) demo_schema [116] s = Some (Ok demo_table, s') \<and>
    bpm_new (persistant_layer s') (ClockEvictor 0) 3 = (Ok s2 :: (pool, bpm_error) result) \<and>
    table_state demo_env True 3 demo_table t 0 2 [] s2"
proof -
  obtain s where s: "bpm_new demo_disk (ClockEvictor 0) 4 = (Ok s :: (pool, bpm_error) result)"
      "storable demo_env (empty_page (PageId (TableId 1) 0) (Meta (PageId (TableId 1) 1) 2 None demo_schema [116]))"
      "healthy demo_disk" "open_file demo_disk = []"
    using demo_created [of 4] by auto
  have "(4 :: nat) > 0" by simp
  then obtain s' where s': "table_create demo_env (fd demo_env) clock_find_victim (TableId 1) demo_schema [116] s = Some (Ok demo_table, s')"
      "\<forall>k s2. 0 < k \<longrightarrow> bpm_new (persistant_layer s') (ClockEvictor 0) k = (Ok s2 :: (pool, bpm_error) result) \<longrightarrow>
        table_state demo_env True k demo_table (Tip (PageId (TableId 1) 1) []) 0 2 [] s2"
    using table_create_correct [OF demo_varint_ok s(2,3,4) _ s(1)] unfolding demo_table_def demo_id_def by blast
  obtain s2 where s2: "bpm_new (persistant_layer s') (ClockEvictor 0) 3 = (Ok s2 :: (pool, bpm_error) result)"
    by (simp add: bpm_new_def)
  have "(0 :: nat) < 3" by simp
  then have "table_state demo_env True 3 demo_table (Tip (PageId (TableId 1) 1) []) 0 2 [] s2" using s'(2) s2 by blast
  then show ?thesis using s(1) s'(1) s2 by blast
qed

section \<open>Vacuum\<close>

lemma wp_all_rows:
  assumes "varint_ok E" and "table_state E h n tbl t m cnt fl s" and "h \<longrightarrow> 2 < n"
  shows "wp h (btree_get_all E (fd E) clock_find_victim tbl f s)
    (\<lambda>rs s'. rs = filter f (rows t) \<and> table_state E h n tbl t m cnt fl s') (\<lambda>_ _. \<not> h)"
proof -
  obtain v where v: "tracks E {pid. get_table_id pid = get_table_id (meta_id tbl)} (file_stored E) clock_ok healthy h n v {#} s"
      "tree_in E v m t" "space tbl v (tid t) cnt fl (set (pids t))"
    using assms(2) unfolding table_state_def by blast
  show ?thesis
    by (rule file_pool.wp_btree_get_all [OF assms(1) v(1,3,2) assms(3)]) (use v(2,3) in \<open>auto intro: table_stateI\<close>)
qed

lemma pack_leaves_empty: "pack_leaves E tbl [] = Panic"
  by (simp add: pack_leaves_def new_leaf_def next_num_def vec_index_def relink_leaf_def set_prev_def set_next_def
      checked_sub_def empty_leaf_def empty_page_def first_key_def vec_first_def)

text \<open>
  C40: \<^verbatim>\<open>vacuum\<close> of a table without rows panics, although nothing has failed: it still makes one leaf, and
  \<^verbatim>\<open>first_key\<close> expects a row in it.
\<close>

theorem vacuum_of_empty_table_panics:
  assumes "varint_ok E" and "table_state E True n tbl t m cnt fl s" and "2 < n" and "rows t = []"
  shows "\<exists>s'. vacuum E (fd E) clock_find_victim tbl s = Some (Panic, s')"
proof -
  obtain s1 where "btree_get_all E (fd E) clock_find_victim tbl (\<lambda>_. True) s = Some (Ok [], s1)"
    using returns [OF wp_outcome [OF wp_all_rows [OF assms(1,2), of "\<lambda>_. True"]]] assms(3,4) by auto
  then show ?thesis
    by (simp add: vacuum_def pbind_def plift_err_def pack_leaves_empty slift_def pcall_def)
qed

lemma vacuum_of_empty_table_panics_witness:
  "\<exists>s tbl s'. vacuum demo_env (fd demo_env) clock_find_victim tbl s = Some (Panic, s')"
proof -
  obtain s where "table_state demo_env True 4 demo_table (Tip (PageId (TableId 1) 1) []) 0 2 [] s"
    using demo_created [of 4] by auto
  from vacuum_of_empty_table_panics [OF demo_varint_ok this] show ?thesis by auto
qed

end
