(* ===== verification/Schema_Correct.thy ===== *)
theory Schema_Correct
  imports Schema
begin

text \<open>
  Properties of keys, rows and schemas (theories \<open>Values\<close> and \<open>Schema\<close>): the row and schema
  codecs, the key order, and what \<^verbatim>\<open>validate_row\<close> accepts.
\<close>

section \<open>Codecs\<close>

text \<open>
  C30: rows round-trip. A row of at most 255 fields whose strings are UTF-8 and at most
  \<^verbatim>\<open>MAX_FIELD_LEN\<close> bytes long serialises to exactly \<^verbatim>\<open>encoded_size\<close> bytes, and reading them back,
  whatever follows, gives the row and what follows.
\<close>

theorem row_roundtrip:
  assumes "varint_ok E" and "row_wf r"
  shows "\<exists>bs. row_serialize E r = Ok bs \<and> length bs = row_encoded_size E r \<and>
    row_deserialize E (bs @ rest) = Ok (r, rest)"
  using row.ser_total [of E r] row.ser_length [of E r] row.deser_ser [of E r] assms by blast

lemma row_roundtrip_witness:
  "\<exists>bs. row_serialize demo_env \<lparr>row_fields = [IntegerV 5, StringV [104, 105], NullV]\<rparr> = Ok bs \<and>
    row_deserialize demo_env bs = Ok (\<lparr>row_fields = [IntegerV 5, StringV [104, 105], NullV]\<rparr>, [])"
  using row_roundtrip [of demo_env "\<lparr>row_fields = [IntegerV 5, StringV [104, 105], NullV]\<rparr>" "[]"]
  by (auto simp: row_wf_def layout_simps)

text \<open>
  schemas round-trip, and what is read is a valid schema: its first column is a key column
  (an integer or a string, not nullable) and it has between one and 255 columns.
\<close>

theorem schema_roundtrip:
  assumes "varint_ok E"
  shows "(schema_wf s \<longrightarrow> (\<exists>bs. schema_serialize E s = Ok bs \<and>
      length bs = schema_encoded_size E s \<and> schema_deserialize E (bs @ rest) = Ok (s, rest))) \<and>
    (\<forall>bs t r. schema_deserialize E bs = Ok (t, r) \<longrightarrow> columns t \<noteq> [] \<and>
      length (columns t) \<le> MAX_NUM_FIELDS \<and> is_valid_key (col_type (hd (columns t))) \<and>
      \<not> nullable (hd (columns t)))"
proof (intro conjI impI allI)
  assume wf: "schema_wf s"
  show "\<exists>bs. schema_serialize E s = Ok bs \<and>
      length bs = schema_encoded_size E s \<and> schema_deserialize E (bs @ rest) = Ok (s, rest)"
    using schema.ser_total [of E s] schema.ser_length [of E s] schema.deser_ser [of E s] assms wf by blast
qed (use schema_deserialize_valid in \<open>auto simp: schema_valid_iff\<close>)

lemma schema_roundtrip_witness:
  "\<exists>bs. schema_serialize demo_env \<lparr>columns = [\<lparr>col_name = [105, 100], col_type = IntegerT, nullable = False\<rparr>]\<rparr>
      = Ok bs \<and>
    schema_deserialize demo_env bs
      = Ok (\<lparr>columns = [\<lparr>col_name = [105, 100], col_type = IntegerT, nullable = False\<rparr>]\<rparr>, [])"
proof -
  let ?s = "\<lparr>columns = [\<lparr>col_name = [105, 100], col_type = IntegerT, nullable = False\<rparr>]\<rparr>"
  have "schema_wf ?s" by (simp add: schema_wf_def schema_valid_iff column_wf_def layout_simps)
  then show ?thesis using schema_roundtrip [of demo_env ?s "[]"] by auto
qed

text \<open>
  a column name longer than \<^verbatim>\<open>MAX_FIELD_LEN\<close> is written but cannot be read: \<^verbatim>\<open>serialize\<close>
  accepts the column and \<^verbatim>\<open>deserialize\<close> refuses its bytes, so a schema with such a column is
  lost once it is stored.
\<close>

theorem long_column_name_not_readable:
  assumes "varint_ok E" and "MAX_FIELD_LEN < length (col_name c)" and "length (col_name c) < 2 ^ 64"
  shows "\<exists>bs. column_serialize E c = Ok bs \<and>
    column_deserialize E (bs @ rest) = Err (SchemaFieldTooLong (length (col_name c)))"
proof -
  obtain ts where ts: "column_type_serialize (col_type c) = Ok ts"
    by (simp add: column_type_serialize_def)
  show ?thesis
    using column_type.deser_ser [OF TrueI ts] varint_okD(3) [OF assms(1,3)] assms(2)
    by (simp add: column_serialize_def ts column_deserialize_def)
qed

lemma long_column_name_not_readable_witness:
  "\<exists>bs. column_serialize demo_env \<lparr>col_name = replicate 2000 97, col_type = IntegerT, nullable = False\<rparr>
      = Ok bs \<and>
    column_deserialize demo_env bs = Err (SchemaFieldTooLong 2000)"
  using long_column_name_not_readable [of demo_env
      "\<lparr>col_name = replicate 2000 97, col_type = IntegerT, nullable = False\<rparr>" "[]"]
  by (simp add: layout_simps)

section \<open>Keys\<close>

lemma row_try_from_Ok_iff: "row_try_from fs = Ok r \<longleftrightarrow> row_fields r = fs \<and> row_key r \<noteq> None"
proof (cases fs)
  case Nil
  then show ?thesis by (simp add: row_try_from_def row_key_def)
next
  case (Cons v vs)
  then show ?thesis by (cases r; cases v) (auto simp: row_try_from_def row_key_def)
qed

text \<open>
  C31: \<^verbatim>\<open>Row::cmp_key\<close> compares a row with a key exactly as \<^verbatim>\<open>Key::cmp\<close> compares the row's own
  key with it: integers as signed numbers, strings by their bytes, every integer before every
  string; it panics exactly on the rows whose first field is missing or cannot be a key.
\<close>

theorem cmp_key_is_key_order:
  "cmp_key r k = (case row_key r of None \<Rightarrow> None | Some k' \<Rightarrow> Some (cmp k' k)) \<and>
   (row_key r = None \<longleftrightarrow> \<not> (\<exists>fs. row_try_from fs = Ok r)) \<and>
   (IntegerK a < IntegerK b \<longleftrightarrow> sint a < sint b) \<and> IntegerK a < StringK s \<and>
   (StringK s < StringK t \<longleftrightarrow> s < t)"
proof (intro conjI)
  show "cmp_key r k = (case row_key r of None \<Rightarrow> None | Some k' \<Rightarrow> Some (cmp k' k))"
    by (simp add: cmp_key_row_key split: option.split)
  show "row_key r = None \<longleftrightarrow> \<not> (\<exists>fs. row_try_from fs = Ok r)"
    using row_try_from_Ok_iff [of "row_fields r" r] by (auto simp: row_try_from_Ok_iff)
qed simp_all

section \<open>Validation\<close>

lemma validate_row_Ok_iff:
  assumes "schema_valid s"
  shows "validate_row E s r = Ok vr \<longleftrightarrow> vr = ValidatedRow r \<and>
    length (row_fields r) = length (columns s) \<and> row_fits E r \<and>
    (\<forall>(c, v) \<in> set (zip (columns s) (row_fields r)). field_conforms c v)"
proof (cases "row_fields r")
  case Nil
  then show ?thesis using assms by (auto simp: validate_row_def schema_valid_iff)
next
  case (Cons v vs)
  then show ?thesis
    by (cases v) (auto simp: validate_row_def vec_index_def row_fits_def row_key_def result_simps
        validate_fields_Ok_iff)
qed

lemma validate_row_not_Panic: "schema_valid s \<Longrightarrow> validate_row E s r \<noteq> Panic"
  by (cases "row_fields r") (auto simp: validate_row_def schema_valid_iff vec_index_def rbind_Panic_iff split: result.split)

text \<open>
  C27: what \<^verbatim>\<open>validate_row\<close> accepts. Against a valid schema it never panics; it accepts a row
  exactly when the row has one field per column, its entry and its key fit into a leaf and an
  internal page, and each field is of its column's type, or null in a nullable column. An
  accepted row has a primary key, so \<^verbatim>\<open>primary_key\<close> does not reach its \<^verbatim>\<open>unreachable!\<close>.
\<close>

theorem validate_row_correct:
  assumes "schema_valid s"
  shows "validate_row E s r \<noteq> Panic \<and>
    (validate_row E s r = Ok vr \<longleftrightarrow> vr = ValidatedRow r \<and>
      length (row_fields r) = length (columns s) \<and> row_fits E r \<and>
      (\<forall>(c, v) \<in> set (zip (columns s) (row_fields r)). field_conforms c v)) \<and>
    (validate_row E s r = Ok vr \<longrightarrow> (\<exists>k. row_key r = Some k \<and> primary_key vr = Ok k))"
proof (intro conjI)
  show "validate_row E s r \<noteq> Panic"
    by (rule validate_row_not_Panic [OF assms])
  show "validate_row E s r = Ok vr \<longrightarrow> (\<exists>k. row_key r = Some k \<and> primary_key vr = Ok k)"
    using validate_row_Ok_iff [OF assms] by (auto simp: row_fits_iff primary_key_row_key)
qed (rule validate_row_Ok_iff [OF assms])

lemma validate_row_correct_witness:
  "validate_row demo_env
      \<lparr>columns = [\<lparr>col_name = [105, 100], col_type = IntegerT, nullable = False\<rparr>,
        \<lparr>col_name = [98], col_type = BoolT, nullable = True\<rparr>]\<rparr>
      \<lparr>row_fields = [IntegerV 5, NullV]\<rparr> = Ok (ValidatedRow \<lparr>row_fields = [IntegerV 5, NullV]\<rparr>)"
proof -
  let ?s = "\<lparr>columns = [\<lparr>col_name = [105, 100], col_type = IntegerT, nullable = False\<rparr>,
    \<lparr>col_name = [98], col_type = BoolT, nullable = True\<rparr>]\<rparr>"
  let ?r = "\<lparr>row_fields = [IntegerV 5, NullV]\<rparr>"
  have "schema_valid ?s" by (simp add: schema_valid_iff layout_simps)
  moreover have "length (row_fields ?r) = length (columns ?s) \<and> row_fits demo_env ?r \<and>
      (\<forall>(c, v) \<in> set (zip (columns ?s) (row_fields ?r)). field_conforms c v)"
    by (simp add: row_fits_def leaf_entry_size_def row_encoded_size_def internal_entry_size_def
        row_key_def field_conforms_def layout_simps)
  ultimately show ?thesis using validate_row_correct [of ?s demo_env ?r "ValidatedRow ?r"] by blast
qed

text \<open>
  the length check on string fields in \<^verbatim>\<open>validate_row\<close> can never be the one that fires: a
  field over \<^verbatim>\<open>MAX_FIELD_LEN\<close> makes the row too long for a leaf, which is tested first.
\<close>

theorem field_too_long_unreachable:
  "validate_row E s r \<noteq> Err (SchemaFieldTooLong n) \<and>
   (\<forall>v \<in> set (row_fields r). \<forall>str. v = StringV str \<and> MAX_FIELD_LEN < length str \<longrightarrow>
     MAX_LEAF_ENTRY_SIZE < leaf_entry_size E r)"
proof -
  have long: "MAX_LEAF_ENTRY_SIZE < leaf_entry_size E r"
    if "StringV str \<in> set (row_fields r)" "MAX_FIELD_LEN < length str" for str
  proof -
    have "row_value_encoded_size E (StringV str) \<le> sum_list (map (row_value_encoded_size E) (row_fields r))"
      by (rule member_le_sum_list_map [OF that(1)])
    then show ?thesis
      using that(2) by (simp add: leaf_entry_size_def row_encoded_size_def layout_simps)
  qed
  have "validate_fields i cvs \<noteq> Err (SchemaFieldTooLong n)"
    if "\<forall>(c, v) \<in> set cvs. \<forall>str. v = StringV str \<longrightarrow> length str \<le> MAX_FIELD_LEN" for i cvs
    using that
    by (induction i cvs rule: validate_fields.induct) (auto split: option.splits row_value.splits)
  then have "validate_row E s r \<noteq> Err (SchemaFieldTooLong n)"
    using long set_zip_rightD
    by (fastforce simp: validate_row_def rbind_Err_iff vec_index_def not_less split: if_splits result.splits)
  then show ?thesis using long by blast
qed

lemma field_too_long_unreachable_witness:
  "MAX_LEAF_ENTRY_SIZE < leaf_entry_size demo_env
      \<lparr>row_fields = [IntegerV 1, StringV (replicate 2000 97)]\<rparr>"
  using field_too_long_unreachable [of demo_env s
      "\<lparr>row_fields = [IntegerV 1, StringV (replicate 2000 97)]\<rparr>" n]
  by (simp add: layout_simps)

end
