(* ===== verification/Rust_Text.thy ===== *)
theory Rust_Text
  imports Rust_Std "HOL-Library.Char_ord"
begin

text \<open>
  The functions on text of Rust's standard library that \<^verbatim>\<open>src/schema/mod.rs\<close>, \<^verbatim>\<open>src/table/mod.rs\<close> and
  \<^verbatim>\<open>src/bin/repl.rs\<close> call on what a user types: characters, white space, case, and the parsers of \<^verbatim>\<open>i64\<close>, \<^verbatim>\<open>f64\<close> and
  \<^verbatim>\<open>bool\<close>. A string is its UTF-8 bytes.
\<close>

section \<open>Characters\<close>

text \<open>An ASCII literal.\<close>

definition lit :: "string \<Rightarrow> rstring" where
  "lit s = map of_char s"

lemma of_char_byte_inj: "(of_char c :: byte) = of_char d \<longleftrightarrow> c = d"
proof
  assume "(of_char c :: byte) = of_char d"
  then have "unat (of_char c :: byte) = unat (of_char d :: byte)" by simp
  moreover have "unat (of_char x :: byte) = of_char x" for x
  proof -
    have "unat (of_char x :: byte) = unat (of_nat (of_char x) :: byte)" by (simp only: of_nat_of_char)
    then show ?thesis by (simp only: unat_of_nat) simp
  qed
  ultimately have "(of_char c :: nat) = of_char d" by simp
  then show "c = d" by (simp add: of_char_eq_iff)
qed simp

lemma lit_inj [simp]: "lit s = lit t \<longleftrightarrow> s = t"
  unfolding lit_def by (rule inj_map_eq_map) (simp add: inj_def of_char_byte_inj)

lemma lit_Nil [simp]: "lit s = [] \<longleftrightarrow> s = []"
  by (simp add: lit_def)

text \<open>\<^verbatim>\<open>str::chars\<close>: a character is a leading byte and the continuation bytes behind it.\<close>

function chars :: "rstring \<Rightarrow> rstring list" where
  "chars [] = []"
| "chars (b # bs) = (b # takeWhile utf8_cont bs) # chars (dropWhile utf8_cont bs)"
  by pat_completeness auto

termination
  by (relation "measure length") (simp_all add: le_imp_less_Suc length_dropWhile_le)

lemma concat_chars: "concat (chars s) = s"
  by (induction s rule: chars.induct) simp_all

text \<open>The characters of a string are its code points: each is UTF-8 by itself.\<close>

lemma cont_within: "a \<le> x \<Longrightarrow> x \<le> b \<Longrightarrow> 0x80 \<le> a \<Longrightarrow> b \<le> 0xBF \<Longrightarrow> utf8_cont x"
  unfolding utf8_cont_def by (blast intro: order_trans)

lemma not_cont: "0xC2 \<le> a \<Longrightarrow> \<not> utf8_cont a"
  unfolding utf8_cont_def using order_trans [of "0xC2" a "0xBF"] by auto

lemma utf8_first:
  assumes v: "utf8_valid (a # r)"
  shows "\<exists>cs rest. r = cs @ rest \<and> (\<forall>c \<in> set cs. utf8_cont c) \<and> \<not> utf8_cont a \<and> utf8_valid rest \<and>
    (\<forall>zs. utf8_valid (a # cs @ zs) \<longleftrightarrow> utf8_valid zs)"
proof -
  consider (one) "a < 0x80" | (two) "0xC2 \<le> a \<and> a \<le> 0xDF" "\<not> a < 0x80" | (e0) "a = 0xE0" | (ed) "a = 0xED"
    | (three) "\<not> a < 0x80" "\<not> (0xC2 \<le> a \<and> a \<le> 0xDF)" "a \<noteq> 0xE0" "a \<noteq> 0xED" "0xE1 \<le> a \<and> a \<le> 0xEF"
    | (f0) "a = 0xF0" | (f4) "a = 0xF4"
    | (four) "\<not> a < 0x80" "\<not> (0xC2 \<le> a \<and> a \<le> 0xDF)" "a \<noteq> 0xE0" "a \<noteq> 0xED" "\<not> (0xE1 \<le> a \<and> a \<le> 0xEF)"
        "a \<noteq> 0xF0" "a \<noteq> 0xF4"
    by argo
  then show ?thesis
  proof cases
    case one
    then show ?thesis using v by (intro exI [of _ "[]"] exI [of _ r]) (simp add: utf8_cont_def not_le)
  next
    case two
    then obtain b r2 where "r = b # r2" using v by (cases r) simp_all
    then show ?thesis using v two not_cont [of a] by (intro exI [of _ "[b]"] exI [of _ r2]) simp
  next
    case e0
    then obtain b c r3 where "r = b # c # r3" using v by (cases r; cases "tl r") auto
    then show ?thesis using v e0 not_cont [of a] cont_within [of "0xA0" b "0xBF"]
      by (intro exI [of _ "[b, c]"] exI [of _ r3]) simp
  next
    case ed
    then obtain b c r3 where "r = b # c # r3" using v by (cases r; cases "tl r") auto
    then show ?thesis using v ed not_cont [of a] cont_within [of "0x80" b "0x9F"]
      by (intro exI [of _ "[b, c]"] exI [of _ r3]) simp
  next
    case three
    then obtain b c r3 where "r = b # c # r3" using v by (cases r; cases "tl r") simp_all
    then show ?thesis using v three not_cont [of a] order_trans [of "0xC2" "0xE1" a]
      by (intro exI [of _ "[b, c]"] exI [of _ r3]) simp
  next
    case f0
    then obtain b c d r4 where "r = b # c # d # r4" using v by (cases r; cases "tl r"; cases "tl (tl r)") auto
    then show ?thesis using v f0 not_cont [of a] cont_within [of "0x90" b "0xBF"]
      by (intro exI [of _ "[b, c, d]"] exI [of _ r4]) simp
  next
    case f4
    then obtain b c d r4 where "r = b # c # d # r4" using v by (cases r; cases "tl r"; cases "tl (tl r)") auto
    then show ?thesis using v f4 not_cont [of a] cont_within [of "0x80" b "0x8F"]
      by (intro exI [of _ "[b, c, d]"] exI [of _ r4]) simp
  next
    case four
    note simps = utf8_valid.simps list.case four if_False simp_thms
    have eq: "utf8_valid (a # b # c # d # zs) \<longleftrightarrow>
        (if 0xF1 \<le> a \<and> a \<le> 0xF3 then utf8_cont b \<and> utf8_cont c \<and> utf8_cont d \<and> utf8_valid zs else False)" for b c d zs
      by (simp only: simps)
    obtain b c d r4 where r: "r = b # c # d # r4"
      using v by (cases r; cases "tl r"; cases "tl (tl r)"; simp only: simps list.sel; blast)
    then have a: "0xF1 \<le> a \<and> a \<le> 0xF3" and cont: "utf8_cont b" "utf8_cont c" "utf8_cont d" "utf8_valid r4"
      using v unfolding r eq by (metis (full_types))+
    have "\<forall>zs. utf8_valid (a # [b, c, d] @ zs) \<longleftrightarrow> utf8_valid zs"
      by (simp only: append_Cons append_Nil eq a cont if_True simp_thms)
    then show ?thesis using cont a not_cont [of a] order_trans [of "0xC2" "0xF1" a] unfolding r
      by (intro exI [of _ "[b, c, d]"] exI [of _ r4]) (simp del: utf8_valid.simps)
  qed
qed

lemma utf8_append: "utf8_valid xs \<Longrightarrow> utf8_valid (xs @ ys) \<longleftrightarrow> utf8_valid ys"
proof (induction xs rule: length_induct)
  case (1 xs)
  show ?case
  proof (cases xs)
    case (Cons a r)
    then obtain cs rest where r: "r = cs @ rest" "utf8_valid rest" "\<forall>zs. utf8_valid (a # cs @ zs) \<longleftrightarrow> utf8_valid zs"
      using utf8_first [of a r] 1(2) by blast
    moreover have "utf8_valid (rest @ ys) \<longleftrightarrow> utf8_valid ys" using 1(1) r(1,2) Cons by simp
    ultimately show ?thesis using Cons by (metis append_Cons append_assoc)
  qed simp
qed

lemma utf8_not_cont: "utf8_valid (a # r) \<Longrightarrow> \<not> utf8_cont a"
  using utf8_first by blast

lemma chars_valid: "utf8_valid s \<Longrightarrow> c \<in> set (chars s) \<Longrightarrow> utf8_valid c"
proof (induction s rule: chars.induct)
  case (2 b bs)
  obtain cs rest where f: "bs = cs @ rest" "\<forall>c \<in> set cs. utf8_cont c" "utf8_valid rest"
      "\<And>zs. utf8_valid (b # cs @ zs) \<longleftrightarrow> utf8_valid zs"
    using utf8_first [OF 2(2)] by blast
  have "rest = [] \<or> \<not> utf8_cont (hd rest)" using f(3) utf8_not_cont by (cases rest) auto
  then have "takeWhile utf8_cont bs = cs" "dropWhile utf8_cont bs = rest"
    using f(1,2) by (cases rest; simp add: takeWhile_append2 dropWhile_append2)+
  moreover have "utf8_valid (b # cs)" using f(4) [of "[]"] by simp
  ultimately show ?case using 2 f(3) by (simp del: utf8_valid.simps) blast
qed simp

text \<open>\<^verbatim>\<open>char::is_whitespace\<close>: the characters with the Unicode property \<^verbatim>\<open>White_Space\<close>.\<close>

definition white_space :: "rstring list" where
  "white_space =
     [[0x09], [0x0A], [0x0B], [0x0C], [0x0D], [0x20], [0xC2, 0x85], [0xC2, 0xA0], [0xE1, 0x9A, 0x80],
      [0xE2, 0x80, 0x80], [0xE2, 0x80, 0x81], [0xE2, 0x80, 0x82], [0xE2, 0x80, 0x83], [0xE2, 0x80, 0x84],
      [0xE2, 0x80, 0x85], [0xE2, 0x80, 0x86], [0xE2, 0x80, 0x87], [0xE2, 0x80, 0x88], [0xE2, 0x80, 0x89],
      [0xE2, 0x80, 0x8A], [0xE2, 0x80, 0xA8], [0xE2, 0x80, 0xA9], [0xE2, 0x80, 0xAF], [0xE2, 0x81, 0x9F],
      [0xE3, 0x80, 0x80]]"

definition is_whitespace :: "rstring \<Rightarrow> bool" where
  "is_whitespace c \<longleftrightarrow> c \<in> set white_space"

text \<open>\<^verbatim>\<open>str::split_whitespace\<close>; the first argument is the word being read.\<close>

fun split_words :: "rstring \<Rightarrow> rstring list \<Rightarrow> rstring list" where
  "split_words w [] = (if w = [] then [] else [w])"
| "split_words w (c # cs) =
     (if is_whitespace c then (if w = [] then split_words [] cs else w # split_words [] cs)
      else split_words (w @ c) cs)"

lemma split_words_valid:
  "utf8_valid w \<Longrightarrow> \<forall>c \<in> set cs. utf8_valid c \<Longrightarrow> x \<in> set (split_words w cs) \<Longrightarrow> utf8_valid x"
  by (induction w cs rule: split_words.induct) (auto simp: utf8_append split: if_splits)

definition split_whitespace :: "rstring \<Rightarrow> rstring list" where
  "split_whitespace s = split_words [] (chars s)"

definition trim :: "rstring \<Rightarrow> rstring" where
  "trim s = concat (rev (dropWhile is_whitespace (rev (dropWhile is_whitespace (chars s)))))"

lemma split_whitespace_valid: "utf8_valid s \<Longrightarrow> w \<in> set (split_whitespace s) \<Longrightarrow> utf8_valid w"
  unfolding split_whitespace_def using split_words_valid [of "[]" "chars s" w] chars_valid by simp

section \<open>Case\<close>

definition ascii_lower :: "byte \<Rightarrow> byte" where
  "ascii_lower b = (if 0x41 \<le> b \<and> b \<le> 0x5A then b + 0x20 else b)"

definition to_ascii_lowercase :: "rstring \<Rightarrow> rstring" where
  "to_ascii_lowercase s = map ascii_lower s"

lemma ascii_lower_small: "a < 0x80 \<Longrightarrow> ascii_lower a < 0x80" and ascii_lower_large: "\<not> a < 0x80 \<Longrightarrow> ascii_lower a = a"
  by (auto simp: ascii_lower_def word_less_nat_alt word_le_nat_alt unat_plus_if')

lemma lowercase_valid: "utf8_valid s \<Longrightarrow> utf8_valid (to_ascii_lowercase s)"
proof (induction s rule: length_induct)
  case (1 s)
  show ?case
  proof (cases s)
    case (Cons a r)
    show ?thesis
    proof (cases "a < 0x80")
      case True
      then show ?thesis using 1 Cons ascii_lower_small by (simp add: to_ascii_lowercase_def)
    next
      case False
      obtain cs rest where f: "r = cs @ rest" "\<forall>c \<in> set cs. utf8_cont c" "utf8_valid rest"
          "\<And>zs. utf8_valid (a # cs @ zs) \<longleftrightarrow> utf8_valid zs"
        using utf8_first [of a r] 1(2) Cons by blast
      have "\<forall>c \<in> set cs. ascii_lower c = c" using f(2) ascii_lower_large by (auto simp: utf8_cont_def not_less)
      then have "to_ascii_lowercase s = a # cs @ to_ascii_lowercase rest"
        using False ascii_lower_large by (simp add: Cons f(1) to_ascii_lowercase_def map_idI)
      moreover have "utf8_valid (to_ascii_lowercase rest)" using 1(1) f(1,3) Cons by simp
      ultimately show ?thesis using f(4) by metis
    qed
  qed (simp add: to_ascii_lowercase_def)
qed

definition eq_ignore_ascii_case :: "rstring \<Rightarrow> rstring \<Rightarrow> bool" where
  "eq_ignore_ascii_case a b \<longleftrightarrow> to_ascii_lowercase a = to_ascii_lowercase b"

text \<open>
  \<^verbatim>\<open>s.to_uppercase() == "NULL"\<close>. No character outside ASCII has an upper case that is made of the letters N, U
  and L, so for this comparison only the ASCII letters count.
\<close>

definition is_upper_null :: "rstring \<Rightarrow> bool" where
  "is_upper_null s \<longleftrightarrow> to_ascii_lowercase s = lit ''null''"

section \<open>Numbers and booleans\<close>

definition is_digit :: "byte \<Rightarrow> bool" where
  "is_digit b \<longleftrightarrow> 0x30 \<le> b \<and> b \<le> 0x39"

text \<open>The number a string of digits stands for.\<close>

definition digits_value :: "rstring \<Rightarrow> nat" where
  "digits_value s = foldl (\<lambda>n b. 10 * n + (unat b - 0x30)) 0 s"

text \<open>\<^verbatim>\<open>i64::from_str\<close>: an optional sign, then digits only, within the range of the type.\<close>

definition parse_i64 :: "rstring \<Rightarrow> (64 word, unit) result" where
  "parse_i64 s =
     (let neg = (vec_first s = Some 0x2D);
          ds = (if neg \<or> vec_first s = Some 0x2B then tl s else s);
          n = digits_value ds
      in
        if ds = [] \<or> \<not> list_all is_digit ds then Err ()
        else if neg then (if n \<le> 2 ^ 63 then Ok (- word_of_nat n) else Err ())
        else if n < 2 ^ 63 then Ok (word_of_nat n)
        else Err ())"

text \<open>\<^verbatim>\<open>bool::from_str\<close>.\<close>

definition parse_bool :: "rstring \<Rightarrow> (bool, unit) result" where
  "parse_bool s =
     (if s = lit ''true'' then Ok True else if s = lit ''false'' then Ok False else Err ())"

text \<open>
  \<^verbatim>\<open>f64::from_str\<close>, whose result is the float nearest to the number, ties to even. Of the binary64 \<open>b\<close> without its sign,
  \<open>b mod 2 ^ 52\<close> is the fraction and \<open>b div 2 ^ 52\<close> the biased exponent, so that for a significand \<open>q\<close> scaled by \<open>2 ^ k\<close> the
  bits are \<open>(k + 1074) * 2 ^ 52 + q\<close>, subnormal or not, and a carry out of \<open>q\<close> goes to the exponent.
\<close>

definition round_half_even :: "nat \<Rightarrow> nat \<Rightarrow> nat" where
  "round_half_even n d =
     (let q = n div d; r = n mod d in if d < 2 * r \<or> d = 2 * r \<and> odd q then q + 1 else q)"

text \<open>\<open>n / d\<close> times \<open>2 ^ -k\<close> as a numerator and a denominator.\<close>

definition scale_down :: "nat \<Rightarrow> nat \<Rightarrow> int \<Rightarrow> nat \<times> nat" where
  "scale_down n d k = (if 0 \<le> k then (n, d * 2 ^ nat k) else (n * 2 ^ nat (- k), d))"

text \<open>How many bits a number takes.\<close>

fun bit_size :: "nat \<Rightarrow> nat" where
  "bit_size n = (if n = 0 then 0 else Suc (bit_size (n div 2)))"

declare bit_size.simps [simp del]

definition f64_bits :: "nat \<Rightarrow> nat \<Rightarrow> nat" where
  "f64_bits n d =
     (if n = 0 then 0
      else
        let e = int (bit_size n) - int (bit_size d);
            (n1, d1) = scale_down n d (e - 53);
            k = max (- 1074) (if 2 ^ 53 * d1 \<le> n1 then e - 52 else e - 53);
            (n2, d2) = scale_down n d k
        in min (0x7FF * 2 ^ 52) (nat (k + 1074) * 2 ^ 52 + round_half_even n2 d2))"

definition f64_signed :: "bool \<Rightarrow> nat \<Rightarrow> 64 word" where
  "f64_signed neg b = word_of_nat ((if neg then 2 ^ 63 else 0) + b)"

text \<open>The exponent behind the digits: nothing, or \<^verbatim>\<open>e\<close>, an optional sign and digits.\<close>

definition parse_exponent :: "rstring \<Rightarrow> int option" where
  "parse_exponent s =
     (case s of
       [] \<Rightarrow> Some 0
     | b # r \<Rightarrow>
         let neg = (vec_first r = Some 0x2D);
             ds = (if neg \<or> vec_first r = Some 0x2B then tl r else r)
         in
           if ascii_lower b \<noteq> 0x65 \<or> ds = [] \<or> \<not> list_all is_digit ds then None
           else Some (if neg then - int (digits_value ds) else int (digits_value ds)))"

definition parse_f64 :: "rstring \<Rightarrow> (64 word, unit) result" where
  "parse_f64 s =
     (let neg = (vec_first s = Some 0x2D);
          r = (if neg \<or> vec_first s = Some 0x2B then tl s else s);
          name = to_ascii_lowercase r;
          whole = takeWhile is_digit r;
          r1 = dropWhile is_digit r;
          r2 = (if vec_first r1 = Some 0x2E then tl r1 else r1);
          fraction = (if vec_first r1 = Some 0x2E then takeWhile is_digit r2 else []);
          r3 = (if vec_first r1 = Some 0x2E then dropWhile is_digit r2 else r1)
      in
        if name = lit ''inf'' \<or> name = lit ''infinity'' then Ok (f64_signed neg (0x7FF * 2 ^ 52))
        else if name = lit ''nan'' then Ok (f64_signed neg (0x7FF8 * 2 ^ 48))
        else if whole @ fraction = [] then Err ()
        else case parse_exponent r3 of
          None \<Rightarrow> Err ()
        | Some x \<Rightarrow>
            let e = x - int (length fraction);
                n = digits_value (whole @ fraction)
            in Ok (f64_signed neg
                 (if 0 \<le> e then f64_bits (n * 10 ^ nat e) 1 else f64_bits n (10 ^ nat (- e)))))"

text \<open>Decimal notation, as \<^verbatim>\<open>Display\<close> gives it for integers.\<close>

fun show_nat :: "nat \<Rightarrow> rstring" where
  "show_nat n = (if n < 10 then [] else show_nat (n div 10)) @ [word_of_nat (0x30 + n mod 10)]"

declare show_nat.simps [simp del]

definition show_i64 :: "64 word \<Rightarrow> rstring" where
  "show_i64 w = (if sint w < 0 then 0x2D # show_nat (nat (- sint w)) else show_nat (nat (sint w)))"

section \<open>Plain words\<close>

text \<open>Printable ASCII, no space and no capital.\<close>

definition plain :: "byte \<Rightarrow> bool" where
  "plain c \<longleftrightarrow> 0x20 < c \<and> c < 0x7F \<and> \<not> (0x41 \<le> c \<and> c \<le> 0x5A)"

lemma plain_ascii: "plain c \<Longrightarrow> c < 0x80"
  unfolding plain_def using less_trans [of c "0x7F" "0x80"] by auto

lemma plain_not_space: "plain c \<Longrightarrow> \<not> is_whitespace [c]"
  by (auto simp: is_whitespace_def white_space_def plain_def)

lemma plain_lower: "\<forall>c \<in> set w. plain c \<Longrightarrow> to_ascii_lowercase w = w"
  unfolding to_ascii_lowercase_def by (rule map_idI) (auto simp: plain_def ascii_lower_def)

lemma ascii_not_cont: "c < 0x80 \<Longrightarrow> \<not> utf8_cont c"
  by (simp add: utf8_cont_def not_le)

lemma chars_ascii: "\<forall>c \<in> set s. c < 0x80 \<Longrightarrow> chars s = map (\<lambda>c. [c]) s"
proof (induction s)
  case (Cons b bs)
  then have "takeWhile utf8_cont bs = []" "dropWhile utf8_cont bs = bs" using ascii_not_cont by (cases bs; simp)+
  then show ?case using Cons by simp
qed simp

lemma utf8_ascii: "\<forall>c \<in> set s. c < 0x80 \<Longrightarrow> utf8_valid s"
  by (induction s) auto

lemma split_words_plain:
  "\<forall>c \<in> set p. plain c \<Longrightarrow> split_words w (map (\<lambda>c. [c]) p @ cs) = split_words (w @ p) cs"
  by (induction p arbitrary: w) (auto simp: plain_not_space)

lemma drop_no_space: "\<forall>c \<in> set s. plain c \<Longrightarrow> dropWhile is_whitespace (map (\<lambda>c. [c]) s) = map (\<lambda>c. [c]) s"
  by (cases s) (simp_all add: plain_not_space)

lemma trim_plain: "\<forall>c \<in> set s. plain c \<Longrightarrow> trim s = s"
  using drop_no_space [of s] drop_no_space [of "rev s"] chars_ascii [of s] plain_ascii
  by (simp add: trim_def rev_map)

section \<open>Numbers are read back\<close>

lemma unat_digit: "unat (word_of_nat (48 + n mod 10) :: byte) = 48 + n mod 10"
  using mod_less_divisor [of 10 n] by (simp only: unat_of_nat) (simp add: mod_less)

lemma digits_value_snoc: "digits_value (s @ [b]) = 10 * digits_value s + (unat b - 48)"
  by (simp add: digits_value_def)

lemma show_nat_digits:
  "show_nat n \<noteq> []" "\<forall>b \<in> set (show_nat n). is_digit b" "digits_value (show_nat n) = n"
proof (induction n rule: show_nat.induct)
  case (1 n)
  have d: "is_digit (word_of_nat (48 + n mod 10))"
    using mod_less_divisor [of 10 n] unat_digit [of n] by (simp add: is_digit_def word_le_nat_alt del: mod_less_divisor)
  show "show_nat n \<noteq> []" by (simp add: show_nat.simps [of n])
  show "\<forall>b \<in> set (show_nat n). is_digit b" using 1 d by (simp add: show_nat.simps [of n])
  show "digits_value (show_nat n) = n"
    using 1 unat_digit [of n]
    by (cases "n < 10") (simp_all add: show_nat.simps [of n] digits_value_snoc digits_value_def)
qed

lemma digit_no_sign: "is_digit b \<Longrightarrow> b \<noteq> 0x2D \<and> b \<noteq> 0x2B"
  by (auto simp: is_digit_def)

theorem parse_show_i64: "parse_i64 (show_i64 w) = Ok w"
proof (cases "sint w < 0")
  case True
  have "- word_of_nat (nat (- sint w)) = w" using True by (simp add: of_nat_nat)
  moreover have "nat (- sint w) \<le> 2 ^ 63" using sint_ge [of w] by simp
  ultimately show ?thesis
    using True show_nat_digits [of "nat (- sint w)"] by (simp add: parse_i64_def show_i64_def vec_first_def list_all_iff)
next
  case False
  obtain b bs where b: "show_nat (nat (sint w)) = b # bs" using show_nat_digits(1) by (cases "show_nat (nat (sint w))") auto
  then have "is_digit b" using show_nat_digits(2) by (metis list.set_intros(1))
  moreover have "nat (sint w) < 2 ^ 63" using sint_less [of w] by simp
  moreover have "word_of_nat (nat (sint w)) = w" using False by (simp add: of_nat_nat)
  ultimately show ?thesis
    using False show_nat_digits [of "nat (sint w)"] digit_no_sign [of b] unfolding show_i64_def
    by (simp add: parse_i64_def b vec_first_def list_all_iff)
qed

lemma show_i64_plain: "\<forall>c \<in> set (show_i64 w). plain c"
proof -
  have digit: "plain c" if "is_digit c" for c
    using that unfolding is_digit_def plain_def by (auto simp: word_le_nat_alt word_less_nat_alt)
  then have "\<forall>c \<in> set (show_nat n). plain c" for n using show_nat_digits(2) by blast
  moreover have "plain 0x2D" by (simp add: plain_def)
  ultimately show ?thesis by (simp add: show_i64_def)
qed

end
