(* ===== verification/Typed_Text.thy ===== *)
theory Typed_Text
  imports Table Rust_Text
begin

text \<open>
  The calls of \<^verbatim>\<open>src/table/mod.rs\<close> and \<^verbatim>\<open>src/schema/mod.rs\<close> that take typed text and that print rows. \<open>show_f64\<close> is
  \<^verbatim>\<open>Display\<close> of \<^verbatim>\<open>f64\<close>, which prints the shortest digits that read back as the float; it only shows in printed rows.
\<close>

section \<open>Values and filters\<close>

definition parse_value :: "column_type \<Rightarrow> rstring \<Rightarrow> (row_value, schema_error) result" where
  "parse_value t text =
     (let text = trim text in
        if eq_ignore_ascii_case text (lit ''null'') then Ok NullV
        else case t of
          IntegerT \<Rightarrow> rbind (map_err (\<lambda>_. ParseInt) (parse_i64 text)) (\<lambda>n. Ok (IntegerV n))
        | FloatT \<Rightarrow>
            rbind (map_err (\<lambda>_. ParseFloat) (parse_f64 text)) (\<lambda>f.
              if f64_is_nan f then Err NanFloat else Ok (FloatV f))
        | BoolT \<Rightarrow>
            (let b = to_ascii_lowercase text in
               if b = lit ''true'' \<or> b = lit ''t'' \<or> b = lit ''1'' then Ok (BooleanV True)
               else if b = lit ''false'' \<or> b = lit ''f'' \<or> b = lit ''0'' then Ok (BooleanV False)
               else Err ParseBool)
        | StringT \<Rightarrow> Ok (StringV text))"

definition filter_fn :: "schema \<Rightarrow> rstring \<Rightarrow> rstring \<Rightarrow> (row \<Rightarrow> bool, schema_error) result" where
  "filter_fn sc name text =
     rbind (ok_or ColumnNotFound (position (\<lambda>c. col_name c = name) (columns sc))) (\<lambda>i.
     rbind (vec_index (columns sc) i) (\<lambda>c.
     rbind (parse_value (col_type c) text) (\<lambda>value.
       Ok (\<lambda>row. case vec_get i (row_fields row) of None \<Rightarrow> False | Some rv \<Rightarrow> row_value_eq value rv))))"

section \<open>Calls with typed arguments\<close>

definition map_raw :: "column_type \<Rightarrow> rstring \<Rightarrow> (row_value, table_error) result" where
  "map_raw kind arg =
     (if is_upper_null arg then Ok NullV
      else case kind of
        BoolT \<Rightarrow> rbind (map_err (\<lambda>_. TableUnexpected) (parse_bool arg)) (\<lambda>b. Ok (BooleanV b))
      | FloatT \<Rightarrow> rbind (map_err (\<lambda>_. TableUnexpected) (parse_f64 arg)) (\<lambda>f. Ok (FloatV f))
      | IntegerT \<Rightarrow> rbind (map_err (\<lambda>_. TableUnexpected) (parse_i64 arg)) (\<lambda>n. Ok (IntegerV n))
      | StringT \<Rightarrow> Ok (StringV arg))"

text \<open>\<^verbatim>\<open>zip(..).map(..).collect::<Result<_, _>>()\<close>: the first error ends it.\<close>

fun map_args :: "column_type list \<Rightarrow> rstring list \<Rightarrow> (row_value list, table_error) result" where
  "map_args (kind # kinds) (arg # args) =
     rbind (map_raw kind arg) (\<lambda>v. rbind (map_args kinds args) (\<lambda>vs. Ok (v # vs)))"
| "map_args _ _ = Ok []"

definition insert_raw ::
  "env \<Rightarrow> 'd disk_manager \<Rightarrow> 'e find_victim \<Rightarrow> table \<Rightarrow> rstring list \<Rightarrow> (('d, 'e) bpm, unit, table_error) proc" where
  "insert_raw E D V tbl args =
     pbind (pcall (slift (map_args (map col_type (columns (tbl_schema tbl))) args))) (\<lambda>fields.
       table_insert E D V tbl \<lparr>row_fields = fields\<rparr>)"

text \<open>The key that \<^verbatim>\<open>delete_raw\<close> and \<^verbatim>\<open>get_raw\<close> read: exactly one argument, or else a panic.\<close>

definition raw_key :: "table \<Rightarrow> rstring list \<Rightarrow> (key, table_error) result" where
  "raw_key tbl args =
     (case args of
       [arg] \<Rightarrow>
         rbind (vec_index (columns (tbl_schema tbl)) 0) (\<lambda>c.
         rbind (map_raw (col_type c) arg) (\<lambda>row_val.
           case key_try_from row_val of Ok key \<Rightarrow> Ok key | _ \<Rightarrow> Panic))
     | _ \<Rightarrow> Panic)"

definition delete_raw ::
  "env \<Rightarrow> 'd disk_manager \<Rightarrow> 'e find_victim \<Rightarrow> table \<Rightarrow> rstring list \<Rightarrow>
   (('d, 'e) bpm, row option, table_error) proc" where
  "delete_raw E D V tbl args = pbind (pcall (slift (raw_key tbl args))) (\<lambda>key. table_delete E D V tbl key)"

definition get_raw ::
  "env \<Rightarrow> 'd disk_manager \<Rightarrow> 'e find_victim \<Rightarrow> table \<Rightarrow> rstring list \<Rightarrow>
   (('d, 'e) bpm, row option, table_error) proc" where
  "get_raw E D V tbl args = pbind (pcall (slift (raw_key tbl args))) (\<lambda>key. table_get E D V tbl key)"

definition raw_filter :: "table \<Rightarrow> rstring list \<Rightarrow> (row \<Rightarrow> bool, table_error) result" where
  "raw_filter tbl args =
     (case args of
       [a, b, name, text] \<Rightarrow>
         if a \<noteq> lit ''*'' \<or> b \<noteq> lit ''where'' then Panic
         else map_err TableSchema (filter_fn (tbl_schema tbl) name text)
     | _ \<Rightarrow> Panic)"

definition get_all_raw ::
  "env \<Rightarrow> 'd disk_manager \<Rightarrow> 'e find_victim \<Rightarrow> table \<Rightarrow> rstring list \<Rightarrow>
   (('d, 'e) bpm, row list, table_error) proc" where
  "get_all_raw E D V tbl args = pbind (pcall (slift (raw_filter tbl args))) (\<lambda>f. table_get_all E D V tbl f)"

section \<open>Going on after an error\<close>

text \<open>A \<^verbatim>\<open>match\<close> on the result of a call, and \<^verbatim>\<open>expect\<close> on it.\<close>

definition reported ::
  "('a \<Rightarrow> 'b) \<Rightarrow> ('e \<Rightarrow> 'b) \<Rightarrow> ('s, 'a, 'e) proc \<Rightarrow> ('s, 'b, 'f) proc" where
  "reported f g m = (\<lambda>s. case m s of
     None \<Rightarrow> None
   | Some (Ok x, s') \<Rightarrow> Some (Ok (f x), s')
   | Some (Err e, s') \<Rightarrow> Some (Ok (g e), s')
   | Some (Panic, s') \<Rightarrow> Some (Panic, s'))"

definition pexpect :: "('s, 'a, 'e) proc \<Rightarrow> ('s, 'a, 'f) proc" where
  "pexpect m = (\<lambda>s. case m s of
     None \<Rightarrow> None
   | Some (Ok x, s') \<Rightarrow> Some (Ok x, s')
   | Some (_, s') \<Rightarrow> Some (Panic, s'))"

lemma wp_reported [wp_simps]:
  "wp h (reported f g m s) Q X \<longleftrightarrow> wp h (m s) (\<lambda>x. Q (f x)) (\<lambda>e. Q (g e))"
  by (auto simp: reported_def wp_def split: option.splits prod.splits result.splits)

lemma wp_pexpect [wp_simps]: "wp h (pexpect m s) Q X \<longleftrightarrow> wp h (m s) Q (\<lambda>_ _. \<not> h)"
  by (auto simp: pexpect_def wp_def split: option.splits prod.splits result.splits)

section \<open>Printing rows\<close>

fun show_value :: "(64 word \<Rightarrow> rstring) \<Rightarrow> row_value \<Rightarrow> rstring" where
  "show_value show_f64 (IntegerV n) = show_i64 n"
| "show_value show_f64 (FloatV f) = show_f64 f"
| "show_value show_f64 (BooleanV b) = lit (if b then ''true'' else ''false'')"
| "show_value show_f64 NullV = lit ''NULL''"
| "show_value show_f64 (StringV s) = 0x27 # s @ [0x27]"

fun debug_column_type :: "column_type \<Rightarrow> rstring" where
  "debug_column_type IntegerT = lit ''Integer''"
| "debug_column_type FloatT = lit ''Float''"
| "debug_column_type StringT = lit ''String''"
| "debug_column_type BoolT = lit ''Bool''"

definition show_column :: "column \<Rightarrow> rstring" where
  "show_column c =
     col_name c @ lit '' ('' @ debug_column_type (col_type c) @ (if nullable c then lit ''*'' else []) @ lit '')''"

definition COL_WIDTH :: nat where
  "COL_WIDTH = 30"

text \<open>A cell: padded with spaces, or cut and ended by an ellipsis.\<close>

definition cell :: "rstring \<Rightarrow> rstring" where
  "cell s =
     (if COL_WIDTH < length (chars s) then concat (take (COL_WIDTH - 1) (chars s)) @ [0xE2, 0x80, 0xA6]
      else s @ replicate (COL_WIDTH - length (chars s)) 0x20)"

fun join :: "rstring \<Rightarrow> rstring list \<Rightarrow> rstring" where
  "join sep [] = []"
| "join sep [s] = s"
| "join sep (s # t # ss) = s @ sep @ join sep (t # ss)"

definition line :: "rstring list \<Rightarrow> rstring" where
  "line cells = lit ''| '' @ join (lit '' | '') (map cell cells) @ lit '' |''"

text \<open>The lines that \<^verbatim>\<open>print_rows\<close> prints.\<close>

definition row_lines :: "(64 word \<Rightarrow> rstring) \<Rightarrow> row list \<Rightarrow> rstring list" where
  "row_lines show_f64 rows = map (\<lambda>row. line (map (show_value show_f64) (row_fields row))) rows"

definition print_rows :: "(64 word \<Rightarrow> rstring) \<Rightarrow> table \<Rightarrow> row list \<Rightarrow> rstring list" where
  "print_rows show_f64 tbl rows =
     (let header = line (map show_column (columns (tbl_schema tbl)));
          rule = replicate (length (chars header)) 0x2D;
          body =
            (if length rows \<le> 10 then row_lines show_f64 rows
             else
               row_lines show_f64 (take 5 rows) @
               [line (map (\<lambda>_. lit ''...'') (columns (tbl_schema tbl)))] @
               row_lines show_f64 (drop (length rows - 5) rows))
      in
        [tbl_name tbl, rule, header, rule] @ body @ [rule, lit ''('' @ show_nat (length rows) @ lit '' rows)''])"

definition print_table ::
  "env \<Rightarrow> 'd disk_manager \<Rightarrow> 'e find_victim \<Rightarrow> (64 word \<Rightarrow> rstring) \<Rightarrow> table \<Rightarrow>
   (('d, 'e) bpm, rstring list, table_error) proc" where
  "print_table E D V show_f64 tbl =
     pbind (pexpect (btree_get_all E D V tbl (\<lambda>_. True))) (\<lambda>rows. pcall (sreturn (print_rows show_f64 tbl rows)))"

section \<open>What is printed can be typed\<close>

lemma lower_words: "to_ascii_lowercase (lit ''true'') = lit ''true''" "to_ascii_lowercase (lit ''false'') = lit ''false''"
  "to_ascii_lowercase (lit ''NULL'') = lit ''null''" "to_ascii_lowercase (lit ''null'') = lit ''null''"
  by (simp_all add: to_ascii_lowercase_def ascii_lower_def lit_def)

lemma plain_words: "\<forall>c \<in> set (lit ''true''). plain c" "\<forall>c \<in> set (lit ''false''). plain c" "\<forall>c \<in> set (lit ''null''). plain c"
  by (simp_all add: plain_def lit_def)

lemma show_i64_not_null: "show_i64 n \<noteq> lit ''null''"
  using show_nat_digits(2) [of "nat (sint n)"] by (auto simp: show_i64_def lit_def is_digit_def)

text \<open>
  C35: what the shell prints for an integer, a boolean or a null is, once the shell has put what is typed into lower
  case, read as the same value: as an argument of \<^verbatim>\<open>insert\<close>, \<^verbatim>\<open>delete\<close> and \<^verbatim>\<open>select\<close> (\<^verbatim>\<open>map_raw\<close>) and as the value of a
  filter (\<^verbatim>\<open>parse_value\<close>). Every 64-bit integer is, the least one included.
\<close>

theorem printed_value_reads_back:
  "map_raw IntegerT (to_ascii_lowercase (show_value show_f64 (IntegerV n))) = Ok (IntegerV n) \<and>
    parse_value IntegerT (to_ascii_lowercase (show_value show_f64 (IntegerV n))) = Ok (IntegerV n) \<and>
    map_raw BoolT (to_ascii_lowercase (show_value show_f64 (BooleanV b))) = Ok (BooleanV b) \<and>
    parse_value BoolT (to_ascii_lowercase (show_value show_f64 (BooleanV b))) = Ok (BooleanV b) \<and>
    map_raw t (to_ascii_lowercase (show_value show_f64 NullV)) = Ok NullV \<and>
    parse_value t (to_ascii_lowercase (show_value show_f64 NullV)) = Ok NullV"
proof -
  note num = plain_lower [OF show_i64_plain] trim_plain [OF show_i64_plain]
  have "\<not> is_upper_null (show_i64 n)" "\<not> eq_ignore_ascii_case (show_i64 n) (lit ''null'')"
    by (simp_all add: is_upper_null_def eq_ignore_ascii_case_def num lower_words show_i64_not_null)
  then show ?thesis
    by (simp add: map_raw_def parse_value_def num trim_plain plain_words lower_words parse_show_i64 is_upper_null_def
        eq_ignore_ascii_case_def parse_bool_def Let_def)
qed

end
