(* ===== verification/Requests.thy ===== *)
theory Requests
  imports Delete_Props Table_Props Schema_Correct Typed_Text
begin

text \<open>
  A client's view: any sequence of calls on a table is answered as an ordered map from keys to rows answers
  it. The map is the specification; the calls are those of \<^verbatim>\<open>Table\<close>, down to the file.
\<close>

section \<open>The height of a tree\<close>

lemma chain_items: "chain W h xs \<Longrightarrow> x \<in> set xs \<Longrightarrow> \<exists>l h'. W l h' (snd x)"
  by (induction xs) auto

lemma wf_tree_pages: "wf_tree E n l h t \<Longrightarrow> 2 ^ Suc n \<le> length (pids t) + 1"
proof (induction n arbitrary: l h t)
  case 0
  then show ?case by auto
next
  case (Suc n)
  then obtain i xs where t: "t = Branch i xs" "2 \<le> length xs" "chain (wf_tree E n) h xs" by auto
  then obtain x y zs where xs: "xs = x # y # zs" by (cases xs; cases "tl xs") auto
  have "2 ^ Suc n \<le> length (pids (snd x)) + 1" "2 ^ Suc n \<le> length (pids (snd y)) + 1"
    using chain_items [OF t(3)] Suc.IH xs by (metis list.set_intros)+
  then show ?case by (simp add: t(1) xs)
qed

text \<open>Every page of a table has a number of 32 bits, so a tree has at most 31 levels.\<close>

lemma table_height:
  assumes "table_state E h n tbl t m cnt fl s"
  shows "2 ^ Suc m \<le> unat cnt" and "m \<le> 30"
proof -
  obtain v where v: "tree_in E v m t" "space tbl v (tid t) cnt fl (set (pids t))"
    using assms unfolding table_state_def by blast
  have "card (set (pids t)) = length (pids t)" using v(1) by (simp add: tree_in_def distinct_card)
  moreover have "2 ^ Suc m \<le> length (pids t) + 1" using v(1) wf_tree_pages [of E m None None t] by (simp add: tree_in_def)
  ultimately show le: "2 ^ Suc m \<le> unat cnt" using space_count [OF v(2)] by simp
  have "unat cnt < 2 ^ 32" using unsigned_less [of cnt, where ?'a = nat] by simp
  then have "(2 :: nat) ^ Suc m < 2 ^ 32" using le by linarith
  then have "Suc m < 32" by (rule power_less_imp_less_exp [rotated]) simp
  then show "m \<le> 30" by simp
qed

section \<open>What a table stores conforms to its schema\<close>

lemma table_schema_valid:
  assumes "table_state E h n tbl t m cnt fl s"
  shows "schema_valid (tbl_schema tbl)"
proof -
  obtain v where v: "tracks E {pid. get_table_id pid = get_table_id (meta_id tbl)} (file_stored E) clock_ok healthy h n v {#} s"
      "space tbl v (tid t) cnt fl (set (pids t))"
    using assms unfolding table_state_def by blast
  obtain p flh where p: "v (meta_id tbl) = Some p" "body p = Meta (tid t) cnt flh (tbl_schema tbl) (tbl_name tbl)"
    using v(2) by (rule spaceE)
  have "storable E p" by (rule file_pool.trk_storable(1) [OF v(1) p(1)])
  then show ?thesis by (simp add: storable_def page_wf_def p(2) schema_wf_def)
qed

text \<open>The strings of a Rust value are UTF-8.\<close>

definition row_utf8 :: "row \<Rightarrow> bool" where
  "row_utf8 r \<longleftrightarrow> (\<forall>s. StringV s \<in> set (row_fields r) \<longrightarrow> utf8_valid s)"

lemma validated:
  assumes "schema_valid sc" and "validate_row E sc r = Ok vr" and "row_utf8 r"
  shows "vr = ValidatedRow r" and "row_fits E r" and "row_wf r"
    and "col_type (hd (columns sc)) = IntegerT \<Longrightarrow> the_key r \<in> range IntegerK"
proof -
  note v = validate_row_Ok_iff [OF assms(1), of E r vr, THEN iffD1, OF assms(2)]
  show "vr = ValidatedRow r" "row_fits E r" using v by simp_all
  have "row_value_wf x" if x: "x \<in> set (row_fields r)" for x
  proof -
    obtain i where i: "i < length (row_fields r)" "row_fields r ! i = x" using x unfolding in_set_conv_nth by blast
    then have "(columns sc ! i, x) \<in> set (zip (columns sc) (row_fields r))" using v by (auto simp: set_zip)
    then have "field_conforms (columns sc ! i) x" using v by blast
    then show ?thesis using x assms(3) by (cases x) (auto simp: field_conforms_def row_utf8_def)
  qed
  then show "row_wf r" using v assms(1) by (simp add: row_wf_def schema_valid_iff)
  show "the_key r \<in> range IntegerK" if i: "col_type (hd (columns sc)) = IntegerT"
  proof -
    obtain c cs where c: "columns sc = c # cs" using assms(1) by (cases "columns sc") (auto simp: schema_valid_iff)
    obtain x xs where x: "row_fields r = x # xs" using v c by (cases "row_fields r") auto
    have "field_conforms c x" using v by (simp add: c x)
    moreover have "\<not> nullable c" using assms(1) by (simp add: schema_valid_iff c)
    ultimately have "\<exists>n. x = IntegerV n" using i by (cases x) (auto simp: field_conforms_def c)
    then show ?thesis using x row_fits_key [of E r] v by (auto simp: row_key_def) (metis rangeI)
  qed
qed

section \<open>Requests\<close>

datatype request = Insert row | Delete key | Get key | GetAll "row \<Rightarrow> bool"

fun request_wf :: "request \<Rightarrow> bool" where
  "request_wf (Insert r) \<longleftrightarrow> row_utf8 r"
| "request_wf _ \<longleftrightarrow> True"

datatype answer = Inserted | OneRow "row option" | ManyRows "row list" | Failed table_error

text \<open>The client goes on after an error.\<close>

fun serve ::
  "env \<Rightarrow> 'd disk_manager \<Rightarrow> 'e find_victim \<Rightarrow> table \<Rightarrow> request \<Rightarrow> (('d, 'e) bpm, answer, table_error) proc" where
  "serve E D V tbl (Insert r) = reported (\<lambda>_. Inserted) Failed (table_insert E D V tbl r)"
| "serve E D V tbl (Delete k) = reported OneRow Failed (table_delete E D V tbl k)"
| "serve E D V tbl (Get k) = reported OneRow Failed (table_get E D V tbl k)"
| "serve E D V tbl (GetAll f) = reported ManyRows Failed (table_get_all E D V tbl f)"

fun serve_all ::
  "env \<Rightarrow> 'd disk_manager \<Rightarrow> 'e find_victim \<Rightarrow> table \<Rightarrow> request list \<Rightarrow>
   (('d, 'e) bpm, answer list, table_error) proc" where
  "serve_all E D V tbl [] = pcall (sreturn [])"
| "serve_all E D V tbl (rq # rqs) =
     pbind (serve E D V tbl rq) (\<lambda>a. pbind (serve_all E D V tbl rqs) (\<lambda>as. pcall (sreturn (a # as))))"

text \<open>The specification: a map, which has no pages, splits or guards.\<close>

definition rows_of :: "(key \<Rightarrow> row option) \<Rightarrow> row list" where
  "rows_of M = map (\<lambda>k. the (M k)) (sorted_list_of_set (dom M))"

text \<open>What the map answers to an insertion.\<close>

definition ideal_insert ::
  "env \<Rightarrow> schema \<Rightarrow> row \<Rightarrow> (key \<Rightarrow> row option) \<Rightarrow> (unit, table_error) result \<times> (key \<Rightarrow> row option)" where
  "ideal_insert E sc r M =
     (case validate_row E sc r of
       Err e \<Rightarrow> (Err (TableSchema e), M)
     | _ \<Rightarrow>
         if the_key r \<in> dom M then (Err (TableBTree (BTreePage DuplicateKey)), M)
         else (Ok (), M(the_key r \<mapsto> r)))"

fun ideal :: "env \<Rightarrow> schema \<Rightarrow> request \<Rightarrow> (key \<Rightarrow> row option) \<Rightarrow> answer \<times> (key \<Rightarrow> row option)" where
  "ideal E sc (Insert r) M =
     (case ideal_insert E sc r M of (Ok _, M') \<Rightarrow> (Inserted, M') | (Err e, M') \<Rightarrow> (Failed e, M') | (Panic, M') \<Rightarrow> (Inserted, M'))"
| "ideal E sc (Delete k) M = (OneRow (M k), M(k := None))"
| "ideal E sc (Get k) M = (OneRow (M k), M)"
| "ideal E sc (GetAll f) M = (ManyRows (filter f (rows_of M)), M)"

fun ideal_all ::
  "env \<Rightarrow> schema \<Rightarrow> request list \<Rightarrow> (key \<Rightarrow> row option) \<Rightarrow> answer list \<times> (key \<Rightarrow> row option)" where
  "ideal_all E sc [] M = ([], M)"
| "ideal_all E sc (rq # rqs) M =
     (let (a, M') = ideal E sc rq M; (as, M'') = ideal_all E sc rqs M' in (a # as, M''))"

lemma strict_sorted_keys: "sorted_wrt (<) ks \<Longrightarrow> sorted_list_of_set (set ks) = (ks :: key list)"
  by (intro sorted_list_of_set.idem_if_sorted_distinct) (simp_all add: strict_sorted_iff)

lemma rows_of_tree:
  assumes "table_state E h n tbl t m cnt fl s"
  shows "rows_of (rows_map (rows t)) = rows t"
proof -
  obtain v where "tree_in E v m t" using assms unfolding table_state_def by blast
  then have ok: "rows_ok E (rows t)" using wfk_rows_ok [of E m 2 None None t] by (simp add: tree_in_def)
  then have sorted: "sorted_wrt (<) (row_keys (rows t))" by (simp add: rows_ok_iff)
  have keys: "sorted_list_of_set (set (row_keys (rows t))) = row_keys (rows t)"
    by (rule strict_sorted_keys [OF sorted])
  have "the (rows_map (rows t) (the_key r)) = r" if r: "r \<in> set (rows t)" for r
  proof -
    obtain i where i: "i < length (rows t)" "rows t ! i = r" using r unfolding in_set_conv_nth by blast
    show ?thesis unfolding i(2) [symmetric] rows_map_nth [OF ok i(1)] by (rule option.sel)
  qed
  then have id: "map (\<lambda>k. the (rows_map (rows t) k)) (row_keys (rows t)) = rows t"
    unfolding row_keys_def map_map comp_def by (rule map_idI)
  show ?thesis unfolding rows_of_def dom_rows_map keys by (rule id)
qed

section \<open>The table answers as the map\<close>

text \<open>
  A table at rest that stands for \<open>M\<close> and has at most \<open>B\<close> pages. All keys are integers, and so all are of one size.
\<close>

definition table_holds ::
  "env \<Rightarrow> nat \<Rightarrow> table \<Rightarrow> (key \<Rightarrow> row option) \<Rightarrow> nat \<Rightarrow> pool \<Rightarrow> bool" where
  "table_holds E n tbl M B s \<longleftrightarrow>
     (\<exists>t m cnt fl. table_state E True n tbl t m cnt fl s \<and> rows_map (rows t) = M \<and> tree_keys t \<subseteq> range IntegerK \<and>
       unat cnt \<le> B)"

lemma integers_same_size: "S \<subseteq> range IntegerK \<Longrightarrow> same_size E S"
proof -
  assume S: "S \<subseteq> range IntegerK"
  then have "internal_entry_size E a = internal_entry_size E (IntegerK 0)" if "a \<in> S" for a
    using that by (auto simp: internal_entry_size_def dest: subsetD)
  then show ?thesis by (simp add: same_size_def)
qed

lemma table_holdsI:
  "table_state E True n tbl t m cnt fl s \<Longrightarrow> rows_map (rows t) = M \<Longrightarrow> tree_keys t \<subseteq> range IntegerK \<Longrightarrow> unat cnt \<le> B \<Longrightarrow>
    table_holds E n tbl M B s"
  unfolding table_holds_def by blast

text \<open>
  One call. It takes at most 33 new pages (the tree has at most 31 levels), and 35 frames are enough for the guards that are
  out at once.
\<close>

lemma table_holds_mono: "table_holds E n tbl M B s \<Longrightarrow> B \<le> B' \<Longrightarrow> table_holds E n tbl M B' s"
  unfolding table_holds_def using le_trans by blast

lemma table_holds_valid: "table_holds E n tbl M B s \<Longrightarrow> schema_valid (tbl_schema tbl)"
  unfolding table_holds_def using table_schema_valid by blast

lemma wp_holds_insert:
  assumes E: "varint_ok E" and holds: "table_holds E n tbl M B s" and n: "35 \<le> n" and B: "B + 33 < 2 ^ 32"
    and int: "col_type (hd (columns (tbl_schema tbl))) = IntegerT" and wf: "row_utf8 r"
  shows "wp True (table_insert E (fd E) clock_find_victim tbl r s)
    (\<lambda>_ s'. \<exists>M'. ideal_insert E (tbl_schema tbl) r M = (Ok (), M') \<and> table_holds E n tbl M' (B + 33) s')
    (\<lambda>e s'. ideal_insert E (tbl_schema tbl) r M = (Err e, M) \<and> table_holds E n tbl M (B + 33) s')"
proof -
  obtain t m cnt fl where st: "table_state E True n tbl t m cnt fl s" and M: "rows_map (rows t) = M"
    and keys: "tree_keys t \<subseteq> range IntegerK" and cnt: "unat cnt \<le> B"
    using holds unfolding table_holds_def by blast
  note m = table_height(2) [OF st] and valid = table_schema_valid [OF st]
  have stay: "table_holds E n tbl M (B + 33) s'" if "table_state E True n tbl t m cnt fl s'" for s'
    by (rule table_holdsI [OF that M keys]) (use cnt in simp)
  show ?thesis
  proof (cases "validate_row E (tbl_schema tbl) r")
    case (Ok vr)
    note v = validated [OF valid Ok wf]
    have room: "True \<longrightarrow> m + 5 \<le> n" "unat cnt + m + 2 < 2 ^ 32" using m n cnt B by auto
    show ?thesis
      unfolding table_insert_def
      apply (simp only: wp_simps Ok map_err.simps v(1))
      apply (rule wp_mono [OF wp_inserted [OF E st v(2,3) room]])
      subgoal
        using Ok M keys cnt m v(4) [OF int] by (fastforce simp: ideal_insert_def intro!: table_holdsI)
      subgoal
        using Ok M stay by (simp add: ideal_insert_def)
      done
  next
    case (Err e)
    show ?thesis
      unfolding table_insert_def
      using stay [OF st] by (simp add: wp_simps Err ideal_insert_def)
  next
    case Panic
    then show ?thesis using validate_row_not_Panic [OF valid] by simp
  qed
qed

lemma wp_holds_delete:
  assumes E: "varint_ok E" and holds: "table_holds E n tbl M B s" and n: "35 \<le> n"
  shows "wp True (table_delete E (fd E) clock_find_victim tbl k s)
    (\<lambda>x s'. x = M k \<and> table_holds E n tbl (M(k := None)) B s') (\<lambda>_ _. False)"
proof -
  obtain t m cnt fl where st: "table_state E True n tbl t m cnt fl s" and M: "rows_map (rows t) = M"
    and keys: "tree_keys t \<subseteq> range IntegerK" and cnt: "unat cnt \<le> B"
    using holds unfolding table_holds_def by blast
  have room: "True \<longrightarrow> m + 4 \<le> n" using table_height(2) [OF st] n by auto
  show ?thesis
    unfolding table_delete_def wp_simps
    by (rule wp_mono [OF wp_deleted [OF E st room]])
      (use M keys cnt integers_same_size [OF keys] in \<open>fastforce intro!: table_holdsI\<close>)+
qed

lemma wp_holds_get:
  assumes E: "varint_ok E" and holds: "table_holds E n tbl M B s" and n: "35 \<le> n"
  shows "wp True (table_get E (fd E) clock_find_victim tbl k s) (\<lambda>x s'. x = M k \<and> table_holds E n tbl M B s') (\<lambda>_ _. False)"
proof -
  obtain t m cnt fl where st: "table_state E True n tbl t m cnt fl s" and "rows_map (rows t) = M"
      "tree_keys t \<subseteq> range IntegerK" "unat cnt \<le> B"
    using holds unfolding table_holds_def by blast
  then show ?thesis
    unfolding table_get_def wp_simps
    by (intro wp_mono [OF wp_got [OF E st]]) (use n in \<open>auto intro: table_holdsI\<close>)
qed

lemma wp_holds_rows:
  assumes E: "varint_ok E" and holds: "table_holds E n tbl M B s" and n: "35 \<le> n"
  shows "wp True (btree_get_all E (fd E) clock_find_victim tbl f s)
    (\<lambda>rs s'. rs = filter f (rows_of M) \<and> table_holds E n tbl M B s') (\<lambda>_ _. False)"
proof -
  obtain t m cnt fl where st: "table_state E True n tbl t m cnt fl s" and "rows_map (rows t) = M"
      "tree_keys t \<subseteq> range IntegerK" "unat cnt \<le> B"
    using holds unfolding table_holds_def by blast
  then show ?thesis
    by (intro wp_mono [OF wp_all_rows [OF E st]]) (use n rows_of_tree [OF st] in \<open>auto intro: table_holdsI\<close>)
qed

lemma wp_serve:
  assumes E: "varint_ok E" and holds: "table_holds E n tbl M B s" and n: "35 \<le> n" and B: "B + 33 < 2 ^ 32"
    and int: "col_type (hd (columns (tbl_schema tbl))) = IntegerT" and wf: "request_wf rq"
  shows "wp True (serve E (fd E) clock_find_victim tbl rq s)
    (\<lambda>a s'. \<exists>M'. ideal E (tbl_schema tbl) rq M = (a, M') \<and> table_holds E n tbl M' (B + 33) s') (\<lambda>_ _. False)"
proof -
  note more = table_holds_mono [of E n tbl _ B _ "B + 33", simplified]
  show ?thesis
  proof (cases rq)
    case (Insert r)
    then have "row_utf8 r" using wf by simp
    then show ?thesis
      unfolding Insert serve.simps wp_simps
      by (rule wp_mono [OF wp_holds_insert [OF E holds n B int]]) (auto split: prod.splits)
  next
    case (Delete k)
    show ?thesis
      unfolding Delete serve.simps wp_simps by (rule wp_mono [OF wp_holds_delete [OF E holds n]]) (auto intro: more)
  next
    case (Get k)
    show ?thesis
      unfolding Get serve.simps wp_simps by (rule wp_mono [OF wp_holds_get [OF E holds n]]) (auto intro: more)
  next
    case (GetAll f)
    show ?thesis
      unfolding GetAll serve.simps table_get_all_def wp_simps
      by (rule wp_mono [OF wp_holds_rows [OF E holds n]]) (auto intro: more)
  qed
qed

lemma wp_serve_all:
  assumes "varint_ok E" and "table_holds E n tbl M B s" and "35 \<le> n" and "B + 33 * length rqs < 2 ^ 32"
    and "col_type (hd (columns (tbl_schema tbl))) = IntegerT"
    and "\<forall>rq \<in> set rqs. request_wf rq"
  shows "wp True (serve_all E (fd E) clock_find_victim tbl rqs s)
    (\<lambda>as s'. \<exists>M'. ideal_all E (tbl_schema tbl) rqs M = (as, M') \<and> table_holds E n tbl M' (B + 33 * length rqs) s') (\<lambda>_ _. False)"
  using assms(2,4,6)
proof (induction rqs arbitrary: M B s)
  case (Cons rq rqs)
  have B: "B + 33 < 2 ^ 32" "B + 33 + 33 * length rqs < 2 ^ 32" using Cons.prems(2) by simp_all
  show ?case
    unfolding serve_all.simps wp_simps
  proof (rule wp_mono [OF wp_serve [OF assms(1) Cons.prems(1) assms(3) B(1) assms(5)]], goal_cases)
    case (2 a s')
    then obtain M' where M': "ideal E (tbl_schema tbl) rq M = (a, M')" "table_holds E n tbl M' (B + 33) s'" by blast
    show ?case
      by (rule wp_mono [OF Cons.IH [OF M'(2) B(2)]]) (use Cons.prems(3) M'(1) in \<open>auto simp: algebra_simps\<close>)
  qed (use Cons.prems(3) in auto)
qed (simp add: wp_simps)

text \<open>
  C2: a table is an ordered map. Any sequence of \<^verbatim>\<open>insert\<close>, \<^verbatim>\<open>delete\<close>, \<^verbatim>\<open>get\<close> and \<^verbatim>\<open>get_all\<close> calls on a table with an
  integer key terminates without a panic, and every answer, rows and errors alike, is the one that a finite map
  gives: an inserted row is found until it is deleted, a refused one changes nothing, \<^verbatim>\<open>get_all\<close> lists the rows by
  key. The tree and the accounting of its pages are intact at the end. 35 frames are enough for any table, and the
  file grows by at most 33 pages per call. (No system call fails here; what a failure can do is in the
  theorems of the single calls.)
\<close>

theorem table_is_ordered_map:
  assumes "varint_ok E" and "table_holds E n tbl M B s" and "35 \<le> n" and "B + 33 * length rqs < 2 ^ 32"
    and "col_type (hd (columns (tbl_schema tbl))) = IntegerT"
    and "\<forall>rq \<in> set rqs. request_wf rq"
  shows "\<exists>as s' M'. serve_all E (fd E) clock_find_victim tbl rqs s = Some (Ok as, s') \<and>
    ideal_all E (tbl_schema tbl) rqs M = (as, M') \<and> table_holds E n tbl M' (B + 33 * length rqs) s'"
  using returns [OF wp_outcome [OF wp_serve_all [OF assms]]] by blast

lemma new_table_holds:
  assumes "varint_ok E" and "storable E (empty_page (PageId T 0) (Meta (PageId T 1) 2 None schema name))"
    and "healthy d" and "open_file d = []" and "0 < n" and "bpm_new d (ClockEvictor 0) n = Ok s"
  shows "\<exists>s'. table_create E (fd E) clock_find_victim T schema name s =
      Some (Ok \<lparr>meta_id = PageId T 0, tbl_schema = schema, tbl_name = name\<rparr>, s') \<and>
    table_holds E n \<lparr>meta_id = PageId T 0, tbl_schema = schema, tbl_name = name\<rparr> Map.empty 2 s'"
  using creates [OF assms] by (fastforce intro!: table_holdsI)

lemma table_is_ordered_map_witness:
  "\<exists>s s'. serve_all demo_env (fd demo_env) clock_find_victim demo_table
      [Insert (demo_row 7), Insert (demo_row 3), Insert (demo_row 7), Delete (IntegerK 3), Get (IntegerK 3), GetAll (\<lambda>_. True)] s
    = Some (Ok [Inserted, Inserted, Failed (TableBTree (BTreePage DuplicateKey)), OneRow (Some (demo_row 3)), OneRow None,
        ManyRows [demo_row 7]], s')"
proof -
  let ?rqs = "[Insert (demo_row 7), Insert (demo_row 3), Insert (demo_row 7), Delete (IntegerK 3), Get (IntegerK 3), GetAll (\<lambda>_. True)]"
  obtain s0 where "table_holds demo_env 35 demo_table Map.empty 2 s0"
    using demo_created [of 35] by (fastforce intro!: table_holdsI)
  note run = table_is_ordered_map [OF demo_varint_ok this, of ?rqs]
  have valid: "validate_row demo_env demo_schema (demo_row n) = Ok (ValidatedRow (demo_row n))" for n
    by (simp add: validate_row_def demo_schema_def vec_index_def) (simp add: demo_row_def layout_simps)
  have "ideal_all demo_env demo_schema ?rqs Map.empty =
      ([Inserted, Inserted, Failed (TableBTree (BTreePage DuplicateKey)), OneRow (Some (demo_row 3)), OneRow None,
        ManyRows [demo_row 7]], (\<lambda>_. None)(IntegerK 7 \<mapsto> demo_row 7))"
    by (simp add: valid ideal_insert_def rows_of_def Let_def)
  then show ?thesis using run by (auto simp: demo_table_def demo_schema_def demo_row_def row_utf8_def)
qed

section \<open>Bounds\<close>

text \<open>
  C36: a pool of 35 frames is enough for any insertion, whatever the size of the table. Where no system call fails, a
  row whose key is new is inserted and one whose key is there is refused as a duplicate; no insertion runs out of
  frames or panics. It takes at most 33 pages, and the tree never has more than 31 levels, because a tree of
  \<open>m + 1\<close> levels has at least \<open>2 ^ (m + 1)\<close> pages and page numbers have 32 bits.
\<close>

theorem insert_stays_in_bounds:
  assumes "varint_ok E" and "table_state E True n tbl t m cnt fl s" and "row_fits E r" and "row_wf r"
    and "35 \<le> n" and "unat cnt + 33 < 2 ^ 32"
  shows "\<exists>s' t' m' cnt' fl'. btree_insert E (fd E) clock_find_victim tbl (ValidatedRow r) s =
      Some (if the_key r \<in> dom (rows_map (rows t)) then Err (BTreePage DuplicateKey) else Ok (), s') \<and>
    table_state E True n tbl t' m' cnt' fl' s' \<and>
    rows_map (rows t') = (if the_key r \<in> dom (rows_map (rows t)) then rows_map (rows t)
      else (rows_map (rows t))(the_key r \<mapsto> r)) \<and>
    unat cnt' \<le> unat cnt + 33 \<and> m' \<le> 30 \<and> 2 ^ (m' + 1) \<le> unat cnt'"
proof -
  note m = table_height [OF assms(2)]
  have height: "m' \<le> 30 \<and> 2 ^ (m' + 1) \<le> unat cnt'" if "table_state E True n tbl t' m' cnt' fl' s'" for t' m' cnt' fl' s'
    using table_height [OF that] by simp
  have room: "True \<longrightarrow> m + 5 \<le> n" "unat cnt + m + 2 < 2 ^ 32" using m(2) assms(5,6) by simp_all
  obtain x s' where run: "btree_insert E (fd E) clock_find_victim tbl (ValidatedRow r) s = Some (x, s')"
    and out: "case x of
      Ok _ \<Rightarrow> the_key r \<notin> dom (rows_map (rows t)) \<and>
        (\<exists>t' m' cnt' fl'. table_state E True n tbl t' m' cnt' fl' s' \<and> unat cnt' \<le> unat cnt + m + 2 \<and>
          rows_map (rows t') = (rows_map (rows t))(the_key r \<mapsto> r) \<and> tree_keys t' \<subseteq> insert (the_key r) (tree_keys t))
    | Err e \<Rightarrow> True \<longrightarrow> e = BTreePage DuplicateKey \<and> the_key r \<in> dom (rows_map (rows t)) \<and> table_state E True n tbl t m cnt fl s'
    | Panic \<Rightarrow> \<not> True"
    using wp_outcome [OF wp_inserted [OF assms(1-4) room]] by blast
  show ?thesis
  proof (cases x)
    case (Ok u)
    obtain t' m' cnt' fl' where new: "table_state E True n tbl t' m' cnt' fl' s'" "unat cnt' \<le> unat cnt + m + 2"
        "rows_map (rows t') = (rows_map (rows t))(the_key r \<mapsto> r)" "the_key r \<notin> dom (rows_map (rows t))"
      using out unfolding Ok result.case by blast
    have "unat cnt' \<le> unat cnt + 33" using new(2) m(2) by simp
    then show ?thesis using new run Ok height by (intro exI [of _ s'] exI [of _ t'] exI [of _ m'] exI [of _ cnt'] exI [of _ fl']) simp
  next
    case (Err e)
    then show ?thesis
      using out run height [OF assms(2)] by (intro exI [of _ s'] exI [of _ t] exI [of _ m] exI [of _ cnt] exI [of _ fl]) simp
  qed (use out in simp)
qed

lemma insert_stays_in_bounds_witness:
  "\<exists>s s'. btree_insert demo_env (fd demo_env) clock_find_victim demo_table (ValidatedRow (demo_row 7)) s = Some (Ok (), s')"
proof -
  obtain s0 where "table_state demo_env True 35 demo_table (Tip (PageId (TableId 1) 1) []) 0 2 [] s0"
    using demo_created [of 35] by auto
  from insert_stays_in_bounds [OF demo_varint_ok this demo_row_fits(1) demo_row_wf(1), of 7]
  show ?thesis by auto
qed

text \<open>What is stored, and what is answered.\<close>

definition conforms :: "env \<Rightarrow> schema \<Rightarrow> row \<Rightarrow> bool" where
  "conforms E sc r \<longleftrightarrow> length (row_fields r) = length (columns sc) \<and> row_fits E r \<and>
     (\<forall>(c, v) \<in> set (zip (columns sc) (row_fields r)). field_conforms c v)"

fun answer_rows :: "answer \<Rightarrow> row set" where
  "answer_rows (OneRow (Some r)) = {r}"
| "answer_rows (ManyRows rs) = set rs"
| "answer_rows _ = {}"

lemma ideal_conforms:
  assumes "schema_valid sc" and "\<forall>r \<in> ran M. conforms E sc r" and "ideal E sc rq M = (a, M')"
  shows "\<forall>r \<in> ran M' \<union> answer_rows a. conforms E sc r"
proof (cases rq)
  case (Insert r)
  show ?thesis
  proof (cases "validate_row E sc r")
    case (Ok vr)
    then have "conforms E sc r" using validate_row_Ok_iff [OF assms(1)] by (simp add: conforms_def)
    then show ?thesis using assms(2,3) Insert Ok by (auto simp: ideal_insert_def ran_map_upd split: if_splits)
  qed (use assms validate_row_not_Panic Insert in \<open>auto simp: ideal_insert_def\<close>)
next
  case (Delete k)
  then show ?thesis using assms(2,3) by (cases "M k") (fastforce simp: ran_def split: if_splits)+
next
  case (Get k)
  then show ?thesis using assms(2,3) by (cases "M k") (auto simp: ran_def)
next
  case (GetAll f)
  have "set (rows_of M) \<subseteq> ran M" if "finite (dom M)" using that by (auto simp: rows_of_def ran_def)
  moreover have "rows_of M = []" if "\<not> finite (dom M)" using that by (simp add: rows_of_def)
  ultimately have "set (rows_of M) \<subseteq> ran M" by (cases "finite (dom M)") auto
  then show ?thesis using assms(2,3) GetAll by auto
qed

lemma ideal_all_conforms:
  assumes "schema_valid sc"
  shows "\<forall>r \<in> ran M. conforms E sc r \<Longrightarrow> ideal_all E sc rqs M = (as, M') \<Longrightarrow>
    \<forall>r \<in> ran M' \<union> (\<Union>a \<in> set as. answer_rows a). conforms E sc r"
proof (induction rqs arbitrary: M as)
  case (Cons rq rqs)
  obtain a M1 as' where s: "ideal E sc rq M = (a, M1)" "ideal_all E sc rqs M1 = (as', M')" "as = a # as'"
    using Cons.prems(2) by (auto simp: Let_def split: prod.splits)
  have "\<forall>r \<in> ran M1 \<union> answer_rows a. conforms E sc r" by (rule ideal_conforms [OF assms Cons.prems(1) s(1)])
  then show ?case using Cons.IH [OF _ s(2)] s(3) by auto
qed simp

text \<open>
  C37: rows are typed. If every row of a table with an integer key conforms to its schema, as in a new one, then whatever
  is asked of it while no system call fails, every row it answers with and every row it holds afterwards has one field per column, of the column's type or
  null in a nullable column, and fits into a page.
\<close>

theorem rows_stay_typed:
  assumes "varint_ok E" and "table_holds E n tbl M B s" and "35 \<le> n" and "B + 33 * length rqs < 2 ^ 32"
    and "col_type (hd (columns (tbl_schema tbl))) = IntegerT"
    and "\<forall>rq \<in> set rqs. request_wf rq"
    and "\<forall>r \<in> ran M. conforms E (tbl_schema tbl) r"
  shows "\<exists>as s' M'. serve_all E (fd E) clock_find_victim tbl rqs s = Some (Ok as, s') \<and>
    table_holds E n tbl M' (B + 33 * length rqs) s' \<and>
    (\<forall>r \<in> ran M' \<union> (\<Union>a \<in> set as. answer_rows a). conforms E (tbl_schema tbl) r)"
proof -
  have valid: "schema_valid (tbl_schema tbl)" using assms(2) table_schema_valid unfolding table_holds_def by blast
  obtain as s' M' where run: "serve_all E (fd E) clock_find_victim tbl rqs s = Some (Ok as, s')"
      "ideal_all E (tbl_schema tbl) rqs M = (as, M')" "table_holds E n tbl M' (B + 33 * length rqs) s'"
    using returns [OF wp_outcome [OF wp_serve_all [OF assms(1-6)]]] by blast
  then show ?thesis using ideal_all_conforms [OF valid assms(7) run(2)] by blast
qed

lemma rows_stay_typed_witness:
  "\<exists>s as s'. serve_all demo_env (fd demo_env) clock_find_victim demo_table [Insert (demo_row 7), GetAll (\<lambda>_. True)] s
      = Some (Ok as, s') \<and> (\<forall>a \<in> set as. \<forall>r \<in> answer_rows a. conforms demo_env demo_schema r)"
proof -
  obtain s0 where "table_holds demo_env 35 demo_table Map.empty 2 s0"
    using demo_created [of 35] by (fastforce intro!: table_holdsI)
  from rows_stay_typed [OF demo_varint_ok this, of "[Insert (demo_row 7), GetAll (\<lambda>_. True)]"]
  show ?thesis by (fastforce simp: demo_table_def demo_schema_def demo_row_def row_utf8_def)
qed

end
