(* ===== verification/Vacuum_Props.thy ===== *)
theory Vacuum_Props
  imports Vacuum_Pages Requests
begin

text \<open>
  \<^verbatim>\<open>vacuum\<close>: the rows are read, packed into new pages, and the file is swapped. What the pool stands for afterwards is
  the same table without a free page.
\<close>

section \<open>The levels\<close>

lemma wp_levels:
  assumes "built E tbl leaves rl n m xs internals"
    and Q: "\<And>x n m internals. built E tbl leaves rl n m [x] internals \<Longrightarrow> Q (keyed d [x], word_of_nat n, internals) s"
  shows "wp h (loop (build_step E tbl) (keyed d xs, word_of_nat n, internals) s) Q X"
proof -
  define I where "I k y s' \<longleftrightarrow> s' = s \<and> (\<exists>n m xs internals. y = (keyed d xs, word_of_nat n :: 32 word, internals) \<and>
    built E tbl leaves rl n m xs internals \<and> length xs = k)" for k y s'
  show ?thesis
  proof (rule wp_loop [of I "length xs"])
    show "I (length xs) (keyed d xs, word_of_nat n, internals) s" using assms(1) unfolding I_def by blast
    fix k y s' assume "I k y s'"
    then obtain n m xs internals where y: "s' = s" "y = (keyed d xs, word_of_nat n, internals)"
        "built E tbl leaves rl n m xs internals" "length xs = k"
      unfolding I_def by blast
    show "wp h (Some (build_step E tbl y s')) (\<lambda>r s'. case r of Inl y' \<Rightarrow> \<exists>k'<k. I k' y' s' | Inr z \<Rightarrow> Q z s') X"
    proof (cases "1 < length xs")
      case True
      then obtain gs where gs: "build_internal_level E tbl (keyed d xs) (word_of_nat n) internals =
            Ok (keyed d (branches tbl n gs), word_of_nat (n + length gs), internals @ nodes tbl n gs)"
          "length gs < length xs" "built E tbl leaves rl (n + length gs) (Suc m) (branches tbl n gs) (internals @ nodes tbl n gs)"
        using built_step [OF y(3)] by blast
      have "I (length gs) (keyed d (branches tbl n gs), word_of_nat (n + length gs), internals @ nodes tbl n gs) s"
        unfolding I_def using gs(3) by (metis length_branches)
      then show ?thesis
        using gs(1,2) True y(4) by (auto simp: build_step_def y(1,2) wp_simps simp del: of_nat_add)
    next
      case False
      moreover have "xs \<noteq> []" using y(3) unfolding built_def by blast
      ultimately obtain x where x: "xs = [x]" by (cases xs; cases "tl xs") auto
      from Q [OF y(3) [unfolded x]] show ?thesis by (simp add: build_step_def y(1,2) x wp_simps)
    qed
  qed
qed

context buffer_pool begin

lemma rep_rows_wf:
  assumes "trk h n v H s"
  shows "rep v t \<Longrightarrow> r \<in> set (rows t) \<Longrightarrow> row_wf r"
proof (induction t rule: rows.induct)
  case (1 i rs)
  then obtain p nx pv where p: "v i = Some p" "body p = Leaf rs nx pv" by auto
  then show ?case using trk_storable(1) [OF assms p(1)] 1(2) by (simp add: storable_leaf)
qed auto

lemma wp_vacuum:
  assumes E: "varint_ok E" and tr: "trk h n v {#} s" and sp: "space tbl v (tid t) cnt fl (set (pids t))" and ti: "tree_in E v m t"
    and room: "h \<longrightarrow> 2 < n" and tb: "\<And>i. get_table_id i = get_table_id (meta_id tbl) \<Longrightarrow> i \<in> ids"
    and valid: "\<forall>r \<in> set (rows t). validate_row E (tbl_schema tbl) r = Ok (ValidatedRow r)"
    and some: "rows t \<noteq> []" and few: "1 + 3 * length (rows t) \<le> 2 ^ 32"
    and Q: "\<And>s' pages t' m' k. trk h n (page_map pages) {#} s' \<Longrightarrow> new_file E tbl (rows t) pages t' m' k \<Longrightarrow> Q () s'"
    and X: "\<And>e s'. (safe_pool s \<Longrightarrow> trk h n v {#} s') \<Longrightarrow>
      (h \<Longrightarrow> \<exists>pages t' m' k d d' e'. new_file E tbl (rows t) pages t' m' k \<and> well d \<and> dm_swap_file D pages d = (Err e', d')) \<Longrightarrow>
      X e s'"
  shows "wp h (vacuum E D V tbl s) Q X"
proof -
  have rep: "rep v t" and wf: "rows_ok E (rows t)" using ti wfk_rows_ok by (auto simp: tree_in_def)
  have row_wf: "\<forall>r \<in> set (rows t). row_wf r" using rep_rows_wf [OF tr rep] by blast
  obtain leaves n0 xs where pack: "pack_leaves E tbl (rows t) = Ok (leaves, keyed (the_key (hd (rows t))) xs, word_of_nat n0)"
      "built E tbl leaves (rows t) n0 0 xs []" "links (page_map leaves) None (map pg_id leaves) None"
    using pack_leaves_packs [OF valid wf some few row_wf] by blast
  obtain mp flh where mp: "v (meta_id tbl) = Some mp" "body mp = Meta (tid t) cnt flh (tbl_schema tbl) (tbl_name tbl)"
      and num: "get_page_num (meta_id tbl) = 0"
    using sp by (rule spaceE)
  note st = trk_storable(1,2) [OF tr mp(1)]
  have repack: "repack_meta mp i k = Ok (mp\<lparr>body := Meta i k None (tbl_schema tbl) (tbl_name tbl)\<rparr>)" for i k
    by (simp add: repack_meta_def meta_set_root_id_def meta_set_page_count_def meta_set_free_list_head_def mp(2))
  let ?P = "\<lambda>s'. safe_pool s \<longrightarrow> safe_pool s'"
  have keep: "reads_keep E D V ?P" using reads_keep_safe by (auto simp: reads_keep_def kept_def)
  have last: "wp h (Some (read_meta E D V tbl Ok s'))
      (\<lambda>x s'. wp h (Some (slift (map_err TablePage (repack_meta x (tid (snd y)) (word_of_nat k))) s'))
         (\<lambda>x s'. wp h (Some (bpm_swap_file E D (x # internals @ leaves) s')) Q (\<lambda>e. X (TableBpm e))) X) X"
    if s': "trk h n v {#} s'" "?P s'" and b: "built E tbl leaves (rows t) k m' [y] internals" for s' y k m' internals
  proof -
    note nf = built_file [OF b pack(3) st mp(2) num]
    let ?pages = "mp\<lparr>body := Meta (tid (snd y)) (word_of_nat k) None (tbl_schema tbl) (tbl_name tbl)\<rparr> # internals @ leaves"
    have pages: "\<forall>p \<in> set ?pages. pg_id p \<in> ids \<and> storable E p" "distinct (map pg_id ?pages)"
      using nf tb unfolding new_file_def by blast+
    have "wp h (Some (read_meta E D V tbl Ok s')) (\<lambda>x s2. x = mp \<and> trk h n v {#} s2) (\<lambda>_ s2. \<not> h \<and> trk h n v {#} s2)"
      by (rule wp_read_meta [OF E s'(1) mp(1)]) (use room in auto)
    then have meta: "wp h (pcall (read_meta E D V tbl Ok) s') (\<lambda>x s2. x = mp \<and> trk h n v {#} s2) (\<lambda>_ s2. \<not> h \<and> trk h n v {#} s2)"
      by (simp add: wp_simps)
    note read = wp_kept [OF meta pkept_pcall [OF keep_meta(1) [OF keep]] s'(2), unfolded wp_pcall]
    show ?thesis
    proof (rule wp_mono [OF read], goal_cases)
      case (1 x s2)
      then have x: "x = mp" and s2: "trk h n v {#} s2" and safe: "?P s2" by simp_all
      show ?case
        unfolding x repack map_err.simps wp_simps
      proof (rule wp_swap [OF E s2 pages])
        show "page_map ?pages i = Some p \<longleftrightarrow> p \<in> set ?pages \<and> pg_id p = i" for i p by (rule page_map_Some [OF pages(2)])
      qed (use Q X nf safe in blast)+
    qed (use X in blast)
  qed
  have "wp h (btree_get_all E D V tbl (\<lambda>_. True) s) (\<lambda>rs s1. rs = rows t \<and> trk h n v {#} s1) (\<lambda>_ s1. \<not> h \<and> trk h n v {#} s1)"
    by (rule wp_btree_get_all [OF E tr sp ti room]) auto
  note all = wp_kept [where P = ?P, OF this keep_get_all [OF keep]]
  show ?thesis
    unfolding vacuum_def wp_simps
  proof (rule wp_mono [OF all], goal_cases)
    case (2 rs s1)
    then have rs: "rs = rows t" and s1: "trk h n v {#} s1" "?P s1" by simp_all
    show ?case
      unfolding rs pack(1) wp_simps prod.case
      by (rule wp_levels [OF pack(2)]) (use last [OF s1] in \<open>simp add: wp_simps vec_index_def\<close>)
  next
    case (3 e s1)
    then show ?case using X by blast
  qed simp
qed

end

section \<open>Vacuum on the program's disk\<close>










end
