(* ===== verification/Shell.thy ===== *)
theory Shell
  imports Typed_Text
begin

text \<open>
  \<^verbatim>\<open>src/bin/repl.rs\<close>: the shell opens or creates the table \<^verbatim>\<open>Users\<close>, runs the lines a user types, and saves on
  \<^verbatim>\<open>.quit\<close>. What a command prints is a value of \<open>message\<close>: the message, with the row, error or text that it shows.
\<close>

datatype message =
    Lines "rstring list"
  | FileSize nat
  | ErrorOnSize table_error
  | VacuumSuccessful
  | ErrorOnVacuum table_error
  | InsertSuccessful
  | ErrorOnInsert table_error
  | NotFoundInTable "rstring list"
  | Removed row
  | ErrorOnDelete table_error
  | FoundRow row
  | FoundRows "rstring list"
  | ErrorOnGet table_error
  | UnknownCommand rstring

section \<open>One command\<close>

definition COMMANDS :: "(rstring \<times> rstring) list" where
  "COMMANDS = map (\<lambda>(command, description). (lit command, lit description))
     [(''.help'', ''show this message''),
      (''.table'', ''print the table (first and last 5 rows)''),
      (''.quit'', ''save and exit''),
      (''.size'', ''prints size of db file''),
      (''.vacuum'', ''de-fragments the on disk storage''),
      (''insert'', ''insert <id> <email|null> <true|false>''),
      (''delete'', ''delete <id>''),
      (''select'', ''select <id> (WHERE <col> <val>)'')]"

definition print_help :: "rstring list" where
  "print_help =
     map (\<lambda>(command, description).
       lit ''   '' @ command @ replicate (8 - length (chars command)) 0x20 @ lit '': '' @ description) COMMANDS"

text \<open>The arms of the \<^verbatim>\<open>match\<close> on the words of a line, but for \<^verbatim>\<open>.quit\<close>.\<close>

definition run_command ::
  "env \<Rightarrow> 'd disk_manager \<Rightarrow> 'e find_victim \<Rightarrow> (64 word \<Rightarrow> rstring) \<Rightarrow> table \<Rightarrow> rstring list \<Rightarrow>
   (('d, 'e) bpm, message, table_error) proc" where
  "run_command E D V show_f64 tbl parts =
     (case parts of
       [] \<Rightarrow> pcall spanic
     | command # args \<Rightarrow>
         if command = lit ''.table'' then
           pbind (pexpect (print_table E D V show_f64 tbl)) (\<lambda>ls. pcall (sreturn (Lines ls)))
         else if command = lit ''.size'' then reported FileSize ErrorOnSize (pcall (table_size E D V tbl))
         else if command = lit ''.vacuum'' then
           reported (\<lambda>_. VacuumSuccessful) ErrorOnVacuum (vacuum E D V tbl)
         else if command = lit ''.help'' then pcall (sreturn (Lines print_help))
         else if command = lit ''insert'' then
           reported (\<lambda>_. InsertSuccessful) ErrorOnInsert (insert_raw E D V tbl args)
         else if command = lit ''delete'' then
           reported (\<lambda>removed. case removed of None \<Rightarrow> NotFoundInTable args | Some r \<Rightarrow> Removed r) ErrorOnDelete
             (delete_raw E D V tbl args)
         else if command = lit ''select'' \<and> length parts = 2 then
           reported (\<lambda>found. case found of None \<Rightarrow> NotFoundInTable args | Some r \<Rightarrow> FoundRow r) ErrorOnGet
             (get_raw E D V tbl args)
         else if command = lit ''select'' \<and> length parts = 5 then
           reported (\<lambda>rows. FoundRows (print_rows show_f64 tbl rows)) ErrorOnGet (get_all_raw E D V tbl args)
         else pcall (sreturn (UnknownCommand command)))"

section \<open>A session\<close>

definition line_parts :: "rstring \<Rightarrow> rstring list" where
  "line_parts l = map to_ascii_lowercase (split_whitespace l)"

text \<open>
  The \<^verbatim>\<open>loop\<close>. The lines are what the terminal still delivers; at their end, or at one that is not UTF-8, \<^verbatim>\<open>unwrap\<close>
  panics.
\<close>

fun shell_loop ::
  "env \<Rightarrow> 'd disk_manager \<Rightarrow> 'e find_victim \<Rightarrow> (64 word \<Rightarrow> rstring) \<Rightarrow> table \<Rightarrow> rstring list \<Rightarrow>
   (('d, 'e) bpm, message list, table_error) proc" where
  "shell_loop E D V show_f64 tbl [] = pcall spanic"
| "shell_loop E D V show_f64 tbl (l # ls) =
     (if vec_first (line_parts l) = Some (lit ''.quit'') then pcall (sreturn [])
      else
        pbind (run_command E D V show_f64 tbl (line_parts l)) (\<lambda>out.
        pbind (shell_loop E D V show_f64 tbl ls) (\<lambda>outs. pcall (sreturn (out # outs)))))"

definition users_schema :: "(schema, schema_error) result" where
  "users_schema =
     rbind (column_new IntegerT False (lit ''id'')) (\<lambda>c1.
     rbind (column_new StringT True (lit ''email'')) (\<lambda>c2.
     rbind (column_new BoolT False (lit ''active'')) (\<lambda>c3. schema_try_from [c1, c2, c3])))"

definition open_or_create ::
  "env \<Rightarrow> 'd disk_manager \<Rightarrow> 'e find_victim \<Rightarrow> table_id \<Rightarrow> schema \<Rightarrow> rstring \<Rightarrow>
   (('d, 'e) bpm, table, table_error) proc" where
  "open_or_create E D V T sc name s =
     (case table_open E D V T s of
       (Ok tbl, s') \<Rightarrow> Some (Ok tbl, s')
     | (Err e, s') \<Rightarrow>
         if e = TableBpm (BpmIo NotFound) then pexpect (table_create E D V T sc name) s' else Some (Panic, s')
     | (Panic, s') \<Rightarrow> Some (Panic, s'))"

text \<open>What the arm \<^verbatim>\<open>.quit\<close> does is done when the loop has been left.\<close>

definition shell_session ::
  "env \<Rightarrow> 'd disk_manager \<Rightarrow> 'e find_victim \<Rightarrow> (64 word \<Rightarrow> rstring) \<Rightarrow> rstring list \<Rightarrow>
   (('d, 'e) bpm, message list, table_error) proc" where
  "shell_session E D V show_f64 ls =
     pbind (pcall (sexpect (slift users_schema))) (\<lambda>sc.
     pbind (open_or_create E D V (TableId 1) sc (lit ''Users'')) (\<lambda>tbl.
     pbind (shell_loop E D V show_f64 tbl ls) (\<lambda>outs.
     pbind (pcall (sexpect (table_close tbl))) (\<lambda>_.
     pbind (pcall (sexpect (bpm_close E D))) (\<lambda>_. pcall (sreturn outs))))))"

text \<open>\<^verbatim>\<open>main\<close>, from the opened file to what was printed and the disk that is left.\<close>

definition shell_main ::
  "env \<Rightarrow> (64 word \<Rightarrow> rstring) \<Rightarrow> (file_disk, io_error) result \<Rightarrow> nat \<Rightarrow> rstring list \<Rightarrow>
   (message list \<times> file_disk, unit) result option" where
  "shell_main E show_f64 disk pool_size ls =
     (case disk of
       Ok d \<Rightarrow>
         (case (bpm_new d (ClockEvictor 0) pool_size :: ((file_disk, clock_evictor) bpm, unit) result) of
           Ok s \<Rightarrow>
             map_option
               (\<lambda>(r, s'). case r of Ok outs \<Rightarrow> Ok (outs, persistant_layer s') | _ \<Rightarrow> Panic)
               (shell_session E (file_disk_manager E) clock_find_victim show_f64 ls s)
         | _ \<Rightarrow> Some Panic)
     | _ \<Rightarrow> Some Panic)"

end
