(* ===== verification/Shell_Correct.thy ===== *)
theory Shell_Correct
  imports Shell Requests
begin

text \<open>
  A session with the shell. What it prints and what it leaves in the file is what the typed commands do to an ordered
  map, and the next session goes on from there.
\<close>

section \<open>Typed rows\<close>

lemma map_raw_utf8: "map_raw kind arg = Ok (StringV s) \<Longrightarrow> utf8_valid arg \<Longrightarrow> utf8_valid s"
  by (auto simp: map_raw_def result_simps split: if_splits column_type.splits)

lemma map_args_utf8:
  "map_args kinds args = Ok vs \<Longrightarrow> \<forall>a \<in> set args. utf8_valid a \<Longrightarrow> StringV s \<in> set vs \<Longrightarrow> utf8_valid s"
  by (induction kinds args arbitrary: vs rule: map_args.induct)
    (auto simp: result_simps dest: map_raw_utf8)

lemma line_parts_utf8: "utf8_valid l \<Longrightarrow> a \<in> set (line_parts l) \<Longrightarrow> utf8_valid a"
  by (auto simp: line_parts_def intro: lowercase_valid split_whitespace_valid)

section \<open>The commands on a map\<close>

text \<open>
  What a command prints, and the map after it. \<open>None\<close>: the command panics, or is one that the map knows nothing of
  (\<^verbatim>\<open>.size\<close>, \<^verbatim>\<open>.vacuum\<close>).
\<close>

definition ideal_command ::
  "env \<Rightarrow> (64 word \<Rightarrow> rstring) \<Rightarrow> table \<Rightarrow> rstring list \<Rightarrow> (key \<Rightarrow> row option) \<Rightarrow> (message \<times> (key \<Rightarrow> row option)) option" where
  "ideal_command E show_f64 tbl parts M =
     (case parts of
       [] \<Rightarrow> None
     | command # args \<Rightarrow>
         if command = lit ''.table'' then Some (Lines (print_rows show_f64 tbl (rows_of M)), M)
         else if command = lit ''.size'' \<or> command = lit ''.vacuum'' then None
         else if command = lit ''.help'' then Some (Lines print_help, M)
         else if command = lit ''insert'' then
           (case map_args (map col_type (columns (tbl_schema tbl))) args of
             Ok vs \<Rightarrow>
               (case ideal_insert E (tbl_schema tbl) \<lparr>row_fields = vs\<rparr> M of
                 (Err e, M') \<Rightarrow> Some (ErrorOnInsert e, M')
               | (_, M') \<Rightarrow> Some (InsertSuccessful, M'))
           | Err e \<Rightarrow> Some (ErrorOnInsert e, M)
           | Panic \<Rightarrow> None)
         else if command = lit ''delete'' then
           (case raw_key tbl args of
             Ok k \<Rightarrow> Some (case M k of None \<Rightarrow> NotFoundInTable args | Some r \<Rightarrow> Removed r, M(k := None))
           | Err e \<Rightarrow> Some (ErrorOnDelete e, M)
           | Panic \<Rightarrow> None)
         else if command = lit ''select'' \<and> length parts = 2 then
           (case raw_key tbl args of
             Ok k \<Rightarrow> Some (case M k of None \<Rightarrow> NotFoundInTable args | Some r \<Rightarrow> FoundRow r, M)
           | Err e \<Rightarrow> Some (ErrorOnGet e, M)
           | Panic \<Rightarrow> None)
         else if command = lit ''select'' \<and> length parts = 5 then
           (case raw_filter tbl args of
             Ok f \<Rightarrow> Some (FoundRows (print_rows show_f64 tbl (filter f (rows_of M))), M)
           | Err e \<Rightarrow> Some (ErrorOnGet e, M)
           | Panic \<Rightarrow> None)
         else Some (UnknownCommand command, M))"

fun ideal_lines ::
  "env \<Rightarrow> (64 word \<Rightarrow> rstring) \<Rightarrow> table \<Rightarrow> rstring list \<Rightarrow> (key \<Rightarrow> row option) \<Rightarrow>
   (message list \<times> (key \<Rightarrow> row option)) option" where
  "ideal_lines E show_f64 tbl [] M = None"
| "ideal_lines E show_f64 tbl (l # ls) M =
     (if vec_first (line_parts l) = Some (lit ''.quit'') then Some ([], M)
      else Option.bind (ideal_command E show_f64 tbl (line_parts l) M) (\<lambda>(out, M').
        map_option (\<lambda>(outs, M''). (out # outs, M'')) (ideal_lines E show_f64 tbl ls M')))"

section \<open>The shell does what the map says\<close>

lemma wp_raw_call:
  assumes "r \<noteq> Panic" and "\<And>x. r = Ok x \<Longrightarrow> wp h (p x s) Q X" and "\<And>e. r = Err e \<Longrightarrow> X e s"
  shows "wp h (pbind (pcall (slift r)) p s) Q X"
  using assms by (cases r) (simp_all add: wp_simps)

lemma wp_command:
  assumes E: "varint_ok E" and holds: "table_holds E n tbl M B s" and n: "35 \<le> n" and B: "B + 33 < 2 ^ 32"
    and int: "col_type (hd (columns (tbl_schema tbl))) = IntegerT" and wf: "\<forall>a \<in> set parts. utf8_valid a"
    and ideal: "ideal_command E show_f64 tbl parts M = Some (out, M')"
  shows "wp True (run_command E (fd E) clock_find_victim show_f64 tbl parts s)
    (\<lambda>out' s'. out' = out \<and> table_holds E n tbl M' (B + 33) s') (\<lambda>_ _. False)"
proof -
  note more = table_holds_mono [of E n tbl _ B _ "B + 33", simplified]
  obtain command args where parts: "parts = command # args"
    using ideal by (cases parts) (simp_all add: ideal_command_def)
  note ideal = ideal [unfolded ideal_command_def parts list.case]
  consider (all) "command = lit ''.table''" | (usage) "command \<noteq> lit ''.table''" "command = lit ''.help''"
    | (ins) "command = lit ''insert''" | (del) "command = lit ''delete''"
    | (one) "command = lit ''select''" "length parts = 2" | (some) "command = lit ''select''" "length parts = 5"
    | (unknown) "command \<noteq> lit ''.table''" "command \<noteq> lit ''.help''" "command \<noteq> lit ''insert''" "command \<noteq> lit ''delete''"
        "\<not> (command = lit ''select'' \<and> length parts = 2)" "\<not> (command = lit ''select'' \<and> length parts = 5)"
    by blast
  then show ?thesis
  proof cases
    case all
    then have out: "out = Lines (print_rows show_f64 tbl (rows_of M))" "M' = M" using ideal all by auto
    show ?thesis
      unfolding parts run_command_def list.case if_P [OF all] print_table_def wp_simps
      by (rule wp_mono [OF wp_holds_rows [OF E holds n]]) (auto simp: out wp_simps intro: more)
  next
    case usage
    then have "out = Lines print_help" "M' = M" using ideal usage by auto
    then show ?thesis using more [OF holds] by (simp add: parts run_command_def usage wp_simps)
  next
    case ins
    have run: "run_command E (fd E) clock_find_victim show_f64 tbl parts =
        reported (\<lambda>_. InsertSuccessful) ErrorOnInsert (insert_raw E (fd E) clock_find_victim tbl args)"
      by (simp add: parts run_command_def ins)
    show ?thesis
      unfolding run insert_raw_def wp_reported
    proof (rule wp_raw_call)
      fix vs assume vs: "map_args (map col_type (columns (tbl_schema tbl))) args = Ok vs"
      then have "row_utf8 \<lparr>row_fields = vs\<rparr>" using map_args_utf8 wf parts by (auto simp: row_utf8_def)
      from wp_holds_insert [OF E holds n B int this]
      show "wp True (table_insert E (fd E) clock_find_victim tbl \<lparr>row_fields = vs\<rparr> s)
          (\<lambda>x s'. InsertSuccessful = out \<and> table_holds E n tbl M' (B + 33) s')
          (\<lambda>e s'. ErrorOnInsert e = out \<and> table_holds E n tbl M' (B + 33) s')"
        by (rule wp_mono) (use ideal vs ins in auto)
    qed (use ideal ins more [OF holds] in \<open>auto split: prod.splits\<close>)
  next
    case del
    have run: "run_command E (fd E) clock_find_victim show_f64 tbl parts =
        reported (\<lambda>removed. case removed of None \<Rightarrow> NotFoundInTable args | Some r \<Rightarrow> Removed r) ErrorOnDelete
          (delete_raw E (fd E) clock_find_victim tbl args)"
      by (simp add: parts run_command_def del)
    show ?thesis
      unfolding run delete_raw_def wp_reported
    proof (rule wp_raw_call)
      fix k assume "raw_key tbl args = Ok k"
      then show "wp True (table_delete E (fd E) clock_find_victim tbl k s)
          (\<lambda>x s'. (case x of None \<Rightarrow> NotFoundInTable args | Some r \<Rightarrow> Removed r) = out \<and> table_holds E n tbl M' (B + 33) s')
          (\<lambda>e s'. ErrorOnDelete e = out \<and> table_holds E n tbl M' (B + 33) s')"
        using ideal del by (intro wp_mono [OF wp_holds_delete [OF E holds n]]) (auto intro: more)
    qed (use ideal del more [OF holds] in auto)
  next
    case one
    have run: "run_command E (fd E) clock_find_victim show_f64 tbl parts =
        reported (\<lambda>found. case found of None \<Rightarrow> NotFoundInTable args | Some r \<Rightarrow> FoundRow r) ErrorOnGet
          (get_raw E (fd E) clock_find_victim tbl args)"
      using one by (simp add: parts run_command_def)
    show ?thesis
      unfolding run get_raw_def wp_reported
    proof (rule wp_raw_call)
      fix k assume "raw_key tbl args = Ok k"
      then show "wp True (table_get E (fd E) clock_find_victim tbl k s)
          (\<lambda>x s'. (case x of None \<Rightarrow> NotFoundInTable args | Some r \<Rightarrow> FoundRow r) = out \<and> table_holds E n tbl M' (B + 33) s')
          (\<lambda>e s'. ErrorOnGet e = out \<and> table_holds E n tbl M' (B + 33) s')"
        using ideal one parts by (intro wp_mono [OF wp_holds_get [OF E holds n]]) (auto intro: more)
    qed (use ideal one parts more [OF holds] in auto)
  next
    case some
    have run: "run_command E (fd E) clock_find_victim show_f64 tbl parts =
        reported (\<lambda>rows. FoundRows (print_rows show_f64 tbl rows)) ErrorOnGet (get_all_raw E (fd E) clock_find_victim tbl args)"
      using some by (simp add: parts run_command_def)
    show ?thesis
      unfolding run get_all_raw_def wp_reported
    proof (rule wp_raw_call)
      fix f assume "raw_filter tbl args = Ok f"
      then show "wp True (table_get_all E (fd E) clock_find_victim tbl f s)
          (\<lambda>x s'. FoundRows (print_rows show_f64 tbl x) = out \<and> table_holds E n tbl M' (B + 33) s')
          (\<lambda>e s'. ErrorOnGet e = out \<and> table_holds E n tbl M' (B + 33) s')"
        unfolding table_get_all_def wp_simps
        using ideal some parts by (intro wp_mono [OF wp_holds_rows [OF E holds n]]) (auto intro: more)
    qed (use ideal some parts more [OF holds] in auto)
  next
    case unknown
    then have c: "command \<noteq> lit ''.size''" "command \<noteq> lit ''.vacuum''" using ideal by auto
    then have "out = UnknownCommand command" "M' = M" using ideal unknown parts by auto
    then show ?thesis using more [OF holds] unknown c by (auto simp: parts run_command_def wp_simps)
  qed
qed

lemma wp_shell_loop:
  assumes "varint_ok E" and "table_holds E n tbl M B s" and "35 \<le> n" and "B + 33 * length ls < 2 ^ 32"
    and "col_type (hd (columns (tbl_schema tbl))) = IntegerT" and "\<forall>l \<in> set ls. utf8_valid l"
    and "ideal_lines E show_f64 tbl ls M = Some (outs, M')"
  shows "wp True (shell_loop E (fd E) clock_find_victim show_f64 tbl ls s)
    (\<lambda>outs' s'. outs' = outs \<and> table_holds E n tbl M' (B + 33 * length ls) s') (\<lambda>_ _. False)"
  using assms(2,4,6,7)
proof (induction ls arbitrary: M B s outs)
  case (Cons l ls)
  show ?case
  proof (cases "vec_first (line_parts l) = Some (lit ''.quit'')")
    case True
    then show ?thesis using Cons.prems table_holds_mono by (auto simp: wp_simps)
  next
    case False
    obtain out M1 outs1 where step: "ideal_command E show_f64 tbl (line_parts l) M = Some (out, M1)"
        "ideal_lines E show_f64 tbl ls M1 = Some (outs1, M')" "outs = out # outs1"
      using Cons.prems(4) False by (auto split: Option.bind_splits)
    have B: "B + 33 < 2 ^ 32" "B + 33 + 33 * length ls < 2 ^ 32" using Cons.prems(2) by simp_all
    have wf: "\<forall>a \<in> set (line_parts l). utf8_valid a" "\<forall>l \<in> set ls. utf8_valid l"
      using Cons.prems(3) line_parts_utf8 by auto
    have "wp True (shell_loop E (fd E) clock_find_victim show_f64 tbl ls s')
        (\<lambda>outs' s'. out # outs' = outs \<and> table_holds E n tbl M' (B + 33 * length (l # ls)) s') (\<lambda>_ _. False)"
      if "table_holds E n tbl M1 (B + 33) s'" for s'
      by (rule wp_mono [OF Cons.IH [OF that B(2) wf(2) step(2)]]) (auto simp: step(3) algebra_simps)
    then show ?thesis
      unfolding shell_loop.simps if_not_P [OF False] wp_simps
      by (intro wp_mono [OF wp_command [OF assms(1) Cons.prems(1) assms(3) B(1) assms(5) wf(1) step(1)]]) auto
  qed
qed simp

section \<open>Files\<close>

text \<open>The content of a file stands for \<open>M\<close>: a new pool of any size does that opens it.\<close>

definition file_holds :: "env \<Rightarrow> table \<Rightarrow> (key \<Rightarrow> row option) \<Rightarrow> nat \<Rightarrow> byte list \<Rightarrow> bool" where
  "file_holds E tbl M B c \<longleftrightarrow>
     (\<forall>d k s. open_file d = c \<longrightarrow> healthy d \<longrightarrow> 0 < k \<longrightarrow> bpm_new d (ClockEvictor 0) k = (Ok s :: (pool, unit) result) \<longrightarrow> table_holds E k tbl M B s)"

lemma wp_flush_holds:
  assumes "varint_ok E" and "table_holds E n tbl M B s"
  shows "wp True (Some (flush_all E (fd E) s))
    (\<lambda>_ s1. table_holds E n tbl M B s1 \<and> healthy (persistant_layer s1) \<and>
      file_holds E tbl M B (open_file (persistant_layer s1))) (\<lambda>_ _. False)"
proof -
  obtain t m cnt fl where st: "table_state E True n tbl t m cnt fl s" and holds: "rows_map (rows t) = M"
      "tree_keys t \<subseteq> range IntegerK" "unat cnt \<le> B"
    using assms(2) unfolding table_holds_def by blast
  have "healthy (persistant_layer s1)" if "table_state E True n tbl t m cnt fl s1" for s1
    using that by (auto simp: table_state_def tracks_def)
  then show ?thesis
    by (intro wp_mono [OF wp_flush_state [OF assms(1) st]]) (auto simp: file_holds_def bpm_new_def intro!: table_holdsI holds(1,3) subsetD [OF holds(2)])
qed

lemma wp_close:
  assumes "varint_ok E" and "table_holds E n tbl M B s"
  shows "wp True (Some (bpm_close E (fd E) s))
    (\<lambda>_ s'. healthy (persistant_layer s') \<and> file_holds E tbl M B (open_file (persistant_layer s'))) (\<lambda>_ _. False)"
proof -
  obtain s1 where s1: "flush_all E (fd E) s = (Ok (), s1)" "table_holds E n tbl M B s1"
    using wp_flush_holds [OF assms] by (auto simp: wp_def split: prod.splits result.splits)
  show ?thesis
    using wp_flush_holds [OF assms(1) s1(2)]
    by (auto simp: bpm_close_def s1(1) bpm_drop_def wp_def split: prod.splits result.splits)
qed

section \<open>The table of the shell\<close>

definition users_columns :: "column list" where
  "users_columns =
     [\<lparr>col_name = lit ''id'', col_type = IntegerT, nullable = False\<rparr>,
      \<lparr>col_name = lit ''email'', col_type = StringT, nullable = True\<rparr>,
      \<lparr>col_name = lit ''active'', col_type = BoolT, nullable = False\<rparr>]"

definition users_table :: table where
  "users_table = \<lparr>meta_id = PageId (TableId 1) 0, tbl_schema = \<lparr>columns = users_columns\<rparr>, tbl_name = lit ''Users''\<rparr>"

text \<open>The meta page of a new table.\<close>

definition users_meta :: page where
  "users_meta = empty_page (meta_id users_table)
     (Meta (PageId (TableId 1) 1) 2 None (tbl_schema users_table) (tbl_name users_table))"

lemma users_schema: "users_schema = Ok \<lparr>columns = users_columns\<rparr>"
  by (simp add: users_schema_def users_columns_def column_new_def schema_try_from_def layout_simps)

lemma wp_holds_open:
  assumes "varint_ok E" and "table_holds E n tbl M B s" and "0 < n" and "get_table_id (meta_id tbl) = T"
  shows "wp True (Some (table_open E (fd E) clock_find_victim T s)) (\<lambda>x s'. x = tbl \<and> table_holds E n tbl M B s') (\<lambda>_ _. False)"
proof -
  obtain t m cnt fl where st: "table_state E True n tbl t m cnt fl s" and holds: "rows_map (rows t) = M"
      "tree_keys t \<subseteq> range IntegerK" "unat cnt \<le> B"
    using assms(2) unfolding table_holds_def by blast
  then obtain v where v: "tracks E {pid. get_table_id pid = get_table_id (meta_id tbl)} (file_stored E) clock_ok healthy True n v {#} s"
      "tree_in E v m t" "space tbl v (tid t) cnt fl (set (pids t))"
    unfolding table_state_def by blast
  show ?thesis
    unfolding assms(4) [symmetric]
    by (rule file_pool.wp_table_open [OF assms(1) v(1,3)])
      (use assms(3) v(2,3) holds in \<open>auto intro!: table_holdsI table_stateI\<close>)
qed

lemma wp_open_empty_file:
  assumes "varint_ok E" and "storable E users_meta" and "healthy d" and "open_file d = []" and "0 < n"
    and "bpm_new d (ClockEvictor 0) n = (Ok s :: (pool, unit) result)"
  shows "wp True (open_or_create E (fd E) clock_find_victim (TableId 1) (tbl_schema users_table) (tbl_name users_table) s)
    (\<lambda>x s'. x = users_table \<and> table_holds E n users_table Map.empty 2 s') (\<lambda>_ _. False)"
proof -
  have s: "page_table s (PageId (TableId 1) 0) = None" "persistant_layer s = d" using assms(5,6) by (auto simp: bpm_new_def)
  then obtain d' where f: "fetch_read E (fd E) clock_find_victim (PageId (TableId 1) 0) s = (Err (BpmIo NotFound), s\<lparr>persistant_layer := d'\<rparr>)"
      "same_file d d'" "healthy d'"
    using fetch_empty_file [of s "TableId 1" E clock_find_victim] assms(3,4) by auto
  have new: "bpm_new d' (ClockEvictor 0) n = Ok (s\<lparr>persistant_layer := d'\<rparr>)" using assms(5,6) by (auto simp: bpm_new_def)
  have "table_open E (fd E) clock_find_victim (TableId 1) s = (Err (TableBpm (BpmIo NotFound)), s\<lparr>persistant_layer := d'\<rparr>)"
    by (simp add: table_open_def sbind_def lift_err_def f(1))
  then have run: "open_or_create E (fd E) clock_find_victim (TableId 1) sc name s =
      pexpect (table_create E (fd E) clock_find_victim (TableId 1) sc name) (s\<lparr>persistant_layer := d'\<rparr>)" for sc name
    by (simp add: open_or_create_def)
  have meta: "storable E (empty_page (PageId (TableId 1) 0)
      (Meta (PageId (TableId 1) 1) 2 None (tbl_schema users_table) (tbl_name users_table)))"
    using assms(2) by (simp add: users_meta_def users_table_def)
  obtain s' where "table_create E (fd E) clock_find_victim (TableId 1) (tbl_schema users_table) (tbl_name users_table)
        (s\<lparr>persistant_layer := d'\<rparr>) = Some (Ok users_table, s')" "table_holds E n users_table Map.empty 2 s'"
    using new_table_holds [OF assms(1) meta f(3) _ assms(5) new] assms(4) same_file_open [OF f(2)]
    by (auto simp: users_table_def)
  then show ?thesis unfolding run by (simp add: pexpect_def wp_def)
qed

lemma wp_open_file:
  assumes "varint_ok E" and "table_holds E n tbl M B s" and "0 < n" and "get_table_id (meta_id tbl) = TableId 1"
  shows "wp True (open_or_create E (fd E) clock_find_victim (TableId 1) sc name s)
    (\<lambda>x s'. x = tbl \<and> table_holds E n tbl M B s') (\<lambda>_ _. False)"
  using wp_holds_open [OF assms] by (auto simp: open_or_create_def wp_def split: prod.splits result.splits)

section \<open>Lines of plain words\<close>

lemma join_ascii: "\<forall>w \<in> set ws. \<forall>c \<in> set w. plain c \<Longrightarrow> \<forall>c \<in> set (join (lit '' '') ws). c < 0x80"
  by (induction "lit '' ''" ws rule: join.induct) (auto simp: lit_def dest: plain_ascii)

lemma split_words_join:
  "\<forall>w \<in> set ws. w \<noteq> [] \<and> (\<forall>c \<in> set w. plain c) \<Longrightarrow> split_words [] (map (\<lambda>c. [c]) (join (lit '' '') ws)) = ws"
proof (induction "lit '' ''" ws rule: join.induct)
  case (2 w)
  then show ?case using split_words_plain [of w "[]" "[]"] by simp
next
  case (3 w v ws)
  have "split_words [] (map (\<lambda>c. [c]) (join (lit '' '') (w # v # ws))) =
      split_words w ([0x20] # map (\<lambda>c. [c]) (join (lit '' '') (v # ws)))"
    using 3(2) split_words_plain [of w "[]"] by (simp add: lit_def)
  also have "\<dots> = w # split_words [] (map (\<lambda>c. [c]) (join (lit '' '') (v # ws)))"
    using 3(2) by (simp add: is_whitespace_def white_space_def)
  finally show ?case using 3 by simp
qed simp

text \<open>A line of such words is typed and taken apart again.\<close>

lemma line_parts_join:
  assumes "\<forall>w \<in> set ws. w \<noteq> [] \<and> (\<forall>c \<in> set w. plain c)"
  shows "line_parts (join (lit '' '') ws) = ws" and "utf8_valid (join (lit '' '') ws)"
proof -
  have ascii: "\<forall>c \<in> set (join (lit '' '') ws). c < 0x80" by (rule join_ascii) (use assms in blast)
  show "utf8_valid (join (lit '' '') ws)" by (rule utf8_ascii [OF ascii])
  have "map to_ascii_lowercase ws = ws" by (rule map_idI) (use assms plain_lower in blast)
  then show "line_parts (join (lit '' '') ws) = ws"
    by (simp add: line_parts_def split_whitespace_def chars_ascii [OF ascii] split_words_join [OF assms])
qed

section \<open>A session\<close>

text \<open>What a session may find: the file it left the last time, or an empty one.\<close>

definition session_file :: "env \<Rightarrow> table \<Rightarrow> (key \<Rightarrow> row option) \<Rightarrow> nat \<Rightarrow> byte list \<Rightarrow> bool" where
  "session_file E tbl M B c \<longleftrightarrow>
     file_holds E tbl M B c \<and> get_table_id (meta_id tbl) = TableId 1 \<and> col_type (hd (columns (tbl_schema tbl))) = IntegerT \<or>
     c = [] \<and> storable E users_meta \<and> tbl = users_table \<and> M = Map.empty \<and> 2 \<le> B"

lemma users_table_fields:
  "get_table_id (meta_id users_table) = TableId 1" "col_type (hd (columns (tbl_schema users_table))) = IntegerT"
  by (simp_all add: users_table_def users_columns_def)

lemma wp_open_session:
  assumes "varint_ok E" and "session_file E tbl M B (open_file d)" and "healthy d" and "0 < n"
    and "bpm_new d (ClockEvictor 0) n = (Ok s :: (pool, unit) result)"
  shows "wp True (open_or_create E (fd E) clock_find_victim (TableId 1) (tbl_schema users_table) (tbl_name users_table) s)
    (\<lambda>x s'. x = tbl \<and> table_holds E n tbl M B s') (\<lambda>_ _. False)"
  using assms(2) unfolding session_file_def
proof (elim disjE conjE)
  assume "file_holds E tbl M B (open_file d)" and T: "get_table_id (meta_id tbl) = TableId 1"
  then have "table_holds E n tbl M B s" using assms(3-5) by (auto simp: file_holds_def)
  from wp_open_file [OF assms(1) this assms(4) T] show ?thesis .
next
  assume e: "open_file d = []" "storable E users_meta" "tbl = users_table" "M = Map.empty" "2 \<le> B"
  show ?thesis
    by (rule wp_mono [OF wp_open_empty_file [OF assms(1) e(2) assms(3) e(1) assms(4,5)]])
      (use e table_holds_mono in auto)
qed

text \<open>
  C1: a session with the shell is a session with an ordered map. Whatever lines of text are typed, on a file that a
  session left or on an empty one, the shell prints for each line up to \<^verbatim>\<open>.quit\<close> what the map answers (rows found,
  removed and listed, duplicate keys, arguments that do not parse, unknown commands), ends without a panic, and
  leaves a file that the next session, with any number of frames, finds the same map in. (The lines must be ones
  that the map has an answer to: not \<^verbatim>\<open>.size\<close> or \<^verbatim>\<open>.vacuum\<close>, not an empty line or a wrong number of arguments,
  on which the shell panics. No system call fails.)
\<close>

theorem shell_is_ordered_map:
  assumes "varint_ok E" and "session_file E tbl M B (open_file d)" and "healthy d" and "35 \<le> n"
    and "B + 33 * length ls < 2 ^ 32" and "\<forall>l \<in> set ls. utf8_valid l"
    and "ideal_lines E show_f64 tbl ls M = Some (outs, M')"
  shows "\<exists>d'. shell_main E show_f64 (Ok d) n ls = Some (Ok (outs, d')) \<and> healthy d' \<and>
    session_file E tbl M' (B + 33 * length ls) (open_file d')"
proof -
  have n: "0 < n" using assms(4) by simp
  obtain s where s: "bpm_new d (ClockEvictor 0) n = (Ok s :: (pool, unit) result)" using n by (simp add: bpm_new_def)
  have tbl: "get_table_id (meta_id tbl) = TableId 1" "col_type (hd (columns (tbl_schema tbl))) = IntegerT"
    using assms(2) users_table_fields by (auto simp: session_file_def)
  have sc: "users_schema = Ok (tbl_schema users_table)" "lit ''Users'' = tbl_name users_table"
    by (simp_all add: users_schema users_table_def)
  have "wp True (shell_session E (fd E) clock_find_victim show_f64 ls s)
    (\<lambda>outs' s'. outs' = outs \<and> healthy (persistant_layer s') \<and>
      file_holds E tbl M' (B + 33 * length ls) (open_file (persistant_layer s'))) (\<lambda>_ _. False)"
    unfolding shell_session_def wp_simps sc slift_def
    by (rule wp_mono [OF wp_open_session [OF assms(1-3) n s]])
      (auto intro!: wp_mono [OF wp_shell_loop [OF assms(1) _ assms(4,5) tbl(2) assms(6,7)]] wp_mono [OF wp_close [OF assms(1)]] simp: table_close_def wp_simps)
  then show ?thesis
    using tbl by (auto simp: shell_main_def s session_file_def wp_def split: option.splits prod.splits result.splits)
qed

text \<open>The lines of the example, on a file that is still empty.\<close>

definition demo_words :: "rstring list list" where
  "demo_words = map (map lit)
     [[''insert'', ''7'', ''a@b'', ''true''], [''insert'', ''7'', ''null'', ''false''], [''insert'', ''x''],
      [''select'', ''7''], [''delete'', ''7''], [''select'', ''7''], [''drop''], [''.quit'']]"

definition demo_user :: row where
  "demo_user = \<lparr>row_fields = [IntegerV 7, StringV (lit ''a@b''), BooleanV True]\<rparr>"

lemma demo_words_plain: "\<forall>ws \<in> set demo_words. \<forall>w \<in> set ws. w \<noteq> [] \<and> (\<forall>c \<in> set w. plain c)"
  by (simp add: demo_words_def lit_def plain_def)

lemma users_meta_storable: "storable demo_env users_meta"
  by (simp add: storable_def page_wf_def schema_wf_def schema_valid_iff column_wf_def users_meta_def users_table_def
      page_inv_iff layout_simps schema_encoded_size_def column_encoded_size_def leb_size_small users_columns_def
      empty_page_def page_lsn_wf_def lit_def)

lemma demo_users_valid:
  "validate_row demo_env (tbl_schema users_table) demo_user = Ok (ValidatedRow demo_user)"
  "validate_row demo_env (tbl_schema users_table) \<lparr>row_fields = [IntegerV 7, NullV, BooleanV False]\<rparr> =
    Ok (ValidatedRow \<lparr>row_fields = [IntegerV 7, NullV, BooleanV False]\<rparr>)"
  by (simp_all add: demo_user_def validate_row_def users_table_def users_columns_def vec_index_def layout_simps
      leaf_entry_size_def row_encoded_size_def lit_def leb_size_small)

lemma users_types: "map col_type (columns (tbl_schema users_table)) = [IntegerT, StringT, BoolT]"
  by (simp add: users_table_def users_columns_def)

lemmas read_defs = map_raw_def lit_def is_upper_null_def to_ascii_lowercase_def ascii_lower_def parse_i64_def is_digit_def
  digits_value_def parse_bool_def Let_def

lemma demo_args:
  "map_args [IntegerT, StringT, BoolT] [lit ''7'', lit ''a@b'', lit ''true''] = Ok (row_fields demo_user)"
  "map_args [IntegerT, StringT, BoolT] [lit ''7'', lit ''null'', lit ''false''] = Ok [IntegerV 7, NullV, BooleanV False]"
  "map_args [IntegerT, StringT, BoolT] [lit ''x''] = Err TableUnexpected"
  "raw_key users_table [lit ''7''] = Ok (IntegerK 7)"
  by (simp_all add: demo_user_def read_defs raw_key_def users_table_def users_columns_def vec_index_def)

lemma demo_ideal_lines:
  "ideal_lines demo_env show_f64 users_table (map (join (lit '' '')) demo_words) Map.empty =
    Some ([InsertSuccessful, ErrorOnInsert (TableBTree (BTreePage DuplicateKey)), ErrorOnInsert TableUnexpected,
      FoundRow demo_user, Removed demo_user, NotFoundInTable [lit ''7''], UnknownCommand (lit ''drop'')], Map.empty)"
proof -
  have parts: "line_parts (join (lit '' '') ws) = ws" if "ws \<in> set demo_words" for ws
    using line_parts_join(1) demo_words_plain that by blast
  have the_key: "the_key demo_user = IntegerK 7" "the_key \<lparr>row_fields = [IntegerV 7, NullV, BooleanV False]\<rparr> = IntegerK 7"
    by (simp_all add: the_key_def row_key_def demo_user_def)
  have fields: "\<lparr>row_fields = row_fields demo_user\<rparr> = demo_user" by simp
  have "map (\<lambda>l. line_parts (join (lit '' '') l)) demo_words = demo_words" using parts by (intro map_idI) simp
  then show ?thesis
    unfolding demo_words_def
    by (simp del: join.simps map_args.simps add: ideal_command_def ideal_insert_def users_types demo_args fields demo_users_valid the_key)
qed

lemma shell_is_ordered_map_witness:
  "\<exists>d'. shell_main demo_env (\<lambda>_. []) (Ok demo_disk) 64 (map (join (lit '' '')) demo_words) =
    Some (Ok ([InsertSuccessful, ErrorOnInsert (TableBTree (BTreePage DuplicateKey)), ErrorOnInsert TableUnexpected,
      FoundRow demo_user, Removed demo_user, NotFoundInTable [lit ''7''], UnknownCommand (lit ''drop'')], d'))"
proof -
  have "session_file demo_env users_table Map.empty 2 (open_file demo_disk)"
    using users_meta_storable by (simp add: session_file_def demo_disk_def open_file_def)
  moreover have "healthy demo_disk" by (simp add: demo_disk_def healthy_def)
  moreover have "\<forall>l \<in> set (map (join (lit '' '')) demo_words). utf8_valid l"
    using line_parts_join(2) demo_words_plain by auto
  moreover have "length demo_words = 8" by (simp add: demo_words_def)
  ultimately show ?thesis
    using shell_is_ordered_map [OF demo_varint_ok _ _ _ _ _ demo_ideal_lines, of 2 demo_disk 64 "\<lambda>_. []"] by auto
qed

end
