(* ===== verification/Leaked_Pin.thy ===== *)
theory Leaked_Pin
  imports Pool_Props
begin

text \<open>
  A defect of \<^verbatim>\<open>fetch_read\<close> and \<^verbatim>\<open>fetch_write\<close>: a page that is not the one asked for is refused
  after its frame has been pinned, and no guard exists to take the pin back. What that means for every later
  use of the pool is a statement about sequences of calls, so the calls are a step relation here, and that the frame stays
  lost is an invariant of it.
\<close>

section \<open>Calls of a pool\<close>

text \<open>
  One call that returns, with any argument and any result, on a pool under the clock policy. A guard is a frame that is latched
  in its mode. A change through a write guard does not turn another page into the page \<open>pid\<close>.
\<close>

inductive pool_call ::
  "env \<Rightarrow> 'd disk_manager \<Rightarrow> page_id \<Rightarrow> ('d, clock_evictor) bpm \<Rightarrow> ('d, clock_evictor) bpm \<Rightarrow> bool"
  for E D pid where
  by_read: "fetch_read E D clock_find_victim k s = (r, s') \<Longrightarrow> r \<noteq> Panic \<Longrightarrow> pool_call E D pid s s'"
| by_write: "fetch_write E D clock_find_victim k s = (r, s') \<Longrightarrow> r \<noteq> Panic \<Longrightarrow> pool_call E D pid s s'"
| by_create: "new_page E D clock_find_victim p s = (r, s') \<Longrightarrow> r \<noteq> Panic \<Longrightarrow> pool_call E D pid s s'"
| by_drop_read: "j < length (frames s) \<Longrightarrow> latch (frames s ! j) = ReadLatched n \<Longrightarrow>
    drop_read E (PageReadGuard j) s = (r, s') \<Longrightarrow> r \<noteq> Panic \<Longrightarrow> pool_call E D pid s s'"
| by_drop_write: "j < length (frames s) \<Longrightarrow> latch (frames s ! j) = WriteLatched \<Longrightarrow>
    drop_write E (PageWriteGuard j) s = (r, s') \<Longrightarrow> r \<noteq> Panic \<Longrightarrow> pool_call E D pid s s'"
| by_change: "j < length (frames s) \<Longrightarrow> latch (frames s ! j) = WriteLatched \<Longrightarrow>
    (\<And>x. pg_id x \<noteq> pid \<Longrightarrow> pg_id (snd (op x)) \<noteq> pid) \<Longrightarrow>
    write_deref_mut (PageWriteGuard j) op s = ((r :: (unit, bpm_error) result), s') \<Longrightarrow> r \<noteq> Panic \<Longrightarrow>
    pool_call E D pid s s'"
| by_flush: "flush_all E D s = (r, s') \<Longrightarrow> r \<noteq> Panic \<Longrightarrow> pool_call E D pid s s'"
| by_swap: "bpm_swap_file E D pages s = (r, s') \<Longrightarrow> r \<noteq> Panic \<Longrightarrow> pool_call E D pid s s'"

section \<open>A frame that is lost\<close>

text \<open>
  \<open>lost pid m i s\<close>: the page table sends \<open>pid\<close>, and only \<open>pid\<close>, to the frame \<open>i\<close>, which holds another page, is pinned at
  most \<open>m\<close> times and latched by nobody. Whatever other frame holds the page \<open>pid\<close> was filled under another
  identifier, and is lost in the same way. The frames \<open>C\<close> have been claimed and not yet filled.
\<close>

definition stuck :: "nat \<Rightarrow> frame \<Rightarrow> bool" where
  "stuck m f \<longleftrightarrow> latch f = Unlatched \<and> 0 < unat (pin_count f) \<and> unat (pin_count f) \<le> m"

definition shows_page :: "page_id \<Rightarrow> frame \<Rightarrow> bool" where
  "shows_page pid f \<longleftrightarrow> (\<exists>p. slot f = Some p \<and> pg_id p = pid)"

definition lost_but ::
  "page_id \<Rightarrow> nat \<Rightarrow> frame_id \<Rightarrow> frame_id set \<Rightarrow> ('d, clock_evictor) bpm \<Rightarrow> bool" where
  "lost_but pid m i C s \<longleftrightarrow>
     clock_ok (eviction_state s) (length (frames s)) \<and> distinct (free_frames s) \<and> C \<inter> set (free_frames s) = {} \<and>
     (\<forall>f \<in> C \<union> set (free_frames s). f < length (frames s) \<and> f \<noteq> i \<and>
       latch (frames s ! f) = Unlatched \<and> pin_count (frames s ! f) = 0) \<and>
     set (free_frames s) \<inter> ran (page_table s) = {} \<and>
     (\<forall>f < length (frames s). f \<notin> C \<union> set (free_frames s) \<longrightarrow> f = i \<or> shows_page pid (frames s ! f) \<longrightarrow>
       stuck m (frames s ! f)) \<and>
     i < length (frames s) \<and> (\<forall>q. page_table s q = Some i \<longleftrightarrow> q = pid) \<and>
     (\<exists>p. slot (frames s ! i) = Some p \<and> pg_id p \<noteq> pid)"

definition lost :: "page_id \<Rightarrow> nat \<Rightarrow> frame_id \<Rightarrow> ('d, clock_evictor) bpm \<Rightarrow> bool" where
  "lost pid m i s \<longleftrightarrow> lost_but pid m i {} s"

lemma stuck_pinned: "stuck m f \<Longrightarrow> is_pinned f \<and> latch f = Unlatched"
  by (auto simp: stuck_def is_pinned_def)

lemma stuck_mono: "stuck m f \<Longrightarrow> m \<le> M \<Longrightarrow> stuck M f"
  by (simp add: stuck_def)

lemma stuck_pin:
  "stuck m f \<Longrightarrow> Suc m < 2 ^ 32 \<Longrightarrow> pin_count g = pin_count f + 1 \<Longrightarrow> latch g = Unlatched \<Longrightarrow> stuck (Suc m) g"
  by (simp add: stuck_def unat_word_ariths)

lemma lost_frame:
  assumes "lost pid m i s"
  shows "i < length (frames s)" and "stuck m (frames s ! i)" and "page_table s pid = Some i"
    and "\<exists>p. slot (frames s ! i) = Some p \<and> pg_id p \<noteq> pid"
  using assms by (auto simp: lost_def lost_but_def)

text \<open>A change to one frame in use, and to one claimed.\<close>

lemma lost_touch:
  assumes "lost pid m i s" and "m \<le> M" and "f < length (frames s)" and "f \<notin> set (free_frames s)"
    and "f = i \<Longrightarrow> slot g = slot (frames s ! i)"
    and "f = i \<or> shows_page pid g \<Longrightarrow> stuck M g"
  shows "lost pid M i (s\<lparr>frames := (frames s)[f := g]\<rparr>)"
  using assms unfolding lost_def lost_but_def
  by (auto simp: nth_list_update intro: stuck_mono)

lemma lost_settle:
  assumes "lost_but pid m i {f} s" and "m \<le> M" and "k \<noteq> pid" and "shows_page pid g \<Longrightarrow> stuck M g"
  shows "lost pid M i (s\<lparr>frames := (frames s)[f := g], page_table := (page_table s)(k \<mapsto> f)\<rparr>)"
  using assms unfolding lost_def lost_but_def
  by (auto simp: nth_list_update ran_def intro: stuck_mono split: if_splits)

lemma lost_disk [simp]: "lost_but pid m i C (s\<lparr>persistant_layer := d\<rparr>) \<longleftrightarrow> lost_but pid m i C s"
  by (simp add: lost_but_def)

text \<open>The clock never picks it, and the page table still leads to it after an eviction.\<close>

lemma lost_claim:
  assumes "lost pid m i s" and "claim_frame E D clock_find_victim s = (r, s')" and "r \<noteq> Panic"
  shows "case r of Ok f \<Rightarrow> lost_but pid m i {f} s' | Err e \<Rightarrow> lost pid m i s' | Panic \<Rightarrow> False"
proof (cases "free_frames s" rule: rev_cases)
  case (snoc fs f)
  then have "r = Ok f" "s' = s\<lparr>free_frames := fs\<rparr>"
    using assms(2) by (auto simp: claim_frame_def vec_last_def)
  then show ?thesis using assms(1) by (auto simp: lost_def lost_but_def snoc)
next
  case True: Nil
  have "clock_ok (eviction_state s) (length (frames s))" using assms(1) by (simp add: lost_def lost_but_def)
  then obtain v e frs where v: "clock_find_victim (eviction_state s) (frames s) = Some (v, e, frs)"
      "clock_ok e (length (frames s))" "same_frames (frames s) frs"
      "case v of Some f \<Rightarrow> f < length (frames s) \<and> \<not> is_pinned (frames s ! f)
        | None \<Rightarrow> \<forall>f < length (frames s). is_pinned (frames s ! f)"
    using clock.victim_law [of "eviction_state s" "frames s"] assms(1) by (fastforce simp: lost_def lost_but_def)
  let ?s = "s\<lparr>eviction_state := e, frames := frs\<rparr>"
  note len = same_frames_length [OF v(3)] and nth = same_frames_nth [OF v(3)]
  have lost: "lost pid m i ?s"
    using assms(1) v(2) True len nth by (auto simp: lost_def lost_but_def stuck_def shows_page_def)
  show ?thesis
  proof (cases v)
    case None
    then show ?thesis using assms(2) True v(1) lost by (simp add: claim_frame_def vec_last_def) auto
  next
    case (Some f)
    then have f: "f < length frs" "\<not> is_pinned (frs ! f)" using v(4) nth(3) len by (auto simp: is_pinned_def)
    then have other: "f \<noteq> i" "\<not> shows_page pid (frs ! f)"
      using lost True stuck_pinned by (fastforce simp: lost_def lost_but_def)+
    have pin: "pin_count (frs ! f) = 0" using f(2) by (simp add: is_pinned_def)
    have gone: "lost_but pid m i {f} (?s\<lparr>persistant_layer := d, page_table := (page_table s)(pg_id p := None)\<rparr>)"
      if "latch (frs ! f) = Unlatched" "slot (frs ! f) = Some p" for d p
      using lost True other that f(1) pin by (auto simp: lost_def lost_but_def shows_page_def ran_def)
    have gone0: "lost_but pid m i {f} (?s\<lparr>page_table := (page_table s)(pg_id p := None)\<rparr>)"
      if "latch (frs ! f) = Unlatched" "slot (frs ! f) = Some p" for p
      using gone [OF that, of "persistant_layer s"] by simp
    have fail: "lost pid m i (?s\<lparr>persistant_layer := d\<rparr>)" for d using lost by (simp add: lost_def)
    show ?thesis
      using assms(2,3) True v(1) Some f lost gone gone0 fail
      by (auto simp: claim_frame_def vec_last_def frame_at_def sbind_def sfail_def spanic_def sreturn_def slift_def
          disk_call_def Let_def map_err_Ok_iff split: if_splits option.splits result.splits prod.splits)
  qed
qed

lemma lost_mono: "lost pid m i s \<Longrightarrow> m \<le> M \<Longrightarrow> lost pid M i s"
  by (auto simp: lost_def lost_but_def intro: stuck_mono)

lemma lost_in_use:
  assumes "lost pid m i s" and "page_table s k = Some f"
  shows "f \<notin> set (free_frames s)" and "f = i \<longleftrightarrow> k = pid"
proof -
  show "f \<notin> set (free_frames s)" using assms by (auto simp: lost_def lost_but_def ran_def)
  have "page_table s k = Some i \<longleftrightarrow> k = pid" using assms(1) by (simp add: lost_def lost_but_def)
  then show "f = i \<longleftrightarrow> k = pid" using assms(2) by auto
qed

lemma relatched: "latch_mode mode \<Longrightarrow> mode Unlatched = Some l \<Longrightarrow> unlatched l = Unlatched"
  by (auto simp: latch_mode_def)

text \<open>What \<^verbatim>\<open>fetch\<close> does once the frame is known: pin, latch, look, and let go of the latch alone.\<close>

definition looked_at :: "page_id \<Rightarrow> latch \<Rightarrow> frame \<Rightarrow> frame" where
  "looked_at k l f = f\<lparr>referenced := True, pin_count := pin_count f + 1,
     latch := (case slot f of Some p \<Rightarrow> if pg_id p \<noteq> k then unlatched l else l | None \<Rightarrow> l)\<rparr>"

definition pin_and_look ::
  "(latch \<Rightarrow> latch option) \<Rightarrow> env \<Rightarrow> page_id \<Rightarrow> frame_id \<Rightarrow> (('d, 'e) bpm, frame_id, bpm_error) call" where
  "pin_and_look mode E k f =
     sbind (pin_frame E f) (\<lambda>_. sbind (take_latch mode f) (\<lambda>_ s.
       case slot (frames s ! f) of
         Some p \<Rightarrow> if pg_id p \<noteq> k then (Err (WrongPage k (pg_id p)), release_latch f s) else (Ok f, s)
       | None \<Rightarrow> (Ok f, s)))"

lemma fetch_frame_found:
  "page_table s k = Some f \<Longrightarrow> fetch_frame mode E D V k s = pin_and_look mode E k f s"
  by (cases "pin_frame E f s") (auto simp: fetch_frame_def checkout_page_def pin_and_look_def sbind_def sreturn_def
      split: result.splits)

lemma fetch_frame_loads:
  "page_table s k = None \<Longrightarrow> fetch_frame mode E D V k s = sbind (load_page E D V k) (pin_and_look mode E k) s"
  by (cases "load_page E D V k s"; cases "fst (load_page E D V k s)")
    (auto simp: fetch_frame_def checkout_page_def pin_and_look_def sbind_def sreturn_def
      split: result.splits prod.splits)

lemma pin_and_look_cases:
  assumes "pin_and_look mode E k f s = (r, s')" and "r \<noteq> Panic"
  obtains l where "f < length (frames s)" "mode (latch (frames s ! f)) = Some l"
    "s' = s\<lparr>frames := (frames s)[f := looked_at k l (frames s ! f)]\<rparr>"
    "(\<exists>f. r = Ok f) \<longleftrightarrow> (\<forall>p. slot (frames s ! f) = Some p \<longrightarrow> pg_id p = k)"
    "\<And>p. slot (frames s ! f) = Some p \<Longrightarrow> pg_id p \<noteq> k \<Longrightarrow> r = Err (WrongPage k (pg_id p))"
  using assms
  by (auto simp: pin_and_look_def pin_frame_def take_latch_def release_latch_def frame_update_def frame_at_def sbind_def Let_def
      looked_at_def split: if_splits option.splits)

lemma lost_fetch:
  assumes "latch_mode mode" and lost: "lost pid m i s" and m: "Suc m < 2 ^ 32"
    and fetch: "fetch_frame mode E D clock_find_victim k s = (r, s')" and "r \<noteq> Panic"
  shows "lost pid (Suc m) i s' \<and> (k = pid \<longrightarrow> (\<forall>f. r \<noteq> Ok f))"
proof (cases "page_table s k")
  case (Some f)
  note use = lost_in_use [OF lost Some]
  have "pin_and_look mode E k f s = (r, s')"
    using fetch by (simp add: fetch_frame_found [OF Some])
  then obtain l where l: "f < length (frames s)" "mode (latch (frames s ! f)) = Some l"
    "s' = s\<lparr>frames := (frames s)[f := looked_at k l (frames s ! f)]\<rparr>"
    "(\<exists>f. r = Ok f) \<longleftrightarrow> (\<forall>p. slot (frames s ! f) = Some p \<longrightarrow> pg_id p = k)"
    using assms(5) by (rule pin_and_look_cases)
  have slot: "\<exists>p. slot (frames s ! f) = Some p \<and> pg_id p \<noteq> k" if "f = i \<or> shows_page pid (frames s ! f)"
    using that use lost_frame(4) [OF lost] by (auto simp: shows_page_def)
  have "stuck (Suc m) (looked_at k l (frames s ! f))" if f: "f = i \<or> shows_page pid (frames s ! f)"
  proof -
    have st: "stuck m (frames s ! f)" using lost f l(1) use(1) by (auto simp: lost_def lost_but_def)
    then have "unlatched l = Unlatched" using relatched [OF assms(1)] l(2) by (simp add: stuck_def)
    then show ?thesis using slot [OF f] by (intro stuck_pin [OF st m]) (auto simp: looked_at_def)
  qed
  then have "lost pid (Suc m) i s'"
    unfolding l(3) by (intro lost_touch [OF lost _ l(1) use(1)]) (auto simp: looked_at_def shows_page_def)
  then show ?thesis using slot use(2) l(4) by blast
next
  case None
  then have k: "k \<noteq> pid" using lost_frame(3) [OF lost] by auto
  obtain r1 s1 where load: "load_page E D clock_find_victim k s = (r1, s1)" by fastforce
  have disk: "lost pid m i (s\<lparr>persistant_layer := d\<rparr>)" for d using lost by (simp add: lost_def)
  consider (ok) f where "r1 = Ok f" | (err) e where "r1 = Err e" | (panic) "r1 = Panic" by (cases r1)
  then show ?thesis
  proof cases
    case ok
    obtain s0 p where s0: "lost_but pid m i {f} s0" "fill_frame f k p False s0 = (Ok (), s1)"
      using load ok lost_claim [OF disk]
      by (fastforce simp: load_page_def sbind_def sreturn_def slift_def disk_call_def split: prod.splits result.splits)
    have f: "f < length (frames s0)" "latch (frames s0 ! f) = Unlatched" "pin_count (frames s0 ! f) = 0"
      using s0(1) by (auto simp: lost_but_def)
    have s1: "s1 = s0\<lparr>frames := (frames s0)[f := (frames s0 ! f)\<lparr>slot := Some p, dirty := False\<rparr>],
        page_table := (page_table s0)(k \<mapsto> f)\<rparr>"
      using s0(2) f by (auto simp: fill_frame_def frame_at_def sbind_def frame_update_def Let_def)
    have "pin_and_look mode E k f s1 = (r, s')"
      using fetch load by (simp add: fetch_frame_loads [OF None] sbind_def ok)
    then obtain l where l: "mode (latch (frames s1 ! f)) = Some l"
      "s' = s1\<lparr>frames := (frames s1)[f := looked_at k l (frames s1 ! f)]\<rparr>"
      using assms(5) by (rule pin_and_look_cases)
    let ?g = "looked_at k l ((frames s0 ! f)\<lparr>slot := Some p, dirty := False\<rparr>)"
    have "s' = s0\<lparr>frames := (frames s0)[f := ?g], page_table := (page_table s0)(k \<mapsto> f)\<rparr>"
      using l(2) s1 f(1) by simp
    moreover have "stuck (Suc m) ?g" if "shows_page pid ?g"
      using that k f relatched [OF assms(1)] l(1) s1 by (auto simp: looked_at_def shows_page_def stuck_def)
    ultimately show ?thesis using lost_settle [OF s0(1) _ k, of "Suc m" ?g] k by simp
  next
    case err
    then have "lost pid m i s1"
      using load disk lost_claim [OF disk]
      by (fastforce simp: load_page_def sbind_def sreturn_def slift_def disk_call_def fill_frame_def frame_at_def Let_def
          split: prod.splits result.splits if_splits)
    moreover have "s' = s1" "r = Err e"
      using fetch load by (simp_all add: fetch_frame_loads [OF None] sbind_def err)
    ultimately show ?thesis using lost_mono [of pid m i s1 "Suc m"] k by simp
  next
    case panic
    then show ?thesis using fetch load assms(5) by (simp add: fetch_frame_loads [OF None] sbind_def)
  qed
qed

section \<open>The other calls\<close>

lemma lost_new_page:
  assumes lost: "lost pid m i s" and m: "0 < m" and "new_page E D clock_find_victim p s = (r, s')" and "r \<noteq> Panic"
  shows "lost pid m i s'"
proof (cases "page_table s (pg_id p)")
  case (Some f)
  then show ?thesis using assms by (simp add: new_page_def)
next
  case None
  then have k: "pg_id p \<noteq> pid" using lost_frame(3) [OF lost] by auto
  obtain r0 s0 where c: "claim_frame E D clock_find_victim s = (r0, s0)" by fastforce
  then have r0: "r0 \<noteq> Panic" using assms(3,4) None by (auto simp: new_page_def sbind_def)
  note claim = lost_claim [OF lost c r0]
  show ?thesis
  proof (cases r0)
    case (Ok f)
    have f: "f < length (frames s0)" "latch (frames s0 ! f) = Unlatched" "pin_count (frames s0 ! f) = 0"
      using claim Ok by (auto simp: lost_but_def)
    let ?g = "(frames s0 ! f)\<lparr>slot := Some p, dirty := True, referenced := True, pin_count := 1, latch := WriteLatched\<rparr>"
    have "s' = s0\<lparr>frames := (frames s0)[f := ?g], page_table := (page_table s0)(pg_id p \<mapsto> f)\<rparr>"
      using assms(3,4) None c Ok f
      by (auto simp: new_page_def fill_frame_def pin_frame_def take_latch_def frame_at_def frame_update_def sbind_def
          sreturn_def Let_def)
    then show ?thesis
      using lost_settle [of pid m i f s0 m "pg_id p" ?g] claim Ok k by (auto simp: shows_page_def)
  next
    case (Err e)
    then show ?thesis using claim assms(3) None c by (auto simp: new_page_def)
  qed (use r0 in simp)
qed

lemma lost_latched:
  assumes "lost pid m i s" and "f < length (frames s)" and "latch (frames s ! f) \<noteq> Unlatched"
  shows "f \<noteq> i \<and> f \<notin> set (free_frames s) \<and> \<not> shows_page pid (frames s ! f)"
  using assms by (auto simp: lost_def lost_but_def stuck_def)

lemma lost_drop:
  assumes lost: "lost pid m i s" and f: "f < length (frames s)" "latch (frames s ! f) \<noteq> Unlatched"
    and "sbind (unpin_frame E f) (\<lambda>_. sreturn ()) (release_latch f s) = (r, s')" and "r \<noteq> Panic"
  shows "lost pid m i s'"
proof -
  let ?g = "(frames s ! f)\<lparr>latch := unlatched (latch (frames s ! f)), pin_count := pin_count (frames s ! f) - 1\<rparr>"
  have "s' = s\<lparr>frames := (frames s)[f := ?g]\<rparr>"
    using assms(4,5) f(1)
    by (auto simp: unpin_frame_def release_latch_def frame_at_def frame_update_def sbind_def sreturn_def Let_def
        split: if_splits)
  then show ?thesis
    using lost_touch [OF lost _ f(1), of m ?g] lost_latched [OF lost f] by (auto simp: shows_page_def)
qed

lemma lost_change:
  assumes lost: "lost pid m i s" and f: "f < length (frames s)" "latch (frames s ! f) = WriteLatched"
    and keep: "\<And>x. pg_id x \<noteq> pid \<Longrightarrow> pg_id (snd (op x)) \<noteq> pid"
    and "write_deref_mut (PageWriteGuard f) op s = (r, s')" and "r \<noteq> Panic"
  shows "lost pid m i s'"
proof -
  have other: "f \<noteq> i \<and> f \<notin> set (free_frames s) \<and> \<not> shows_page pid (frames s ! f)"
    using lost_latched [OF lost f(1)] f(2) by simp
  obtain p where p: "slot (frames s ! f) = Some p"
    using assms(5,6) f(1) by (auto simp: frame_update_def Let_def split: option.splits)
  let ?g = "(frames s ! f)\<lparr>dirty := True, slot := Some (snd (op p))\<rparr>"
  have "s' = s\<lparr>frames := (frames s)[f := ?g]\<rparr>"
    using assms(5) f(1) p by (auto simp: frame_update_def Let_def split: prod.splits)
  moreover have "\<not> shows_page pid ?g" using other keep [of p] p by (simp add: shows_page_def)
  ultimately show ?thesis using lost_touch [OF lost _ f(1), of m ?g] other by simp
qed

lemma lost_clean: "lost pid m i s \<Longrightarrow> lost pid m i (frame_update f (\<lambda>f. f\<lparr>dirty := False\<rparr>) s)"
  by (cases "f < length (frames s)")
    (auto simp: lost_def lost_but_def frame_update_def nth_list_update list_update_beyond not_less shows_page_def stuck_def)

lemma lost_disk_call: "kept (lost pid m i) (disk_call c)"
  by (auto simp: kept_def disk_call_def lost_def split: prod.splits)

lemma lost_frame_at: "kept (lost pid m i) (frame_at f)"
  by (simp add: kept_def frame_at_def)

lemma lost_flush: "kept (lost pid m i) (flush_all E D)"
proof -
  have "kept (lost pid m i) (flush_frames E D fs)" for fs
  proof (induction fs)
    case (Cons f fs)
    have "kept (lost pid m i) (\<lambda>s. flush_frames E D fs (frame_update f (\<lambda>f. f\<lparr>dirty := False\<rparr>) s))"
      using Cons lost_clean [of pid m i _ f] unfolding kept_def by blast
    then show ?case
      using Cons by (auto intro!: kept_intros lost_disk_call lost_frame_at split: option.split)
  qed (simp add: kept_intros)
  then show ?thesis
    by (intro keptI) (auto simp: flush_all_def sbind_eq dest!: keptD [OF lost_disk_call] dest: keptD)
qed

text \<open>\<^verbatim>\<open>swap_file\<close> asserts that no frame is pinned: it can return with an error of the disk, but not with success.\<close>

lemma reset_pinned:
  "f \<in> set fs \<Longrightarrow> is_pinned (frames s ! f) \<Longrightarrow> fst (reset_frames fs s) = Panic"
proof (induction fs arbitrary: s)
  case (Cons g fs)
  show ?case
  proof (cases "g < length (frames s) \<and> \<not> is_pinned (frames s ! g) \<and> write_latched (latch (frames s ! g)) \<noteq> None")
    case True
    then have "f \<in> set fs" using Cons.prems by auto
    then show ?thesis
      using True Cons.IH [of "frame_update g (\<lambda>f. f\<lparr>slot := None, dirty := False, referenced := False\<rparr>) s"] Cons.prems(2)
      by (auto simp: sbind_def frame_at_def nth_list_update is_pinned_def)
  next
    case False
    then show ?thesis by (auto simp: sbind_def frame_at_def spanic_def)
  qed
qed simp

lemma lost_swap:
  assumes lost: "lost pid m i s" and swap: "bpm_swap_file E D pages s = (r, s')"
  shows "r \<noteq> Ok ()" and "r \<noteq> Panic \<Longrightarrow> lost pid m i s'"
proof -
  obtain r1 s1 where flush: "flush_all E D s = (r1, s1)" by fastforce
  obtain r2 s2 where disk: "disk_call (dm_swap_file D pages) s1 = (r2, s2)" by fastforce
  have s1: "lost pid m i s1" by (rule keptD [OF lost_flush flush lost])
  then have s2: "lost pid m i s2" by (rule keptD [OF lost_disk_call disk])
  have "is_pinned (frames s2 ! i)" "i \<in> set [0..<length (frames s2)]"
    using lost_frame(1,2) [OF s2] by (auto simp: stuck_pinned)
  then have "fst (reset_frames [0..<length (frames s2)] s2) = Panic" by (intro reset_pinned)
  then have "r = (if r1 = Ok () \<and> r2 = Ok () then Panic else r) \<and> (r \<noteq> Panic \<longrightarrow> s' = s1 \<or> s' = s2)"
    "r1 \<noteq> Ok () \<or> r2 \<noteq> Ok () \<Longrightarrow> r \<noteq> Ok ()"
    using swap flush disk
    by (cases r1; cases r2; auto simp: bpm_swap_file_def sbind_def split: prod.splits)+
  then show "r \<noteq> Ok ()" "r \<noteq> Panic \<Longrightarrow> lost pid m i s'" using s1 s2 by (auto split: if_splits)
qed

lemma lost_call:
  assumes "pool_call E D pid s s'" and "lost pid m i s" and "0 < m" and "Suc m < 2 ^ 32"
  shows "lost pid (Suc m) i s'"
  using assms
proof cases
  case (by_read k r)
  then obtain r0 where "fetch_frame read_latched E D clock_find_victim k s = (r0, s')" "r0 \<noteq> Panic"
    by (auto simp: fetch_read_def sbind_eq sreturn_def)
  then show ?thesis using lost_fetch [OF modes(1) assms(2,4)] by blast
next
  case (by_write k r)
  then obtain r0 where "fetch_frame write_latched E D clock_find_victim k s = (r0, s')" "r0 \<noteq> Panic"
    by (auto simp: fetch_write_def sbind_eq sreturn_def)
  then show ?thesis using lost_fetch [OF modes(2) assms(2,4)] by blast
next
  case (by_create p r)
  then show ?thesis using lost_new_page [OF assms(2,3)] lost_mono [of pid m i s' "Suc m"] by simp
next
  case (by_drop_read j n r)
  then show ?thesis using lost_drop [OF assms(2), of j] lost_mono [of pid m i s' "Suc m"] by simp
next
  case (by_drop_write j r)
  then show ?thesis using lost_drop [OF assms(2), of j] lost_mono [of pid m i s' "Suc m"] by simp
next
  case (by_change j op r)
  then show ?thesis using lost_change [OF assms(2), of j op r s'] lost_mono [of pid m i s' "Suc m"] by simp
next
  case (by_flush r)
  then show ?thesis using keptD [OF lost_flush _ assms(2)] lost_mono [of pid m i s' "Suc m"] by fastforce
next
  case (by_swap pages r)
  then show ?thesis using lost_swap(2) [OF assms(2)] lost_mono [of pid m i s' "Suc m"] by fastforce
qed

lemma lost_calls:
  assumes "(pool_call E D pid ^^ n) s s'" and "lost pid m i s" and "0 < m" and "m + n < 2 ^ 32"
  shows "lost pid (m + n) i s'"
  using assms(1,4)
proof (induction n arbitrary: s')
  case 0
  then show ?case using assms(2) by simp
next
  case (Suc n)
  then obtain s1 where s1: "(pool_call E D pid ^^ n) s s1" "pool_call E D pid s1 s'" by auto
  then show ?case using lost_call [OF s1(2) Suc.IH [OF s1(1)]] assms(3) Suc.prems(2) by simp
qed

section \<open>Properties\<close>

text \<open>While the frame is lost, every fetch of the page is refused.\<close>

lemma lost_refuses:
  assumes "latch_mode mode" and lost: "lost pid m i s" and "Suc m < 2 ^ 32"
  shows "\<exists>b. b \<noteq> pid \<and> fst (fetch_frame mode E D clock_find_victim pid s) = Err (WrongPage pid b)"
proof -
  obtain p where p: "slot (frames s ! i) = Some p" "pg_id p \<noteq> pid" using lost_frame(4) [OF lost] by blast
  have st: "stuck m (frames s ! i)" using lost_frame(2) [OF lost] .
  obtain l where l: "mode Unlatched = Some l" using assms(1) by (auto simp: latch_mode_def)
  have "pin_count (frames s ! i) \<noteq> - 1"
  proof
    assume "pin_count (frames s ! i) = - 1"
    then have "unat (- 1 :: 32 word) \<le> m" using st by (simp add: stuck_def)
    then show False using assms(3) by (simp add: unsigned_minus_1_eq_mask mask_eq_exp_minus_1)
  qed
  then have "fst (pin_and_look mode E pid i s) = Err (WrongPage pid (pg_id p))"
    using p st l lost_frame(1) [OF lost]
    by (simp add: pin_and_look_def pin_frame_def take_latch_def frame_at_def sbind_def Let_def stuck_def)
  then show ?thesis using p(2) by (simp add: fetch_frame_found [OF lost_frame(3) [OF lost]])
qed

lemma refused_fetch_loses:
  assumes inv: "pool_inv_but E ids stored clock_ok {f} s" and none: "page_table s pid = None"
    and wrong: "pg_id p \<noteq> pid"
  defines "g \<equiv> (frames s ! f)\<lparr>slot := Some p, dirty := False, referenced := True, pin_count := 1, latch := Unlatched\<rparr>"
  shows "lost pid 1 f (s\<lparr>frames := (frames s)[f := g], page_table := (page_table s)(pid \<mapsto> f)\<rparr>)"
proof -
  note clauses = pool_inv_butD [OF inv]
  have f: "f < length (frames s)" "f \<notin> ran (page_table s)" "f \<notin> set (free_frames s)"
    using clauses(6) clauses(7) [of f] by auto
  have free: "pin_count (frames s ! j) = 0" if "j \<in> set (free_frames s)" for j
    using clauses(3) clauses(7) [of j] that by (auto simp: list_all_length frame_ok_def)
  have "\<not> shows_page pid (frames s ! j)" if j: "j < length (frames s)" "j \<noteq> f" "j \<notin> set (free_frames s)" for j
  proof -
    obtain q where q: "page_table s q = Some j" using clauses(8) [OF j(1)] j(2,3) by (auto simp: ran_def)
    then have "q \<noteq> pid" using none by auto
    then show ?thesis using clauses(4) [OF q] by (auto simp: mapped_ok_def shows_page_def)
  qed
  then show ?thesis
    using clauses(2,5,7) f none free wrong
    by (auto simp: lost_def lost_but_def nth_list_update g_def stuck_def ran_map_upd) (auto simp: ran_def)
qed

text \<open>
  C33: \<^verbatim>\<open>fetch_write\<close> of a page whose slot in the file holds another page (the file disk looks only at the page number, so
  an identifier of another table is enough) is refused with \<^verbatim>\<open>WrongPage\<close>, and costs the pool a frame. The guard that
  would unpin the frame is never built, and after any sequence of further calls, as long as they are too few for the
  32-bit pin count to wrap around, the frame is still mapped, pinned and latched by nobody. So it is never reused; every
  fetch of the page is refused again; and \<^verbatim>\<open>swap_file\<close>, which asserts that no frame is pinned, can not succeed.
\<close>

theorem wrong_page_leaks_pin:
  assumes "varint_ok E" and "db_inv E t s" and "healthy (persistant_layer s)" and "page_table s pid = None"
    and "file_stored E (persistant_layer s) pid = Some p" and "pg_id p \<noteq> pid"
    and "\<exists>j < length (frames s). \<not> is_pinned (frames s ! j)"
    and "db_write E pid s = (r, s1)"
  shows "r = Err (WrongPage pid (pg_id p)) \<and>
    (\<exists>i. \<forall>n s2. n + 2 < 2 ^ 32 \<longrightarrow> (pool_call E (file_disk_manager E) pid ^^ n) s1 s2 \<longrightarrow>
      page_table s2 pid = Some i \<and> i < length (frames s2) \<and>
      is_pinned (frames s2 ! i) \<and> latch (frames s2 ! i) = Unlatched \<and>
      (\<exists>b. b \<noteq> pid \<and> fst (db_write E pid s2) = Err (WrongPage pid b)) \<and>
      (\<exists>b. b \<noteq> pid \<and> fst (db_read E pid s2) = Err (WrongPage pid b)) \<and>
      (\<forall>pages. fst (bpm_swap_file E (file_disk_manager E) pages s2) \<noteq> Ok ()))"
proof -
  let ?D = "file_disk_manager E" and ?ids = "{pid. get_table_id pid = t}"
  obtain r0 d where rd: "file_read_page pid (persistant_layer s) = (r0, d)" by fastforce
  note law = file_read_law [OF rd]
  obtain raw where raw: "r0 = Ok raw" "decode_page E raw = Some p"
    using law assms(3,5) by (auto simp: file_stored_def split: option.splits)
  obtain rest where de: "page_deserialize E raw = Ok (p, rest)"
    using raw(2) by (auto simp: decode_page_def split: result.splits)
  let ?s = "s\<lparr>persistant_layer := d\<rparr>"
  have same: "file_stored E d = file_stored E (persistant_layer s)" and well: "healthy d"
    using law assms(3) same_file_open [of "persistant_layer s" d] by (auto simp: file_stored_def fun_eq_iff)
  have inv: "pool_inv_but E ?ids (file_stored E) clock_ok {} ?s"
    using assms(2) file_pool.same_disk(1) [OF same] by (simp add: db_defs)
  obtain rc s2 where claim: "claim_frame E ?D clock_find_victim ?s = (rc, s2)" by fastforce
  note cl = file_pool.claim_law [OF assms(1) inv claim]
  obtain f where rc: "rc = Ok f" using cl well assms(7) by (cases rc) auto
  have inv2: "pool_inv_but E ?ids (file_stored E) clock_ok {f} s2" and none: "page_table s2 pid = None"
    using cl rc assms(4) by simp_all
  have f: "f < length (frames s2)" "latch (frames s2 ! f) = Unlatched" "pin_count (frames s2 ! f) = 0"
    using pool_inv_butD(3) [OF inv2] pool_inv_butD(7) [OF inv2, of f] by (auto simp: list_all_length frame_ok_def)
  let ?g = "(frames s2 ! f)\<lparr>slot := Some p, dirty := False, referenced := True, pin_count := 1, latch := Unlatched\<rparr>"
  have out: "r = Err (WrongPage pid (pg_id p))"
    "s1 = s2\<lparr>frames := (frames s2)[f := ?g], page_table := (page_table s2)(pid \<mapsto> f)\<rparr>"
    using assms(4,6,8) rd raw de claim rc f
    by (auto simp: db_defs fetch_write_def fetch_frame_loads load_page_def pin_and_look_def
        fill_frame_def pin_frame_def take_latch_def release_latch_def frame_at_def frame_update_def disk_call_def
        file_disk_manager_def sbind_def sreturn_def slift_def Let_def)
  have lost: "lost pid 1 f s1" unfolding out(2) by (rule refused_fetch_loses [OF inv2 none assms(6)])
  show ?thesis
  proof (intro conjI exI [of _ f] allI impI)
    fix n s2 assume n: "n + 2 < (2 :: nat) ^ 32" and calls: "(pool_call E ?D pid ^^ n) s1 s2"
    then have now: "lost pid (1 + n) f s2" by (intro lost_calls [OF calls lost]) simp_all
    note fr = lost_frame [OF now]
    show "page_table s2 pid = Some f" "f < length (frames s2)" by (rule fr(3), rule fr(1))
    show "is_pinned (frames s2 ! f)" "latch (frames s2 ! f) = Unlatched" using stuck_pinned [OF fr(2)] by simp_all
    have "Suc (1 + n) < 2 ^ 32" using n by simp
    note refuses = lost_refuses [OF _ now this, where E = E and D = ?D]
    show "\<exists>b. b \<noteq> pid \<and> fst (db_write E pid s2) = Err (WrongPage pid b)"
      using refuses [OF modes(2)] by (auto simp: db_write_def fetch_write_def sbind_def split: prod.splits)
    show "\<exists>b. b \<noteq> pid \<and> fst (db_read E pid s2) = Err (WrongPage pid b)"
      using refuses [OF modes(1)] by (auto simp: db_read_def fetch_read_def sbind_def split: prod.splits)
    show "fst (bpm_swap_file E ?D pages s2) \<noteq> Ok ()" for pages
      using lost_swap(1) [OF now, of E ?D pages] by (cases "bpm_swap_file E ?D pages s2") auto
  qed (rule out(1))
qed

text \<open>
  A file that holds page 1 of table 1, and a pool that asks for page 1 of table 2: refused, and refused again by the
  next call, with the frame pinned for both.
\<close>

lemma wrong_page_leaks_pin_witness:
  "\<exists>d s s1 i. bpm_new d (ClockEvictor 0) 2 = (Ok s :: (pool, bpm_error) result) \<and>
    db_write demo_env (PageId (TableId 2) 1) s = (Err (WrongPage (PageId (TableId 2) 1) (demo_id 1)), s1) \<and>
    page_table s1 (PageId (TableId 2) 1) = Some i \<and> is_pinned (frames s1 ! i) \<and>
    page_table (snd (db_write demo_env (PageId (TableId 2) 1) s1)) (PageId (TableId 2) 1) = Some i \<and>
    is_pinned (frames (snd (db_write demo_env (PageId (TableId 2) 1) s1)) ! i)"
proof -
  let ?p = "demo_leaf 1 [demo_row 4] None None" and ?pid = "PageId (TableId 2) 1" and ?D = "file_disk_manager demo_env"
  obtain raw where raw: "as_raw_page demo_env ?p = Ok raw" "length raw = PAGE_SIZE" "decode_page demo_env raw = Some ?p"
    using storable_raw [OF demo_varint_ok demo_storable(1) [of 4]] by blast
  obtain r0 d where w: "file_write_page (demo_id 1) raw demo_disk = (r0, d)" by fastforce
  then have d: "healthy d" "file_stored demo_env d (demo_id 1) = Some ?p"
    using file_disk.write_law [of "demo_id 1" "TableId 1" raw demo_env demo_disk r0 d] raw(2,3)
    by (auto simp: file_disk_manager_def demo_id_def)
  obtain s where s: "bpm_new d (ClockEvictor 0) 2 = (Ok s :: (pool, bpm_error) result)" "db_inv demo_env (TableId 2) s"
    using file_pool.new_pool_law [of 2 "ClockEvictor 0" d demo_env "TableId 2"] by (auto simp: db_defs)
  have fields: "page_table s ?pid = None" "persistant_layer s = d" "\<exists>j < length (frames s). \<not> is_pinned (frames s ! j)"
    using s(1) by (auto simp: bpm_new_def frame_default_def is_pinned_def intro!: exI [of _ 0])
  have stored: "file_stored demo_env d ?pid = Some ?p" and neq: "pg_id ?p \<noteq> ?pid" and "pg_id ?p = demo_id 1"
    using d(2) by (auto simp: file_stored_def demo_id_def)
  obtain r1 s1 where w1: "db_write demo_env ?pid s = (r1, s1)" by fastforce
  obtain r2 s2 where w2: "db_write demo_env ?pid s1 = (r2, s2)" by fastforce
  have at: "healthy (persistant_layer s)" "file_stored demo_env (persistant_layer s) ?pid = Some ?p"
    using d(1) stored fields(2) by simp_all
  note leak = wrong_page_leaks_pin [OF demo_varint_ok s(2) at(1) fields(1) at(2) neq fields(3) w1]
  have r1: "r1 = Err (WrongPage ?pid (demo_id 1))" using leak by simp
  obtain i where i: "\<And>n s2. n + 2 < 2 ^ 32 \<Longrightarrow> (pool_call demo_env ?D ?pid ^^ n) s1 s2 \<Longrightarrow>
      page_table s2 ?pid = Some i \<and> is_pinned (frames s2 ! i) \<and> (\<exists>b. fst (db_write demo_env ?pid s2) = Err (WrongPage ?pid b))"
    using leak by blast
  have one: "page_table s1 ?pid = Some i" "is_pinned (frames s1 ! i)" "r2 \<noteq> Panic"
    using i [of 0 s1] w2 by auto
  then have "(pool_call demo_env ?D ?pid ^^ 1) s1 s2" using w2 by (auto simp: db_write_def intro: by_write)
  from i [OF _ this] have "page_table s2 ?pid = Some i" "is_pinned (frames s2 ! i)" by simp_all
  then show ?thesis using s(1) w1 r1 one(1,2) by (intro exI [of _ d] exI [of _ s] exI [of _ s1] exI [of _ i]) (simp add: w2)
qed

end
