(* ===== verification/Spec2Isabelle.thy ===== *)
theory Spec2Isabelle
  imports Rebalance_Pages Vacuum_Props Shell_Correct Leaked_Pin
begin

text \<open>
  \<^bold>\<open>rust-db: pages, rows, their byte formats, the file, the buffer pool, the tree, the table and the shell.\<close>

  The program is a small single-file database: a table is a B+tree of 4096-byte pages, kept in a
  file through a buffer pool. Its parts, bottom up:

  \<^item> \<^verbatim>\<open>src/traits.rs\<close>, \<^verbatim>\<open>src/types/\<close>: the trait \<^verbatim>\<open>Serializable\<close>, page and table identifiers, log
    sequence numbers, slot entries;
  \<^item> \<^verbatim>\<open>src/schema/\<close>: values, rows, keys, columns, schemas and row validation;
  \<^item> \<^verbatim>\<open>src/page/\<close>: leaf, internal, meta and free pages, the operations on them, and the codec that
    turns a page into a checksummed raw page and back;
  \<^item> \<^verbatim>\<open>src/disk/\<close>, \<^verbatim>\<open>src/bpm/\<close>: the file and the buffer pool;
  \<^item> \<^verbatim>\<open>src/btree/\<close>, \<^verbatim>\<open>src/table/\<close>: the tree over the pool, and the table over the tree;
  \<^item> \<^verbatim>\<open>src/bin/repl.rs\<close>: the command line.

  A table descends its tree by \<^verbatim>\<open>find_child\<close>, changes one leaf, and on the way back splits pages
  that are full and merges or refills pages that are underfull. All of that is done by operations
  of \<^verbatim>\<open>src/page/\<close> on one page or on two siblings. Pages are reached through guards of the buffer
  pool, which keeps some pages in frames and moves the others to and from the file.

  \<^bold>\<open>Theories.\<close>
  \<^item> \<open>Prelude\<close>: results (\<open>Ok\<close>, \<open>Err\<close>, \<open>Panic\<close>), byte readers, big-endian bytes, the panicking
    \<^verbatim>\<open>Vec\<close> primitives, lemmas on sorted and distinct lists.
  \<^item> \<open>Rust_Std\<close>: the functions of Rust's standard library that the code calls, and \<open>env\<close>, the record
    of the functions that come from other crates. \<open>Concrete_Env\<close> has one such record for
    the witnesses.
  \<^item> \<open>Serializable\<close>: \<^verbatim>\<open>src/traits.rs\<close>; the locales \<open>serializable\<close>, \<open>serializable_seq\<close> and
    \<open>serializable_option\<close>.
  \<^item> \<open>Types\<close>: \<^verbatim>\<open>src/types/ids.rs\<close>, \<^verbatim>\<open>lsn.rs\<close>, \<^verbatim>\<open>slot.rs\<close>. \<open>Layout\<close>: the constants of
    \<^verbatim>\<open>src/page/mod.rs\<close> and \<^verbatim>\<open>src/schema/mod.rs\<close>, each by the source's own expression.
  \<^item> \<open>Values\<close>: \<^verbatim>\<open>RowValue\<close>, \<^verbatim>\<open>Key\<close>, \<^verbatim>\<open>Row\<close>. \<open>Schema\<close>: \<^verbatim>\<open>Column\<close>, \<^verbatim>\<open>Schema\<close>, \<^verbatim>\<open>validate_row\<close>.
    \<open>Schema_Correct\<close> has their properties.
  \<^item> \<open>Page\<close>: \<^verbatim>\<open>src/page/mod.rs\<close> (data and accessors), \<^verbatim>\<open>error.rs\<close>, \<^verbatim>\<open>invariants.rs\<close>; the invariant
    \<open>page_inv\<close> is \<^verbatim>\<open>check_invariants\<close> as a predicate.
  \<^item> \<open>Leaf_Page\<close>, \<open>Internal_Page\<close>, \<open>Meta_Page\<close>: \<^verbatim>\<open>leaf.rs\<close>, \<^verbatim>\<open>internal.rs\<close>, \<^verbatim>\<open>meta.rs\<close>, one definition
    per method. \<open>Page_Ops\<close>: the methods of \<^verbatim>\<open>src/page/mod.rs\<close> that work on both kinds of tree page
    (split, merge, borrow, bulk borrow).
  \<^item> \<open>Store\<close>: the locale \<open>keyed_store\<close>, the contract of a map from keys to rows.
  \<^item> \<open>Leaf_Correct\<close>, \<open>Leaf_Siblings\<close>, \<open>Internal_Correct\<close>, \<open>Page_Split\<close>, \<open>Sibling_Pages\<close>,
    \<open>Rebalance_Pages\<close>: what those operations do, on every branch. \<open>Demo_Pages\<close> holds
    the concrete pages of the witnesses.
  \<^item> \<open>Codec\<close>: \<^verbatim>\<open>src/page/codec.rs\<close>. \<open>Codec_Layout\<close> and \<open>Codec_Correct\<close>: what it writes, and that it
    reads back exactly that.
  \<^item> \<open>Effects\<close>: calls that change a state, and the conditions they keep (\<open>kept\<close>). \<open>Disk\<close>: \<^verbatim>\<open>src/disk/mod.rs\<close>, with the
    functions of \<^verbatim>\<open>std::path\<close> that it uses; the locale \<open>page_disk\<close> is the
    contract of the trait \<^verbatim>\<open>DiskManager\<close>.
  \<^item> \<open>Frames\<close>: \<^verbatim>\<open>src/bpm/frame.rs\<close> and \<^verbatim>\<open>eviction.rs\<close>; the locale \<open>eviction_policy\<close> is the contract of
    the trait \<^verbatim>\<open>EvictionPolicy\<close>, interpreted for both policies. \<open>Pool\<close>: \<^verbatim>\<open>manager.rs\<close>, \<^verbatim>\<open>guards.rs\<close>,
    \<^verbatim>\<open>error.rs\<close>.
  \<^item> \<open>Pool_Correct\<close>: the invariant of the pool and the map from identifiers to pages that a pool
    stands for, and the law of every operation, for any disk and policy that keep their contracts
    (locale \<open>buffer_pool\<close>). \<open>Pool_Props\<close>: those laws for the pool the program uses. \<open>Leaked_Pin\<close>: calls of the pool
    as a step relation, and a frame that a refused fetch leaves pinned through all of them.
  \<^item> \<open>Procs\<close>: procedures with loops and dropped guards, and the predicate \<open>wp\<close> the layers above the pool are
    proved with. \<open>Guarded\<close>: the pool as its clients see it, a map of pages and the multiset of the guards
    that are out (\<open>tracks\<close>), with one rule per call.
  \<^item> \<open>Table_Pages\<close>, \<open>BTree\<close>, \<open>Table\<close>: \<^verbatim>\<open>src/table/\<close> and \<^verbatim>\<open>src/btree/\<close>, every function with the guards it
    takes, keeps and drops.
  \<^item> \<open>Tree_Shape\<close>, \<open>Tree_Path\<close>, \<open>Tree_Pages\<close>, \<open>Tree_Grow\<close>: trees apart from the pool: their keys and bounds,
    trees with a hole, what pages represent a tree (\<open>rep\<close>, \<open>links\<close>), splitting. \<open>Table_Space\<close>: which pages
    are in use, free or the meta page (\<open>space\<close>), and the rules of \<^verbatim>\<open>allocate\<close> and \<^verbatim>\<open>free\<close>.
  \<^item> \<open>BTree_Search\<close>, \<open>BTree_Insert\<close>, \<open>Table_Correct\<close>: the rules of the tree and of the table, for any disk
    and policy. \<open>Tree_Props\<close>, \<open>Table_Props\<close>: the same for the pool the program uses; \<open>table_state\<close> is a table at rest.
  \<^item> \<open>Tree_Shrink\<close>: taking a row out of a tree apart from the pool, with what borrowing and merging do to the
    level above. \<open>BTree_Delete\<close>, \<open>Delete_Props\<close>: the rules of deletion, for any disk and policy and for the program.
  \<^item> \<open>Vacuum_Pages\<close>, \<open>Vacuum_Props\<close>: the pages that \<^verbatim>\<open>vacuum\<close> builds, bottom up, and what the pool stands for after it.
  \<^item> \<open>Requests\<close>: a table as its clients see it, an ordered map (\<open>table_holds\<close>, \<open>ideal\<close>).
  \<^item> \<open>Rust_Text\<close>: the functions of the standard library on text: characters, white space, numbers read and printed.
    \<open>Typed_Text\<close>: the functions of \<^verbatim>\<open>src/table/mod.rs\<close> and \<^verbatim>\<open>src/schema/mod.rs\<close> that take typed text and print rows.
  \<^item> \<open>Shell\<close>: \<^verbatim>\<open>src/bin/repl.rs\<close>. \<open>Shell_Correct\<close>: a session, from the typed lines to the saved file.

  \<^bold>\<open>How Rust is read.\<close>
  \<^item> A method that takes \<^verbatim>\<open>&mut self\<close> takes the page and returns it beside its result. Every
    \<^verbatim>\<open>return Err\<close>, \<^verbatim>\<open>?\<close>, \<^verbatim>\<open>expect\<close>, \<^verbatim>\<open>unreachable!\<close>, failed assertion and out-of-range index is a
    branch. The state beside a \<open>Panic\<close> has no meaning.
  \<^item> \<^verbatim>\<open>u8\<close>, \<^verbatim>\<open>u16\<close>, \<^verbatim>\<open>u32\<close>, \<^verbatim>\<open>u64\<close>, \<^verbatim>\<open>i64\<close> are words of that width. \<^verbatim>\<open>usize\<close> is \<open>nat\<close>: each value
    of it is the length of something in memory, and where an addition of the code could overflow, or a
    subtraction go below zero, the panic is written out. \<^verbatim>\<open>as u16\<close> truncates. An \<^verbatim>\<open>f64\<close> is its 64 bits.
  \<^item> A \<^verbatim>\<open>debug_assert!\<close> panics when the field \<open>debug_assertions\<close> of the environment holds and does
    nothing otherwise, so the theorems speak of both builds.
  \<^item> A \<^verbatim>\<open>String\<close> is its UTF-8 bytes. A serialiser returns the bytes it writes, the page codec
    writes through a cursor (buffer and position); a reader is a function from the input to a value and the rest of the input.
  \<^item> The varint codec of the crate \<^verbatim>\<open>integer_encoding\<close> and the CRC of \<^verbatim>\<open>crc32fast\<close> are fields of
    \<open>env\<close>. The only hypothesis made of them is \<open>varint_ok\<close>: an encoded length is read back, has the
    announced size, and takes at least one byte. Nothing is assumed of the CRC.

  \<^item> A file is its contents; the disk keeps its path, the file the path names and, after a rename, the one
    its handle is still open on. Two paths that differ as text are two files: nothing else writes to the database or to its
    \<^verbatim>\<open>.vac\<close> neighbour, and neither is a link to the other. Whether a system call fails, and how much a failing write has
    written by then, is a schedule that is part of the state, so the theorems quantify over all failures.
  \<^item> Calls run one at a time. A latch that is taken in a conflicting mode would block for ever, which
    is \<open>Panic\<close> here; std documents a deadlock or a panic for a thread that does it.

  \<^bold>\<open>What the lemmas show.\<close>
  \<^item> Codecs. Every serialisable type round-trips with any bytes following it; a well-formed page
    serialises, its raw page deserialises to it, and the raw page determines the page. Whatever
    the bytes are, a page that deserialises satisfies \<open>page_inv\<close> and had the right checksum, and except for the
    table name of a meta page no bytes make the reader panic.
  \<^item> Leaves refine a finite map of bounded size: \<^verbatim>\<open>get\<close>, \<^verbatim>\<open>insert\<close> and \<^verbatim>\<open>remove\<close> are lookup, update at a fresh key and
    deletion; which insertions are refused, and with which error, the map alone tells (\<open>leaf_refuses\<close>). Errors leave the
    page as it was, and no operation panics on a page with \<open>page_inv\<close>.
  \<^item> Internal pages route: \<^verbatim>\<open>find_child\<close> picks the child whose key interval holds the key, and insert,
    remove and replace change exactly the routes they should.
  \<^item> A split keeps all records or separators, returns a separator between the halves, leaves both
    halves well-formed, and always leaves room for the entry that caused it: that is what makes
    the single retry of a tree insertion enough.
  \<^item> Two siblings either merge or refill: merging keeps everything and fits exactly when \<^verbatim>\<open>can_merge_with\<close>
    says so; bulk borrowing is refused exactly where the donor would be left empty or there is no room, and otherwise moves
    entries in order until the receiver has caught up; and an underfull page that cannot merge always receives something.
  \<^item> The list of free pages headed by the meta page is a stack, and freeing a page twice makes it a cycle.
  \<^item> The disk reads what was written and swaps files as a whole, with two exceptions: for a path without a directory the
    swap happens and is reported as an error, and for a path that ends in \<^verbatim>\<open>.vac\<close> the temporary file is the database itself,
    which an error leaves empty or half-written.
  \<^item> A pool stands for a map from identifiers to pages: of a cached page what its frame holds, of
    another what its slot in the file decodes to. Fetching, evicting and flushing keep that map through
    all failures; writing through a guard and \<^verbatim>\<open>new_page\<close> change it at one place; after an \<^verbatim>\<open>Ok\<close> flush
    it is in the file. A frame that is not pinned is found by both policies.
  \<^item> A table at rest is a tree with sorted keys, all leaves at one depth and linked in order, a meta page and a free
    list, which are all the pages there are. \<^verbatim>\<open>get\<close>, \<^verbatim>\<open>get_range\<close> and \<^verbatim>\<open>get_all\<close> read the map it stands for, \<^verbatim>\<open>insert\<close>
    adds to it, through every split; creation makes the empty one, and a flushed table is found again by a new pool.
    Creation leaves the empty table in the file. All of them terminate, give back every guard and fail only when a system call does or frames run out.
  \<^item> \<^verbatim>\<open>delete\<close> takes a row out, through every merge, borrow and collapse of the root; with keys of one size (integers)
    it cannot fail, with others only with \<^verbatim>\<open>PageFull\<close>, when a longer separator does not fit the page above.
  \<^item> \<^verbatim>\<open>vacuum\<close> replaces the file by packed pages (\<open>packed_tree\<close>: a page ends where the next entry does not fit) with the same
    rows and no free page, or fails and leaves the table as it was (with the exception of the swap, above). The last page of a level can be left with a single child, which the other operations do not expect; where none
    is, the result is a table at rest.
  \<^item> So a table answers any sequence of calls as a finite map does, and every row it holds conforms to its schema:
    \<^verbatim>\<open>validate_row\<close> accepts exactly the rows that conform and fit a leaf.
  \<^item> A session with the shell prints what the map answers to the typed lines, and the next session finds the map it
    left. Integers, booleans and nulls can be typed as they are printed.

  \<^bold>\<open>Bounds and termination.\<close> No definition uses fuel. The loops of the tree and the table are
  \<open>partial_function (option)\<close>, and that they end is part of their theorems. The loops over slots and entries recurse on a list
  or a counter; the bulk borrow loops are functions that terminate because the donor has fewer
  entries after each pass, and the binary search because its interval shrinks. The sizes (4096-byte
  pages, entries of at most a quarter of a page, at most 255 columns) are those of the source.

  \<^bold>\<open>Not modelled.\<close> Threads: calls run one at a time. The wording of error messages and of what the shell prints around its
  values, its two program arguments, logging. How a float is printed (a parameter; how one is read is modelled). Guards
  that go out of scope together are dropped one by one, in an order that need not be the compiler's: what is released of
  one frame does not touch another.
\<close>

end
